(* ===== verification/Prelude.thy ===== *)
theory Prelude
  imports Complex_Main "HOL-Library.Word" "HOL-Library.Sublist"
begin

text \<open>
  Shared vocabulary of the development: the Go types every component uses, the lemma
  collections the components feed, and the sorted child index. Both prefix structures of the
  program (the runs of \<^verbatim>\<open>router/internal/policy/affinity/tree.go\<close> and the nodes of
  \<^verbatim>\<open>kvcache/kvcache.go\<close>) keep their children in a slice sorted by a 64-bit key and search
  it with the same hand-written binary search; the search is defined once here and its contract
  is the locale \<open>child_index\<close>.
\<close>

unbundle bit_operations_syntax

section \<open>Go types\<close>

text \<open>\<^verbatim>\<open>uint64\<close> and \<^verbatim>\<open>uint32\<close> are machine words; \<^verbatim>\<open>time.Time\<close> and \<^verbatim>\<open>time.Duration\<close> are
  integer nanoseconds; \<^verbatim>\<open>int\<close>, \<^verbatim>\<open>int64\<close> counters are integers.\<close>

type_synonym u64 = "64 word"
type_synonym u32 = "32 word"
type_synonym ns = int
type_synonym url = string

abbreviation second :: ns where
  "second \<equiv> 1000000000"

abbreviation millisecond :: ns where
  "millisecond \<equiv> 1000000"

text \<open>\<^verbatim>\<open>time.Time.Unix()\<close>: whole seconds, rounded towards minus infinity.\<close>

definition unix :: "ns \<Rightarrow> int" where
  "unix t = t div second"

lemma unix_mono: "s \<le> t \<Longrightarrow> unix s \<le> unix t"
  by (simp add: unix_def zdiv_mono1)

section \<open>Lemma collections\<close>

named_theorems index_simps \<open>what a child lookup returns after an update of the child slice\<close>
named_theorems wf_intros \<open>operations that keep a component's invariant\<close>
named_theorems frame_simps \<open>fields an operation leaves alone\<close>

section \<open>Lists\<close>

lemma sorted_wrt_less_distinct:
  fixes xs :: "'a::order list"
  shows "sorted_wrt (<) xs \<Longrightarrow> distinct xs"
  by (induction xs) auto

lemma sum_list_update:
  fixes f :: "'a \<Rightarrow> int"
  assumes "i < length xs"
  shows "(\<Sum>x\<leftarrow>xs[i := y]. f x) = (\<Sum>x\<leftarrow>xs. f x) - f (xs ! i) + f y"
  using assms by (induction xs arbitrary: i) (auto split: nat.splits)

lemma sum_list_insert_at:
  fixes f :: "'a \<Rightarrow> int"
  shows "(\<Sum>x\<leftarrow>take i xs @ y # drop i xs. f x) = (\<Sum>x\<leftarrow>xs. f x) + f y"
proof -
  have "(\<Sum>x\<leftarrow>take i xs. f x) + (\<Sum>x\<leftarrow>drop i xs. f x) = (\<Sum>x\<leftarrow>xs. f x)"
    by (metis append_take_drop_id map_append sum_list_append)
  then show ?thesis by simp
qed

lemma sum_list_delete_at:
  fixes f :: "'a \<Rightarrow> int"
  assumes "i < length xs"
  shows "(\<Sum>x\<leftarrow>take i xs @ drop (Suc i) xs. f x) = (\<Sum>x\<leftarrow>xs. f x) - f (xs ! i)"
  using assms by (subst (3) id_take_nth_drop [of i]) auto

subsection \<open>Length of the common prefix of two lists\<close>

text \<open>The inner loop \<^verbatim>\<open>for m < a.len && i+m < n && a[m] == b[i+m] { m++ }\<close>.\<close>

fun match_len :: "'a list \<Rightarrow> 'a list \<Rightarrow> nat" where
  "match_len (x # xs) (y # ys) = (if x = y then Suc (match_len xs ys) else 0)"
| "match_len _ _ = 0"

lemma match_len_le1: "match_len xs ys \<le> length xs"
  by (induction xs ys rule: match_len.induct) auto

lemma match_len_le2: "match_len xs ys \<le> length ys"
  by (induction xs ys rule: match_len.induct) auto

lemma match_len_take: "take (match_len xs ys) xs = take (match_len xs ys) ys"
  by (induction xs ys rule: match_len.induct) auto

lemma match_len_full: "match_len xs ys = length xs \<longleftrightarrow> prefix xs ys"
  by (induction xs ys rule: match_len.induct) auto

lemma match_len_full2: "match_len xs ys = length ys \<longleftrightarrow> prefix ys xs"
  by (induction xs ys rule: match_len.induct) auto

lemma match_len_append [simp]: "match_len xs (xs @ ys) = length xs"
  by (induction xs) auto

lemma match_len_neq:
  "match_len xs ys < length xs \<Longrightarrow> match_len xs ys < length ys \<Longrightarrow>
   xs ! match_len xs ys \<noteq> ys ! match_len xs ys"
  by (induction xs ys rule: match_len.induct) (auto split: if_splits)

lemma match_len_pos: "xs \<noteq> [] \<Longrightarrow> ys \<noteq> [] \<Longrightarrow> hd xs = hd ys \<Longrightarrow> 0 < match_len xs ys"
  by (cases xs; cases ys) auto

section \<open>The sorted child index\<close>

text \<open>
  The loop of \<^verbatim>\<open>run.find\<close>, \<^verbatim>\<open>run.link\<close>, \<^verbatim>\<open>run.unlink\<close> and of the trie's \<^verbatim>\<open>node.find\<close> and
  \<^verbatim>\<open>node.addKid\<close>: the least position in \<open>[lo, hi)\<close> whose child's key is not below \<open>h\<close>.
  \<open>key\<close> is the child's sort key; \<open>None\<close> stands for a run without blocks, where Go's
  \<^verbatim>\<open>hashes[0]\<close> would panic (the invariants of the components exclude it).
\<close>

definition key_less :: "u64 option \<Rightarrow> u64 \<Rightarrow> bool" where
  "key_less k h = (case k of None \<Rightarrow> False | Some k' \<Rightarrow> k' < h)"

lemma key_less_Some [simp]: "key_less (Some k) h \<longleftrightarrow> k < h"
  by (simp add: key_less_def)

function lower_bound :: "('n \<Rightarrow> u64 option) \<Rightarrow> 'n list \<Rightarrow> u64 \<Rightarrow> nat \<Rightarrow> nat \<Rightarrow> nat" where
  "lower_bound key ks h lo hi =
     (if lo < hi then
        (let mid = (lo + hi) div 2 in
         if key_less (key (ks ! mid)) h then lower_bound key ks h (Suc mid) hi
         else lower_bound key ks h lo mid)
      else lo)"
  by pat_completeness auto
termination
  by (relation "measure (\<lambda>(key, ks, h, lo, hi). hi - lo)") auto

declare lower_bound.simps [simp del]

definition find_kid :: "('n \<Rightarrow> u64 option) \<Rightarrow> 'n list \<Rightarrow> u64 \<Rightarrow> nat option" where
  "find_kid key ks h =
     (let lo = lower_bound key ks h 0 (length ks) in
      if lo < length ks \<and> key (ks ! lo) = Some h then Some lo else None)"

definition link_kid :: "('n \<Rightarrow> u64 option) \<Rightarrow> 'n \<Rightarrow> u64 \<Rightarrow> 'n list \<Rightarrow> 'n list" where
  "link_kid key c h ks =
     (let lo = lower_bound key ks h 0 (length ks) in take lo ks @ c # drop lo ks)"

definition unlink_kid :: "('n \<Rightarrow> u64 option) \<Rightarrow> u64 \<Rightarrow> 'n list \<Rightarrow> 'n list" where
  "unlink_kid key h ks =
     (let lo = lower_bound key ks h 0 (length ks) in
      if lo < length ks \<and> key (ks ! lo) = Some h then take lo ks @ drop (Suc lo) ks else ks)"

text \<open>The children's keys are defined and strictly ascending.\<close>

definition kids_sorted :: "('n \<Rightarrow> u64 option) \<Rightarrow> 'n list \<Rightarrow> bool" where
  "kids_sorted key ks \<longleftrightarrow> (\<forall>k\<in>set ks. key k \<noteq> None) \<and> sorted_wrt (<) (map (the \<circ> key) ks)"


subsection \<open>The binary search finds the insertion point\<close>

lemma lower_bound_bounds:
  "lo \<le> hi \<Longrightarrow> lo \<le> lower_bound key ks h lo hi \<and> lower_bound key ks h lo hi \<le> hi"
proof (induction key ks h lo hi rule: lower_bound.induct)
  case (1 key ks h lo hi)
  let ?m = "(lo + hi) div 2"
  show ?case
  proof (cases "lo < hi")
    case True
    then have "lo \<le> ?m" "?m < hi" by auto
    with True "1.IH" [of ?m] show ?thesis
      by (auto simp: lower_bound.simps [of key ks h lo hi] Let_def)
  next
    case False
    with "1.prems" show ?thesis by (simp add: lower_bound.simps)
  qed
qed

lemma kids_sorted_mono:
  assumes "kids_sorted key ks" and "i \<le> j" and "j < length ks" and "key_less (key (ks ! j)) h"
  shows "key_less (key (ks ! i)) h"
proof (cases "i = j")
  case False
  with assms(2) have "i < j" by simp
  moreover obtain a b where "key (ks ! i) = Some a" and "key (ks ! j) = Some b"
    using assms \<open>i < j\<close> unfolding kids_sorted_def
    by (metis less_trans not_Some_eq nth_mem)
  ultimately show ?thesis
    using assms sorted_wrt_nth_less [of "(<)" "map (the \<circ> key) ks" i j]
    by (auto simp: kids_sorted_def)
qed (use assms in simp)

lemma lower_bound_split:
  assumes "kids_sorted key ks" and "lo \<le> hi" and "hi \<le> length ks"
    and "\<forall>i<lo. key_less (key (ks ! i)) h"
    and "\<forall>i. hi \<le> i \<and> i < length ks \<longrightarrow> \<not> key_less (key (ks ! i)) h"
  shows "(\<forall>i<lower_bound key ks h lo hi. key_less (key (ks ! i)) h) \<and>
    (\<forall>i. lower_bound key ks h lo hi \<le> i \<and> i < length ks \<longrightarrow> \<not> key_less (key (ks ! i)) h)"
  using assms
proof (induction key ks h lo hi rule: lower_bound.induct)
  case (1 key ks h lo hi)
  let ?m = "(lo + hi) div 2"
  show ?case
  proof (cases "lo < hi")
    case False
    then have "lower_bound key ks h lo hi = lo" by (simp add: lower_bound.simps)
    moreover have "lo = hi" using False "1.prems"(2) by simp
    ultimately show ?thesis using "1.prems"(4,5) by metis
  next
    case True
    then have m: "lo \<le> ?m" "?m < hi" by auto
    show ?thesis
    proof (cases "key_less (key (ks ! ?m)) h")
      case less: True
      have below: "\<forall>i<Suc ?m. key_less (key (ks ! i)) h"
        using kids_sorted_mono [OF "1.prems"(1) _ _ less] m "1.prems"(3) by auto
      show ?thesis
        using "1.IH"(1) [OF True refl less "1.prems"(1) _ "1.prems"(3) below "1.prems"(5)] True less m
        by (auto simp: lower_bound.simps [of key ks h lo hi] Let_def)
    next
      case ge: False
      have above: "\<forall>i. ?m \<le> i \<and> i < length ks \<longrightarrow> \<not> key_less (key (ks ! i)) h"
        using kids_sorted_mono [OF "1.prems"(1)] ge by blast
      show ?thesis
        using "1.IH"(2) [OF True refl ge "1.prems"(1) m(1) _ "1.prems"(4) above] True ge m "1.prems"(3)
        by (auto simp: lower_bound.simps [of key ks h lo hi] Let_def)
    qed
  qed
qed

lemma lower_bound_le_length: "lower_bound key ks h 0 (length ks) \<le> length ks"
  using lower_bound_bounds [of 0 "length ks" key ks h] by simp

lemma lower_bound_less:
  "kids_sorted key ks \<Longrightarrow> i < lower_bound key ks h 0 (length ks) \<Longrightarrow> key_less (key (ks ! i)) h"
  using lower_bound_split [of key ks 0 "length ks" h] by (metis le0 le_refl not_less not_less_zero)

lemma lower_bound_geq:
  "kids_sorted key ks \<Longrightarrow> lower_bound key ks h 0 (length ks) \<le> i \<Longrightarrow> i < length ks \<Longrightarrow>
   \<not> key_less (key (ks ! i)) h"
  using lower_bound_split [of key ks 0 "length ks" h] by (metis le0 le_refl not_less)

lemma kids_sorted_key_inj:
  assumes "kids_sorted key ks" and "i < length ks" and "j < length ks"
    and "key (ks ! i) = key (ks ! j)"
  shows "i = j"
proof -
  have "distinct (map (the \<circ> key) ks)"
    using assms(1) by (auto simp: kids_sorted_def intro: sorted_wrt_less_distinct)
  with assms(2-4) show ?thesis by (metis comp_apply length_map nth_eq_iff_index_eq nth_map)
qed

lemma find_kid_iff:
  assumes "kids_sorted key ks"
  shows "find_kid key ks h = Some i \<longleftrightarrow> i < length ks \<and> key (ks ! i) = Some h"
proof
  assume "i < length ks \<and> key (ks ! i) = Some h"
  then have i: "i < length ks" "key (ks ! i) = Some h" by auto
  let ?lo = "lower_bound key ks h 0 (length ks)"
  have "?lo \<le> i"
    using lower_bound_less [OF assms, of i h] i by (auto simp: not_less [symmetric])
  then have lo: "?lo < length ks" using i by simp
  have "?lo = i"
  proof (rule ccontr)
    assume "?lo \<noteq> i"
    with \<open>?lo \<le> i\<close> have "?lo < i" by simp
    obtain a where a: "key (ks ! ?lo) = Some a"
      using assms lo unfolding kids_sorted_def by (metis not_Some_eq nth_mem)
    have "a < h"
      using sorted_wrt_nth_less [of "(<)" "map (the \<circ> key) ks" ?lo i] assms i lo \<open>?lo < i\<close> a
      by (auto simp: kids_sorted_def)
    moreover have "\<not> a < h" using lower_bound_geq [OF assms order_refl lo] a by simp
    ultimately show False by simp
  qed
  with i show "find_kid key ks h = Some i" by (simp add: find_kid_def Let_def)
qed (auto simp: find_kid_def Let_def split: if_splits)


subsection \<open>Lookup, link, unlink and in-place replacement of a child\<close>

definition lookup_kid :: "('n \<Rightarrow> u64 option) \<Rightarrow> 'n list \<Rightarrow> u64 \<Rightarrow> 'n option" where
  "lookup_kid key ks h = map_option (nth ks) (find_kid key ks h)"

text \<open>Mutating the child found under \<open>h\<close> through its pointer.\<close>

definition replace_kid :: "('n \<Rightarrow> u64 option) \<Rightarrow> 'n \<Rightarrow> u64 \<Rightarrow> 'n list \<Rightarrow> 'n list" where
  "replace_kid key c h ks = (case find_kid key ks h of None \<Rightarrow> ks | Some i \<Rightarrow> ks[i := c])"

lemma lookup_kid_iff:
  assumes "kids_sorted key ks"
  shows "lookup_kid key ks h = Some c \<longleftrightarrow> c \<in> set ks \<and> key c = Some h"
proof
  assume "c \<in> set ks \<and> key c = Some h"
  then obtain i where "i < length ks" "c = ks ! i" "key (ks ! i) = Some h"
    by (auto simp: in_set_conv_nth)
  then show "lookup_kid key ks h = Some c"
    using find_kid_iff [OF assms, of h i] by (simp add: lookup_kid_def)
qed (auto simp: lookup_kid_def find_kid_iff [OF assms])

lemma lookup_kid_mem: "lookup_kid key ks h = Some c \<Longrightarrow> c \<in> set ks \<and> key c = Some h"
  by (auto simp: lookup_kid_def find_kid_def Let_def split: if_splits)

lemma lookup_kid_eqI:
  assumes "kids_sorted key ks" and "kids_sorted key ks'"
    and "\<And>c. (c \<in> set ks \<and> key c = Some h) = (c \<in> set ks' \<and> key c = Some h')"
  shows "lookup_kid key ks h = lookup_kid key ks' h'"
  using assms by (metis lookup_kid_iff not_Some_eq option.exhaust)

lemma kids_sorted_Nil [simp]: "kids_sorted key []"
  by (simp add: kids_sorted_def)

lemma set_take_Un_drop: "set (take n xs) \<union> set (drop n xs) = set xs"
  by (metis append_take_drop_id set_append)

lemma set_link_kid [simp]: "set (link_kid key c h ks) = insert c (set ks)"
  using set_take_Un_drop [of "lower_bound key ks h 0 (length ks)" ks]
  by (simp add: link_kid_def Let_def)

lemma kids_sorted_link [wf_intros]:
  assumes "kids_sorted key ks" and "key c = Some h" and "lookup_kid key ks h = None"
  shows "kids_sorted key (link_kid key c h ks)"
proof -
  let ?lo = "lower_bound key ks h 0 (length ks)"
  have lt: "the (key x) < h" if x: "x \<in> set (take ?lo ks)" for x
  proof -
    obtain i where i: "i < ?lo" "i < length ks" "x = ks ! i"
      using x by (auto simp: in_set_conv_nth)
    then have "key_less (key x) h" using lower_bound_less [OF assms(1)] by blast
    then show ?thesis by (auto simp: key_less_def split: option.splits)
  qed
  have gt: "h < the (key x)" if x: "x \<in> set (drop ?lo ks)" for x
  proof -
    obtain i where i: "?lo \<le> i" "i < length ks" "x = ks ! i"
      using x by (metis (no_types, lifting) add.commute in_set_conv_nth le_add2 length_drop
          less_diff_conv lower_bound_le_length nth_drop)
    obtain a where a: "key x = Some a"
      using assms(1) i unfolding kids_sorted_def by (metis not_Some_eq nth_mem)
    have "\<not> a < h" using lower_bound_geq [OF assms(1) i(1,2)] i(3) a by simp
    moreover have "a \<noteq> h" using assms(3) lookup_kid_iff [OF assms(1), of h x] i a by auto
    ultimately show ?thesis using a by simp
  qed
  have "sorted_wrt (<) (map (the \<circ> key) (take ?lo ks)) \<and> sorted_wrt (<) (map (the \<circ> key) (drop ?lo ks))"
    using assms(1) by (simp add: kids_sorted_def sorted_wrt_take sorted_wrt_drop take_map [symmetric] drop_map [symmetric])
  moreover have "\<forall>k\<in>set (link_kid key c h ks). key k \<noteq> None"
    using assms(1,2) by (auto simp: kids_sorted_def)
  ultimately show ?thesis
    using lt gt assms(2) by (force simp: kids_sorted_def link_kid_def Let_def sorted_wrt_append)
qed

lemma unlink_kid_eq:
  assumes "kids_sorted key ks"
  shows "unlink_kid key h ks = filter (\<lambda>k. key k \<noteq> Some h) ks"
proof (cases "find_kid key ks h")
  case None
  then have "\<forall>k\<in>set ks. key k \<noteq> Some h"
    by (metis find_kid_iff [OF assms] in_set_conv_nth option.distinct(1))
  then have "filter (\<lambda>k. key k \<noteq> Some h) ks = ks" by (simp add: filter_id_conv)
  then show ?thesis
    using None by (auto simp: unlink_kid_def find_kid_def Let_def split: if_splits)
next
  case (Some i)
  then have i: "i < length ks" "key (ks ! i) = Some h" using find_kid_iff [OF assms] by auto
  have other: "key (ks ! j) \<noteq> Some h" if "j < length ks" "j \<noteq> i" for j
    using kids_sorted_key_inj [OF assms that(1) i(1)] i(2) that by metis
  have "filter (\<lambda>k. key k \<noteq> Some h) ks =
      filter (\<lambda>k. key k \<noteq> Some h) (take i ks @ ks ! i # drop (Suc i) ks)"
    using i(1) by (metis id_take_nth_drop)
  also have "\<dots> = take i ks @ drop (Suc i) ks"
  proof -
    have "\<forall>k\<in>set (take i ks). key k \<noteq> Some h" and "\<forall>k\<in>set (drop (Suc i) ks). key k \<noteq> Some h"
      using other i(1) by (auto simp: in_set_conv_nth)
    then show ?thesis using i(2) by (simp add: filter_id_conv)
  qed
  finally show ?thesis
    using Some i by (auto simp: unlink_kid_def find_kid_def Let_def split: if_splits)
qed

lemma kids_sorted_filter: "kids_sorted key ks \<Longrightarrow> kids_sorted key (filter P ks)"
  by (induction ks) (auto simp: kids_sorted_def)

lemma kids_sorted_unlink [wf_intros]: "kids_sorted key ks \<Longrightarrow> kids_sorted key (unlink_kid key h ks)"
  by (simp add: unlink_kid_eq kids_sorted_filter)

lemma kids_sorted_replace [wf_intros]:
  assumes "kids_sorted key ks" and "key c = Some h"
  shows "kids_sorted key (replace_kid key c h ks)"
proof (cases "find_kid key ks h")
  case (Some i)
  then have i: "i < length ks" "key (ks ! i) = Some h" using find_kid_iff [OF assms(1)] by auto
  have "map (the \<circ> key) (ks[i := c]) = map (the \<circ> key) ks"
    using i assms(2) by (simp add: map_update list_update_same_conv)
  then show ?thesis
    using assms Some by (auto simp: replace_kid_def kids_sorted_def dest!: set_update_subset_insert [THEN subsetD])
qed (simp add: replace_kid_def assms(1))

lemma set_replace_kid:
  assumes "kids_sorted key ks" and "lookup_kid key ks h = Some b"
  shows "set (replace_kid key c h ks) = insert c {k \<in> set ks. key k \<noteq> Some h}"
proof -
  obtain i where f: "find_kid key ks h = Some i" "b = ks ! i"
    using assms(2) by (auto simp: lookup_kid_def)
  then have i: "i < length ks" "key (ks ! i) = Some h" using find_kid_iff [OF assms(1)] by auto
  have "set (ks[i := c]) = insert c (set (take i ks) \<union> set (drop (Suc i) ks))"
    using i(1) by (auto simp: upd_conv_take_nth_drop)
  also have "set (take i ks) \<union> set (drop (Suc i) ks) = set (unlink_kid key h ks)"
    using f i by (auto simp: unlink_kid_def find_kid_def Let_def split: if_splits)
  finally show ?thesis using f(1) unlink_kid_eq [OF assms(1)] by (simp add: replace_kid_def)
qed


lemma lookup_link_kid [index_simps]:
  assumes "kids_sorted key ks" and "key c = Some h" and "lookup_kid key ks h = None"
  shows "lookup_kid key (link_kid key c h ks) h' = (if h' = h then Some c else lookup_kid key ks h')"
proof (cases "h' = h")
  case True
  then show ?thesis using assms by (simp add: lookup_kid_iff kids_sorted_link)
next
  case False
  have "lookup_kid key (link_kid key c h ks) h' = lookup_kid key ks h'"
    by (rule lookup_kid_eqI) (use assms False in \<open>auto simp: kids_sorted_link\<close>)
  with False show ?thesis by simp
qed

lemma lookup_unlink_kid [index_simps]:
  assumes "kids_sorted key ks"
  shows "lookup_kid key (unlink_kid key h ks) h' = (if h' = h then None else lookup_kid key ks h')"
proof (cases "h' = h")
  case True
  have "lookup_kid key (unlink_kid key h ks) h \<noteq> Some c" for c
    using assms by (simp add: lookup_kid_iff kids_sorted_unlink) (simp add: unlink_kid_eq)
  with True show ?thesis using not_Some_eq by (simp, blast)
next
  case False
  have "lookup_kid key (unlink_kid key h ks) h' = lookup_kid key ks h'"
    by (rule lookup_kid_eqI)
      (use assms False in \<open>auto simp: kids_sorted_filter unlink_kid_eq\<close>)
  with False show ?thesis by simp
qed

lemma lookup_replace_kid [index_simps]:
  assumes "kids_sorted key ks" and "key c = Some h" and "lookup_kid key ks h = Some b"
  shows "lookup_kid key (replace_kid key c h ks) h' = (if h' = h then Some c else lookup_kid key ks h')"
proof (cases "h' = h")
  case True
  then show ?thesis using assms by (simp add: lookup_kid_iff kids_sorted_replace set_replace_kid)
next
  case False
  have "lookup_kid key (replace_kid key c h ks) h' = lookup_kid key ks h'"
    by (rule lookup_kid_eqI)
      (use assms False in \<open>auto simp: kids_sorted_replace set_replace_kid\<close>)
  with False show ?thesis by simp
qed

text \<open>What a client of a child index relies on.\<close>

locale child_index =
  fixes key :: "'n \<Rightarrow> u64 option"
    and invar :: "'ks \<Rightarrow> bool"
    and lookup :: "'ks \<Rightarrow> u64 \<Rightarrow> 'n option"
    and link :: "'n \<Rightarrow> u64 \<Rightarrow> 'ks \<Rightarrow> 'ks"
    and unlink :: "u64 \<Rightarrow> 'ks \<Rightarrow> 'ks"
    and replace :: "'n \<Rightarrow> u64 \<Rightarrow> 'ks \<Rightarrow> 'ks"
  assumes lookup_key: "lookup ks h = Some c \<Longrightarrow> key c = Some h"
    and lookup_link: "invar ks \<Longrightarrow> key c = Some h \<Longrightarrow> lookup ks h = None \<Longrightarrow>
      lookup (link c h ks) h' = (if h' = h then Some c else lookup ks h')"
    and invar_link: "invar ks \<Longrightarrow> key c = Some h \<Longrightarrow> lookup ks h = None \<Longrightarrow> invar (link c h ks)"
    and lookup_unlink: "invar ks \<Longrightarrow>
      lookup (unlink h ks) h' = (if h' = h then None else lookup ks h')"
    and invar_unlink: "invar ks \<Longrightarrow> invar (unlink h ks)"
    and lookup_replace: "invar ks \<Longrightarrow> key c = Some h \<Longrightarrow> lookup ks h = Some b \<Longrightarrow>
      lookup (replace c h ks) h' = (if h' = h then Some c else lookup ks h')"
    and invar_replace: "invar ks \<Longrightarrow> key c = Some h \<Longrightarrow> invar (replace c h ks)"
begin

text \<open>Unlinking a child and linking its successor under the same key replaces it: the pattern
  of \<^verbatim>\<open>splitRun\<close>.\<close>

lemma relink:
  assumes "invar ks" and "key c = Some h"
  shows "invar (link c h (unlink h ks))"
    and "lookup (link c h (unlink h ks)) h' = (if h' = h then Some c else lookup ks h')"
  using assms by (simp_all add: invar_link invar_unlink lookup_link lookup_unlink)

lemma relink_replace:
  assumes "invar ks" and "key c = Some h" and "lookup ks h = Some b"
  shows "lookup (link c h (unlink h ks)) h' = lookup (replace c h ks) h'"
  using assms by (simp add: relink lookup_replace)

lemma link_unlink:
  assumes "invar ks" and "key c = Some h" and "lookup ks h = None"
  shows "lookup (unlink h (link c h ks)) h' = lookup ks h'"
  using assms by (simp add: invar_link lookup_link lookup_unlink)

end

end
