(* ===== verification/Float64.thy ===== *)
theory Float64
  imports Prelude Complex_Main "HOL-Library.Log_Nat"
begin

text \<open>
  The IEEE-754 binary64 arithmetic the Go code uses, on rationals: a finite \<^verbatim>\<open>float64\<close> is the rational
  it denotes and every operation is the exact one followed by \<open>fl64\<close>, rounding to 53 significant bits,
  ties to even, with the subnormal exponent floor. The code only converts 64-bit integers, divides and
  multiplies them and compares, so results stay far below the overflow threshold; \<^verbatim>\<open>+Inf\<close> and the NaN of
  0/0 are written out where the code can meet them.
\<close>

definition rne :: "rat \<Rightarrow> int" where
  "rne x = (let f = \<lfloor>x\<rfloor>; r = x - of_int f in
     if r < 1 / 2 then f else if r > 1 / 2 then f + 1 else if even f then f else f + 1)"

text \<open>The exponent of the leading bit of a positive rational.\<close>

definition lead_exp :: "rat \<Rightarrow> int" where
  "lead_exp x = (case quotient_of x of (n, d) \<Rightarrow>
     (let k = bitlen n - bitlen d in if 2 powi k \<le> x then k else k - 1))"

definition ulp_exp :: "rat \<Rightarrow> int" where
  "ulp_exp x = max (lead_exp x - 52) (- 1074)"

definition fl_pos :: "rat \<Rightarrow> rat" where
  "fl_pos x = (if x = 0 then 0 else of_int (rne (x / 2 powi ulp_exp x)) * 2 powi ulp_exp x)"

definition fl64 :: "rat \<Rightarrow> rat" where
  "fl64 x = (if x < 0 then - fl_pos (- x) else fl_pos x)"

text \<open>\<^verbatim>\<open>float64(n)\<close> of an integer and the arithmetic on floats.\<close>

definition f64 :: "int \<Rightarrow> rat" where
  "f64 n = fl64 (of_int n)"

definition fdiv :: "rat \<Rightarrow> rat \<Rightarrow> rat" where
  "fdiv a b = fl64 (a / b)"

definition fmul :: "rat \<Rightarrow> rat \<Rightarrow> rat" where
  "fmul a b = fl64 (a * b)"

definition fadd :: "rat \<Rightarrow> rat \<Rightarrow> rat" where
  "fadd a b = fl64 (a + b)"

definition fsub :: "rat \<Rightarrow> rat \<Rightarrow> rat" where
  "fsub a b = fl64 (a - b)"

section \<open>Rounding\<close>

lemma rne_int [simp]: "rne (of_int n) = n"
  by (simp add: rne_def)

lemma rne_bounds: "\<lfloor>x\<rfloor> \<le> rne x" "rne x \<le> \<lfloor>x\<rfloor> + 1"
  by (simp_all add: rne_def Let_def)

lemma rne_mono: "x \<le> y \<Longrightarrow> rne x \<le> rne y"
proof -
  assume "x \<le> y"
  show ?thesis
  proof (cases "\<lfloor>x\<rfloor> = \<lfloor>y\<rfloor>")
    case True
    then show ?thesis using \<open>x \<le> y\<close> by (auto simp: rne_def Let_def)
  next
    case False
    then have "\<lfloor>x\<rfloor> + 1 \<le> \<lfloor>y\<rfloor>" using floor_mono [OF \<open>x \<le> y\<close>] by simp
    then show ?thesis using rne_bounds(2) [of x] rne_bounds(1) [of y] by linarith
  qed
qed

lemma bitlen_rat_bounds:
  assumes "0 < n"
  shows "(2 :: rat) powi (bitlen n - 1) \<le> of_int n" and "of_int n < (2 :: rat) powi bitlen n"
proof -
  have b: "0 \<le> bitlen n - 1" "0 \<le> bitlen n"
    using assms bitlen_eq_zero_iff [of n] bitlen_nonneg [of n] by linarith+
  have "(of_int (2 ^ nat (bitlen n - 1)) :: rat) \<le> of_int n" "(of_int n :: rat) < of_int (2 ^ nat (bitlen n))"
    using bitlen_bounds [OF assms] by (simp_all only: of_int_le_iff of_int_less_iff)
  then show "(2 :: rat) powi (bitlen n - 1) \<le> of_int n" "of_int n < (2 :: rat) powi bitlen n"
    using b by (simp_all add: power_int_nonneg_exp)
qed

lemma lead_exp_bounds:
  assumes "0 < x"
  shows "2 powi lead_exp x \<le> x" and "x < 2 powi (lead_exp x + 1)"
proof -
  obtain n d where q: "quotient_of x = (n, d)" by (cases "quotient_of x")
  have d: "0 < d" using quotient_of_denom_pos [OF q] .
  have x: "x = of_int n / of_int d" using quotient_of_div [OF q] .
  have n: "0 < n" using assms d unfolding x by (simp add: zero_less_divide_iff)
  define k where "k = bitlen n - bitlen d"
  note bn = bitlen_rat_bounds [OF n] and bd = bitlen_rat_bounds [OF d]
  have dpos: "(0 :: rat) < of_int d" using d by simp
  have lo: "2 powi (k - 1) \<le> x"
  proof -
    have "(2 :: rat) powi (k - 1) * of_int d \<le> 2 powi (k - 1) * 2 powi bitlen d"
      using bd(2) by (intro mult_left_mono) simp_all
    also have "\<dots> = (2 :: rat) powi (bitlen n - 1)" by (simp add: k_def flip: power_int_add)
    finally show ?thesis using bn(1) dpos unfolding x by (simp add: le_divide_eq)
  qed
  have hi: "x < 2 powi (k + 1)"
  proof -
    have "(2 :: rat) powi bitlen n = 2 powi (k + 1) * 2 powi (bitlen d - 1)" by (simp add: k_def flip: power_int_add)
    also have "\<dots> \<le> 2 powi (k + 1) * of_int d" using bd(1) by (intro mult_left_mono) simp_all
    finally show ?thesis using bn(2) dpos unfolding x by (simp add: divide_less_eq)
  qed
  have e: "lead_exp x = (if 2 powi k \<le> x then k else k - 1)"
    by (simp add: lead_exp_def q Let_def k_def)
  show "2 powi lead_exp x \<le> x" using lo by (simp add: e)
  show "x < 2 powi (lead_exp x + 1)" using hi by (simp add: e)
qed

lemma lead_exp_mono:
  assumes "0 < x" and "x \<le> y"
  shows "lead_exp x \<le> lead_exp y"
proof -
  have "(2 :: rat) powi lead_exp x < 2 powi (lead_exp y + 1)"
    using lead_exp_bounds(1) [OF assms(1)] lead_exp_bounds(2) [of y] assms by linarith
  then have "\<not> lead_exp y + 1 \<le> lead_exp x"
    using power_int_increasing [of "lead_exp y + 1" "lead_exp x" "2 :: rat"] by force
  then show ?thesis by simp
qed


lemma ulp_exp_mono: "0 < x \<Longrightarrow> x \<le> y \<Longrightarrow> ulp_exp x \<le> ulp_exp y"
  using lead_exp_mono [of x y] by (simp add: ulp_exp_def)

lemma powi_ratio: "u \<le> k \<Longrightarrow> (2 :: rat) powi k / 2 powi u = of_int (2 ^ nat (k - u))"
  by (simp add: power_int_diff [symmetric] power_int_nonneg_exp)

lemma fl_pos_le_pow:
  assumes "0 < x" and "x \<le> 2 powi k" and "ulp_exp x \<le> k"
  shows "fl_pos x \<le> 2 powi k"
proof -
  let ?u = "ulp_exp x"
  have "rne (x / 2 powi ?u) \<le> rne (2 powi k / 2 powi ?u)"
    using assms(2) by (intro rne_mono divide_right_mono) simp_all
  then have "rne (x / 2 powi ?u) \<le> 2 ^ nat (k - ?u)" unfolding powi_ratio [OF assms(3)] rne_int .
  then have "(of_int (rne (x / 2 powi ?u)) :: rat) \<le> 2 powi k / 2 powi ?u"
    unfolding powi_ratio [OF assms(3)] of_int_le_iff .
  then show ?thesis using assms(1) by (simp add: fl_pos_def le_divide_eq)
qed

lemma fl_pos_ge_pow:
  assumes "0 < x" and "2 powi k \<le> x" and "ulp_exp x \<le> k"
  shows "2 powi k \<le> fl_pos x"
proof -
  let ?u = "ulp_exp x"
  have "rne (2 powi k / 2 powi ?u) \<le> rne (x / 2 powi ?u)"
    using assms(2) by (intro rne_mono divide_right_mono) simp_all
  then have "2 ^ nat (k - ?u) \<le> rne (x / 2 powi ?u)" unfolding powi_ratio [OF assms(3)] rne_int .
  then have "2 powi k / 2 powi ?u \<le> (of_int (rne (x / 2 powi ?u)) :: rat)"
    unfolding powi_ratio [OF assms(3)] of_int_le_iff .
  then show ?thesis using assms(1) by (simp add: fl_pos_def divide_le_eq)
qed

lemma fl_pos_nonneg: "0 \<le> x \<Longrightarrow> 0 \<le> fl_pos x"
proof -
  assume "0 \<le> x"
  then have "rne 0 \<le> rne (x / 2 powi ulp_exp x)" by (intro rne_mono) simp
  then show ?thesis by (simp add: fl_pos_def rne_def)
qed

lemma fl_pos_mono:
  assumes "0 \<le> x" and "x \<le> y"
  shows "fl_pos x \<le> fl_pos y"
proof (cases "x = 0")
  case True
  then show ?thesis using fl_pos_nonneg [of y] assms by (simp add: fl_pos_def)
next
  case False
  then have x: "0 < x" and y: "0 < y" using assms by auto
  show ?thesis
  proof (cases "ulp_exp x = ulp_exp y")
    case True
    have "rne (x / 2 powi ulp_exp x) \<le> rne (y / 2 powi ulp_exp x)"
      using assms(2) by (intro rne_mono divide_right_mono) simp_all
    then show ?thesis using True x y by (simp add: fl_pos_def)
  next
    case False
    then have lt: "ulp_exp x < ulp_exp y" using ulp_exp_mono [OF x assms(2)] by simp
    let ?k = "lead_exp y"
    have "lead_exp x < ?k" and u: "ulp_exp y = ?k - 52" using lt by (auto simp: ulp_exp_def)
    then have "x \<le> 2 powi ?k"
      using lead_exp_bounds(2) [OF x] power_int_increasing [of "lead_exp x + 1" ?k "2 :: rat"] by linarith
    then have "fl_pos x \<le> 2 powi ?k" using lt u by (intro fl_pos_le_pow [OF x]) simp_all
    also have "\<dots> \<le> fl_pos y" using lead_exp_bounds(1) [OF y] u by (intro fl_pos_ge_pow [OF y]) simp_all
    finally show ?thesis .
  qed
qed

text \<open>Rounding is monotone: a comparison the exact values satisfy weakly, the floats satisfy weakly.\<close>

lemma fl64_mono: "x \<le> y \<Longrightarrow> fl64 x \<le> fl64 y"
  using fl_pos_mono [of x y] fl_pos_mono [of "- y" "- x"] fl_pos_nonneg [of y] fl_pos_nonneg [of "- x"]
  by (auto simp: fl64_def)

lemma fl64_0 [simp]: "fl64 0 = 0"
  by (simp add: fl64_def fl_pos_def)

text \<open>Integers of at most 53 bits are represented exactly.\<close>

lemma fl_pos_int:
  assumes "0 < n" and "n < 2 ^ 53"
  shows "fl_pos (of_int n) = of_int n"
proof -
  let ?x = "of_int n :: rat"
  have x: "0 < ?x" using assms by simp
  have "?x < of_int (2 ^ 53)" using assms(2) by (simp only: of_int_less_iff)
  then have "(2 :: rat) powi lead_exp ?x < 2 powi 53" using lead_exp_bounds(1) [OF x] by simp
  then have "\<not> 53 \<le> lead_exp ?x" using power_int_increasing [of 53 "lead_exp ?x" "2 :: rat"] by force
  then have u: "ulp_exp ?x \<le> 0" by (simp add: ulp_exp_def)
  have "?x / 2 powi ulp_exp ?x = of_int (n * 2 ^ nat (- ulp_exp ?x))"
  proof -
    have "?x / 2 powi ulp_exp ?x = ?x * (2 powi 0 / 2 powi ulp_exp ?x)" by simp
    also have "\<dots> = of_int (n * 2 ^ nat (- ulp_exp ?x))" unfolding powi_ratio [OF u] by simp
    finally show ?thesis .
  qed
  then have "of_int (rne (?x / 2 powi ulp_exp ?x)) = ?x / 2 powi ulp_exp ?x" by (simp only: rne_int)
  then show ?thesis using x by (simp add: fl_pos_def)
qed

lemma f64_exact: "\<bar>n\<bar> < 2 ^ 53 \<Longrightarrow> f64 n = of_int n"
  using fl_pos_int [of n] fl_pos_int [of "- n"]
  by (cases "n = 0"; cases "n < 0") (auto simp: f64_def fl64_def fl_pos_def [of 0])

lemma f64_mono: "a \<le> b \<Longrightarrow> f64 a \<le> f64 b"
  by (simp add: f64_def fl64_mono)

lemma f64_nonneg: "0 \<le> n \<Longrightarrow> 0 \<le> f64 n"
  using f64_mono [of 0 n] by (simp add: f64_def)

text \<open>A value is a float when rounding keeps it.\<close>

definition is_f64 :: "rat \<Rightarrow> bool" where
  "is_f64 x \<longleftrightarrow> fl64 x = x"

lemma fl64_le_float: "is_f64 b \<Longrightarrow> x \<le> b \<Longrightarrow> fl64 x \<le> b"
  using fl64_mono [of x b] by (simp add: is_f64_def)

lemma fl64_ge_float: "is_f64 b \<Longrightarrow> b \<le> x \<Longrightarrow> b \<le> fl64 x"
  using fl64_mono [of b x] by (simp add: is_f64_def)

end
