(* ===== verification/Circuit.thy ===== *)
theory Circuit
  imports Float64 "HOL-Library.Multiset"
begin

text \<open>
  \<^verbatim>\<open>router/internal/circuit/circuit.go\<close>: the per-backend circuit breaker. Everything between
  \<^verbatim>\<open>mu.Lock\<close> and \<^verbatim>\<open>mu.Unlock\<close> is one function of the breaker; the half-open semaphore, which is not
  guarded by \<^verbatim>\<open>mu\<close>, is a step relation over the loads, compare-and-swaps and releases of concurrent
  callers.
\<close>

section \<open>Definitions\<close>

datatype state = Closed | Open | HalfOpen

datatype outcome = Success | Failure | Ignored

text \<open>\<^verbatim>\<open>Classify(status, err)\<close>; \<open>errs\<close> is \<^verbatim>\<open>err != nil\<close>.\<close>

definition Classify :: "int \<Rightarrow> bool \<Rightarrow> outcome" where
  "Classify status errs =
     (if errs then Failure
      else if status = 429 then Ignored
      else if status = 408 \<or> status = 425 then Failure
      else if status \<ge> 500 then Failure
      else Success)"

record config =
  Window :: ns
  Buckets :: int
  MinRequests :: int
  FailureRate :: rat
  OpenFor :: ns
  HalfOpenMax :: int
  HalfOpenSuccesses :: int

definition DefaultConfig :: config where
  "DefaultConfig = \<lparr>Window = 30 * second, Buckets = 30, MinRequests = 20, FailureRate = 1 / 2,
     OpenFor = 30 * second, HalfOpenMax = 1, HalfOpenSuccesses = 2\<rparr>"

record bucket =
  startSec :: int
  b_ok :: u32
  b_fail :: u32

definition no_bucket :: bucket where
  "no_bucket = \<lparr>startSec = 0, b_ok = 0, b_fail = 0\<rparr>"

text \<open>A registered \<^verbatim>\<open>onTransition\<close> is called with the arguments \<open>events\<close> collects.\<close>

record breaker =
  cfg :: config
  ring :: "bucket list"
  bstate :: state
  openedAt :: ns
  halfOpenOK :: int
  halfOpenTokens :: int
  hooked :: bool
  events :: "(state \<times> state \<times> int \<times> int) list"

definition New :: "config \<Rightarrow> breaker" where
  "New c =
     (let c1 = (if Buckets c \<le> 0 then c\<lparr>Buckets := 1\<rparr> else c);
          c2 = (if HalfOpenMax c1 < 1 then c1\<lparr>HalfOpenMax := 1\<rparr> else c1);
          c3 = (if HalfOpenSuccesses c2 < 1 then c2\<lparr>HalfOpenSuccesses := 1\<rparr> else c2)
      in \<lparr>cfg = c3, ring = replicate (nat (Buckets c3)) no_bucket, bstate = Closed, openedAt = 0,
          halfOpenOK = 0, halfOpenTokens = 0, hooked = False, events = []\<rparr>)"

definition OnTransition :: "breaker \<Rightarrow> breaker" where
  "OnTransition b = b\<lparr>hooked := True\<rparr>"

definition State :: "ns \<Rightarrow> breaker \<Rightarrow> state" where
  "State now b = (if bstate b = Open \<and> \<not> now < openedAt b + OpenFor (cfg b) then HalfOpen else bstate b)"

definition sumLocked :: "ns \<Rightarrow> breaker \<Rightarrow> int \<times> int" where
  "sumLocked now b =
     (let cutoff = unix (now - Window (cfg b)); live = filter (\<lambda>bk. \<not> startSec bk \<le> cutoff) (ring b)
      in ((\<Sum>bk\<leftarrow>live. int (unat (b_ok bk))), (\<Sum>bk\<leftarrow>live. int (unat (b_fail bk)))))"

definition transitionLocked :: "state \<Rightarrow> ns \<Rightarrow> breaker \<Rightarrow> breaker" where
  "transitionLocked to now b =
     (if bstate b = to then b
      else
        (let b1 = b\<lparr>bstate := to\<rparr>;
             b2 = (case to of
                     Open \<Rightarrow> b1\<lparr>openedAt := now\<rparr>
                   | Closed \<Rightarrow> b1\<lparr>ring := map (\<lambda>_. no_bucket) (ring b1), halfOpenOK := 0\<rparr>
                   | HalfOpen \<Rightarrow> b1\<lparr>halfOpenOK := 0\<rparr>)
         in if hooked b2
            then (let (ok, fail) = sumLocked now b2 in b2\<lparr>events := events b2 @ [(bstate b, to, ok, fail)]\<rparr>)
            else b2))"

text \<open>The part of \<^verbatim>\<open>Allow\<close> under the lock: the breaker and the state it read.\<close>

definition allowLocked :: "ns \<Rightarrow> breaker \<Rightarrow> breaker \<times> state" where
  "allowLocked now b =
     (let b1 = (if bstate b = Open \<and> \<not> now < openedAt b + OpenFor (cfg b)
                then transitionLocked HalfOpen now b else b)
      in (b1, bstate b1))"

text \<open>Go's \<^verbatim>\<open>%\<close> truncates, so the index is normalised twice.\<close>

definition ring_index :: "int \<Rightarrow> int \<Rightarrow> nat" where
  "ring_index sec n = nat ((((sgn sec * (\<bar>sec\<bar> mod n)) + n)) mod n)"

definition observeLocked :: "outcome \<Rightarrow> ns \<Rightarrow> breaker \<Rightarrow> breaker" where
  "observeLocked o' now b =
     (let sec = unix now;
          i = ring_index sec (Buckets (cfg b));
          bk = (if startSec (ring b ! i) \<noteq> sec then no_bucket\<lparr>startSec := sec\<rparr> else ring b ! i);
          bk' = (if o' = Failure then bk\<lparr>b_fail := b_fail bk + 1\<rparr> else bk\<lparr>b_ok := b_ok bk + 1\<rparr>)
      in b\<lparr>ring := (ring b)[i := bk']\<rparr>)"

text \<open>The failure-rate test; 0/0 is NaN, which no comparison satisfies.\<close>

definition trips :: "config \<Rightarrow> int \<Rightarrow> int \<Rightarrow> bool" where
  "trips c ok fail \<longleftrightarrow> ok + fail \<ge> MinRequests c \<and> ok + fail \<noteq> 0 \<and>
     fdiv (f64 fail) (f64 (ok + fail)) \<ge> FailureRate c"

text \<open>\<^verbatim>\<open>Record\<close> up to the deferred release of the token.\<close>

definition recordLocked :: "outcome \<Rightarrow> ns \<Rightarrow> breaker \<Rightarrow> breaker" where
  "recordLocked o' now b =
     (if o' = Ignored then b
      else if bstate b = HalfOpen then
        (if o' = Failure then transitionLocked Open now (b\<lparr>halfOpenOK := 0\<rparr>)
         else
           (let b1 = b\<lparr>halfOpenOK := halfOpenOK b + 1\<rparr>
            in if halfOpenOK b1 \<ge> HalfOpenSuccesses (cfg b1) then transitionLocked Closed now b1 else b1))
      else
        (let b1 = observeLocked o' now b
         in if bstate b1 = Closed
            then (let (ok, fail) = sumLocked now b1
                  in if trips (cfg b1) ok fail then transitionLocked Open now b1 else b1)
            else b1))"

definition release :: "breaker \<Rightarrow> breaker" where
  "release b = b\<lparr>halfOpenTokens := halfOpenTokens b - 1\<rparr>"

text \<open>\<^verbatim>\<open>Allow\<close> and \<^verbatim>\<open>Record\<close> run without interference.\<close>

definition Allow :: "ns \<Rightarrow> breaker \<Rightarrow> breaker \<times> bool \<times> bool" where
  "Allow now b =
     (let (b1, st) = allowLocked now b in
      case st of Closed \<Rightarrow> (b1, True, False)
      | Open \<Rightarrow> (b1, False, False)
      | HalfOpen \<Rightarrow>
          (if halfOpenTokens b1 \<ge> HalfOpenMax (cfg b1) then (b1, False, False)
           else (b1\<lparr>halfOpenTokens := halfOpenTokens b1 + 1\<rparr>, True, True)))"

definition Record :: "outcome \<Rightarrow> bool \<Rightarrow> ns \<Rightarrow> breaker \<Rightarrow> breaker" where
  "Record o' token now b = (let b1 = recordLocked o' now b in if token then release b1 else b1)"


section \<open>Frames\<close>

lemma transition_frame [frame_simps, simp]:
  "cfg (transitionLocked to now b) = cfg b" "halfOpenTokens (transitionLocked to now b) = halfOpenTokens b"
  "hooked (transitionLocked to now b) = hooked b" "length (ring (transitionLocked to now b)) = length (ring b)"
  "bstate (transitionLocked to now b) = to"
  by (auto simp: transitionLocked_def Let_def split: state.split prod.split)

lemma observe_frame [frame_simps, simp]:
  "cfg (observeLocked o' now b) = cfg b" "halfOpenTokens (observeLocked o' now b) = halfOpenTokens b"
  "bstate (observeLocked o' now b) = bstate b" "length (ring (observeLocked o' now b)) = length (ring b)"
  by (simp_all add: observeLocked_def Let_def)

lemma record_frame [frame_simps, simp]:
  "cfg (recordLocked o' now b) = cfg b" "halfOpenTokens (recordLocked o' now b) = halfOpenTokens b"
  "length (ring (recordLocked o' now b)) = length (ring b)"
  by (simp_all add: recordLocked_def Let_def split: prod.split)

lemma allow_frame [frame_simps]:
  "allowLocked now b = (b', st) \<Longrightarrow> cfg b' = cfg b \<and> halfOpenTokens b' = halfOpenTokens b \<and> length (ring b') = length (ring b)"
  by (auto simp: allowLocked_def Let_def split: if_splits)

lemma release_frame [frame_simps, simp]:
  "cfg (release b) = cfg b" "halfOpenTokens (release b) = halfOpenTokens b - 1" "ring (release b) = ring b"
  "bstate (release b) = bstate b"
  by (simp_all add: release_def)

section \<open>The half-open semaphore under interleaving\<close>

text \<open>Concurrent callers of one breaker: \<open>waiting\<close> saw HalfOpen and will load the counter, \<open>loads\<close> are
  the values loaded by callers about to compare-and-swap, \<open>probes\<close> holds the admitted probes not yet
  recorded, \<open>returning\<close> the recorded ones whose deferred release has not run.\<close>

record callers =
  brk :: breaker
  waiting :: nat
  loads :: "int multiset"
  probes :: nat
  returning :: nat

inductive step :: "callers \<Rightarrow> callers \<Rightarrow> bool" where
  allow: "allowLocked now (brk s) = (b, st) \<Longrightarrow>
    step s (s\<lparr>brk := b, waiting := waiting s + (if st = HalfOpen then 1 else 0)\<rparr>)"
| load_full: "waiting s > 0 \<Longrightarrow> halfOpenTokens (brk s) \<ge> HalfOpenMax (cfg (brk s)) \<Longrightarrow>
    step s (s\<lparr>waiting := waiting s - 1\<rparr>)"
| load: "waiting s > 0 \<Longrightarrow> halfOpenTokens (brk s) < HalfOpenMax (cfg (brk s)) \<Longrightarrow>
    step s (s\<lparr>waiting := waiting s - 1, loads := add_mset (halfOpenTokens (brk s)) (loads s)\<rparr>)"
| cas_ok: "cur \<in># loads s \<Longrightarrow> halfOpenTokens (brk s) = cur \<Longrightarrow>
    step s (s\<lparr>brk := (brk s)\<lparr>halfOpenTokens := cur + 1\<rparr>, loads := loads s - {#cur#}, probes := probes s + 1\<rparr>)"
| cas_retry: "cur \<in># loads s \<Longrightarrow> halfOpenTokens (brk s) \<noteq> cur \<Longrightarrow>
    step s (s\<lparr>loads := loads s - {#cur#}, waiting := waiting s + 1\<rparr>)"
| record_plain: "step s (s\<lparr>brk := recordLocked o' now (brk s)\<rparr>)"
| record_probe: "probes s > 0 \<Longrightarrow>
    step s (s\<lparr>brk := recordLocked o' now (brk s), probes := probes s - 1, returning := returning s + 1\<rparr>)"
| give_back: "returning s > 0 \<Longrightarrow> step s (s\<lparr>brk := release (brk s), returning := returning s - 1\<rparr>)"

inductive_cases stepE: "step s s'"

definition start :: "config \<Rightarrow> callers" where
  "start c = \<lparr>brk = New c, waiting = 0, loads = {#}, probes = 0, returning = 0\<rparr>"

inductive reachable :: "config \<Rightarrow> callers \<Rightarrow> bool" for c where
  init: "reachable c (start c)"
| next_step: "reachable c s \<Longrightarrow> step s s' \<Longrightarrow> reachable c s'"

definition sem_inv :: "config \<Rightarrow> callers \<Rightarrow> bool" where
  "sem_inv c s \<longleftrightarrow> cfg (brk s) = cfg (New c) \<and>
     halfOpenTokens (brk s) = int (probes s + returning s) \<and>
     halfOpenTokens (brk s) \<le> HalfOpenMax (cfg (brk s)) \<and>
     (\<forall>cur\<in>#loads s. cur < HalfOpenMax (cfg (brk s)))"

lemma New_limits: "1 \<le> HalfOpenMax (cfg (New c))" "1 \<le> HalfOpenSuccesses (cfg (New c))" "1 \<le> Buckets (cfg (New c))"
  "length (ring (New c)) = nat (Buckets (cfg (New c)))"
  by (simp_all add: New_def Let_def)

lemma sem_inv_start: "sem_inv c (start c)"
  using New_limits(1) [of c] by (simp add: sem_inv_def start_def) (simp add: New_def Let_def)

lemma sem_inv_step: "step s s' \<Longrightarrow> sem_inv c s \<Longrightarrow> sem_inv c s'"
  by (erule stepE) (auto simp: sem_inv_def dest: allow_frame in_diffD)

lemma reachable_sem_inv: "reachable c s \<Longrightarrow> sem_inv c s"
  by (induction rule: reachable.induct) (auto intro: sem_inv_start sem_inv_step)

text \<open>C40. However \<^verbatim>\<open>Allow\<close> and \<^verbatim>\<open>Record\<close> interleave, the half-open semaphore never admits more than
  \<^verbatim>\<open>HalfOpenMax\<close> probes at a time, and no token is lost or invented: the counter is the number of admitted
  probes whose release has not run.\<close>

theorem probe_semaphore:
  assumes "reachable c s"
  shows "halfOpenTokens (brk s) = int (probes s + returning s) \<and>
    int (probes s + returning s) \<le> HalfOpenMax (cfg (New c)) \<and> 1 \<le> HalfOpenMax (cfg (New c))"
  using reachable_sem_inv [OF assms] New_limits(1) by (auto simp: sem_inv_def)

text \<open>A run in which a probe is admitted.\<close>

abbreviation quick :: config where
  "quick \<equiv> \<lparr>Window = second, Buckets = 1, MinRequests = 1, FailureRate = 0, OpenFor = 0,
     HalfOpenMax = 1, HalfOpenSuccesses = 1\<rparr>"

lemma quick_observed:
  "observeLocked Failure 0 (New quick) = (New quick)\<lparr>ring := [\<lparr>startSec = 0, b_ok = 0, b_fail = 1\<rparr>]\<rparr>"
  by (simp add: observeLocked_def New_def Let_def no_bucket_def ring_index_def unix_def)

lemma quick_trips: "bstate (recordLocked Failure 0 (New quick)) = Open"
  "openedAt (recordLocked Failure 0 (New quick)) = 0"
proof -
  let ?b = "observeLocked Failure 0 (New quick)"
  have New: "bstate (New quick) = Closed" "cfg (New quick) = quick" by (simp_all add: New_def)
  have "0 \<le> fdiv (f64 1) (f64 1)"
    using fl64_mono [of 0 "f64 1 / f64 1"] f64_nonneg [of 1] by (simp add: fdiv_def)
  then have "trips quick 0 1" by (simp add: trips_def)
  moreover have "sumLocked 0 ?b = (0, 1)"
    unfolding quick_observed by (simp add: sumLocked_def New unix_def)
  ultimately have r: "recordLocked Failure 0 (New quick) = transitionLocked Open 0 ?b"
    using New by (simp add: recordLocked_def Let_def)
  show "bstate (recordLocked Failure 0 (New quick)) = Open" by (simp add: r)
  show "openedAt (recordLocked Failure 0 (New quick)) = 0"
    unfolding r using New by (simp add: transitionLocked_def Let_def split: prod.split)
qed

lemma quick_probe: "\<exists>s. reachable quick s \<and> probes s = 1"
proof -
  define b where "b = recordLocked Failure 0 (New quick)"
  have b: "bstate b = Open" "openedAt b = 0" "cfg b = quick" "halfOpenTokens b = 0"
    using quick_trips by (simp_all add: b_def) (simp_all add: New_def)
  define b' where "b' = transitionLocked HalfOpen 0 b"
  have al: "allowLocked 0 b = (b', HalfOpen)" using b by (simp add: allowLocked_def b'_def)
  have "reachable quick ((start quick)\<lparr>brk := b\<rparr>)"
    using next_step [OF init record_plain, of quick Failure 0] by (simp add: start_def b_def)
  from next_step [OF this allow [of 0 _ b' HalfOpen]] al
  have "reachable quick ((start quick)\<lparr>brk := b', waiting := 1\<rparr>)" by (simp add: start_def)
  from next_step [OF this load] b
  have "reachable quick ((start quick)\<lparr>brk := b', loads := {#0#}\<rparr>)" by (simp add: start_def b'_def)
  from next_step [OF this cas_ok [of 0]] b
  have "reachable quick ((start quick)\<lparr>brk := b'\<lparr>halfOpenTokens := 1\<rparr>, probes := 1\<rparr>)"
    by (simp add: start_def b'_def)
  moreover have "probes ((start quick)\<lparr>brk := b'\<lparr>halfOpenTokens := 1\<rparr>, probes := 1\<rparr>) = 1" by simp
  ultimately show ?thesis by blast
qed

theorem probe_semaphore_witness: "\<exists>s :: callers. probes s = 1 \<and> halfOpenTokens (brk s) = int (1 + returning s) \<and> returning s = 0"
proof -
  obtain s where s: "reachable quick s" "probes s = 1" using quick_probe by blast
  have "probes s = 1 \<and> halfOpenTokens (brk s) = int (1 + returning s) \<and> returning s = 0"
    using probe_semaphore [OF s(1)] s(2) by (auto simp: New_def)
  then show ?thesis by (rule exI)
qed

section \<open>Effective state, classification, admission\<close>

text \<open>\<^verbatim>\<open>State\<close> is a faithful preview: the state it reports is the state \<^verbatim>\<open>Allow\<close> decides on at the
  same instant, so an open breaker whose \<^verbatim>\<open>OpenFor\<close> has elapsed is reported, and then admitted, as
  half-open; and \<^verbatim>\<open>Allow\<close> admits exactly in Closed, or in HalfOpen while a probe slot is free.\<close>

theorem State_previews_Allow:
  "snd (allowLocked now b) = State now b \<and>
   fst (snd (Allow now b)) =
     (State now b = Closed \<or> (State now b = HalfOpen \<and> halfOpenTokens b < HalfOpenMax (cfg b))) \<and>
   snd (snd (Allow now b)) = (fst (snd (Allow now b)) \<and> State now b = HalfOpen) \<and>
   halfOpenTokens (fst (Allow now b)) = halfOpenTokens b + (if snd (snd (Allow now b)) then 1 else 0)"
  by (auto simp: allowLocked_def State_def Allow_def Let_def split: state.split)

text \<open>A 429 moves nothing: recording an ignored outcome changes no field of the breaker except that a
  half-open probe gives its token back.\<close>

theorem Ignored_moves_nothing:
  "Classify 429 False = Ignored \<and> Record Ignored False now b = b \<and>
   Record Ignored True now b = b\<lparr>halfOpenTokens := halfOpenTokens b - 1\<rparr>"
  by (simp add: Classify_def Record_def recordLocked_def release_def)


section \<open>The ring counts the window\<close>

text \<open>The observations since the ring was last cleared, as seconds and outcomes in time order, and the
  bucket they leave in slot \<open>i\<close> of a ring of \<open>n\<close>: the latest second of that residue class.\<close>

type_synonym log = "(int \<times> outcome) list"

abbreviation in_class :: "int \<Rightarrow> nat \<Rightarrow> int \<times> outcome \<Rightarrow> bool" where
  "in_class n i e \<equiv> nat (fst e mod n) = i"

definition count_if :: "(int \<times> outcome \<Rightarrow> bool) \<Rightarrow> log \<Rightarrow> nat" where
  "count_if P es = length (filter P es)"

definition bucket_of :: "int \<Rightarrow> log \<Rightarrow> nat \<Rightarrow> bucket" where
  "bucket_of n es i =
     (let cl = filter (in_class n i) es in
      if cl = [] then no_bucket
      else (let s = fst (last cl) in
        \<lparr>startSec = s, b_ok = of_nat (count_if (\<lambda>e. fst e = s \<and> snd e \<noteq> Failure) es),
         b_fail = of_nat (count_if (\<lambda>e. fst e = s \<and> snd e = Failure) es)\<rparr>))"

definition shows_log :: "log \<Rightarrow> breaker \<Rightarrow> bool" where
  "shows_log es b \<longleftrightarrow> 1 \<le> Buckets (cfg b) \<and> ring b = map (bucket_of (Buckets (cfg b)) es) [0..<nat (Buckets (cfg b))]"

lemma ring_index_eq: "0 < n \<Longrightarrow> ring_index sec n = nat (sec mod n)"
proof -
  assume n: "0 < n"
  have "(sgn sec * (\<bar>sec\<bar> mod n)) mod n = sec mod n"
  proof (cases "sec < 0")
    case True
    then have "(sgn sec * (\<bar>sec\<bar> mod n)) mod n = (- (- sec mod n)) mod n" by (simp add: sgn_if)
    then show ?thesis by (simp add: mod_minus_eq)
  qed (simp add: sgn_if)
  then show ?thesis by (simp add: ring_index_def)
qed

lemma count_if_append [simp]: "count_if P (xs @ ys) = count_if P xs + count_if P ys"
  by (simp add: count_if_def)

lemma count_if_Cons [simp]: "count_if P (x # xs) = (if P x then 1 else 0) + count_if P xs"
  by (simp add: count_if_def)

lemma count_if_Nil [simp]: "count_if P [] = 0"
  by (simp add: count_if_def)

lemma count_if_none: "(\<And>e. e \<in> set es \<Longrightarrow> \<not> P e) \<Longrightarrow> count_if P es = 0"
  by (simp add: count_if_def filter_empty_conv)

lemma count_if_cong: "(\<And>e. e \<in> set es \<Longrightarrow> P e = Q e) \<Longrightarrow> count_if P es = count_if Q es"
  unfolding count_if_def by (metis filter_cong)

lemma count_if_le: "count_if P es \<le> length es"
  by (simp add: count_if_def)

lemma last_class:
  assumes "sorted (map fst es)" and "filter (in_class n i) es \<noteq> []" and "e \<in> set es" and "in_class n i e"
  shows "fst e \<le> fst (last (filter (in_class n i) es))"
proof -
  let ?cl = "filter (in_class n i) es"
  have so: "sorted (map fst ?cl)" using assms(1) by (rule sorted_filter)
  have "e \<in> set ?cl" using assms(3,4) by simp
  then obtain j where j: "j < length ?cl" "e = ?cl ! j" by (metis in_set_conv_nth)
  then have "map fst ?cl ! j \<le> map fst ?cl ! (length ?cl - 1)"
    by (intro sorted_nth_mono [OF so]) simp_all
  then show ?thesis using j assms(2) by (simp add: last_conv_nth)
qed

lemma bucket_of_observe:
  assumes so: "sorted (map fst es)" and last: "\<And>e. e \<in> set es \<Longrightarrow> fst e \<le> sec" and n: "0 < n"
    and bk: "bk = (if startSec (bucket_of n es (nat (sec mod n))) \<noteq> sec then no_bucket\<lparr>startSec := sec\<rparr>
                   else bucket_of n es (nat (sec mod n)))"
  shows "bucket_of n (es @ [(sec, o')]) (nat (sec mod n)) =
    (if o' = Failure then bk\<lparr>b_fail := b_fail bk + 1\<rparr> else bk\<lparr>b_ok := b_ok bk + 1\<rparr>)"
proof -
  let ?i = "nat (sec mod n)"
  let ?cl = "filter (in_class n ?i) es"
  let ?ok = "count_if (\<lambda>e. fst e = sec \<and> snd e \<noteq> Failure) es"
  let ?fail = "count_if (\<lambda>e. fst e = sec \<and> snd e = Failure) es"
  have "bk = \<lparr>startSec = sec, b_ok = of_nat ?ok, b_fail = of_nat ?fail\<rparr>"
  proof (cases "?cl = []")
    case True
    then have "\<And>e. e \<in> set es \<Longrightarrow> fst e \<noteq> sec" by (auto simp: filter_empty_conv)
    then have "?ok = 0" "?fail = 0" by (intro count_if_none; blast)+
    then show ?thesis using True by (auto simp: bk bucket_of_def no_bucket_def)
  next
    case False
    show ?thesis
    proof (cases "fst (last ?cl) = sec")
      case True
      then show ?thesis using False by (simp add: bk bucket_of_def Let_def)
    next
      case ne: False
      have "last ?cl \<in> set es" using False last_in_set by fastforce
      from last [OF this] ne have "fst (last ?cl) < sec" by simp
      then have "fst e \<noteq> sec" if "e \<in> set es" for e
        using last_class [OF so False that] by force
      then have "?ok = 0" "?fail = 0" by (intro count_if_none; blast)+
      then show ?thesis using False ne by (simp add: bk bucket_of_def Let_def no_bucket_def)
    qed
  qed
  then show ?thesis by (simp add: bucket_of_def Let_def)
qed

lemma bucket_of_other:
  "i \<noteq> nat (sec mod n) \<Longrightarrow> bucket_of n (es @ [(sec, o')]) i = bucket_of n es i"
proof -
  assume i: "i \<noteq> nat (sec mod n)"
  let ?cl = "filter (in_class n i) es"
  have "fst (last ?cl) \<noteq> sec" if "?cl \<noteq> []"
    using last_in_set [OF that] i by auto
  then show ?thesis using i by (cases "?cl = []") (simp_all add: bucket_of_def Let_def)
qed

lemma observe_shows:
  assumes "shows_log es b" and "sorted (map fst es)" and "\<And>e. e \<in> set es \<Longrightarrow> fst e \<le> unix now"
  shows "shows_log (es @ [(unix now, o')]) (observeLocked o' now b)"
proof -
  let ?n = "Buckets (cfg b)" and ?i = "nat (unix now mod Buckets (cfg b))"
  have n: "0 < ?n" and r: "ring b = map (bucket_of ?n es) [0..<nat ?n]"
    using assms(1) by (simp_all add: shows_log_def)
  have i: "?i < nat ?n" using n by (simp add: nat_less_iff)
  have at: "ring b ! ?i = bucket_of ?n es ?i" using i by (simp add: r)
  have "ring (observeLocked o' now b) = (ring b)[?i := bucket_of ?n (es @ [(unix now, o')]) ?i]"
    using bucket_of_observe [OF assms(2,3) n refl, of o'] n at
    by (simp add: observeLocked_def Let_def ring_index_eq)
  also have "\<dots> = map (bucket_of ?n (es @ [(unix now, o')])) [0..<nat ?n]"
    using bucket_of_other [of _ "unix now" ?n es o'] by (intro nth_equalityI) (auto simp: r nth_list_update)
  finally show ?thesis using n by (simp add: shows_log_def)
qed

lemma sum_classes:
  "(\<And>e. e \<in> set es \<Longrightarrow> g e < k) \<Longrightarrow> (\<Sum>i\<leftarrow>[0..<k]. count_if (\<lambda>e. g e = i \<and> Q e) es) = count_if Q es"
proof (induction es)
  case (Cons e es)
  have "(\<Sum>i\<leftarrow>[0..<k]. if g e = i \<and> Q e then 1 else 0 :: nat) = (if Q e then 1 else 0)"
    using Cons.prems [of e] by (auto simp: sum_list_map_eq_sum_count2 interv_sum_list_conv_sum_set_nat)
  with Cons show ?case by (simp add: sum_list_addf)
qed simp

lemma bucket_window:
  assumes so: "sorted (map fst es)" and last: "\<And>e. e \<in> set es \<Longrightarrow> fst e \<le> cutoff + n" and n: "0 < n"
    and len: "length es < 2 ^ 32"
  shows "(if startSec (bucket_of n es i) \<le> cutoff then 0 else unat (b_ok (bucket_of n es i))) =
           count_if (\<lambda>e. nat (fst e mod n) = i \<and> cutoff < fst e \<and> snd e \<noteq> Failure) es"
    and "(if startSec (bucket_of n es i) \<le> cutoff then 0 else unat (b_fail (bucket_of n es i))) =
           count_if (\<lambda>e. nat (fst e mod n) = i \<and> cutoff < fst e \<and> snd e = Failure) es"
proof -
  let ?cl = "filter (in_class n i) es"
  have small: "unat (of_nat (count_if P es) :: u32) = count_if P es" for P
    using count_if_le [of P es] len by (simp add: unat_of_nat)
  have "(if startSec (bucket_of n es i) \<le> cutoff then 0 else unat (b_ok (bucket_of n es i))) =
           count_if (\<lambda>e. nat (fst e mod n) = i \<and> cutoff < fst e \<and> snd e \<noteq> Failure) es \<and>
    (if startSec (bucket_of n es i) \<le> cutoff then 0 else unat (b_fail (bucket_of n es i))) =
           count_if (\<lambda>e. nat (fst e mod n) = i \<and> cutoff < fst e \<and> snd e = Failure) es"
  proof (cases "?cl = []")
    case True
    then have none: "\<And>e. e \<in> set es \<Longrightarrow> nat (fst e mod n) \<noteq> i" by (auto simp: filter_empty_conv)
    have "count_if (\<lambda>e. nat (fst e mod n) = i \<and> P e) es = 0" for P using none by (intro count_if_none) blast
    then show ?thesis using True by (simp add: bucket_of_def no_bucket_def)
  next
    case False
    let ?s = "fst (last ?cl)"
    have mem: "last ?cl \<in> set es" "nat (?s mod n) = i" using last_in_set [OF False] by auto
    note le = last_class [OF so False]
    have same: "fst e = ?s" if e: "e \<in> set es" "nat (fst e mod n) = i" "cutoff < fst e" for e
    proof -
      have "fst e \<le> ?s" "?s - fst e < n" using le [OF e(1,2)] last [OF mem(1)] e(3) by auto
      moreover have "?s mod n = fst e mod n"
        using mem(2) e(2) n by (metis nat_eq_iff2 pos_mod_sign)
      then have "(?s - fst e) mod n = 0" by (simp add: mod_eq_dvd_iff mod_eq_0_iff_dvd)
      ultimately show ?thesis by simp
    qed
    show ?thesis
    proof (cases "?s \<le> cutoff")
      case True
      then have "count_if (\<lambda>e. nat (fst e mod n) = i \<and> cutoff < fst e \<and> P e) es = 0" for P
        using le by (intro count_if_none) force
      then show ?thesis using True False by (simp add: bucket_of_def Let_def)
    next
      case gt: False
      have "count_if (\<lambda>e. fst e = ?s \<and> P e) es = count_if (\<lambda>e. nat (fst e mod n) = i \<and> cutoff < fst e \<and> P e) es" for P
      proof (rule count_if_cong)
        fix e assume "e \<in> set es"
        from same [OF this] mem(2) gt
        show "(fst e = ?s \<and> P e) = (nat (fst e mod n) = i \<and> cutoff < fst e \<and> P e)" by (metis not_le)
      qed
      then show ?thesis using gt False by (simp add: bucket_of_def Let_def small)
    qed
  qed
  then show "(if startSec (bucket_of n es i) \<le> cutoff then 0 else unat (b_ok (bucket_of n es i))) =
           count_if (\<lambda>e. nat (fst e mod n) = i \<and> cutoff < fst e \<and> snd e \<noteq> Failure) es"
    and "(if startSec (bucket_of n es i) \<le> cutoff then 0 else unat (b_fail (bucket_of n es i))) =
           count_if (\<lambda>e. nat (fst e mod n) = i \<and> cutoff < fst e \<and> snd e = Failure) es" by simp_all
qed


lemma window_span: "W \<le> n * second \<Longrightarrow> unix now \<le> unix (now - W) + n"
proof -
  assume "W \<le> n * second"
  then have "(now - n * second) div second \<le> (now - W) div second" by (intro zdiv_mono1) simp_all
  moreover have "(now - n * second) div second = now div second - n"
    by (simp add: minus_mult_div_eq_mod [symmetric] div_mult_self1 diff_conv_add_uminus del: add_uminus_conv_diff
        flip: mult_minus_left)
  ultimately show ?thesis by (simp add: unix_def)
qed

definition in_window :: "config \<Rightarrow> ns \<Rightarrow> (outcome \<Rightarrow> bool) \<Rightarrow> log \<Rightarrow> int" where
  "in_window c now P es = int (count_if (\<lambda>e. unix (now - Window c) < fst e \<and> P (snd e)) es)"

lemma sum_over_ring:
  assumes "\<And>i. (if P (f i) then 0 else unat (g (f i))) = count_if (\<lambda>e. h e = i \<and> Q e) es"
    and "\<And>e. e \<in> set es \<Longrightarrow> h e < k"
  shows "(\<Sum>bk\<leftarrow>filter (\<lambda>bk. \<not> P bk) (map f [0..<k]). int (unat (g bk))) = int (count_if Q es)"
proof -
  have "(\<Sum>bk\<leftarrow>filter (\<lambda>bk. \<not> P bk) bs. int (unat (g bk))) = int (\<Sum>bk\<leftarrow>bs. if P bk then 0 else unat (g bk))" for bs
    by (induction bs) auto
  then show ?thesis using sum_classes [of es h k Q] assms by (simp add: comp_def)
qed

lemma sum_shows:
  assumes "shows_log es b" and "sorted (map fst es)" and "\<And>e. e \<in> set es \<Longrightarrow> fst e \<le> unix now"
    and "Window (cfg b) \<le> Buckets (cfg b) * second" and "length es < 2 ^ 32"
  shows "sumLocked now b = (in_window (cfg b) now (\<lambda>o'. o' \<noteq> Failure) es, in_window (cfg b) now (\<lambda>o'. o' = Failure) es)"
proof -
  let ?n = "Buckets (cfg b)" and ?cut = "unix (now - Window (cfg b))"
  have n: "0 < ?n" and r: "ring b = map (bucket_of ?n es) [0..<nat ?n]"
    using assms(1) by (simp_all add: shows_log_def)
  have last: "fst e \<le> ?cut + ?n" if "e \<in> set es" for e
    using assms(3) [OF that] window_span [OF assms(4), of now] by simp
  have k: "nat (fst e mod ?n) < nat ?n" for e :: "int \<times> outcome" using n by (simp add: nat_less_iff)
  have "(\<Sum>bk\<leftarrow>filter (\<lambda>bk. \<not> startSec bk \<le> ?cut) (ring b). int (unat (b_ok bk))) =
      int (count_if (\<lambda>e. ?cut < fst e \<and> snd e \<noteq> Failure) es)"
    unfolding r
    by (rule sum_over_ring [where h = "\<lambda>e. nat (fst e mod ?n)"]) (rule bucket_window(1) [OF assms(2) last n assms(5)], assumption, rule k)
  moreover have "(\<Sum>bk\<leftarrow>filter (\<lambda>bk. \<not> startSec bk \<le> ?cut) (ring b). int (unat (b_fail bk))) =
      int (count_if (\<lambda>e. ?cut < fst e \<and> snd e = Failure) es)"
    unfolding r
    by (rule sum_over_ring [where h = "\<lambda>e. nat (fst e mod ?n)"]) (rule bucket_window(2) [OF assms(2) last n assms(5)], assumption, rule k)
  ultimately show ?thesis by (simp add: sumLocked_def Let_def in_window_def)
qed

section \<open>Histories\<close>

text \<open>A breaker's life with the observations its ring should show: the outcomes recorded outside
  half-open, other than ignored ones, since it last closed. The clock does not run backwards.\<close>

definition relog :: "breaker \<Rightarrow> breaker \<Rightarrow> outcome \<Rightarrow> ns \<Rightarrow> log \<Rightarrow> log" where
  "relog b b' o' now es =
     (if o' = Ignored then es
      else if bstate b = HalfOpen then (if bstate b' = Closed then [] else es)
      else es @ [(unix now, o')])"

inductive history :: "config \<Rightarrow> breaker \<Rightarrow> log \<Rightarrow> ns \<Rightarrow> bool" for c where
  new: "history c (New c) [] t"
| hook: "history c b es t \<Longrightarrow> history c (OnTransition b) es t"
| allow: "history c b es t \<Longrightarrow> t \<le> now \<Longrightarrow> history c (fst (Allow now b)) es now"
| outcome: "history c b es t \<Longrightarrow> t \<le> now \<Longrightarrow>
    history c (Record o' tok now b) (relog b (Record o' tok now b) o' now es) now"

definition hist_inv :: "config \<Rightarrow> breaker \<Rightarrow> log \<Rightarrow> ns \<Rightarrow> bool" where
  "hist_inv c b es t \<longleftrightarrow> cfg b = cfg (New c) \<and> shows_log es b \<and> sorted (map fst es) \<and> (\<forall>e\<in>set es. fst e \<le> unix t)"

lemma shows_log_cong: "cfg b' = cfg b \<Longrightarrow> ring b' = ring b \<Longrightarrow> shows_log es b' = shows_log es b"
  by (simp add: shows_log_def)

lemma ring_transition:
  "ring (transitionLocked to now b) = (if to = Closed \<and> bstate b \<noteq> Closed then map (\<lambda>_. no_bucket) (ring b) else ring b)"
  by (auto simp: transitionLocked_def Let_def split: state.split prod.split)

lemma ring_allow: "ring (fst (Allow now b)) = ring b" "cfg (fst (Allow now b)) = cfg b"
  by (auto simp: Allow_def allowLocked_def ring_transition Let_def split: state.split)

lemma shows_empty: "shows_log es b \<Longrightarrow> cfg b' = cfg b \<Longrightarrow> ring b' = map (\<lambda>_. no_bucket) (ring b) \<Longrightarrow> shows_log [] b'"
  by (simp add: shows_log_def comp_def bucket_of_def)

lemma record_shows:
  assumes "hist_inv c b es t" and "t \<le> now"
  shows "shows_log (relog b (Record o' tok now b) o' now es) (Record o' tok now b)"
proof -
  let ?b = "recordLocked o' now b"
  have sh: "shows_log es b" and so: "sorted (map fst es)" and le: "\<And>e. e \<in> set es \<Longrightarrow> fst e \<le> unix now"
    using assms unix_mono [OF assms(2)] by (force simp: hist_inv_def)+
  have rel: "ring (Record o' tok now b) = ring ?b" "cfg (Record o' tok now b) = cfg ?b"
      "bstate (Record o' tok now b) = bstate ?b"
    by (simp_all add: Record_def Let_def)
  have "shows_log (relog b ?b o' now es) ?b"
  proof (cases "o' = Ignored \<or> bstate b = HalfOpen")
    case True
    then show ?thesis
      using sh shows_empty [OF sh, of ?b] shows_log_cong [of ?b b es]
      by (auto simp: relog_def recordLocked_def Let_def ring_transition)
  next
    case False
    have obs: "shows_log (es @ [(unix now, o')]) (observeLocked o' now b)" by (rule observe_shows [OF sh so le])
    have "ring ?b = ring (observeLocked o' now b)" "cfg ?b = cfg (observeLocked o' now b)"
      using False by (simp_all add: recordLocked_def Let_def ring_transition split: prod.split)
    from shows_log_cong [OF this(2,1)] obs False show ?thesis by (simp add: relog_def)
  qed
  moreover have "relog b (Record o' tok now b) o' now es = relog b ?b o' now es"
    by (simp add: relog_def rel)
  ultimately show ?thesis using shows_log_cong [OF rel(2,1)] by simp
qed

lemma history_inv: "history c b es t \<Longrightarrow> hist_inv c b es t"
proof (induction rule: history.induct)
  case (new t)
  have "ring (New c) = map (\<lambda>_. no_bucket) [0..<nat (Buckets (cfg (New c)))]"
    by (simp add: New_def Let_def map_replicate_const)
  then show ?case using New_limits(3) [of c] by (simp add: hist_inv_def shows_log_def bucket_of_def)
next
  case (hook b es t)
  then show ?case by (auto simp: hist_inv_def OnTransition_def shows_log_def)
next
  case (allow b es t now)
  then show ?case
    using shows_log_cong [OF ring_allow(2) ring_allow(1)] unix_mono [of t now]
    by (force simp: hist_inv_def ring_allow)
next
  case (outcome b es t now o' tok)
  have "cfg (Record o' tok now b) = cfg b" by (simp add: Record_def Let_def)
  then show ?case
    using record_shows [OF outcome.IH outcome.hyps(2)] outcome.IH unix_mono [OF outcome.hyps(2)]
    by (force simp: hist_inv_def relog_def sorted_append)
qed

text \<open>The ring is a sliding window: at any time of any history whose window fits the ring
  (\<^verbatim>\<open>Window\<close> at most \<^verbatim>\<open>Buckets\<close> seconds), the sums the breaker computes are the numbers of successes and
  failures it recorded in the window, neither expired ones nor lost ones.\<close>

theorem ring_sums_window:
  assumes "history c b es t" and "t \<le> now" and "Window c \<le> Buckets (cfg (New c)) * second" and "length es < 2 ^ 32"
  shows "sumLocked now b =
    (in_window c now (\<lambda>o'. o' \<noteq> Failure) es, in_window c now (\<lambda>o'. o' = Failure) es)"
proof -
  have h: "hist_inv c b es t" by (rule history_inv [OF assms(1)])
  have W: "Window (cfg (New c)) = Window c" by (simp add: New_def Let_def)
  have "fst e \<le> unix now" if "e \<in> set es" for e using h that unix_mono [OF assms(2)] by (force simp: hist_inv_def)
  then show ?thesis
    using sum_shows [of es b now] h assms(3,4) W by (simp add: hist_inv_def in_window_def)
qed

theorem ring_sums_window_witness: "sumLocked 0 (New DefaultConfig) = (0, 0)"
  using ring_sums_window [OF new, of 0 0 DefaultConfig]
  by (simp add: DefaultConfig_def New_def in_window_def)


text \<open>A closed breaker opens exactly on the failure rate of the sliding window: recording an outcome
  opens it if and only if, counting that outcome, the window holds at least \<^verbatim>\<open>MinRequests\<close> outcomes and
  the quotient failures/total, computed in floating point, reaches \<^verbatim>\<open>FailureRate\<close>; in particular it opens
  whenever the exact rate reaches a threshold that is itself a float, provided the counts are.\<close>

theorem opens_on_window_rate:
  fixes es' :: log
  assumes "history c b es t" and "t \<le> now" and "Window c \<le> Buckets (cfg (New c)) * second"
    and "length es + 1 < 2 ^ 32" and "bstate b = Closed" and "o' \<noteq> Ignored" and "es' = es @ [(unix now, o')]"
    and "ok = in_window c now (\<lambda>x. x \<noteq> Failure) es'" and "fail = in_window c now (\<lambda>x. x = Failure) es'"
  shows "(bstate (Record o' tok now b) = Open \<longleftrightarrow> trips c ok fail) \<and>
    (\<not> trips c ok fail \<longrightarrow> bstate (Record o' tok now b) = Closed) \<and>
    (is_f64 (FailureRate c) \<and> ok + fail < 2 ^ 53 \<and> MinRequests c \<le> ok + fail \<and> 0 < ok + fail \<and>
     FailureRate c * of_int (ok + fail) \<le> of_int fail \<longrightarrow> bstate (Record o' tok now b) = Open)"
proof -
  have h: "hist_inv c b es t" by (rule history_inv [OF assms(1)])
  have W: "Window (cfg (New c)) = Window c" "MinRequests (cfg (New c)) = MinRequests c"
    "FailureRate (cfg (New c)) = FailureRate c" by (simp_all add: New_def Let_def)
  have le: "fst e \<le> unix now" if "e \<in> set es" for e using h that unix_mono [OF assms(2)] by (force simp: hist_inv_def)
  let ?b1 = "observeLocked o' now b"
  have sh: "shows_log es' ?b1" unfolding assms(7) using h le by (intro observe_shows) (auto simp: hist_inv_def)
  have so: "sorted (map fst es')" using h le by (auto simp: assms(7) hist_inv_def sorted_append)
  have le': "fst e \<le> unix now" if "e \<in> set es'" for e using le [of e] that by (auto simp: assms(7))
  have cf: "cfg ?b1 = cfg (New c)" using h by (simp add: hist_inv_def)
  have sm: "sumLocked now ?b1 = (ok, fail)"
    using sum_shows [OF sh so le'] assms(3,4,7) W cf by (simp add: assms(8,9) in_window_def)
  have iff: "bstate (Record o' tok now b) = (if trips c ok fail then Open else Closed)"
    using assms(5,6) sm cf W by (simp add: Record_def Let_def recordLocked_def trips_def)
  have nn: "0 \<le> ok" "0 \<le> fail" by (simp_all add: assms(8,9) in_window_def)
  have "trips c ok fail" if "is_f64 (FailureRate c)" "ok + fail < 2 ^ 53" "MinRequests c \<le> ok + fail"
    "0 < ok + fail" "FailureRate c * of_int (ok + fail) \<le> of_int fail"
  proof -
    have "f64 fail = of_int fail" "f64 (ok + fail) = of_int (ok + fail)"
      using f64_exact [of fail] f64_exact [of "ok + fail"] nn that(2) by simp_all
    moreover have "FailureRate c \<le> of_int fail / of_int (ok + fail)"
      using that(4,5) by (simp add: le_divide_eq)
    ultimately show ?thesis using fl64_ge_float [OF that(1)] that(3,4) by (simp add: trips_def fdiv_def)
  qed
  with iff show ?thesis by auto
qed

theorem opens_on_window_rate_witness: "bstate (Record Success False 0 (New DefaultConfig)) = Closed"
  using opens_on_window_rate [OF new [of DefaultConfig 0], of 0 Success
      "[(0, Success)]" 1 0 False]
  by (simp add: DefaultConfig_def New_def in_window_def count_if_def unix_def trips_def)

lemma half_open_successes:
  assumes "bstate b = HalfOpen" and "halfOpenOK b + int k = HalfOpenSuccesses (cfg b)" and "0 < k"
  shows "bstate ((recordLocked Success now ^^ k) b) = Closed \<and> ring ((recordLocked Success now ^^ k) b) = map (\<lambda>_. no_bucket) (ring b) \<and>
    halfOpenOK ((recordLocked Success now ^^ k) b) = 0"
  using assms
proof (induction k arbitrary: b)
  case (Suc k)
  show ?case
  proof (cases "k = 0")
    case True
    then show ?thesis
      using Suc.prems by (simp add: recordLocked_def Let_def ring_transition) (simp add: transitionLocked_def Let_def split: prod.split)
  next
    case False
    let ?b = "recordLocked Success now b"
    have e: "?b = b\<lparr>halfOpenOK := halfOpenOK b + 1\<rparr>" using Suc.prems False by (simp add: recordLocked_def Let_def)
    have "bstate ((recordLocked Success now ^^ k) ?b) = Closed \<and>
        ring ((recordLocked Success now ^^ k) ?b) = map (\<lambda>_. no_bucket) (ring ?b) \<and>
        halfOpenOK ((recordLocked Success now ^^ k) ?b) = 0"
      using Suc.prems False by (intro Suc.IH) (simp_all add: e)
    then show ?thesis by (simp add: funpow_swap1 e)
  qed
qed simp

text \<open>Recovery: an open breaker whose \<^verbatim>\<open>OpenFor\<close> has elapsed turns half-open when a request is admitted,
  one failure reported then re-opens it, and \<^verbatim>\<open>HalfOpenSuccesses\<close> successes in a row close it with an empty
  window.\<close>

theorem recovery:
  assumes "bstate b = Open" and "openedAt b + OpenFor (cfg b) \<le> now"
    and "b1 = fst (allowLocked now b)" and "1 \<le> HalfOpenSuccesses (cfg b)"
  shows "bstate b1 = HalfOpen \<and> halfOpenOK b1 = 0 \<and> bstate (recordLocked Failure later b1) = Open \<and>
    bstate ((recordLocked Success later ^^ nat (HalfOpenSuccesses (cfg b))) b1) = Closed \<and>
    sumLocked later ((recordLocked Success later ^^ nat (HalfOpenSuccesses (cfg b))) b1) = (0, 0)"
proof -
  have b1: "bstate b1 = HalfOpen" "halfOpenOK b1 = 0" "cfg b1 = cfg b"
    using assms(1-3) by (simp_all add: allowLocked_def Let_def) (simp add: transitionLocked_def Let_def split: prod.split)
  have "bstate ((recordLocked Success later ^^ nat (HalfOpenSuccesses (cfg b))) b1) = Closed \<and>
      ring ((recordLocked Success later ^^ nat (HalfOpenSuccesses (cfg b))) b1) = map (\<lambda>_. no_bucket) (ring b1)"
    using half_open_successes [of b1 "nat (HalfOpenSuccesses (cfg b))" later] b1 assms(4) by simp
  then show ?thesis
    using b1 by (simp add: recordLocked_def sumLocked_def Let_def filter_map comp_def no_bucket_def)
qed

theorem recovery_witness:
  "bstate (fst (allowLocked 5 ((New DefaultConfig)\<lparr>bstate := Open, openedAt := 5 - 30 * second\<rparr>))) = HalfOpen"
  using recovery [OF _ _ refl, of "(New DefaultConfig)\<lparr>bstate := Open, openedAt := 5 - 30 * second\<rparr>" 5]
  by (simp add: New_def DefaultConfig_def)

end
