(* ===== verification/Waitq.thy ===== *)
theory Waitq
  imports Prelude "HOL-Library.Multiset"
begin

text \<open>
  \<^verbatim>\<open>router/internal/waitq/waitq.go\<close>: the FIFO of requests waiting for a slot on one backend. Tickets are
  numbered in the order \<^verbatim>\<open>Join\<close> makes them. The parts under \<^verbatim>\<open>q.mu\<close> are functions of the queue; what
  runs outside the lock (the store of \<^verbatim>\<open>t.state\<close>, the send on \<^verbatim>\<open>t.ch\<close>, the second wake of a declined
  slot) is a step of its own, so that every interleaving is a path of \<open>qstep\<close>.
\<close>

section \<open>Definitions\<close>

datatype tstate = ticketQueued | ticketWoken | ticketLeft

text \<open>\<open>qn\<close> is the atomic mirror of the length, \<open>qsent\<close> the number of sends on a ticket's channel,
  \<open>qfront\<close> the tickets that joined at the front.\<close>

record queue =
  qwaiters :: "nat list"
  qn :: int
  qnext :: nat
  qstate :: "nat \<Rightarrow> tstate"
  qsent :: "nat \<Rightarrow> nat"
  qfront :: "nat set"

definition empty_queue :: queue where
  "empty_queue = \<lparr>qwaiters = [], qn = 0, qnext = 0, qstate = (\<lambda>_. ticketQueued), qsent = (\<lambda>_. 0), qfront = {}\<rparr>"

definition Join :: "int \<Rightarrow> bool \<Rightarrow> queue \<Rightarrow> nat option \<times> queue" where
  "Join depth front q =
     (if \<not> front \<and> depth > 0 \<and> int (length (qwaiters q)) \<ge> depth then (None, q)
      else
        (let t = qnext q;
             ws = (if front then t # qwaiters q else qwaiters q @ [t])
         in (Some t, q\<lparr>qwaiters := ws, qn := int (length ws), qnext := t + 1,
                       qfront := (if front then insert t (qfront q) else qfront q)\<rparr>)))"

text \<open>\<^verbatim>\<open>Wake\<close> up to its unlock, after the fast path: the ticket popped, if any.\<close>

definition wake_pop :: "queue \<Rightarrow> nat option \<times> queue" where
  "wake_pop q =
     (case qwaiters q of [] \<Rightarrow> (None, q)
      | t # ws \<Rightarrow> (Some t, q\<lparr>qwaiters := ws, qn := int (length ws)\<rparr>))"

definition wake_store :: "nat \<Rightarrow> queue \<Rightarrow> queue" where
  "wake_store t q = q\<lparr>qstate := (qstate q)(t := ticketWoken)\<rparr>"

definition wake_send :: "nat \<Rightarrow> queue \<Rightarrow> queue" where
  "wake_send t q = q\<lparr>qsent := (qsent q)(t := qsent q t + 1)\<rparr>"

definition leave_store :: "nat \<Rightarrow> queue \<Rightarrow> queue" where
  "leave_store t q = q\<lparr>qstate := (qstate q)(t := ticketLeft)\<rparr>"

definition Len :: "queue \<Rightarrow> int" where
  "Len q = qn q"

text \<open>\<^verbatim>\<open>Wake\<close> without interference.\<close>

definition Wake :: "queue \<Rightarrow> queue" where
  "Wake q =
     (if qn q = 0 then q
      else case wake_pop q of (None, q1) \<Rightarrow> q1 | (Some t, q1) \<Rightarrow> wake_send t (wake_store t q1))"

text \<open>\<^verbatim>\<open>Leave\<close> under the lock: whether the ticket was still in the slice; it is removed if so.\<close>

definition leave_locked :: "nat \<Rightarrow> queue \<Rightarrow> bool \<times> queue" where
  "leave_locked t q =
     (if t \<in> set (qwaiters q)
      then (let ws = remove1 t (qwaiters q) in (True, q\<lparr>qwaiters := ws, qn := int (length ws)\<rparr>))
      else (False, q))"

definition Leave :: "nat \<Rightarrow> queue \<Rightarrow> queue" where
  "Leave t q =
     (case leave_locked t q of
        (True, q1) \<Rightarrow> leave_store t q1
      | (False, q1) \<Rightarrow> Wake (leave_store t q1))"

section \<open>Interleavings\<close>

text \<open>Callers between their critical section and the rest of their call: \<open>popped\<close> tickets whose store and
  send are to come, \<open>stored\<close> ones whose send is to come, \<open>left\<close> tickets that were in the slice,
  \<open>declined\<close> ones that were not and will pass their slot on, \<open>wakes\<close> calls to \<^verbatim>\<open>Wake\<close> about to take the
  lock. \<open>pops\<close> is the history of pops, \<open>quit\<close> the tickets \<^verbatim>\<open>Leave\<close> was called for.\<close>

record qsys =
  qq :: queue
  popped :: "nat multiset"
  stored :: "nat multiset"
  left :: "nat multiset"
  declined :: "nat multiset"
  wakes :: nat
  pops :: "nat list"
  quit :: "nat set"

definition idle_sys :: "queue \<Rightarrow> qsys" where
  "idle_sys q = \<lparr>qq = q, popped = {#}, stored = {#}, left = {#}, declined = {#}, wakes = 0, pops = [], quit = {}\<rparr>"

inductive qstep :: "qsys \<Rightarrow> qsys \<Rightarrow> bool" where
  join: "qstep s (s\<lparr>qq := snd (Join depth front (qq s))\<rparr>)"
| wake_skip: "qn (qq s) = 0 \<Longrightarrow> qstep s s"
| wake_begin: "qn (qq s) \<noteq> 0 \<Longrightarrow> qstep s (s\<lparr>wakes := wakes s + 1\<rparr>)"
| wake_none: "wakes s > 0 \<Longrightarrow> wake_pop (qq s) = (None, q) \<Longrightarrow> qstep s (s\<lparr>wakes := wakes s - 1\<rparr>)"
| wake_some: "wakes s > 0 \<Longrightarrow> wake_pop (qq s) = (Some t, q) \<Longrightarrow>
    qstep s (s\<lparr>qq := q, wakes := wakes s - 1, popped := add_mset t (popped s), pops := pops s @ [t]\<rparr>)"
| store: "t \<in># popped s \<Longrightarrow>
    qstep s (s\<lparr>qq := wake_store t (qq s), popped := popped s - {#t#}, stored := add_mset t (stored s)\<rparr>)"
| send: "t \<in># stored s \<Longrightarrow> qstep s (s\<lparr>qq := wake_send t (qq s), stored := stored s - {#t#}\<rparr>)"
| leave_in: "t < qnext (qq s) \<Longrightarrow> leave_locked t (qq s) = (True, q) \<Longrightarrow>
    qstep s (s\<lparr>qq := q, left := add_mset t (left s), quit := insert t (quit s)\<rparr>)"
| leave_out: "t < qnext (qq s) \<Longrightarrow> leave_locked t (qq s) = (False, q) \<Longrightarrow>
    qstep s (s\<lparr>qq := q, declined := add_mset t (declined s), quit := insert t (quit s)\<rparr>)"
| left_store: "t \<in># left s \<Longrightarrow> qstep s (s\<lparr>qq := leave_store t (qq s), left := left s - {#t#}\<rparr>)"
| pass_skip: "t \<in># declined s \<Longrightarrow> qn (qq s) = 0 \<Longrightarrow>
    qstep s (s\<lparr>qq := leave_store t (qq s), declined := declined s - {#t#}\<rparr>)"
| pass_on: "t \<in># declined s \<Longrightarrow> qn (qq s) \<noteq> 0 \<Longrightarrow>
    qstep s (s\<lparr>qq := leave_store t (qq s), declined := declined s - {#t#}, wakes := wakes s + 1\<rparr>)"

inductive_cases qstepE: "qstep s s'"

inductive qreach :: "qsys \<Rightarrow> bool" where
  qinit: "qreach (idle_sys empty_queue)"
| qnext_step: "qreach s \<Longrightarrow> qstep s s' \<Longrightarrow> qreach s'"

text \<open>Front tickets in the slice come first, latest first; the others follow in the order they joined.\<close>

definition fifo :: "queue \<Rightarrow> bool" where
  "fifo q \<longleftrightarrow> (\<exists>fs bs. qwaiters q = fs @ bs \<and> set fs \<subseteq> qfront q \<and> set bs \<inter> qfront q = {} \<and>
     sorted_wrt (>) fs \<and> sorted_wrt (<) bs)"

text \<open>Tickets that did not join at the front, in the order given.\<close>

definition behind :: "queue \<Rightarrow> nat list \<Rightarrow> nat list" where
  "behind q ts = filter (\<lambda>t. t \<notin> qfront q) ts"

definition qinv :: "qsys \<Rightarrow> bool" where
  "qinv s \<longleftrightarrow>
     qn (qq s) = int (length (qwaiters (qq s))) \<and>
     distinct (pops s @ qwaiters (qq s)) \<and>
     (\<forall>t\<in>set (pops s) \<union> set (qwaiters (qq s)). t < qnext (qq s)) \<and>
     (\<forall>t. qsent (qq s) t + count (popped s) t + count (stored s) t = (if t \<in> set (pops s) then 1 else 0)) \<and>
     (\<forall>t\<in>qfront (qq s). t < qnext (qq s)) \<and> fifo (qq s) \<and>
     sorted_wrt (<) (behind (qq s) (pops s @ qwaiters (qq s)))"

text \<open>The state of a ticket, beside \<open>qinv\<close>.\<close>

definition tinv :: "qsys \<Rightarrow> nat \<Rightarrow> bool" where
  "tinv s t \<longleftrightarrow>
     (t \<in># left s \<or> t \<in># declined s \<longrightarrow> t \<in> quit s) \<and>
     (t \<in> quit s \<longrightarrow> t \<notin> set (qwaiters (qq s)) \<and> t < qnext (qq s)) \<and>
     (t \<in> set (qwaiters (qq s)) \<or> qnext (qq s) \<le> t \<longrightarrow> qstate (qq s) t = ticketQueued) \<and>
     (qstate (qq s) t = ticketWoken \<longrightarrow> t \<in> set (pops s)) \<and>
     (qstate (qq s) t = ticketLeft \<longrightarrow> t \<in> quit s) \<and>
     (t \<in># stored s \<or> 0 < qsent (qq s) t \<longrightarrow> qstate (qq s) t \<noteq> ticketQueued) \<and>
     (t \<in> quit s \<and> t \<notin># left s \<and> t \<notin># declined s \<longrightarrow> qstate (qq s) t \<noteq> ticketQueued)"

section \<open>The invariant\<close>

lemma fifo_join_back:
  assumes "fifo q" and "\<forall>t\<in>set (qwaiters q). t < qnext q" and "qnext q \<notin> qfront q"
  shows "fifo (q\<lparr>qwaiters := qwaiters q @ [qnext q], qn := n, qnext := k\<rparr>)"
proof -
  obtain fs bs where w: "qwaiters q = fs @ bs" "set fs \<subseteq> qfront q" "set bs \<inter> qfront q = {}"
    "sorted_wrt (>) fs" "sorted_wrt (<) bs" using assms(1) by (auto simp: fifo_def)
  then show ?thesis
    using assms(2,3) unfolding fifo_def
    by (intro exI [of _ fs] exI [of _ "bs @ [qnext q]"]) (auto simp: sorted_wrt_append)
qed

lemma fifo_join_front:
  assumes "fifo q" and "\<forall>t\<in>set (qwaiters q). t < qnext q"
  shows "fifo (q\<lparr>qwaiters := qnext q # qwaiters q, qn := n, qnext := k, qfront := insert (qnext q) (qfront q)\<rparr>)"
proof -
  obtain fs bs where w: "qwaiters q = fs @ bs" "set fs \<subseteq> qfront q" "set bs \<inter> qfront q = {}"
    "sorted_wrt (>) fs" "sorted_wrt (<) bs" using assms(1) by (auto simp: fifo_def)
  then show ?thesis
    using assms(2) unfolding fifo_def
    by (intro exI [of _ "qnext q # fs"] exI [of _ bs]) auto
qed

lemma sorted_wrt_remove1: "sorted_wrt P xs \<Longrightarrow> sorted_wrt P (remove1 x xs)"
  by (induction xs) (auto dest: notin_set_remove1 [THEN contrapos_nn, rotated] in_set_remove1 [THEN iffD1, rotated] set_remove1_subset [THEN subsetD])

lemma fifo_remove:
  assumes "fifo q"
  shows "fifo (q\<lparr>qwaiters := remove1 t (qwaiters q), qn := n\<rparr>)"
proof -
  obtain fs bs where w: "qwaiters q = fs @ bs" "set fs \<subseteq> qfront q" "set bs \<inter> qfront q = {}"
    "sorted_wrt (>) fs" "sorted_wrt (<) bs" using assms by (auto simp: fifo_def)
  show ?thesis
  proof (cases "t \<in> set fs")
    case True
    then show ?thesis
      using w set_remove1_subset [of t fs] unfolding fifo_def
      by (intro exI [of _ "remove1 t fs"] exI [of _ bs]) (auto simp: remove1_append sorted_wrt_remove1)
  next
    case False
    then show ?thesis
      using w set_remove1_subset [of t bs] unfolding fifo_def
      by (intro exI [of _ fs] exI [of _ "remove1 t bs"]) (auto simp: remove1_append sorted_wrt_remove1)
  qed
qed

lemma fifo_state [simp]:
  "fifo (q\<lparr>qstate := f\<rparr>) = fifo q" "fifo (q\<lparr>qsent := g\<rparr>) = fifo q"
  by (simp_all add: fifo_def)

lemma wake_pop_Some:
  "wake_pop q = (Some t, q') \<Longrightarrow> \<exists>ws. qwaiters q = t # ws \<and> q' = q\<lparr>qwaiters := remove1 t (qwaiters q), qn := int (length ws)\<rparr>"
  by (auto simp: wake_pop_def split: list.splits)

lemma leave_locked_True:
  "leave_locked t q = (True, q') \<Longrightarrow> t \<in> set (qwaiters q) \<and>
     q' = q\<lparr>qwaiters := remove1 t (qwaiters q), qn := int (length (remove1 t (qwaiters q)))\<rparr>"
  by (auto simp: leave_locked_def Let_def split: if_splits)

lemma leave_locked_False: "leave_locked t q = (False, q') \<Longrightarrow> q' = q"
  by (auto simp: leave_locked_def Let_def split: if_splits)

lemma behind_snoc: "behind q (xs @ [t]) = behind q xs @ (if t \<in> qfront q then [] else [t])"
  by (simp add: behind_def)

lemma behind_fresh:
  "\<forall>t\<in>set xs. t < n \<Longrightarrow> filter (\<lambda>t. t \<notin> insert n (qfront q)) xs = filter (\<lambda>t. t \<notin> qfront q) xs"
  by (induction xs) auto

lemma filter_remove1: "P t \<Longrightarrow> filter P (remove1 t xs) = remove1 t (filter P xs)" "\<not> P t \<Longrightarrow> filter P (remove1 t xs) = filter P xs"
  by (induction xs) auto

lemma sorted_behind_remove:
  assumes "sorted_wrt (<) (behind q (ps @ ws))"
  shows "sorted_wrt (<) (behind q (ps @ remove1 t ws))"
proof -
  have "set (filter (\<lambda>t. t \<notin> qfront q) (remove1 t ws)) \<subseteq> set (filter (\<lambda>t. t \<notin> qfront q) ws)"
    using set_remove1_subset [of t ws] by auto
  moreover have "sorted_wrt (<) (filter (\<lambda>t. t \<notin> qfront q) (remove1 t ws))"
    using assms by (cases "t \<in> qfront q") (simp_all add: behind_def sorted_wrt_append filter_remove1 sorted_wrt_remove1)
  ultimately show ?thesis using assms by (auto simp: behind_def sorted_wrt_append)
qed

lemma qinv_join: "qinv s \<Longrightarrow> qinv (s\<lparr>qq := snd (Join depth front (qq s))\<rparr>)"
proof -
  assume inv: "qinv s"
  let ?q = "qq s"
  have fresh: "qnext ?q \<notin> qfront ?q" "\<forall>t\<in>set (qwaiters ?q). t < qnext ?q" "qnext ?q \<notin> set (pops s)"
    using inv by (auto simp: qinv_def)
  have old: "\<forall>t\<in>set (pops s @ qwaiters ?q). t < qnext ?q" and b: "sorted_wrt (<) (behind ?q (pops s @ qwaiters ?q))"
    using inv by (auto simp: qinv_def)
  show ?thesis
  proof (cases front)
    case True
    have "sorted_wrt (<) (filter (\<lambda>t. t \<notin> insert (qnext ?q) (qfront ?q)) (pops s @ qnext ?q # qwaiters ?q))"
      using b behind_fresh [of "pops s" "qnext ?q" ?q] behind_fresh [of "qwaiters ?q" "qnext ?q" ?q] old by (simp add: behind_def)
    then show ?thesis
      using True inv fresh fifo_join_front [of ?q] by (auto simp: qinv_def Join_def Let_def less_Suc_eq behind_def)
  next
    case False
    have "sorted_wrt (<) (filter (\<lambda>t. t \<notin> qfront ?q) ((pops s @ qwaiters ?q) @ [qnext ?q]))"
      using b old by (auto simp: behind_def sorted_wrt_append)
    then show ?thesis
      using False inv fresh fifo_join_back [of ?q] by (auto simp: qinv_def Join_def Let_def less_Suc_eq behind_def)
  qed
qed

lemma qinv_pop:
  assumes inv: "qinv s" and pop: "wake_pop (qq s) = (Some t, q)"
  shows "qinv (s\<lparr>qq := q, wakes := n, popped := add_mset t (popped s), pops := pops s @ [t]\<rparr>)"
proof -
  obtain ws where ws: "qwaiters (qq s) = t # ws"
    and q: "q = (qq s)\<lparr>qwaiters := remove1 t (qwaiters (qq s)), qn := int (length ws)\<rparr>"
    using wake_pop_Some [OF pop] by blast
  have "fifo q" using inv unfolding q by (intro fifo_remove) (simp add: qinv_def)
  moreover have "sorted_wrt (<) (behind q ((pops s @ [t]) @ ws))" using inv ws by (simp add: qinv_def behind_def q)
  ultimately show ?thesis using inv ws by (auto simp: qinv_def q)
qed

lemma qinv_leave:
  assumes inv: "qinv s" and lv: "leave_locked t (qq s) = (True, q)"
  shows "qinv (s\<lparr>qq := q, left := l, quit := k\<rparr>)"
proof -
  have q: "q = (qq s)\<lparr>qwaiters := remove1 t (qwaiters (qq s)), qn := int (length (remove1 t (qwaiters (qq s))))\<rparr>"
    using leave_locked_True [OF lv] by blast
  have "fifo q" using inv unfolding q by (intro fifo_remove) (simp add: qinv_def)
  moreover have "sorted_wrt (<) (behind q (pops s @ remove1 t (qwaiters (qq s))))"
    using inv sorted_behind_remove [of "qq s" "pops s" "qwaiters (qq s)" t] by (simp add: qinv_def behind_def q)
  ultimately show ?thesis
    using inv set_remove1_subset [of t "qwaiters (qq s)"] by (auto simp: qinv_def q)
qed

lemma count_move: "t \<in># A \<Longrightarrow> count (A - {#t#}) u + (if u = t then 1 else 0) = count A u"
  by (auto simp: Suc_le_eq)

lemma qinv_step: "qstep s s' \<Longrightarrow> qinv s \<Longrightarrow> qinv s'"
proof (induction rule: qstep.induct)
  case (join s depth front)
  then show ?case by (rule qinv_join)
next
  case (wake_some s t q)
  then show ?case by (intro qinv_pop)
next
  case (leave_in t s q)
  then show ?case by (intro qinv_leave)
next
  case (leave_out t s q)
  then show ?case using leave_locked_False [OF leave_out.hyps(2)] by (simp add: qinv_def)
next
  case (store t s)
  have "count (popped s - {#t#}) u + count (add_mset t (stored s)) u = count (popped s) u + count (stored s) u" for u
    using count_move [OF store.hyps, of u] by (simp split: if_splits)
  with store.prems show ?case by (simp add: qinv_def wake_store_def behind_def add.assoc)
next
  case (send t s)
  have "qsent (wake_send t (qq s)) u + count (popped s) u + count (stored s - {#t#}) u =
      qsent (qq s) u + count (popped s) u + count (stored s) u" for u
    using count_move [OF send.hyps, of u] by (simp add: wake_send_def split: if_splits)
  with send.prems show ?case by (simp add: qinv_def) (simp add: wake_send_def behind_def)
qed (auto simp: qinv_def leave_store_def behind_def)

lemma in_rest: "u \<noteq> t \<Longrightarrow> u \<in># A - {#t#} \<longleftrightarrow> u \<in># A" for A :: "nat multiset"
  by (auto simp: in_diff_count dest: in_diffD)

lemma popped_in_pops: "qinv s \<Longrightarrow> t \<in># popped s \<or> t \<in># stored s \<or> 0 < qsent (qq s) t \<Longrightarrow> t \<in> set (pops s)"
proof -
  assume "qinv s" and h: "t \<in># popped s \<or> t \<in># stored s \<or> 0 < qsent (qq s) t"
  then have e: "qsent (qq s) t + count (popped s) t + count (stored s) t = (if t \<in> set (pops s) then 1 else 0)" by (simp add: qinv_def)
  have "0 < qsent (qq s) t + count (popped s) t + count (stored s) t" using h by auto
  then show ?thesis using e by (simp split: if_splits)
qed

lemma popped_out: "qinv s \<Longrightarrow> t \<in> set (pops s) \<Longrightarrow> t \<notin> set (qwaiters (qq s)) \<and> t < qnext (qq s)"
  by (auto simp: qinv_def)

text \<open>The store of \<^verbatim>\<open>Leave\<close>, once the call is off the pending ones.\<close>

lemma tinv_leave_store:
  assumes i: "tinv s u" "tinv s t" and t: "t \<in># left s \<or> t \<in># declined s"
    and l: "u \<noteq> t \<Longrightarrow> (u \<in># l \<longleftrightarrow> u \<in># left s) \<and> (u \<in># d \<longleftrightarrow> u \<in># declined s)"
  shows "tinv (s\<lparr>qq := leave_store t (qq s), left := l, declined := d, wakes := w\<rparr>) u"
proof -
  have k: "t \<in> quit s" "t \<notin> set (qwaiters (qq s))" "t < qnext (qq s)" using i(2) t by (simp_all add: tinv_def)
  show ?thesis using i(1) l k by (cases "u = t") (simp_all add: tinv_def leave_store_def)
qed

lemma tinv_wakes: "tinv (s\<lparr>wakes := n\<rparr>) t = tinv s t"
  by (simp add: tinv_def)

lemma tinv_unsent:
  assumes "tinv s t" and "t \<in> set (qwaiters (qq s)) \<or> qnext (qq s) \<le> t"
  shows "qstate (qq s) t = ticketQueued" and "t \<notin> quit s" and "t \<notin># left s" and "t \<notin># declined s" and "t \<notin># stored s" and "qsent (qq s) t = 0"
proof -
  show q: "qstate (qq s) t = ticketQueued" using assms unfolding tinv_def by blast
  show n: "t \<notin> quit s" using assms unfolding tinv_def by (meson linorder_not_le)
  show "t \<notin># left s" "t \<notin># declined s" "t \<notin># stored s" using assms(1) q n unfolding tinv_def by blast+
  have "\<not> 0 < qsent (qq s) t" using assms(1) q unfolding tinv_def by blast
  then show "qsent (qq s) t = 0" by simp
qed

lemma tinv_step: "qstep s s' \<Longrightarrow> qinv s \<Longrightarrow> \<forall>t. tinv s t \<Longrightarrow> tinv s' u"
proof (induction rule: qstep.induct)
  case (join s depth front)
  then have i: "tinv s u" by blast
  show ?case
  proof (cases "u = qnext (qq s)")
    case True
    then show ?thesis using tinv_unsent [OF i] by (cases front) (simp_all add: tinv_def Join_def Let_def)
  next
    case False
    have "u \<in> quit s \<longrightarrow> u < Suc (qnext (qq s))" using i unfolding tinv_def by (meson less_SucI)
    then show ?thesis using False i by (cases front) (simp_all add: tinv_def Join_def Let_def)
  qed
next
  case (wake_some s t q)
  obtain ws where ws: "qwaiters (qq s) = t # ws"
    and q: "q = (qq s)\<lparr>qwaiters := remove1 t (qwaiters (qq s)), qn := int (length ws)\<rparr>"
    using wake_pop_Some [OF wake_some.hyps(2)] by blast
  have i: "tinv s u" "tinv s t" using wake_some.prems(2) by auto
  show ?case
  proof (cases "u = t")
    case True
    then show ?thesis using tinv_unsent [OF i(2)] i(2) ws by (simp add: tinv_def q)
  next
    case False
    then show ?thesis using i(1) by (simp add: tinv_def q ws)
  qed
next
  case (leave_in t s q)
  then have q: "t \<in> set (qwaiters (qq s))"
    "q = (qq s)\<lparr>qwaiters := remove1 t (qwaiters (qq s)), qn := int (length (remove1 t (qwaiters (qq s))))\<rparr>"
    using leave_locked_True by blast+
  have d: "distinct (qwaiters (qq s))" using leave_in.prems(1) by (simp add: qinv_def)
  have "tinv s u" using leave_in.prems(2) by blast
  then show ?case using leave_in.hyps(1) d by (cases "u = t") (simp_all add: tinv_def q(2))
next
  case (leave_out t s q)
  have out: "t \<notin> set (qwaiters (qq s))" using leave_out.hyps(2) by (auto simp: leave_locked_def Let_def split: if_splits)
  have "tinv s u" using leave_out.prems(2) by blast
  then show ?case using out leave_out.hyps(1) leave_locked_False [OF leave_out.hyps(2)] by (cases "u = t") (simp_all add: tinv_def)
next
  case (store t s)
  have "t \<in> set (pops s)" using popped_in_pops [OF store.prems(1)] store.hyps by blast
  then have k: "t \<in> set (pops s)" "t \<notin> set (qwaiters (qq s))" "t < qnext (qq s)" using popped_out [OF store.prems(1), of t] by auto
  have "tinv s u" using store.prems(2) by blast
  then show ?case using k by (cases "u = t") (simp_all add: tinv_def wake_store_def)
next
  case (send t s)
  have "tinv s u" "tinv s t" using send.prems(2) by auto
  then show ?case using send.hyps in_rest [of u t "stored s"] by (cases "u = t") (simp_all add: tinv_def wake_send_def)
next
  case (left_store t s)
  then show ?case using tinv_leave_store [of s u t "left s - {#t#}" "declined s" "wakes s"] in_rest [of u t "left s"] by simp
next
  case (pass_skip t s)
  then show ?case using tinv_leave_store [of s u t "left s" "declined s - {#t#}" "wakes s"] in_rest [of u t "declined s"] by simp
next
  case (pass_on t s)
  then show ?case using tinv_leave_store [of s u t "left s" "declined s - {#t#}" "wakes s + 1"] in_rest [of u t "declined s"] by simp
qed (simp_all add: tinv_wakes)

lemma qreach_qinv: "qreach s \<Longrightarrow> qinv s \<and> (\<forall>t. tinv s t)"
proof (induction rule: qreach.induct)
  case qinit
  then show ?case by (simp add: qinv_def tinv_def idle_sys_def empty_queue_def fifo_def behind_def)
next
  case (qnext_step s s')
  then show ?case using qinv_step tinv_step by blast
qed

text \<open>The head of the slice: the latest of those that jumped the queue, or else the earliest of all.\<close>

definition first_in_line :: "queue \<Rightarrow> nat \<Rightarrow> bool" where
  "first_in_line q t \<longleftrightarrow> t \<in> set (qwaiters q) \<and>
     (if t \<in> qfront q then \<forall>u\<in>set (qwaiters q) \<inter> qfront q. u \<le> t
      else \<forall>u\<in>set (qwaiters q). u \<notin> qfront q \<and> t \<le> u)"

lemma fifo_head:
  assumes "fifo q" and "qwaiters q = t # ws"
  shows "first_in_line q t"
proof -
  obtain fs bs where w: "qwaiters q = fs @ bs" "set fs \<subseteq> qfront q" "set bs \<inter> qfront q = {}"
    "sorted_wrt (>) fs" "sorted_wrt (<) bs" using assms(1) by (auto simp: fifo_def)
  show ?thesis
  proof (cases fs)
    case Nil
    then show ?thesis using w assms(2) by (auto simp: first_in_line_def less_imp_le)
  next
    case (Cons f fs')
    then have "f = t" using w(1) assms(2) by simp
    then show ?thesis using w Cons assms(2) by (auto simp: first_in_line_def less_imp_le)
  qed
qed

lemma qstep_pops:
  "qstep s s' \<Longrightarrow> pops s' = pops s \<or> (\<exists>t. pops s' = pops s @ [t] \<and> qwaiters (qq s) = t # qwaiters (qq s'))"
  by (induction rule: qstep.induct) (auto dest!: wake_pop_Some)

text \<open>C6. The wait queue under every interleaving of joins, wakes and leaves. The lock-free length mirror equals the
  queue length. A step wakes nobody or exactly the first in line: the latest that jumped the queue, or else the one
  that has waited longest; so the tickets that did not jump have been woken in the order they joined, and all of them
  before those still waiting. A ticket is signalled at most once, only after being popped (so the send on its one-slot
  channel never blocks), and never waits again. Its state follows: a waiting ticket is queued and unsignalled; a
  signalled one is no longer queued, and woken if it was not given up; one given up before it was popped ends as left.\<close>

theorem waitq_discipline:
  assumes "qreach s" and "qstep s s'"
  shows "qn (qq s') = int (length (qwaiters (qq s'))) \<and>
    (pops s' = pops s \<or> (\<exists>t. pops s' = pops s @ [t] \<and> qwaiters (qq s) = t # qwaiters (qq s') \<and> first_in_line (qq s) t)) \<and>
    sorted_wrt (<) (behind (qq s') (pops s' @ qwaiters (qq s'))) \<and> fifo (qq s') \<and>
    distinct (pops s' @ qwaiters (qq s')) \<and>
    qsent (qq s') t \<le> 1 \<and>
    (t \<in> set (qwaiters (qq s')) \<longrightarrow> qstate (qq s') t = ticketQueued \<and> qsent (qq s') t = 0 \<and> t \<notin> quit s') \<and>
    (qsent (qq s') t = 1 \<longrightarrow> t \<in> set (pops s') \<and> qstate (qq s') t \<noteq> ticketQueued \<and> (t \<notin> quit s' \<longrightarrow> qstate (qq s') t = ticketWoken)) \<and>
    (t \<in> set (pops s') \<longrightarrow> qsent (qq s') t = 1 \<or> t \<in># popped s' \<or> t \<in># stored s') \<and>
    (t \<in> quit s' \<and> t \<notin> set (pops s') \<and> t \<notin># left s' \<and> t \<notin># declined s' \<longrightarrow> qstate (qq s') t = ticketLeft)"
proof -
  have inv: "qinv s'" "tinv s' t" using qreach_qinv [OF qnext_step [OF assms]] by auto
  have e: "qsent (qq s') t + count (popped s') t + count (stored s') t = (if t \<in> set (pops s') then 1 else 0)"
    using inv(1) by (simp add: qinv_def)
  have sent: "qsent (qq s') t \<le> 1" using e by (simp split: if_splits)
  have due: "t \<in> set (pops s') \<longrightarrow> qsent (qq s') t = 1 \<or> t \<in># popped s' \<or> t \<in># stored s'"
  proof (intro impI)
    assume "t \<in> set (pops s')"
    then show "qsent (qq s') t = 1 \<or> t \<in># popped s' \<or> t \<in># stored s'"
      using e by (cases "t \<in># popped s'"; cases "t \<in># stored s'") (simp_all add: not_in_iff)
  qed
  note pp = popped_in_pops [OF inv(1), of t] and po = popped_out [OF inv(1), of t]
  have wait: "t \<in> set (qwaiters (qq s')) \<longrightarrow> qstate (qq s') t = ticketQueued \<and> qsent (qq s') t = 0 \<and> t \<notin> quit s'"
    using tinv_unsent [OF inv(2)] by blast
  have st: "qstate (qq s') t = ticketWoken \<or> qstate (qq s') t = ticketLeft" if "qstate (qq s') t \<noteq> ticketQueued"
    using that by (cases "qstate (qq s') t") auto
  have sig: "qsent (qq s') t = 1 \<longrightarrow> t \<in> set (pops s') \<and> qstate (qq s') t \<noteq> ticketQueued \<and> (t \<notin> quit s' \<longrightarrow> qstate (qq s') t = ticketWoken)"
  proof (intro impI)
    assume h: "qsent (qq s') t = 1"
    then have "qstate (qq s') t \<noteq> ticketQueued" using inv(2) unfolding tinv_def by simp
    moreover have "qstate (qq s') t = ticketLeft \<longrightarrow> t \<in> quit s'" using inv(2) unfolding tinv_def by simp
    ultimately show "t \<in> set (pops s') \<and> qstate (qq s') t \<noteq> ticketQueued \<and> (t \<notin> quit s' \<longrightarrow> qstate (qq s') t = ticketWoken)"
      using pp st h by auto
  qed
  have quits: "t \<in> quit s' \<and> t \<notin> set (pops s') \<and> t \<notin># left s' \<and> t \<notin># declined s' \<longrightarrow> qstate (qq s') t = ticketLeft"
    using inv(2) st unfolding tinv_def by blast
  have "fifo (qq s)" using qreach_qinv [OF assms(1)] by (simp add: qinv_def)
  then have pop: "pops s' = pops s \<or> (\<exists>t. pops s' = pops s @ [t] \<and> qwaiters (qq s) = t # qwaiters (qq s') \<and> first_in_line (qq s) t)"
    using qstep_pops [OF assms(2)] fifo_head by blast
  show ?thesis using inv(1) sent due wait sig quits pop unfolding qinv_def by blast
qed

text \<open>Two tickets join, the second at the front; one wake takes the second.\<close>

theorem waitq_discipline_witness:
  "\<exists>(s :: qsys) (s' :: qsys). qwaiters (qq s) = [1, 0] \<and> pops s' = [1] \<and> first_in_line (qq s) 1 \<and> qstate (qq s') 0 = ticketQueued"
proof -
  let ?s1 = "(idle_sys empty_queue)\<lparr>qq := snd (Join 1 False (qq (idle_sys empty_queue)))\<rparr>"
  let ?s2 = "?s1\<lparr>qq := snd (Join 1 True (qq ?s1))\<rparr>"
  let ?s3 = "?s2\<lparr>wakes := wakes ?s2 + 1\<rparr>"
  let ?q = "(qq ?s3)\<lparr>qwaiters := [0], qn := 1\<rparr>"
  let ?s4 = "?s3\<lparr>qq := ?q, wakes := wakes ?s3 - 1, popped := add_mset 1 (popped ?s3), pops := pops ?s3 @ [1]\<rparr>"
  have w: "qwaiters (qq ?s3) = [1, 0]" "qn (qq ?s2) \<noteq> 0"
    by (simp_all add: Join_def idle_sys_def empty_queue_def)
  have r: "qreach ?s3" by (rule qnext_step [OF qnext_step [OF qnext_step [OF qinit join] join] wake_begin [OF w(2)]])
  have "wake_pop (qq ?s3) = (Some 1, ?q)" using w(1) by (simp add: wake_pop_def)
  then have st: "qstep ?s3 ?s4" by (intro wake_some) simp_all
  have p: "pops ?s4 = [1]" "pops ?s3 = []" "qwaiters (qq ?s4) = [0]" by (simp_all add: idle_sys_def)
  from waitq_discipline [OF r st, of 0] p w(1) have f: "first_in_line (qq ?s3) 1" "qstate (qq ?s4) 0 = ticketQueued" by simp_all
  show ?thesis by (rule exI [of _ ?s3], rule exI [of _ ?s4], intro conjI) (fact w p f)+
qed

text \<open>No slot is stranded: without interference, a wake on a non-empty queue signals its head, and a
  ticket that was already woken and leaves passes its slot on to the next waiter, while one that leaves
  the queue unwoken wakes nobody.\<close>

theorem Leave_passes_slot_on:
  assumes "qn q = int (length (qwaiters q))" and "qwaiters q = t # ws" and "u \<noteq> t"
  shows "qwaiters (Wake q) = ws \<and> qsent (Wake q) t = qsent q t + 1 \<and> qstate (Wake q) t = ticketWoken \<and>
    (u \<notin> set ws \<longrightarrow> qwaiters (Leave u q) = ws \<and> qsent (Leave u q) t = qsent q t + 1 \<and> qstate (Leave u q) u = ticketLeft) \<and>
    (u \<in> set ws \<longrightarrow> qwaiters (Leave u q) = t # remove1 u ws \<and> qsent (Leave u q) = qsent q)"
  using assms
  by (auto simp: Wake_def wake_pop_def wake_send_def wake_store_def Leave_def leave_locked_def leave_store_def Let_def)

theorem Leave_passes_slot_on_witness:
  "qwaiters (Wake (snd (Join 0 False empty_queue))) = []"
  using Leave_passes_slot_on [of "snd (Join 0 False empty_queue)" 0 "[]" 1]
  by (simp add: Join_def empty_queue_def)

end
