(* ===== verification/Backend.thy ===== *)
theory Backend
  imports Circuit Waitq
begin

text \<open>
  \<^verbatim>\<open>router/internal/registry/backend.go\<close>: a backend, its load gauges, its rolling time-to-first-token
  percentile and the 1-in-1-out gate. Atomics are fields; what runs under \<^verbatim>\<open>ttftMu\<close> is one function.
  \<^verbatim>\<open>time.Now\<close> is an argument.
\<close>

section \<open>Definitions\<close>

datatype kind = KindWorker | KindRouter

datatype provenance = ProvStatic | ProvDiscovered

datatype health_model = HealthActive | HealthPassive

datatype health = Unknown | Healthy | Unhealthy

record spec =
  sURL :: url
  sKind :: kind
  sDialect :: string
  sHealth :: health_model
  sProv :: provenance
  sModel :: string
  sLocality :: string
  sCapacity :: int

text \<open>A sample is its time and its duration.\<close>

type_synonym ttft_sample = "ns \<times> ns"

record backend =
  URL :: url
  DialectID :: string
  HealthMod :: health_model
  Prov :: provenance
  bkind :: kind
  bmodel :: string
  blocality :: string
  CB :: breaker
  bcapacity :: int
  inflight :: int
  draining :: bool
  bhealth :: health
  requests :: u64
  ttftNanos :: int
  ttftWin :: "ttft_sample list"
  p90Val :: ns
  p90At :: ns
  p90Valid :: bool
  hardTTFT :: int
  decodeTokens :: int
  activeTokens :: int
  prefillTokens :: int
  hardBlocked :: bool
  waiters :: queue

definition ttftWindow :: ns where
  "ttftWindow = 30 * second"

definition ttftMinSamples :: nat where
  "ttftMinSamples = 8"

definition ttftWindowCap :: nat where
  "ttftWindowCap = 8192"

definition ttftCacheTTL :: ns where
  "ttftCacheTTL = 250 * millisecond"

text \<open>The leading samples older than the window are dropped.\<close>

definition evictTTFT :: "ns \<Rightarrow> backend \<Rightarrow> backend" where
  "evictTTFT now b = b\<lparr>ttftWin := dropWhile (\<lambda>s. now - fst s > ttftWindow) (ttftWin b)\<rparr>"

definition TTFTp90 :: "ns \<Rightarrow> backend \<Rightarrow> ns \<times> backend" where
  "TTFTp90 now b =
     (if p90Valid b \<and> now - p90At b < ttftCacheTTL then (p90Val b, b)
      else
        (let b1 = evictTTFT now b;
             n = length (ttftWin b1);
             v = (if n \<ge> ttftMinSamples
                  then sort (map snd (ttftWin b1)) ! ((n * 9 + 9) div 10 - 1) else 0)
         in (v, b1\<lparr>p90Val := v, p90At := now, p90Valid := True\<rparr>)))"

text \<open>The float constants \<^verbatim>\<open>ttftAlpha\<close> and \<^verbatim>\<open>1-ttftAlpha\<close>; \<^verbatim>\<open>int64\<close> truncates.\<close>

definition ewma :: "int \<Rightarrow> int \<Rightarrow> int" where
  "ewma d old = (let x = fl64 (fmul (fl64 (3 / 10)) (f64 d) + fmul (fl64 (7 / 10)) (f64 old))
     in if x < 0 then - \<lfloor>- x\<rfloor> else \<lfloor>x\<rfloor>)"

definition ObserveTTFT :: "ns \<Rightarrow> ns \<Rightarrow> backend \<Rightarrow> backend" where
  "ObserveTTFT now d b =
     (if d \<le> 0 then b
      else
        (let b1 = evictTTFT now b;
             win = (if length (ttftWin b1) \<ge> ttftWindowCap then tl (ttftWin b1) else ttftWin b1)
         in b1\<lparr>ttftWin := win @ [(now, d)], p90Valid := False,
               ttftNanos := (if ttftNanos b1 = 0 then d else ewma d (ttftNanos b1))\<rparr>))"

definition SetHardTTFT :: "ns \<Rightarrow> backend \<Rightarrow> backend" where
  "SetHardTTFT d b = b\<lparr>hardTTFT := d\<rparr>"

text \<open>\<^verbatim>\<open>NoteAdmit\<close> reads the percentile only when a limit is set.\<close>

definition NoteAdmit :: "ns \<Rightarrow> backend \<Rightarrow> backend" where
  "NoteAdmit now b =
     (if hardTTFT b > 0 then
        (let (v, b1) = TTFTp90 now b in if v \<ge> hardTTFT b then b1\<lparr>hardBlocked := True\<rparr> else b1)
      else b)"

definition NoteRelease :: "backend \<Rightarrow> backend" where
  "NoteRelease b = b\<lparr>hardBlocked := False\<rparr>"

definition Capacity :: "backend \<Rightarrow> int" where
  "Capacity b = (if bcapacity b > 0 then bcapacity b else 1)"

definition NormalizedLoad :: "backend \<Rightarrow> rat" where
  "NormalizedLoad b = fdiv (f64 (inflight b)) (f64 (Capacity b))"

definition Down :: "backend \<Rightarrow> bool" where
  "Down b \<longleftrightarrow> bhealth b = Unhealthy \<or> draining b"

definition Available :: "ns \<Rightarrow> backend \<Rightarrow> bool" where
  "Available now b \<longleftrightarrow> bhealth b = Healthy \<and> \<not> draining b \<and> State now (CB b) \<noteq> Open"

text \<open>\<^verbatim>\<open>strings.TrimRight(s, "/")\<close> and \<^verbatim>\<open>strings.CutPrefix\<close>.\<close>

definition trim_slashes :: "string \<Rightarrow> string" where
  "trim_slashes s = rev (dropWhile (\<lambda>c. c = CHR ''/'') (rev s))"

definition JoinBasePath :: "string \<Rightarrow> string \<Rightarrow> string" where
  "JoinBasePath base path =
     (let base' = trim_slashes base in
      if base' = [] then path
      else if prefix ''/v1/'' path then base' @ ''/'' @ drop 4 path
      else base' @ path)"

text \<open>What \<^verbatim>\<open>Registry.Add\<close> builds for a URL it has not seen; everything else is the zero value.\<close>

definition newBackend :: "config \<Rightarrow> spec \<Rightarrow> backend" where
  "newBackend cbc sp =
     \<lparr>URL = sURL sp, DialectID = (if sDialect sp = [] then ''openai'' else sDialect sp), HealthMod = sHealth sp,
      Prov = sProv sp, bkind = sKind sp, bmodel = sModel sp, blocality = sLocality sp, CB = New cbc,
      bcapacity = sCapacity sp, inflight = 0, draining = False, bhealth = Unknown, requests = 0,
      ttftNanos = 0, ttftWin = [], p90Val = 0, p90At = 0, p90Valid = False, hardTTFT = 0,
      decodeTokens = 0, activeTokens = 0, prefillTokens = 0, hardBlocked = False, waiters = empty_queue\<rparr>"

text \<open>A spec with nothing but a URL.\<close>

definition bare_spec :: "url \<Rightarrow> spec" where
  "bare_spec u = \<lparr>sURL = u, sKind = KindWorker, sDialect = [], sHealth = HealthActive, sProv = ProvStatic,
     sModel = [], sLocality = [], sCapacity = 0\<rparr>"

section \<open>The rolling percentile\<close>

text \<open>\<open>v\<close> is the smallest sample at or above which at most a tenth of the samples lie strictly.\<close>

definition is_p90 :: "ns list \<Rightarrow> ns \<Rightarrow> bool" where
  "is_p90 ds v \<longleftrightarrow> v \<in> set ds \<and> 9 * length ds \<le> 10 * length (filter (\<lambda>d. d \<le> v) ds) \<and>
     10 * length (filter (\<lambda>d. d < v) ds) < 9 * length ds"

lemma sorted_filter_le:
  assumes "sorted xs" and "k < length xs"
  shows "Suc k \<le> length (filter (\<lambda>x. x \<le> xs ! k) xs)" and "length (filter (\<lambda>x. x < xs ! k) xs) \<le> k"
proof -
  have "xs = take (Suc k) xs @ drop (Suc k) xs" by simp
  then have "length (filter (\<lambda>x. x \<le> xs ! k) xs) \<ge> length (filter (\<lambda>x. x \<le> xs ! k) (take (Suc k) xs))"
    by (metis filter_append length_append le_add1)
  moreover have "filter (\<lambda>x. x \<le> xs ! k) (take (Suc k) xs) = take (Suc k) xs"
    using assms by (auto simp: filter_id_conv in_set_conv_nth sorted_nth_mono)
  ultimately show "Suc k \<le> length (filter (\<lambda>x. x \<le> xs ! k) xs)" using assms(2) by simp
  have "filter (\<lambda>x. x < xs ! k) (drop k xs) = []"
    using assms by (auto simp: filter_empty_conv in_set_conv_nth not_less sorted_nth_mono)
  then have "filter (\<lambda>x. x < xs ! k) xs = filter (\<lambda>x. x < xs ! k) (take k xs)"
    by (metis append_Nil2 append_take_drop_id filter_append)
  then show "length (filter (\<lambda>x. x < xs ! k) xs) \<le> k"
    using length_filter_le [of "\<lambda>x. x < xs ! k" "take k xs"] by simp
qed

lemma filter_sort_length: "length (filter P (sort xs)) = length (filter P xs)"
  by (metis mset_filter mset_sort size_mset)

lemma is_p90_sorted:
  assumes "ds \<noteq> []"
  shows "is_p90 ds (sort ds ! ((length ds * 9 + 9) div 10 - 1))"
proof -
  let ?k = "(length ds * 9 + 9) div 10 - 1"
  have n: "0 < length ds" using assms by simp
  have k: "?k < length (sort ds)" using n by (simp, linarith)
  define m where "m = (length ds * 9 + 9) div 10"
  have "10 * m + (length ds * 9 + 9) mod 10 = length ds * 9 + 9" "(length ds * 9 + 9) mod 10 < 10"
    unfolding m_def by (simp_all add: mult_div_mod_eq)
  then have m: "9 * length ds < 10 * m + 1" "10 * m \<le> 9 * length ds + 9" "1 \<le> m" using n by (linarith, linarith, linarith)
  have S: "Suc ?k = m" using m(3) by (simp add: m_def)
  have lo: "9 * length ds \<le> 10 * Suc ?k" unfolding S using m(1) by linarith
  have "10 * Suc ?k \<le> 9 * length ds + 9" unfolding S by (rule m(2))
  then have hi: "10 * ?k < 9 * length ds" by linarith
  note f = sorted_filter_le [OF sorted_sort k, unfolded filter_sort_length]
  have "sort ds ! ?k \<in> set ds" using nth_mem [OF k] by simp
  then show ?thesis using f lo hi unfolding is_p90_def by linarith
qed

text \<open>The window holds, in time order, the positive samples of the last thirty seconds before the latest
  one, as long as fewer than the cap arrived.\<close>

definition fresh :: "ns \<Rightarrow> ttft_sample list \<Rightarrow> ttft_sample list" where
  "fresh now obs = filter (\<lambda>s. 0 < snd s \<and> \<not> now - fst s > ttftWindow) obs"

definition observe_all :: "ttft_sample list \<Rightarrow> backend \<Rightarrow> backend" where
  "observe_all obs b = fold (\<lambda>(t, d). ObserveTTFT t d) obs b"

lemma dropWhile_old:
  "sorted (map fst win) \<Longrightarrow> dropWhile (\<lambda>s. now - fst s > ttftWindow) win = filter (\<lambda>s. \<not> now - fst s > ttftWindow) win"
proof (induction win)
  case (Cons s win)
  then show ?case
    by (cases "now - fst s > ttftWindow") (auto simp: filter_id_conv [THEN iffD2] intro!: filter_id_conv [THEN iffD2, symmetric])
qed simp

lemma fresh_sorted: "sorted (map fst obs) \<Longrightarrow> sorted (map fst (fresh now obs))"
  unfolding fresh_def by (rule sorted_filter)

lemma fresh_fresh: "t \<le> now \<Longrightarrow> filter (\<lambda>s. \<not> now - fst s > ttftWindow) (fresh t obs) = fresh now obs"
  by (auto simp: fresh_def intro!: filter_cong)

lemma fresh_snoc: "fresh now (obs @ [(now, d)]) = fresh now obs @ (if 0 < d then [(now, d)] else [])"
  by (simp add: fresh_def ttftWindow_def)

lemma observe_all_window:
  assumes "sorted (map fst obs)" and "\<And>s. s \<in> set obs \<Longrightarrow> fst s \<le> now" and "length obs < ttftWindowCap" and "ttftWin b = []"
  shows "filter (\<lambda>s. \<not> now - fst s > ttftWindow) (ttftWin (observe_all obs b)) = fresh now obs \<and>
    sorted (map fst (ttftWin (observe_all obs b))) \<and> length (ttftWin (observe_all obs b)) \<le> length obs \<and>
    (obs \<noteq> [] \<longrightarrow> (\<forall>s\<in>set (ttftWin (observe_all obs b)). fst s \<le> fst (last obs)))"
  using assms(1-3)
proof (induction obs arbitrary: now rule: rev_induct)
  case Nil
  then show ?case using assms(4) by (simp add: observe_all_def fresh_def)
next
  case (snoc s obs)
  obtain t d where s: "s = (t, d)" by (cases s)
  let ?b = "observe_all obs b"
  have so: "sorted (map fst obs)" and le: "\<And>s. s \<in> set obs \<Longrightarrow> fst s \<le> t"
    using snoc.prems(1) s by (auto simp: sorted_append)
  have tn: "t \<le> now" using snoc.prems(2) [of s] s by simp
  have len: "length obs < ttftWindowCap" using snoc.prems(3) by simp
  note I = snoc.IH [OF so le len]
  have IH: "filter (\<lambda>s. \<not> t - fst s > ttftWindow) (ttftWin ?b) = fresh t obs" "sorted (map fst (ttftWin ?b))"
      "length (ttftWin ?b) \<le> length obs" using I by blast+
  have step: "observe_all (obs @ [s]) b = ObserveTTFT t d ?b" by (simp add: observe_all_def s)
  show ?case
  proof (cases "d \<le> 0")
    case True
    have "filter (\<lambda>s. \<not> now - fst s > ttftWindow) (ttftWin ?b) = fresh now obs"
    proof -
      have "fst x \<le> now" if "x \<in> set obs" for x using le [OF that] tn by simp
      from snoc.IH [OF so this len] show ?thesis by blast
    qed
    moreover have "fst x \<le> t" if "x \<in> set (ttftWin ?b)" for x
    proof (cases "obs = []")
      case True
      then show ?thesis using that assms(4) by (simp add: observe_all_def)
    next
      case False
      then show ?thesis using I that le [OF last_in_set [OF False]] by force
    qed
    moreover have "ObserveTTFT t d ?b = ?b" using True by (simp add: ObserveTTFT_def)
    moreover have "fresh now (obs @ [s]) = fresh now obs" using True by (simp add: s fresh_def)
    ultimately show ?thesis using IH by (simp add: step [unfolded s] s)
  next
    case False
    have win: "ttftWin (ObserveTTFT t d ?b) = fresh t obs @ [(t, d)]"
    proof -
      have "ttftWin (evictTTFT t ?b) = fresh t obs"
        using dropWhile_old [OF IH(2)] IH(1) by (simp add: evictTTFT_def)
      moreover have "length (fresh t obs) < ttftWindowCap"
        unfolding fresh_def by (rule le_less_trans [OF length_filter_le len])
      ultimately show ?thesis using False by (simp add: ObserveTTFT_def Let_def)
    qed
    have "filter (\<lambda>s. \<not> now - fst s > ttftWindow) (fresh t obs @ [(t, d)]) = fresh now (obs @ [s])"
      unfolding filter_append fresh_fresh [OF tn] using False by (simp add: s fresh_def)
    moreover have "sorted (map fst (fresh t obs @ [(t, d)]))"
      using fresh_sorted [OF so, of t] le by (auto simp: sorted_append fresh_def)
    moreover have "length (fresh t obs @ [(t, d)]) \<le> length (obs @ [s])" by (simp add: fresh_def)
    moreover have "\<forall>x\<in>set (fresh t obs @ [(t, d)]). fst x \<le> fst (last (obs @ [s]))"
      using le by (auto simp: s fresh_def)
    ultimately show ?thesis unfolding step win by blast
  qed
qed

text \<open>The TTFT the router acts on is the 90th percentile of the last thirty seconds: after any
  time-ordered sequence of fewer than \<^verbatim>\<open>ttftWindowCap\<close> observations, an uncached reading is 0 when fewer
  than eight positive samples fall in the window, and otherwise a sample that at least nine tenths of
  them do not exceed and fewer than nine tenths lie below.\<close>

theorem TTFTp90_percentile:
  assumes "sorted (map fst obs)" and "\<And>s. s \<in> set obs \<Longrightarrow> fst s \<le> now" and "length obs < ttftWindowCap"
    and "ttftWin b = []" and "\<not> p90Valid (observe_all obs b)"
  shows "if length (fresh now obs) < 8 then fst (TTFTp90 now (observe_all obs b)) = 0
    else is_p90 (map snd (fresh now obs)) (fst (TTFTp90 now (observe_all obs b)))"
proof -
  let ?b = "observe_all obs b"
  have "ttftWin (evictTTFT now ?b) = fresh now obs"
    using observe_all_window [OF assms(1-4)] dropWhile_old [of "ttftWin ?b" now] by (simp add: evictTTFT_def)
  then show ?thesis
    using assms(5) is_p90_sorted [of "map snd (fresh now obs)"]
    by (cases "fresh now obs = []") (auto simp: TTFTp90_def Let_def ttftMinSamples_def)
qed

theorem TTFTp90_percentile_witness:
  "is_p90 (replicate 8 5) (fst (TTFTp90 9 (observe_all (replicate 8 (1, 5)) (newBackend DefaultConfig (bare_spec [])))))"
proof -
  let ?b = "newBackend DefaultConfig (bare_spec [])"
  have "p90Valid (observe_all (obs @ [(1, 5)]) ?b) = False" for obs
    by (simp add: observe_all_def ObserveTTFT_def Let_def)
  from this [of "replicate 7 (1, 5)"] have "\<not> p90Valid (observe_all (replicate 8 (1, 5)) ?b)"
    by (simp add: numeral_eq_Suc)
  moreover have "fresh 9 (replicate 8 (1, 5)) = replicate 8 (1, 5)"
    by (simp add: fresh_def ttftWindow_def)
  moreover have "ttftWin ?b = []" by (simp add: newBackend_def)
  ultimately show ?thesis
    using TTFTp90_percentile [of "replicate 8 (1, 5)" 9 ?b] by (simp add: ttftWindowCap_def)
qed

section \<open>Base paths\<close>

lemma trim_slashes_last: "trim_slashes s = [] \<or> last (trim_slashes s) \<noteq> CHR ''/''"
proof (cases "dropWhile (\<lambda>c. c = CHR ''/'') (rev s) = []")
  case False
  then have "\<exists>c\<in>set (rev s). c \<noteq> CHR ''/''" by (auto simp: dropWhile_eq_Nil_conv)
  then have "hd (dropWhile (\<lambda>c. c = CHR ''/'') (rev s)) \<noteq> CHR ''/''"
    using hd_dropWhile [OF False] by simp
  then show ?thesis using False by (simp add: trim_slashes_def last_rev)
qed (simp add: trim_slashes_def)

lemma trim_slashes_snoc [simp]: "trim_slashes (s @ ''/'') = trim_slashes s"
  by (simp add: trim_slashes_def)

text \<open>A base path replaces the version segment instead of stacking on it: however many slashes end the
  base, joining \<^verbatim>\<open>/v1/x\<close> gives the base followed by \<^verbatim>\<open>/x\<close>, any other path is appended as it is, the empty
  or all-slash base leaves the path alone, and the join of a rooted path never has two slashes at the seam.\<close>

theorem JoinBasePath_seam:
  "JoinBasePath (base @ ''/'') path = JoinBasePath base path \<and>
   JoinBasePath (replicate n (CHR ''/'')) path = path \<and>
   (trim_slashes base \<noteq> [] \<longrightarrow> JoinBasePath base (''/v1/'' @ x) = trim_slashes base @ ''/'' @ x) \<and>
   (trim_slashes base \<noteq> [] \<longrightarrow> \<not> prefix ''/v1/'' path \<longrightarrow> JoinBasePath base path = trim_slashes base @ path) \<and>
   (trim_slashes base = [] \<or> last (trim_slashes base) \<noteq> CHR ''/'')"
proof -
  have "trim_slashes (replicate n (CHR ''/'')) = []" by (simp add: trim_slashes_def dropWhile_eq_Nil_conv)
  then show ?thesis using trim_slashes_last [of base] by (simp add: JoinBasePath_def Let_def)
qed

theorem JoinBasePath_seam_witness: "JoinBasePath ''/v1beta/openai/'' ''/v1/models'' = ''/v1beta/openai/models''"
proof -
  have t: "trim_slashes ''/v1beta/openai'' = ''/v1beta/openai''" by (simp add: trim_slashes_def)
  show ?thesis using JoinBasePath_seam [of "''/v1beta/openai''" "''/v1/models''" 0 "''models''"] by (simp add: t)
qed

end
