(* ===== verification/Lease.thy ===== *)
theory Lease
  imports Backend
begin

text \<open>
  \<^verbatim>\<open>router/internal/lease/lease.go\<close>: the load accounting. The state is the backends, every lease ever
  acquired and the underflow counter. Each atomic operation and each section under \<^verbatim>\<open>l.mu\<close> is a function
  of its own and a step of \<open>lstep\<close>, so that a reachable state is one that any interleaving of any
  number of goroutines can produce. \<open>lphase\<close> is how far the goroutine inside \<^verbatim>\<open>Acquire\<close>, or the one inside
  \<^verbatim>\<open>once.Do\<close>, has come.
\<close>

section \<open>Definitions\<close>

datatype phase =
    Counted | Requested | Checked bool | Held
  | Subtracted | Decremented int | Clamped | Woken | Done

record lease =
  lb :: nat
  lphase :: phase
  lonce :: bool
  ldecode :: int
  lactive :: int
  lprefill :: int
  lreleased :: bool

record lsys =
  backends :: "nat \<Rightarrow> backend"
  leases :: "lease list"
  accountingErrors :: int

definition upd_backend :: "nat \<Rightarrow> (backend \<Rightarrow> backend) \<Rightarrow> lsys \<Rightarrow> lsys" where
  "upd_backend b f s = s\<lparr>backends := (backends s)(b := f (backends s b))\<rparr>"

definition upd_lease :: "nat \<Rightarrow> (lease \<Rightarrow> lease) \<Rightarrow> lsys \<Rightarrow> lsys" where
  "upd_lease i f s = s\<lparr>leases := (leases s)[i := f (leases s ! i)]\<rparr>"

definition AddInflight :: "int \<Rightarrow> backend \<Rightarrow> backend" where
  "AddInflight d b = b\<lparr>inflight := inflight b + d\<rparr>"

definition StoreInflight :: "int \<Rightarrow> backend \<Rightarrow> backend" where
  "StoreInflight v b = b\<lparr>inflight := v\<rparr>"

definition CountRequest :: "backend \<Rightarrow> backend" where
  "CountRequest b = b\<lparr>requests := requests b + 1\<rparr>"

definition AddDecodeTokens :: "int \<Rightarrow> backend \<Rightarrow> backend" where
  "AddDecodeTokens d b = b\<lparr>decodeTokens := decodeTokens b + d\<rparr>"

definition AddActiveTokens :: "int \<Rightarrow> backend \<Rightarrow> backend" where
  "AddActiveTokens d b = b\<lparr>activeTokens := activeTokens b + d\<rparr>"

definition AddPrefillTokens :: "int \<Rightarrow> backend \<Rightarrow> backend" where
  "AddPrefillTokens d b = b\<lparr>prefillTokens := prefillTokens b + d\<rparr>"

text \<open>The steps of \<^verbatim>\<open>Acquire\<close>: the increment, the request count, the reading of \<^verbatim>\<open>NoteAdmit\<close> and its store.\<close>

definition acquire_inc :: "nat \<Rightarrow> lsys \<Rightarrow> lsys" where
  "acquire_inc b s =
     (upd_backend b (AddInflight 1) s)\<lparr>leases := leases s @
        [\<lparr>lb = b, lphase = Counted, lonce = False, ldecode = 0, lactive = 0, lprefill = 0, lreleased = False\<rparr>]\<rparr>"

definition acquire_count :: "nat \<Rightarrow> lsys \<Rightarrow> lsys" where
  "acquire_count i s = upd_backend (lb (leases s ! i)) CountRequest (upd_lease i (\<lambda>l. l\<lparr>lphase := Requested\<rparr>) s)"

definition admit_check :: "ns \<Rightarrow> backend \<Rightarrow> bool \<times> backend" where
  "admit_check now b =
     (if hardTTFT b > 0 then (let (v, b1) = TTFTp90 now b in (v \<ge> hardTTFT b, b1)) else (False, b))"

definition acquire_check :: "ns \<Rightarrow> nat \<Rightarrow> lsys \<Rightarrow> lsys" where
  "acquire_check now i s =
     (let b = lb (leases s ! i); (over, b1) = admit_check now (backends s b)
      in upd_backend b (\<lambda>_. b1) (upd_lease i (\<lambda>l. l\<lparr>lphase := Checked over\<rparr>) s))"

definition acquire_admit :: "nat \<Rightarrow> lsys \<Rightarrow> lsys" where
  "acquire_admit i s =
     (let l = leases s ! i
      in upd_backend (lb l) (\<lambda>b. if lphase l = Checked True then b\<lparr>hardBlocked := True\<rparr> else b)
           (upd_lease i (\<lambda>l. l\<lparr>lphase := Held\<rparr>) s))"

definition Acquire :: "ns \<Rightarrow> nat \<Rightarrow> lsys \<Rightarrow> nat \<times> lsys" where
  "Acquire now b s =
     (let i = length (leases s)
      in (i, acquire_admit i (acquire_check now i (acquire_count i (acquire_inc b s)))))"

text \<open>The token gauges.\<close>

definition StartActive :: "int \<Rightarrow> nat \<Rightarrow> lsys \<Rightarrow> lsys" where
  "StartActive tokens i s =
     (let l = leases s ! i in
      if tokens \<le> 0 then s
      else if lreleased l \<or> lactive l \<noteq> 0 then s
      else upd_backend (lb l) (AddActiveTokens tokens) (upd_lease i (\<lambda>l. l\<lparr>lactive := tokens\<rparr>) s))"

definition StartPrefill :: "int \<Rightarrow> nat \<Rightarrow> lsys \<Rightarrow> lsys" where
  "StartPrefill tokens i s =
     (let l = leases s ! i in
      if tokens \<le> 0 then s
      else if lreleased l \<or> lprefill l \<noteq> 0 then s
      else upd_backend (lb l) (AddPrefillTokens tokens) (upd_lease i (\<lambda>l. l\<lparr>lprefill := tokens\<rparr>) s))"

definition EndPrefill :: "nat \<Rightarrow> lsys \<Rightarrow> lsys" where
  "EndPrefill i s =
     (let l = leases s ! i in
      if lprefill l \<noteq> 0
      then upd_lease i (\<lambda>l. l\<lparr>lprefill := 0\<rparr>) (upd_backend (lb l) (AddPrefillTokens (- lprefill l)) s)
      else s)"

definition StartDecode :: "int \<Rightarrow> nat \<Rightarrow> lsys \<Rightarrow> lsys" where
  "StartDecode tokens i s =
     (let l = leases s ! i in
      if tokens \<le> 0 then s
      else if lreleased l \<or> ldecode l \<noteq> 0 then s
      else upd_backend (lb l) (AddDecodeTokens tokens) (upd_lease i (\<lambda>l. l\<lparr>ldecode := tokens\<rparr>) s))"

text \<open>The steps of the closure \<^verbatim>\<open>Release\<close> hands to \<^verbatim>\<open>once.Do\<close>: the section under \<^verbatim>\<open>l.mu\<close>, the decrement
  with its underflow report, the clamp, the wake and the reopening of the gate.\<close>

definition release_locked :: "nat \<Rightarrow> lsys \<Rightarrow> lsys" where
  "release_locked i s =
     (let l = leases s ! i
      in upd_backend (lb l)
           (\<lambda>b. let b1 = (if ldecode l \<noteq> 0 then AddDecodeTokens (- ldecode l) b else b);
                    b2 = (if lprefill l \<noteq> 0 then AddPrefillTokens (- lprefill l) b1 else b1)
                in if lactive l \<noteq> 0 then AddActiveTokens (- lactive l) b2 else b2)
           (upd_lease i (\<lambda>l. l\<lparr>lonce := True, lreleased := True, ldecode := 0, lprefill := 0, lactive := 0,
                                 lphase := Subtracted\<rparr>) s))"

definition release_dec :: "nat \<Rightarrow> lsys \<Rightarrow> lsys" where
  "release_dec i s =
     (let b = lb (leases s ! i);
          n = inflight (backends s b) - 1;
          s1 = upd_backend b (AddInflight (- 1)) (upd_lease i (\<lambda>l. l\<lparr>lphase := Decremented n\<rparr>) s)
      in if n < 0 then s1\<lparr>accountingErrors := accountingErrors s1 + 1\<rparr> else s1)"

definition release_clamp :: "nat \<Rightarrow> lsys \<Rightarrow> lsys" where
  "release_clamp i s =
     (let l = leases s ! i;
          low = (case lphase l of Decremented n \<Rightarrow> n < 0 | _ \<Rightarrow> False)
      in upd_backend (lb l) (\<lambda>b. if low then StoreInflight 0 b else b) (upd_lease i (\<lambda>l. l\<lparr>lphase := Clamped\<rparr>) s))"

definition release_wake :: "nat \<Rightarrow> lsys \<Rightarrow> lsys" where
  "release_wake i s =
     upd_backend (lb (leases s ! i)) (\<lambda>b. b\<lparr>waiters := Wake (waiters b)\<rparr>) (upd_lease i (\<lambda>l. l\<lparr>lphase := Woken\<rparr>) s)"

definition release_note :: "nat \<Rightarrow> lsys \<Rightarrow> lsys" where
  "release_note i s = upd_backend (lb (leases s ! i)) NoteRelease (upd_lease i (\<lambda>l. l\<lparr>lphase := Done\<rparr>) s)"

definition Release :: "nat \<Rightarrow> lsys \<Rightarrow> lsys" where
  "Release i s =
     (if lonce (leases s ! i) then s
      else release_note i (release_wake i (release_clamp i (release_dec i (release_locked i s)))))"

section \<open>Interleavings\<close>

text \<open>Besides the leases, the environment reads and writes the percentile, sets the limit and queues and
  dequeues waiters; \<open>env\<close> is such an operation of the backend, which leaves the gauges alone.\<close>

definition same_gauges :: "backend \<Rightarrow> backend \<Rightarrow> bool" where
  "same_gauges b b' \<longleftrightarrow> inflight b' = inflight b \<and> requests b' = requests b \<and> decodeTokens b' = decodeTokens b \<and>
     activeTokens b' = activeTokens b \<and> prefillTokens b' = prefillTokens b \<and> hardBlocked b' = hardBlocked b"

definition in_phase :: "lsys \<Rightarrow> nat \<Rightarrow> phase \<Rightarrow> bool" where
  "in_phase s i p \<longleftrightarrow> i < length (leases s) \<and> lphase (leases s ! i) = p"

inductive lstep :: "lsys \<Rightarrow> lsys \<Rightarrow> bool" where
  Inc: "lstep s (acquire_inc b s)"
| Count: "in_phase s i Counted \<Longrightarrow> lstep s (acquire_count i s)"
| Check: "in_phase s i Requested \<Longrightarrow> lstep s (acquire_check now i s)"
| Admit: "in_phase s i (Checked c) \<Longrightarrow> lstep s (acquire_admit i s)"
| Active: "i < length (leases s) \<Longrightarrow> lstep s (StartActive tokens i s)"
| Prefill: "i < length (leases s) \<Longrightarrow> lstep s (StartPrefill tokens i s)"
| EndPre: "i < length (leases s) \<Longrightarrow> lstep s (EndPrefill i s)"
| Decode: "i < length (leases s) \<Longrightarrow> lstep s (StartDecode tokens i s)"
| Locked: "in_phase s i Held \<Longrightarrow> lstep s (release_locked i s)"
| Dec: "in_phase s i Subtracted \<Longrightarrow> lstep s (release_dec i s)"
| Clamp: "in_phase s i (Decremented n) \<Longrightarrow> lstep s (release_clamp i s)"
| Wake: "in_phase s i Clamped \<Longrightarrow> lstep s (release_wake i s)"
| Note: "in_phase s i Woken \<Longrightarrow> lstep s (release_note i s)"
| Env: "same_gauges (backends s b) b' \<Longrightarrow> lstep s (upd_backend b (\<lambda>_. b') s)"

definition linit :: "(nat \<Rightarrow> backend) \<Rightarrow> lsys" where
  "linit bs = \<lparr>backends = bs, leases = [], accountingErrors = 0\<rparr>"

definition idle :: "backend \<Rightarrow> bool" where
  "idle b \<longleftrightarrow> inflight b = 0 \<and> requests b = 0 \<and> decodeTokens b = 0 \<and> activeTokens b = 0 \<and> prefillTokens b = 0 \<and>
     \<not> hardBlocked b"

section \<open>The accounting invariant\<close>

text \<open>A lease counts towards the in-flight gauge until its decrement; it is open until its last step.\<close>

definition counted :: "lease \<Rightarrow> bool" where
  "counted l \<longleftrightarrow> lphase l \<in> {Counted, Requested, Checked True, Checked False, Held, Subtracted}"

definition acquired :: "lease \<Rightarrow> bool" where
  "acquired l \<longleftrightarrow> lphase l \<noteq> Counted"

definition on :: "nat \<Rightarrow> lease list \<Rightarrow> lease list" where
  "on b ls = filter (\<lambda>l. lb l = b) ls"

definition fired :: "phase \<Rightarrow> bool" where
  "fired p \<longleftrightarrow> p \<in> {Subtracted, Clamped, Woken, Done} \<union> range Decremented"

definition lease_ok :: "lease \<Rightarrow> bool" where
  "lease_ok l \<longleftrightarrow> 0 \<le> ldecode l \<and> 0 \<le> lactive l \<and> 0 \<le> lprefill l \<and>
     (lonce l \<longleftrightarrow> fired (lphase l)) \<and>
     (lreleased l \<longleftrightarrow> lonce l) \<and> (lonce l \<longrightarrow> ldecode l = 0 \<and> lactive l = 0 \<and> lprefill l = 0) \<and>
     (\<forall>n. lphase l = Decremented n \<longrightarrow> 0 \<le> n)"

definition holding :: "lease \<Rightarrow> bool" where
  "holding l \<longleftrightarrow> lphase l \<in> {Held, Subtracted, Clamped, Woken} \<union> range Decremented"

definition tally :: "(lease \<Rightarrow> int) \<Rightarrow> nat \<Rightarrow> lease list \<Rightarrow> int" where
  "tally f b ls = sum_list (map f (on b ls))"

definition gauges_ok :: "lease list \<Rightarrow> nat \<Rightarrow> backend \<Rightarrow> bool" where
  "gauges_ok ls b bk \<longleftrightarrow>
     inflight bk = tally (\<lambda>l. of_bool (counted l)) b ls \<and>
     requests bk = of_int (tally (\<lambda>l. of_bool (acquired l)) b ls) \<and>
     decodeTokens bk = tally ldecode b ls \<and> activeTokens bk = tally lactive b ls \<and>
     prefillTokens bk = tally lprefill b ls"

definition gate_ok :: "lease list \<Rightarrow> nat \<Rightarrow> backend \<Rightarrow> bool" where
  "gate_ok ls b bk \<longleftrightarrow> (hardBlocked bk \<longrightarrow> (\<exists>l\<in>set (on b ls). holding l))"

definition linv :: "lsys \<Rightarrow> bool" where
  "linv s \<longleftrightarrow> accountingErrors s = 0 \<and> (\<forall>l\<in>set (leases s). lease_ok l) \<and>
     (\<forall>b. gauges_ok (leases s) b (backends s b) \<and> gate_ok (leases s) b (backends s b))"

lemma tally_append [simp]: "tally f b (xs @ ys) = tally f b xs + tally f b ys"
  by (simp add: tally_def on_def)

lemma tally_single [simp]: "tally f b [l] = (if lb l = b then f l else 0)"
  by (simp add: tally_def on_def)

lemma tally_Nil [simp]: "tally f b [] = 0"
  by (simp add: tally_def on_def)

lemma tally_update:
  assumes "i < length ls" and "lb l' = lb (ls ! i)"
  shows "tally f b (ls[i := l']) = tally f b ls + (if lb (ls ! i) = b then f l' - f (ls ! i) else 0)"
proof -
  have ls: "ls = take i ls @ [ls ! i] @ drop (Suc i) ls" using assms(1) by (simp add: id_take_nth_drop [symmetric])
  have "ls[i := l'] = take i ls @ [l'] @ drop (Suc i) ls" using assms(1) by (simp add: upd_conv_take_nth_drop)
  then have "tally f b (ls[i := l']) = tally f b (take i ls) + tally f b [l'] + tally f b (drop (Suc i) ls)"
    by (simp only: tally_append)
  moreover have "tally f b ls = tally f b (take i ls) + tally f b [ls ! i] + tally f b (drop (Suc i) ls)"
    by (subst ls) (simp only: tally_append)
  ultimately show ?thesis using assms(2) by simp
qed

lemma on_update_iff:
  assumes "i < length ls" and "lb l' = lb (ls ! i)" and "P (ls ! i) \<longrightarrow> P l'" and "\<exists>l\<in>set (on b ls). P l"
  shows "\<exists>l\<in>set (on b (ls[i := l'])). P l"
proof -
  obtain j where j: "j < length ls" "lb (ls ! j) = b" "P (ls ! j)"
    using assms(4) by (auto simp: on_def in_set_conv_nth)
  then have "lb (ls[i := l'] ! j) = b" "P (ls[i := l'] ! j)" using assms(1-3) by (auto simp: nth_list_update)
  then show ?thesis using j(1) by (auto simp: on_def in_set_conv_nth)
qed

lemma on_update_other:
  assumes "i < length ls" and "lb l' = lb (ls ! i)" and "b \<noteq> lb (ls ! i)"
  shows "on b (ls[i := l']) = on b ls"
proof -
  have ls: "ls = take i ls @ [ls ! i] @ drop (Suc i) ls" using assms(1) by (simp add: id_take_nth_drop [symmetric])
  have "on b (ls[i := l']) = on b (take i ls) @ on b (drop (Suc i) ls)"
    using assms by (simp add: upd_conv_take_nth_drop on_def)
  moreover have "on b ls = on b (take i ls) @ on b (drop (Suc i) ls)"
    by (subst ls) (use assms(3) in \<open>simp add: on_def\<close>)
  ultimately show ?thesis by simp
qed

lemma linv_lease: "linv s \<Longrightarrow> i < length (leases s) \<Longrightarrow> lease_ok (leases s ! i)"
  by (simp add: linv_def)

lemma linv_gauge: "linv s \<Longrightarrow> gauges_ok (leases s) b (backends s b)"
  by (simp add: linv_def)

lemma tally_pos: "(\<And>l. l \<in> set ls \<Longrightarrow> 0 \<le> f l) \<Longrightarrow> 0 \<le> tally f b ls"
  by (auto simp: tally_def on_def intro!: sum_list_nonneg)

lemma tally_mem:
  assumes "\<And>l. l \<in> set ls \<Longrightarrow> 0 \<le> f l" and "i < length ls" and "lb (ls ! i) = b"
  shows "f (ls ! i) \<le> tally f b ls"
proof -
  have "ls ! i \<in> set (on b ls)" using assms(2,3) by (auto simp: on_def)
  then have "f (ls ! i) \<in> set (map f (on b ls))" by simp
  then show ?thesis unfolding tally_def
    by (rule member_le_sum_list) (auto simp: on_def assms(1))
qed

text \<open>One operation: lease \<open>i\<close> becomes \<open>l'\<close>, its backend \<open>bk'\<close>, and the gauges move by the difference.\<close>

lemma linv_update:
  assumes "linv s" and "i < length (leases s)" and "l = leases s ! i" and "bk = backends s (lb l)"
    and "lb l' = lb l" and "lease_ok l'"
    and "inflight bk' = inflight bk + (of_bool (counted l') - of_bool (counted l))"
    and "requests bk' = requests bk + of_int (of_bool (acquired l') - of_bool (acquired l))"
    and "decodeTokens bk' = decodeTokens bk + (ldecode l' - ldecode l)"
    and "activeTokens bk' = activeTokens bk + (lactive l' - lactive l)"
    and "prefillTokens bk' = prefillTokens bk + (lprefill l' - lprefill l)"
    and "hardBlocked bk' \<Longrightarrow> holding l' \<or> hardBlocked bk \<and> (holding l \<longrightarrow> holding l')"
  shows "linv (s\<lparr>backends := (backends s)(lb l := bk'), leases := (leases s)[i := l']\<rparr>)"
proof -
  let ?ls = "(leases s)[i := l']"
  have lb': "lb l' = lb (leases s ! i)" using assms(3,5) by simp
  have ok: "\<forall>x\<in>set ?ls. lease_ok x"
    using assms(1,6) set_update_subset_insert [of "leases s" i l'] by (auto simp: linv_def)
  have G: "gauges_ok (leases s) b (backends s b)" for b using assms(1) by (rule linv_gauge)
  have g: "gauges_ok ?ls b (if b = lb l then bk' else backends s b)" for b
    using G [of b] assms(7-11) unfolding assms(4)
    by (simp add: gauges_ok_def tally_update [OF assms(2) lb'] assms(3) [symmetric] del: of_int_of_bool)
  have "gate_ok ?ls b (if b = lb l then bk' else backends s b)" for b
  proof -
    have old: "gate_ok (leases s) b (backends s b)" using assms(1) by (simp add: linv_def)
    show ?thesis
    proof (cases "b = lb l")
      case False
      then have "on b ?ls = on b (leases s)"
        using on_update_other [OF assms(2) lb'] assms(3) by simp
      then show ?thesis using old False by (simp add: gate_ok_def)
    next
      case True
      have "\<exists>x\<in>set (on b ?ls). holding x" if "hardBlocked bk'"
        using assms(12) [OF that]
      proof
        assume "holding l'"
        moreover have "l' \<in> set (on b ?ls)" using True assms(2,5) by (simp add: on_def set_update_memI)
        ultimately show ?thesis by blast
      next
        assume h: "hardBlocked bk \<and> (holding l \<longrightarrow> holding l')"
        then have "\<exists>x\<in>set (on b (leases s)). holding x" using old True assms(4) by (simp add: gate_ok_def)
        then show ?thesis using on_update_iff [OF assms(2) lb', of holding b] h assms(3) by blast
      qed
      then show ?thesis using True by (simp add: gate_ok_def)
    qed
  qed
  then show ?thesis using g ok assms(1) by (auto simp: linv_def)
qed

named_theorems lease_ops

lemmas [lease_ops] = upd_backend_def upd_lease_def AddInflight_def StoreInflight_def CountRequest_def
  AddDecodeTokens_def AddActiveTokens_def AddPrefillTokens_def Let_def

lemma linv_inc:
  assumes "linv s"
  shows "linv (acquire_inc b s)"
proof -
  let ?n = "\<lparr>lb = b, lphase = Counted, lonce = False, ldecode = 0, lactive = 0, lprefill = 0, lreleased = False\<rparr>"
  let ?bk = "\<lambda>c. if c = b then AddInflight 1 (backends s b) else backends s c"
  have n: "lease_ok ?n" by (auto simp: lease_ok_def fired_def)
  have "counted ?n" "\<not> acquired ?n" by (simp_all add: counted_def acquired_def)
  then have g: "gauges_ok (leases s @ [?n]) c (?bk c)" for c
    using linv_gauge [OF assms, of c] by (cases "c = b") (simp_all add: gauges_ok_def AddInflight_def)
  have "gate_ok (leases s) c (backends s c)" for c using assms by (simp add: linv_def)
  then have h: "gate_ok (leases s @ [?n]) c (?bk c)" for c
    by (auto simp: gate_ok_def on_def AddInflight_def)
  have "backends (acquire_inc b s) = ?bk" by (auto simp: acquire_inc_def upd_backend_def)
  moreover have "leases (acquire_inc b s) = leases s @ [?n]" "accountingErrors (acquire_inc b s) = accountingErrors s"
    by (simp_all add: acquire_inc_def upd_backend_def)
  ultimately show ?thesis using n g h assms unfolding linv_def by simp
qed

lemma linv_env: "linv s \<Longrightarrow> same_gauges (backends s b) b' \<Longrightarrow> linv (upd_backend b (\<lambda>_. b') s)"
  by (auto simp: linv_def gauges_ok_def gate_ok_def same_gauges_def upd_backend_def)

lemma admit_check_gauges: "same_gauges b (snd (admit_check now b))"
  by (simp add: admit_check_def same_gauges_def TTFTp90_def evictTTFT_def Let_def)

text \<open>The same for an operation written with \<open>upd_backend\<close> and \<open>upd_lease\<close>.\<close>

definition moves :: "lease \<Rightarrow> lease \<Rightarrow> backend \<Rightarrow> backend \<Rightarrow> bool" where
  "moves l l' bk bk' \<longleftrightarrow> lb l' = lb l \<and> lease_ok l' \<and>
     inflight bk' = inflight bk + (of_bool (counted l') - of_bool (counted l)) \<and>
     requests bk' = requests bk + of_int (of_bool (acquired l') - of_bool (acquired l)) \<and>
     decodeTokens bk' = decodeTokens bk + (ldecode l' - ldecode l) \<and>
     activeTokens bk' = activeTokens bk + (lactive l' - lactive l) \<and>
     prefillTokens bk' = prefillTokens bk + (lprefill l' - lprefill l) \<and>
     (hardBlocked bk' \<longrightarrow> holding l' \<or> hardBlocked bk \<and> (holding l \<longrightarrow> holding l'))"

lemma linv_op:
  assumes "linv s" and "i < length (leases s)" and "l = leases s ! i"
    and "lease_ok l \<Longrightarrow> moves l (g l) (backends s (lb l)) (f (backends s (lb l)))"
  shows "linv (upd_backend (lb l) f (upd_lease i g s))"
proof -
  have "lease_ok l" using linv_lease [OF assms(1,2)] assms(3) by simp
  then have m: "moves l (g l) (backends s (lb l)) (f (backends s (lb l)))" by (rule assms(4))
  have "linv (s\<lparr>backends := (backends s)(lb l := f (backends s (lb l))), leases := (leases s)[i := g l]\<rparr>)"
    using m by (intro linv_update [OF assms(1,2,3) refl]) (simp_all add: moves_def)
  moreover have "upd_backend (lb l) f (upd_lease i g s) =
      s\<lparr>backends := (backends s)(lb l := f (backends s (lb l))), leases := (leases s)[i := g l]\<rparr>"
    by (cases s) (simp add: upd_backend_def upd_lease_def assms(3))
  ultimately show ?thesis by simp
qed

lemma upd_swap: "upd_lease i g (upd_backend b f s) = upd_backend b f (upd_lease i g s)"
  by (simp add: upd_backend_def upd_lease_def)

lemmas move_defs = moves_def counted_def acquired_def holding_def lease_ok_def fired_def

lemma linv_count: "linv s \<Longrightarrow> in_phase s i Counted \<Longrightarrow> linv (acquire_count i s)"
  unfolding acquire_count_def in_phase_def
  by (rule linv_op [where l = "leases s ! i"]) (auto simp: move_defs CountRequest_def)

lemma linv_check:
  assumes "linv s" and "in_phase s i Requested"
  shows "linv (acquire_check now i s)"
proof -
  obtain c b1 where c: "admit_check now (backends s (lb (leases s ! i))) = (c, b1)" by fastforce
  then have "same_gauges (backends s (lb (leases s ! i))) b1" using admit_check_gauges by (metis snd_conv)
  then have "linv (upd_backend (lb (leases s ! i)) (\<lambda>_. b1) (upd_lease i (\<lambda>l. l\<lparr>lphase := Checked c\<rparr>) s))"
    using assms(2) unfolding in_phase_def
    by (intro linv_op [OF assms(1)]) (auto simp: move_defs same_gauges_def)
  then show ?thesis by (simp add: acquire_check_def Let_def c)
qed

lemma linv_admit: "linv s \<Longrightarrow> in_phase s i (Checked c) \<Longrightarrow> linv (acquire_admit i s)"
  unfolding acquire_admit_def in_phase_def Let_def
  by (rule linv_op [where l = "leases s ! i"]) (cases c; auto simp: move_defs)+

lemma linv_locked: "linv s \<Longrightarrow> in_phase s i Held \<Longrightarrow> linv (release_locked i s)"
  unfolding release_locked_def in_phase_def Let_def
  by (rule linv_op [where l = "leases s ! i"])
    (auto simp: move_defs AddDecodeTokens_def AddPrefillTokens_def AddActiveTokens_def)

lemma linv_clamp: "linv s \<Longrightarrow> in_phase s i (Decremented n) \<Longrightarrow> linv (release_clamp i s)"
  unfolding release_clamp_def in_phase_def Let_def
  by (rule linv_op [where l = "leases s ! i"]) (auto simp: move_defs StoreInflight_def)

lemma linv_wake: "linv s \<Longrightarrow> in_phase s i Clamped \<Longrightarrow> linv (release_wake i s)"
  unfolding release_wake_def in_phase_def
  by (rule linv_op [where l = "leases s ! i"]) (auto simp: move_defs)

lemma linv_note: "linv s \<Longrightarrow> in_phase s i Woken \<Longrightarrow> linv (release_note i s)"
  unfolding release_note_def in_phase_def
  by (rule linv_op [where l = "leases s ! i"]) (auto simp: move_defs NoteRelease_def)

text \<open>The decrement finds its own lease counted, so it cannot underflow.\<close>

lemma inflight_pos:
  assumes "linv s" and "i < length (leases s)" and "counted (leases s ! i)"
  shows "0 < inflight (backends s (lb (leases s ! i)))"
proof -
  let ?f = "\<lambda>l. of_bool (counted l) :: int"
  have "?f (leases s ! i) \<le> tally ?f (lb (leases s ! i)) (leases s)"
    by (rule tally_mem) (simp_all add: assms(2))
  then show ?thesis using linv_gauge [OF assms(1)] assms(3) by (simp add: gauges_ok_def)
qed

lemma linv_dec:
  assumes "linv s" and "in_phase s i Subtracted"
  shows "linv (release_dec i s)"
proof -
  let ?l = "leases s ! i"
  have i: "i < length (leases s)" and p: "lphase ?l = Subtracted" using assms(2) by (auto simp: in_phase_def)
  have "0 < inflight (backends s (lb ?l))"
    by (rule inflight_pos [OF assms(1) i]) (simp add: counted_def p)
  then have n: "\<not> inflight (backends s (lb ?l)) - 1 < 0" by simp
  have "linv (upd_backend (lb ?l) (AddInflight (- 1))
      (upd_lease i (\<lambda>l. l\<lparr>lphase := Decremented (inflight (backends s (lb ?l)) - 1)\<rparr>) s))"
    using n p by (intro linv_op [OF assms(1) i]) (auto simp: move_defs AddInflight_def)
  then show ?thesis using n by (simp add: release_dec_def Let_def)
qed

lemma phase_only:
  shows "counted (l\<lparr>ldecode := x\<rparr>) = counted l" and "counted (l\<lparr>lactive := x\<rparr>) = counted l" and "counted (l\<lparr>lprefill := x\<rparr>) = counted l"
    and "acquired (l\<lparr>ldecode := x\<rparr>) = acquired l" and "acquired (l\<lparr>lactive := x\<rparr>) = acquired l" and "acquired (l\<lparr>lprefill := x\<rparr>) = acquired l"
    and "holding (l\<lparr>ldecode := x\<rparr>) = holding l" and "holding (l\<lparr>lactive := x\<rparr>) = holding l" and "holding (l\<lparr>lprefill := x\<rparr>) = holding l"
  by (simp_all add: counted_def acquired_def holding_def)

lemma linv_active:
  assumes "linv s" and "i < length (leases s)"
  shows "linv (StartActive t i s)"
proof -
  have "linv (upd_backend (lb (leases s ! i)) (AddActiveTokens t) (upd_lease i (\<lambda>l. l\<lparr>lactive := t\<rparr>) s))" if "0 < t \<and> \<not> lreleased (leases s ! i) \<and> lactive (leases s ! i) = 0"
    by (rule linv_op [OF assms refl]) (use that in \<open>auto simp: moves_def phase_only lease_ok_def AddActiveTokens_def\<close>)
  then show ?thesis using assms(1) by (simp add: StartActive_def Let_def upd_swap)
qed

lemma linv_prefill:
  assumes "linv s" and "i < length (leases s)"
  shows "linv (StartPrefill t i s)"
proof -
  have "linv (upd_backend (lb (leases s ! i)) (AddPrefillTokens t) (upd_lease i (\<lambda>l. l\<lparr>lprefill := t\<rparr>) s))" if "0 < t \<and> \<not> lreleased (leases s ! i) \<and> lprefill (leases s ! i) = 0"
    by (rule linv_op [OF assms refl]) (use that in \<open>auto simp: moves_def phase_only lease_ok_def AddPrefillTokens_def\<close>)
  then show ?thesis using assms(1) by (simp add: StartPrefill_def Let_def upd_swap)
qed

lemma linv_decode:
  assumes "linv s" and "i < length (leases s)"
  shows "linv (StartDecode t i s)"
proof -
  have "linv (upd_backend (lb (leases s ! i)) (AddDecodeTokens t) (upd_lease i (\<lambda>l. l\<lparr>ldecode := t\<rparr>) s))" if "0 < t \<and> \<not> lreleased (leases s ! i) \<and> ldecode (leases s ! i) = 0"
    by (rule linv_op [OF assms refl]) (use that in \<open>auto simp: moves_def phase_only lease_ok_def AddDecodeTokens_def\<close>)
  then show ?thesis using assms(1) by (simp add: StartDecode_def Let_def upd_swap)
qed

lemma linv_end:
  assumes "linv s" and "i < length (leases s)"
  shows "linv (EndPrefill i s)"
proof -
  have "linv (upd_backend (lb (leases s ! i)) (AddPrefillTokens (- lprefill (leases s ! i))) (upd_lease i (\<lambda>l. l\<lparr>lprefill := 0\<rparr>) s))" if "lprefill (leases s ! i) \<noteq> 0"
    by (rule linv_op [OF assms refl]) (use that in \<open>auto simp: moves_def phase_only lease_ok_def AddPrefillTokens_def\<close>)
  then show ?thesis using assms(1) by (simp add: EndPrefill_def Let_def upd_swap)
qed

lemma linv_step: "lstep s s' \<Longrightarrow> linv s \<Longrightarrow> linv s'"
  by (induction rule: lstep.induct)
    (simp_all add: linv_inc linv_count linv_check linv_admit linv_active linv_prefill linv_decode linv_end linv_locked linv_dec linv_clamp linv_wake
      linv_note linv_env)

lemma linv_init: "(\<And>b. idle (bs b)) \<Longrightarrow> linv (linit bs)"
  by (simp add: linv_def linit_def gauges_ok_def gate_ok_def idle_def)

lemma linv_reachable: "lstep\<^sup>*\<^sup>* s s' \<Longrightarrow> linv s \<Longrightarrow> linv s'"
  by (induction rule: rtranclp_induct) (auto intro: linv_step)

section \<open>Properties\<close>

lemma tally_zero: "(\<And>l. l \<in> set (on b ls) \<Longrightarrow> f l = 0) \<Longrightarrow> tally f b ls = 0"
  by (simp add: tally_def cong: map_cong)

lemma sum_of_bool: "sum_list (map (\<lambda>l. of_bool (P l)) xs) = int (length (filter P xs))"
  by (induction xs) simp_all

text \<open>C5. Load accounting cannot drift: in every state that any interleaving of acquisitions, token
  updates and releases on any backends can reach, no underflow was ever counted, a backend's in-flight
  gauge is the number of its leases between their increment and their decrement, its three token gauges
  are the sums over its leases and so never negative, its request counter the number of acquisitions; and
  once every lease of the backend is released, in-flight and tokens are 0 and the 1-in-1-out gate is open.\<close>

theorem lease_accounting:
  assumes "\<And>b. idle (bs b)" and "lstep\<^sup>*\<^sup>* (linit bs) s"
  shows "accountingErrors s = 0 \<and> inflight (backends s b) = int (length (filter counted (on b (leases s)))) \<and>
    requests (backends s b) = of_nat (length (filter acquired (on b (leases s)))) \<and>
    decodeTokens (backends s b) = sum_list (map ldecode (on b (leases s))) \<and> 0 \<le> decodeTokens (backends s b) \<and>
    activeTokens (backends s b) = sum_list (map lactive (on b (leases s))) \<and> 0 \<le> activeTokens (backends s b) \<and>
    prefillTokens (backends s b) = sum_list (map lprefill (on b (leases s))) \<and> 0 \<le> prefillTokens (backends s b) \<and>
    ((\<forall>l\<in>set (on b (leases s)). lphase l = Done) \<longrightarrow>
       inflight (backends s b) = 0 \<and> decodeTokens (backends s b) = 0 \<and> activeTokens (backends s b) = 0 \<and>
       prefillTokens (backends s b) = 0 \<and> \<not> hardBlocked (backends s b))"
proof -
  have I: "linv s" using linv_reachable [OF assms(2)] linv_init [of bs] assms(1) by blast
  have cnt: "tally (\<lambda>l. of_bool (P l)) b (leases s) = int (length (filter P (on b (leases s))))" for P
    by (simp add: tally_def sum_of_bool)
  have ok: "lease_ok l" if "l \<in> set (leases s)" for l using I that by (simp add: linv_def)
  have nn: "0 \<le> tally ldecode b (leases s)" "0 \<le> tally lactive b (leases s)" "0 \<le> tally lprefill b (leases s)"
    using ok by (auto intro!: tally_pos simp: lease_ok_def)
  have Z: "inflight (backends s b) = 0 \<and> decodeTokens (backends s b) = 0 \<and> activeTokens (backends s b) = 0 \<and>
      prefillTokens (backends s b) = 0 \<and> \<not> hardBlocked (backends s b)"
    if d: "\<forall>l\<in>set (on b (leases s)). lphase l = Done"
  proof -
    have z: "\<not> counted l \<and> \<not> holding l \<and> ldecode l = 0 \<and> lactive l = 0 \<and> lprefill l = 0"
      if "l \<in> set (on b (leases s))" for l
    proof -
      have "lease_ok l" "lphase l = Done" using ok d that by (auto simp: on_def)
      then show ?thesis by (auto simp: move_defs)
    qed
    then have "gate_ok (leases s) b (backends s b) \<Longrightarrow> \<not> hardBlocked (backends s b)" by (auto simp: gate_ok_def)
    moreover have "tally f b (leases s) = 0" if "\<And>l. l \<in> set (on b (leases s)) \<Longrightarrow> f l = 0" for f
      using that by (rule tally_zero)
    ultimately show ?thesis using I z linv_gauge [OF I, of b] by (simp add: linv_def gauges_ok_def)
  qed
  show ?thesis
    using linv_gauge [OF I, of b] nn Z I cnt [of counted] cnt [of acquired]
    by (simp add: gauges_ok_def linv_def tally_def)
qed

lemma Release_effect:
  assumes "in_phase s i Held" and "l = leases s ! i" and "b = backends s (lb l)" and "\<not> lonce l" and "0 < inflight b"
  shows "lstep\<^sup>*\<^sup>* s (Release i s)" and "lonce (leases (Release i s) ! i)"
    and "backends (Release i s) (lb l) = b\<lparr>inflight := inflight b - 1, decodeTokens := decodeTokens b - ldecode l,
      activeTokens := activeTokens b - lactive l, prefillTokens := prefillTokens b - lprefill l,
      hardBlocked := False, waiters := Wake (waiters b)\<rparr>"
proof -
  have i: "i < length (leases s)" using assms(1) by (simp add: in_phase_def)
  define s1 where "s1 = release_locked i s"
  define s2 where "s2 = release_dec i s1"
  define s3 where "s3 = release_clamp i s2"
  define s4 where "s4 = release_wake i s3"
  have R: "Release i s = release_note i s4" using assms(2,4) by (simp add: Release_def s1_def s2_def s3_def s4_def)
  have l1: "leases s1 ! i = l\<lparr>lonce := True, lreleased := True, ldecode := 0, lprefill := 0, lactive := 0, lphase := Subtracted\<rparr>"
      "length (leases s1) = length (leases s)"
    using i assms(2) by (simp_all add: s1_def release_locked_def lease_ops)
  have b1: "backends s1 (lb l) = b\<lparr>decodeTokens := decodeTokens b - ldecode l,
      prefillTokens := prefillTokens b - lprefill l, activeTokens := activeTokens b - lactive l\<rparr>"
    using assms(2,3) by (simp add: s1_def release_locked_def lease_ops)
  have s2: "leases s2 ! i = (leases s1 ! i)\<lparr>lphase := Decremented (inflight b - 1)\<rparr>" "length (leases s2) = length (leases s)"
      "backends s2 (lb l) = (backends s1 (lb l))\<lparr>inflight := inflight b - 1\<rparr>"
    using i assms(5) by (simp_all add: s2_def release_dec_def lease_ops l1 b1)
  have s3: "leases s3 ! i = (leases s1 ! i)\<lparr>lphase := Clamped\<rparr>" "length (leases s3) = length (leases s)"
      "backends s3 (lb l) = backends s2 (lb l)"
    using i assms(5) by (simp_all add: s3_def release_clamp_def lease_ops l1 s2)
  have s4: "leases s4 ! i = (leases s1 ! i)\<lparr>lphase := Woken\<rparr>" "length (leases s4) = length (leases s)"
      "backends s4 (lb l) = (backends s2 (lb l))\<lparr>waiters := Wake (waiters (backends s2 (lb l)))\<rparr>"
    using i by (simp_all add: s4_def release_wake_def lease_ops l1 s3)
  have "lstep s s1" unfolding s1_def by (rule lstep.Locked [OF assms(1)])
  moreover have "lstep s1 s2" unfolding s2_def by (rule lstep.Dec) (use i in \<open>simp add: in_phase_def l1\<close>)
  moreover have "lstep s2 s3" unfolding s3_def by (rule lstep.Clamp) (use i in \<open>simp add: in_phase_def s2\<close>)
  moreover have "lstep s3 s4" unfolding s4_def by (rule lstep.Wake) (use i in \<open>simp add: in_phase_def s3\<close>)
  moreover have "lstep s4 (release_note i s4)" by (rule lstep.Note) (use i in \<open>simp add: in_phase_def s4\<close>)
  ultimately show "lstep\<^sup>*\<^sup>* s (Release i s)" unfolding R by (meson converse_rtranclp_into_rtranclp r_into_rtranclp)
  show "lonce (leases (Release i s) ! i)"
    using i by (simp add: R release_note_def lease_ops l1 s4)
  show "backends (Release i s) (lb l) = b\<lparr>inflight := inflight b - 1, decodeTokens := decodeTokens b - ldecode l,
      activeTokens := activeTokens b - lactive l, prefillTokens := prefillTokens b - lprefill l,
      hardBlocked := False, waiters := Wake (waiters b)\<rparr>"
    by (simp add: R release_note_def NoteRelease_def lease_ops l1 s4 s2 b1)
qed

text \<open>A release takes effect exactly once: from any reachable state a held lease's \<^verbatim>\<open>Release\<close> is a run
  of the system that lowers in-flight by one and each token gauge by what the lease still holds, wakes one
  waiter of that backend and reopens the gate; releasing again, from wherever, changes nothing.\<close>

theorem Release_once:
  assumes "\<And>b. idle (bs b)" and "lstep\<^sup>*\<^sup>* (linit bs) s" and "in_phase s i Held"
  shows "let l = leases s ! i; b = backends s (lb l); s' = Release i s; b' = backends s' (lb l) in
    lstep\<^sup>*\<^sup>* s s' \<and> inflight b' = inflight b - 1 \<and> decodeTokens b' = decodeTokens b - ldecode l \<and>
    activeTokens b' = activeTokens b - lactive l \<and> prefillTokens b' = prefillTokens b - lprefill l \<and>
    \<not> hardBlocked b' \<and> waiters b' = Wake (waiters b) \<and> accountingErrors s' = 0 \<and> Release i s' = s'"
proof -
  have I: "linv s" using linv_reachable [OF assms(2)] linv_init [of bs] assms(1) by blast
  let ?l = "leases s ! i"
  have i: "i < length (leases s)" and p: "lphase ?l = Held" using assms(3) by (auto simp: in_phase_def)
  have o: "\<not> lonce ?l" using linv_lease [OF I i] p by (auto simp: lease_ok_def fired_def)
  have pos: "0 < inflight (backends s (lb ?l))" by (rule inflight_pos [OF I i]) (simp add: counted_def p)
  note E = Release_effect [OF assms(3) refl refl o pos]
  have "accountingErrors (Release i s) = 0" using linv_reachable [OF E(1) I] by (simp add: linv_def)
  then show ?thesis using E by (simp add: Let_def Release_def [of _ "Release i s"])
qed

text \<open>A fleet that never served a request.\<close>

definition fleet0 :: "nat \<Rightarrow> backend" where
  "fleet0 i = newBackend DefaultConfig (bare_spec [])"

lemma fleet0_idle: "idle (fleet0 i)"
  by (simp add: fleet0_def newBackend_def idle_def)

lemma Acquire_run:
  shows "lstep\<^sup>*\<^sup>* s (snd (Acquire now b s))" and "in_phase (snd (Acquire now b s)) (fst (Acquire now b s)) Held"
proof -
  let ?i = "length (leases s)"
  define s1 where "s1 = acquire_inc b s"
  define s2 where "s2 = acquire_count ?i s1"
  define s3 where "s3 = acquire_check now ?i s2"
  have A: "Acquire now b s = (?i, acquire_admit ?i s3)" by (simp add: Acquire_def s1_def s2_def s3_def Let_def)
  have l1: "length (leases s1) = Suc ?i" "lphase (leases s1 ! ?i) = Counted" by (simp_all add: s1_def acquire_inc_def upd_backend_def)
  have l2: "length (leases s2) = Suc ?i" "lphase (leases s2 ! ?i) = Requested" using l1 by (simp_all add: s2_def acquire_count_def lease_ops)
  obtain c b1 where ac: "admit_check now (backends s2 (lb (leases s2 ! ?i))) = (c, b1)" by fastforce
  have l3: "length (leases s3) = Suc ?i" "lphase (leases s3 ! ?i) = Checked c"
    using l2 by (simp_all add: s3_def acquire_check_def lease_ops ac)
  have "lstep s s1" unfolding s1_def by (rule lstep.Inc)
  moreover have "lstep s1 s2" unfolding s2_def by (rule lstep.Count) (simp add: in_phase_def l1)
  moreover have "lstep s2 s3" unfolding s3_def by (rule lstep.Check) (simp add: in_phase_def l2)
  moreover have "lstep s3 (acquire_admit ?i s3)" by (rule lstep.Admit) (simp add: in_phase_def l3)
  ultimately show "lstep\<^sup>*\<^sup>* s (snd (Acquire now b s))" unfolding A snd_conv
    by (meson converse_rtranclp_into_rtranclp r_into_rtranclp)
  show "in_phase (snd (Acquire now b s)) (fst (Acquire now b s)) Held"
    using l3(1) by (simp add: A in_phase_def acquire_admit_def lease_ops)
qed

theorem lease_accounting_witness: "accountingErrors (snd (Acquire 0 0 (linit fleet0))) = 0"
  using lease_accounting [of fleet0, OF fleet0_idle Acquire_run(1)] by blast

theorem Release_once_witness:
  "accountingErrors (Release (fst (Acquire 0 0 (linit fleet0))) (snd (Acquire 0 0 (linit fleet0)))) = 0"
  using Release_once [of fleet0, OF fleet0_idle Acquire_run] by (simp add: Let_def)

end
