(* ===== verification/Registry.thy ===== *)
theory Registry
  imports Backend "HOL-Library.List_Lexorder" "HOL-Library.Char_ord"
begin

text \<open>
  \<^verbatim>\<open>router/internal/registry/registry.go\<close>: the set of backends and its snapshots. A \<^verbatim>\<open>*Backend\<close> is an index
  into \<open>heap\<close>, so that snapshots share the live objects; a goroutine in \<^verbatim>\<open>awaitDrain\<close> is an entry of \<open>waits\<close>,
  the backend and the deadline. \<^verbatim>\<open>Canonical\<close> rests on \<^verbatim>\<open>net/url\<close> and is the argument \<open>canon\<close>; the hooks
  \<^verbatim>\<open>onAdd\<close> and \<^verbatim>\<open>onDrop\<close> are called on what \<open>added\<close> and \<open>dropped\<close> collect.
\<close>

section \<open>Definitions\<close>

record snapshot =
  Version :: u64
  Backends :: "nat list"
  byURL :: "url \<rightharpoonup> nat"

record registry =
  heap :: "backend list"
  cur :: snapshot
  version :: u64
  cbc :: config
  drainDeadline :: ns
  waits :: "(nat \<times> ns) list"
  added :: "nat list"
  dropped :: "nat list"

datatype reg_error = CanonErr string | ErrStaticConflict | UnknownBackend url

type_synonym canonical = "string \<Rightarrow> string + url"

definition Get :: "url \<Rightarrow> snapshot \<Rightarrow> nat option" where
  "Get u sn = byURL sn u"

definition Snap_Available :: "ns \<Rightarrow> backend list \<Rightarrow> snapshot \<Rightarrow> nat list" where
  "Snap_Available now hp sn = filter (\<lambda>i. Available now (hp ! i)) (Backends sn)"

definition LoadStats :: "ns \<Rightarrow> backend list \<Rightarrow> snapshot \<Rightarrow> rat \<times> rat \<times> rat \<times> nat" where
  "LoadStats now hp sn =
     (case Snap_Available now hp sn of [] \<Rightarrow> (0, 0, 0, 0)
      | i # is \<Rightarrow>
         (let l0 = NormalizedLoad (hp ! i);
              (sm, mx, mn) = fold (\<lambda>j (sm, mx, mn).
                  (let l = NormalizedLoad (hp ! j)
                   in (fadd sm l, if l > mx then l else mx, if l < mn then l else mn))) (i # is) (0, l0, l0);
              n = length (i # is)
          in (fdiv sm (f64 (int n)), mx, mn, n)))"

definition Reg_New :: "config \<Rightarrow> ns \<Rightarrow> registry" where
  "Reg_New c deadline =
     \<lparr>heap = [], cur = \<lparr>Version = 0, Backends = [], byURL = Map.empty\<rparr>, version = 0,
      cbc = (if Window c = 0 then DefaultConfig else c),
      drainDeadline = (if deadline = 0 then 60 * second else deadline), waits = [], added = [], dropped = []\<rparr>"

text \<open>Sorted by URL and indexed; the index is built in slice order, later entries winning.\<close>

definition publishLocked :: "nat list \<Rightarrow> registry \<Rightarrow> registry" where
  "publishLocked bs r =
     (let bs1 = sort_key (\<lambda>i. URL (heap r ! i)) bs;
          v = version r + 1
      in r\<lparr>version := v,
           cur := \<lparr>Version = v, Backends = bs1, byURL = map_of (rev (map (\<lambda>i. (URL (heap r ! i), i)) bs1))\<rparr>\<rparr>)"

definition upd_heap :: "nat \<Rightarrow> (backend \<Rightarrow> backend) \<Rightarrow> registry \<Rightarrow> registry" where
  "upd_heap i f r = r\<lparr>heap := (heap r)[i := f (heap r ! i)]\<rparr>"

definition reconfigure :: "spec \<Rightarrow> backend \<Rightarrow> backend" where
  "reconfigure sp b = b\<lparr>bkind := sKind sp, bmodel := sModel sp, blocality := sLocality sp,
     bcapacity := sCapacity sp, draining := False\<rparr>"

definition Reg_Add :: "canonical \<Rightarrow> spec \<Rightarrow> registry \<Rightarrow> (nat option \<times> reg_error option) \<times> registry" where
  "Reg_Add canon sp0 r =
     (case canon (sURL sp0) of Inl e \<Rightarrow> ((None, Some (CanonErr e)), r)
      | Inr u \<Rightarrow>
         (let sp = sp0\<lparr>sURL := u\<rparr> in
          case byURL (cur r) u of
            Some i \<Rightarrow>
              (if Prov (heap r ! i) = ProvStatic \<and> sProv sp = ProvDiscovered
               then ((Some i, Some ErrStaticConflict), r)
               else ((Some i, None), upd_heap i (reconfigure sp) r))
          | None \<Rightarrow>
              (let i = length (heap r);
                   r1 = r\<lparr>heap := heap r @ [newBackend (cbc r) sp]\<rparr>;
                   r2 = publishLocked (Backends (cur r1) @ [i]) r1
               in ((Some i, None), r2\<lparr>added := added r2 @ [i]\<rparr>))))"

text \<open>\<open>now\<close> is when the goroutine starts its deadline.\<close>

definition drain :: "ns \<Rightarrow> nat \<Rightarrow> registry \<Rightarrow> registry" where
  "drain now i r =
     (if draining (heap r ! i) then r
      else (upd_heap i (\<lambda>b. b\<lparr>draining := True\<rparr>) r)\<lparr>waits := waits r @ [(i, now + drainDeadline r)]\<rparr>)"

definition Reg_Remove :: "canonical \<Rightarrow> ns \<Rightarrow> string \<Rightarrow> registry \<Rightarrow> reg_error option \<times> registry" where
  "Reg_Remove canon now raw r =
     (case canon raw of Inl e \<Rightarrow> (Some (CanonErr e), r)
      | Inr u \<Rightarrow> (case byURL (cur r) u of None \<Rightarrow> (Some (UnknownBackend u), r) | Some i \<Rightarrow> (None, drain now i r)))"

text \<open>Whatever has the URL of the drained backend is left out.\<close>

definition unlink :: "nat \<Rightarrow> registry \<Rightarrow> registry" where
  "unlink i r =
     (let u = URL (heap r ! i) in
      if byURL (cur r) u = None then r
      else (let r1 = publishLocked (filter (\<lambda>j. URL (heap r ! j) \<noteq> u) (Backends (cur r))) r
            in r1\<lparr>dropped := dropped r1 @ [i]\<rparr>))"

text \<open>One turn of the loop of \<^verbatim>\<open>awaitDrain\<close> in the goroutine \<open>g\<close>.\<close>

definition awaitDrain :: "ns \<Rightarrow> nat \<times> ns \<Rightarrow> registry \<Rightarrow> registry" where
  "awaitDrain now g r =
     (if inflight (heap r ! fst g) \<le> 0 \<or> snd g \<le> now
      then (unlink (fst g) r)\<lparr>waits := remove1 g (waits r)\<rparr> else r)"

text \<open>\<^verbatim>\<open>want\<close>: the last spec of each canonical URL, marked as discovered.\<close>

fun wanted :: "canonical \<Rightarrow> spec list \<Rightarrow> (url \<rightharpoonup> spec) \<Rightarrow> string + (url \<rightharpoonup> spec)" where
  "wanted canon [] w = Inr w"
| "wanted canon (sp # sps) w =
     (case canon (sURL sp) of Inl e \<Rightarrow> Inl e
      | Inr u \<Rightarrow> wanted canon sps (w(u \<mapsto> sp\<lparr>sURL := u, sProv := ProvDiscovered\<rparr>)))"

text \<open>The loop over the map \<^verbatim>\<open>want\<close>, in the order the runtime picks.\<close>

fun add_wanted :: "canonical \<Rightarrow> (url \<rightharpoonup> spec) \<Rightarrow> url list \<Rightarrow> url list \<Rightarrow> registry \<Rightarrow>
    (url list + reg_error) \<times> registry" where
  "add_wanted canon w [] conflicts r = (Inl conflicts, r)"
| "add_wanted canon w (u # us) conflicts r =
     (case Reg_Add canon (the (w u)) r of ((_, e), r1) \<Rightarrow>
        (case e of
           None \<Rightarrow> add_wanted canon w us conflicts r1
         | Some ErrStaticConflict \<Rightarrow> add_wanted canon w us (conflicts @ [u]) r1
         | Some err \<Rightarrow> (Inr err, r1)))"

definition drain_one :: "ns \<Rightarrow> (url \<rightharpoonup> spec) \<Rightarrow> nat \<Rightarrow> registry \<Rightarrow> registry" where
  "drain_one now w i r =
     (let b = heap r ! i in
      if Prov b \<noteq> ProvDiscovered \<or> draining b then r
      else if w (URL b) = None then drain now i r else r)"

definition drain_unwanted :: "ns \<Rightarrow> (url \<rightharpoonup> spec) \<Rightarrow> registry \<Rightarrow> registry" where
  "drain_unwanted now w r = fold (drain_one now w) (Backends (cur r)) r"

definition ReconcileDiscovered ::
    "canonical \<Rightarrow> ((url \<rightharpoonup> spec) \<Rightarrow> url list) \<Rightarrow> ns \<Rightarrow> spec list \<Rightarrow> registry \<Rightarrow> (url list + reg_error) \<times> registry" where
  "ReconcileDiscovered canon order now desired r =
     (case wanted canon desired Map.empty of Inl e \<Rightarrow> (Inr (CanonErr e), r)
      | Inr w \<Rightarrow>
         (case add_wanted canon w (order w) [] r of
            (Inr err, r1) \<Rightarrow> (Inr err, r1)
          | (Inl conflicts, r1) \<Rightarrow> (Inl (sort conflicts), drain_unwanted now w r1)))"

section \<open>The registry as a map from URLs to backends\<close>

definition entry :: "registry \<Rightarrow> url \<rightharpoonup> backend" where
  "entry r u = map_option (\<lambda>i. heap r ! i) (byURL (cur r) u)"

text \<open>The snapshot is strictly sorted by URL, its index agrees with it, and it refers to live objects.\<close>

definition rinv :: "registry \<Rightarrow> bool" where
  "rinv r \<longleftrightarrow> sorted_wrt (<) (map (\<lambda>i. URL (heap r ! i)) (Backends (cur r))) \<and>
     byURL (cur r) = map_of (map (\<lambda>i. (URL (heap r ! i), i)) (Backends (cur r))) \<and>
     (\<forall>i\<in>set (Backends (cur r)) \<union> fst ` set (waits r). i < length (heap r)) \<and> Version (cur r) = version r"

lemma rinvD:
  assumes "rinv r"
  shows "sorted_wrt (<) (map (\<lambda>i. URL (heap r ! i)) (Backends (cur r)))"
    and "byURL (cur r) = map_of (map (\<lambda>i. (URL (heap r ! i), i)) (Backends (cur r)))"
    and "i \<in> set (Backends (cur r)) \<Longrightarrow> i < length (heap r)" and "g \<in> set (waits r) \<Longrightarrow> fst g < length (heap r)"
    and "Version (cur r) = version r" and "distinct (map (\<lambda>i. URL (heap r ! i)) (Backends (cur r)))"
  using assms by (auto simp: rinv_def strict_sorted_iff)

lemma map_of_keyed:
  "distinct (map f is) \<Longrightarrow> map_of (map (\<lambda>i. (f i, i)) is) u = Some i \<longleftrightarrow> i \<in> set is \<and> f i = u"
  by (subst map_of_eq_Some_iff) (auto simp: comp_def)

lemma byURL_iff: "rinv r \<Longrightarrow> byURL (cur r) u = Some i \<longleftrightarrow> i \<in> set (Backends (cur r)) \<and> URL (heap r ! i) = u"
  unfolding rinvD(2) by (rule map_of_keyed) (rule rinvD(6))

lemma byURL_lt: "rinv r \<Longrightarrow> byURL (cur r) u = Some i \<Longrightarrow> i < length (heap r)"
  using rinvD(3) byURL_iff by blast

lemma publish_simps [simp]:
  "heap (publishLocked bs r) = heap r" "waits (publishLocked bs r) = waits r" "cbc (publishLocked bs r) = cbc r"
  "drainDeadline (publishLocked bs r) = drainDeadline r" "added (publishLocked bs r) = added r"
  "dropped (publishLocked bs r) = dropped r" "version (publishLocked bs r) = version r + 1"
  "Version (cur (publishLocked bs r)) = version r + 1"
  "Backends (cur (publishLocked bs r)) = sort_key (\<lambda>i. URL (heap r ! i)) bs"
  by (simp_all add: publishLocked_def Let_def)

lemma distinct_sort_key: "distinct (map f (sort_key f xs)) = distinct (map f xs)"
  by (rule mset_eq_imp_distinct_iff) simp

lemma publish_sorted:
  assumes "distinct (map (\<lambda>i. URL (heap r ! i)) bs)"
  shows "sorted_wrt (<) (map (\<lambda>i. URL (heap r ! i)) (sort_key (\<lambda>i. URL (heap r ! i)) bs))"
  unfolding strict_sorted_iff distinct_sort_key using assms sorted_sort_key by blast

lemma publish_byURL:
  assumes "distinct (map (\<lambda>i. URL (heap r ! i)) bs)"
  shows "byURL (cur (publishLocked bs r)) =
    map_of (map (\<lambda>i. (URL (heap r ! i), i)) (sort_key (\<lambda>i. URL (heap r ! i)) bs))"
proof -
  let ?f = "\<lambda>i. URL (heap r ! i)" let ?xs = "map (\<lambda>i. (?f i, i)) (sort_key ?f bs)"
  have f: "map fst ?xs = map ?f (sort_key ?f bs)" by (simp add: comp_def)
  have d: "distinct (map fst ?xs)" unfolding f distinct_sort_key by (rule assms)
  then have d': "distinct (map fst (rev ?xs))" unfolding rev_map [symmetric] distinct_rev .
  have "map_of (rev ?xs) = map_of ?xs" using map_of_inject_set [OF d' d] by (simp only: set_rev)
  then show ?thesis by (simp add: publishLocked_def Let_def)
qed

lemma publish_rinv:
  assumes "rinv r" and "distinct (map (\<lambda>i. URL (heap r ! i)) bs)" and "\<And>i. i \<in> set bs \<Longrightarrow> i < length (heap r)"
  shows "rinv (publishLocked bs r)"
proof -
  have "fst ` set (waits r) \<subseteq> {..<length (heap r)}" using rinvD(4) [OF assms(1)] by auto
  then show ?thesis
    using publish_sorted [OF assms(2)] publish_byURL [OF assms(2)] assms(3) by (auto simp: rinv_def)
qed

lemma entry_publish:
  assumes "distinct (map (\<lambda>i. URL (heap r ! i)) bs)"
  shows "entry (publishLocked bs r) u = Some b \<longleftrightarrow> (\<exists>i\<in>set bs. URL (heap r ! i) = u \<and> heap r ! i = b)"
proof -
  have "distinct (map (\<lambda>i. URL (heap r ! i)) (sort_key (\<lambda>i. URL (heap r ! i)) bs))"
    using assms by (simp add: distinct_sort_key)
  from map_of_keyed [OF this, of u] show ?thesis
    unfolding entry_def publish_byURL [OF assms] by auto
qed

lemma entry_iff:
  "rinv r \<Longrightarrow> entry r u = Some b \<longleftrightarrow> (\<exists>i\<in>set (Backends (cur r)). URL (heap r ! i) = u \<and> heap r ! i = b)"
  by (auto simp: entry_def byURL_iff)

lemma entry_URL: "rinv r \<Longrightarrow> entry r u = Some b \<Longrightarrow> URL b = u"
  by (auto simp: entry_iff)

lemma entry_eqI:
  assumes "\<And>b. entry r u = Some b \<longleftrightarrow> x = Some b"
  shows "entry r u = x"
proof (cases x)
  case None
  then show ?thesis using assms by (metis not_Some_eq)
next
  case (Some b)
  then show ?thesis using assms [of b] by simp
qed

text \<open>Writing a live object in place.\<close>

lemma heap_rinv:
  assumes "rinv r" and "\<And>b. URL (f b) = URL b"
  shows "rinv (upd_heap i f r)"
proof -
  have "URL ((heap r)[i := f (heap r ! i)] ! j) = URL (heap r ! j)" for j
    by (cases "i < length (heap r)"; cases "j = i") (simp_all add: assms(2) list_update_beyond)
  then show ?thesis using assms(1) by (simp add: rinv_def upd_heap_def)
qed

lemma entry_heap:
  assumes "rinv r" and "i < length (heap r)" and "byURL (cur r) u = Some i"
  shows "entry (upd_heap i f r) = (entry r)(u \<mapsto> f (heap r ! i))"
proof
  fix v
  have "byURL (cur r) v = Some i \<longleftrightarrow> v = u" using assms(3) byURL_iff [OF assms(1)] by auto
  then show "entry (upd_heap i f r) v = ((entry r)(u \<mapsto> f (heap r ! i))) v"
    using assms(2) by (cases "byURL (cur r) v") (auto simp: entry_def upd_heap_def nth_list_update assms(3))
qed

lemma entry_heap_other:
  assumes "i \<notin> set (Backends (cur r))" and "rinv r"
  shows "entry (upd_heap i f r) = entry r"
proof
  fix v
  have "byURL (cur r) v \<noteq> Some i" using assms(1) byURL_iff [OF assms(2)] by blast
  then show "entry (upd_heap i f r) v = entry r v"
    by (cases "byURL (cur r) v") (auto simp: entry_def upd_heap_def)
qed

section \<open>Operations as map updates\<close>

definition conflicting :: "registry \<Rightarrow> url \<Rightarrow> spec \<Rightarrow> bool" where
  "conflicting r u sp \<longleftrightarrow> (\<exists>b. entry r u = Some b \<and> Prov b = ProvStatic) \<and> sProv sp = ProvDiscovered"

definition upsert :: "config \<Rightarrow> spec \<Rightarrow> backend option \<Rightarrow> backend" where
  "upsert c sp x = (case x of None \<Rightarrow> newBackend c sp | Some b \<Rightarrow> reconfigure sp b)"

lemma newBackend_URL [simp]: "URL (newBackend c sp) = sURL sp" by (simp add: newBackend_def)

lemma reconfigure_URL [simp]: "URL (reconfigure sp b) = URL b" by (simp add: reconfigure_def)

lemma Reg_Add_new:
  assumes "rinv r" and "byURL (cur r) u = None" and "sURL sp = u"
  defines "r1 \<equiv> r\<lparr>heap := heap r @ [newBackend (cbc r) sp]\<rparr>"
  shows "distinct (map (\<lambda>i. URL (heap r1 ! i)) (Backends (cur r1) @ [length (heap r)]))" and "rinv r1"
    and "entry r1 = entry r"
proof -
  have old: "heap r1 ! i = heap r ! i" if "i \<in> set (Backends (cur r))" for i
    using rinvD(3) [OF assms(1) that] by (simp add: r1_def nth_append)
  then have m: "map (\<lambda>i. URL (heap r1 ! i)) (Backends (cur r)) = map (\<lambda>i. URL (heap r ! i)) (Backends (cur r))"
      "map (\<lambda>i. (URL (heap r1 ! i), i)) (Backends (cur r)) = map (\<lambda>i. (URL (heap r ! i), i)) (Backends (cur r))" by simp_all
  have "u \<notin> URL ` (\<lambda>i. heap r ! i) ` set (Backends (cur r))"
    using assms(2) byURL_iff [OF assms(1), of u] by auto
  then have "URL (heap r1 ! length (heap r)) \<notin> set (map (\<lambda>i. URL (heap r1 ! i)) (Backends (cur r)))"
    using assms(3) unfolding m(1) by (auto simp: r1_def)
  then show "distinct (map (\<lambda>i. URL (heap r1 ! i)) (Backends (cur r1) @ [length (heap r)]))"
    using rinvD(6) [OF assms(1)] unfolding m(1) [symmetric] by (simp add: r1_def)
  have c: "cur r1 = cur r" "waits r1 = waits r" "version r1 = version r" by (simp_all add: r1_def)
  have "i < length (heap r1)" if "i < length (heap r)" for i using that by (simp add: r1_def)
  then show "rinv r1" using assms(1) unfolding rinv_def c m by blast
  show "entry r1 = entry r"
  proof
    fix v
    have "i \<in> set (Backends (cur r))" if "byURL (cur r) v = Some i" for i
      using that byURL_iff [OF assms(1), of v i] by blast
    then show "entry r1 v = entry r v"
      using old by (cases "byURL (cur r) v") (simp_all add: entry_def c)
  qed
qed

lemma Reg_Add_rinv:
  assumes "rinv r"
  shows "rinv (snd (Reg_Add canon sp r))"
proof (cases "canon (sURL sp)")
  case (Inr u)
  show ?thesis
  proof (cases "byURL (cur r) u")
    case None
    note N = Reg_Add_new [OF assms None, of "sp\<lparr>sURL := u\<rparr>"]
    have "i < length (heap r @ [newBackend (cbc r) (sp\<lparr>sURL := u\<rparr>)])" if "i \<in> set (Backends (cur r) @ [length (heap r)])" for i
      using rinvD(3) [OF assms, of i] that by auto
    then have "rinv (publishLocked (Backends (cur r) @ [length (heap r)]) (r\<lparr>heap := heap r @ [newBackend (cbc r) (sp\<lparr>sURL := u\<rparr>)]\<rparr>))"
      using N(1) by (intro publish_rinv [OF N(2)]) simp_all
    then show ?thesis using Inr None by (simp add: Reg_Add_def Let_def rinv_def)
  next
    case (Some i)
    then show ?thesis using Inr assms heap_rinv [OF assms, of "reconfigure (sp\<lparr>sURL := u\<rparr>)"]
      by (simp add: Reg_Add_def Let_def)
  qed
qed (simp add: Reg_Add_def assms)

lemma entry_added [simp]: "entry (r\<lparr>added := x\<rparr>) = entry r" "entry (r\<lparr>dropped := y\<rparr>) = entry r" "entry (r\<lparr>waits := z\<rparr>) = entry r"
  by (simp_all add: entry_def fun_eq_iff)

lemma entry_Reg_Add:
  assumes "rinv r" and "canon (sURL sp) = Inr u"
  shows "entry (snd (Reg_Add canon sp r)) =
    (if conflicting r u sp then entry r else (entry r)(u \<mapsto> upsert (cbc r) (sp\<lparr>sURL := u\<rparr>) (entry r u)))"
proof (cases "byURL (cur r) u")
  case None
  define r1 where "r1 = r\<lparr>heap := heap r @ [newBackend (cbc r) (sp\<lparr>sURL := u\<rparr>)]\<rparr>"
  note N = Reg_Add_new [OF assms(1) None, of "sp\<lparr>sURL := u\<rparr>", folded r1_def, simplified]
  let ?r2 = "publishLocked (Backends (cur r1) @ [length (heap r)]) r1"
  have e: "entry r u = None" using None by (simp add: entry_def)
  have n: "heap r1 ! length (heap r) = newBackend (cbc r) (sp\<lparr>sURL := u\<rparr>)" by (simp add: r1_def)
  have "entry ?r2 v = ((entry r)(u \<mapsto> newBackend (cbc r) (sp\<lparr>sURL := u\<rparr>))) v" for v
  proof (rule entry_eqI)
    fix b
    have "entry ?r2 v = Some b \<longleftrightarrow> entry r1 v = Some b \<or> v = u \<and> b = newBackend (cbc r) (sp\<lparr>sURL := u\<rparr>)"
      using N(1) entry_iff [OF N(2), of v b] n by (subst entry_publish) (auto simp: distinct_sort_key)
    then show "entry ?r2 v = Some b \<longleftrightarrow> ((entry r)(u \<mapsto> newBackend (cbc r) (sp\<lparr>sURL := u\<rparr>))) v = Some b"
      using N(3) e by auto
  qed
  moreover have "snd (Reg_Add canon sp r) = ?r2\<lparr>added := added ?r2 @ [length (heap r)]\<rparr>"
    using assms(2) None by (simp add: Reg_Add_def Let_def r1_def)
  ultimately show ?thesis using e by (simp add: conflicting_def upsert_def fun_eq_iff)
next
  case (Some i)
  then show ?thesis
    using assms entry_heap [OF assms(1) byURL_lt [OF assms(1) Some] Some]
    by (simp add: Reg_Add_def Let_def conflicting_def upsert_def entry_def [of r u])
qed

lemma drain_simps [simp]: "cur (drain now i r) = cur r" "cbc (drain now i r) = cbc r"
  by (simp_all add: drain_def upd_heap_def)

lemma drain_rinv:
  assumes "rinv r" and "i < length (heap r)"
  shows "rinv (drain now i r)"
  using heap_rinv [OF assms(1), of "\<lambda>b. b\<lparr>draining := True\<rparr>" i] assms
  by (auto simp: drain_def rinv_def upd_heap_def)

lemma entry_drain:
  assumes "rinv r" and "i \<in> set (Backends (cur r))"
  shows "entry (drain now i r) = (entry r)(URL (heap r ! i) \<mapsto> (heap r ! i)\<lparr>draining := True\<rparr>)"
proof -
  have b: "byURL (cur r) (URL (heap r ! i)) = Some i" using byURL_iff [OF assms(1)] assms(2) by blast
  have d: "(heap r ! i)\<lparr>draining := True\<rparr> = heap r ! i" if "draining (heap r ! i)" using that by (cases "heap r ! i") simp
  have "entry r (URL (heap r ! i)) = Some (heap r ! i)" using b by (simp add: entry_def)
  then show ?thesis
    using entry_heap [OF assms(1) byURL_lt [OF assms(1) b] b] d by (auto simp: drain_def fun_eq_iff)
qed

lemma unlink_rinv:
  assumes "rinv r"
  shows "rinv (unlink i r)"
proof -
  have "distinct (map (\<lambda>j. URL (heap r ! j)) (filter (\<lambda>j. URL (heap r ! j) \<noteq> URL (heap r ! i)) (Backends (cur r))))"
    using rinvD(6) [OF assms] by (simp add: distinct_map_filter)
  then have "rinv (publishLocked (filter (\<lambda>j. URL (heap r ! j) \<noteq> URL (heap r ! i)) (Backends (cur r))) r)"
    using rinvD(3) [OF assms] by (intro publish_rinv [OF assms]) auto
  then show ?thesis using assms by (simp add: unlink_def Let_def rinv_def)
qed

lemma entry_unlink:
  assumes "rinv r"
  shows "entry (unlink i r) = (entry r)(URL (heap r ! i) := None)"
proof
  fix v
  let ?u = "URL (heap r ! i)"
  show "entry (unlink i r) v = ((entry r)(?u := None)) v"
  proof (cases "byURL (cur r) ?u")
    case None
    then show ?thesis by (simp add: unlink_def entry_def)
  next
    case (Some j)
    have "distinct (map (\<lambda>j. URL (heap r ! j)) (filter (\<lambda>j. URL (heap r ! j) \<noteq> ?u) (Backends (cur r))))"
      using rinvD(6) [OF assms] by (simp add: distinct_map_filter)
    note P = entry_publish [OF this, of v]
    have "entry (publishLocked (filter (\<lambda>j. URL (heap r ! j) \<noteq> ?u) (Backends (cur r))) r) v = ((entry r)(?u := None)) v"
      by (rule entry_eqI) (use P entry_iff [OF assms, of v] in auto)
    then show ?thesis using Some by (simp add: unlink_def Let_def)
  qed
qed

section \<open>Reachable registries\<close>

text \<open>Live counters and health change under the registry; membership fields do not. A drain may be asked for
  any backend ever added, since \<^verbatim>\<open>Remove\<close> and \<^verbatim>\<open>ReconcileDiscovered\<close> look it up before; the goroutine's
  last step comes any time after its test.\<close>

definition live :: "backend \<Rightarrow> backend \<Rightarrow> bool" where
  "live b b' \<longleftrightarrow> URL b' = URL b \<and> Prov b' = Prov b \<and> draining b' = draining b"

inductive rstep :: "canonical \<Rightarrow> registry \<Rightarrow> registry \<Rightarrow> bool" for canon where
  add: "rstep canon r (snd (Reg_Add canon sp r))"
| drained: "i < length (heap r) \<Longrightarrow> rstep canon r (drain now i r)"
| finished: "g \<in> set (waits r) \<Longrightarrow> rstep canon r ((unlink (fst g) r)\<lparr>waits := remove1 g (waits r)\<rparr>)"
| moved: "i < length (heap r) \<Longrightarrow> live (heap r ! i) b' \<Longrightarrow> rstep canon r (upd_heap i (\<lambda>_. b') r)"

lemma unlink_waits [simp]: "waits (unlink i r) = waits r" "heap (unlink i r) = heap r"
  by (simp_all add: unlink_def Let_def)

lemma rstep_rinv: "rstep canon r r' \<Longrightarrow> rinv r \<Longrightarrow> rinv r'"
proof (induction rule: rstep.induct)
  case (finished g r)
  have "rinv (unlink (fst g) r)" using finished.prems by (rule unlink_rinv)
  moreover have "set (remove1 g (waits r)) \<subseteq> set (waits r)" by (rule set_remove1_subset)
  ultimately show ?case by (auto simp: rinv_def)
next
  case (moved i r b')
  have e: "upd_heap i (\<lambda>_. b') r = upd_heap i (\<lambda>b. if b = heap r ! i then b' else b) r" by (simp add: upd_heap_def)
  show ?case unfolding e using moved by (intro heap_rinv) (auto simp: live_def)
qed (simp_all add: Reg_Add_rinv drain_rinv)

lemma Reg_New_rinv: "rinv (Reg_New c d)"
  by (simp add: rinv_def Reg_New_def)

lemma reachable_rinv: "(rstep canon)\<^sup>*\<^sup>* (Reg_New c d) r \<Longrightarrow> rinv r"
  by (induction rule: rtranclp_induct) (auto intro: Reg_New_rinv rstep_rinv)

lemma Remove_run: "rinv r \<Longrightarrow> (rstep canon)\<^sup>*\<^sup>* r (snd (Reg_Remove canon now raw r))"
  by (auto simp: Reg_Remove_def split: sum.split option.split intro: rstep.drained byURL_lt)

lemma await_run: "g \<in> set (waits r) \<Longrightarrow> (rstep canon)\<^sup>*\<^sup>* r (awaitDrain now g r)"
  by (auto simp: awaitDrain_def intro: rstep.finished)

section \<open>A keyed store with a guard\<close>

text \<open>What \<^verbatim>\<open>ReconcileDiscovered\<close> relies on when it calls \<^verbatim>\<open>Add\<close> in a loop: a put touches one key, keeps the
  invariant, and is refused by looking at that key alone.\<close>

locale keyed_store =
  fixes look :: "'s \<Rightarrow> 'k \<rightharpoonup> 'v" and put :: "'x \<Rightarrow> 's \<Rightarrow> 's" and key :: "'x \<Rightarrow> 'k"
    and inv :: "'s \<Rightarrow> bool" and refused :: "'v option \<Rightarrow> 'x \<Rightarrow> bool" and merged :: "'x \<Rightarrow> 'v option \<Rightarrow> 'v"
  assumes put_inv: "inv s \<Longrightarrow> inv (put x s)"
    and look_put: "inv s \<Longrightarrow> look (put x s) =
      (if refused (look s (key x)) x then look s else (look s)(key x \<mapsto> merged x (look s (key x))))"
begin

lemma puts_inv: "inv s \<Longrightarrow> inv (fold put xs s)"
  by (induction xs arbitrary: s) (simp_all add: put_inv)

lemma look_other: "inv s \<Longrightarrow> k \<noteq> key x \<Longrightarrow> look (put x s) k = look s k"
  by (simp add: look_put)

lemma look_others: "inv s \<Longrightarrow> k \<notin> key ` set xs \<Longrightarrow> look (fold put xs s) k = look s k"
  by (induction xs arbitrary: s) (simp_all add: put_inv look_other)

lemma look_puts:
  "inv s \<Longrightarrow> distinct (map key xs) \<Longrightarrow> x \<in> set xs \<Longrightarrow>
   look (fold put xs s) (key x) = (if refused (look s (key x)) x then look s (key x) else Some (merged x (look s (key x))))"
proof (induction xs arbitrary: s)
  case (Cons y xs)
  show ?case
  proof (cases "x = y")
    case True
    then have "key x \<notin> key ` set xs" using Cons.prems(2) by auto
    then have "look (fold put xs (put x s)) (key x) = look (put x s) (key x)"
      using look_others [OF put_inv [OF Cons.prems(1)]] by blast
    then show ?thesis using True Cons.prems(1) by (simp add: look_put)
  next
    case False
    then have x: "x \<in> set xs" using Cons.prems(3) by simp
    then have "key x \<in> set (map key xs)" by simp
    then have "key x \<noteq> key y" using Cons.prems(2) by (metis distinct.simps(2) list.map(2))
    then show ?thesis
      using Cons.IH [OF put_inv [OF Cons.prems(1)] _ x, of y] Cons.prems(1,2) by (simp add: look_other)
  qed
qed simp

end

definition add_key :: "canonical \<Rightarrow> spec \<Rightarrow> url" where
  "add_key canon sp = projr (canon (sURL sp))"

definition add_refused :: "canonical \<Rightarrow> backend option \<Rightarrow> spec \<Rightarrow> bool" where
  "add_refused canon x sp \<longleftrightarrow>
     isl (canon (sURL sp)) \<or> sProv sp = ProvDiscovered \<and> (case x of None \<Rightarrow> False | Some b \<Rightarrow> Prov b = ProvStatic)"

lemma Reg_Add_cbc [simp]: "cbc (snd (Reg_Add canon sp r)) = cbc r"
  by (simp add: Reg_Add_def Let_def upd_heap_def split: sum.split option.split)

interpretation adds: keyed_store entry "\<lambda>sp r. snd (Reg_Add canon sp r)" "add_key canon" "\<lambda>r. rinv r \<and> cbc r = c"
  "add_refused canon" "\<lambda>sp. upsert c (sp\<lparr>sURL := add_key canon sp\<rparr>)" for canon c
proof unfold_locales
  fix r sp assume r: "rinv r \<and> cbc r = c"
  show "rinv (snd (Reg_Add canon sp r)) \<and> cbc (snd (Reg_Add canon sp r)) = c" using r by (simp add: Reg_Add_rinv)
  show "entry (snd (Reg_Add canon sp r)) = (if add_refused canon (entry r (add_key canon sp)) sp then entry r
      else (entry r)(add_key canon sp \<mapsto> upsert c (sp\<lparr>sURL := add_key canon sp\<rparr>) (entry r (add_key canon sp))))"
  proof (cases "canon (sURL sp)")
    case (Inr u)
    then show ?thesis using entry_Reg_Add [OF conjunct1 [OF r], of canon sp u] r
      by (auto simp: add_key_def add_refused_def conflicting_def split: option.splits)
  qed (simp add: Reg_Add_def add_refused_def)
qed

section \<open>Reconciliation\<close>

definition canon_stable :: "canonical \<Rightarrow> bool" where
  "canon_stable canon \<longleftrightarrow> (\<forall>raw u. canon raw = Inr u \<longrightarrow> canon u = Inr u)"

lemma wanted_range:
  assumes "wanted canon sps w0 = Inr w"
    and "\<And>u sp. w0 u = Some sp \<Longrightarrow> sURL sp = u \<and> sProv sp = ProvDiscovered \<and> canon u = Inr u"
    and "canon_stable canon"
  shows "w u = Some sp \<Longrightarrow> sURL sp = u \<and> sProv sp = ProvDiscovered \<and> canon u = Inr u"
  using assms(1,2)
proof (induction sps arbitrary: w0)
  case (Cons x sps)
  show ?case
  proof (cases "canon (sURL x)")
    case (Inr v)
    have "wanted canon sps (w0(v \<mapsto> x\<lparr>sURL := v, sProv := ProvDiscovered\<rparr>)) = Inr w" using Cons.prems(2) Inr by simp
    moreover have "sURL sp = u \<and> sProv sp = ProvDiscovered \<and> canon u = Inr u"
      if "(w0(v \<mapsto> x\<lparr>sURL := v, sProv := ProvDiscovered\<rparr>)) u = Some sp" for u sp
      using that Cons.prems(3) [of u sp] assms(3) Inr unfolding canon_stable_def by (cases "u = v") auto
    ultimately show ?thesis using Cons.IH [OF Cons.prems(1)] by blast
  qed (use Cons.prems(2) in simp)
qed (use assms(2) in auto)

definition is_static :: "registry \<Rightarrow> url \<Rightarrow> bool" where
  "is_static r u \<longleftrightarrow> (case entry r u of None \<Rightarrow> False | Some b \<Rightarrow> Prov b = ProvStatic)"

lemma Reg_Add_result:
  assumes "rinv r" and "canon (sURL sp) = Inr u" and "sProv sp = ProvDiscovered"
  shows "snd (fst (Reg_Add canon sp r)) = (if is_static r u then Some ErrStaticConflict else None)"
  using assms by (simp add: Reg_Add_def Let_def is_static_def entry_def split: option.split)

lemma add_wanted_run:
  assumes "rinv r" and "distinct us"
    and "\<And>u. u \<in> set us \<Longrightarrow> sURL (the (w u)) = u \<and> sProv (the (w u)) = ProvDiscovered \<and> canon u = Inr u"
  shows "add_wanted canon w us cs r =
    (Inl (cs @ filter (is_static r) us), fold (\<lambda>sp r. snd (Reg_Add canon sp r)) (map (\<lambda>u. the (w u)) us) r)"
  using assms
proof (induction us arbitrary: r cs)
  case (Cons u us)
  let ?r = "snd (Reg_Add canon (the (w u)) r)"
  have w: "sURL (the (w u)) = u" "sProv (the (w u)) = ProvDiscovered" "canon u = Inr u" using Cons.prems(3) by simp_all
  have "is_static ?r v = is_static r v" if "v \<in> set us" for v
  proof -
    have "v \<noteq> u" using that Cons.prems(2) by auto
    then show ?thesis using entry_Reg_Add [OF Cons.prems(1), of canon "the (w u)" u] w by (simp add: is_static_def)
  qed
  then have same: "filter (is_static ?r) us = filter (is_static r) us" by (rule filter_cong [OF refl])
  have IH: "add_wanted canon w us cs' ?r =
      (Inl (cs' @ filter (is_static r) us), fold (\<lambda>sp r. snd (Reg_Add canon sp r)) (map (\<lambda>u. the (w u)) us) ?r)" for cs'
    using Cons.IH [OF Reg_Add_rinv [OF Cons.prems(1)]] Cons.prems(2,3) same by simp
  obtain x e r1 where A: "Reg_Add canon (the (w u)) r = ((x, e), r1)" by (metis prod.collapse)
  have "e = (if is_static r u then Some ErrStaticConflict else None)"
    using Reg_Add_result [OF Cons.prems(1), of canon "the (w u)" u] w A by simp
  then show ?case using IH by (cases "is_static r u") (simp_all add: A)
qed simp

lemma map_option_twice:
  assumes "\<And>b. P (f b) = P b" and "\<And>b. f (f b) = f b"
  shows "map_option (\<lambda>b. if P b \<and> y \<in> S then f b else b) (map_option (\<lambda>b. if P b \<and> y = x then f b else b) z) =
    map_option (\<lambda>b. if P b \<and> y \<in> insert x S then f b else b) z"
  using assms by (cases z) auto

lemma drain_unwanted_fold:
  assumes "rinv r" and "set is \<subseteq> set (Backends (cur r))"
  shows "rinv (fold (drain_one now w) is r) \<and> cur (fold (drain_one now w) is r) = cur r \<and>
    entry (fold (drain_one now w) is r) u = map_option (\<lambda>b. if Prov b = ProvDiscovered \<and> w (URL b) = None \<and>
      u \<in> (\<lambda>i. URL (heap r ! i)) ` set is then b\<lparr>draining := True\<rparr> else b) (entry r u)"
  using assms(1,2)
proof (induction "is" arbitrary: r)
  case (Cons i "is")
  have i: "i \<in> set (Backends (cur r))" "set is \<subseteq> set (Backends (cur r))" using Cons.prems(2) by auto
  have l: "i < length (heap r)" using rinvD(3) [OF Cons.prems(1) i(1)] .
  have c: "cur (drain_one now w i r) = cur r" by (simp add: drain_one_def Let_def)
  have R: "rinv (drain_one now w i r)" using Cons.prems(1) drain_rinv [OF Cons.prems(1) l] by (simp add: drain_one_def Let_def)
  have b: "entry r (URL (heap r ! i)) = Some (heap r ! i)"
    using byURL_iff [OF Cons.prems(1), of "URL (heap r ! i)" i] i(1) by (simp add: entry_def)
  have d: "(heap r ! i)\<lparr>draining := True\<rparr> = heap r ! i" if "draining (heap r ! i)" using that by (cases "heap r ! i") simp
  have e: "entry (drain_one now w i r) v = map_option (\<lambda>b. if Prov b = ProvDiscovered \<and> w (URL b) = None \<and>
      v = URL (heap r ! i) then b\<lparr>draining := True\<rparr> else b) (entry r v)" for v
    using entry_drain [OF Cons.prems(1) i(1), of now] b d
    by (cases "entry r v") (auto simp: drain_one_def Let_def)
  have U: "URL (heap (drain_one now w i r) ! j) = URL (heap r ! j)" for j
    by (cases "j = i"; cases "i < length (heap r)") (simp_all add: drain_one_def Let_def drain_def upd_heap_def list_update_beyond)
  have "rinv (fold (drain_one now w) is (drain_one now w i r)) \<and> cur (fold (drain_one now w) is (drain_one now w i r)) = cur (drain_one now w i r) \<and>
    entry (fold (drain_one now w) is (drain_one now w i r)) u = map_option (\<lambda>b. if Prov b = ProvDiscovered \<and> w (URL b) = None \<and>
      u \<in> (\<lambda>i. URL (heap r ! i)) ` set is then b\<lparr>draining := True\<rparr> else b) (entry (drain_one now w i r) u)"
    using Cons.IH [OF R] i(2) unfolding c U by blast
  then have IH: "rinv (fold (drain_one now w) is (drain_one now w i r))" "cur (fold (drain_one now w) is (drain_one now w i r)) = cur r"
    "entry (fold (drain_one now w) is (drain_one now w i r)) u = map_option (\<lambda>b. if Prov b = ProvDiscovered \<and> w (URL b) = None \<and>
      u \<in> (\<lambda>i. URL (heap r ! i)) ` set is then b\<lparr>draining := True\<rparr> else b) (entry (drain_one now w i r) u)"
    unfolding c by blast+
  have "entry (fold (drain_one now w) is (drain_one now w i r)) u = map_option (\<lambda>b. if Prov b = ProvDiscovered \<and> w (URL b) = None \<and>
      u \<in> insert (URL (heap r ! i)) ((\<lambda>i. URL (heap r ! i)) ` set is) then b\<lparr>draining := True\<rparr> else b) (entry r u)"
    unfolding IH(3) e [of u]
    by (rule map_option_twice [where P = "\<lambda>b. Prov b = ProvDiscovered \<and> w (URL b) = None", unfolded conj_assoc]) simp_all
  then show ?case using IH(1,2) by simp
qed (simp add: option.map_ident)

lemma entry_drain_unwanted:
  assumes "rinv r"
  shows "entry (drain_unwanted now w r) u =
    map_option (\<lambda>b. if Prov b = ProvDiscovered \<and> w u = None then b\<lparr>draining := True\<rparr> else b) (entry r u)"
proof (cases "entry r u")
  case None
  then show ?thesis using drain_unwanted_fold [OF assms subset_refl, of now w u] by (simp add: drain_unwanted_def)
next
  case (Some b)
  then have "URL b = u" "u \<in> (\<lambda>i. URL (heap r ! i)) ` set (Backends (cur r))" using entry_iff [OF assms, of u b] by auto
  then show ?thesis
    using drain_unwanted_fold [OF assms subset_refl, of now w u] Some by (simp add: drain_unwanted_def)
qed

text \<open>The map a reconciliation leaves.\<close>

definition reconciled :: "config \<Rightarrow> (url \<rightharpoonup> spec) \<Rightarrow> (url \<rightharpoonup> backend) \<Rightarrow> url \<rightharpoonup> backend" where
  "reconciled c w m u =
     (case m u of
        None \<Rightarrow> map_option (newBackend c) (w u)
      | Some b \<Rightarrow>
          (if Prov b = ProvStatic then Some b
           else (case w u of Some sp \<Rightarrow> Some (reconfigure sp b) | None \<Rightarrow> Some (b\<lparr>draining := True\<rparr>))))"

lemma newBackend_Prov [simp]: "Prov (newBackend c sp) = sProv sp" by (simp add: newBackend_def)

lemma reconfigure_Prov [simp]: "Prov (reconfigure sp b) = Prov b" by (simp add: reconfigure_def)

lemma Reconcile_run:
  assumes "rinv r" and "canon_stable canon" and "wanted canon desired Map.empty = Inr w"
    and "set (order w) = dom w" and "distinct (order w)"
  shows "fst (ReconcileDiscovered canon order now desired r) = Inl (sort (filter (is_static r) (order w)))"
    and "entry (snd (ReconcileDiscovered canon order now desired r)) = reconciled (cbc r) w (entry r)"
    and "rinv (snd (ReconcileDiscovered canon order now desired r))"
proof -
  have W: "sURL (the (w u)) = u" "sProv (the (w u)) = ProvDiscovered" "canon u = Inr u" if "u \<in> set (order w)" for u
    using wanted_range [where u = u and sp = "the (w u)", OF assms(3) _ assms(2)] that assms(4) by auto
  define r1 where "r1 = fold (\<lambda>sp r. snd (Reg_Add canon sp r)) (map (\<lambda>u. the (w u)) (order w)) r"
  have A: "add_wanted canon w (order w) [] r = (Inl (filter (is_static r) (order w)), r1)"
    using add_wanted_run [OF assms(1,5), of w canon "[]"] W by (simp add: r1_def)
  have R: "ReconcileDiscovered canon order now desired r =
      (Inl (sort (filter (is_static r) (order w))), drain_unwanted now w r1)"
    by (simp add: ReconcileDiscovered_def assms(3) A)
  have r1: "rinv r1 \<and> cbc r1 = cbc r" unfolding r1_def by (rule adds.puts_inv) (simp add: assms(1))
  have keys: "map (add_key canon) (map (\<lambda>u. the (w u)) (order w)) = order w"
    using W by (simp add: map_idI add_key_def)
  have dist: "distinct (map (add_key canon) (map (\<lambda>u. the (w u)) (order w)))" unfolding keys by (rule assms(5))
  have e: "entry r1 u = (case w u of None \<Rightarrow> entry r u | Some sp \<Rightarrow>
      if is_static r u then entry r u else Some (upsert (cbc r) sp (entry r u)))" for u
  proof (cases "w u")
    case None
    then have "u \<notin> set (map (add_key canon) (map (\<lambda>u. the (w u)) (order w)))" unfolding keys using assms(4) by auto
    then have "entry r1 u = entry r u"
      unfolding r1_def by (intro adds.look_others) (use assms(1) in auto)
    then show ?thesis using None by simp
  next
    case (Some sp)
    then have u: "u \<in> set (order w)" using assms(4) by auto
    then have sp: "sp \<in> set (map (\<lambda>u. the (w u)) (order w))" using Some by (force simp: image_iff)
    have k: "add_key canon sp = u" "sp\<lparr>sURL := u\<rparr> = sp" "canon (sURL sp) = Inr u" "sProv sp = ProvDiscovered"
      using W [OF u] Some by (simp_all add: add_key_def)
    from adds.look_puts [OF _ dist sp, of r "cbc r", folded r1_def] assms(1) show ?thesis
      by (auto simp: k Some add_refused_def is_static_def split: option.split)
  qed
  have "entry (drain_unwanted now w r1) u = reconciled (cbc r) w (entry r) u" for u
    unfolding entry_drain_unwanted [OF conjunct1 [OF r1]] e reconciled_def
    using W [of u] assms(4)
    by (cases "w u"; cases "entry r u") (auto simp: is_static_def upsert_def intro: provenance.exhaust)
  then show "entry (snd (ReconcileDiscovered canon order now desired r)) = reconciled (cbc r) w (entry r)"
    by (simp add: R fun_eq_iff)
  show "fst (ReconcileDiscovered canon order now desired r) = Inl (sort (filter (is_static r) (order w)))" by (simp add: R)
  show "rinv (snd (ReconcileDiscovered canon order now desired r))"
    using drain_unwanted_fold [OF conjunct1 [OF r1] subset_refl] by (simp add: R drain_unwanted_def)
qed

lemma reconfigure_upsert [simp]: "reconfigure sp (upsert c sp x) = upsert c sp x"
  by (cases x) (simp_all add: upsert_def reconfigure_def newBackend_def)

lemma Reg_Add_again:
  assumes "rinv r" and "canon (sURL sp) = Inr u" and "\<not> conflicting r u sp"
  shows "snd (Reg_Add canon sp (snd (Reg_Add canon sp r))) = snd (Reg_Add canon sp r)"
proof -
  let ?r = "snd (Reg_Add canon sp r)" let ?sp = "sp\<lparr>sURL := u\<rparr>"
  have "entry ?r u = Some (upsert (cbc r) ?sp (entry r u))" using entry_Reg_Add [where canon = canon and sp = sp and u = u, OF assms(1,2)] assms(3) by simp
  then obtain i where i: "byURL (cur ?r) u = Some i" "heap ?r ! i = upsert (cbc r) ?sp (entry r u)"
    by (auto simp: entry_def)
  have "\<not> (Prov (heap ?r ! i) = ProvStatic \<and> sProv sp = ProvDiscovered)"
    using assms(3) by (auto simp: i upsert_def conflicting_def split: option.splits)
  then have "snd (Reg_Add canon sp ?r) = upd_heap i (reconfigure ?sp) ?r"
    using assms(2) i(1) by (auto simp: Reg_Add_def [of _ _ ?r] Let_def)
  also have "\<dots> = ?r" by (simp add: upd_heap_def i(2)) (simp add: i(2) [symmetric])
  finally show ?thesis .
qed

section \<open>Properties\<close>

text \<open>C7. A snapshot is never corrupted: after any interleaving of adds, drains, drain completions and
  counter updates, the snapshot's backends are strictly sorted by canonical URL, so no backend appears twice,
  and a lookup by URL finds exactly the listed backend with that URL.\<close>

theorem snapshot_sorted_unique:
  assumes "(rstep canon)\<^sup>*\<^sup>* (Reg_New c d) r"
  shows "sorted_wrt (<) (map (\<lambda>i. URL (heap r ! i)) (Backends (cur r))) \<and> distinct (Backends (cur r)) \<and>
    (Get u (cur r) = Some i \<longleftrightarrow> i \<in> set (Backends (cur r)) \<and> URL (heap r ! i) = u) \<and> Version (cur r) = version r"
proof -
  have R: "rinv r" using assms by (rule reachable_rinv)
  have "distinct (Backends (cur r))" using rinvD(6) [OF R] by (simp add: distinct_map)
  then show ?thesis using rinvD(1,5) [OF R] byURL_iff [OF R] by (simp add: Get_def)
qed

theorem snapshot_sorted_unique_witness: "distinct (Backends (cur (snd (Reg_Add Inr (bare_spec ''a'') (Reg_New DefaultConfig 0)))))"
proof -
  have "(rstep Inr)\<^sup>*\<^sup>* (Reg_New DefaultConfig 0) (snd (Reg_Add Inr (bare_spec ''a'') (Reg_New DefaultConfig 0)))"
    by (rule r_into_rtranclp) (rule rstep.add)
  from snapshot_sorted_unique [OF this] show ?thesis by blast
qed

text \<open>\<^verbatim>\<open>Add\<close> is an upsert of one key: a discovered spec for a static backend is refused and changes
  nothing; otherwise the URL maps to the old backend reconfigured, or to a new one that is Unknown and so not
  routable, every other URL keeps its backend, an update leaves the membership list as it is, and adding
  the same spec again changes nothing at all.\<close>

theorem Reg_Add_upserts:
  assumes "(rstep canon)\<^sup>*\<^sup>* (Reg_New c d) r" and "canon (sURL sp) = Inr u"
  shows "let ((_, e), r') = Reg_Add canon sp r in
    if (\<exists>b. entry r u = Some b \<and> Prov b = ProvStatic) \<and> sProv sp = ProvDiscovered then e = Some ErrStaticConflict \<and> r' = r
    else e = None \<and> (\<forall>v. v \<noteq> u \<longrightarrow> entry r' v = entry r v) \<and>
      (case entry r u of
         None \<Rightarrow> entry r' u = Some (newBackend (cbc r) (sp\<lparr>sURL := u\<rparr>)) \<and> (\<forall>b t. entry r' u = Some b \<longrightarrow> \<not> Available t b)
       | Some b \<Rightarrow> entry r' u = Some (reconfigure (sp\<lparr>sURL := u\<rparr>) b) \<and> cur r' = cur r) \<and>
      snd (Reg_Add canon sp r') = r'"
proof -
  have R: "rinv r" using assms(1) by (rule reachable_rinv)
  obtain x e r' where A: "Reg_Add canon sp r = ((x, e), r')" by (metis prod.collapse)
  note E = entry_Reg_Add [where canon = canon and sp = sp and u = u, OF R assms(2), unfolded A snd_conv]
  have e: "e = (if conflicting r u sp then Some ErrStaticConflict else None)"
    using A assms(2) by (auto simp: Reg_Add_def Let_def conflicting_def entry_def split: option.splits if_splits)
  have c: "r' = r" if "conflicting r u sp"
    using A assms(2) that by (auto simp: Reg_Add_def Let_def conflicting_def entry_def split: option.splits if_splits)
  have m: "cur r' = cur r" if "entry r u = Some b" for b
    using A assms(2) that by (auto simp: Reg_Add_def Let_def entry_def upd_heap_def split: option.splits if_splits)
  have n: "\<not> Available t (newBackend (cbc r) (sp\<lparr>sURL := u\<rparr>))" for t by (simp add: Available_def newBackend_def)
  show ?thesis
  proof (cases "conflicting r u sp")
    case True
    then show ?thesis using e c by (simp add: A conflicting_def)
  next
    case False
    then have f: "\<not> ((\<exists>b. entry r u = Some b \<and> Prov b = ProvStatic) \<and> sProv sp = ProvDiscovered)" by (simp add: conflicting_def)
    have "snd (Reg_Add canon sp r') = r'" using Reg_Add_again [where canon = canon and sp = sp and u = u, OF R assms(2) False] by (simp add: A)
    then show ?thesis using E e m n False unfolding A prod.case if_not_P [OF f]
      by (cases "entry r u") (simp_all add: upsert_def)
  qed
qed

theorem Reg_Add_upserts_witness: "entry (snd (Reg_Add Inr (bare_spec ''a'') (Reg_New DefaultConfig 0))) ''a'' =
    Some (newBackend DefaultConfig (bare_spec ''a''))"
  using Reg_Add_upserts [of Inr DefaultConfig 0 "Reg_New DefaultConfig 0" "bare_spec ''a''" "''a''"]
  by (simp add: bare_spec_def Reg_New_def entry_def DefaultConfig_def split: prod.splits)

lemma entry_byURL: "entry r u = Some b \<longleftrightarrow> (\<exists>i. byURL (cur r) u = Some i \<and> heap r ! i = b)"
  by (auto simp: entry_def)

text \<open>A removal drains before it unlinks: after \<^verbatim>\<open>Remove\<close> the backend is still in the snapshot but
  offered to no policy, a goroutine waits for it (started now, unless it was draining already), and that
  goroutine changes nothing while requests are in flight and the deadline has not come; once in-flight is
  zero or the deadline is there, it removes exactly that URL.\<close>

theorem Remove_drains:
  assumes "(rstep canon)\<^sup>*\<^sup>* (Reg_New c d) r" and "canon raw = Inr u" and "byURL (cur r) u = Some i" and "b = heap r ! i"
  shows "let (e, r') = Reg_Remove canon now raw r in
    e = None \<and> entry r' u = Some (b\<lparr>draining := True\<rparr>) \<and> i \<notin> set (Snap_Available t (heap r') (cur r')) \<and>
    (\<not> draining b \<longrightarrow> (i, now + drainDeadline r) \<in> set (waits r')) \<and>
    (0 < inflight b \<and> t < dl \<longrightarrow> awaitDrain t (i, dl) r' = r') \<and>
    (inflight b \<le> 0 \<or> dl \<le> t \<longrightarrow> entry (awaitDrain t (i, dl) r') = (entry r')(u := None))"
proof -
  have R: "rinv r" using assms(1) by (rule reachable_rinv)
  have i: "i \<in> set (Backends (cur r))" "URL (heap r ! i) = u" using byURL_iff [OF R] assms(3) by blast+
  have l: "i < length (heap r)" using byURL_lt [OF R assms(3)] .
  let ?r = "drain now i r"
  have A: "Reg_Remove canon now raw r = (None, ?r)" by (simp add: Reg_Remove_def assms(2,3))
  have R': "rinv ?r" by (rule drain_rinv [OF R l])
  have h: "heap ?r ! i = b\<lparr>draining := True\<rparr>"
    using l assms(4) by (cases "heap r ! i") (auto simp: drain_def upd_heap_def)
  have e: "entry ?r u = Some (b\<lparr>draining := True\<rparr>)" using assms(3) h by (simp add: entry_byURL)
  have "entry (unlink i ?r) = (entry ?r)(u := None)"
    using entry_unlink [OF R', of i] i(2) assms(4) by (simp add: h)
  moreover have "\<not> Available t (heap ?r ! i)" by (simp add: h Available_def)
  ultimately show ?thesis using e h assms(4)
    by (auto simp: A Snap_Available_def awaitDrain_def drain_def)
qed

text \<open>C9. Re-adding a draining backend does not cancel its drain: \<^verbatim>\<open>Add\<close> clears the flag and reports
  success, the backend is in the snapshot and no longer draining, but the waiting goroutine never reads the
  flag, so at its next idle turn it still removes the backend.\<close>

theorem readd_is_still_unlinked:
  assumes "(rstep canon)\<^sup>*\<^sup>* (Reg_New c d) r" and "canon (sURL sp) = Inr u" and "byURL (cur r) u = Some i"
    and "(i, dl) \<in> set (waits r)" and "sProv sp = ProvStatic" and "inflight (heap r ! i) \<le> 0"
  shows "let r1 = snd (Reg_Add canon sp r); r2 = awaitDrain now (i, dl) r1 in
    (\<exists>b. entry r1 u = Some b \<and> \<not> draining b) \<and> entry r2 u = None \<and> (rstep canon)\<^sup>*\<^sup>* r1 r2"
proof -
  have R: "rinv r" using assms(1) by (rule reachable_rinv)
  let ?sp = "sp\<lparr>sURL := u\<rparr>"
  have A: "snd (Reg_Add canon sp r) = upd_heap i (reconfigure ?sp) r"
    using assms(2,3,5) by (simp add: Reg_Add_def Let_def)
  have l: "i < length (heap r)" using byURL_lt [OF R assms(3)] .
  have h: "heap (upd_heap i (reconfigure ?sp) r) ! i = reconfigure ?sp (heap r ! i)" using l by (simp add: upd_heap_def)
  have R1: "rinv (upd_heap i (reconfigure ?sp) r)" by (rule heap_rinv [OF R]) simp
  have "URL (heap r ! i) = u" using byURL_iff [OF R] assms(3) by blast
  then have "entry (unlink i (upd_heap i (reconfigure ?sp) r)) u = None"
    using entry_unlink [OF R1, of i] by (simp add: h)
  moreover have "entry (upd_heap i (reconfigure ?sp) r) u = Some (reconfigure ?sp (heap r ! i))"
    using entry_heap [OF R l assms(3)] by simp
  moreover have "(rstep canon)\<^sup>*\<^sup>* (upd_heap i (reconfigure ?sp) r) (awaitDrain now (i, dl) (upd_heap i (reconfigure ?sp) r))"
    by (rule await_run) (simp add: upd_heap_def assms(4))
  ultimately show ?thesis using assms(6)
    unfolding A Let_def awaitDrain_def fst_conv h by (simp add: reconfigure_def)
qed

text \<open>C8. Reconciliation converges: given the full desired set it leaves every static backend untouched and
  reports the desired URLs that collide with one, sorted; every other desired URL is added, or reconfigured
  and out of draining; every discovered backend no longer desired drains but stays in the snapshot. The
  order in which the runtime walks the map does not matter, and a second pass changes no entry.\<close>

theorem Reconcile_converges:
  assumes "(rstep canon)\<^sup>*\<^sup>* (Reg_New c d) r" and "\<And>raw u. canon raw = Inr u \<Longrightarrow> canon u = Inr u"
    and "wanted canon desired Map.empty = Inr w" and "set (order w) = dom w" and "distinct (order w)"
  shows "let (res, r') = ReconcileDiscovered canon order now desired r in
    (\<exists>cs. res = Inl cs \<and> sorted cs \<and> distinct cs \<and> set cs = {u \<in> dom w. \<exists>b. entry r u = Some b \<and> Prov b = ProvStatic}) \<and>
    (\<forall>u. entry r' u =
      (case entry r u of
         None \<Rightarrow> map_option (newBackend (cbc r)) (w u)
       | Some b \<Rightarrow>
           if Prov b = ProvStatic then Some b
           else (case w u of Some sp \<Rightarrow> Some (reconfigure sp b) | None \<Rightarrow> Some (b\<lparr>draining := True\<rparr>)))) \<and>
    entry (snd (ReconcileDiscovered canon order now' desired r')) = entry r'"
proof -
  have st: "canon_stable canon" using assms(2) by (auto simp: canon_stable_def)
  have R: "rinv r" using assms(1) by (rule reachable_rinv)
  obtain res r' where A: "ReconcileDiscovered canon order now desired r = (res, r')" by fastforce
  note S = Reconcile_run [where canon = canon and order = order and now = now, OF R st assms(3-5), unfolded A fst_conv snd_conv]
  have S2: "entry (snd (ReconcileDiscovered canon order now' desired r')) = reconciled (cbc r') w (entry r')"
    by (rule Reconcile_run(2) [where order = order, OF S(3) st assms(3-5)])
  have W: "sProv sp = ProvDiscovered" if "w u = Some sp" for u sp
    using wanted_range [where u = u and sp = sp, OF assms(3) _ st] that by auto
  have rr: "reconfigure sp (newBackend c sp) = newBackend c sp" "reconfigure sp (reconfigure sp b) = reconfigure sp b" for c sp b
    by (simp_all add: reconfigure_def newBackend_def)
  have dd: "b\<lparr>draining := True\<rparr> = b" if "draining b" for b :: backend using that by (cases b) simp
  have E: "entry r' = reconciled (cbc r) w (entry r)" by (rule S(2))
  have "reconciled (cbc r') w (reconciled (cbc r) w (entry r)) u = reconciled (cbc r) w (entry r) u" for u
    using W [of u] by (cases "entry r u"; cases "w u") (simp_all add: reconciled_def rr)
  then have "reconciled (cbc r') w (entry r') u = entry r' u" for u by (simp only: E)
  then have "entry (snd (ReconcileDiscovered canon order now' desired r')) = entry r'" unfolding S2 by (rule ext)
  moreover have "res = Inl (sort (filter (is_static r) (order w)))" by (rule S(1))
  moreover have "set (filter (is_static r) (order w)) = {u \<in> dom w. \<exists>b. entry r u = Some b \<and> Prov b = ProvStatic}"
    using assms(4) by (auto simp: is_static_def split: option.splits)
  ultimately show ?thesis using assms(5) by (auto simp: A S(2) reconciled_def split: option.split)
qed

section \<open>Witnesses\<close>

definition one_reg :: registry where
  "one_reg = snd (Reg_Add Inr (bare_spec ''a'') (Reg_New DefaultConfig 0))"

lemma one_reg: "heap one_reg = [newBackend DefaultConfig (bare_spec ''a'')]" "byURL (cur one_reg) = [''a'' \<mapsto> 0]"
    "(rstep Inr)\<^sup>*\<^sup>* (Reg_New DefaultConfig 0) one_reg"
proof -
  have d: "Window DefaultConfig \<noteq> 0" by (simp add: DefaultConfig_def)
  show "heap one_reg = [newBackend DefaultConfig (bare_spec ''a'')]" "byURL (cur one_reg) = [''a'' \<mapsto> 0]"
    using d by (simp_all add: one_reg_def Reg_Add_def Reg_New_def bare_spec_def publishLocked_def Let_def)
  show "(rstep Inr)\<^sup>*\<^sup>* (Reg_New DefaultConfig 0) one_reg"
    unfolding one_reg_def by (rule r_into_rtranclp) (rule rstep.add)
qed

theorem Remove_drains_witness: "fst (Reg_Remove Inr 0 ''a'' one_reg) = None"
  using Remove_drains [OF one_reg(3), of "''a''" "''a''" 0 "newBackend DefaultConfig (bare_spec ''a'')" 0 0 0]
  by (simp add: one_reg(1,2) Let_def case_prod_beta)

theorem readd_is_still_unlinked_witness:
  "entry (awaitDrain 1 (0, 7) (snd (Reg_Add Inr (bare_spec ''a'') (drain (7 - drainDeadline one_reg) 0 one_reg)))) ''a'' = None"
proof -
  let ?r = "drain (7 - drainDeadline one_reg) 0 one_reg"
  have r: "(rstep Inr)\<^sup>*\<^sup>* (Reg_New DefaultConfig 0) ?r"
    by (rule rtranclp.rtrancl_into_rtrancl [OF one_reg(3)]) (rule rstep.drained, simp add: one_reg(1))
  have w: "(0, 7) \<in> set (waits ?r)" "inflight (heap ?r ! 0) \<le> 0"
    by (simp_all add: drain_def upd_heap_def one_reg(1) newBackend_def)
  show ?thesis
    using readd_is_still_unlinked [OF r _ _ w(1) _ w(2), of "bare_spec ''a''" "''a''" 1]
    by (simp add: bare_spec_def one_reg(2) Let_def)
qed

theorem Reconcile_converges_witness:
  "entry (snd (ReconcileDiscovered Inr (\<lambda>w. if w ''b'' = None then [] else [''b'']) 0 [bare_spec ''b''] one_reg)) ''a'' =
    Some (newBackend DefaultConfig (bare_spec ''a''))"
proof -
  let ?w = "[''b'' \<mapsto> (bare_spec ''b'')\<lparr>sURL := ''b'', sProv := ProvDiscovered\<rparr>]"
  have "wanted Inr [bare_spec ''b''] Map.empty = Inr ?w" by (simp add: bare_spec_def)
  from Reconcile_converges [OF one_reg(3) _ this, of "\<lambda>w. if w ''b'' = None then [] else [''b'']" 0 0] show ?thesis
    by (auto simp: entry_def [of one_reg] one_reg(1,2) bare_spec_def Let_def split: prod.splits)
qed

end
