(* ===== verification/MarkSet.thy ===== *)
theory MarkSet
  imports Prelude
begin

text \<open>
  \<^verbatim>\<open>router/internal/policy/affinity/markset.go\<close>: the set of backends holding one run of the
  prefix tree, a growable slice of 64-bit words addressed by slot index. The operations keep the
  source's bit arithmetic; \<open>holders\<close> is the set they denote. The locale \<open>holder_set\<close> is the
  contract the tree relies on ("nothing outside this file shifts a bit"), interpreted on the
  word-level operations.
\<close>

unbundle bit_operations_syntax

section \<open>Operations\<close>

record markSet =
  words :: "u64 list"

definition empty_marks :: markSet where
  "empty_marks = \<lparr>words = []\<rparr>"

text \<open>\<open>1 << (uint(slot) % 64)\<close>, for a non-negative slot.\<close>

definition slot_bit :: "int \<Rightarrow> u64" where
  "slot_bit slot = push_bit (nat (slot mod 64)) 1"

definition grow :: "markSet \<Rightarrow> int \<Rightarrow> markSet" where
  "grow m slot =
     (let need = nat (slot div 64) + 1
      in m\<lparr>words := words m @ replicate (need - length (words m)) 0\<rparr>)"

definition Has :: "markSet \<Rightarrow> int \<Rightarrow> bool" where
  "Has m slot =
     (let w = slot div 64 in
      if slot < 0 \<or> w \<ge> int (length (words m)) then False
      else words m ! nat w AND slot_bit slot \<noteq> 0)"

definition Add :: "markSet \<Rightarrow> int \<Rightarrow> markSet" where
  "Add m slot =
     (if slot < 0 then m
      else let g = grow m slot; w = nat (slot div 64)
           in g\<lparr>words := (words g)[w := words g ! w OR slot_bit slot]\<rparr>)"

definition Remove :: "markSet \<Rightarrow> int \<Rightarrow> markSet" where
  "Remove m slot =
     (let w = slot div 64 in
      if slot < 0 \<or> w \<ge> int (length (words m)) then m
      else m\<lparr>words := (words m)[nat w := words m ! nat w AND NOT (slot_bit slot)]\<rparr>)"

definition Empty :: "markSet \<Rightarrow> bool" where
  "Empty m = list_all (\<lambda>w. w = 0) (words m)"

text \<open>\<^verbatim>\<open>bits.OnesCount64\<close> and \<^verbatim>\<open>bits.TrailingZeros64\<close>.\<close>

definition ones_count64 :: "u64 \<Rightarrow> nat" where
  "ones_count64 w = length (filter (bit w) [0..<64])"

definition trailing_zeros64 :: "u64 \<Rightarrow> nat" where
  "trailing_zeros64 w = length (takeWhile (\<lambda>i. \<not> bit w i) [0..<64])"

definition Count :: "markSet \<Rightarrow> nat" where
  "Count m = sum_list (map ones_count64 (words m))"

definition Intersects :: "markSet \<Rightarrow> markSet \<Rightarrow> bool" where
  "Intersects m other = list_ex (\<lambda>(v, w). v AND w \<noteq> 0) (zip (words m) (words other))"

definition Clone :: "markSet \<Rightarrow> markSet" where
  "Clone m = (if length (words m) = 0 then empty_marks else \<lparr>words = words m\<rparr>)"

definition Subset :: "markSet \<Rightarrow> markSet \<Rightarrow> bool" where
  "Subset m other =
     list_all (\<lambda>i. let o' = (if i < length (words other) then words other ! i else 0)
                   in words m ! i AND NOT o' = 0)
       [0..<length (words m)]"

text \<open>\<^verbatim>\<open>Each\<close> calls its argument on every holder; the model returns the slots in call order. The
  inner loop clears the lowest set bit until the word is zero.\<close>

lemma bit_u64_less: "bit (w :: u64) i \<Longrightarrow> i < 64"
  using bit_imp_le_length [of w i] by simp

lemma ones_count64_card: "ones_count64 w = card {i. bit w i}"
proof -
  have "ones_count64 w = card ({i. bit w i} \<inter> set [0..<64])"
    unfolding ones_count64_def by (rule distinct_length_filter) (rule distinct_upt)
  also have "{i. bit w i} \<inter> set [0..<64] = {i. bit w i}"
    using bit_u64_less by (fastforce simp del: upt.simps)
  finally show ?thesis .
qed

lemma finite_bits_u64: "finite {i. bit (w :: u64) i}"
  by (rule finite_subset [of _ "{..<64}"]) (auto dest: bit_u64_less)

lemma trailing_zeros64_bit: "w \<noteq> 0 \<Longrightarrow> bit w (trailing_zeros64 w)"
proof -
  assume "w \<noteq> 0"
  then obtain i where i: "bit w i" by (metis bit_eqI bit_0_eq bot_apply bot_bool_def)
  define t where "t = takeWhile (\<lambda>i. \<not> bit w i) [0..<64]"
  have "\<exists>j\<in>set [0..<64]. bit w j"
    using i bit_u64_less by (intro bexI [of _ i]) (auto simp del: upt.simps)
  then have "t \<noteq> [0..<64]" unfolding t_def by (metis set_takeWhileD)
  then have lt: "length t < 64"
    using takeWhile_dropWhile_id [of "\<lambda>i. \<not> bit w i" "[0..<64]"] length_takeWhile_le
    by (metis t_def append_eq_conv_conj diff_zero length_upt nat_less_le take_all_iff order_refl)
  then have "bit w ([0..<64] ! length t)"
    using nth_length_takeWhile [of "\<lambda>i. \<not> bit w i" "[0..<64]"] unfolding t_def
    by (simp del: upt.simps)
  with lt show ?thesis by (simp add: trailing_zeros64_def t_def [symmetric] del: upt.simps)
qed

lemma trailing_zeros64_least: "bit w c \<Longrightarrow> trailing_zeros64 w \<le> c"
proof (rule ccontr)
  assume c: "bit w c" and "\<not> trailing_zeros64 w \<le> c"
  then have lt: "c < length (takeWhile (\<lambda>i. \<not> bit w i) [0..<64])"
    by (simp add: trailing_zeros64_def)
  then have "takeWhile (\<lambda>i. \<not> bit w i) [0..<64] ! c = c"
    using bit_u64_less [OF c] by (subst takeWhile_nth) (simp_all del: upt.simps)
  with lt have "c \<in> set (takeWhile (\<lambda>i. \<not> bit w i) [0..<64])" by (metis nth_mem)
  with c show False by (metis set_takeWhileD)
qed

lemma bit_clear: "bit ((w :: u64) AND NOT (2 ^ b)) i \<longleftrightarrow> bit w i \<and> i \<noteq> b"
  by (auto simp: bit_simps dest: bit_u64_less)

lemma ones_count64_clear:
  assumes "bit w b"
  shows "ones_count64 (w AND NOT (2 ^ b)) < ones_count64 w"
  unfolding ones_count64_card
  by (rule psubset_card_mono [OF finite_bits_u64]) (use assms in \<open>auto simp: bit_clear\<close>)

function each_word :: "nat \<Rightarrow> u64 \<Rightarrow> int list" where
  "each_word i w =
     (if w = 0 then []
      else let b = trailing_zeros64 w
           in int (i * 64 + b) # each_word i (w AND NOT (push_bit b 1)))"
  by pat_completeness auto
termination
  by (relation "measure (\<lambda>(i, w). ones_count64 w)")
    (auto intro: ones_count64_clear trailing_zeros64_bit)

declare each_word.simps [simp del]

definition Each :: "markSet \<Rightarrow> int list" where
  "Each m = concat (map (\<lambda>i. each_word i (words m ! i)) [0..<length (words m)])"


section \<open>The set a mark set denotes\<close>

definition holders :: "markSet \<Rightarrow> int set" where
  "holders m = {s. Has m s}"

text \<open>Slot \<open>64 w + b\<close> is bit \<open>b\<close> of word \<open>w\<close>.\<close>

lemma slot_bit_eq: "slot_bit s = 2 ^ nat (s mod 64)"
  by (simp add: slot_bit_def)

lemma and_slot_bit: "(w :: u64) AND 2 ^ b \<noteq> 0 \<longleftrightarrow> bit w b"
proof
  assume "bit w b"
  then have "bit (w AND 2 ^ b) b" by (auto simp: bit_simps dest: bit_u64_less)
  then show "w AND 2 ^ b \<noteq> 0" by auto
next
  assume "w AND 2 ^ b \<noteq> 0"
  then obtain i where "bit (w AND 2 ^ b) i" by (metis bit_eqI bit_0_eq bot_apply bot_bool_def)
  then show "bit w b" by (auto simp: bit_simps)
qed

lemma Has_nat: "Has m (int n) \<longleftrightarrow> n div 64 < length (words m) \<and> bit (words m ! (n div 64)) (n mod 64)"
proof -
  have "nat (int n div 64) = n div 64" and "nat (int n mod 64) = n mod 64"
    by (metis nat_int zdiv_int of_nat_numeral, metis nat_int zmod_int of_nat_numeral)
  moreover have "int (length (words m)) \<le> int n div 64 \<longleftrightarrow> length (words m) \<le> n div 64"
    by (metis of_nat_le_iff of_nat_numeral zdiv_int)
  ultimately show ?thesis
    by (auto simp: Has_def Let_def slot_bit_eq and_slot_bit)
qed

lemma Has_neg [simp]: "s < 0 \<Longrightarrow> \<not> Has m s"
  by (simp add: Has_def)

lemma slot_cases:
  assumes "\<And>n. s = int n \<Longrightarrow> P" and "s < 0 \<Longrightarrow> P"
  shows P
  using assms by (metis nonneg_int_cases not_less)

lemma Has_iff:
  "Has m s \<longleftrightarrow> (\<exists>i<length (words m). \<exists>b. bit (words m ! i) b \<and> s = int (i * 64 + b))"
proof
  assume "Has m s"
  then obtain n where "s = int n" by (cases s rule: slot_cases) auto
  with \<open>Has m s\<close> have "n div 64 < length (words m)" "bit (words m ! (n div 64)) (n mod 64)"
    and "s = int (n div 64 * 64 + n mod 64)"
    by (simp_all only: Has_nat div_mult_mod_eq)
  then show "\<exists>i<length (words m). \<exists>b. bit (words m ! i) b \<and> s = int (i * 64 + b)" by blast
next
  assume "\<exists>i<length (words m). \<exists>b. bit (words m ! i) b \<and> s = int (i * 64 + b)"
  then obtain i b where "i < length (words m)" "bit (words m ! i) b" "s = int (i * 64 + b)" by blast
  moreover from this have "b < 64" using bit_u64_less by blast
  ultimately show "Has m s" using Has_nat [of m "i * 64 + b"] by simp
qed

lemma bit_or_pow: "bit ((w :: u64) OR 2 ^ b) i \<longleftrightarrow> bit w i \<or> (i = b \<and> b < 64)"
  by (auto simp: bit_simps)

lemma div_mod_eq_iff: "(a :: nat) = b \<longleftrightarrow> a div 64 = b div 64 \<and> a mod 64 = b mod 64"
  by (metis div_mult_mod_eq)

lemma nth_append_zeros:
  "i < length xs + a \<Longrightarrow> (xs @ replicate a 0) ! i = (if i < length xs then xs ! i else 0)"
  by (auto simp: nth_append)

lemma Has_Add: "Has (Add m s) t \<longleftrightarrow> Has m t \<or> (0 \<le> s \<and> t = s)"
proof (cases s rule: slot_cases)
  case (1 n)
  let ?w = "n div 64"
  have w: "nat (int n div 64) = ?w" and b: "nat (int n mod 64) = n mod 64"
    by (metis nat_int zdiv_int of_nat_numeral, metis nat_int zmod_int of_nat_numeral)
  have Aw: "words (Add m (int n)) =
    (words m @ replicate (Suc ?w - length (words m)) 0)
      [?w := (words m @ replicate (Suc ?w - length (words m)) 0) ! ?w OR 2 ^ (n mod 64)]"
    by (simp add: Add_def grow_def Let_def w slot_bit_eq b)
  show ?thesis
  proof (cases t rule: slot_cases)
    case t: (1 k)
    have "Has (Add m (int n)) (int k) \<longleftrightarrow> Has m (int k) \<or> k = n"
      unfolding Has_nat Aw
      by (auto simp: nth_list_update nth_append_zeros bit_or_pow div_mod_eq_iff [of k n])
    with 1 t show ?thesis by auto
  next
    case 2
    with 1 show ?thesis by auto
  qed
qed (simp add: Add_def)

lemma Has_Remove: "Has (Remove m s) t \<longleftrightarrow> Has m t \<and> t \<noteq> s"
proof (cases s rule: slot_cases)
  case (1 n)
  have w: "nat (int n div 64) = n div 64" and b: "nat (int n mod 64) = n mod 64"
    by (metis nat_int zdiv_int of_nat_numeral, metis nat_int zmod_int of_nat_numeral)
  have len: "int (length (words m)) \<le> int n div 64 \<longleftrightarrow> length (words m) \<le> n div 64"
    by (metis of_nat_le_iff of_nat_numeral zdiv_int)
  show ?thesis
  proof (cases t rule: slot_cases)
    case t: (1 k)
    have "Has (Remove m (int n)) (int k) \<longleftrightarrow> Has m (int k) \<and> k \<noteq> n"
      by (auto simp: Has_nat Remove_def Let_def w slot_bit_eq b len nth_list_update bit_clear
          div_mod_eq_iff [of k n])
    with 1 t show ?thesis by auto
  qed auto
qed (auto simp: Remove_def)


lemma Clone_eq: "Clone m = m"
  by (cases m) (simp add: Clone_def empty_marks_def)

lemma word_nonzero_bit: "(w :: u64) \<noteq> 0 \<longleftrightarrow> (\<exists>b. bit w b)"
  by (metis bit_eqI bit_0_eq bot_apply bot_bool_def)

lemma word_zero_bit: "(w :: u64) = 0 \<longleftrightarrow> (\<forall>b. \<not> bit w b)"
  using word_nonzero_bit [of w] by blast

lemma Has_empty_marks [simp]: "\<not> Has empty_marks s"
  by (simp add: Has_iff empty_marks_def)

lemma Empty_iff: "Empty m \<longleftrightarrow> (\<forall>s. \<not> Has m s)"
proof -
  have "Empty m \<longleftrightarrow> (\<forall>i<length (words m). \<forall>b. \<not> bit (words m ! i) b)"
    using word_nonzero_bit by (auto simp: Empty_def list_all_length)
  then show ?thesis by (auto simp: Has_iff)
qed

lemma Intersects_iff: "Intersects m k \<longleftrightarrow> (\<exists>s. Has m s \<and> Has k s)"
proof
  assume "Intersects m k"
  then obtain i where i: "i < length (words m)" "i < length (words k)"
    and nz: "words m ! i AND words k ! i \<noteq> 0"
    by (auto simp: Intersects_def list_ex_length)
  from nz obtain b where "bit (words m ! i) b" "bit (words k ! i) b"
    by (auto simp: word_nonzero_bit bit_and_iff)
  with i show "\<exists>s. Has m s \<and> Has k s"
    by (intro exI [of _ "int (i * 64 + b)"]) (auto simp: Has_iff)
next
  assume "\<exists>s. Has m s \<and> Has k s"
  then obtain n where n: "Has m (int n)" "Has k (int n)"
    by (metis Has_neg nonneg_int_cases not_less)
  then have "words m ! (n div 64) AND words k ! (n div 64) \<noteq> 0"
    by (auto simp: Has_nat word_nonzero_bit bit_and_iff)
  with n show "Intersects m k"
    by (auto simp: Intersects_def list_ex_length Has_nat intro!: exI [of _ "n div 64"])
qed

lemma and_not_zero: "(v :: u64) AND NOT w = 0 \<longleftrightarrow> (\<forall>b. bit v b \<longrightarrow> bit w b)"
  unfolding word_zero_bit bit_and_iff bit_not_iff using bit_u64_less [of v] by auto

lemma Subset_iff: "Subset m k \<longleftrightarrow> (\<forall>s. Has m s \<longrightarrow> Has k s)"
proof -
  let ?o = "\<lambda>i. if i < length (words k) then words k ! i else 0"
  have "Subset m k \<longleftrightarrow> (\<forall>i<length (words m). \<forall>b. bit (words m ! i) b \<longrightarrow> bit (?o i) b)"
    unfolding Subset_def list_all_iff Let_def and_not_zero by auto
  also have "\<dots> \<longleftrightarrow> (\<forall>s. Has m s \<longrightarrow> Has k s)"
  proof safe
    fix s assume "\<forall>i<length (words m). \<forall>b. bit (words m ! i) b \<longrightarrow> bit (?o i) b" "Has m s"
    then show "Has k s" by (fastforce simp: Has_iff split: if_splits)
  next
    fix i b assume sub: "\<forall>s. Has m s \<longrightarrow> Has k s" and i: "i < length (words m)" "bit (words m ! i) b"
    then have "Has k (int (i * 64 + b))" by (auto simp: Has_iff [of m])
    moreover have "b < 64" using i bit_u64_less by blast
    ultimately show "bit (?o i) b" by (simp only: Has_nat) auto
  qed
  finally show ?thesis .
qed


subsection \<open>Counting and enumerating the holders\<close>

lemma each_word_props:
  "sorted_wrt (<) (each_word i w) \<and> set (each_word i w) = (\<lambda>b. int (i * 64 + b)) ` {b. bit w b}"
proof (induction i w rule: each_word.induct)
  case (1 i w)
  show ?case
  proof (cases "w = 0")
    case True
    then show ?thesis by (simp add: each_word.simps)
  next
    case False
    define b where "b = trailing_zeros64 w"
    define w' where "w' = w AND NOT (push_bit b 1)"
    have b: "bit w b" and least: "\<And>c. bit w c \<Longrightarrow> b \<le> c"
      using False trailing_zeros64_bit trailing_zeros64_least unfolding b_def by blast+
    have w': "{c. bit w' c} = {c. bit w c} - {b}"
      by (auto simp: w'_def bit_clear)
    have eq: "each_word i w = int (i * 64 + b) # each_word i w'"
      using False by (simp add: each_word.simps [of i w] b_def w'_def Let_def)
    have IH: "sorted_wrt (<) (each_word i w')"
        "set (each_word i w') = (\<lambda>c. int (i * 64 + c)) ` ({c. bit w c} - {b})"
      using "1.IH" [OF False refl] unfolding b_def [symmetric] w'_def [symmetric] w' by auto
    have "int (i * 64 + b) < x" if "x \<in> set (each_word i w')" for x
      using that least unfolding IH(2) by (force simp: order.strict_iff_order)
    with IH b show ?thesis unfolding eq by auto
  qed
qed

lemma sorted_wrt_concat_blocks:
  assumes "\<And>i. i < n \<Longrightarrow> sorted_wrt (<) (f i)"
    and "\<And>i x. i < n \<Longrightarrow> x \<in> set (f i) \<Longrightarrow> int (i * 64) \<le> x \<and> x < int (i * 64 + 64)"
  shows "sorted_wrt (<) (concat (map f [0..<n]))"
  using assms
proof (induction n)
  case (Suc n)
  have "x < y" if "i < n" "x \<in> set (f i)" "y \<in> set (f n)" for i x y
    using Suc.prems(2) [of i x] Suc.prems(2) [of n y] that by simp
  with Suc show ?case by (auto simp: sorted_wrt_append)
qed simp

lemma set_Each: "set (Each m) = holders m"
  by (auto simp: Each_def holders_def Has_iff each_word_props)

lemma sorted_Each: "sorted_wrt (<) (Each m)"
  unfolding Each_def
  by (rule sorted_wrt_concat_blocks) (auto simp: each_word_props dest: bit_u64_less)

lemma finite_holders [simp]: "finite (holders m)"
  by (metis List.finite_set set_Each)

lemma length_each_word: "length (each_word i w) = ones_count64 w"
proof -
  have "length (each_word i w) = card (set (each_word i w))"
    using each_word_props [of i w] sorted_wrt_less_distinct by (metis distinct_card)
  also have "\<dots> = card {b. bit w b}"
    unfolding each_word_props [THEN conjunct2] by (rule card_image) (auto simp: inj_on_def)
  finally show ?thesis by (simp add: ones_count64_card)
qed

lemma Count_card: "Count m = card (holders m)"
proof -
  have "length (Each m) = sum_list (map (\<lambda>i. ones_count64 (words m ! i)) [0..<length (words m)])"
    by (simp add: Each_def length_concat comp_def length_each_word)
  also have "\<dots> = Count m"
  proof -
    have "map (\<lambda>i. ones_count64 (words m ! i)) [0..<length (words m)] =
        map ones_count64 (map (nth (words m)) [0..<length (words m)])" by simp
    then show ?thesis by (simp only: Count_def map_nth)
  qed
  finally show ?thesis
    using sorted_wrt_less_distinct [OF sorted_Each, of m] by (metis distinct_card set_Each)
qed


section \<open>The contract the tree relies on\<close>

locale holder_set =
  fixes none :: 'm
    and has :: "'m \<Rightarrow> int \<Rightarrow> bool"
    and add :: "'m \<Rightarrow> int \<Rightarrow> 'm"
    and remove :: "'m \<Rightarrow> int \<Rightarrow> 'm"
    and is_empty :: "'m \<Rightarrow> bool"
    and count :: "'m \<Rightarrow> nat"
  assumes has_none: "\<not> has none s"
    and has_add: "has (add m s) t \<longleftrightarrow> has m t \<or> (0 \<le> s \<and> t = s)"
    and has_remove: "has (remove m s) t \<longleftrightarrow> has m t \<and> t \<noteq> s"
    and is_empty_iff: "is_empty m \<longleftrightarrow> (\<forall>s. \<not> has m s)"
    and finite_has: "finite {s. has m s}"
    and count_has: "count m = card {s. has m s}"
begin

text \<open>A run with one holder that \<open>s\<close> holds is held by \<open>s\<close> alone: the test before a tail is
  extended in place.\<close>

lemma sole_holder:
  assumes "count m = 1" and "has m s"
  shows "has m t \<longleftrightarrow> t = s"
proof -
  obtain u where "{s. has m s} = {u}"
    using assms(1) unfolding count_has by (metis card_1_singletonE)
  with assms(2) show ?thesis by (metis mem_Collect_eq singletonD)
qed

lemma count_add:
  assumes "0 \<le> s"
  shows "count (add m s) = (if has m s then count m else Suc (count m))"
proof -
  have "{t. has (add m s) t} = insert s {t. has m t}" using assms by (auto simp: has_add)
  then show ?thesis by (simp add: count_has finite_has card_insert_if)
qed

lemma count_remove: "count (remove m s) = (if has m s then count m - 1 else count m)"
proof -
  have "{t. has (remove m s) t} = {t. has m t} - {s}" by (auto simp: has_remove)
  then show ?thesis by (simp add: count_has)
qed

lemma count_zero: "count m = 0 \<longleftrightarrow> is_empty m"
  by (auto simp: count_has is_empty_iff finite_has)

lemma count_single: "0 \<le> s \<Longrightarrow> count (add none s) = 1"
  using count_zero [of none] by (simp add: count_add has_none is_empty_iff)

lemma add_remove_fresh: "\<not> has m s \<Longrightarrow> has (remove (add m s) s) t \<longleftrightarrow> has m t"
  by (auto simp: has_add has_remove)

end

interpretation ms: holder_set empty_marks Has Add Remove Empty Count
proof unfold_locales
  show "finite {s. Has m s}" for m using finite_holders [of m] by (simp add: holders_def)
  show "Count m = card {s. Has m s}" for m by (simp add: Count_card holders_def)
qed (simp_all add: Has_Add Has_Remove Empty_iff)

lemma holders_empty [simp]: "holders empty_marks = {}"
  by (simp add: holders_def)

lemma holders_Add: "holders (Add m s) = (if 0 \<le> s then insert s (holders m) else holders m)"
  by (auto simp: holders_def Has_Add)

lemma holders_Remove: "holders (Remove m s) = holders m - {s}"
  by (auto simp: holders_def Has_Remove)

lemma Has_holders: "Has m s \<longleftrightarrow> s \<in> holders m"
  by (simp add: holders_def)

lemma Empty_holders: "Empty m \<longleftrightarrow> holders m = {}"
  by (auto simp: holders_def Empty_iff)

lemma Intersects_holders: "Intersects m k \<longleftrightarrow> holders m \<inter> holders k \<noteq> {}"
  by (auto simp: holders_def Intersects_iff)

lemma holders_nonneg: "s \<in> holders m \<Longrightarrow> 0 \<le> s"
  by (metis Has_holders Has_neg not_less)

lemmas marks_simps = holders_Add holders_Remove Has_holders Empty_holders Intersects_holders
  Count_card Clone_eq

text \<open>The bit-level mark set implements finite sets of slots: each word operation is the set
  operation it is named after, \<^verbatim>\<open>Count\<close> is the number of holders, \<^verbatim>\<open>Each\<close> visits exactly the
  holders in ascending order, and a negative slot is never a member.\<close>

theorem markset_refines_sets:
  "holders (Add m s) = holders m \<union> (if 0 \<le> s then {s} else {}) \<and>
   holders (Remove m s) = holders m - {s} \<and>
   Has m s = (s \<in> holders m) \<and>
   Empty m = (holders m = {}) \<and>
   Count m = card (holders m) \<and>
   Intersects m k = (holders m \<inter> holders k \<noteq> {}) \<and>
   Subset m k = (holders m \<subseteq> holders k) \<and>
   holders (Clone m) = holders m \<and>
   Each m = sorted_list_of_set (holders m) \<and>
   holders m \<subseteq> {0..}"
proof (intro conjI)
  show "Each m = sorted_list_of_set (holders m)"
    using strict_sorted_equal [OF sorted_Each [of m] strict_sorted_list_of_set [of "holders m"]]
    by (simp add: set_Each)
  show "Subset m k = (holders m \<subseteq> holders k)" by (auto simp: Subset_iff holders_def)
  show "holders m \<subseteq> {0..}" using holders_nonneg by auto
qed (simp_all add: marks_simps)

end
