(* ===== verification/KvUnits.thy ===== *)
theory KvUnits
  imports Prelude
begin

text \<open>
  \<^verbatim>\<open>kvcache/kvcache.go\<close>, the part every component shares: the hashed unit of a request prefix,
  its token estimate, the coverage arithmetic, and the content hashing that produces units.
  SHA-256 is a parameter \<open>sha\<close> (the first eight bytes of the digest of a byte string); what the
  package adds to it, the unambiguous framing of tag and content and the windowing of content,
  is modelled.
\<close>

type_synonym byte = "8 word"

record kvunit =
  uHash :: u64
  uTokens :: int

section \<open>Token estimates and coverage\<close>

definition EstimateTokens :: "int \<Rightarrow> int" where
  "EstimateTokens byteLen =
     (if byteLen \<le> 0 then 0
      else let n = byteLen div 4 in if n \<ge> 1 then n else 1)"

record Coverage =
  MatchedBlocks :: int
  TotalBlocks :: int
  MatchedTokens :: int
  TotalTokens :: int

text \<open>The loop of \<^verbatim>\<open>Cover\<close>: \<open>i\<close> is the index of the unit at hand.\<close>

fun cover_loop :: "nat \<Rightarrow> nat \<Rightarrow> kvunit list \<Rightarrow> int \<times> int \<Rightarrow> int \<times> int" where
  "cover_loop matched i [] acc = acc"
| "cover_loop matched i (u # us) (tot, mat) =
     cover_loop matched (Suc i) us
       (tot + uTokens u, if i < matched then mat + uTokens u else mat)"

definition Cover :: "kvunit list \<Rightarrow> int \<Rightarrow> Coverage" where
  "Cover us matchedBlocks =
     (let mb0 = (if matchedBlocks < 0 then 0 else matchedBlocks);
          mb = (if mb0 > int (length us) then int (length us) else mb0);
          (tot, mat) = cover_loop (nat mb) 0 us (0, 0)
      in \<lparr>MatchedBlocks = mb, TotalBlocks = int (length us), MatchedTokens = mat, TotalTokens = tot\<rparr>)"

definition MissingBlocks :: "Coverage \<Rightarrow> int" where
  "MissingBlocks c = TotalBlocks c - MatchedBlocks c"

definition MissingTokens :: "Coverage \<Rightarrow> int" where
  "MissingTokens c = TotalTokens c - MatchedTokens c"

section \<open>Hashing content into units\<close>

text \<open>\<^verbatim>\<open>binary.BigEndian.PutUint32\<close>.\<close>

definition be32 :: "u32 \<Rightarrow> byte list" where
  "be32 n = [ucast (drop_bit 24 n), ucast (drop_bit 16 n), ucast (drop_bit 8 n), ucast n]"

definition hash_input :: "byte list \<Rightarrow> byte list \<Rightarrow> byte list" where
  "hash_input tag content = be32 (of_nat (length tag)) @ tag @ content"

definition HashContent :: "(byte list \<Rightarrow> u64) \<Rightarrow> byte list \<Rightarrow> byte list \<Rightarrow> u64" where
  "HashContent sha tag content = sha (hash_input tag content)"

definition DefaultChunkBytes :: int where
  "DefaultChunkBytes = 1024"

text \<open>The tag of a continuation window, the bytes of \<^verbatim>\<open>"\x01cont"\<close>.\<close>

definition cont_tag :: "byte list" where
  "cont_tag = [1, 99, 111, 110, 116]"

function chunk_loop :: "(byte list \<Rightarrow> u64) \<Rightarrow> byte list \<Rightarrow> byte list \<Rightarrow> nat \<Rightarrow> nat \<Rightarrow> kvunit list" where
  "chunk_loop sha tag content n off =
     (if off < length content \<and> 0 < n then
        (let end' = min (off + n) (length content);
             chunk = take (end' - off) (drop off content);
             t = (if off > 0 then cont_tag else tag)
         in \<lparr>uHash = HashContent sha t chunk, uTokens = EstimateTokens (int (length chunk))\<rparr>
            # chunk_loop sha tag content n (off + n))
      else [])"
  by pat_completeness auto
termination
  by (relation "measure (\<lambda>(sha, tag, content, n, off). length content - off)") auto

declare chunk_loop.simps [simp del]

definition ChunkContent :: "(byte list \<Rightarrow> u64) \<Rightarrow> byte list \<Rightarrow> byte list \<Rightarrow> int \<Rightarrow> kvunit list" where
  "ChunkContent sha tag content chunkBytes =
     (let n = (if chunkBytes \<le> 0 then DefaultChunkBytes else chunkBytes) in
      if content = [] then [\<lparr>uHash = HashContent sha tag [], uTokens = 1\<rparr>]
      else chunk_loop sha tag content (nat n) 0)"

section \<open>Properties\<close>

abbreviation token_sum :: "kvunit list \<Rightarrow> int" where
  "token_sum us \<equiv> (\<Sum>u\<leftarrow>us. uTokens u)"

lemma cover_loop_eq:
  "cover_loop matched i us (tot, mat) =
     (tot + token_sum us, mat + token_sum (take (matched - i) us))"
proof (induction us arbitrary: i tot mat)
  case (Cons u us)
  have "matched - Suc i = matched - i - 1" by simp
  with Cons show ?case by (cases "matched - i") auto
qed simp

lemma EstimateTokens_pos: "0 < n \<Longrightarrow> 1 \<le> EstimateTokens n"
  by (simp add: EstimateTokens_def Let_def)

definition clamp_match :: "kvunit list \<Rightarrow> int \<Rightarrow> nat" where
  "clamp_match us n = nat (min (max n 0) (int (length us)))"

lemma Cover_eq:
  "Cover us n = \<lparr>MatchedBlocks = int (clamp_match us n), TotalBlocks = int (length us),
     MatchedTokens = token_sum (take (clamp_match us n) us), TotalTokens = token_sum us\<rparr>"
proof -
  have mb: "(if (if n < 0 then 0 else n) > int (length us) then int (length us)
      else (if n < 0 then 0 else n)) = int (clamp_match us n)"
    by (auto simp: clamp_match_def)
  show ?thesis unfolding Cover_def Let_def mb by (simp add: cover_loop_eq)
qed

lemma token_sum_split: "token_sum us = token_sum (take k us) + token_sum (drop k us)"
  by (metis append_take_drop_id map_append sum_list_append)

text \<open>\<^verbatim>\<open>Cover\<close> computes prefix sums: with the match clamped to the request, the matched
  tokens are the tokens of the leading blocks and the missing tokens those of the rest, so
  non-negative token counts give a coverage between nothing and everything.\<close>

theorem Cover_correct:
  assumes "\<forall>u\<in>set us. 0 \<le> uTokens u"
  shows "MatchedTokens (Cover us n) = token_sum (take (clamp_match us n) us) \<and>
    MissingTokens (Cover us n) = token_sum (drop (clamp_match us n) us) \<and>
    MissingBlocks (Cover us n) = int (length us - clamp_match us n) \<and>
    0 \<le> MatchedTokens (Cover us n) \<and> MatchedTokens (Cover us n) \<le> TotalTokens (Cover us n)"
proof -
  have "0 \<le> token_sum (take (clamp_match us n) us)" "0 \<le> token_sum (drop (clamp_match us n) us)"
    using assms by (auto intro!: sum_list_nonneg) (meson in_set_takeD in_set_dropD)+
  moreover have "clamp_match us n \<le> length us" by (auto simp: clamp_match_def)
  ultimately show ?thesis
    using token_sum_split [of us "clamp_match us n"]
    by (simp add: Cover_eq MissingTokens_def MissingBlocks_def of_nat_diff)
qed

theorem Cover_correct_witness:
  "let us = [\<lparr>uHash = 1, uTokens = 45\<rparr>, \<lparr>uHash = 2, uTokens = 256\<rparr>] in
   MatchedTokens (Cover us 1) = 45 \<and> MissingTokens (Cover us 1) = 256"
  using Cover_correct [of "[\<lparr>uHash = 1, uTokens = 45\<rparr>, \<lparr>uHash = 2, uTokens = 256\<rparr>]" 1]
  by (simp add: clamp_match_def)

subsection \<open>The framing of tag and content\<close>

lemma be32_inj:
  assumes "be32 m = be32 n"
  shows "m = n"
proof (rule bit_word_eqI)
  fix i assume "i < LENGTH(32)"
  then have "i < 32" by simp
  have b: "bit (ucast (drop_bit k m) :: byte) j = bit (ucast (drop_bit k n) :: byte) j"
    if "k \<in> {0, 8, 16, 24}" for k j
    using assms that by (auto simp: be32_def)
  have *: "bit m (k + j) = bit n (k + j)" if "k \<in> {0, 8, 16, 24}" "j < 8" for k j
    using b [OF that(1), of j] that(2) by (simp add: bit_simps)
  consider "i < 8" | "8 \<le> i" "i < 16" | "16 \<le> i" "i < 24" | "24 \<le> i" using \<open>i < 32\<close> by linarith
  then show "bit m i = bit n i"
  proof cases
    case 1 then show ?thesis using * [of 0 i] by simp
  next
    case 2 then show ?thesis using * [of 8 "i - 8"] by simp
  next
    case 3 then show ?thesis using * [of 16 "i - 16"] by simp
  next
    case 4 then show ?thesis using * [of 24 "i - 24"] \<open>i < 32\<close> by simp
  qed
qed

text \<open>The bytes fed to SHA-256 determine tag and content: two different pairs never hash
  the same input, so only a digest collision can identify them.\<close>

theorem hash_input_unambiguous:
  assumes "length tag < 2 ^ 32" and "length tag' < 2 ^ 32"
    and "hash_input tag content = hash_input tag' content'"
  shows "tag = tag' \<and> content = content'"
proof -
  have "be32 (of_nat (length tag)) = be32 (of_nat (length tag'))"
    and rest: "tag @ content = tag' @ content'"
    using assms(3) by (auto simp: hash_input_def be32_def)
  then have "(of_nat (length tag) :: u32) = of_nat (length tag')" by (rule_tac be32_inj)
  then have "length tag = length tag'"
  proof -
    have "unat (of_nat n :: u32) = n" if "n < 2 ^ 32" for n
      using that by (simp add: unat_of_nat)
    with assms(1,2) show ?thesis
      using \<open>(of_nat (length tag) :: u32) = of_nat (length tag')\<close> by metis
  qed
  with rest show ?thesis by simp
qed


theorem hash_input_unambiguous_witness:
  "hash_input [117] [0, 88] \<noteq> hash_input [117, 0] [88]"
proof
  assume eq: "hash_input [117] [0, 88] = hash_input [117, 0] [88]"
  have "([117] :: byte list) = [117, 0] \<and> ([0, 88] :: byte list) = [88]"
    by (rule hash_input_unambiguous [OF _ _ eq]) simp_all
  then show False by simp
qed

subsection \<open>Windows\<close>

text \<open>Token and unit counts of the window loop, and what a shared leading byte prefix gives.\<close>

lemma chunk_loop_full_window:
  assumes "0 < n" and "off + n \<le> length content"
  shows "chunk_loop sha tag content n off =
    \<lparr>uHash = HashContent sha (if off > 0 then cont_tag else tag) (take n (drop off content)),
     uTokens = EstimateTokens (int n)\<rparr> # chunk_loop sha tag content n (off + n)"
proof -
  have "min (off + n) (length content) - off = n" and "min n (length content - off) = n"
    and "off < length content" using assms by auto
  with assms(1) show ?thesis by (simp add: chunk_loop.simps [of sha tag content n off] Let_def)
qed

lemma chunk_loop_prefix:
  assumes "take (off + k * n) content = take (off + k * n) content'"
    and "off + k * n \<le> length content" and "off + k * n \<le> length content'"
  shows "take k (chunk_loop sha tag content n off) = take k (chunk_loop sha tag content' n off)"
  using assms
proof (induction k arbitrary: off)
  case (Suc k)
  show ?case
  proof (cases "n = 0")
    case True
    then show ?thesis by (simp add: chunk_loop.simps)
  next
    case False
    have le: "off + n \<le> length content" "off + n \<le> length content'" using Suc.prems by auto
    have "take n (drop off content) = take n (drop off content')"
      using arg_cong [OF Suc.prems(1), of "\<lambda>xs. drop off (take (off + n) xs)"]
      by (simp add: min_def take_drop [symmetric] add.commute)
    moreover have "take k (chunk_loop sha tag content n (off + n)) =
        take k (chunk_loop sha tag content' n (off + n))"
      by (rule Suc.IH) (use Suc.prems in \<open>simp_all add: add.assoc\<close>)
    ultimately show ?thesis
      using False le by (simp add: chunk_loop_full_window)
  qed
qed simp

text \<open>Two contents that share their first \<open>k\<close> windows yield the same first \<open>k\<close> units, whatever
  follows: the property that lets a prefix tree credit the shared part.\<close>

theorem ChunkContent_shared_prefix:
  assumes "0 < n" and "content \<noteq> []" and "content' \<noteq> []"
    and "k * nat n \<le> length content" and "k * nat n \<le> length content'"
    and "take (k * nat n) content = take (k * nat n) content'"
  shows "take k (ChunkContent sha tag content n) = take k (ChunkContent sha tag content' n)"
  using chunk_loop_prefix [of 0 k "nat n" content content' sha tag] assms
  by (simp add: ChunkContent_def Let_def)

theorem ChunkContent_shared_prefix_witness:
  "take 1 (ChunkContent (\<lambda>bs. of_nat (length bs)) [7] [1, 2, 3, 4, 5] 4) =
   take 1 (ChunkContent (\<lambda>bs. of_nat (length bs)) [7] [1, 2, 3, 4, 9, 9] 4)"
  by (rule ChunkContent_shared_prefix) simp_all

end
