(* ===== verification/PrefixTree.thy ===== *)
theory PrefixTree
  imports MarkSet KvUnits "HOL-Library.AList" "HOL-Library.Multiset"
begin

text \<open>
  \<^verbatim>\<open>router/internal/policy/affinity/tree.go\<close>: the shared, cross-backend-marked prefix forest,
  definitions only. A \<open>run\<close> owns its children, so a parent pointer is the enclosing run and a
  \<^verbatim>\<open>*run\<close> held across mutations is the list of first hashes leading to it (\<open>lookup_at\<close>,
  \<open>update_at\<close>); membership of a live run in the pointer set \<^verbatim>\<open>shard.tails\<close> is its flag
  \<open>in_tails\<close>. Everything under one shard lock is one function of the shard. Where Go iterates a
  map, the visiting order is a parameter \<open>ord\<close> that permutes its argument.
\<close>

unbundle bit_operations_syntax

section \<open>Runs and their children\<close>

datatype run = Run
  (hashes: "u64 list")
  (tokens: "int list")
  (kids: "run list")
  (marks: markSet)
  (lastUsed: ns)
  (traffic: u64)
  (in_tails: bool)

primrec with_kids :: "run list \<Rightarrow> run \<Rightarrow> run" where
  "with_kids ks' (Run hs ts ks ms lu tr f) = Run hs ts ks' ms lu tr f"

primrec with_marks :: "markSet \<Rightarrow> run \<Rightarrow> run" where
  "with_marks ms' (Run hs ts ks ms lu tr f) = Run hs ts ks ms' lu tr f"

primrec with_tail :: "bool \<Rightarrow> run \<Rightarrow> run" where
  "with_tail f' (Run hs ts ks ms lu tr f) = Run hs ts ks ms lu tr f'"

text \<open>\<^verbatim>\<open>r.lastUsed, r.traffic = now, r.traffic+1\<close>.\<close>

primrec touch :: "ns \<Rightarrow> run \<Rightarrow> run" where
  "touch now (Run hs ts ks ms lu tr f) = Run hs ts ks ms now (tr + 1) f"

definition blocks :: "run \<Rightarrow> nat" where
  "blocks r = length (hashes r)"

definition first_hash :: "run \<Rightarrow> u64 option" where
  "first_hash r = (case hashes r of [] \<Rightarrow> None | h # _ \<Rightarrow> Some h)"

definition run_find :: "run \<Rightarrow> u64 \<Rightarrow> run option" where
  "run_find r h = lookup_kid first_hash (kids r) h"

definition run_link :: "run \<Rightarrow> run \<Rightarrow> run" where
  "run_link r c =
     (case first_hash c of None \<Rightarrow> r
      | Some h \<Rightarrow> with_kids (link_kid first_hash c h (kids r)) r)"

definition run_unlink :: "run \<Rightarrow> u64 \<Rightarrow> run" where
  "run_unlink r h = with_kids (unlink_kid first_hash h (kids r)) r"

text \<open>Writing through the pointer \<^verbatim>\<open>find(h)\<close> returned.\<close>

definition run_replace :: "run \<Rightarrow> u64 \<Rightarrow> run \<Rightarrow> run" where
  "run_replace r h c = with_kids (replace_kid first_hash c h (kids r)) r"

text \<open>The sentinel \<^verbatim>\<open>&run{}\<close> of a model.\<close>

definition sentinel :: run where
  "sentinel = Run [] [] [] empty_marks 0 0 False"

section \<open>Paths, shards and the forest\<close>

record rpath =
  units :: "kvunit list"
  modelKey :: u64

abbreviation path_hashes :: "kvunit list \<Rightarrow> u64 list" where
  "path_hashes us \<equiv> map uHash us"

text \<open>splitmix64's finalizer. \<^verbatim>\<open>p.units[0]\<close> panics on a path without units; every caller
  returns before reaching it in that case.\<close>

definition shardKey :: "rpath \<Rightarrow> u64" where
  "shardKey p =
     (let h0 = (case units p of [] \<Rightarrow> 0 | u # _ \<Rightarrow> uHash u) XOR modelKey p;
          h1 = h0 XOR drop_bit 30 h0;
          h2 = h1 * 0xbf58476d1ce4e5b9;
          h3 = h2 XOR drop_bit 27 h2;
          h4 = h3 * 0x94d049bb133111eb
      in h4 XOR drop_bit 31 h4)"

definition numShards :: nat where
  "numShards = 16"

record shard =
  roots :: "(u64 \<times> run) list"
  sh_runs :: int
  sh_blocks :: int
  sh_copies :: int
  sh_expired :: int

record tree =
  ttl :: ns
  shards :: "shard list"
  slots :: "(url \<times> int) list"
  free :: "int list"
  nextSl :: int

definition empty_shard :: shard where
  "empty_shard = \<lparr>roots = [], sh_runs = 0, sh_blocks = 0, sh_copies = 0, sh_expired = 0\<rparr>"

definition newTree :: "ns \<Rightarrow> tree" where
  "newTree d = \<lparr>ttl = d, shards = replicate numShards empty_shard, slots = [], free = [], nextSl = 0\<rparr>"

definition shardFor :: "rpath \<Rightarrow> nat" where
  "shardFor p = unat (shardKey p mod of_nat numShards)"

definition upd_shard :: "tree \<Rightarrow> nat \<Rightarrow> shard \<Rightarrow> tree" where
  "upd_shard t i sh = t\<lparr>shards := (shards t)[i := sh]\<rparr>"

section \<open>Slots\<close>

definition slotFor :: "tree \<Rightarrow> url \<Rightarrow> int \<times> tree" where
  "slotFor t u =
     (case map_of (slots t) u of
        Some s \<Rightarrow> (s, t)
      | None \<Rightarrow>
          (let (s, t1) =
             (if free t \<noteq> [] then (last (free t), t\<lparr>free := butlast (free t)\<rparr>)
              else (nextSl t, t\<lparr>nextSl := nextSl t + 1\<rparr>))
           in (s, t1\<lparr>slots := AList.update u s (slots t1)\<rparr>)))"

definition slot_of :: "tree \<Rightarrow> url \<Rightarrow> int option" where
  "slot_of t u = map_of (slots t) u"

definition slotOrCreate :: "tree \<Rightarrow> url \<Rightarrow> int \<times> tree" where
  "slotOrCreate t u = (case slot_of t u of Some s \<Rightarrow> (s, t) | None \<Rightarrow> slotFor t u)"

section \<open>Walk\<close>

record anchors =
  pool :: markSet
  held :: markSet
  matched :: nat
  anchorBlocks :: nat
  heldBlocks :: nat
  availDeepest :: bool

text \<open>The loop carries the deepest run held by a candidate and the deepest run held by anyone,
  each with the depth in blocks at which it was seen. Depths strictly increase along the walk,
  so equal depths is the source's pointer comparison \<^verbatim>\<open>avail == marked\<close>.\<close>

lemma run_find_match: "run_find cur h = Some c \<Longrightarrow> 0 < match_len (hashes c) (h # hs)"
  by (auto simp: run_find_def first_hash_def dest!: lookup_kid_mem split: list.splits)

lemma run_find_progress:
  "run_find cur h = Some c \<Longrightarrow> Suc n - match_len (hashes c) (h # hs) < Suc n"
  using run_find_match [of cur h c hs] by simp

function walk_loop :: "markSet \<Rightarrow> kvunit list \<Rightarrow> run \<Rightarrow> nat \<Rightarrow> (run \<times> nat) option \<Rightarrow>
    (run \<times> nat) option \<Rightarrow> nat \<times> (run \<times> nat) option \<times> (run \<times> nat) option" where
  "walk_loop cands us cur i avail marked =
     (case us of [] \<Rightarrow> (i, avail, marked)
      | u # _ \<Rightarrow>
         (case run_find cur (uHash u) of
            None \<Rightarrow> (i, avail, marked)
          | Some child \<Rightarrow>
             (let m = match_len (hashes child) (path_hashes us);
                  marked' = (if \<not> Empty (marks child) then Some (child, i + m) else marked);
                  avail' = (if \<not> Empty (marks child) \<and> Intersects (marks child) cands
                            then Some (child, i + m) else avail)
              in if m < blocks child then (i + m, avail', marked')
                 else walk_loop cands (drop m us) child (i + m) avail' marked')))"
  by pat_completeness auto
termination
  by (relation "measure (\<lambda>(cands, us, cur, i, a, k). length us)")
    (auto intro: run_find_progress simp del: match_len.simps)

declare walk_loop.simps [simp del]

definition no_anchors :: anchors where
  "no_anchors = \<lparr>pool = empty_marks, held = empty_marks, matched = 0, anchorBlocks = 0,
     heldBlocks = 0, availDeepest = False\<rparr>"

definition mk_anchors :: "nat \<times> (run \<times> nat) option \<times> (run \<times> nat) option \<Rightarrow> anchors" where
  "mk_anchors w =
     (case w of (i, avail, marked) \<Rightarrow>
       \<lparr>pool = (case avail of None \<Rightarrow> empty_marks | Some (r, _) \<Rightarrow> Clone (marks r)),
        held = (case marked of None \<Rightarrow> empty_marks | Some (r, _) \<Rightarrow> Clone (marks r)),
        matched = i,
        anchorBlocks = (case avail of None \<Rightarrow> 0 | Some (_, d) \<Rightarrow> d),
        heldBlocks = (case marked of None \<Rightarrow> 0 | Some (_, d) \<Rightarrow> d),
        availDeepest = (avail \<noteq> None \<and> map_option snd avail = map_option snd marked)\<rparr>)"

definition walk :: "tree \<Rightarrow> rpath \<Rightarrow> markSet \<Rightarrow> anchors" where
  "walk t p cands =
     (case map_of (roots (shards t ! shardFor p)) (modelKey p) of
        None \<Rightarrow> no_anchors
      | Some rt \<Rightarrow> mk_anchors (walk_loop cands (units p) rt 0 None None))"

function held_loop :: "int list \<Rightarrow> kvunit list \<Rightarrow> run \<Rightarrow> int \<Rightarrow> int list \<Rightarrow> int list" where
  "held_loop sl us cur cum out =
     (case us of [] \<Rightarrow> out
      | u # _ \<Rightarrow>
         (case run_find cur (uHash u) of
            None \<Rightarrow> out
          | Some child \<Rightarrow>
             (let m = match_len (hashes child) (path_hashes us);
                  cum' = cum + token_sum (take m us);
                  out' = map2 (\<lambda>s v. if Has (marks child) s then cum' else v) sl out
              in if m < blocks child then out'
                 else held_loop sl (drop m us) child cum' out')))"
  by pat_completeness auto
termination
  by (relation "measure (\<lambda>(sl, us, cur, cum, out). length us)")
    (auto intro: run_find_progress simp del: match_len.simps)

declare held_loop.simps [simp del]

definition heldTokens :: "tree \<Rightarrow> rpath \<Rightarrow> int list \<Rightarrow> int list" where
  "heldTokens t p sl =
     (let out = replicate (length sl) 0 in
      case map_of (roots (shards t ! shardFor p)) (modelKey p) of
        None \<Rightarrow> out
      | Some rt \<Rightarrow> held_loop sl (units p) rt 0 out)"


section \<open>Commit\<close>

text \<open>\<^verbatim>\<open>splitRun(r, m)\<close> with \<open>parent\<close> the run that owns \<open>r\<close>: the new parent, the upper half and
  the shard. The child is unlinked before its hashes are re-sliced, then the upper half takes
  its place and adopts the lower half.\<close>

definition splitRun :: "run \<Rightarrow> run \<Rightarrow> nat \<Rightarrow> shard \<Rightarrow> run \<times> run \<times> shard" where
  "splitRun parent r m sh =
     (let parent1 = (case first_hash r of None \<Rightarrow> parent | Some h \<Rightarrow> run_unlink parent h);
          upper = Run (take m (hashes r)) (take m (tokens r)) [] (Clone (marks r)) (lastUsed r) (traffic r) False;
          lower = (case r of Run hs ts ks ms lu tr f \<Rightarrow> Run (drop m hs) (drop m ts) ks ms lu tr f);
          upper1 = run_link upper lower
      in (run_link parent1 upper1, upper1, sh\<lparr>sh_runs := sh_runs sh + 1\<rparr>))"

definition extend_tail :: "ns \<Rightarrow> kvunit list \<Rightarrow> run \<Rightarrow> run" where
  "extend_tail now us r =
     (case r of Run hs ts ks ms lu tr f \<Rightarrow>
       touch now (Run (hs @ path_hashes us) (ts @ map uTokens us) ks ms lu tr f))"

definition new_run :: "int \<Rightarrow> ns \<Rightarrow> kvunit list \<Rightarrow> run" where
  "new_run slot now us =
     Run (path_hashes us) (map uTokens us) [] (Add empty_marks slot) now 1 True"

text \<open>One turn of the loop of \<^verbatim>\<open>commit\<close> at \<open>cur\<close> with the units still to place. \<open>isroot\<close> is
  \<^verbatim>\<open>cur.parent == nil\<close>; the recursion returns the updated \<open>cur\<close>, the blocks the backend already
  held, and the shard with its counters.\<close>

function commit_run :: "int \<Rightarrow> ns \<Rightarrow> bool \<Rightarrow> kvunit list \<Rightarrow> bool \<Rightarrow> run \<Rightarrow> shard \<Rightarrow> run \<times> nat \<times> shard" where
  "commit_run slot now isroot us broken cur sh =
     (case us of [] \<Rightarrow> (cur, 0, sh)
      | u # _ \<Rightarrow>
         (case run_find cur (uHash u) of
            None \<Rightarrow>
              (if \<not> isroot \<and> kids cur = [] \<and> Count (marks cur) = 1 \<and> Has (marks cur) slot then
                 (extend_tail now us cur, 0,
                  sh\<lparr>sh_blocks := sh_blocks sh + int (length us),
                     sh_copies := sh_copies sh + int (length us)\<rparr>)
               else
                 (let nr = new_run slot now us
                  in (with_tail False (run_link cur nr), 0,
                      sh\<lparr>sh_runs := sh_runs sh + 1,
                         sh_blocks := sh_blocks sh + int (blocks nr),
                         sh_copies := sh_copies sh + int (blocks nr)\<rparr>)))
          | Some child \<Rightarrow>
              (let m = match_len (hashes child) (path_hashes us);
                   (cur1, child1, sh1) =
                     (if m < blocks child then splitRun cur child m sh else (cur, child, sh));
                   had = Has (marks child1) slot;
                   hit = (if \<not> broken \<and> had then m else 0);
                   child2 = (if had then child1 else with_marks (Add (marks child1) slot) child1);
                   sh2 = (if had then sh1
                          else sh1\<lparr>sh_copies := sh_copies sh1 + int (blocks child1)\<rparr>);
                   (child', hit', sh') =
                     commit_run slot now False (drop m us) (broken \<or> \<not> had) (touch now child2) sh2
               in (run_replace cur1 (uHash u) child', hit + hit', sh'))))"
  by pat_completeness auto
termination
  by (relation "measure (\<lambda>(slot, now, isroot, us, broken, cur, sh). length us)")
    (auto intro: run_find_progress simp del: match_len.simps)

declare commit_run.simps [simp del]

definition commit :: "ns \<Rightarrow> tree \<Rightarrow> rpath \<Rightarrow> int \<Rightarrow> nat \<times> tree" where
  "commit now t p slot =
     (let i = shardFor p; sh = shards t ! i;
          rt = (case map_of (roots sh) (modelKey p) of None \<Rightarrow> sentinel | Some r \<Rightarrow> r);
          (rt', hit, sh') = commit_run slot now True (units p) False rt sh
      in (hit, upd_shard t i (sh'\<lparr>roots := AList.update (modelKey p) rt' (roots sh)\<rparr>)))"

section \<open>Eviction\<close>

text \<open>A \<^verbatim>\<open>*run\<close> kept across mutations: its model key and the first hashes of the runs from the
  sentinel's child down to it.\<close>

type_synonym run_ref = "u64 \<times> u64 list"

fun lookup_at :: "run \<Rightarrow> u64 list \<Rightarrow> run option" where
  "lookup_at r [] = Some r"
| "lookup_at r (h # hs) = (case run_find r h of None \<Rightarrow> None | Some c \<Rightarrow> lookup_at c hs)"

fun update_at :: "(run \<Rightarrow> run) \<Rightarrow> run \<Rightarrow> u64 list \<Rightarrow> run" where
  "update_at f r [] = f r"
| "update_at f r (h # hs) =
     (case run_find r h of None \<Rightarrow> r | Some c \<Rightarrow> run_replace r h (update_at f c hs))"

text \<open>The run a reference denotes; \<open>None\<close> once it is detached (\<^verbatim>\<open>r.parent == nil\<close>).\<close>

definition deref :: "shard \<Rightarrow> run_ref \<Rightarrow> run option" where
  "deref sh ref =
     (if snd ref = [] then None
      else case map_of (roots sh) (fst ref) of None \<Rightarrow> None | Some rt \<Rightarrow> lookup_at rt (snd ref))"

text \<open>The members of \<^verbatim>\<open>shard.tails\<close>.\<close>

fun tail_keys :: "run \<Rightarrow> u64 list list" where
  "tail_keys (Run hs ts ks ms lu tr f) =
     (case hs of [] \<Rightarrow> []
      | h # _ \<Rightarrow> (if f then [[h]] else []) @ map ((#) h) (concat (map tail_keys ks)))"

definition tails :: "shard \<Rightarrow> run_ref list" where
  "tails sh = concat (map (\<lambda>(mk, rt). map (Pair mk) (concat (map tail_keys (kids rt)))) (roots sh))"

definition dropRoot :: "shard \<Rightarrow> u64 \<Rightarrow> shard" where
  "dropRoot sh mk = sh\<lparr>roots := AList.delete mk (roots sh)\<rparr>"

definition unlinkRun :: "shard \<Rightarrow> run_ref \<Rightarrow> shard \<times> run_ref option" where
  "unlinkRun sh ref =
     (case (map_of (roots sh) (fst ref), deref sh ref) of
        (Some rt, Some r) \<Rightarrow>
          (let n = int (blocks r); mk = fst ref; pk = butlast (snd ref);
               rt1 = update_at (\<lambda>p. run_unlink p (last (snd ref))) rt pk;
               sh1 = sh\<lparr>sh_copies := sh_copies sh - n * int (Count (marks r)),
                        sh_blocks := sh_blocks sh - n,
                        sh_runs := sh_runs sh - 1,
                        sh_expired := sh_expired sh + n,
                        roots := AList.update mk rt1 (roots sh)\<rparr>
           in if pk = [] then
                ((if kids rt1 = [] then dropRoot sh1 mk else sh1), None)
              else
                ((case lookup_at rt1 pk of
                    Some p \<Rightarrow>
                      (if kids p = []
                       then sh1\<lparr>roots := AList.update mk (update_at (with_tail True) rt1 pk) (roots sh1)\<rparr>
                       else sh1)
                  | None \<Rightarrow> sh1),
                 Some (mk, pk)))
      | _ \<Rightarrow> (sh, None))"

definition maxCascade :: nat where
  "maxCascade = 4096"

function evictTail :: "ns \<Rightarrow> ns \<Rightarrow> nat \<Rightarrow> shard \<Rightarrow> run_ref \<Rightarrow> int \<times> shard" where
  "evictTail now d depth sh ref =
     (if depth < maxCascade then
        (case deref sh ref of
           None \<Rightarrow> (0, sh)
         | Some r \<Rightarrow>
            (if kids r \<noteq> [] then (0, sh)
             else
               (let (sh1, p) = unlinkRun sh ref in
                case p of
                  None \<Rightarrow> (int (blocks r), sh1)
                | Some pref \<Rightarrow>
                   (case deref sh1 pref of
                      None \<Rightarrow> (int (blocks r), sh1)
                    | Some pr \<Rightarrow>
                        (if kids pr \<noteq> [] \<or> now - lastUsed pr \<le> d then (int (blocks r), sh1)
                         else
                           (let (freed, sh2) = evictTail now d (Suc depth) sh1 pref
                            in (int (blocks r) + freed, sh2)))))))
      else (0, sh))"
  by pat_completeness auto
termination
  by (relation "measure (\<lambda>(now, d, depth, sh, ref). maxCascade - depth)") auto

declare evictTail.simps [simp del]

definition sweep_shard :: "(run_ref list \<Rightarrow> run_ref list) \<Rightarrow> ns \<Rightarrow> ns \<Rightarrow> shard \<Rightarrow> int \<times> shard" where
  "sweep_shard ord now d sh =
     (let dead = filter (\<lambda>ref. case deref sh ref of None \<Rightarrow> False
                                | Some r \<Rightarrow> now - lastUsed r > d) (ord (tails sh))
      in fold (\<lambda>ref (freed, sh). let (f, sh') = evictTail now d 0 sh ref in (freed + f, sh'))
           dead (0, sh))"

definition sweep :: "(run_ref list \<Rightarrow> run_ref list) \<Rightarrow> ns \<Rightarrow> tree \<Rightarrow> int \<times> tree" where
  "sweep ord now t =
     (let res = map (sweep_shard ord now (ttl t)) (shards t)
      in (sum_list (map fst res), t\<lparr>shards := map snd res\<rparr>))"


section \<open>Dropping a backend\<close>

text \<open>\<^verbatim>\<open>clearSlot\<close> threads \<^verbatim>\<open>s.copies\<close>; a sentinel (\<^verbatim>\<open>r.parent == nil\<close>) is never marked.\<close>

fun clearSlot :: "int \<Rightarrow> bool \<Rightarrow> run \<Rightarrow> int \<Rightarrow> run \<times> int"
  and clearSlots :: "int \<Rightarrow> run list \<Rightarrow> int \<Rightarrow> run list \<times> int" where
  "clearSlot s isroot (Run hs ts ks ms lu tr f) c =
     (let (ms', c') = (if \<not> isroot \<and> Has ms s then (Remove ms s, c - int (length hs)) else (ms, c));
          (ks', c'') = clearSlots s ks c'
      in (Run hs ts ks' ms' lu tr f, c''))"
| "clearSlots s [] c = ([], c)"
| "clearSlots s (k # ks) c =
     (let (k', c') = clearSlot s False k c; (ks', c'') = clearSlots s ks c'
      in (k' # ks', c''))"

fun clear_roots :: "int \<Rightarrow> (u64 \<times> run) list \<Rightarrow> int \<Rightarrow> (u64 \<times> run) list \<times> int" where
  "clear_roots s [] c = ([], c)"
| "clear_roots s ((mk, rt) # rs) c =
     (let (rt', c') = clearSlot s True rt c; (rs', c'') = clear_roots s rs c'
      in ((mk, rt') # rs', c''))"

text \<open>The loop of \<^verbatim>\<open>evictOrphans\<close>, with fuel; \<open>None\<close> is running out of it.\<close>

fun evictOrphans :: "(run_ref list \<Rightarrow> run_ref list) \<Rightarrow> nat \<Rightarrow> shard \<Rightarrow> shard option" where
  "evictOrphans ord 0 sh = None"
| "evictOrphans ord (Suc fuel) sh =
     (let dead = filter (\<lambda>ref. case deref sh ref of None \<Rightarrow> False | Some r \<Rightarrow> Empty (marks r))
                   (ord (tails sh))
      in if dead = [] then Some sh
         else evictOrphans ord fuel (fold (\<lambda>ref sh. fst (unlinkRun sh ref)) dead sh))"

definition drop_shard :: "(run_ref list \<Rightarrow> run_ref list) \<Rightarrow> nat \<Rightarrow> int \<Rightarrow> shard \<Rightarrow> shard option" where
  "drop_shard ord fuel s sh =
     (let (rs, c) = clear_roots s (roots sh) (sh_copies sh)
      in evictOrphans ord fuel (sh\<lparr>roots := rs, sh_copies := c\<rparr>))"

text \<open>\<^verbatim>\<open>dropBackend\<close> frees the slot only after its marks are gone.\<close>

definition dropBackend :: "(run_ref list \<Rightarrow> run_ref list) \<Rightarrow> nat \<Rightarrow> tree \<Rightarrow> url \<Rightarrow> tree option" where
  "dropBackend ord fuel t u =
     (case map_of (slots t) u of
        None \<Rightarrow> Some t
      | Some s \<Rightarrow>
          (let t1 = t\<lparr>slots := AList.delete u (slots t)\<rparr>;
               shs = map (drop_shard ord fuel s) (shards t1)
           in if None \<in> set shs then None
              else Some (t1\<lparr>shards := map the shs, free := free t1 @ [s]\<rparr>)))"

section \<open>Reset and statistics\<close>

definition flush_shard :: "shard \<Rightarrow> shard" where
  "flush_shard sh = sh\<lparr>roots := [], sh_runs := 0, sh_blocks := 0, sh_copies := 0\<rparr>"

definition flush :: "tree \<Rightarrow> tree" where
  "flush t = t\<lparr>shards := map flush_shard (shards t)\<rparr>"

record treeStats =
  st_Runs :: int
  st_Blocks :: int
  st_Tails :: int
  st_Expired :: int
  st_Copies :: int

text \<open>\<^verbatim>\<open>stats\<close>; \<^verbatim>\<open>AvgCopies\<close> is the quotient of \<open>st_Copies\<close> and \<open>st_Blocks\<close> when the latter is
  positive, 0 otherwise.\<close>

definition stats :: "tree \<Rightarrow> treeStats" where
  "stats t =
     \<lparr>st_Runs = (\<Sum>sh\<leftarrow>shards t. sh_runs sh), st_Blocks = (\<Sum>sh\<leftarrow>shards t. sh_blocks sh),
      st_Tails = (\<Sum>sh\<leftarrow>shards t. int (length (tails sh))),
      st_Expired = (\<Sum>sh\<leftarrow>shards t. sh_expired sh), st_Copies = (\<Sum>sh\<leftarrow>shards t. sh_copies sh)\<rparr>"

record backendStats =
  bs_Runs :: int
  bs_Blocks :: int
  bs_Tokens :: int

definition no_stats :: backendStats where
  "no_stats = \<lparr>bs_Runs = 0, bs_Blocks = 0, bs_Tokens = 0\<rparr>"

definition bump_stats :: "run \<Rightarrow> int \<Rightarrow> (int \<rightharpoonup> backendStats) \<Rightarrow> (int \<rightharpoonup> backendStats)" where
  "bump_stats r s out =
     (let bs = (case out s of None \<Rightarrow> no_stats | Some b \<Rightarrow> b)
      in out(s \<mapsto> bs\<lparr>bs_Runs := bs_Runs bs + 1, bs_Blocks := bs_Blocks bs + int (blocks r),
                   bs_Tokens := bs_Tokens bs + sum_list (tokens r)\<rparr>))"

fun collectPerSlot :: "bool \<Rightarrow> run \<Rightarrow> (int \<rightharpoonup> backendStats) \<Rightarrow> (int \<rightharpoonup> backendStats)" where
  "collectPerSlot isroot (Run hs ts ks ms lu tr f) out =
     (let r = Run hs ts ks ms lu tr f;
          out1 = (if \<not> isroot \<and> \<not> Empty ms then fold (bump_stats r) (Each ms) out else out)
      in fold (collectPerSlot False) ks out1)"

definition perBackend :: "tree \<Rightarrow> (url \<times> backendStats) list" where
  "perBackend t =
     (let bySlot = fold (\<lambda>sh out. fold (\<lambda>(mk, rt). collectPerSlot True rt) (roots sh) out)
                     (shards t) Map.empty
      in map (\<lambda>(u, s). (u, case bySlot s of Some bs \<Rightarrow> bs | None \<Rightarrow> no_stats)) (slots t))"

end
