(* ===== verification/TreeShape.thy ===== *)
theory TreeShape
  imports PrefixTree
begin

text \<open>
  What a prefix tree means and when it is well formed. \<open>holds r q\<close> is the abstraction of
  \<^verbatim>\<open>tree.go\<close>: the set of backends recorded as holding the block sequence \<open>q\<close>, whatever runs
  the tree cuts it into. \<open>wf_run\<close> is the structural invariant: non-empty runs, sorted children,
  every run held by someone, a child's holders among its parent's, the tail flag exactly on the
  childless runs. The update lemmas here (split, mark, replace, link) are what the proofs about
  commit, walk and eviction are assembled from.
\<close>

lemma with_kids_sel [simp]:
  "hashes (with_kids ks r) = hashes r" "tokens (with_kids ks r) = tokens r" "kids (with_kids ks r) = ks"
  "marks (with_kids ks r) = marks r" "lastUsed (with_kids ks r) = lastUsed r"
  "in_tails (with_kids ks r) = in_tails r"
  by (cases r; simp)+

lemma with_marks_sel [simp]:
  "hashes (with_marks ms r) = hashes r" "tokens (with_marks ms r) = tokens r" "kids (with_marks ms r) = kids r"
  "marks (with_marks ms r) = ms" "lastUsed (with_marks ms r) = lastUsed r"
  "in_tails (with_marks ms r) = in_tails r"
  by (cases r; simp)+

lemma with_tail_sel [simp]:
  "hashes (with_tail f r) = hashes r" "tokens (with_tail f r) = tokens r" "kids (with_tail f r) = kids r"
  "marks (with_tail f r) = marks r" "lastUsed (with_tail f r) = lastUsed r" "in_tails (with_tail f r) = f"
  by (cases r; simp)+

lemma touch_sel [simp]:
  "hashes (touch now r) = hashes r" "tokens (touch now r) = tokens r" "kids (touch now r) = kids r"
  "marks (touch now r) = marks r" "lastUsed (touch now r) = now" "in_tails (touch now r) = in_tails r"
  by (cases r; simp)+

lemma first_hash_Some: "first_hash r = Some h \<longleftrightarrow> (\<exists>hs. hashes r = h # hs)"
  by (auto simp: first_hash_def split: list.splits)

lemma first_hash_cong: "hashes r = hashes s \<Longrightarrow> first_hash r = first_hash s"
  by (simp add: first_hash_def)

section \<open>The child index of a run\<close>

interpretation rk: child_index first_hash "kids_sorted first_hash" "lookup_kid first_hash"
  "link_kid first_hash" "unlink_kid first_hash" "replace_kid first_hash"
  by unfold_locales
    (auto simp: index_simps wf_intros dest: lookup_kid_mem)

lemma run_find_mem: "run_find r h = Some c \<Longrightarrow> c \<in> set (kids r) \<and> first_hash c = Some h"
  unfolding run_find_def by (rule lookup_kid_mem)

lemma run_find_iff:
  "kids_sorted first_hash (kids r) \<Longrightarrow> run_find r h = Some c \<longleftrightarrow> c \<in> set (kids r) \<and> first_hash c = Some h"
  unfolding run_find_def by (rule lookup_kid_iff)

lemma run_find_size: "run_find r h = Some c \<Longrightarrow> size c < size r"
  by (cases r) (auto dest!: run_find_mem size_list_estimation' [OF _ order_refl, of _ _ size])

section \<open>Which backends hold a block sequence\<close>

function holds :: "run \<Rightarrow> u64 list \<Rightarrow> int set" where
  "holds r q =
     (let m = match_len (hashes r) q in
      if m = length q then holders (marks r)
      else if m < blocks r then {}
      else case run_find r (q ! m) of None \<Rightarrow> {} | Some c \<Rightarrow> holds c (drop m q))"
  by pat_completeness auto
termination
  by (relation "measure (\<lambda>(r, q). size r)") (auto dest: run_find_size)

declare holds.simps [simp del]

lemma holds_prefix: "prefix q (hashes r) \<Longrightarrow> holds r q = holders (marks r)"
  by (subst holds.simps) (simp add: match_len_full2 [symmetric])

lemma holds_beyond:
  "holds r (hashes r @ h # q) = (case run_find r h of None \<Rightarrow> {} | Some c \<Rightarrow> holds c (h # q))"
  by (subst holds.simps) (simp add: blocks_def Let_def nth_append split: option.split)

lemma holds_diverge:
  "\<not> prefix q (hashes r) \<Longrightarrow> \<not> prefix (hashes r) q \<Longrightarrow> holds r q = {}"
proof -
  assume "\<not> prefix q (hashes r)" "\<not> prefix (hashes r) q"
  then have "match_len (hashes r) q \<noteq> length q" "match_len (hashes r) q < blocks r"
    using match_len_le1 [of "hashes r" q]
    by (auto simp: match_len_full2 match_len_full blocks_def order.strict_iff_order)
  then show ?thesis by (subst holds.simps) (simp add: Let_def)
qed

text \<open>Every query is one of three: inside the run, past it through a child, or off it.\<close>

lemma query_cases [case_names inside beyond off]:
  assumes "prefix q hs \<Longrightarrow> P"
    and "\<And>h q'. q = hs @ h # q' \<Longrightarrow> P"
    and "\<not> prefix q hs \<Longrightarrow> \<not> prefix hs q \<Longrightarrow> P"
  shows P
proof (cases "prefix hs q")
  case True
  then obtain z where z: "q = hs @ z" by (auto simp: prefix_def)
  then show ?thesis using assms(1,2) by (cases z) auto
qed (use assms in blast)

lemma holds_cong:
  assumes "hashes r = hashes s" and "holders (marks r) = holders (marks s)" and "kids r = kids s"
  shows "holds r q = holds s q"
proof -
  have "run_find r = run_find s" and "blocks r = blocks s"
    using assms by (auto simp: run_find_def blocks_def)
  with assms(1,2) show ?thesis by (simp add: holds.simps [of r] holds.simps [of s] Let_def)
qed

lemma holds_touch [simp]: "holds (touch now r) q = holds r q"
  by (rule holds_cong) simp_all

lemma holds_with_tail [simp]: "holds (with_tail f r) q = holds r q"
  by (rule holds_cong) simp_all

lemma holds_with_marks:
  "holds (with_marks ms r) q = (if prefix q (hashes r) then holders ms else holds r q)"
proof (cases q "hashes r" rule: query_cases)
  case (beyond h q')
  have "run_find (with_marks ms r) h = run_find r h" by (simp add: run_find_def)
  with beyond show ?thesis
    using holds_beyond [of "with_marks ms r" h q'] holds_beyond [of r h q'] by auto
qed (simp_all add: holds_prefix holds_diverge)

section \<open>Well-formedness\<close>

fun wf_run :: "run \<Rightarrow> bool" where
  "wf_run (Run hs ts ks ms lu tr f) \<longleftrightarrow>
     hs \<noteq> [] \<and> length ts = length hs \<and> holders ms \<noteq> {} \<and> f = (ks = []) \<and>
     kids_sorted first_hash ks \<and> (\<forall>k\<in>set ks. wf_run k \<and> holders (marks k) \<subseteq> holders ms)"

definition wf_root :: "run \<Rightarrow> bool" where
  "wf_root r \<longleftrightarrow> hashes r = [] \<and> marks r = empty_marks \<and> \<not> in_tails r \<and>
     kids_sorted first_hash (kids r) \<and> (\<forall>k\<in>set (kids r). wf_run k)"

lemma wf_run_sel:
  "wf_run r \<longleftrightarrow> hashes r \<noteq> [] \<and> length (tokens r) = length (hashes r) \<and> holders (marks r) \<noteq> {} \<and>
     in_tails r = (kids r = []) \<and> kids_sorted first_hash (kids r) \<and>
     (\<forall>k\<in>set (kids r). wf_run k \<and> holders (marks k) \<subseteq> holders (marks r))"
  by (cases r) auto

declare wf_run.simps [simp del]

definition wf_cur :: "bool \<Rightarrow> run \<Rightarrow> bool" where
  "wf_cur isroot r = (if isroot then wf_root r else wf_run r)"

lemma wf_cur_kids:
  assumes "wf_cur isroot r"
  shows "kids_sorted first_hash (kids r)" and "k \<in> set (kids r) \<Longrightarrow> wf_run k"
    and "k \<in> set (kids r) \<Longrightarrow> \<not> isroot \<Longrightarrow> holders (marks k) \<subseteq> holders (marks r)"
  using assms by (auto simp: wf_cur_def wf_root_def wf_run_sel [of r] split: if_splits)

lemma wf_run_touch [simp]: "wf_run (touch now r) = wf_run r"
  by (simp add: wf_run_sel [of r] wf_run_sel [of "touch now r"])

lemma wf_find: "wf_cur isroot r \<Longrightarrow> run_find r h = Some c \<Longrightarrow> wf_run c"
  by (auto dest!: run_find_mem wf_cur_kids(2))

lemma run_find_holds_cons: "run_find r h = Some c \<Longrightarrow> prefix [h] (hashes c)"
  by (auto dest!: run_find_mem simp: first_hash_Some)

text \<open>Induction along child lookups.\<close>

lemma run_find_induct [case_names step]:
  assumes "\<And>r. (\<And>h c. run_find r h = Some c \<Longrightarrow> P c) \<Longrightarrow> P r"
  shows "P r"
  by (induction r rule: measure_induct_rule [of size]) (use assms run_find_size in blast)

lemma holds_within: "wf_run r \<Longrightarrow> holds r q \<subseteq> holders (marks r)"
proof (induction r arbitrary: q rule: run_find_induct)
  case (step r)
  show ?case
  proof (cases q "hashes r" rule: query_cases)
    case (beyond h q')
    show ?thesis
    proof (cases "run_find r h")
      case (Some c)
      then have "wf_run c" "holders (marks c) \<subseteq> holders (marks r)"
        using step.prems by (auto dest!: run_find_mem simp: wf_run_sel [of r])
      with Some step.IH [OF Some, of "h # q'"] show ?thesis by (auto simp: beyond holds_beyond)
    qed (simp add: beyond holds_beyond)
  qed (simp_all add: holds_prefix holds_diverge)
qed

text \<open>A longer block sequence has fewer holders.\<close>

lemma holds_antimono: "wf_run r \<Longrightarrow> holds r (q @ z) \<subseteq> holds r q"
proof (induction r arbitrary: q rule: run_find_induct)
  case (step r)
  show ?case
  proof (cases q "hashes r" rule: query_cases)
    case inside
    then show ?thesis using holds_within [OF step.prems] by (simp add: holds_prefix)
  next
    case (beyond h q')
    show ?thesis
    proof (cases "run_find r h")
      case (Some c)
      then have "wf_run c" using step.prems by (auto dest!: run_find_mem simp: wf_run_sel [of r])
      with Some step.IH [OF Some, of "h # q'"] show ?thesis
        using holds_beyond [of r h "q' @ z"] by (simp add: beyond holds_beyond)
    qed (use holds_beyond [of r h "q' @ z"] in \<open>simp add: beyond\<close>)
  next
    case off
    then have "\<not> prefix (q @ z) (hashes r)" and "\<not> prefix (hashes r) (q @ z)"
      by (auto dest: append_prefixD prefix_same_cases [OF _ prefixI])
    then show ?thesis by (simp add: holds_diverge)
  qed
qed

lemma holds_root_antimono:
  assumes "wf_root r" and "q \<noteq> []"
  shows "holds r (q @ z) \<subseteq> holds r q"
proof -
  obtain h q' where q: "q = h # q'" using assms(2) by (cases q) auto
  have hs: "hashes r = []" using assms(1) by (simp add: wf_root_def)
  show ?thesis
  proof (cases "run_find r h")
    case None
    then show ?thesis using holds_beyond [of r h "q' @ z"] hs by (simp add: q)
  next
    case (Some c)
    then have "wf_run c" using assms(1) by (auto dest!: run_find_mem simp: wf_root_def)
    with Some show ?thesis
      using holds_beyond [of r h "q' @ z"] holds_beyond [of r h q'] hs holds_antimono [of c "h # q'" z]
      by (simp add: q)
  qed
qed

section \<open>Updates and their effect on the abstraction\<close>

lemma match_len_append_same: "match_len (xs @ ys) (xs @ zs) = length xs + match_len ys zs"
  by (induction xs) auto

text \<open>Dropping the first \<open>m\<close> blocks of a run shifts its queries.\<close>

lemma holds_lower:
  "holds (Run (drop m hs) ts ks ms lu tr f) q = holds (Run hs ts' ks ms lu tr f) (take m hs @ q)"
  (is "holds ?l q = holds ?r _")
proof (cases q "drop m hs" rule: query_cases)
  case inside
  then have "prefix (take m hs @ q) (take m hs @ drop m hs)" by (simp only: same_prefix_prefix)
  with inside show ?thesis by (simp add: holds_prefix)
next
  case (beyond h q')
  have "run_find ?l h = run_find ?r h" by (simp add: run_find_def)
  moreover have "holds ?l q = (case run_find ?l h of None \<Rightarrow> {} | Some c \<Rightarrow> holds c (h # q'))"
    using holds_beyond [of ?l h q'] by (simp add: beyond)
  moreover have "take m hs @ q = hashes ?r @ h # q'" by (simp add: beyond)
  then have "holds ?r (take m hs @ q) = (case run_find ?r h of None \<Rightarrow> {} | Some c \<Rightarrow> holds c (h # q'))"
    by (simp only: holds_beyond)
  ultimately show ?thesis by simp
next
  case off
  then have "\<not> prefix (take m hs @ q) (take m hs @ drop m hs)"
    and "\<not> prefix (take m hs @ drop m hs) (take m hs @ q)"
    by (simp_all only: same_prefix_prefix not_False_eq_True)
  with off show ?thesis by (simp add: holds_diverge)
qed

lemma find_single_kid:
  "first_hash c = Some h \<Longrightarrow> kids r = [c] \<Longrightarrow> run_find r h' = (if h' = h then Some c else None)"
  by (auto simp: run_find_def lookup_kid_def find_kid_def lower_bound.simps Let_def)

text \<open>The upper half \<^verbatim>\<open>splitRun\<close> makes of a run, with the lower half as its only child.\<close>

definition split_upper :: "run \<Rightarrow> nat \<Rightarrow> run" where
  "split_upper r m = fst (snd (splitRun sentinel r m empty_shard))"

lemma split_upper_eq:
  assumes "m < blocks r"
  shows "split_upper r m =
    Run (take m (hashes r)) (take m (tokens r))
      [Run (drop m (hashes r)) (drop m (tokens r)) (kids r) (marks r) (lastUsed r) (traffic r) (in_tails r)]
      (marks r) (lastUsed r) (traffic r) False"
  using assms
  by (cases r)
    (auto simp: split_upper_def splitRun_def Let_def run_link_def first_hash_def blocks_def Clone_eq
      link_kid_def split: list.splits)

lemma splitRun_eq:
  "splitRun p r m sh =
    (run_link (case first_hash r of None \<Rightarrow> p | Some h \<Rightarrow> run_unlink p h) (split_upper r m),
     split_upper r m, sh\<lparr>sh_runs := sh_runs sh + 1\<rparr>)"
  by (simp add: splitRun_def split_upper_def Let_def)

lemma holds_split_upper:
  assumes "m < blocks r"
  shows "holds (split_upper r m) q = holds r q"
proof -
  let ?u = "split_upper r m"
  let ?l = "Run (drop m (hashes r)) (drop m (tokens r)) (kids r) (marks r) (lastUsed r) (traffic r) (in_tails r)"
  have hs: "hashes ?u = take m (hashes r)" "marks ?u = marks r" "kids ?u = [?l]"
    by (simp_all add: split_upper_eq [OF assms])
  have fl: "first_hash ?l = Some (hashes r ! m)"
    using assms by (simp add: first_hash_def blocks_def Cons_nth_drop_Suc [symmetric])
  have pre: "prefix (take m (hashes r)) (hashes r)" by (rule take_is_prefix)
  show ?thesis
  proof (cases q "hashes ?u" rule: query_cases)
    case inside
    then have "prefix q (hashes r)" using pre hs(1) by (metis prefix_order.trans)
    with inside show ?thesis by (simp add: holds_prefix hs)
  next
    case (beyond h q')
    have "holds ?u q = (if h = hashes r ! m then holds ?l (h # q') else {})"
      using beyond holds_beyond [of ?u h q'] find_single_kid [OF fl hs(3), of h] by simp
    also have "\<dots> = holds r q"
    proof (cases "h = hashes r ! m")
      case True
      then show ?thesis
        using beyond hs(1) holds_lower [of m "hashes r" "drop m (tokens r)" "kids r" "marks r"
            "lastUsed r" "traffic r" "in_tails r" "h # q'" "tokens r"]
        by (cases r) simp
    next
      case False
      have "hashes r = take m (hashes r) @ hashes r ! m # drop (Suc m) (hashes r)"
        using assms by (simp add: blocks_def id_take_nth_drop)
      then have "\<not> prefix q (hashes r)" "\<not> prefix (hashes r) q"
        using False beyond hs(1) by (metis Cons_prefix_Cons same_prefix_prefix)+
      with False show ?thesis by (simp add: holds_diverge)
    qed
    finally show ?thesis .
  next
    case off
    then have "\<not> prefix q (hashes r)" "\<not> prefix (hashes r) q"
      using pre hs(1) by (metis prefix_same_cases, metis prefix_order.trans)
    with off show ?thesis by (simp add: holds_diverge)
  qed
qed


lemma wf_split_upper:
  assumes "wf_run r" and "0 < m" and "m < blocks r"
  shows "wf_run (split_upper r m)"
proof -
  have "kids_sorted first_hash [c]" if "first_hash c \<noteq> None" for c
    using that by (simp add: kids_sorted_def)
  then show ?thesis
    using assms
    by (auto simp: split_upper_eq wf_run_sel [of r] wf_run.simps blocks_def first_hash_def split: list.splits)
qed

lemma split_upper_sel:
  assumes "m < blocks r"
  shows "hashes (split_upper r m) = take m (hashes r)" "marks (split_upper r m) = marks r"
    "kids (split_upper r m) \<noteq> []"
  by (simp_all add: split_upper_eq [OF assms])

text \<open>Replacing, linking and unlinking a child, seen through lookups.\<close>

lemma run_find_replace:
  assumes "kids_sorted first_hash (kids r)" and "run_find r h = Some b" and "first_hash c = Some h"
  shows "run_find (run_replace r h c) h' = (if h' = h then Some c else run_find r h')"
  using assms rk.lookup_replace by (simp add: run_find_def run_replace_def)

lemma run_find_link:
  assumes "kids_sorted first_hash (kids r)" and "run_find r h = None" and "first_hash c = Some h"
  shows "run_find (run_link r c) h' = (if h' = h then Some c else run_find r h')"
  using assms rk.lookup_link by (simp add: run_find_def run_link_def)

lemma run_find_unlink:
  assumes "kids_sorted first_hash (kids r)"
  shows "run_find (run_unlink r h) h' = (if h' = h then None else run_find r h')"
  using assms rk.lookup_unlink by (simp add: run_find_def run_unlink_def)

lemma run_update_sel [simp]:
  "hashes (run_replace r h c) = hashes r" "marks (run_replace r h c) = marks r"
  "tokens (run_replace r h c) = tokens r" "in_tails (run_replace r h c) = in_tails r"
  "lastUsed (run_replace r h c) = lastUsed r"
  "hashes (run_unlink r h) = hashes r" "marks (run_unlink r h) = marks r"
  "tokens (run_unlink r h) = tokens r" "in_tails (run_unlink r h) = in_tails r"
  "lastUsed (run_unlink r h) = lastUsed r"
  by (simp_all add: run_replace_def run_unlink_def)

lemma run_link_sel [simp]:
  "hashes (run_link r c) = hashes r" "marks (run_link r c) = marks r"
  "tokens (run_link r c) = tokens r" "in_tails (run_link r c) = in_tails r"
  by (simp_all add: run_link_def split: option.split)

lemma set_kids_replace:
  assumes "kids_sorted first_hash (kids r)" and "run_find r h = Some b"
  shows "set (kids (run_replace r h c)) = insert c {k \<in> set (kids r). first_hash k \<noteq> Some h}"
  using assms set_replace_kid [of first_hash "kids r" h b c] by (simp add: run_replace_def run_find_def)

lemma kids_replace_Nil: "kids (run_replace r h c) = [] \<longleftrightarrow> kids r = []"
  by (auto simp: run_replace_def replace_kid_def split: option.split)

lemma sorted_replace:
  "kids_sorted first_hash (kids r) \<Longrightarrow> first_hash c = Some h \<Longrightarrow>
   kids_sorted first_hash (kids (run_replace r h c))"
  by (simp add: run_replace_def kids_sorted_replace)

lemma set_kids_link:
  "first_hash c = Some h \<Longrightarrow> set (kids (run_link r c)) = insert c (set (kids r))"
  by (simp add: run_link_def)

lemma sorted_link:
  "kids_sorted first_hash (kids r) \<Longrightarrow> first_hash c = Some h \<Longrightarrow> run_find r h = None \<Longrightarrow>
   kids_sorted first_hash (kids (run_link r c))"
  by (simp add: run_link_def run_find_def kids_sorted_link)

text \<open>After a split the parent has the upper half under the same key, and nothing else changed.\<close>

lemma split_parent:
  assumes "kids_sorted first_hash (kids p)" and "run_find p h = Some r" and "0 < m" and "m < blocks r"
    and "splitRun p r m sh = (p1, u, sh1)"
  shows "u = split_upper r m" and "first_hash u = Some h" and "kids_sorted first_hash (kids p1)"
    and "run_find p1 h' = (if h' = h then Some u else run_find p h')"
    and "set (kids p1) = insert u {k \<in> set (kids p). first_hash k \<noteq> Some h}"
    and "hashes p1 = hashes p" and "marks p1 = marks p" and "in_tails p1 = in_tails p"
    and "tokens p1 = tokens p" and "kids p1 \<noteq> []"
    and "sh1 = sh\<lparr>sh_runs := sh_runs sh + 1\<rparr>"
proof -
  have r: "first_hash r = Some h" using run_find_mem [OF assms(2)] by blast
  show u: "u = split_upper r m" and "sh1 = sh\<lparr>sh_runs := sh_runs sh + 1\<rparr>"
    using assms(5) by (simp_all add: splitRun_eq)
  show fu: "first_hash u = Some h"
    using r assms(3,4) by (auto simp: u first_hash_Some split_upper_sel) (metis Suc_pred take_Suc_Cons)
  have p1: "p1 = run_link (run_unlink p h) u" using assms(5) r u by (simp add: splitRun_eq)
  have so: "kids_sorted first_hash (kids (run_unlink p h))"
    using assms(1) by (simp add: run_unlink_def kids_sorted_unlink)
  have no: "run_find (run_unlink p h) h = None" using run_find_unlink [OF assms(1)] by simp
  show "kids_sorted first_hash (kids p1)" unfolding p1 by (rule sorted_link [OF so fu no])
  show "run_find p1 h' = (if h' = h then Some u else run_find p h')"
    unfolding p1 by (simp add: run_find_link [OF so no fu] run_find_unlink [OF assms(1)])
  show st: "set (kids p1) = insert u {k \<in> set (kids p). first_hash k \<noteq> Some h}"
    unfolding p1 set_kids_link [OF fu] using unlink_kid_eq [OF assms(1), of h]
    by (simp add: run_unlink_def)
  show "kids p1 \<noteq> []" using st by auto
qed (use assms(5) in \<open>auto simp: splitRun_eq split: option.splits\<close>)

text \<open>Where the lookups of two runs with the same blocks and marks differ, so do their holders.\<close>

lemma holds_upd:
  assumes "hashes s = hashes r" and "marks s = marks r"
    and "\<And>h'. run_find s h' = (if h' = h then Some c else run_find r h')"
  shows "holds s q = (if prefix (hashes r @ [h]) q then holds c (drop (length (hashes r)) q) else holds r q)"
proof (cases q "hashes r" rule: query_cases)
  case (beyond h1 q')
  then show ?thesis
    using holds_beyond [of s h1 q'] holds_beyond [of r h1 q'] assms by (auto simp: prefix_def)
next
  case inside
  then have "\<not> prefix (hashes r @ [h]) q" by (auto dest!: prefix_length_le)
  with inside show ?thesis using assms by (simp add: holds_prefix)
next
  case off
  then have "\<not> prefix (hashes r @ [h]) q" by (auto dest: append_prefixD)
  with off show ?thesis using assms by (simp add: holds_diverge)
qed

end
