(* ===== verification/TreeCommit.thy ===== *)
theory TreeCommit
  imports TreeShape
begin

text \<open>
  \<^verbatim>\<open>commit\<close> against the abstraction \<open>holds\<close>: it keeps the structural invariant, adds exactly
  the committing backend as a holder of exactly the prefixes of the committed path, keeps the
  shard's counters equal to the totals over the runs, and returns the number of leading blocks
  the backend already held.
\<close>

section \<open>Totals over the runs of a subtree\<close>

fun tot :: "(run \<Rightarrow> int) \<Rightarrow> run \<Rightarrow> int" where
  "tot w (Run hs ts ks ms lu tr f) = w (Run hs ts ks ms lu tr f) + sum_list (map (tot w) ks)"

definition kid_tot :: "(run \<Rightarrow> int) \<Rightarrow> run \<Rightarrow> int" where
  "kid_tot w r = (\<Sum>k\<leftarrow>kids r. tot w k)"

lemma tot_sel: "tot w r = w r + kid_tot w r"
  by (cases r) (simp add: kid_tot_def)

declare tot.simps [simp del]

lemma tot_leaf: "kids r = [] \<Longrightarrow> tot w r = w r"
  by (simp add: tot_sel [of w r] kid_tot_def)

lemma kid_tot_replace:
  assumes "run_find r h = Some old"
  shows "kid_tot w (run_replace r h c) = kid_tot w r - tot w old + tot w c"
proof -
  obtain i where "find_kid first_hash (kids r) h = Some i" and i: "i < length (kids r)" "old = kids r ! i"
    using assms by (auto simp: run_find_def lookup_kid_def find_kid_def Let_def split: if_splits)
  then show ?thesis
    using sum_list_update [OF i(1), of "tot w" c] by (simp add: kid_tot_def run_replace_def replace_kid_def)
qed

lemma kid_tot_link:
  "first_hash c = Some h \<Longrightarrow> kid_tot w (run_link r c) = kid_tot w r + tot w c"
  using sum_list_insert_at [of "tot w" "lower_bound first_hash (kids r) h 0 (length (kids r))" "kids r" c]
  by (simp add: kid_tot_def run_link_def link_kid_def Let_def)

lemma kid_tot_unlink:
  assumes "run_find r h = Some old"
  shows "kid_tot w (run_unlink r h) = kid_tot w r - tot w old"
proof -
  let ?lo = "lower_bound first_hash (kids r) h 0 (length (kids r))"
  have lo: "?lo < length (kids r)" "first_hash (kids r ! ?lo) = Some h" "old = kids r ! ?lo"
    using assms by (auto simp: run_find_def lookup_kid_def find_kid_def Let_def split: if_splits)
  then show ?thesis
    using sum_list_delete_at [OF lo(1), of "tot w"]
    by (simp add: kid_tot_def run_unlink_def unlink_kid_def Let_def)
qed

lemma kid_tot_cong: "kids r = kids r' \<Longrightarrow> kid_tot w r = kid_tot w r'"
  by (simp add: kid_tot_def)

text \<open>The three quantities a shard keeps incrementally.\<close>

abbreviation n_runs :: "run \<Rightarrow> int" where
  "n_runs \<equiv> \<lambda>_. 1"

abbreviation n_blocks :: "run \<Rightarrow> int" where
  "n_blocks \<equiv> \<lambda>r. int (blocks r)"

abbreviation n_copies :: "run \<Rightarrow> int" where
  "n_copies \<equiv> \<lambda>r. int (blocks r) * int (Count (marks r))"

section \<open>One turn of the loop\<close>

lemma commit_run_Nil [simp]: "commit_run s now isroot [] b cur sh = (cur, 0, sh)"
  by (simp add: commit_run.simps)

lemma commit_run_extend:
  assumes "run_find cur (uHash u) = None" and "kids cur = []" and "Count (marks cur) = 1"
    and "Has (marks cur) s"
  shows "commit_run s now False (u # us) b cur sh =
    (extend_tail now (u # us) cur, 0,
     sh\<lparr>sh_blocks := sh_blocks sh + int (length (u # us)),
        sh_copies := sh_copies sh + int (length (u # us))\<rparr>)"
  using assms by (simp add: commit_run.simps [of s now False "u # us" b cur sh])

lemma commit_run_new:
  assumes "run_find cur (uHash u) = None"
    and "\<not> (\<not> isroot \<and> kids cur = [] \<and> Count (marks cur) = 1 \<and> Has (marks cur) s)"
  shows "commit_run s now isroot (u # us) b cur sh =
    (with_tail False (run_link cur (new_run s now (u # us))), 0,
     sh\<lparr>sh_runs := sh_runs sh + 1, sh_blocks := sh_blocks sh + int (blocks (new_run s now (u # us))),
        sh_copies := sh_copies sh + int (blocks (new_run s now (u # us)))\<rparr>)"
  by (subst commit_run.simps)
    (simp only: assms(1) list.case option.case Let_def if_not_P [OF assms(2)])

text \<open>The child a commit descends into, split at the divergence and marked.\<close>

definition enter_child :: "int \<Rightarrow> ns \<Rightarrow> nat \<Rightarrow> run \<Rightarrow> run" where
  "enter_child s now m child =
     (let c1 = (if m < blocks child then split_upper child m else child)
      in touch now (if Has (marks c1) s then c1 else with_marks (Add (marks c1) s) c1))"

lemma enter_child_sel:
  assumes "0 \<le> s" and "m \<le> blocks child"
  shows "hashes (enter_child s now m child) = take m (hashes child)"
    and "holders (marks (enter_child s now m child)) = insert s (holders (marks child))"
  using assms by (auto simp: enter_child_def Let_def split_upper_sel marks_simps blocks_def)

lemma wf_with_marks:
  assumes "wf_run r" and "0 \<le> s"
  shows "wf_run (with_marks (Add (marks r) s) r)"
  using assms unfolding wf_run_sel [of r] wf_run_sel [of "with_marks (Add (marks r) s) r"]
  by (simp add: holders_Add) blast

lemma wf_enter_child:
  assumes "wf_run child" and "0 < m" and "m \<le> blocks child" and "0 \<le> s"
  shows "wf_run (enter_child s now m child)"
proof -
  let ?c = "if m < blocks child then split_upper child m else child"
  have wf: "wf_run ?c" using assms wf_split_upper by auto
  then have "wf_run (with_marks (Add (marks ?c) s) ?c)" using assms(4) by (rule wf_with_marks)
  with wf show ?thesis by (simp add: enter_child_def Let_def)
qed

lemma holds_enter_child:
  assumes "0 \<le> s" and "m \<le> blocks child"
  shows "holds (enter_child s now m child) q =
    holds child q \<union> (if prefix q (take m (hashes child)) then {s} else {})"
proof -
  let ?c = "if m < blocks child then split_upper child m else child"
  have h: "holds ?c q = holds child q" using holds_split_upper by simp
  have hs: "hashes ?c = take m (hashes child)" and mk: "holders (marks ?c) = holders (marks child)"
    using assms(2) by (auto simp: split_upper_sel blocks_def)
  have pre: "prefix q (take m (hashes child)) \<Longrightarrow> holds child q = holders (marks child)"
    using holds_prefix take_is_prefix prefix_order.trans by metis
  show ?thesis
    unfolding enter_child_def Let_def using assms(1) h hs mk pre
    by (auto simp: holds_with_marks marks_simps)
qed

lemma commit_run_step:
  assumes "wf_cur isroot cur" and "run_find cur (uHash u) = Some child"
    and m: "m = match_len (hashes child) (path_hashes (u # us))"
    and rec: "commit_run s now False (drop m (u # us)) (b \<or> \<not> Has (marks child) s)
                (enter_child s now m child)
                (sh\<lparr>sh_runs := sh_runs sh + (if m < blocks child then 1 else 0),
                    sh_copies := sh_copies sh + (if Has (marks child) s then 0 else int m)\<rparr>)
              = (c', h', sh')"
  shows "\<exists>cur1. commit_run s now isroot (u # us) b cur sh =
      (run_replace cur1 (uHash u) c', (if \<not> b \<and> Has (marks child) s then m else 0) + h', sh') \<and>
    hashes cur1 = hashes cur \<and> marks cur1 = marks cur \<and> tokens cur1 = tokens cur \<and>
    in_tails cur1 = in_tails cur \<and> kids_sorted first_hash (kids cur1) \<and>
    (\<exists>old. run_find cur1 (uHash u) = Some old \<and>
       (\<forall>w. kid_tot w cur1 - tot w old = kid_tot w cur - tot w child)) \<and>
    (\<forall>h'. h' \<noteq> uHash u \<longrightarrow> run_find cur1 h' = run_find cur h') \<and>
    (\<forall>k\<in>set (kids cur1). first_hash k \<noteq> Some (uHash u) \<longrightarrow> k \<in> set (kids cur))"
proof -
  have so: "kids_sorted first_hash (kids cur)" using assms(1) by (rule wf_cur_kids)
  have m': "match_len (hashes child) (uHash u # path_hashes us) = m" by (simp add: m)
  have m0: "0 < m" using run_find_match [OF assms(2), of "path_hashes us"] by (simp add: m)
  have mb: "m \<le> blocks child" by (simp add: m blocks_def match_len_le1)
  show ?thesis
  proof (cases "m < blocks child")
    case False
    then have meq: "m = blocks child" using mb by simp
    have "commit_run s now isroot (u # us) b cur sh =
      (run_replace cur (uHash u) c', (if \<not> b \<and> Has (marks child) s then m else 0) + h', sh')"
      using rec False assms(2) meq
      by (cases b; cases "Has (marks child) s"; subst commit_run.simps)
        (simp_all add: m' Let_def enter_child_def)
    then show ?thesis using so assms(2) by blast
  next
    case True
    obtain cur1 up sh1 where sp: "splitRun cur child m sh = (cur1, up, sh1)" by (cases "splitRun cur child m sh") auto
    note par = split_parent [OF so assms(2) m0 True sp]
    have bl: "blocks up = m" using True by (simp add: par(1) blocks_def split_upper_sel)
    have mk: "marks up = marks child" using True by (simp add: par(1) split_upper_sel)
    have "commit_run s now isroot (u # us) b cur sh =
      (run_replace cur1 (uHash u) c', (if \<not> b \<and> Has (marks child) s then m else 0) + h', sh')"
      using rec True assms(2) par(1,11) bl mk
      by (cases b; cases "Has (marks child) s"; subst commit_run.simps)
        (simp_all add: m' Let_def enter_child_def sp)
    moreover have "kid_tot w cur1 - tot w up = kid_tot w cur - tot w child" for w
    proof -
      have "cur1 = run_link (run_unlink cur (uHash u)) up"
        using sp run_find_mem [OF assms(2)] by (auto simp: splitRun_eq)
      then show ?thesis using kid_tot_link [OF par(2)] kid_tot_unlink [OF assms(2)] by simp
    qed
    ultimately show ?thesis using par by (intro exI [of _ cur1]) auto
  qed
qed


section \<open>Commit adds the backend to the prefixes of the path\<close>

lemma holds_leaf: "kids r = [] \<Longrightarrow> holds r q = (if prefix q (hashes r) then holders (marks r) else {})"
proof -
  assume "kids r = []"
  then have "run_find r h = None" for h using run_find_mem [of r h] by (cases "run_find r h") auto
  then show ?thesis
    by (cases q "hashes r" rule: query_cases) (auto simp: holds_prefix holds_beyond holds_diverge)
qed

lemma prefix_past:
  assumes "\<not> prefix q hs" and "\<not> prefix (hs @ [h]) q"
  shows "\<not> prefix q (hs @ h # t)"
proof
  assume "prefix q (hs @ h # t)"
  then obtain z where "q = hs @ z" "prefix z (h # t)" using assms(1) by (auto simp: prefix_append)
  with assms show False by (cases z) auto
qed

lemma prefix_drop:
  assumes "prefix (hs @ [h]) q"
  shows "prefix (drop (length hs) q) t \<longleftrightarrow> prefix q (hs @ t)"
  using assms by (auto simp: prefix_def)

lemma holds_at_child:
  assumes "prefix (hashes r @ [h]) q"
  shows "holds r q = (case run_find r h of None \<Rightarrow> {} | Some c \<Rightarrow> holds c (drop (length (hashes r)) q))"
  using assms by (auto simp: prefix_def holds_beyond split: option.splits)

text \<open>What a commit does below \<open>cur\<close>, as one predicate so that the induction carries it whole.\<close>

definition commit_adds :: "int \<Rightarrow> bool \<Rightarrow> kvunit list \<Rightarrow> run \<Rightarrow> run \<Rightarrow> bool" where
  "commit_adds s isroot us cur cur' \<longleftrightarrow>
     wf_cur isroot cur' \<and> marks cur' = marks cur \<and> prefix (hashes cur) (hashes cur') \<and>
     (\<forall>q. \<not> prefix q (hashes cur) \<longrightarrow>
        holds cur' q = holds cur q \<union> (if prefix q (hashes cur @ path_hashes us) then {s} else {}))"

lemma commit_extend:
  assumes "wf_run cur" and "kids cur = []" and "holders (marks cur) = {s}"
  shows "commit_adds s False us cur (extend_tail now us cur)"
proof -
  let ?c = "extend_tail now us cur"
  have sel: "hashes ?c = hashes cur @ path_hashes us" "kids ?c = []" "marks ?c = marks cur"
    "tokens ?c = tokens cur @ map uTokens us" "in_tails ?c = in_tails cur"
    using assms(2) by (cases cur; simp add: extend_tail_def)+
  have "wf_run ?c" using assms by (simp add: wf_run_sel [of cur] wf_run_sel [of ?c] sel)
  then show ?thesis
    using assms by (auto simp: commit_adds_def wf_cur_def sel holds_leaf)
qed

lemma commit_link_new:
  assumes wf: "wf_cur isroot cur" and s: "0 \<le> s" and hold: "\<not> isroot \<Longrightarrow> s \<in> holders (marks cur)"
    and none: "run_find cur (uHash u) = None"
  shows "commit_adds s isroot (u # us) cur (with_tail False (run_link cur (new_run s now (u # us))))"
proof -
  let ?n = "new_run s now (u # us)" and ?h = "uHash u"
  let ?c = "with_tail False (run_link cur ?n)"
  have n: "hashes ?n = path_hashes (u # us)" "kids ?n = []" "holders (marks ?n) = {s}"
    "first_hash ?n = Some ?h" "wf_run ?n"
    using s by (simp_all add: new_run_def marks_simps first_hash_def wf_run.simps)
  have so: "kids_sorted first_hash (kids cur)" by (rule wf_cur_kids(1) [OF wf])
  have find: "run_find ?c h' = (if h' = ?h then Some ?n else run_find cur h')" for h'
    using run_find_link [OF so none n(4), of h'] by (simp add: run_find_def)
  have ks: "set (kids ?c) = insert ?n (set (kids cur))" using set_kids_link [OF n(4)] by simp
  then have ne: "kids ?c \<noteq> []" by auto
  have "kids_sorted first_hash (kids ?c)" using sorted_link [OF so n(4) none] by simp
  then have "wf_cur isroot ?c"
    using wf hold n ks ne wf_cur_kids [OF wf]
    by (auto simp: wf_cur_def wf_root_def wf_run_sel [of ?c] wf_run_sel [of cur] split: if_splits)
  moreover have "holds ?c q = holds cur q \<union> (if prefix q (hashes cur @ path_hashes (u # us)) then {s} else {})"
    if q: "\<not> prefix q (hashes cur)" for q
  proof (cases "prefix (hashes cur @ [?h]) q")
    case True
    then have "holds ?c q = holds ?n (drop (length (hashes cur)) q)"
      using holds_upd [of ?c cur ?h ?n q] find by simp
    moreover have "holds cur q = {}" using holds_at_child [OF True] none by simp
    ultimately show ?thesis using n prefix_drop [OF True] by (simp add: holds_leaf)
  next
    case False
    then show ?thesis
      using holds_upd [of ?c cur ?h ?n q] find prefix_past [OF q False, of "path_hashes us"] by simp
  qed
  ultimately show ?thesis by (simp add: commit_adds_def)
qed

lemma commit_adds_child:
  assumes m: "m = match_len (hashes child) (path_hashes us)" and s: "0 \<le> s"
    and IH: "commit_adds s False (drop m us) (enter_child s now m child) c'"
  shows "wf_run c'" and "holders (marks c') = insert s (holders (marks child))"
    and "prefix (take m (hashes child)) (hashes c')"
    and "holds c' z = holds child z \<union> (if prefix z (path_hashes us) then {s} else {})"
proof -
  have mb: "m \<le> blocks child" by (simp add: m blocks_def match_len_le1)
  note e = enter_child_sel [OF s mb, of now]
  show "wf_run c'" and mk: "holders (marks c') = insert s (holders (marks child))"
    and pre: "prefix (take m (hashes child)) (hashes c')"
    using IH e by (auto simp: commit_adds_def wf_cur_def)
  have tk: "take m (hashes child) = take m (path_hashes us)" unfolding m by (rule match_len_take)
  then have whole: "take m (hashes child) @ path_hashes (drop m us) = path_hashes us"
    by (simp add: drop_map [symmetric] take_map [symmetric])
  show "holds c' z = holds child z \<union> (if prefix z (path_hashes us) then {s} else {})"
  proof (cases "prefix z (take m (hashes child))")
    case True
    then have "prefix z (hashes c')" "prefix z (hashes child)" "prefix z (path_hashes us)"
      using pre tk by (metis prefix_order.trans, metis prefix_order.trans take_is_prefix,
          metis prefix_order.trans take_is_prefix)
    then show ?thesis using mk by (simp add: holds_prefix)
  next
    case False
    then have "holds c' z = holds (enter_child s now m child) z \<union> (if prefix z (path_hashes us) then {s} else {})"
      using IH by (simp add: commit_adds_def e whole)
    then show ?thesis using holds_enter_child [OF s mb, of now z] False by simp
  qed
qed

lemma commit_replace_child:
  assumes wf: "wf_cur isroot cur" and hold: "\<not> isroot \<Longrightarrow> s \<in> holders (marks cur)"
    and child: "run_find cur h = Some child"
    and cur1: "hashes cur1 = hashes cur" "marks cur1 = marks cur" "tokens cur1 = tokens cur"
      "in_tails cur1 = in_tails cur" "kids_sorted first_hash (kids cur1)"
    and f1: "run_find cur1 h = Some old" "\<forall>h'. h' \<noteq> h \<longrightarrow> run_find cur1 h' = run_find cur h'"
    and k1: "\<forall>k\<in>set (kids cur1). first_hash k \<noteq> Some h \<longrightarrow> k \<in> set (kids cur)"
    and c': "wf_run c'" "holders (marks c') = insert s (holders (marks child))" "first_hash c' = Some h"
    and hd: "path_hashes us = h # t"
    and holds: "\<And>z. holds c' z = holds child z \<union> (if prefix z (path_hashes us) then {s} else {})"
  shows "commit_adds s isroot us cur (run_replace cur1 h c')"
proof -
  let ?c = "run_replace cur1 h c'"
  have find: "run_find ?c h' = (if h' = h then Some c' else run_find cur h')" for h'
    using run_find_replace [OF cur1(5) f1(1) c'(3), of h'] f1(2) by simp
  have ch: "child \<in> set (kids cur)" using run_find_mem [OF child] by blast
  have ks: "set (kids ?c) \<subseteq> insert c' (set (kids cur))"
    using set_kids_replace [OF cur1(5) f1(1)] k1 by auto
  have ne: "kids ?c \<noteq> []" "kids cur \<noteq> []"
    using ch f1(1) run_find_mem [of cur1 h old] by (auto simp: kids_replace_Nil)
  have so: "kids_sorted first_hash (kids ?c)" by (rule sorted_replace [OF cur1(5) c'(3)])
  have sub: "holders (marks c') \<subseteq> holders (marks cur)" if "\<not> isroot"
    using c'(2) hold [OF that] wf_cur_kids(3) [OF wf ch that] by simp
  have "wf_cur isroot ?c"
  proof (cases isroot)
    case True
    then show ?thesis using wf cur1 so ks c'(1) by (auto simp: wf_cur_def wf_root_def)
  next
    case False
    then show ?thesis
      using wf cur1 so ks c'(1) ne sub
      by (auto simp: wf_cur_def wf_run_sel [of cur] wf_run_sel [of ?c] subset_iff)
  qed
  moreover have "holds ?c q = holds cur q \<union> (if prefix q (hashes cur @ path_hashes us) then {s} else {})"
    if q: "\<not> prefix q (hashes cur)" for q
  proof (cases "prefix (hashes cur @ [h]) q")
    case True
    then show ?thesis
      using holds_upd [of ?c cur h c' q] find cur1 holds_at_child [OF True] child holds
        prefix_drop [OF True] by simp
  next
    case False
    then show ?thesis
      using holds_upd [of ?c cur h c' q] find cur1 prefix_past [OF q False, of t] hd by simp
  qed
  ultimately show ?thesis using cur1 by (simp add: commit_adds_def)
qed

lemma commit_run_adds:
  assumes "wf_cur isroot cur" and "0 \<le> s" and "\<not> isroot \<Longrightarrow> s \<in> holders (marks cur)"
  shows "commit_adds s isroot us cur (fst (commit_run s now isroot us b cur sh))"
  using assms
proof (induction us arbitrary: isroot b cur sh rule: measure_induct_rule [of length])
  case (less us)
  note wf = less.prems(1) and s = less.prems(2) and hold = less.prems(3)
  have so: "kids_sorted first_hash (kids cur)" by (rule wf_cur_kids(1) [OF wf])
  show ?case
  proof (cases us)
    case Nil
    then show ?thesis using wf by (auto simp: commit_adds_def)
  next
    case (Cons u us')
    show ?thesis
    proof (cases "run_find cur (uHash u)")
      case None
      show ?thesis
      proof (cases "\<not> isroot \<and> kids cur = [] \<and> Count (marks cur) = 1 \<and> Has (marks cur) s")
        case True
        then have "holders (marks cur) = {s}"
          using ms.sole_holder [of "marks cur" s] by (auto simp: holders_def)
        with True wf have "commit_adds s False us cur (extend_tail now us cur)"
          by (intro commit_extend) (auto simp: wf_cur_def)
        with True Cons None show ?thesis by (simp add: commit_run_extend)
      next
        case False
        have "commit_adds s isroot (u # us') cur (with_tail False (run_link cur (new_run s now (u # us'))))"
          using wf s hold None by (rule commit_link_new)
        then show ?thesis by (simp only: Cons commit_run_new [OF None False] fst_conv)
      qed
    next
      case (Some child)
      define m where "m = match_len (hashes child) (path_hashes us)"
      have m0: "0 < m" using run_find_match [OF Some, of "path_hashes us'"] by (simp add: m_def Cons)
      have mb: "m \<le> blocks child" by (simp add: m_def blocks_def match_len_le1)
      have child: "child \<in> set (kids cur)" "first_hash child = Some (uHash u)" "wf_run child"
        using run_find_mem [OF Some] wf_find [OF wf Some] by auto
      obtain c' h' sh' where rec: "commit_run s now False (drop m us) (b \<or> \<not> Has (marks child) s)
          (enter_child s now m child)
          (sh\<lparr>sh_runs := sh_runs sh + (if m < blocks child then 1 else 0),
              sh_copies := sh_copies sh + (if Has (marks child) s then 0 else int m)\<rparr>) = (c', h', sh')"
        using prod_cases3 by blast
      have IH: "commit_adds s False (drop m us) (enter_child s now m child) c'"
        using less.IH [of "drop m us" False "enter_child s now m child"] rec m0 Cons s
          wf_enter_child [OF child(3) m0 mb s] enter_child_sel [OF s mb]
        by (metis (no_types, lifting) fst_conv insertI1 length_drop diff_less length_greater_0_conv
            list.distinct(1) wf_cur_def)
      note c' = commit_adds_child [OF m_def s IH]
      from commit_run_step [OF wf Some _ rec [unfolded Cons]] obtain cur1 where
        run: "fst (commit_run s now isroot us b cur sh) = run_replace cur1 (uHash u) c'"
        and cur1: "hashes cur1 = hashes cur" "marks cur1 = marks cur" "tokens cur1 = tokens cur"
          "in_tails cur1 = in_tails cur" "kids_sorted first_hash (kids cur1)"
        and f1: "\<exists>old. run_find cur1 (uHash u) = Some old"
          "\<forall>h'. h' \<noteq> uHash u \<longrightarrow> run_find cur1 h' = run_find cur h'"
        and k1: "\<forall>k\<in>set (kids cur1). first_hash k \<noteq> Some (uHash u) \<longrightarrow> k \<in> set (kids cur)"
        by (auto simp: m_def Cons)
      have fc: "first_hash c' = Some (uHash u)"
        using child(2) c'(3) m0 by (auto simp: first_hash_Some prefix_def take_Cons' split: if_splits)
      obtain old where old: "run_find cur1 (uHash u) = Some old" using f1(1) by blast
      show ?thesis
        unfolding run
        by (rule commit_replace_child [OF wf hold Some cur1 old f1(2) k1 c'(1,2) fc _ c'(4)])
          (simp_all add: Cons)
    qed
  qed
qed


section \<open>The counters follow the runs\<close>

definition counters_follow :: "run \<Rightarrow> shard \<Rightarrow> run \<Rightarrow> shard \<Rightarrow> bool" where
  "counters_follow r sh r' sh' \<longleftrightarrow>
     sh_runs sh' - sh_runs sh = tot n_runs r' - tot n_runs r \<and>
     sh_blocks sh' - sh_blocks sh = tot n_blocks r' - tot n_blocks r \<and>
     sh_copies sh' - sh_copies sh = tot n_copies r' - tot n_copies r \<and>
     sh_expired sh' = sh_expired sh \<and> roots sh' = roots sh"

lemma tot_touch: "tot w (touch now r) = tot w r + (w (touch now r) - w r)"
  by (simp add: tot_sel kid_tot_cong [of "touch now r" r])

lemma tot_with_marks: "tot w (with_marks ms r) = tot w r + (w (with_marks ms r) - w r)"
  by (simp add: tot_sel kid_tot_cong [of "with_marks ms r" r])

lemma blocks_sel [simp]:
  "blocks (touch now r) = blocks r" "blocks (with_marks ms r) = blocks r"
  "blocks (with_tail f r) = blocks r" "blocks (run_replace r h c) = blocks r"
  "blocks (run_link r c) = blocks r" "blocks (run_unlink r h) = blocks r"
  by (simp_all add: blocks_def)

lemma tot_split_upper:
  assumes "m < blocks r"
  shows "tot n_runs (split_upper r m) = tot n_runs r + 1"
    and "tot n_blocks (split_upper r m) = tot n_blocks r"
    and "tot n_copies (split_upper r m) = tot n_copies r"
  using assms
  by (cases r; simp add: split_upper_eq tot.simps blocks_def of_nat_diff algebra_simps)+

lemma tot_enter_child:
  assumes "m \<le> blocks child" and "0 \<le> s"
  shows "tot n_runs (enter_child s now m child) = tot n_runs child + (if m < blocks child then 1 else 0)"
    and "tot n_blocks (enter_child s now m child) = tot n_blocks child"
    and "tot n_copies (enter_child s now m child) =
           tot n_copies child + (if Has (marks child) s then 0 else int m)"
proof -
  define c where "c = (if m < blocks child then split_upper child m else child)"
  have bl: "blocks c = m" and mk: "marks c = marks child"
    using assms(1) by (auto simp: c_def split_upper_sel blocks_def)
  have e: "enter_child s now m child =
      touch now (if Has (marks child) s then c else with_marks (Add (marks child) s) c)"
    by (simp add: enter_child_def Let_def c_def [symmetric] mk)
  show "tot n_runs (enter_child s now m child) = tot n_runs child + (if m < blocks child then 1 else 0)"
    using tot_split_upper(1) [of m child] by (simp add: e tot_touch tot_with_marks c_def)
  show "tot n_blocks (enter_child s now m child) = tot n_blocks child"
    using tot_split_upper(2) [of m child] by (simp add: e tot_touch tot_with_marks c_def)
  have "tot n_copies c = tot n_copies child" using tot_split_upper(3) [of m child] by (simp add: c_def)
  then show "tot n_copies (enter_child s now m child) =
      tot n_copies child + (if Has (marks child) s then 0 else int m)"
    using assms(2) by (simp add: e tot_touch tot_with_marks bl mk ms.count_add algebra_simps)
qed

lemma commit_run_counters:
  assumes "wf_cur isroot cur" and "0 \<le> s" and "\<not> isroot \<Longrightarrow> s \<in> holders (marks cur)"
    and "commit_run s now isroot us b cur sh = (cur', hit, sh')"
  shows "counters_follow cur sh cur' sh'"
  using assms
proof (induction us arbitrary: isroot b cur sh cur' hit sh' rule: measure_induct_rule [of length])
  case (less us)
  note wf = less.prems(1) and s = less.prems(2) and hold = less.prems(3) and run = less.prems(4)
  show ?case
  proof (cases us)
    case Nil
    then show ?thesis using run by (simp add: counters_follow_def)
  next
    case (Cons u us')
    show ?thesis
    proof (cases "run_find cur (uHash u)")
      case None
      show ?thesis
      proof (cases "\<not> isroot \<and> kids cur = [] \<and> Count (marks cur) = 1 \<and> Has (marks cur) s")
        case True
        then have "cur' = extend_tail now us cur"
          "sh' = sh\<lparr>sh_blocks := sh_blocks sh + int (length us), sh_copies := sh_copies sh + int (length us)\<rparr>"
          using run Cons commit_run_extend [OF None, of s now us' b sh] by auto
        moreover have "kids (extend_tail now us cur) = []" "marks (extend_tail now us cur) = marks cur"
          "blocks (extend_tail now us cur) = blocks cur + length us"
          using True by (cases cur; simp add: extend_tail_def blocks_def)+
        ultimately show ?thesis using True by (simp add: counters_follow_def tot_leaf)
      next
        case False
        let ?n = "new_run s now us"
        have e: "cur' = with_tail False (run_link cur ?n)"
          "sh' = sh\<lparr>sh_runs := sh_runs sh + 1, sh_blocks := sh_blocks sh + int (blocks ?n),
                   sh_copies := sh_copies sh + int (blocks ?n)\<rparr>"
          using run Cons commit_run_new [OF None False, of now us' b sh] by auto
        have n: "first_hash ?n = Some (uHash u)" "kids ?n = []" "Count (marks ?n) = 1"
          using Cons s ms.count_single by (simp_all add: new_run_def first_hash_def)
        have "kid_tot w cur' = kid_tot w cur + tot w ?n" for w
          using kid_tot_link [OF n(1), of w cur] kid_tot_cong [of cur' "run_link cur ?n"] e(1) by simp
        then have "tot w cur' - tot w cur = w ?n + (w cur' - w cur)" for w
          by (simp add: tot_sel [of w cur] tot_sel [of w cur'] tot_leaf [OF n(2)])
        moreover have "blocks cur' = blocks cur" "marks cur' = marks cur" using e(1) by simp_all
        ultimately show ?thesis using e(2) n(3) by (simp add: counters_follow_def)
      qed
    next
      case (Some child)
      define m where "m = match_len (hashes child) (path_hashes us)"
      define sh0 where "sh0 = sh\<lparr>sh_runs := sh_runs sh + (if m < blocks child then 1 else 0),
              sh_copies := sh_copies sh + (if Has (marks child) s then 0 else int m)\<rparr>"
      have m0: "0 < m" using run_find_match [OF Some, of "path_hashes us'"] by (simp add: m_def Cons)
      have mb: "m \<le> blocks child" by (simp add: m_def blocks_def match_len_le1)
      obtain c' h' sh1 where rec: "commit_run s now False (drop m us) (b \<or> \<not> Has (marks child) s)
          (enter_child s now m child) sh0 = (c', h', sh1)"
        using prod_cases3 by blast
      have IH: "counters_follow (enter_child s now m child) sh0 c' sh1"
        using less.IH [of "drop m us" False "enter_child s now m child" "b \<or> \<not> Has (marks child) s" sh0]
          rec m0 Cons s wf_enter_child [OF wf_find [OF wf Some] m0 mb s] enter_child_sel [OF s mb]
        by (auto simp: wf_cur_def)
      from commit_run_step [OF wf Some _ rec [unfolded Cons sh0_def]] obtain cur1 old where
        r: "cur' = run_replace cur1 (uHash u) c'" "sh' = sh1"
        and cur1: "hashes cur1 = hashes cur" "marks cur1 = marks cur"
        and old: "run_find cur1 (uHash u) = Some old"
          "\<forall>w. kid_tot w cur1 - tot w old = kid_tot w cur - tot w child"
        using run by (auto simp: m_def Cons)
      have "tot w cur' - tot w cur = tot w c' - tot w child + (w cur' - w cur)" for w
        using kid_tot_replace [OF old(1), of w c'] old(2)
        by (simp add: r(1) tot_sel [of w "run_replace cur1 (uHash u) c'"] tot_sel [of w cur])
      moreover have "blocks cur' = blocks cur" "marks cur' = marks cur"
        using r(1) cur1 by (simp_all add: blocks_def)
      ultimately show ?thesis
        using IH tot_enter_child [OF mb s, of now] r(2)
        by (simp add: counters_follow_def sh0_def)
    qed
  qed
qed

section \<open>The returned hit is the number of leading blocks already held\<close>

lemma commit_run_broken:
  assumes "wf_cur isroot cur" and "0 \<le> s" and "commit_run s now isroot us True cur sh = (cur', hit, sh')"
  shows "hit = 0"
  using assms
proof (induction us arbitrary: isroot cur sh cur' hit sh' rule: measure_induct_rule [of length])
  case (less us)
  note wf = less.prems(1) and s = less.prems(2) and run = less.prems(3)
  show ?case
  proof (cases us)
    case (Cons u us')
    show ?thesis
    proof (cases "run_find cur (uHash u)")
      case None
      then show ?thesis
        using run Cons commit_run_extend [OF None, of s now us' True sh] commit_run_new [OF None, of isroot s now us' True sh]
        by (cases "\<not> isroot \<and> kids cur = [] \<and> Count (marks cur) = 1 \<and> Has (marks cur) s") auto
    next
      case (Some child)
      define m where "m = match_len (hashes child) (path_hashes us)"
      have m0: "0 < m" using run_find_match [OF Some, of "path_hashes us'"] by (simp add: m_def Cons)
      have mb: "m \<le> blocks child" by (simp add: m_def blocks_def match_len_le1)
      obtain c' h' sh1 where rec: "commit_run s now False (drop m us) (True \<or> \<not> Has (marks child) s)
          (enter_child s now m child)
          (sh\<lparr>sh_runs := sh_runs sh + (if m < blocks child then 1 else 0),
              sh_copies := sh_copies sh + (if Has (marks child) s then 0 else int m)\<rparr>) = (c', h', sh1)"
        using prod_cases3 by blast
      then have "h' = 0"
        using less.IH [of "drop m us" False "enter_child s now m child"] m0 Cons s
          wf_enter_child [OF wf_find [OF wf Some] m0 mb s] by (auto simp: wf_cur_def)
      with commit_run_step [OF wf Some _ rec [unfolded Cons]] run show ?thesis by (auto simp: m_def Cons)
    qed
  qed (use run in simp)
qed

lemma commit_run_hit:
  assumes "wf_cur isroot cur" and "0 \<le> s" and "\<not> isroot \<Longrightarrow> s \<in> holders (marks cur)"
    and "commit_run s now isroot us False cur sh = (cur', hit, sh')" and "0 < d" and "d \<le> length us"
  shows "s \<in> holds cur (hashes cur @ take d (path_hashes us)) \<longleftrightarrow> d \<le> hit"
  using assms
proof (induction us arbitrary: isroot cur sh cur' hit sh' d rule: measure_induct_rule [of length])
  case (less us)
  note wf = less.prems(1) and s = less.prems(2) and run = less.prems(4)
  obtain u us' where Cons: "us = u # us'" using less.prems(5,6) by (cases us) auto
  have tk: "take d (path_hashes us) = uHash u # take (d - 1) (path_hashes us')"
    using less.prems(5) by (simp add: Cons take_Cons')
  show ?case
  proof (cases "run_find cur (uHash u)")
    case None
    have "hit = 0"
      using run Cons commit_run_extend [OF None, of s now us' False sh] commit_run_new [OF None, of isroot s now us' False sh]
      by (cases "\<not> isroot \<and> kids cur = [] \<and> Count (marks cur) = 1 \<and> Has (marks cur) s") auto
    then show ?thesis using None less.prems(5) by (simp add: tk holds_beyond)
  next
    case (Some child)
    define m where "m = match_len (hashes child) (path_hashes us)"
    have m0: "0 < m" using run_find_match [OF Some, of "path_hashes us'"] by (simp add: m_def Cons)
    have mb: "m \<le> blocks child" by (simp add: m_def blocks_def match_len_le1)
    have wfc: "wf_run child" by (rule wf_find [OF wf Some])
    have at_child: "holds cur (hashes cur @ take d (path_hashes us)) = holds child (take d (path_hashes us))"
      using Some by (simp add: tk holds_beyond)
    obtain c' h' sh1 where rec: "commit_run s now False (drop m us) (False \<or> \<not> Has (marks child) s)
        (enter_child s now m child)
        (sh\<lparr>sh_runs := sh_runs sh + (if m < blocks child then 1 else 0),
            sh_copies := sh_copies sh + (if Has (marks child) s then 0 else int m)\<rparr>) = (c', h', sh1)"
      using prod_cases3 by blast
    have hit: "hit = (if Has (marks child) s then m else 0) + h'"
      using commit_run_step [OF wf Some _ rec [unfolded Cons]] run by (auto simp: m_def Cons)
    note e = enter_child_sel [OF s mb, of now] and we = wf_enter_child [OF wfc m0 mb s, of now]
    show ?thesis
    proof (cases "Has (marks child) s")
      case False
      then have "h' = 0" using commit_run_broken [of False _ s] rec we s by (auto simp: wf_cur_def)
      moreover have "s \<notin> holds child (take d (path_hashes us))"
        using holds_within [OF wfc] False by (auto simp: Has_holders)
      ultimately show ?thesis using hit False less.prems(5) at_child by simp
    next
      case had: True
      have tkm: "take m (hashes child) = take m (path_hashes us)" unfolding m_def by (rule match_len_take)
      show ?thesis
      proof (cases "d \<le> m")
        case True
        then have "take d (path_hashes us) = take d (hashes child)" using tkm by (metis take_take min.absorb1)
        then have "holds child (take d (path_hashes us)) = holders (marks child)"
          by (simp add: holds_prefix take_is_prefix)
        then show ?thesis using True had hit at_child by (simp add: Has_holders)
      next
        case False
        let ?q = "take m (hashes child) @ take (d - m) (path_hashes (drop m us))"
        have q: "?q = take d (path_hashes us)"
        proof -
          have "take (m + (d - m)) (path_hashes us) =
              take m (path_hashes us) @ take (d - m) (drop m (path_hashes us))" by (rule take_add)
          then show ?thesis using False unfolding tkm by (simp add: drop_map)
        qed
        have IH: "s \<in> holds (enter_child s now m child) ?q \<longleftrightarrow> d - m \<le> h'"
          using less.IH [of "drop m us" False "enter_child s now m child" _ _ _ _ "d - m"] rec had m0 Cons s we e
            False less.prems(6) by (simp add: wf_cur_def)
        have "length (take m (hashes child)) < length ?q"
          using False less.prems(6) by simp
        then have "\<not> prefix ?q (take m (hashes child))" by (meson linorder_not_less prefix_length_le)
        then have "holds (enter_child s now m child) ?q = holds child ?q"
          using holds_enter_child [OF s mb, of now ?q] by simp
        with IH show ?thesis using False had hit at_child q by auto
      qed
    qed
  qed
qed

end
