(* ===== verification/TreeWalk.thy ===== *)
theory TreeWalk
  imports TreeShape
begin

text \<open>
  \<^verbatim>\<open>walk\<close> and \<^verbatim>\<open>heldTokens\<close> against the abstraction: the depths a walk reports are the greatest
  depths at which someone, or some candidate, holds the request's prefix, and the mark sets it
  returns are the holders at those depths.
\<close>

text \<open>\<open>depth_of C f n k\<close>: among the depths \<open>1..n\<close>, exactly the first \<open>k\<close> have a holder in \<open>C\<close>.\<close>

definition depth_of :: "int set \<Rightarrow> (nat \<Rightarrow> int set) \<Rightarrow> nat \<Rightarrow> nat \<Rightarrow> bool" where
  "depth_of C f n k \<longleftrightarrow> k \<le> n \<and> (\<forall>d. 0 < d \<and> d \<le> n \<longrightarrow> (f d \<inter> C \<noteq> {} \<longleftrightarrow> d \<le> k))"

text \<open>What the walk records for a set of interest: the run and absolute depth of the deepest
  prefix held in \<open>C\<close>, or the value it started from.\<close>

definition anchored :: "int set \<Rightarrow> (nat \<Rightarrow> int set) \<Rightarrow> nat \<Rightarrow> nat \<Rightarrow>
    (run \<times> nat) option \<Rightarrow> (run \<times> nat) option \<Rightarrow> nat \<Rightarrow> bool" where
  "anchored C f n i old new k \<longleftrightarrow>
     depth_of C f n k \<and>
     (if k = 0 then new = old else \<exists>r. new = Some (r, i + k) \<and> holders (marks r) = f k)"

abbreviation at_depth :: "run \<Rightarrow> kvunit list \<Rightarrow> nat \<Rightarrow> int set" where
  "at_depth cur us \<equiv> \<lambda>d. holds cur (hashes cur @ take d (path_hashes us))"

lemma at_depth_none:
  assumes "run_find cur (uHash u) = None" and "0 < d"
  shows "at_depth cur (u # us) d = {}"
  using assms holds_beyond [of cur "uHash u" "take (d - 1) (path_hashes us)"] by (simp add: take_Cons')

lemma at_depth_child:
  assumes "run_find cur (uHash u) = Some child" and "0 < d"
  shows "at_depth cur (u # us) d = holds child (take d (path_hashes (u # us)))"
  using assms holds_beyond [of cur "uHash u" "take (d - 1) (path_hashes us)"] by (simp add: take_Cons')

lemma child_depth_within:
  assumes "d \<le> match_len (hashes child) hs"
  shows "holds child (take d hs) = holders (marks child)"
proof -
  let ?m = "match_len (hashes child) hs"
  have "take d (take ?m hs) = take d (take ?m (hashes child))" by (simp only: match_len_take)
  then have "take d hs = take d (hashes child)" using assms by (simp add: min.absorb1)
  then show ?thesis by (simp only: holds_prefix [OF take_is_prefix])
qed

lemma child_depth_diverged:
  assumes "match_len (hashes child) hs < blocks child" and "match_len (hashes child) hs < d" and "d \<le> length hs"
  shows "holds child (take d hs) = {}"
proof (rule holds_diverge)
  let ?m = "match_len (hashes child) hs"
  have neq: "hashes child ! ?m \<noteq> hs ! ?m"
    using match_len_neq [of "hashes child" hs] assms by (simp add: blocks_def)
  show "\<not> prefix (take d hs) (hashes child)"
    using neq assms by (auto simp: prefix_def) (metis length_take min.absorb2 nth_append nth_take)
  show "\<not> prefix (hashes child) (take d hs)"
    using neq assms by (auto simp: prefix_def blocks_def) (metis nth_append nth_take)
qed

lemma child_depth_beyond:
  assumes "match_len (hashes child) (path_hashes us) = blocks child" and "blocks child \<le> d"
  shows "holds child (take d (path_hashes us)) = at_depth child (drop (blocks child) us) (d - blocks child)"
proof -
  have "hashes child = take (blocks child) (path_hashes us)"
    using match_len_take [of "hashes child" "path_hashes us"] assms(1) by (simp add: blocks_def)
  then have "take d (path_hashes us) = hashes child @ take (d - blocks child) (drop (blocks child) (path_hashes us))"
    using assms(2) by (metis add_diff_inverse_nat not_less take_add)
  then show ?thesis by (simp add: drop_map)
qed

text \<open>One step: a child matched over \<open>m\<close> blocks, then what its subtree contributes.\<close>

lemma depth_of_child:
  assumes C: "\<And>d. 0 < d \<Longrightarrow> d \<le> m \<Longrightarrow> f d = H"
    and beyond: "\<And>d. m < d \<Longrightarrow> d \<le> n \<Longrightarrow> f d = g (d - m)"
    and mono: "\<And>d. g d \<subseteq> H" and m: "0 < m" "m \<le> n"
    and rest: "depth_of C' g (n - m) k"
  shows "depth_of C' f n (if H \<inter> C' \<noteq> {} then m + k else 0)" and "H \<inter> C' = {} \<Longrightarrow> k = 0"
proof -
  define k' where "k' = (if H \<inter> C' \<noteq> {} then m + k else 0)"
  have dk: "k \<le> n - m" and g: "\<And>d. 0 < d \<Longrightarrow> d \<le> n - m \<Longrightarrow> g d \<inter> C' \<noteq> {} \<longleftrightarrow> d \<le> k"
    using rest by (auto simp: depth_of_def)
  have empty: "k = 0" if "H \<inter> C' = {}"
  proof (rule ccontr)
    assume "k \<noteq> 0"
    then have "g k \<inter> C' \<noteq> {}" using g [of k] dk by simp
    with mono [of k] that show False by blast
  qed
  have "f d \<inter> C' \<noteq> {} \<longleftrightarrow> d \<le> k'" if d: "0 < d" "d \<le> n" for d
  proof (cases "d \<le> m")
    case True
    then show ?thesis using C [of d] d by (auto simp: k'_def)
  next
    case False
    then have "f d \<inter> C' \<noteq> {} \<longleftrightarrow> d - m \<le> k" using beyond [of d] g [of "d - m"] d by auto
    then show ?thesis using False empty by (auto simp: k'_def)
  qed
  moreover have "k' \<le> n" using dk m by (auto simp: k'_def)
  ultimately show "depth_of C' f n (if H \<inter> C' \<noteq> {} then m + k else 0)"
    by (simp add: depth_of_def k'_def [symmetric])
  show "H \<inter> C' = {} \<Longrightarrow> k = 0" by (rule empty)
qed

lemma anchored_child:
  assumes C: "\<And>d. 0 < d \<Longrightarrow> d \<le> m \<Longrightarrow> f d = holders (marks child)"
    and beyond: "\<And>d. m < d \<Longrightarrow> d \<le> n \<Longrightarrow> f d = g (d - m)"
    and mono: "\<And>d. g d \<subseteq> holders (marks child)"
    and m: "0 < m" "m \<le> n"
    and mid: "mid = (if holders (marks child) \<inter> C' \<noteq> {} then Some (child, i + m) else old)"
    and rest: "anchored C' g (n - m) (i + m) mid new k"
  shows "anchored C' f n i old new (if holders (marks child) \<inter> C' \<noteq> {} then m + k else 0)"
proof -
  define k' where "k' = (if holders (marks child) \<inter> C' \<noteq> {} then m + k else 0)"
  have dr: "depth_of C' g (n - m) k" using rest by (simp add: anchored_def)
  note d = depth_of_child [of m f "holders (marks child)" n g, OF C beyond mono m dr]
  have "if k' = 0 then new = old else \<exists>r. new = Some (r, i + k') \<and> holders (marks r) = f k'"
  proof (cases "holders (marks child) \<inter> C' = {}")
    case True
    then show ?thesis using d(2) rest mid by (simp add: k'_def anchored_def)
  next
    case False
    then show ?thesis
    proof (cases "k = 0")
      case True
      then show ?thesis using False rest mid C [of m] m by (simp add: k'_def anchored_def)
    next
      case nz: False
      then obtain r where "new = Some (r, i + m + k)" "holders (marks r) = g k"
        using rest by (auto simp: anchored_def add.assoc)
      moreover have "k \<le> n - m" using dr by (simp add: depth_of_def)
      ultimately show ?thesis using False nz beyond [of "m + k"] m by (simp add: k'_def add.assoc)
    qed
  qed
  with d(1) show ?thesis by (simp add: anchored_def k'_def [symmetric])
qed

lemma anchored_stay: "(\<And>d. 0 < d \<Longrightarrow> d \<le> n \<Longrightarrow> f d = {}) \<Longrightarrow> anchored C f n i old old 0"
  by (simp add: anchored_def depth_of_def)

text \<open>The two anchors of a walk from \<open>cur\<close>: the deepest prefix some candidate holds and the deepest
  prefix anyone holds; the walk stops where nobody holds any more.\<close>

definition walk_result :: "markSet \<Rightarrow> run \<Rightarrow> kvunit list \<Rightarrow> nat \<Rightarrow> (run \<times> nat) option \<Rightarrow> (run \<times> nat) option \<Rightarrow>
    nat \<times> (run \<times> nat) option \<times> (run \<times> nat) option \<Rightarrow> bool" where
  "walk_result cands cur us i av mk res \<longleftrightarrow>
     (\<exists>ka km. anchored (holders cands) (at_depth cur us) (length us) i av (fst (snd res)) ka \<and>
              anchored UNIV (at_depth cur us) (length us) i mk (snd (snd res)) km \<and> fst res = i + km)"

lemma walk_loop_result:
  assumes "wf_cur isroot cur"
  shows "walk_result cands cur us i av mk (walk_loop cands us cur i av mk)"
  using assms
proof (induction us arbitrary: isroot cur i av mk rule: measure_induct_rule [of length])
  case (less us)
  show ?case
  proof (cases us)
    case Nil
    then show ?thesis
      using anchored_stay [of 0 "at_depth cur []"] by (auto simp: walk_result_def walk_loop.simps)
  next
    case (Cons u us')
    show ?thesis
    proof (cases "run_find cur (uHash u)")
      case None
      then have "\<And>d. 0 < d \<Longrightarrow> at_depth cur us d = {}" unfolding Cons by (rule at_depth_none)
      then have "anchored C (at_depth cur us) (length us) i old old 0" for C old by (intro anchored_stay)
      moreover have "walk_loop cands us cur i av mk = (i, av, mk)"
        using None by (simp add: Cons walk_loop.simps)
      ultimately show ?thesis by (auto simp: walk_result_def)
    next
      case (Some child)
      let ?m = "match_len (hashes child) (path_hashes us)"
      let ?av = "if holders (marks child) \<inter> holders cands \<noteq> {} then Some (child, i + ?m) else av"
      let ?mk = "if holders (marks child) \<inter> UNIV \<noteq> {} then Some (child, i + ?m) else mk"
      have wfc: "wf_run child" by (rule wf_find [OF less.prems Some])
      have ne: "holders (marks child) \<noteq> {}" using wfc by (simp add: wf_run_sel [of child])
      have m: "0 < ?m" "?m \<le> length us"
        using run_find_match [OF Some, of "path_hashes us'"] match_len_le2 [of "hashes child" "path_hashes us"]
        by (simp_all add: Cons)
      have at: "at_depth cur us d = holds child (take d (path_hashes us))" if "0 < d" for d
        unfolding Cons by (rule at_depth_child [OF Some that])
      have within: "at_depth cur us d = holders (marks child)" if "0 < d" "d \<le> ?m" for d
        using at [OF that(1)] child_depth_within [OF that(2)] by simp
      have unf: "walk_loop cands us cur i av mk =
          (if ?m < blocks child then (i + ?m, ?av, ?mk)
           else walk_loop cands (drop ?m us) child (i + ?m) ?av ?mk)"
        using Some ne unfolding Cons by (subst walk_loop.simps) (auto simp: marks_simps Let_def)
      show ?thesis
      proof (cases "?m < blocks child")
        case True
        have "at_depth cur us d = {}" if "?m < d" "d \<le> length us" for d
          using at [of d] child_depth_diverged [OF True that(1)] that by simp
        then have g: "anchored C (at_depth cur us) (length us) i old
            (if holders (marks child) \<inter> C \<noteq> {} then Some (child, i + ?m) else old)
            (if holders (marks child) \<inter> C \<noteq> {} then ?m + 0 else 0)" for C old
          by (intro anchored_child [where g = "\<lambda>_. {}", OF within _ _ m refl] anchored_stay) auto
        show ?thesis
          unfolding unf walk_result_def if_P [OF True] fst_conv snd_conv
          by (rule exI, rule exI, intro conjI, rule g, rule g) (simp add: ne)
      next
        case False
        then have full: "?m = blocks child"
          using match_len_le1 [of "hashes child" "path_hashes us"] by (simp add: blocks_def)
        have beyond: "at_depth cur us d = at_depth child (drop ?m us) (d - ?m)" if "?m < d" for d
          using at [of d] child_depth_beyond [OF full, of d] that by (simp add: full)
        have sub: "at_depth child (drop ?m us) d \<subseteq> holders (marks child)" for d
          by (rule holds_within [OF wfc])
        have "walk_result cands child (drop ?m us) (i + ?m) ?av ?mk
            (walk_loop cands (drop ?m us) child (i + ?m) ?av ?mk)"
          using less.IH [of "drop ?m us" False child] wfc m by (simp add: wf_cur_def)
        then obtain ka km where
          a: "anchored (holders cands) (at_depth child (drop ?m us)) (length us - ?m) (i + ?m) ?av
                (fst (snd (walk_loop cands us cur i av mk))) ka"
          and k: "anchored UNIV (at_depth child (drop ?m us)) (length us - ?m) (i + ?m) ?mk
                (snd (snd (walk_loop cands us cur i av mk))) km"
          and f: "fst (walk_loop cands us cur i av mk) = i + ?m + km"
          unfolding unf if_not_P [OF False] walk_result_def length_drop by blast
        note a' = anchored_child [OF within beyond sub m refl a]
          and k' = anchored_child [OF within beyond sub m refl k]
        show ?thesis
          unfolding walk_result_def
          by (rule exI, rule exI, intro conjI, rule a', assumption+, rule k') (simp_all add: f ne)
      qed
    qed
  qed
qed


section \<open>Tokens held per slot\<close>

definition token_depth :: "int \<Rightarrow> (nat \<Rightarrow> int set) \<Rightarrow> kvunit list \<Rightarrow> int \<Rightarrow> int \<Rightarrow> int \<Rightarrow> bool" where
  "token_depth s f us cum old new \<longleftrightarrow>
     (\<exists>k. depth_of {s} f (length us) k \<and> new = (if k = 0 then old else cum + token_sum (take k us)))"

lemma token_depth_stay: "(\<And>d. 0 < d \<Longrightarrow> d \<le> length us \<Longrightarrow> s \<notin> f d) \<Longrightarrow> token_depth s f us cum old old"
  by (auto simp: token_depth_def depth_of_def intro!: exI [of _ 0])

lemma token_depth_child:
  assumes C: "\<And>d. 0 < d \<Longrightarrow> d \<le> m \<Longrightarrow> f d = H"
    and beyond: "\<And>d. m < d \<Longrightarrow> d \<le> length us \<Longrightarrow> f d = g (d - m)"
    and mono: "\<And>d. g d \<subseteq> H" and m: "0 < m" "m \<le> length us"
    and rest: "token_depth s g (drop m us) (cum + token_sum (take m us))
                 (if s \<in> H then cum + token_sum (take m us) else old) new"
  shows "token_depth s f us cum old new"
proof -
  obtain k where k: "depth_of {s} g (length us - m) k"
    and new: "new = (if k = 0 then if s \<in> H then cum + token_sum (take m us) else old
                     else cum + token_sum (take m us) + token_sum (take k (drop m us)))"
    using rest by (auto simp: token_depth_def)
  note d = depth_of_child [OF C beyond mono m k]
  show ?thesis
  proof (cases "s \<in> H")
    case True
    then have "depth_of {s} f (length us) (m + k)" using d(1) by simp
    then show ?thesis
      unfolding token_depth_def using m(1) new True
      by (intro exI [of _ "m + k"]) (auto simp: take_add)
  next
    case False
    then have "depth_of {s} f (length us) 0" "k = 0" using d by simp_all
    then show ?thesis unfolding token_depth_def using new False by (intro exI [of _ 0]) simp
  qed
qed

lemma held_loop_result:
  assumes "wf_cur isroot cur" and "length out = length sl"
  shows "length (held_loop sl us cur cum out) = length sl \<and>
    (\<forall>j<length sl. token_depth (sl ! j) (at_depth cur us) us cum (out ! j) (held_loop sl us cur cum out ! j))"
  using assms
proof (induction us arbitrary: isroot cur cum out rule: measure_induct_rule [of length])
  case (less us)
  show ?case
  proof (cases us)
    case Nil
    then show ?thesis using less.prems(2) token_depth_stay [of "[]"] by (simp add: held_loop.simps)
  next
    case (Cons u us')
    show ?thesis
    proof (cases "run_find cur (uHash u)")
      case None
      then have "\<And>d. 0 < d \<Longrightarrow> at_depth cur us d = {}" unfolding Cons by (rule at_depth_none)
      moreover have "held_loop sl us cur cum out = out" using None by (simp add: Cons held_loop.simps)
      ultimately show ?thesis using less.prems(2) token_depth_stay [of us] by simp
    next
      case (Some child)
      let ?m = "match_len (hashes child) (path_hashes us)"
      let ?cum = "cum + token_sum (take ?m us)"
      let ?out = "map2 (\<lambda>s v. if s \<in> holders (marks child) then ?cum else v) sl out"
      have wfc: "wf_run child" by (rule wf_find [OF less.prems(1) Some])
      have m: "0 < ?m" "?m \<le> length us"
        using run_find_match [OF Some, of "path_hashes us'"] match_len_le2 [of "hashes child" "path_hashes us"]
        by (simp_all add: Cons)
      have at: "at_depth cur us d = holds child (take d (path_hashes us))" if "0 < d" for d
        unfolding Cons by (rule at_depth_child [OF Some that])
      have within: "at_depth cur us d = holders (marks child)" if "0 < d" "d \<le> ?m" for d
        using at [OF that(1)] child_depth_within [OF that(2)] by simp
      have unf: "held_loop sl us cur cum out =
          (if ?m < blocks child then ?out else held_loop sl (drop ?m us) child ?cum ?out)"
        using Some unfolding Cons by (subst held_loop.simps) (simp add: Has_holders Let_def)
      have out: "length ?out = length sl"
        "\<And>j. j < length sl \<Longrightarrow> ?out ! j = (if sl ! j \<in> holders (marks child) then ?cum else out ! j)"
        using less.prems(2) by simp_all
      show ?thesis
      proof (cases "?m < blocks child")
        case True
        have "at_depth cur us d = {}" if "?m < d" "d \<le> length us" for d
          using at [of d] child_depth_diverged [OF True that(1)] that by simp
        then have "token_depth s (at_depth cur us) us cum old
            (if s \<in> holders (marks child) then ?cum else old)" for s old
          by (intro token_depth_child [where g = "\<lambda>_. {}", OF within _ _ m] token_depth_stay) auto
        then show ?thesis unfolding unf if_P [OF True] using out by simp
      next
        case False
        then have full: "?m = blocks child"
          using match_len_le1 [of "hashes child" "path_hashes us"] by (simp add: blocks_def)
        have beyond: "at_depth cur us d = at_depth child (drop ?m us) (d - ?m)" if "?m < d" for d
          using at [of d] child_depth_beyond [OF full, of d] that by (simp add: full)
        have sub: "at_depth child (drop ?m us) d \<subseteq> holders (marks child)" for d
          by (rule holds_within [OF wfc])
        have IH: "length (held_loop sl us cur cum out) = length sl \<and>
          (\<forall>j<length sl. token_depth (sl ! j) (at_depth child (drop ?m us)) (drop ?m us) ?cum (?out ! j)
             (held_loop sl us cur cum out ! j))"
          unfolding unf if_not_P [OF False]
          by (rule less.IH [of "drop ?m us" False child]) (use wfc m out in \<open>simp_all add: wf_cur_def\<close>)
        then show ?thesis
          using token_depth_child [where f = "at_depth cur us" and g = "at_depth child (drop ?m us)",
              OF within beyond sub m] out(2) by simp
      qed
    qed
  qed
qed

end
