(* ===== verification/TreeEvict.thy ===== *)
theory TreeEvict
  imports TreeCommit TreeWalk
begin

text \<open>
  Removing runs: what \<^verbatim>\<open>unlinkRun\<close> does to a tree when it detaches a childless run, and what
  \<^verbatim>\<open>clearSlot\<close> does to the holders. Between clearing a slot and evicting the orphans a tree may hold
  runs nobody holds, so the facts here rest on \<open>shape_run\<close>, well-formedness less that clause.
\<close>

section \<open>Shape without holders\<close>

fun shape_run :: "run \<Rightarrow> bool" where
  "shape_run (Run hs ts ks ms lu tr f) \<longleftrightarrow>
     hs \<noteq> [] \<and> length ts = length hs \<and> f = (ks = []) \<and> kids_sorted first_hash ks \<and>
     (\<forall>k\<in>set ks. shape_run k \<and> holders (marks k) \<subseteq> holders ms)"

fun all_marked :: "run \<Rightarrow> bool" where
  "all_marked (Run hs ts ks ms lu tr f) \<longleftrightarrow> holders ms \<noteq> {} \<and> (\<forall>k\<in>set ks. all_marked k)"

lemma wf_run_shape: "wf_run r \<longleftrightarrow> shape_run r \<and> all_marked r"
  by (induction r) (auto simp: wf_run.simps)

lemma shape_run_sel:
  "shape_run r \<longleftrightarrow> hashes r \<noteq> [] \<and> length (tokens r) = length (hashes r) \<and>
     in_tails r = (kids r = []) \<and> kids_sorted first_hash (kids r) \<and>
     (\<forall>k\<in>set (kids r). shape_run k \<and> holders (marks k) \<subseteq> holders (marks r))"
  by (cases r) auto

declare shape_run.simps [simp del]

definition shape_cur :: "bool \<Rightarrow> run \<Rightarrow> bool" where
  "shape_cur isroot r = (if isroot then hashes r = [] \<and> marks r = empty_marks \<and> \<not> in_tails r \<and>
     kids_sorted first_hash (kids r) \<and> (\<forall>k\<in>set (kids r). shape_run k) else shape_run r)"

lemma shape_cur_kids:
  assumes "shape_cur isroot r"
  shows "kids_sorted first_hash (kids r)" and "k \<in> set (kids r) \<Longrightarrow> shape_run k"
    and "k \<in> set (kids r) \<Longrightarrow> \<not> isroot \<Longrightarrow> holders (marks k) \<subseteq> holders (marks r)"
  using assms by (auto simp: shape_cur_def shape_run_sel [of r] split: if_splits)

lemma shape_run_kidless:
  assumes "shape_run r" and "hashes s = hashes r" and "tokens s = tokens r" and "marks s = marks r"
    and "set (kids s) \<subseteq> set (kids r)" and "kids_sorted first_hash (kids s)" and "in_tails s = (kids s = [])"
  shows "shape_run s"
  using assms unfolding shape_run_sel [of r] shape_run_sel [of s] by auto

section \<open>The run that covers a query\<close>

function look :: "run \<Rightarrow> u64 list \<Rightarrow> (int set \<times> ns) option" where
  "look r q =
     (let m = match_len (hashes r) q in
      if m = length q then Some (holders (marks r), lastUsed r)
      else if m < blocks r then None
      else case run_find r (q ! m) of None \<Rightarrow> None | Some c \<Rightarrow> look c (drop m q))"
  by pat_completeness auto
termination
  by (relation "measure (\<lambda>(r, q). size r)") (auto dest: run_find_size)

declare look.simps [simp del]

lemma holds_look: "holds r q = (case look r q of None \<Rightarrow> {} | Some (hs, _) \<Rightarrow> hs)"
  by (induction r q rule: look.induct)
    (simp add: holds.simps [of r q for r q] look.simps [of r q for r q] Let_def split: option.split)

lemma look_prefix: "prefix q (hashes r) \<Longrightarrow> look r q = Some (holders (marks r), lastUsed r)"
  by (subst look.simps) (simp add: match_len_full2 [symmetric])

lemma look_beyond:
  "look r (hashes r @ h # q) = (case run_find r h of None \<Rightarrow> None | Some c \<Rightarrow> look c (h # q))"
  by (subst look.simps) (simp add: blocks_def Let_def nth_append split: option.split)

lemma look_diverge: "\<not> prefix q (hashes r) \<Longrightarrow> \<not> prefix (hashes r) q \<Longrightarrow> look r q = None"
proof -
  assume "\<not> prefix q (hashes r)" "\<not> prefix (hashes r) q"
  then have "match_len (hashes r) q \<noteq> length q" "match_len (hashes r) q < blocks r"
    using match_len_le1 [of "hashes r" q]
    by (auto simp: match_len_full2 match_len_full blocks_def order.strict_iff_order)
  then show ?thesis by (subst look.simps) (simp add: Let_def)
qed

lemma look_child:
  assumes "prefix (hashes r @ [h]) q"
  shows "look r q = (case run_find r h of None \<Rightarrow> None | Some c \<Rightarrow> look c (drop (length (hashes r)) q))"
  using assms by (auto simp: prefix_def look_beyond split: option.splits)

lemma look_upd:
  assumes "hashes s = hashes r" and "marks s = marks r" and "lastUsed s = lastUsed r"
    and "\<And>h'. run_find s h' = (if h' = h then c else run_find r h')"
  shows "look s q = (if prefix (hashes r @ [h]) q
     then (case c of None \<Rightarrow> None | Some c \<Rightarrow> look c (drop (length (hashes r)) q)) else look r q)"
proof (cases q "hashes r" rule: query_cases)
  case (beyond h1 q')
  then show ?thesis
    using look_beyond [of s h1 q'] look_beyond [of r h1 q'] assms
    by (auto simp: prefix_def split: option.splits)
next
  case inside
  then have "\<not> prefix (hashes r @ [h]) q" by (auto dest!: prefix_length_le)
  with inside show ?thesis using assms by (simp add: look_prefix)
next
  case off
  then have "\<not> prefix (hashes r @ [h]) q" by (auto dest: append_prefixD)
  with off show ?thesis using assms by (simp add: look_diverge)
qed

lemma look_leaf: "kids r = [] \<Longrightarrow> look r q = (if prefix q (hashes r) then Some (holders (marks r), lastUsed r) else None)"
proof -
  assume "kids r = []"
  then have "run_find r h = None" for h using run_find_mem [of r h] by (cases "run_find r h") auto
  then show ?thesis
    by (cases q "hashes r" rule: query_cases) (auto simp: look_prefix look_beyond look_diverge)
qed


section \<open>Detaching a childless run\<close>

text \<open>What \<^verbatim>\<open>unlinkRun\<close> does to the parent: the child goes, and a parent left childless becomes a tail.\<close>

definition detach :: "bool \<Rightarrow> u64 \<Rightarrow> run \<Rightarrow> run" where
  "detach isroot h p =
     (let p1 = run_unlink p h in if \<not> isroot \<and> kids p1 = [] then with_tail True p1 else p1)"

lemma detach_sel [simp]:
  "hashes (detach b h p) = hashes p" "tokens (detach b h p) = tokens p" "marks (detach b h p) = marks p"
  "lastUsed (detach b h p) = lastUsed p" "kids (detach b h p) = kids (run_unlink p h)"
  by (simp_all add: detach_def Let_def)

lemma run_find_kids_cong: "kids r = kids s \<Longrightarrow> run_find r = run_find s"
  by (auto simp: run_find_def)

definition same_data :: "run \<Rightarrow> run \<Rightarrow> bool" where
  "same_data r s \<longleftrightarrow> hashes r = hashes s \<and> tokens r = tokens s \<and> marks r = marks s \<and> lastUsed r = lastUsed s"

text \<open>A weight that looks at a run's own data only.\<close>

definition own :: "(run \<Rightarrow> int) \<Rightarrow> bool" where
  "own w \<longleftrightarrow> (\<forall>r s. same_data r s \<longrightarrow> w r = w s)"

lemma own_eq: "own w \<Longrightarrow> same_data r s \<Longrightarrow> w r = w s"
  unfolding own_def by blast

lemma own_weights [simp]: "own n_runs" "own n_blocks" "own n_copies"
  by (auto simp: own_def same_data_def blocks_def)

text \<open>\<open>r1\<close> is \<open>r\<close> with the childless \<open>leaf\<close> removed: the queries it covered are gone, every other
  query finds what it found, and every total drops by the weight of \<open>leaf\<close>.\<close>

definition without_leaf :: "run \<Rightarrow> run \<Rightarrow> run \<Rightarrow> bool" where
  "without_leaf leaf r r1 \<longleftrightarrow>
     same_data r1 r \<and> (\<forall>w. own w \<longrightarrow> tot w r1 = tot w r - tot w leaf) \<and>
     (\<forall>q. look r1 q = look r q \<or> (look r1 q = None \<and> look r q = Some (holders (marks leaf), lastUsed leaf)))"

lemma detach_without:
  assumes "shape_cur isroot r" and "run_find r h = Some leaf" and "kids leaf = []"
  shows "shape_cur isroot (detach isroot h r)" and "without_leaf leaf r (detach isroot h r)"
proof -
  let ?d = "detach isroot h r"
  have so: "kids_sorted first_hash (kids r)" by (rule shape_cur_kids(1) [OF assms(1)])
  have sub: "set (kids ?d) \<subseteq> set (kids r)"
    using unlink_kid_eq [OF so, of h] by (auto simp: run_unlink_def)
  have sd: "kids_sorted first_hash (kids ?d)"
    using kids_sorted_unlink [OF so] by (simp add: run_unlink_def)
  have f: "run_find ?d h' = (if h' = h then None else run_find r h')" for h'
    using run_find_kids_cong [of ?d "run_unlink r h"] run_find_unlink [OF so] by simp
  have ne: "kids r \<noteq> []" using run_find_mem [OF assms(2)] by auto
  show "shape_cur isroot ?d"
  proof (cases isroot)
    case True
    moreover have "in_tails ?d = in_tails r" using True by (simp add: detach_def Let_def)
    ultimately show ?thesis using assms(1) sub sd by (auto simp: shape_cur_def)
  next
    case False
    then have sr: "shape_run r" using assms(1) by (simp add: shape_cur_def)
    then have "in_tails ?d = (kids ?d = [])"
      using False ne by (auto simp: detach_def Let_def shape_run_sel [of r])
    then have "shape_run ?d" using sub sd by (intro shape_run_kidless [OF sr]) simp_all
    then show ?thesis using False by (simp add: shape_cur_def)
  qed
  have "tot w ?d = tot w r - tot w leaf" if "own w" for w
  proof -
    have "w ?d = w r" by (rule own_eq [OF that]) (simp add: same_data_def)
    moreover have "kid_tot w ?d = kid_tot w r - tot w leaf"
      using kid_tot_unlink [OF assms(2), of w] kid_tot_cong [of ?d "run_unlink r h"] by simp
    ultimately show ?thesis by (simp add: tot_sel [of w ?d] tot_sel [of w r])
  qed
  moreover have "look ?d q = look r q \<or> (look ?d q = None \<and> look r q = Some (holders (marks leaf), lastUsed leaf))" for q
    using look_upd [of ?d r h None q] f look_child [of r h q] assms(2) look_leaf [OF assms(3)]
    by (auto split: if_splits)
  ultimately show "without_leaf leaf r ?d" by (simp add: without_leaf_def same_data_def)
qed

lemma first_hash_data: "same_data r s \<Longrightarrow> first_hash r = first_hash s"
  by (simp add: same_data_def first_hash_def)

lemma replace_without:
  assumes "shape_cur isroot r" and c: "run_find r h = Some c" and "shape_run c1" and "without_leaf leaf c c1"
  shows "shape_cur isroot (run_replace r h c1)" and "without_leaf leaf r (run_replace r h c1)"
proof -
  let ?r = "run_replace r h c1"
  have so: "kids_sorted first_hash (kids r)" by (rule shape_cur_kids(1) [OF assms(1)])
  have fc: "first_hash c1 = Some h"
    using assms(4) run_find_mem [OF c] first_hash_data by (auto simp: without_leaf_def)
  have mk: "marks c1 = marks c" using assms(4) by (simp add: without_leaf_def same_data_def)
  have ks: "set (kids ?r) \<subseteq> insert c1 (set (kids r))" using set_kids_replace [OF so c] by auto
  have sd: "kids_sorted first_hash (kids ?r)" by (rule sorted_replace [OF so fc])
  have mem: "c \<in> set (kids r)" using run_find_mem [OF c] by blast
  show "shape_cur isroot ?r"
  proof (cases isroot)
    case True
    then show ?thesis using assms(1,3) ks sd by (auto simp: shape_cur_def)
  next
    case False
    then show ?thesis
      using assms(1,3) ks sd mk mem
      by (auto simp: shape_cur_def shape_run_sel [of r] shape_run_sel [of ?r] kids_replace_Nil subset_iff)
  qed
  have "tot w ?r = tot w r - tot w leaf" if "own w" for w
  proof -
    have "w ?r = w r" by (rule own_eq [OF that]) (simp add: same_data_def)
    moreover have "tot w c1 = tot w c - tot w leaf" using assms(4) that by (simp add: without_leaf_def)
    ultimately show ?thesis
      using kid_tot_replace [OF c, of w c1] by (simp add: tot_sel [of w ?r] tot_sel [of w r])
  qed
  moreover have "look ?r q = look r q \<or> (look ?r q = None \<and> look r q = Some (holders (marks leaf), lastUsed leaf))" for q
  proof (cases "prefix (hashes r @ [h]) q")
    case True
    then show ?thesis
      using look_upd [of ?r r h "Some c1" q] run_find_replace [OF so c fc] look_child [OF True] c assms(4)
      by (simp add: without_leaf_def)
  next
    case False
    then show ?thesis
      using look_upd [of ?r r h "Some c1" q] run_find_replace [OF so c fc] by simp
  qed
  ultimately show "without_leaf leaf r ?r" by (simp add: without_leaf_def same_data_def)
qed

lemma detach_at_without:
  assumes "shape_cur isroot r" and "lookup_at r (pk @ [h]) = Some leaf" and "kids leaf = []"
  shows "shape_cur isroot (update_at (detach (isroot \<and> pk = []) h) r pk) \<and>
    without_leaf leaf r (update_at (detach (isroot \<and> pk = []) h) r pk)"
  using assms
proof (induction pk arbitrary: isroot r)
  case Nil
  then have "run_find r h = Some leaf" by (simp split: option.splits)
  with Nil detach_without show ?case by simp
next
  case (Cons k pk)
  then obtain c where c: "run_find r k = Some c" and l: "lookup_at c (pk @ [h]) = Some leaf"
    by (auto split: option.splits)
  have "shape_run c" using shape_cur_kids(2) [OF Cons.prems(1)] run_find_mem [OF c] by blast
  then have IH: "shape_run (update_at (detach False h) c pk)" "without_leaf leaf c (update_at (detach False h) c pk)"
    using Cons.IH [of False c] l Cons.prems(3) by (simp_all add: shape_cur_def)
  with replace_without [OF Cons.prems(1) c IH] c show ?case by simp
qed


section \<open>References and updates through them\<close>

lemma replace_kid_twice:
  assumes "kids_sorted key ks" and "key c1 = Some h"
  shows "replace_kid key c2 h (replace_kid key c1 h ks) = replace_kid key c2 h ks"
proof (cases "find_kid key ks h")
  case (Some i)
  then have "i < length ks" using find_kid_iff [OF assms(1)] by simp
  moreover have "kids_sorted key (ks[i := c1])"
    using kids_sorted_replace [OF assms] Some by (simp add: replace_kid_def)
  ultimately have "find_kid key (ks[i := c1]) h = Some i" using find_kid_iff assms(2) by fastforce
  with Some show ?thesis by (simp add: replace_kid_def)
qed (simp add: replace_kid_def)

lemma run_replace_twice:
  "kids_sorted first_hash (kids r) \<Longrightarrow> first_hash c1 = Some h \<Longrightarrow>
   run_replace (run_replace r h c1) h c2 = run_replace r h c2"
  by (cases r) (simp add: run_replace_def replace_kid_twice)

lemma same_data_refl [simp]: "same_data r r"
  by (simp add: same_data_def)

lemma same_data_updates [simp]:
  "same_data (detach b h r) r" "same_data (run_replace r h c) r"
  by (simp_all add: same_data_def)

lemma hashes_update_at:
  "(\<And>p. hashes (f p) = hashes p) \<Longrightarrow> hashes (update_at f r pk) = hashes r"
  by (cases pk) (auto split: option.split)

lemma lookup_update_at:
  assumes "shape_cur isroot r" and "lookup_at r pk = Some p" and "\<And>p. hashes (f p) = hashes p"
  shows "lookup_at (update_at f r pk) pk = Some (f p) \<and>
    update_at g (update_at f r pk) pk = update_at (\<lambda>p. g (f p)) r pk"
  using assms(1,2)
proof (induction pk arbitrary: isroot r)
  case (Cons k pk)
  then obtain c where c: "run_find r k = Some c" and l: "lookup_at c pk = Some p"
    by (auto split: option.splits)
  have so: "kids_sorted first_hash (kids r)" by (rule shape_cur_kids(1) [OF Cons.prems(1)])
  have "shape_run c" using shape_cur_kids(2) [OF Cons.prems(1)] run_find_mem [OF c] by blast
  then have IH: "lookup_at (update_at f c pk) pk = Some (f p)"
    "update_at g (update_at f c pk) pk = update_at (\<lambda>p. g (f p)) c pk"
    using Cons.IH [of False c] l by (simp_all add: shape_cur_def)
  have fh: "first_hash (update_at f c pk) = Some k"
    using run_find_mem [OF c] hashes_update_at [of f c pk] assms(3) by (simp add: first_hash_def)
  show ?case
    using c IH run_find_replace [OF so c fh, of k] run_replace_twice [OF so fh] by simp
qed simp

lemma update_at_cong:
  "lookup_at r pk = Some p \<Longrightarrow> f p = g p \<Longrightarrow> update_at f r pk = update_at g r pk"
  by (induction pk arbitrary: r) (auto split: option.splits)

lemma lookup_at_append:
  "lookup_at r (a @ b) = (case lookup_at r a of None \<Rightarrow> None | Some x \<Rightarrow> lookup_at x b)"
  by (induction a arbitrary: r) (auto split: option.splits)

lemma detach_two_steps:
  assumes "shape_cur isroot r" and "lookup_at r pk = Some p" and "pk \<noteq> []"
  shows "lookup_at (update_at (\<lambda>p. run_unlink p h) r pk) pk = Some (run_unlink p h)"
    and "(if kids (run_unlink p h) = []
          then update_at (with_tail True) (update_at (\<lambda>p. run_unlink p h) r pk) pk
          else update_at (\<lambda>p. run_unlink p h) r pk) = update_at (detach False h) r pk"
proof -
  note lu = lookup_update_at [OF assms(1,2), of "\<lambda>p. run_unlink p h" "with_tail True"]
  show "lookup_at (update_at (\<lambda>p. run_unlink p h) r pk) pk = Some (run_unlink p h)"
    using lu by simp
  show "(if kids (run_unlink p h) = []
          then update_at (with_tail True) (update_at (\<lambda>p. run_unlink p h) r pk) pk
          else update_at (\<lambda>p. run_unlink p h) r pk) = update_at (detach False h) r pk"
  proof (cases "kids (run_unlink p h) = []")
    case True
    then have "update_at (\<lambda>p. with_tail True (run_unlink p h)) r pk = update_at (detach False h) r pk"
      by (intro update_at_cong [OF assms(2)]) (simp add: detach_def)
    with True lu show ?thesis by simp
  next
    case False
    then have "update_at (\<lambda>p. run_unlink p h) r pk = update_at (detach False h) r pk"
      by (intro update_at_cong [OF assms(2)]) (simp add: detach_def)
    with False show ?thesis by simp
  qed
qed

text \<open>\<^verbatim>\<open>unlinkRun\<close> is one detachment at the parent.\<close>

lemma unlinkRun_eq:
  assumes "shape_cur True rt" and "map_of (roots sh) mk = Some rt" and "lookup_at rt (pk @ [h]) = Some leaf"
  shows "unlinkRun sh (mk, pk @ [h]) =
    (let rt1 = update_at (detach (pk = []) h) rt pk;
         sh1 = sh\<lparr>sh_copies := sh_copies sh - int (blocks leaf) * int (Count (marks leaf)),
                  sh_blocks := sh_blocks sh - int (blocks leaf), sh_runs := sh_runs sh - 1,
                  sh_expired := sh_expired sh + int (blocks leaf),
                  roots := AList.update mk rt1 (roots sh)\<rparr>
     in (if pk = [] \<and> kids rt1 = [] then dropRoot sh1 mk else sh1, if pk = [] then None else Some (mk, pk)))"
proof (cases "pk = []")
  case True
  then show ?thesis using assms by (simp add: unlinkRun_def deref_def Let_def detach_def)
next
  case False
  obtain p where p: "lookup_at rt pk = Some p"
    using assms(3) by (auto simp: lookup_at_append split: option.splits)
  note d = detach_two_steps [OF assms(1) p False, of h]
  show ?thesis
  proof (cases "kids (run_unlink p h) = []")
    case True
    then show ?thesis using assms False d by (simp add: unlinkRun_def deref_def Let_def)
  next
    case kids: False
    then show ?thesis using assms False d by (simp add: unlinkRun_def deref_def Let_def)
  qed
qed

text \<open>A reference to another childless run survives a detachment.\<close>

lemma lookup_detach_other:
  assumes "shape_cur isroot r" and "lookup_at r (pk @ [h]) = Some leaf" and "kids leaf = []"
  shows "(\<forall>x'. lookup_at (update_at (detach t h) r pk) b = Some x' \<longrightarrow>
       (\<exists>x. lookup_at r b = Some x \<and> same_data x' x)) \<and>
    (\<forall>x. lookup_at r b = Some x \<longrightarrow> kids x = [] \<longrightarrow>
       lookup_at (update_at (detach t h) r pk) b = (if b = pk @ [h] then None else Some x))"
  using assms
proof (induction pk arbitrary: isroot r b)
  case Nil
  then have l: "run_find r h = Some leaf" by (simp split: option.splits)
  have f: "run_find (detach t h r) h' = (if h' = h then None else run_find r h')" for h'
    using run_find_kids_cong [of "detach t h r" "run_unlink r h"]
      run_find_unlink [OF shape_cur_kids(1) [OF Nil.prems(1)]] by simp
  have ne: "kids r \<noteq> []" using run_find_mem [OF l] by auto
  have leafless: "run_find leaf k = None" for k
    using run_find_mem [of leaf k] assms(3) by (cases "run_find leaf k") auto
  show ?case
  proof (cases b)
    case (Cons k b')
    then show ?thesis
      using f [of k] l leafless by (cases b') (auto split: option.splits if_splits)
  qed (use ne in simp)
next
  case (Cons k pk)
  then obtain c where c: "run_find r k = Some c" and l: "lookup_at c (pk @ [h]) = Some leaf"
    by (auto split: option.splits)
  have so: "kids_sorted first_hash (kids r)" by (rule shape_cur_kids(1) [OF Cons.prems(1)])
  have ne: "kids r \<noteq> []" using run_find_mem [OF c] by auto
  have sc: "shape_cur False c"
    using shape_cur_kids(2) [OF Cons.prems(1)] run_find_mem [OF c] by (auto simp: shape_cur_def)
  have fh: "first_hash (update_at (detach t h) c pk) = Some k"
    using run_find_mem [OF c] hashes_update_at [of "detach t h" c pk] by (simp add: first_hash_def)
  show ?case
  proof (cases b)
    case (Cons k' b')
    then show ?thesis
      using run_find_replace [OF so c fh, of k'] c Cons.IH [OF sc l assms(3), of b']
      by (auto split: option.splits)
  qed (use ne c in simp)
qed


section \<open>The tails are the childless runs\<close>

lemma tail_keys_iff:
  assumes "shape_run k"
  shows "ks \<in> set (tail_keys k) \<longleftrightarrow>
    (\<exists>h rest x. ks = h # rest \<and> first_hash k = Some h \<and> lookup_at k rest = Some x \<and> in_tails x)"
  using assms
proof (induction k arbitrary: ks)
  case (Run hs ts kk ms lu tr f)
  let ?r = "Run hs ts kk ms lu tr f"
  obtain h hs' where hs: "hs = h # hs'" using Run.prems by (cases hs) (auto simp: shape_run.simps)
  have so: "kids_sorted first_hash (kids ?r)" using Run.prems by (simp add: shape_run.simps)
  have sub: "\<And>c. c \<in> set kk \<Longrightarrow> shape_run c" using Run.prems by (simp add: shape_run.simps)
  have kid: "run_find ?r h' = Some c \<longleftrightarrow> c \<in> set kk \<and> first_hash c = Some h'" for h' c
    using run_find_iff [OF so, of h' c] by simp
  have lk: "lookup_at ?r (h' # rest') = Some x \<longleftrightarrow> (\<exists>c. run_find ?r h' = Some c \<and> lookup_at c rest' = Some x)"
    for h' rest' x by (auto split: option.splits)
  have deep: "rest \<in> set (concat (map tail_keys kk)) \<longleftrightarrow>
      (\<exists>h' rest' x. rest = h' # rest' \<and> lookup_at ?r rest = Some x \<and> in_tails x)" for rest
  proof -
    have "rest \<in> set (concat (map tail_keys kk)) \<longleftrightarrow> (\<exists>c\<in>set kk. rest \<in> set (tail_keys c))" by auto
    also have "\<dots> \<longleftrightarrow> (\<exists>c\<in>set kk. \<exists>h' rest' x. rest = h' # rest' \<and> first_hash c = Some h' \<and>
        lookup_at c rest' = Some x \<and> in_tails x)"
      using Run.IH sub by (intro bex_cong refl) blast
    also have "\<dots> \<longleftrightarrow> (\<exists>h' rest' x. rest = h' # rest' \<and> lookup_at ?r rest = Some x \<and> in_tails x)"
      using lk unfolding kid by blast
    finally show ?thesis .
  qed
  have "ks \<in> set (tail_keys ?r) \<longleftrightarrow> (f \<and> ks = [h]) \<or> (\<exists>rest. ks = h # rest \<and> rest \<in> set (concat (map tail_keys kk)))"
    by (auto simp: hs)
  moreover have "lookup_at ?r [] = Some ?r" and "in_tails ?r = f" and "first_hash ?r = Some h"
    by (simp_all add: hs first_hash_def)
  ultimately show ?case unfolding deep by (metis list.exhaust option.inject)
qed

lemma all_marked_tails:
  assumes "shape_run k" and "\<And>rest x. lookup_at k rest = Some x \<Longrightarrow> in_tails x \<Longrightarrow> holders (marks x) \<noteq> {}"
  shows "all_marked k"
  using assms
proof (induction k)
  case (Run hs ts kk ms lu tr f)
  let ?r = "Run hs ts kk ms lu tr f"
  have so: "kids_sorted first_hash (kids ?r)" using Run.prems by (simp add: shape_run.simps)
  have kids: "all_marked c" if c: "c \<in> set kk" for c
  proof (rule Run.IH [OF c])
    show "shape_run c" using Run.prems(1) c by (simp add: shape_run.simps)
    then obtain h where "first_hash c = Some h"
      by (cases "hashes c") (auto simp: shape_run_sel [of c] first_hash_def)
    then have "run_find ?r h = Some c" using run_find_iff [OF so] c by simp
    then show "holders (marks x) \<noteq> {}" if "lookup_at c rest = Some x" "in_tails x" for rest x
      using Run.prems(2) [of "h # rest" x] that by simp
  qed
  have "holders ms \<noteq> {}"
  proof (cases kk)
    case Nil
    then show ?thesis using Run.prems(1) Run.prems(2) [of "[]" ?r] by (simp add: shape_run.simps)
  next
    case (Cons c kk')
    then have "holders (marks c) \<noteq> {}" using kids [of c] by (cases c) auto
    then show ?thesis using Run.prems(1) Cons by (auto simp: shape_run.simps)
  qed
  with kids show ?case by simp
qed

section \<open>Clearing a slot\<close>

fun cleared :: "int \<Rightarrow> bool \<Rightarrow> run \<Rightarrow> run" where
  "cleared s isroot (Run hs ts ks ms lu tr f) =
     Run hs ts (map (cleared s False) ks) (if \<not> isroot \<and> Has ms s then Remove ms s else ms) lu tr f"

abbreviation n_held :: "int \<Rightarrow> run \<Rightarrow> int" where
  "n_held s \<equiv> \<lambda>r. if Has (marks r) s then int (blocks r) else 0"

lemma clearSlot_eq:
  "clearSlot s isroot r c = (cleared s isroot r, c - (if isroot then kid_tot (n_held s) r else tot (n_held s) r))"
  "clearSlots s ks c = (map (cleared s False) ks, c - (\<Sum>k\<leftarrow>ks. tot (n_held s) k))"
  by (induction s isroot r c and s ks c rule: clearSlot_clearSlots.induct)
    (auto simp: kid_tot_def tot.simps blocks_def)

lemma cleared_sel [simp]:
  "hashes (cleared s b r) = hashes r" "tokens (cleared s b r) = tokens r" "lastUsed (cleared s b r) = lastUsed r"
  "in_tails (cleared s b r) = in_tails r" "kids (cleared s b r) = map (cleared s False) (kids r)"
  "marks (cleared s b r) = (if \<not> b \<and> Has (marks r) s then Remove (marks r) s else marks r)"
  by (cases r; simp)+

lemma holders_cleared: "holders (marks (cleared s False r)) = holders (marks r) - {s}"
  by (auto simp: marks_simps)

lemma lookup_kid_map:
  assumes "kids_sorted key ks" and "\<And>k. key (f k) = key k"
  shows "kids_sorted key (map f ks)" and "lookup_kid key (map f ks) h = map_option f (lookup_kid key ks h)"
proof -
  have "map (the \<circ> key) (map f ks) = map (the \<circ> key) ks" using assms(2) by simp
  then show so: "kids_sorted key (map f ks)" using assms by (simp add: kids_sorted_def del: map_map)
  show "lookup_kid key (map f ks) h = map_option f (lookup_kid key ks h)"
  proof (cases "lookup_kid key ks h")
    case None
    have "lookup_kid key (map f ks) h \<noteq> Some c" for c
      using None lookup_kid_iff [OF so, of h c] lookup_kid_iff [OF assms(1), of h] assms(2) by auto
    with None show ?thesis by auto
  next
    case (Some c)
    then show ?thesis using lookup_kid_iff [OF so, of h "f c"] lookup_kid_iff [OF assms(1), of h c] assms(2) by simp
  qed
qed

lemma first_hash_cleared [simp]: "first_hash (cleared s b r) = first_hash r"
  by (simp add: first_hash_def)

lemma shape_cleared: "shape_run r \<Longrightarrow> shape_run (cleared s False r)"
proof (induction r)
  case (Run hs ts ks ms lu tr f)
  have "kids_sorted first_hash (map (cleared s False) ks)"
    using Run.prems by (intro lookup_kid_map(1)) (simp_all add: shape_run.simps)
  with Run show ?case
    unfolding shape_run_sel [of "cleared s False (Run hs ts ks ms lu tr f)"] shape_run_sel [of "Run hs ts ks ms lu tr f"]
    by (auto simp: marks_simps)
qed

lemma shape_cur_cleared: "shape_cur isroot r \<Longrightarrow> shape_cur isroot (cleared s isroot r)"
  using shape_cleared lookup_kid_map(1) [of first_hash "kids r" "cleared s False"]
  by (auto simp: shape_cur_def)

lemma look_cleared:
  "shape_run r \<Longrightarrow> look (cleared s False r) q = map_option (\<lambda>(hs, l). (hs - {s}, l)) (look r q)"
proof (induction r arbitrary: q rule: run_find_induct)
  case (step r)
  let ?c = "cleared s False r"
  have so: "kids_sorted first_hash (kids r)" using step.prems by (simp add: shape_run_sel [of r])
  have find: "run_find ?c h = map_option (cleared s False) (run_find r h)" for h
    using lookup_kid_map(2) [OF so, of "cleared s False" h] by (simp add: run_find_def)
  show ?case
  proof (cases q "hashes r" rule: query_cases)
    case (beyond h q')
    have "shape_run c" if "run_find r h = Some c" for c
      using that step.prems by (auto dest!: run_find_mem simp: shape_run_sel [of r])
    then show ?thesis
      using look_beyond [of ?c h q'] look_beyond [of r h q'] step.IH [of h _ "h # q'"] find [of h] beyond
      by (auto split: option.split)
  qed (simp_all add: look_prefix look_diverge holders_cleared del: cleared_sel(6))
qed

lemma look_cleared_root:
  assumes "shape_cur True r" and "q \<noteq> []"
  shows "look (cleared s True r) q = map_option (\<lambda>(hs, l). (hs - {s}, l)) (look r q)"
proof -
  let ?c = "cleared s True r"
  obtain h q' where q: "q = h # q'" using assms(2) by (cases q) auto
  have so: "kids_sorted first_hash (kids r)" and hs: "hashes r = []"
    using assms(1) by (simp_all add: shape_cur_def)
  have find: "run_find ?c h = map_option (cleared s False) (run_find r h)"
    using lookup_kid_map(2) [OF so, of "cleared s False" h] by (simp add: run_find_def)
  have "shape_run c" if "run_find r h = Some c" for c
    using that shape_cur_kids(2) [OF assms(1)] by (auto dest!: run_find_mem)
  then show ?thesis
    using look_beyond [of ?c h q'] look_beyond [of r h q'] find look_cleared hs q by (auto split: option.split)
qed

lemma blocks_Run: "blocks (Run hs ts ks ms lu tr f) = length hs"
  by (simp add: blocks_def)

lemma tot_cleared:
  "tot n_runs (cleared s False r) = tot n_runs r \<and> tot n_blocks (cleared s False r) = tot n_blocks r \<and>
   tot n_copies (cleared s False r) = tot n_copies r - tot (n_held s) r"
proof (induction r)
  case (Run hs ts ks ms lu tr f)
  have "(\<Sum>k\<leftarrow>ks. tot n_copies (cleared s False k)) = (\<Sum>k\<leftarrow>ks. tot n_copies k - tot (n_held s) k)"
    using Run.IH by (intro arg_cong [where f = sum_list] map_cong) auto
  also have "\<dots> = (\<Sum>k\<leftarrow>ks. tot n_copies k) - (\<Sum>k\<leftarrow>ks. tot (n_held s) k)"
    by (rule sum_list_subtractf)
  finally have k: "(\<Sum>k\<leftarrow>ks. tot n_copies (cleared s False k)) = \<dots>" .
  have c: "int (Count (Remove ms s)) = int (Count ms) - 1" if "Has ms s"
    using that ms.count_remove [of ms s] ms.count_zero [of ms] by (auto simp: Empty_iff of_nat_diff)
  have "(\<Sum>k\<leftarrow>ks. tot n_runs (cleared s False k)) = (\<Sum>k\<leftarrow>ks. tot n_runs k)"
    "(\<Sum>k\<leftarrow>ks. tot n_blocks (cleared s False k)) = (\<Sum>k\<leftarrow>ks. tot n_blocks k)"
    using Run.IH by (intro arg_cong [where f = sum_list] map_cong; simp)+
  moreover have "int (length hs) * int (Count (Remove ms s)) = int (length hs) * int (Count ms) - int (length hs)"
    if "Has ms s" using c [OF that] by (simp add: right_diff_distrib)
  ultimately show ?case using k by (simp add: tot.simps blocks_Run comp_def)
qed

end
