(* ===== verification/TreeForest.thy ===== *)
theory TreeForest
  imports TreeEvict
begin

text \<open>
  The forest of \<^verbatim>\<open>tree.go\<close> as a whole: shards and their counters, the slot table, and the
  operations the policy calls. \<open>path_holders\<close> is the abstract state a client sees, the set of
  backends recorded for a request path; every operation is described by its effect on it.
\<close>

section \<open>Shards\<close>

definition shard_look :: "shard \<Rightarrow> u64 \<Rightarrow> u64 list \<Rightarrow> (int set \<times> ns) option" where
  "shard_look sh mk q = (case map_of (roots sh) mk of None \<Rightarrow> None | Some rt \<Rightarrow> look rt q)"

definition shard_tot :: "(run \<Rightarrow> int) \<Rightarrow> (u64 \<times> run) list \<Rightarrow> int" where
  "shard_tot w rs = (\<Sum>x\<leftarrow>rs. kid_tot w (snd x))"

text \<open>The shape of a shard, with its counters equal to the totals over its runs.\<close>

definition shape_shard :: "shard \<Rightarrow> bool" where
  "shape_shard sh \<longleftrightarrow>
     distinct (map fst (roots sh)) \<and> (\<forall>x\<in>set (roots sh). shape_cur True (snd x) \<and> kids (snd x) \<noteq> []) \<and>
     sh_runs sh = shard_tot n_runs (roots sh) \<and> sh_blocks sh = shard_tot n_blocks (roots sh) \<and>
     sh_copies sh = shard_tot n_copies (roots sh)"

definition shard_marked :: "shard \<Rightarrow> bool" where
  "shard_marked sh \<longleftrightarrow> (\<forall>x\<in>set (roots sh). \<forall>k\<in>set (kids (snd x)). all_marked k)"

definition wf_shard :: "shard \<Rightarrow> bool" where
  "wf_shard sh \<longleftrightarrow> shape_shard sh \<and> shard_marked sh"

lemma wf_root_shape: "wf_root r \<longleftrightarrow> shape_cur True r \<and> (\<forall>k\<in>set (kids r). all_marked k)"
  by (auto simp: wf_root_def shape_cur_def wf_run_shape)

lemma wf_shard_root: "wf_shard sh \<Longrightarrow> map_of (roots sh) mk = Some rt \<Longrightarrow> wf_root rt \<and> kids rt \<noteq> []"
  by (auto simp: wf_shard_def shape_shard_def shard_marked_def wf_root_shape dest!: map_of_SomeD)

lemma shape_shard_root: "shape_shard sh \<Longrightarrow> map_of (roots sh) mk = Some rt \<Longrightarrow> shape_cur True rt"
  by (auto simp: shape_shard_def dest!: map_of_SomeD)

lemma shard_tot_update:
  "distinct (map fst rs) \<Longrightarrow> shard_tot w (AList.update mk rt rs) =
     shard_tot w rs + kid_tot w rt - (case map_of rs mk of None \<Rightarrow> 0 | Some old \<Rightarrow> kid_tot w old)"
  by (induction rs) (auto simp: shard_tot_def split: option.splits)

lemma shard_tot_delete:
  "distinct (map fst rs) \<Longrightarrow> shard_tot w (AList.delete mk rs) =
     shard_tot w rs - (case map_of rs mk of None \<Rightarrow> 0 | Some old \<Rightarrow> kid_tot w old)"
proof (induction rs)
  case (Cons x rs)
  show ?case
  proof (cases "fst x = mk")
    case True
    moreover from Cons.prems True have "AList.delete mk rs = rs"
      by (auto intro!: delete_id)
    ultimately show ?thesis by (cases x) (simp add: shard_tot_def AList.delete_eq)
  next
    case False
    with Cons show ?thesis by (cases x) (simp add: shard_tot_def AList.delete_eq)
  qed
qed (simp add: shard_tot_def)

lemma set_update_roots:
  "distinct (map fst rs) \<Longrightarrow> x \<in> set (AList.update mk rt rs) \<Longrightarrow> x = (mk, rt) \<or> x \<in> set rs"
  by (induction rs) (auto split: if_splits)

lemma map_of_update_roots: "map_of (AList.update k v al) k' = (if k' = k then Some v else map_of al k')"
  by (simp add: update_conv')

lemma map_of_delete_roots: "map_of (AList.delete k al) k' = (if k' = k then None else map_of al k')"
  by (simp add: delete_conv')

lemma kid_tot_nonneg: "(\<And>r. 0 \<le> w r) \<Longrightarrow> 0 \<le> tot w r"
proof (induction r)
  case (Run hs ts ks ms lu tr f)
  have "0 \<le> (\<Sum>k\<leftarrow>ks. tot w k)" using Run by (intro sum_list_nonneg) auto
  then show ?case using Run.prems by (simp add: tot.simps)
qed

lemma shard_tot_nonneg: "(\<And>r. 0 \<le> w r) \<Longrightarrow> 0 \<le> shard_tot w rs"
  unfolding shard_tot_def kid_tot_def using kid_tot_nonneg by (intro sum_list_nonneg) (auto intro!: sum_list_nonneg)

section \<open>Pruning\<close>

text \<open>\<open>pruned P n sh sh'\<close>: the shard lost \<open>n\<close> blocks, all of them in runs whose holders and last use
  satisfy \<open>P\<close>; every other query finds what it found; references to the remaining childless runs stay
  valid, and none comes back to life.\<close>

definition pruned :: "(int set \<times> ns \<Rightarrow> bool) \<Rightarrow> int \<Rightarrow> shard \<Rightarrow> shard \<Rightarrow> bool" where
  "pruned P n sh sh' \<longleftrightarrow>
     shape_shard sh' \<and> sh_blocks sh' = sh_blocks sh - n \<and> sh_expired sh' = sh_expired sh + n \<and>
     sh_runs sh' \<le> sh_runs sh \<and>
     (\<forall>mk q. q \<noteq> [] \<longrightarrow> shard_look sh' mk q = shard_look sh mk q \<or>
        (shard_look sh' mk q = None \<and> (\<exists>i. shard_look sh mk q = Some i \<and> P i))) \<and>
     (\<forall>b x'. deref sh' b = Some x' \<longrightarrow> (\<exists>x. deref sh b = Some x \<and> marks x' = marks x)) \<and>
     (\<forall>b x. deref sh b = Some x \<longrightarrow> kids x = [] \<longrightarrow> deref sh' b = None \<or> deref sh' b = Some x)"

lemma pruned_refl: "shape_shard sh \<Longrightarrow> pruned P 0 sh sh"
  by (simp add: pruned_def)

lemma pruned_bwd: "pruned P n sh sh' \<Longrightarrow> deref sh' b = Some x' \<Longrightarrow> \<exists>x. deref sh b = Some x \<and> marks x' = marks x"
  unfolding pruned_def by blast

lemma pruned_fwd:
  "pruned P n sh sh' \<Longrightarrow> deref sh b = Some x \<Longrightarrow> kids x = [] \<Longrightarrow> deref sh' b = None \<or> deref sh' b = Some x"
  unfolding pruned_def by blast

lemma pruned_look:
  "pruned P n sh sh' \<Longrightarrow> q \<noteq> [] \<Longrightarrow> shard_look sh' mk q = shard_look sh mk q \<or>
     (shard_look sh' mk q = None \<and> (\<exists>i. shard_look sh mk q = Some i \<and> P i))"
  unfolding pruned_def by blast

lemma pruned_none: "pruned P n sh sh' \<Longrightarrow> deref sh b = None \<Longrightarrow> deref sh' b = None"
  using pruned_bwd [of P n sh sh' b] by (cases "deref sh' b") auto

lemma pruned_trans:
  assumes "pruned P a sh sh1" and "pruned P b sh1 sh2"
  shows "pruned P (a + b) sh sh2"
  unfolding pruned_def
proof (intro conjI allI impI)
  fix mk q assume "q \<noteq> ([] :: u64 list)"
  with assms show "shard_look sh2 mk q = shard_look sh mk q \<or>
      (shard_look sh2 mk q = None \<and> (\<exists>i. shard_look sh mk q = Some i \<and> P i))"
    unfolding pruned_def by metis
next
  fix ref x' assume "deref sh2 ref = Some x'"
  then show "\<exists>x. deref sh ref = Some x \<and> marks x' = marks x" by (metis assms pruned_bwd)
next
  fix ref x assume "deref sh ref = Some x" "kids x = []"
  then show "deref sh2 ref = None \<or> deref sh2 ref = Some x" by (metis assms pruned_fwd pruned_none)
qed (use assms in \<open>auto simp: pruned_def\<close>)

lemma pruned_weaken: "pruned P n sh sh' \<Longrightarrow> (\<And>i. P i \<Longrightarrow> Q i) \<Longrightarrow> pruned Q n sh sh'"
  unfolding pruned_def by blast

lemma deref_split:
  assumes "deref sh ref = Some leaf"
  obtains rt pk h where "ref = (fst ref, pk @ [h])" "map_of (roots sh) (fst ref) = Some rt"
    "lookup_at rt (pk @ [h]) = Some leaf"
proof -
  from assms have "snd ref \<noteq> []" by (auto simp: deref_def split: if_splits)
  then have "snd ref = butlast (snd ref) @ [last (snd ref)]" by simp
  moreover obtain rt where "map_of (roots sh) (fst ref) = Some rt" "lookup_at rt (snd ref) = Some leaf"
    using assms by (auto simp: deref_def split: if_splits option.splits)
  ultimately show thesis using that by (metis prod.collapse)
qed


lemma lookup_at_childless: "kids r = [] \<Longrightarrow> ks \<noteq> [] \<Longrightarrow> lookup_at r ks = None"
  using run_find_mem [of r] by (cases ks) (auto split: option.splits)

text \<open>The roots of a shard after the model \<open>mk\<close>'s tree became \<open>rt1\<close>, dropped when empty.\<close>

definition put_root :: "u64 \<Rightarrow> run \<Rightarrow> (u64 \<times> run) list \<Rightarrow> (u64 \<times> run) list" where
  "put_root mk rt1 rs = (if kids rt1 = [] then AList.delete mk rs else AList.update mk rt1 rs)"

lemma put_root_props:
  assumes "distinct (map fst rs)" and "hashes rt1 = []"
  shows "distinct (map fst (put_root mk rt1 rs))"
    and "x \<in> set (put_root mk rt1 rs) \<Longrightarrow> x \<in> set rs \<or> (x = (mk, rt1) \<and> kids rt1 \<noteq> [])"
    and "shard_tot w (put_root mk rt1 rs) =
      shard_tot w rs + kid_tot w rt1 - (case map_of rs mk of None \<Rightarrow> 0 | Some old \<Rightarrow> kid_tot w old)"
    and "map_of (put_root mk rt1 rs) mk' =
      (if mk' = mk then if kids rt1 = [] then None else Some rt1 else map_of rs mk')"
proof -
  show "distinct (map fst (put_root mk rt1 rs))"
    using assms(1) by (simp add: put_root_def distinct_delete distinct_update)
  show "x \<in> set rs \<or> (x = (mk, rt1) \<and> kids rt1 \<noteq> [])" if "x \<in> set (put_root mk rt1 rs)"
    using that set_update_roots [OF assms(1), of x mk rt1]
    by (auto simp: put_root_def AList.delete_eq split: if_splits)
  show "shard_tot w (put_root mk rt1 rs) =
      shard_tot w rs + kid_tot w rt1 - (case map_of rs mk of None \<Rightarrow> 0 | Some old \<Rightarrow> kid_tot w old)"
    using shard_tot_update [OF assms(1), of w mk rt1] shard_tot_delete [OF assms(1), of w mk]
    by (simp add: put_root_def kid_tot_def)
  show "map_of (put_root mk rt1 rs) mk' =
      (if mk' = mk then if kids rt1 = [] then None else Some rt1 else map_of rs mk')"
    by (simp add: put_root_def map_of_update_roots map_of_delete_roots)
qed

lemma put_root_views:
  assumes "distinct (map fst (roots sh))" and "hashes rt1 = []" and "roots sh' = put_root mk rt1 (roots sh)"
  shows "q \<noteq> [] \<Longrightarrow> shard_look sh' mk' q = (if mk' = mk then look rt1 q else shard_look sh mk' q)"
    and "deref sh' (mk', ks) =
      (if mk' = mk then if ks = [] then None else lookup_at rt1 ks else deref sh (mk', ks))"
  using assms put_root_props(4) [OF assms(1,2)] lookup_at_childless [of rt1] look_leaf [of rt1]
  by (auto simp: shard_look_def deref_def)

lemma put_root_shape:
  assumes "shape_shard sh" and "shape_cur True rt1" and "roots sh' = put_root mk rt1 (roots sh)"
    and old: "\<And>w. old w = (case map_of (roots sh) mk of None \<Rightarrow> 0 | Some rt \<Rightarrow> kid_tot w rt)"
    and "sh_runs sh' - sh_runs sh = kid_tot n_runs rt1 - old n_runs"
    and "sh_blocks sh' - sh_blocks sh = kid_tot n_blocks rt1 - old n_blocks"
    and "sh_copies sh' - sh_copies sh = kid_tot n_copies rt1 - old n_copies"
  shows "shape_shard sh'"
proof -
  have d: "distinct (map fst (roots sh))" and hs: "hashes rt1 = []"
    using assms(1,2) by (simp_all add: shape_shard_def shape_cur_def)
  note pp = put_root_props [OF d hs, where mk = mk]
  show ?thesis
    using assms pp(1,2) unfolding shape_shard_def assms(3) pp(3) by (fastforce simp: old)
qed

lemma unlink_pruned:
  assumes sh: "shape_shard sh" and ref: "deref sh ref = Some leaf" and leaf: "kids leaf = []"
    and P: "P (holders (marks leaf), lastUsed leaf)"
  shows "pruned P (int (blocks leaf)) sh (fst (unlinkRun sh ref))"
    and "sh_runs (fst (unlinkRun sh ref)) < sh_runs sh" and "deref (fst (unlinkRun sh ref)) ref = None"
proof -
  obtain rt pk h where r: "ref = (fst ref, pk @ [h])" "map_of (roots sh) (fst ref) = Some rt"
      "lookup_at rt (pk @ [h]) = Some leaf" using ref by (rule deref_split)
  let ?mk = "fst ref" and ?sh = "fst (unlinkRun sh ref)"
  define rt1 where "rt1 = update_at (detach (pk = []) h) rt pk"
  have S: "shape_cur True rt" by (rule shape_shard_root [OF sh r(2)])
  have W: "shape_cur True rt1" "without_leaf leaf rt rt1"
    using detach_at_without [OF S r(3) leaf] by (simp_all add: rt1_def)
  have d: "distinct (map fst (roots sh))" and hs: "hashes rt1 = []"
    using sh W(1) by (simp_all add: shape_shard_def shape_cur_def)
  have ne: "kids rt1 \<noteq> []" if "pk \<noteq> []"
  proof -
    obtain k pk' where "pk = k # pk'" using \<open>pk \<noteq> []\<close> by (cases pk) auto
    moreover from this obtain c where "run_find rt k = Some c" using r(3) by (auto split: option.splits)
    ultimately show ?thesis using run_find_mem [of rt k c] by (auto simp: rt1_def kids_replace_Nil)
  qed
  have un: "?sh = sh\<lparr>sh_copies := sh_copies sh - int (blocks leaf) * int (Count (marks leaf)),
      sh_blocks := sh_blocks sh - int (blocks leaf), sh_runs := sh_runs sh - 1,
      sh_expired := sh_expired sh + int (blocks leaf), roots := put_root ?mk rt1 (roots sh)\<rparr>"
    using unlinkRun_eq [OF S r(2,3)] ne
    by (subst r(1)) (auto simp: Let_def rt1_def put_root_def dropRoot_def delete_update_same)
  then have rs: "roots ?sh = put_root ?mk rt1 (roots sh)" by simp
  note V = put_root_views [OF d hs rs]
  have kt: "kid_tot w rt1 = kid_tot w rt - w leaf" if "own w" for w
  proof -
    have "w rt1 = w rt" using W(2) own_eq [OF that] by (simp add: without_leaf_def)
    then show ?thesis
      using W(2) that tot_leaf [OF leaf, of w] tot_sel [of w rt] tot_sel [of w rt1]
      by (simp add: without_leaf_def)
  qed
  have shape: "shape_shard ?sh"
    by (rule put_root_shape [OF sh W(1) rs refl]) (simp_all add: un r(2) kt)
  have look: "shard_look ?sh m q = shard_look sh m q \<or>
      (shard_look ?sh m q = None \<and> (\<exists>i. shard_look sh m q = Some i \<and> P i))" if "q \<noteq> []" for m q
    using V(1) [OF that, of m] W(2) P r(2) by (auto simp: without_leaf_def shard_look_def)
  note other = lookup_detach_other [OF S r(3) leaf, where t = "pk = []", folded rt1_def]
  have D: "deref sh (?mk, ks) = (if ks = [] then None else lookup_at rt ks)" for ks
    by (simp add: deref_def r(2))
  have prev: "\<exists>x. deref sh (m, ks) = Some x \<and> marks x' = marks x" if "deref ?sh (m, ks) = Some x'" for m ks x'
    using that other [of ks] V(2) [of m ks] D [of ks] by (auto simp: same_data_def split: if_splits)
  have live: "deref ?sh (m, ks) = None \<or> deref ?sh (m, ks) = Some x"
    if "deref sh (m, ks) = Some x" "kids x = []" for m ks x
    using that other [of ks] V(2) [of m ks] D [of ks] by (auto split: if_splits)
  show "pruned P (int (blocks leaf)) sh ?sh"
    unfolding pruned_def using shape look prev live by (auto simp: un)
  show "sh_runs ?sh < sh_runs sh" by (simp add: un)
  show "deref ?sh ref = None"
    using other [of "pk @ [h]"] V(2) [of ?mk "pk @ [h]"] r leaf by simp
qed


section \<open>Sweeping idle tails\<close>

abbreviation idle :: "ns \<Rightarrow> ns \<Rightarrow> int set \<times> ns \<Rightarrow> bool" where
  "idle now d \<equiv> \<lambda>(_, l). now - l > d"

lemma evictTail_pruned:
  assumes "shape_shard sh"
    and "\<And>r. deref sh ref = Some r \<Longrightarrow> kids r = [] \<Longrightarrow> now - lastUsed r > d"
  shows "pruned (idle now d) (fst (evictTail now d depth sh ref)) sh (snd (evictTail now d depth sh ref))"
  using assms
proof (induction now d depth sh ref rule: evictTail.induct)
  case (1 now d depth sh ref)
  note refl = pruned_refl [OF "1.prems"(1), of "idle now d"]
  show ?case
  proof (cases "depth < maxCascade")
    case False
    then show ?thesis using refl by (simp add: evictTail.simps [of now d depth])
  next
    case True
    show ?thesis
    proof (cases "\<exists>r. deref sh ref = Some r \<and> kids r = []")
      case False
      then have "evictTail now d depth sh ref = (0, sh)"
        by (auto simp: evictTail.simps [of now d depth] split: option.split)
      then show ?thesis using refl by simp
    next
      case ex: True
      then obtain r where r: "deref sh ref = Some r" "kids r = []" by blast
      obtain sh1 p where u: "unlinkRun sh ref = (sh1, p)" by (cases "unlinkRun sh ref")
      have P: "pruned (idle now d) (int (blocks r)) sh sh1"
        using unlink_pruned(1) [OF "1.prems"(1) r, of "idle now d"] "1.prems"(2) [OF r] u by simp
      then have sh1: "shape_shard sh1" by (simp add: pruned_def)
      show ?thesis
      proof (cases "\<exists>pref pr. p = Some pref \<and> deref sh1 pref = Some pr \<and> kids pr = [] \<and> now - lastUsed pr > d")
        case False
        then have "evictTail now d depth sh ref = (int (blocks r), sh1)"
          using True r u by (auto simp: evictTail.simps [of now d depth] split: option.split)
        with P show ?thesis by simp
      next
        case cont: True
        then obtain pref pr where pr: "p = Some pref" "deref sh1 pref = Some pr" "kids pr = []"
            "now - lastUsed pr > d" by blast
        have "pruned (idle now d) (fst (evictTail now d (Suc depth) sh1 pref)) sh1
            (snd (evictTail now d (Suc depth) sh1 pref))"
          using "1.IH" [OF True r(1) _ u [symmetric] _ pr(1,2)] r(2) pr sh1 by auto
        with P have "pruned (idle now d) (int (blocks r) + fst (evictTail now d (Suc depth) sh1 pref)) sh
            (snd (evictTail now d (Suc depth) sh1 pref))" by (rule pruned_trans)
        moreover have "evictTail now d depth sh ref =
            (int (blocks r) + fst (evictTail now d (Suc depth) sh1 pref), snd (evictTail now d (Suc depth) sh1 pref))"
          using True r u pr by (simp add: evictTail.simps [of now d depth] split_def Let_def)
        ultimately show ?thesis by simp
      qed
    qed
  qed
qed

text \<open>A tail handed to \<^verbatim>\<open>evictTail\<close> is gone afterwards.\<close>

lemma evictTail_gone:
  assumes "shape_shard sh" and "\<And>r. deref sh ref = Some r \<Longrightarrow> kids r = [] \<and> now - lastUsed r > d"
  shows "deref (snd (evictTail now d 0 sh ref)) ref = None"
proof (cases "deref sh ref")
  case None
  then show ?thesis by (simp add: evictTail.simps [of now d 0])
next
  case (Some r)
  note r = assms(2) [OF Some]
  obtain sh1 p where u: "unlinkRun sh ref = (sh1, p)" by (cases "unlinkRun sh ref")
  have P: "pruned (\<lambda>_. True) (int (blocks r)) sh sh1" and none: "deref sh1 ref = None"
    using unlink_pruned(1,3) [OF assms(1) Some, of "\<lambda>_. True"] r u by simp_all
  then have sh1: "shape_shard sh1" by (simp add: pruned_def)
  show ?thesis
  proof (cases "\<exists>pref pr. p = Some pref \<and> deref sh1 pref = Some pr \<and> kids pr = [] \<and> now - lastUsed pr > d")
    case False
    then have "evictTail now d 0 sh ref = (int (blocks r), sh1)"
      using Some r u by (auto simp: evictTail.simps [of now d 0] maxCascade_def split: option.split)
    with none show ?thesis by simp
  next
    case True
    then obtain pref pr where pr: "p = Some pref" "deref sh1 pref = Some pr" "kids pr = []"
        "now - lastUsed pr > d" by blast
    then have "pruned (idle now d) (fst (evictTail now d (Suc 0) sh1 pref)) sh1 (snd (evictTail now d (Suc 0) sh1 pref))"
      by (intro evictTail_pruned [OF sh1]) simp
    moreover have "snd (evictTail now d 0 sh ref) = snd (evictTail now d (Suc 0) sh1 pref)"
      using Some r u pr by (simp add: evictTail.simps [of now d 0] split_def Let_def maxCascade_def)
    ultimately show ?thesis using none pruned_none by metis
  qed
qed

lemma lookup_at_Cons:
  "lookup_at r (h # rest) = Some x \<longleftrightarrow> (\<exists>c. run_find r h = Some c \<and> lookup_at c rest = Some x)"
  by (auto split: option.splits)

lemma tails_iff:
  assumes "shape_shard sh"
  shows "ref \<in> set (tails sh) \<longleftrightarrow> (\<exists>r. deref sh ref = Some r \<and> in_tails r)"
proof -
  obtain mk ks where ref: "ref = (mk, ks)" by (cases ref)
  have d: "distinct (map fst (roots sh))" using assms by (simp add: shape_shard_def)
  have "ref \<in> set (tails sh) \<longleftrightarrow> (\<exists>rt. map_of (roots sh) mk = Some rt \<and> (\<exists>k\<in>set (kids rt). ks \<in> set (tail_keys k)))"
    using d by (force simp: ref tails_def map_of_eq_Some_iff)
  also have "\<dots> \<longleftrightarrow> (\<exists>rt. map_of (roots sh) mk = Some rt \<and> ks \<noteq> [] \<and> (\<exists>r. lookup_at rt ks = Some r \<and> in_tails r))"
  proof -
    have "(\<exists>k\<in>set (kids rt). ks \<in> set (tail_keys k)) \<longleftrightarrow> ks \<noteq> [] \<and> (\<exists>r. lookup_at rt ks = Some r \<and> in_tails r)"
      if "map_of (roots sh) mk = Some rt" for rt
    proof -
      have S: "shape_cur True rt" by (rule shape_shard_root [OF assms that])
      show ?thesis
        using tail_keys_iff [OF shape_cur_kids(2) [OF S], of _ ks]
        by (cases ks) (auto simp: lookup_at_Cons run_find_iff [OF shape_cur_kids(1) [OF S]] simp del: lookup_at.simps)
    qed
    then show ?thesis by blast
  qed
  also have "\<dots> \<longleftrightarrow> (\<exists>r. deref sh ref = Some r \<and> in_tails r)"
    by (auto simp: ref deref_def split: option.split)
  finally show ?thesis .
qed

lemma lookup_at_shape:
  "shape_cur isroot r \<Longrightarrow> ks \<noteq> [] \<Longrightarrow> lookup_at r ks = Some x \<Longrightarrow> shape_run x"
proof (induction ks arbitrary: isroot r)
  case (Cons k ks)
  then obtain c where c: "run_find r k = Some c" "lookup_at c ks = Some x" by (auto split: option.splits)
  then have "shape_run c" using shape_cur_kids(2) [OF Cons.prems(1)] run_find_mem by blast
  then show ?case using Cons.IH [of False c] c by (cases "ks = []") (auto simp: shape_cur_def)
qed simp

lemma deref_shape: "shape_shard sh \<Longrightarrow> deref sh ref = Some x \<Longrightarrow> shape_run x"
  using lookup_at_shape [OF shape_shard_root] by (fastforce simp: deref_def split: if_splits option.splits)

lemma tail_childless:
  "shape_shard sh \<Longrightarrow> ref \<in> set (tails sh) \<Longrightarrow> \<exists>r. deref sh ref = Some r \<and> kids r = []"
  using tails_iff deref_shape by (metis shape_run_sel)


lemma all_marked_lookup: "all_marked r \<Longrightarrow> lookup_at r ks = Some x \<Longrightarrow> holders (marks x) \<noteq> {}"
proof (induction ks arbitrary: r)
  case (Cons k ks)
  then obtain c where c: "run_find r k = Some c" "lookup_at c ks = Some x" by (auto split: option.splits)
  then have "all_marked c" using Cons.prems(1) run_find_mem [OF c(1)] by (cases r) auto
  with Cons.IH c show ?case by blast
next
  case Nil
  then show ?case by (cases r) auto
qed

lemma shard_marked_deref: "shard_marked sh \<Longrightarrow> deref sh ref = Some x \<Longrightarrow> holders (marks x) \<noteq> {}"
  using all_marked_lookup
  by (cases "snd ref") (fastforce simp: deref_def shard_marked_def dest!: map_of_SomeD run_find_mem split: option.splits)+

lemma shard_markedI:
  assumes "shape_shard sh"
    and "\<And>ref r. ref \<in> set (tails sh) \<Longrightarrow> deref sh ref = Some r \<Longrightarrow> holders (marks r) \<noteq> {}"
  shows "shard_marked sh"
  unfolding shard_marked_def
proof (intro ballI)
  fix x k assume x: "x \<in> set (roots sh)" and k: "k \<in> set (kids (snd x))"
  have S: "shape_cur True (snd x)" and m: "map_of (roots sh) (fst x) = Some (snd x)"
    using assms(1) x by (auto simp: shape_shard_def)
  have sk: "shape_run k" by (rule shape_cur_kids(2) [OF S k])
  then obtain h where "first_hash k = Some h"
    by (cases "hashes k") (auto simp: shape_run_sel [of k] first_hash_def)
  then have f: "run_find (snd x) h = Some k" using run_find_iff [OF shape_cur_kids(1) [OF S]] k by simp
  show "all_marked k"
  proof (rule all_marked_tails [OF sk])
    fix rest y assume "lookup_at k rest = Some y" "in_tails y"
    then have "deref sh (fst x, h # rest) = Some y" using m f by (simp add: deref_def)
    then show "holders (marks y) \<noteq> {}" using assms(2) tails_iff [OF assms(1)] \<open>in_tails y\<close> by blast
  qed
qed

lemma pruned_marked: "shard_marked sh \<Longrightarrow> pruned P n sh sh' \<Longrightarrow> shard_marked sh'"
  by (rule shard_markedI) (simp add: pruned_def, metis pruned_bwd shard_marked_deref)

lemma fold_evict:
  assumes "shape_shard sh"
    and "\<And>ref r. ref \<in> set dead \<Longrightarrow> deref sh ref = Some r \<Longrightarrow> kids r = [] \<and> now - lastUsed r > d"
    and "fold (\<lambda>ref (freed, sh). let (f, sh') = evictTail now d 0 sh ref in (freed + f, sh')) dead (n, sh) = (n', sh')"
  shows "pruned (idle now d) (n' - n) sh sh' \<and> (\<forall>ref\<in>set dead. deref sh' ref = None)"
  using assms
proof (induction dead arbitrary: n sh)
  case Nil
  then show ?case by (simp add: pruned_refl)
next
  case (Cons ref dead)
  obtain f sh1 where e: "evictTail now d 0 sh ref = (f, sh1)" by (cases "evictTail now d 0 sh ref")
  have P: "pruned (idle now d) f sh sh1"
    using evictTail_pruned [OF Cons.prems(1), of ref d now 0] Cons.prems(2) [of ref] e by simp
  have gone: "deref sh1 ref = None"
    using evictTail_gone [OF Cons.prems(1), of ref d now] Cons.prems(2) [of ref] e by simp
  have still: "kids r = [] \<and> now - lastUsed r > d" if "ref' \<in> set dead" "deref sh1 ref' = Some r" for ref' r
  proof -
    from pruned_bwd [OF P that(2)] obtain x where x: "deref sh ref' = Some x" by blast
    with that(1) Cons.prems(2) [of ref' x] have "kids x = []" "now - lastUsed x > d" by auto
    moreover from pruned_fwd [OF P x this(1)] that(2) have "r = x" by simp
    ultimately show ?thesis by simp
  qed
  have IH: "pruned (idle now d) (n' - (n + f)) sh1 sh' \<and> (\<forall>ref\<in>set dead. deref sh' ref = None)"
    using Cons.prems(3) e by (intro Cons.IH [OF _ still]) (use P in \<open>simp_all add: pruned_def\<close>)
  then have "pruned (idle now d) (n' - n) sh sh'" using pruned_trans [OF P, of "n' - (n + f)" sh'] by simp
  moreover have "deref sh' ref = None" using IH gone pruned_none by blast
  ultimately show ?case using IH by simp
qed

lemma sweep_shard_pruned:
  assumes "shape_shard sh" and "\<And>xs. set (ord xs) = set xs" and "sweep_shard ord now d sh = (n, sh')"
  shows "pruned (idle now d) n sh sh'"
    and "ref \<in> set (tails sh) \<Longrightarrow> deref sh ref = Some r \<Longrightarrow> now - lastUsed r > d \<Longrightarrow> deref sh' ref = None"
proof -
  let ?dead = "filter (\<lambda>ref. case deref sh ref of None \<Rightarrow> False | Some r \<Rightarrow> now - lastUsed r > d) (ord (tails sh))"
  have "pruned (idle now d) (n - 0) sh sh' \<and> (\<forall>ref\<in>set ?dead. deref sh' ref = None)"
  proof (rule fold_evict [OF assms(1)])
    fix ref r assume "ref \<in> set ?dead" "deref sh ref = Some r"
    then show "kids r = [] \<and> now - lastUsed r > d"
      using tail_childless [OF assms(1), of ref] assms(2) by auto
  qed (use assms(3) in \<open>simp add: sweep_shard_def Let_def\<close>)
  then show "pruned (idle now d) n sh sh'"
    and "ref \<in> set (tails sh) \<Longrightarrow> deref sh ref = Some r \<Longrightarrow> now - lastUsed r > d \<Longrightarrow> deref sh' ref = None"
    using assms(2) by (simp, fastforce)
qed


section \<open>Dropping a slot\<close>

abbreviation orphaned :: "int set \<times> ns \<Rightarrow> bool" where
  "orphaned \<equiv> \<lambda>(hs, _). hs = {}"

lemma unlinkRun_none: "deref sh ref = None \<Longrightarrow> unlinkRun sh ref = (sh, None)"
  by (simp add: unlinkRun_def split: option.split)

lemma fold_unlink:
  assumes "shape_shard sh"
    and "\<And>ref r. ref \<in> set dead \<Longrightarrow> deref sh ref = Some r \<Longrightarrow> kids r = [] \<and> P (holders (marks r), lastUsed r)"
  shows "\<exists>n. pruned P n sh (fold (\<lambda>ref sh. fst (unlinkRun sh ref)) dead sh)"
  using assms
proof (induction dead arbitrary: sh)
  case Nil
  then show ?case using pruned_refl by auto
next
  case (Cons ref dead)
  let ?sh = "fst (unlinkRun sh ref)"
  obtain a where P: "pruned P a sh ?sh"
  proof (cases "deref sh ref")
    case None
    then show ?thesis using that [of 0] Cons.prems(1) by (simp add: unlinkRun_none pruned_refl)
  next
    case (Some r)
    then show ?thesis using that unlink_pruned(1) [OF Cons.prems(1) Some, of P] Cons.prems(2) [of ref r] by simp
  qed
  have "kids r = [] \<and> P (holders (marks r), lastUsed r)" if "ref' \<in> set dead" "deref ?sh ref' = Some r" for ref' r
  proof -
    from pruned_bwd [OF P that(2)] obtain x where x: "deref sh ref' = Some x" by blast
    with that(1) Cons.prems(2) [of ref' x] have "kids x = []" "P (holders (marks x), lastUsed x)" by auto
    moreover from pruned_fwd [OF P x this(1)] that(2) have "r = x" by simp
    ultimately show ?thesis by simp
  qed
  then obtain b where "pruned P b ?sh (fold (\<lambda>ref sh. fst (unlinkRun sh ref)) dead ?sh)"
    using Cons.IH [of ?sh] P by (auto simp: pruned_def)
  with pruned_trans [OF P] show ?case by auto
qed

lemma shape_runs_nonneg: "shape_shard sh \<Longrightarrow> 0 \<le> sh_runs sh"
  by (simp add: shape_shard_def shard_tot_nonneg)

text \<open>Fuel above the number of runs is enough: every round removes at least one run.\<close>

lemma evictOrphans_returns:
  assumes "shape_shard sh" and ord: "\<And>xs. set (ord xs) = set xs" and "nat (sh_runs sh) < fuel"
  shows "\<exists>sh' n. evictOrphans ord fuel sh = Some sh' \<and> pruned orphaned n sh sh' \<and> shard_marked sh'"
  using assms(1,3)
proof (induction fuel arbitrary: sh)
  case (Suc fuel)
  let ?dead = "filter (\<lambda>ref. case deref sh ref of None \<Rightarrow> False | Some r \<Rightarrow> Empty (marks r)) (ord (tails sh))"
  let ?sh = "fold (\<lambda>ref sh. fst (unlinkRun sh ref)) ?dead sh"
  have leaf: "kids r = [] \<and> orphaned (holders (marks r), lastUsed r)"
    if "ref \<in> set ?dead" "deref sh ref = Some r" for ref r
    using that tail_childless [OF Suc.prems(1), of ref] by (auto simp: ord Empty_holders)
  show ?case
  proof (cases ?dead)
    case Nil
    have "shard_marked sh"
    proof (rule shard_markedI [OF Suc.prems(1)])
      fix ref r assume "ref \<in> set (tails sh)" "deref sh ref = Some r"
      moreover from this Nil have "ref \<notin> set ?dead" by simp
      ultimately show "holders (marks r) \<noteq> {}" by (auto simp: ord Empty_holders)
    qed
    with Nil pruned_refl [OF Suc.prems(1), of orphaned] show ?thesis by auto
  next
    case (Cons ref dead)
    then have ref: "ref \<in> set ?dead" by simp
    then obtain r where r: "deref sh ref = Some r" by (auto split: option.splits)
    let ?sh1 = "fst (unlinkRun sh ref)"
    have P1: "pruned orphaned (int (blocks r)) sh ?sh1" and lt: "sh_runs ?sh1 < sh_runs sh"
      using unlink_pruned(1,2) [OF Suc.prems(1) r, of orphaned] leaf [OF ref r] by simp_all
    have "kids r' = [] \<and> orphaned (holders (marks r'), lastUsed r')"
      if "ref' \<in> set dead" "deref ?sh1 ref' = Some r'" for ref' r'
    proof -
      from pruned_bwd [OF P1 that(2)] obtain x where x: "deref sh ref' = Some x" by blast
      have "ref' \<in> set ?dead" unfolding Cons using that(1) by simp
      note l = leaf [OF this x]
      from pruned_fwd [OF P1 x] l that(2) have "r' = x" by simp
      with l show ?thesis by simp
    qed
    then obtain b where P2: "pruned orphaned b ?sh1 ?sh"
      using fold_unlink [of ?sh1 dead orphaned] P1 unfolding Cons by (auto simp: pruned_def)
    note P = pruned_trans [OF P1 P2]
    have "sh_runs ?sh < sh_runs sh" and sh': "shape_shard ?sh" using P2 lt by (simp_all add: pruned_def)
    then have "nat (sh_runs ?sh) < fuel"
      using Suc.prems(2) shape_runs_nonneg [OF sh'] by linarith
    then obtain sh' n where "evictOrphans ord fuel ?sh = Some sh'" "pruned orphaned n ?sh sh'" "shard_marked sh'"
      using Suc.IH [OF sh'] by blast
    moreover have "evictOrphans ord (Suc fuel) sh = evictOrphans ord fuel ?sh"
      by (simp add: Let_def Cons)
    ultimately show ?thesis using pruned_trans [OF P] by metis
  qed
qed simp

definition shard_holders :: "shard \<Rightarrow> u64 \<Rightarrow> u64 list \<Rightarrow> int set" where
  "shard_holders sh mk q = (case shard_look sh mk q of None \<Rightarrow> {} | Some (hs, _) \<Rightarrow> hs)"

lemma map_of_map_snd: "map_of (map (\<lambda>x. (fst x, f (snd x))) rs) k = map_option f (map_of rs k)"
  by (induction rs) auto

lemma clear_roots_eq:
  "clear_roots s rs c = (map (\<lambda>x. (fst x, cleared s True (snd x))) rs, c - shard_tot (n_held s) rs)"
  by (induction rs arbitrary: c) (auto simp: clearSlot_eq shard_tot_def)

lemma kid_tot_cleared:
  "kid_tot n_runs (cleared s b r) = kid_tot n_runs r" "kid_tot n_blocks (cleared s b r) = kid_tot n_blocks r"
  "kid_tot n_copies (cleared s b r) = kid_tot n_copies r - kid_tot (n_held s) r"
  using tot_cleared by (simp_all add: kid_tot_def comp_def sum_list_subtractf)

lemma clear_roots_shape:
  assumes "shape_shard sh" and "clear_roots s (roots sh) (sh_copies sh) = (rs, c)"
  shows "shape_shard (sh\<lparr>roots := rs, sh_copies := c\<rparr>)"
    and "q \<noteq> [] \<Longrightarrow> shard_holders (sh\<lparr>roots := rs, sh_copies := c\<rparr>) mk q = shard_holders sh mk q - {s}"
proof -
  have rs: "rs = map (\<lambda>x. (fst x, cleared s True (snd x))) (roots sh)"
    and c: "c = sh_copies sh - shard_tot (n_held s) (roots sh)"
    using assms(2) by (simp_all add: clear_roots_eq)
  have tot: "shard_tot n_runs rs = shard_tot n_runs (roots sh)"
    "shard_tot n_blocks rs = shard_tot n_blocks (roots sh)"
    "shard_tot n_copies rs = shard_tot n_copies (roots sh) - shard_tot (n_held s) (roots sh)"
    by (simp_all only: rs shard_tot_def map_map comp_def snd_conv kid_tot_cleared sum_list_subtractf)
  show "shape_shard (sh\<lparr>roots := rs, sh_copies := c\<rparr>)"
    using assms(1) shape_cur_cleared unfolding shape_shard_def by (simp add: tot c) (auto simp: rs comp_def)
  have "map_of rs mk = map_option (cleared s True) (map_of (roots sh) mk)"
    unfolding rs by (rule map_of_map_snd)
  then show "q \<noteq> [] \<Longrightarrow> shard_holders (sh\<lparr>roots := rs, sh_copies := c\<rparr>) mk q = shard_holders sh mk q - {s}"
    using look_cleared_root [OF shape_shard_root [OF assms(1)], of mk _ q s]
    by (auto simp: shard_holders_def shard_look_def split: option.splits)
qed

lemma drop_shard_returns:
  assumes "wf_shard sh" and "\<And>xs. set (ord xs) = set xs" and "nat (sh_runs sh) < fuel"
  shows "\<exists>sh'. drop_shard ord fuel s sh = Some sh' \<and> wf_shard sh' \<and>
    (\<forall>mk q. q \<noteq> [] \<longrightarrow> shard_holders sh' mk q = shard_holders sh mk q - {s})"
proof -
  obtain rs c where cl: "clear_roots s (roots sh) (sh_copies sh) = (rs, c)"
    by (cases "clear_roots s (roots sh) (sh_copies sh)")
  have sh: "shape_shard sh" using assms(1) by (simp add: wf_shard_def)
  note C = clear_roots_shape [OF sh cl]
  obtain sh' n where e: "evictOrphans ord fuel (sh\<lparr>roots := rs, sh_copies := c\<rparr>) = Some sh'"
      "pruned orphaned n (sh\<lparr>roots := rs, sh_copies := c\<rparr>) sh'" "shard_marked sh'"
    using evictOrphans_returns [OF C(1) assms(2), of fuel] assms(3) by auto
  have "shard_holders sh' mk q = shard_holders sh mk q - {s}" if "q \<noteq> []" for mk q
  proof -
    have "shard_holders sh' mk q = shard_holders (sh\<lparr>roots := rs, sh_copies := c\<rparr>) mk q"
      using pruned_look [OF e(2) that, of mk] by (auto simp: shard_holders_def)
    with C(2) [OF that] show ?thesis by simp
  qed
  moreover have "wf_shard sh'" using e by (simp add: wf_shard_def pruned_def)
  ultimately show ?thesis using cl e(1) by (simp add: drop_shard_def)
qed


section \<open>The forest\<close>

definition path_holders :: "tree \<Rightarrow> rpath \<Rightarrow> int set" where
  "path_holders t p = shard_holders (shards t ! shardFor p) (modelKey p) (path_hashes (units p))"

abbreviation registered :: "tree \<Rightarrow> int set" where
  "registered t \<equiv> snd ` set (slots t)"

text \<open>The slot table: no backend has two slots, no slot two backends, freed slots are not in use, and
  every slot ever handed out is below \<^verbatim>\<open>nextSl\<close>.\<close>

definition wf_slots :: "tree \<Rightarrow> bool" where
  "wf_slots t \<longleftrightarrow> distinct (map fst (slots t)) \<and> distinct (map snd (slots t) @ free t) \<and>
     (\<forall>s\<in>registered t \<union> set (free t). 0 \<le> s \<and> s < nextSl t) \<and> 0 \<le> nextSl t"

text \<open>The invariant of the forest; only registered slots hold anything.\<close>

definition wf_tree :: "tree \<Rightarrow> bool" where
  "wf_tree t \<longleftrightarrow> length (shards t) = numShards \<and> (\<forall>sh\<in>set (shards t). wf_shard sh) \<and> wf_slots t \<and>
     (\<forall>p. units p \<noteq> [] \<longrightarrow> path_holders t p \<subseteq> registered t)"

lemma shardFor_less: "shardFor p < numShards"
proof -
  have "unat (shardKey p mod 16) < 16"
    by (simp add: unat_mod_distrib)
  then show ?thesis by (simp add: shardFor_def numShards_def)
qed

lemma shard_of_wf: "wf_tree t \<Longrightarrow> wf_shard (shards t ! shardFor p)"
  using shardFor_less [of p] by (auto simp: wf_tree_def)

lemma wf_newTree: "wf_tree (newTree d)"
proof -
  have "wf_shard empty_shard"
    by (simp add: wf_shard_def shape_shard_def shard_marked_def empty_shard_def shard_tot_def)
  moreover have "path_holders (newTree d) p = {}" for p
    using shardFor_less [of p]
    by (simp add: path_holders_def newTree_def shard_holders_def shard_look_def empty_shard_def)
  ultimately show ?thesis by (simp add: wf_tree_def newTree_def wf_slots_def)
qed

lemma path_holders_root:
  assumes "wf_tree t" and "units p \<noteq> []"
  shows "path_holders t p = (case map_of (roots (shards t ! shardFor p)) (modelKey p) of
      None \<Rightarrow> {} | Some rt \<Rightarrow> holds rt (path_hashes (units p)))"
  by (simp add: path_holders_def shard_holders_def shard_look_def holds_look split: option.split)

lemma shardFor_prefix:
  assumes "units p' \<noteq> []" and "prefix (path_hashes (units p')) (path_hashes (units p))" and "modelKey p' = modelKey p"
  shows "shardFor p' = shardFor p"
proof -
  obtain u us where "units p' = u # us" using assms(1) by (cases "units p'") auto
  moreover from this assms(2) obtain v vs where "units p = v # vs" "uHash v = uHash u"
    by (cases "units p") (auto simp: prefix_def)
  ultimately show ?thesis using assms(3) by (simp add: shardFor_def shardKey_def)
qed

end
