(* ===== verification/AffinityTree.thy ===== *)
theory AffinityTree
  imports TreeForest
begin

text \<open>
  The operations of \<^verbatim>\<open>tree.go\<close> the policy calls, each against the abstract state \<open>path_holders\<close>:
  slot allocation, commit, walk, heldTokens, sweep, dropBackend and flush keep \<open>wf_tree\<close>, and each is
  the update or query of that state its name says.
\<close>

section \<open>The contract of a prefix index\<close>

definition path_prefix :: "rpath \<Rightarrow> rpath \<Rightarrow> bool" where
  "path_prefix p' p \<longleftrightarrow> modelKey p' = modelKey p \<and> prefix (path_hashes (units p')) (path_hashes (units p))"

locale prefix_index =
  fixes inv :: "'t \<Rightarrow> bool"
    and usable :: "'t \<Rightarrow> int \<Rightarrow> bool"
    and who :: "'t \<Rightarrow> rpath \<Rightarrow> int set"
    and put :: "'t \<Rightarrow> rpath \<Rightarrow> int \<Rightarrow> 't"
  assumes inv_put: "inv t \<Longrightarrow> usable t s \<Longrightarrow> units p \<noteq> [] \<Longrightarrow> inv (put t p s)"
    and usable_put: "inv t \<Longrightarrow> usable t s \<Longrightarrow> units p \<noteq> [] \<Longrightarrow> usable (put t p s) s' = usable t s'"
    and who_put: "inv t \<Longrightarrow> usable t s \<Longrightarrow> units p \<noteq> [] \<Longrightarrow> units p' \<noteq> [] \<Longrightarrow>
      who (put t p s) p' = who t p' \<union> (if path_prefix p' p then {s} else {})"
begin

text \<open>Recording a path is idempotent, order independent and visible on every prefix of it.\<close>

lemma put_twice:
  "inv t \<Longrightarrow> usable t s \<Longrightarrow> units p \<noteq> [] \<Longrightarrow> units p' \<noteq> [] \<Longrightarrow>
   who (put (put t p s) p s) p' = who (put t p s) p'"
  by (simp add: who_put inv_put usable_put)

lemma put_commute:
  "inv t \<Longrightarrow> usable t s \<Longrightarrow> usable t r \<Longrightarrow> units p \<noteq> [] \<Longrightarrow> units q \<noteq> [] \<Longrightarrow> units p' \<noteq> [] \<Longrightarrow>
   who (put (put t p s) q r) p' = who (put (put t q r) p s) p'"
  by (auto simp: who_put inv_put usable_put)

lemma put_visible:
  "inv t \<Longrightarrow> usable t s \<Longrightarrow> units p \<noteq> [] \<Longrightarrow> units p' \<noteq> [] \<Longrightarrow> path_prefix p' p \<Longrightarrow> s \<in> who (put t p s) p'"
  by (simp add: who_put)

end

section \<open>Commit\<close>

lemma wf_sentinel: "wf_root sentinel"
  by (simp add: wf_root_def sentinel_def)

lemma commit_run_hit_le:
  assumes "wf_cur isroot cur" and "0 \<le> s" and "commit_run s now isroot us b cur sh = (cur', hit, sh')"
  shows "hit \<le> length us"
  using assms
proof (induction us arbitrary: isroot b cur sh cur' hit sh' rule: measure_induct_rule [of length])
  case (less us)
  note wf = less.prems(1) and s = less.prems(2) and run = less.prems(3)
  show ?case
  proof (cases us)
    case (Cons u us')
    show ?thesis
    proof (cases "run_find cur (uHash u)")
      case None
      then show ?thesis
        using run Cons commit_run_extend [OF None, of s now us' b sh] commit_run_new [OF None, of isroot s now us' b sh]
        by (cases "\<not> isroot \<and> kids cur = [] \<and> Count (marks cur) = 1 \<and> Has (marks cur) s") auto
    next
      case (Some child)
      define m where "m = match_len (hashes child) (path_hashes us)"
      have m0: "0 < m" using run_find_match [OF Some, of "path_hashes us'"] by (simp add: m_def Cons)
      have ml: "m \<le> length us" using match_len_le2 [of "hashes child" "path_hashes us"] by (simp add: m_def)
      have mb: "m \<le> blocks child" by (simp add: m_def blocks_def match_len_le1)
      obtain c' h' sh1 where rec: "commit_run s now False (drop m us) (b \<or> \<not> Has (marks child) s)
          (enter_child s now m child)
          (sh\<lparr>sh_runs := sh_runs sh + (if m < blocks child then 1 else 0),
              sh_copies := sh_copies sh + (if Has (marks child) s then 0 else int m)\<rparr>) = (c', h', sh1)"
        using prod_cases3 by blast
      then have "h' \<le> length us - m"
        using less.IH [of "drop m us" False "enter_child s now m child"] m0 Cons s
          wf_enter_child [OF wf_find [OF wf Some] m0 mb s] by (auto simp: wf_cur_def)
      then show ?thesis
        using commit_run_step [OF wf Some _ rec [unfolded Cons]] run ml by (auto simp: m_def Cons split: if_splits)
    qed
  qed (use run in simp)
qed

definition root_or_new :: "tree \<Rightarrow> rpath \<Rightarrow> run" where
  "root_or_new t p = (case map_of (roots (shards t ! shardFor p)) (modelKey p) of None \<Rightarrow> sentinel | Some r \<Rightarrow> r)"

lemma wf_root_or_new: "wf_tree t \<Longrightarrow> wf_root (root_or_new t p)"
  using wf_shard_root [OF shard_of_wf] wf_sentinel by (auto simp: root_or_new_def split: option.split)

lemma holds_root_or_new:
  assumes "wf_tree t" and "units p' \<noteq> []" and "shardFor p' = shardFor p" and "modelKey p' = modelKey p"
  shows "path_holders t p' = holds (root_or_new t p) (path_hashes (units p'))"
  using assms by (auto simp: path_holders_root root_or_new_def holds_leaf sentinel_def split: option.split)

lemma commit_eq:
  assumes "commit_run s now True (units p) False (root_or_new t p) (shards t ! shardFor p) = (rt', h, sh')"
  shows "commit now t p s =
    (h, upd_shard t (shardFor p) (sh'\<lparr>roots := AList.update (modelKey p) rt' (roots (shards t ! shardFor p))\<rparr>))"
  using assms by (simp add: commit_def Let_def root_or_new_def)

lemma commit_details:
  assumes wf: "wf_tree t" and us: "units p \<noteq> []" and s: "s \<in> registered t" and c: "commit now t p s = (hit, t')"
  shows "\<exists>rt' sh'. t' = upd_shard t (shardFor p) sh' \<and> wf_shard sh' \<and>
     commit_adds s True (units p) (root_or_new t p) rt' \<and>
     roots sh' = put_root (modelKey p) rt' (roots (shards t ! shardFor p))"
proof -
  let ?sh = "shards t ! shardFor p" and ?rt = "root_or_new t p"
  obtain rt' h sh1 where run: "commit_run s now True (units p) False ?rt ?sh = (rt', h, sh1)"
    using prod_cases3 by blast
  define sh' where "sh' = sh1\<lparr>roots := AList.update (modelKey p) rt' (roots ?sh)\<rparr>"
  have t': "t' = upd_shard t (shardFor p) sh'" using c commit_eq [OF run] by (simp add: sh'_def)
  have s0: "0 \<le> s" using wf s by (auto simp: wf_tree_def wf_slots_def)
  have wfr: "wf_cur True ?rt" using wf_root_or_new [OF wf] by (simp add: wf_cur_def)
  have adds: "commit_adds s True (units p) ?rt rt'"
    using commit_run_adds [OF wfr s0, of "units p" now False ?sh] run by simp
  have cf: "counters_follow ?rt ?sh rt' sh1" using commit_run_counters [OF wfr s0 _ run] by simp
  have wr: "wf_root rt'" using adds by (simp add: commit_adds_def wf_cur_def)
  have e: "hashes ?rt = []" "hashes rt' = []" "marks rt' = marks ?rt"
    using adds wfr wr by (simp_all add: commit_adds_def wf_cur_def wf_root_def)
  have "s \<in> holds rt' (path_hashes (units p))"
    using adds us e(1) by (auto simp: commit_adds_def)
  then have ne: "kids rt' \<noteq> []" using e(2) us holds_leaf [of rt' "path_hashes (units p)"] by auto
  then have rs: "roots sh' = put_root (modelKey p) rt' (roots ?sh)" by (simp add: sh'_def put_root_def)
  have shape: "shape_shard ?sh" and mk: "shard_marked ?sh"
    using shard_of_wf [OF wf] by (simp_all add: wf_shard_def)
  have w: "tot w rt' - tot w ?rt = kid_tot w rt' -
      (case map_of (roots ?sh) (modelKey p) of None \<Rightarrow> 0 | Some rt \<Rightarrow> kid_tot w rt)" if "w rt' = w ?rt" for w
  proof -
    have "kid_tot w ?rt = (case map_of (roots ?sh) (modelKey p) of None \<Rightarrow> 0 | Some rt \<Rightarrow> kid_tot w rt)"
      by (simp add: root_or_new_def kid_tot_def sentinel_def split: option.split)
    then show ?thesis using that by (simp add: tot_sel [of w rt'] tot_sel [of w ?rt])
  qed
  have "shape_shard sh'"
    by (rule put_root_shape [OF shape _ rs refl])
      (use wr cf w [of n_runs] w [of n_blocks] w [of n_copies] e in
        \<open>simp_all add: wf_root_shape counters_follow_def sh'_def blocks_def\<close>)
  moreover have "shard_marked sh'"
    unfolding shard_marked_def rs
    using put_root_props(2) [of "roots ?sh" rt' _ "modelKey p"] shape mk wr e(2)
    by (fastforce simp: shard_marked_def shape_shard_def wf_root_shape)
  ultimately show ?thesis using t' adds rs by (auto simp: wf_shard_def)
qed


lemma put_root_other:
  assumes "distinct (map fst (roots sh))" and "hashes rt' = []" and "roots sh' = put_root mk rt' (roots sh)" and "q \<noteq> []"
  shows "shard_holders sh' mk' q = (if mk' = mk then holds rt' q else shard_holders sh mk' q)"
  using put_root_views(1) [OF assms(1-3), of q mk'] assms(4) by (simp add: shard_holders_def holds_look)

lemma commit_holders:
  assumes wf: "wf_tree t" and us: "units p \<noteq> []" and s: "s \<in> registered t" and c: "commit now t p s = (hit, t')"
    and p': "units p' \<noteq> []"
  shows "path_holders t' p' = path_holders t p' \<union> (if path_prefix p' p then {s} else {})"
proof -
  let ?sh = "shards t ! shardFor p"
  obtain rt' sh' where t': "t' = upd_shard t (shardFor p) sh'"
      and adds: "commit_adds s True (units p) (root_or_new t p) rt'"
      and rs: "roots sh' = put_root (modelKey p) rt' (roots ?sh)"
    using commit_details [OF wf us s c] by blast
  have len: "shardFor p < length (shards t)" using wf shardFor_less by (simp add: wf_tree_def)
  have d: "distinct (map fst (roots ?sh))" using shard_of_wf [OF wf] by (simp add: wf_shard_def shape_shard_def)
  have hs: "hashes (root_or_new t p) = []" "hashes rt' = []"
    using wf_root_or_new [OF wf, of p] adds by (simp_all add: wf_root_def commit_adds_def wf_cur_def)
  show ?thesis
  proof (cases "shardFor p' = shardFor p \<and> modelKey p' = modelKey p")
    case True
    then have "path_holders t' p' = holds rt' (path_hashes (units p'))"
      using put_root_other [OF d hs(2) rs, of "path_hashes (units p')" "modelKey p'"] p' len
      by (simp add: path_holders_def t' upd_shard_def)
    moreover have "path_holders t p' = holds (root_or_new t p) (path_hashes (units p'))"
      using holds_root_or_new [OF wf p'] True by simp
    ultimately show ?thesis
      using adds p' True hs(1) by (simp add: commit_adds_def path_prefix_def)
  next
    case False
    then have "\<not> path_prefix p' p" using shardFor_prefix [OF p'] by (auto simp: path_prefix_def)
    moreover have "path_holders t' p' = path_holders t p'"
    proof (cases "shardFor p' = shardFor p")
      case True
      then show ?thesis
        using False put_root_other [OF d hs(2) rs, of "path_hashes (units p')" "modelKey p'"] p' len
        by (simp add: path_holders_def t' upd_shard_def)
    qed (simp add: path_holders_def t' upd_shard_def)
    ultimately show ?thesis by simp
  qed
qed

lemma commit_wf:
  assumes wf: "wf_tree t" and us: "units p \<noteq> []" and s: "s \<in> registered t" and c: "commit now t p s = (hit, t')"
  shows "wf_tree t'" and "slots t' = slots t" and "free t' = free t" and "nextSl t' = nextSl t" and "ttl t' = ttl t"
proof -
  obtain sh' where t': "t' = upd_shard t (shardFor p) sh'" and wfs: "wf_shard sh'"
    using commit_details [OF assms] by blast
  show eq: "slots t' = slots t" "free t' = free t" "nextSl t' = nextSl t" "ttl t' = ttl t"
    by (simp_all add: t' upd_shard_def)
  have "\<forall>sh\<in>set (shards t'). wf_shard sh"
    using wf wfs by (auto simp: t' upd_shard_def wf_tree_def dest!: set_update_subset_insert [THEN subsetD])
  moreover have "path_holders t' p' \<subseteq> registered t'" if "units p' \<noteq> []" for p'
    using commit_holders [OF assms that] wf s that by (auto simp: wf_tree_def eq)
  ultimately show "wf_tree t'"
    using wf by (simp add: wf_tree_def eq wf_slots_def) (simp add: t' upd_shard_def)
qed

interpretation pf: prefix_index wf_tree "\<lambda>t s. s \<in> registered t" path_holders "\<lambda>t p s. snd (commit now t p s)" for now
  using commit_wf(1,2) commit_holders by unfold_locales (metis prod.collapse)+

text \<open>C39. Commit implements the abstract update: on a well-formed forest, committing a path for a
  registered slot keeps every invariant (sorted radix runs, holders nested along each path, every run
  held, tail flags, counters equal to the totals, slots well formed) and adds exactly that slot to
  exactly the prefixes of the path in its model, whatever splits, extensions and new runs it needs.\<close>

theorem commit_refines:
  assumes "wf_tree t" and "units p \<noteq> []" and "s \<in> registered t"
  shows "wf_tree (snd (commit now t p s)) \<and>
    (\<forall>p'. units p' \<noteq> [] \<longrightarrow>
       path_holders (snd (commit now t p s)) p' = path_holders t p' \<union> (if path_prefix p' p then {s} else {}))"
  using assms pf.inv_put pf.who_put by blast


section \<open>Slots\<close>

lemma update_append_new: "u \<notin> fst ` set al \<Longrightarrow> AList.update u v al = al @ [(u, v)]"
  by (induction al) auto

lemma path_holders_shards: "shards t' = shards t \<Longrightarrow> path_holders t' p = path_holders t p"
  by (simp add: path_holders_def)

lemma wf_tree_slots:
  assumes "wf_tree t" and "shards t' = shards t" and "wf_slots t'" and "registered t \<subseteq> registered t'"
  shows "wf_tree t'"
  using assms path_holders_shards [OF assms(2)] unfolding wf_tree_def by (metis subset_trans)

text \<open>A new backend takes a freed slot or the next unused one; either way nobody was using it.\<close>

lemma slotFor_new:
  assumes wf: "wf_tree t" and new: "map_of (slots t) u = None" and r: "slotFor t u = (s, t')"
  shows "wf_slots t'" and "shards t' = shards t" and "slots t' = slots t @ [(u, s)]" and "s \<notin> registered t"
proof -
  have ws: "wf_slots t" using wf by (simp add: wf_tree_def)
  have nd: "u \<notin> fst ` set (slots t)" using new by (simp add: map_of_eq_None_iff)
  have upd: "AList.update u s (slots t) = slots t @ [(u, s)]" using nd by (rule update_append_new)
  show "shards t' = shards t" and st: "slots t' = slots t @ [(u, s)]"
    using r new upd by (auto simp: slotFor_def Let_def split: if_splits)
  have s: "s \<notin> registered t \<and> wf_slots t'"
  proof (cases "free t = []")
    case True
    then have "s = nextSl t" "t' = t\<lparr>nextSl := nextSl t + 1, slots := AList.update u (nextSl t) (slots t)\<rparr>"
      using r new by (auto simp: slotFor_def Let_def)
    with ws True nd show ?thesis
      using upd by (auto simp: wf_slots_def)
  next
    case False
    then obtain fs where f: "free t = fs @ [s]" and t': "t' = t\<lparr>free := fs, slots := slots t @ [(u, s)]\<rparr>"
      using r new upd by (cases "free t" rule: rev_cases) (auto simp: slotFor_def Let_def)
    then show ?thesis using ws nd unfolding wf_slots_def f t' by auto
  qed
  then show "wf_slots t'" "s \<notin> registered t" by simp_all
qed


lemma slotFor_wf:
  assumes wf: "wf_tree t" and r: "slotFor t u = (s, t')"
  shows "wf_tree t'" and "s \<in> registered t'" and "map_of (slots t') u = Some s" and "shards t' = shards t"
    and "v \<noteq> u \<Longrightarrow> map_of (slots t') v = map_of (slots t) v"
proof -
  have all: "wf_tree t' \<and> s \<in> registered t' \<and> map_of (slots t') u = Some s \<and> shards t' = shards t \<and>
      (v \<noteq> u \<longrightarrow> map_of (slots t') v = map_of (slots t) v)"
  proof (cases "map_of (slots t) u")
    case (Some s0)
    then have "s = s0" "t' = t" using r by (simp_all add: slotFor_def)
    moreover have "s0 \<in> registered t" using map_of_SomeD [OF Some] by force
    ultimately show ?thesis using wf Some by simp
  next
    case None
    note n = slotFor_new [OF wf None r]
    show ?thesis
      using wf_tree_slots [OF wf n(2,1)] n None by (auto simp: map_add_def map_of_append split: option.split)
  qed
  then show "wf_tree t'" "s \<in> registered t'" "map_of (slots t') u = Some s" "shards t' = shards t"
    "v \<noteq> u \<Longrightarrow> map_of (slots t') v = map_of (slots t) v" by simp_all
qed

text \<open>A backend without a slot gets one that no recorded path mentions, so it starts with an empty
  cache view even when the slot number is reused; other backends keep their slots and the recorded
  holders do not change.\<close>

theorem slotFor_fresh:
  assumes "wf_tree t" and "map_of (slots t) u = None"
  shows "wf_tree (snd (slotFor t u)) \<and> map_of (slots (snd (slotFor t u))) u = Some (fst (slotFor t u)) \<and>
    (\<forall>v. v \<noteq> u \<longrightarrow> map_of (slots (snd (slotFor t u))) v = map_of (slots t) v) \<and>
    (\<forall>p. units p \<noteq> [] \<longrightarrow>
       path_holders (snd (slotFor t u)) p = path_holders t p \<and> fst (slotFor t u) \<notin> path_holders t p)"
proof -
  obtain s t' where r: "slotFor t u = (s, t')" by (cases "slotFor t u")
  note w = slotFor_wf [OF assms(1) r] and n = slotFor_new [OF assms r]
  show ?thesis
    using w n(4) assms(1) path_holders_shards [OF w(4)] by (auto simp: r wf_tree_def subset_iff)
qed

theorem slotFor_fresh_witness:
  "map_of (slots (snd (slotFor (newTree 60) ''http://a''))) ''http://a'' = Some 0"
  using slotFor_fresh [of "newTree 60" "''http://a''"] wf_newTree [of 60]
  by (simp add: newTree_def slotFor_def)

text \<open>A one-backend forest and a two-block path, for concrete checks.\<close>

abbreviation one_backend :: tree where
  "one_backend \<equiv> snd (slotFor (newTree 60) ''http://a'')"

abbreviation two_blocks :: rpath where
  "two_blocks \<equiv> \<lparr>units = [\<lparr>uHash = 11, uTokens = 128\<rparr>, \<lparr>uHash = 12, uTokens = 64\<rparr>], modelKey = 3\<rparr>"

lemma one_backend_wf: "wf_tree one_backend" and one_backend_slot: "0 \<in> registered one_backend"
  using slotFor_wf(1,2) [OF wf_newTree, of 60 "''http://a''"] by (simp_all add: newTree_def slotFor_def)

lemma one_backend_empty: "path_holders one_backend p = {}"
proof -
  have "shards one_backend = shards (newTree 60)" by (simp add: newTree_def slotFor_def)
  then show ?thesis
    using shardFor_less [of p]
    by (simp add: path_holders_def newTree_def shard_holders_def shard_look_def empty_shard_def)
qed

theorem commit_refines_witness:
  "wf_tree (snd (commit 5 one_backend two_blocks 0)) \<and>
   path_holders (snd (commit 5 one_backend two_blocks 0)) two_blocks = {0}"
  using commit_refines [OF one_backend_wf, of two_blocks 0 5] one_backend_slot
  by (simp add: one_backend_empty path_prefix_def)

text \<open>The hit a commit returns is the number of leading blocks of the path its backend already held:
  it held the prefix of depth \<open>d\<close> exactly for the depths up to the hit.\<close>

theorem commit_hit:
  assumes "wf_tree t" and "units p \<noteq> []" and "s \<in> registered t"
  shows "fst (commit now t p s) \<le> length (units p) \<and>
    (\<forall>d. 0 < d \<longrightarrow> d \<le> length (units p) \<longrightarrow>
       (s \<in> path_holders t (p\<lparr>units := take d (units p)\<rparr>) \<longleftrightarrow> d \<le> fst (commit now t p s)))"
proof -
  let ?sh = "shards t ! shardFor p" and ?rt = "root_or_new t p"
  obtain rt' h sh1 where run: "commit_run s now True (units p) False ?rt ?sh = (rt', h, sh1)"
    using prod_cases3 by blast
  have h: "fst (commit now t p s) = h" by (simp add: commit_eq [OF run])
  have s0: "0 \<le> s" using assms by (auto simp: wf_tree_def wf_slots_def)
  have wfr: "wf_cur True ?rt" and hs: "hashes ?rt = []"
    using wf_root_or_new [OF assms(1), of p] by (simp_all add: wf_cur_def wf_root_def)
  have "path_holders t (p\<lparr>units := take d (units p)\<rparr>) = holds ?rt (take d (path_hashes (units p)))"
    if d: "0 < d" "d \<le> length (units p)" for d
  proof -
    have "shardFor (p\<lparr>units := take d (units p)\<rparr>) = shardFor p"
      using d assms(2) by (intro shardFor_prefix) (auto simp: take_map [symmetric] take_is_prefix)
    then show ?thesis
      using holds_root_or_new [OF assms(1), of "p\<lparr>units := take d (units p)\<rparr>" p] d assms(2) by (simp add: take_map)
  qed
  then show ?thesis
    using commit_run_hit [OF wfr s0 _ run] commit_run_hit_le [OF wfr s0 run] hs by (simp add: h)
qed

theorem commit_hit_witness: "fst (commit 5 one_backend two_blocks 0) = 0"
  using commit_hit [OF one_backend_wf, of two_blocks 0 5] one_backend_slot
  by (auto simp: one_backend_empty)


section \<open>Walk\<close>

abbreviation holders_upto :: "tree \<Rightarrow> rpath \<Rightarrow> nat \<Rightarrow> int set" where
  "holders_upto t p \<equiv> \<lambda>d. path_holders t (p\<lparr>units := take d (units p)\<rparr>)"

definition depth_report :: "(nat \<Rightarrow> int set) \<Rightarrow> nat \<Rightarrow> int set \<Rightarrow> anchors \<Rightarrow> bool" where
  "depth_report H n C a \<longleftrightarrow>
     depth_of C H n (anchorBlocks a) \<and> depth_of UNIV H n (heldBlocks a) \<and> matched a = heldBlocks a \<and>
     holders (pool a) = (if anchorBlocks a = 0 then {} else H (anchorBlocks a)) \<and>
     holders (held a) = (if heldBlocks a = 0 then {} else H (heldBlocks a)) \<and>
     (availDeepest a \<longleftrightarrow> 0 < anchorBlocks a \<and> anchorBlocks a = heldBlocks a)"

lemma depth_of_cong: "(\<And>d. 0 < d \<Longrightarrow> d \<le> n \<Longrightarrow> f d = g d) \<Longrightarrow> depth_of C f n k = depth_of C g n k"
  unfolding depth_of_def by metis

lemma holders_upto_root:
  assumes "wf_tree t" and "units p \<noteq> []" and "0 < d"
  shows "holders_upto t p d = holds (root_or_new t p) (take d (path_hashes (units p)))"
proof -
  have "shardFor (p\<lparr>units := take d (units p)\<rparr>) = shardFor p"
    using assms by (intro shardFor_prefix) (auto simp: take_map [symmetric] take_is_prefix)
  then show ?thesis
    using holds_root_or_new [OF assms(1), of "p\<lparr>units := take d (units p)\<rparr>" p] assms by (simp add: take_map)
qed

lemma walk_reports:
  assumes wf: "wf_tree t" and us: "units p \<noteq> []"
  shows "depth_report (holders_upto t p) (length (units p)) (holders cands) (walk t p cands)"
proof (cases "map_of (roots (shards t ! shardFor p)) (modelKey p)")
  case None
  have "holders_upto t p d = {}" if "0 < d" for d
    using holders_upto_root [OF wf us that] None us that by (simp add: root_or_new_def holds_leaf sentinel_def)
  then have "depth_of C (holders_upto t p) (length (units p)) 0" for C by (simp add: depth_of_def)
  with None show ?thesis by (simp add: depth_report_def walk_def no_anchors_def)
next
  case (Some rt)
  let ?n = "length (units p)" and ?w = "walk_loop cands (units p) rt 0 None None"
  have rt: "root_or_new t p = rt" using Some by (simp add: root_or_new_def)
  have wr: "wf_cur True rt" and hs: "hashes rt = []"
    using wf_root_or_new [OF wf, of p] rt by (simp_all add: wf_cur_def wf_root_def)
  have H: "at_depth rt (units p) d = holders_upto t p d" if "0 < d" for d
    using holders_upto_root [OF wf us that] by (simp add: rt hs)
  obtain i av mk where w: "?w = (i, av, mk)" using prod_cases3 by blast
  obtain ka km where a: "anchored (holders cands) (at_depth rt (units p)) ?n 0 None av ka"
      and m: "anchored UNIV (at_depth rt (units p)) ?n 0 None mk km" and i: "i = km"
    using walk_loop_result [OF wr, of cands "units p" 0 None None] by (auto simp: w walk_result_def)
  have av: "ka = 0 \<and> av = None \<or> 0 < ka \<and> (\<exists>r. av = Some (r, ka) \<and> holders (marks r) = holders_upto t p ka)"
    using a H [of ka] by (cases "ka = 0") (auto simp: anchored_def)
  have mk: "km = 0 \<and> mk = None \<or> 0 < km \<and> (\<exists>r. mk = Some (r, km) \<and> holders (marks r) = holders_upto t p km)"
    using m H [of km] by (cases "km = 0") (auto simp: anchored_def)
  have d: "depth_of (holders cands) (holders_upto t p) ?n ka" "depth_of UNIV (holders_upto t p) ?n km"
    using a m H by (simp_all add: anchored_def cong: depth_of_cong)
  have "walk t p cands = mk_anchors (i, av, mk)" using Some w by (simp add: walk_def)
  with av mk d i show ?thesis by (auto simp: depth_report_def mk_anchors_def Clone_eq)
qed

text \<open>A walk reports exactly the deepest prefix of the request that some candidate holds
  (\<^verbatim>\<open>anchorBlocks\<close>, with its holders \<^verbatim>\<open>pool\<close>) and the deepest that anyone holds (\<^verbatim>\<open>heldBlocks\<close>, with
  \<^verbatim>\<open>held\<close>), a prefix being held at every smaller depth too; \<^verbatim>\<open>availDeepest\<close> says whether the two agree.\<close>

theorem walk_correct:
  assumes "wf_tree t" and "units p \<noteq> []" and "a = walk t p cands" and "n = length (units p)"
  shows "(\<forall>d. 0 < d \<longrightarrow> d \<le> n \<longrightarrow> (holders_upto t p d \<inter> holders cands \<noteq> {} \<longleftrightarrow> d \<le> anchorBlocks a)) \<and>
    (\<forall>d. 0 < d \<longrightarrow> d \<le> n \<longrightarrow> (holders_upto t p d \<noteq> {} \<longleftrightarrow> d \<le> heldBlocks a)) \<and>
    anchorBlocks a \<le> n \<and> heldBlocks a \<le> n \<and> matched a = heldBlocks a \<and>
    holders (pool a) = (if anchorBlocks a = 0 then {} else holders_upto t p (anchorBlocks a)) \<and>
    holders (held a) = (if heldBlocks a = 0 then {} else holders_upto t p (heldBlocks a)) \<and>
    (availDeepest a \<longleftrightarrow> 0 < anchorBlocks a \<and> anchorBlocks a = heldBlocks a)"
  using walk_reports [OF assms(1,2), of cands]
  unfolding assms(3,4) depth_report_def depth_of_def by simp

theorem walk_correct_witness: "heldBlocks (walk one_backend two_blocks (Add empty_marks 0)) \<le> 2"
  using walk_correct [OF one_backend_wf, of two_blocks "walk one_backend two_blocks (Add empty_marks 0)"
      "Add empty_marks 0" 2] by simp

lemma holders_upto_full: "holders_upto t p (length (units p)) = path_holders t p"
  by simp

text \<open>Commit, then walk: right after a backend is recorded for a path, a walk of the same path
  over any candidate set containing it reports the whole path, with that backend in the pool.\<close>

theorem commit_walk_roundtrip:
  assumes "wf_tree t" and "units p \<noteq> []" and "s \<in> registered t" and "Has cands s"
  shows "anchorBlocks (walk (snd (commit now t p s)) p cands) = length (units p) \<and>
    heldBlocks (walk (snd (commit now t p s)) p cands) = length (units p) \<and>
    Has (pool (walk (snd (commit now t p s)) p cands)) s \<and>
    availDeepest (walk (snd (commit now t p s)) p cands)"
proof -
  let ?t = "snd (commit now t p s)" and ?n = "length (units p)"
  have wf: "wf_tree ?t" using assms pf.inv_put by blast
  have s: "s \<in> holders_upto ?t p ?n"
    using pf.put_visible [OF assms(1) assms(3,2), of p now] assms(2) by (simp add: path_prefix_def)
  have n: "0 < ?n" using assms(2) by simp
  have r: "depth_report (holders_upto ?t p) ?n (holders cands) (walk ?t p cands)"
    by (rule walk_reports [OF wf assms(2)])
  have "anchorBlocks (walk ?t p cands) = ?n" "heldBlocks (walk ?t p cands) = ?n"
    using r s n assms(4) unfolding depth_report_def depth_of_def
    by (auto simp: Has_holders simp del: take_all)
  with r s n show ?thesis by (auto simp: depth_report_def Has_holders)
qed

theorem commit_walk_roundtrip_witness:
  "anchorBlocks (walk (snd (commit 5 one_backend two_blocks 0)) two_blocks (Add empty_marks 0)) = 2"
  using commit_walk_roundtrip [OF one_backend_wf, of two_blocks 0 "Add empty_marks 0" 5] one_backend_slot
  by (simp add: Has_Add)

lemma heldTokens_spec:
  assumes "wf_tree t" and "units p \<noteq> []"
  shows "length (heldTokens t p sl) = length sl \<and>
    (\<forall>j<length sl. \<exists>k\<le>length (units p). heldTokens t p sl ! j = token_sum (take k (units p)) \<and>
       (\<forall>d. 0 < d \<longrightarrow> d \<le> length (units p) \<longrightarrow> (sl ! j \<in> holders_upto t p d \<longleftrightarrow> d \<le> k)))"
proof (cases "map_of (roots (shards t ! shardFor p)) (modelKey p)")
  case None
  have "holders_upto t p d = {}" if "0 < d" for d
    using holders_upto_root [OF assms that] None assms that by (simp add: root_or_new_def holds_leaf sentinel_def)
  with None show ?thesis by (auto simp: heldTokens_def intro!: exI [of _ 0])
next
  case (Some rt)
  let ?out = "replicate (length sl) (0 :: int)"
  have rt: "root_or_new t p = rt" using Some by (simp add: root_or_new_def)
  have wr: "wf_cur True rt" and hs: "hashes rt = []"
    using wf_root_or_new [OF assms(1), of p] rt by (simp_all add: wf_cur_def wf_root_def)
  have H: "at_depth rt (units p) d = holders_upto t p d" if "0 < d" for d
    using holders_upto_root [OF assms that] by (simp add: rt hs)
  have e: "heldTokens t p sl = held_loop sl (units p) rt 0 ?out" using Some by (simp add: heldTokens_def)
  have L: "length (heldTokens t p sl) = length sl"
    and T: "\<And>j. j < length sl \<Longrightarrow> token_depth (sl ! j) (at_depth rt (units p)) (units p) 0 0 (heldTokens t p sl ! j)"
    using held_loop_result [OF wr, of ?out sl "units p" 0] unfolding e by auto
  show ?thesis
  proof (intro conjI allI impI)
    fix j assume "j < length sl"
    from T [OF this] obtain k where k: "depth_of {sl ! j} (at_depth rt (units p)) (length (units p)) k"
      "heldTokens t p sl ! j = token_sum (take k (units p))"
      by (auto simp: token_depth_def split: if_splits)
    then show "\<exists>k\<le>length (units p). heldTokens t p sl ! j = token_sum (take k (units p)) \<and>
       (\<forall>d. 0 < d \<longrightarrow> d \<le> length (units p) \<longrightarrow> (sl ! j \<in> holders_upto t p d \<longleftrightarrow> d \<le> k))"
      using H unfolding depth_of_def by (intro exI [of _ k]) auto
  qed (rule L)
qed

text \<open>Per candidate, \<^verbatim>\<open>heldTokens\<close> is the token total of the longest prefix of the request that
  candidate is recorded for, 0 when it holds none of it.\<close>

theorem heldTokens_correct:
  assumes "wf_tree t" and "units p \<noteq> []"
  shows "length (heldTokens t p sl) = length sl \<and>
    (\<forall>j<length sl. \<exists>k\<le>length (units p). heldTokens t p sl ! j = token_sum (take k (units p)) \<and>
       (\<forall>d. 0 < d \<longrightarrow> d \<le> length (units p) \<longrightarrow> (sl ! j \<in> holders_upto t p d \<longleftrightarrow> d \<le> k)))"
  using heldTokens_spec [OF assms] .

theorem heldTokens_correct_witness: "length (heldTokens one_backend two_blocks [0]) = 1"
  using heldTokens_correct [OF one_backend_wf, of two_blocks "[0]"] by simp

end
