(* ===== verification/AffinityEvict.thy ===== *)
theory AffinityEvict
  imports AffinityTree
begin

text \<open>
  \<^verbatim>\<open>sweep\<close>, \<^verbatim>\<open>dropBackend\<close>, \<^verbatim>\<open>flush\<close> and the statistics of \<^verbatim>\<open>tree.go\<close> against the abstract state
  \<open>path_holders\<close>.
\<close>

definition path_last :: "tree \<Rightarrow> rpath \<Rightarrow> ns option" where
  "path_last t p = map_option snd (shard_look (shards t ! shardFor p) (modelKey p) (path_hashes (units p)))"

lemma sum_map2: "length xs = length ys \<Longrightarrow> (\<And>x y. (x, y) \<in> set (zip xs ys) \<Longrightarrow> f x = g y) \<Longrightarrow>
   (\<Sum>x\<leftarrow>xs. f x :: int) = (\<Sum>y\<leftarrow>ys. g y)"
  by (induction xs ys rule: list_induct2) auto

section \<open>Sweep\<close>

lemma sweep_shards:
  assumes "sweep ord now t = (freed, t')"
  shows "shards t' = map (\<lambda>sh. snd (sweep_shard ord now (ttl t) sh)) (shards t)"
    and "freed = (\<Sum>sh\<leftarrow>shards t. fst (sweep_shard ord now (ttl t) sh))"
    and "slots t' = slots t" and "free t' = free t" and "nextSl t' = nextSl t"
  using assms by (auto simp: sweep_def Let_def comp_def)

lemma sweep_shard_at:
  assumes wf: "wf_tree t" and ord: "\<And>xs. set (ord xs) = set xs" and "sweep ord now t = (freed, t')" and i: "i < numShards"
  shows "pruned (idle now (ttl t)) (fst (sweep_shard ord now (ttl t) (shards t ! i))) (shards t ! i) (shards t' ! i)"
    and "wf_shard (shards t' ! i)"
    and "ref \<in> set (tails (shards t ! i)) \<Longrightarrow> deref (shards t ! i) ref = Some r \<Longrightarrow> now - lastUsed r > ttl t \<Longrightarrow>
      deref (shards t' ! i) ref = None"
proof -
  have w: "shape_shard (shards t ! i)" "shard_marked (shards t ! i)" and len: "length (shards t) = numShards"
    using wf i by (auto simp: wf_tree_def wf_shard_def)
  obtain n sh' where r: "sweep_shard ord now (ttl t) (shards t ! i) = (n, sh')"
    by (cases "sweep_shard ord now (ttl t) (shards t ! i)")
  have sh': "shards t' ! i = sh'" using sweep_shards(1) [OF assms(3)] r i len by simp
  note s = sweep_shard_pruned [OF w(1) ord r]
  show "pruned (idle now (ttl t)) (fst (sweep_shard ord now (ttl t) (shards t ! i))) (shards t ! i) (shards t' ! i)"
    using s(1) r sh' by simp
  show "wf_shard (shards t' ! i)"
    using pruned_marked [OF w(2) s(1)] s(1) sh' by (simp add: wf_shard_def pruned_def)
  show "deref (shards t' ! i) ref = None"
    if "ref \<in> set (tails (shards t ! i))" "deref (shards t ! i) ref = Some r" "now - lastUsed r > ttl t"
    using s(2) that sh' by simp
qed

text \<open>A sweep evicts idle runs only: it keeps the invariants, every idle tail is gone afterwards, a path
  whose run was used within the time to live keeps its holders, no path gains holders, and the count it
  returns is the number of blocks removed, which is also what the expiry counter grew by.\<close>

theorem sweep_evicts_idle:
  assumes "wf_tree t" and "\<And>xs. set (ord xs) = set xs" and "sweep ord now t = (freed, t')"
  shows "wf_tree t' \<and>
    (\<forall>p l. units p \<noteq> [] \<longrightarrow> path_last t p = Some l \<longrightarrow> now - l \<le> ttl t \<longrightarrow> path_holders t' p = path_holders t p) \<and>
    (\<forall>p. units p \<noteq> [] \<longrightarrow> path_holders t' p \<subseteq> path_holders t p) \<and>
    (\<forall>i<numShards. \<forall>ref\<in>set (tails (shards t ! i)). \<forall>r. deref (shards t ! i) ref = Some r \<longrightarrow>
       now - lastUsed r > ttl t \<longrightarrow> deref (shards t' ! i) ref = None) \<and>
    freed = st_Blocks (stats t) - st_Blocks (stats t') \<and> freed = st_Expired (stats t') - st_Expired (stats t)"
proof -
  note at = sweep_shard_at [OF assms] and sh = sweep_shards [OF assms(3)]
  have len: "length (shards t) = numShards" "length (shards t') = numShards"
    using assms(1) sh(1) by (simp_all add: wf_tree_def)
  have look: "path_holders t' p = path_holders t p \<or> path_holders t' p = {} \<and> (\<exists>l. path_last t p = Some l \<and> now - l > ttl t)"
    if "units p \<noteq> []" for p
    using pruned_look [OF at(1) [OF shardFor_less [of p]], of "path_hashes (units p)" "modelKey p"] that
    by (auto simp: path_holders_def path_last_def shard_holders_def split: option.splits)
  then have sub: "path_holders t' p \<subseteq> path_holders t p" if "units p \<noteq> []" for p using that by blast
  have "wf_tree t'"
    using assms(1) at(2) len sub sh(3-5) unfolding wf_tree_def wf_slots_def by (metis in_set_conv_nth subset_trans)
  moreover have "(\<Sum>x\<leftarrow>shards t. fst (sweep_shard ord now (ttl t) x)) = (\<Sum>x\<leftarrow>shards t. sh_blocks x - sh_blocks (snd (sweep_shard ord now (ttl t) x)))"
    and "(\<Sum>x\<leftarrow>shards t. fst (sweep_shard ord now (ttl t) x)) = (\<Sum>x\<leftarrow>shards t. sh_expired (snd (sweep_shard ord now (ttl t) x)) - sh_expired x)"
    using at(1) len(1) unfolding sh(1) pruned_def
    by (intro arg_cong [where f = sum_list] map_cong refl; force simp: in_set_conv_nth)+
  then have "freed = st_Blocks (stats t) - st_Blocks (stats t')" "freed = st_Expired (stats t') - st_Expired (stats t)"
    by (simp_all add: sh stats_def sum_list_subtractf comp_def)
  ultimately show ?thesis using look sub at(3) by (auto; metis linorder_not_less option.inject)
qed

theorem sweep_evicts_idle_witness: "wf_tree (snd (sweep id 1000 (snd (commit 5 one_backend two_blocks 0))))"
proof -
  have "wf_tree (snd (commit 5 one_backend two_blocks 0))"
    using pf.inv_put [OF one_backend_wf one_backend_slot, of two_blocks 5] by simp
  from sweep_evicts_idle [OF this, of id 1000] show ?thesis by (cases "sweep id 1000 (snd (commit 5 one_backend two_blocks 0))") auto
qed

section \<open>Dropping a backend\<close>

lemma slots_delete:
  assumes "wf_slots t" and "map_of (slots t) u = Some s"
  shows "snd ` set (AList.delete u (slots t)) = registered t - {s}" and "s \<in> registered t"
    and "distinct (map snd (AList.delete u (slots t)))" and "distinct (map fst (AList.delete u (slots t)))"
proof -
  have d: "distinct (map fst (slots t))" "distinct (map snd (slots t))" using assms(1) by (simp_all add: wf_slots_def)
  have mem: "(u, s) \<in> set (slots t)" by (rule map_of_SomeD [OF assms(2)])
  then show "s \<in> registered t" by force
  have "v = s \<longleftrightarrow> u' = u" if "(u', v) \<in> set (slots t)" for u' v
    using d mem that by (metis eq_key_imp_eq_value inj_onD distinct_map snd_conv prod.inject)
  then show "snd ` set (AList.delete u (slots t)) = registered t - {s}"
    by (force simp: AList.delete_eq)
  show "distinct (map snd (AList.delete u (slots t)))" "distinct (map fst (AList.delete u (slots t)))"
    using d by (simp_all add: AList.delete_eq distinct_map_filter)
qed

lemma wf_slots_drop:
  assumes "wf_slots t" and "map_of (slots t) u = Some s"
  shows "wf_slots (t\<lparr>slots := AList.delete u (slots t), shards := shs, free := free t @ [s]\<rparr>)"
  using assms slots_delete [OF assms] unfolding wf_slots_def by auto

text \<open>Dropping a backend forgets it completely: with fuel above the number of runs of every shard the
  operation returns, the forest stays well formed, exactly the dropped slot disappears from the holders of
  every path, the other backends keep their slots, and the next new backend, which reuses the slot number,
  holds nothing.\<close>

theorem dropBackend_forgets:
  assumes wf: "wf_tree t" and ord: "\<And>xs. set (ord xs) = set xs" and s: "slot_of t u = Some s"
    and fuel: "\<forall>sh\<in>set (shards t). nat (sh_runs sh) < fuel"
  shows "\<exists>t'. dropBackend ord fuel t u = Some t' \<and> wf_tree t' \<and> slot_of t' u = None \<and>
    (\<forall>v. v \<noteq> u \<longrightarrow> slot_of t' v = slot_of t v) \<and>
    (\<forall>p. units p \<noteq> [] \<longrightarrow> path_holders t' p = path_holders t p - {s}) \<and>
    (\<forall>v. slot_of t' v = None \<longrightarrow> fst (slotFor t' v) = s)"
proof -
  have m: "map_of (slots t) u = Some s" using s by (simp add: slot_of_def)
  have ws: "wf_slots t" and len: "length (shards t) = numShards" using wf by (simp_all add: wf_tree_def)
  let ?f = "drop_shard ord fuel s"
  have D: "\<exists>sh'. ?f sh = Some sh' \<and> wf_shard sh' \<and> (\<forall>mk q. q \<noteq> [] \<longrightarrow> shard_holders sh' mk q = shard_holders sh mk q - {s})"
    if "sh \<in> set (shards t)" for sh
    using drop_shard_returns [of sh ord fuel s] wf ord fuel that by (simp add: wf_tree_def)
  define t' where "t' = t\<lparr>slots := AList.delete u (slots t), shards := map (the \<circ> ?f) (shards t), free := free t @ [s]\<rparr>"
  have "None \<notin> ?f ` set (shards t)" using D by force
  then have run: "dropBackend ord fuel t u = Some t'" using m by (simp add: dropBackend_def Let_def t'_def)
  have ph: "path_holders t' p = path_holders t p - {s}" if "units p \<noteq> []" for p
  proof -
    have i: "shardFor p < length (shards t)" using shardFor_less len by simp
    with D [of "shards t ! shardFor p"] that show ?thesis by (auto simp: path_holders_def t'_def)
  qed
  have sl: "slot_of t' v = (if v = u then None else slot_of t v)" for v
    by (simp add: t'_def slot_of_def map_of_delete_roots)
  have "wf_slots t'" unfolding t'_def by (rule wf_slots_drop [OF ws m])
  moreover have "registered t' = registered t - {s}" using slots_delete(1) [OF ws m] by (simp add: t'_def)
  moreover have "\<forall>sh\<in>set (shards t'). wf_shard sh" using D by (force simp: t'_def)
  ultimately have "wf_tree t'" using wf ph len by (auto simp: wf_tree_def) (simp add: t'_def)
  moreover have "fst (slotFor t' v) = s" if "slot_of t' v = None" for v
    using that by (simp add: slotFor_def slot_of_def t'_def)
  ultimately show ?thesis using run ph sl by auto
qed

theorem dropBackend_forgets_witness:
  "\<exists>t'. dropBackend id 9 one_backend ''http://a'' = Some t' \<and> wf_tree t' \<and> slot_of t' ''http://a'' = None"
  using dropBackend_forgets [OF one_backend_wf, of id "''http://a''" 0 9]
  by (auto simp: slot_of_def newTree_def slotFor_def empty_shard_def)

end
