(* ===== verification/Selector.thy ===== *)
theory Selector
  imports Backend KvUnits
begin

text \<open>
  \<^verbatim>\<open>router/internal/policy/policy.go\<close> (the selector and its tie-break) and
  \<^verbatim>\<open>router/internal/policy/affinity/signal.go\<close> (who is saturated). A decision reads each backend's atomics;
  a \<open>node\<close> is such a reading. Pointers to backends are compared by URL, which is unique in a snapshot.
  Metrics are not modelled.
\<close>

section \<open>Definitions\<close>

record node =
  nurl :: url
  ninflight :: int
  np90 :: ns
  ndecode :: int
  nactive :: int
  nprefill :: int
  nblocked :: bool
  nload :: rat

definition reading :: "ns \<Rightarrow> backend \<Rightarrow> node" where
  "reading now b = \<lparr>nurl = URL b, ninflight = inflight b, np90 = fst (TTFTp90 now b), ndecode = decodeTokens b,
     nactive = activeTokens b, nprefill = prefillTokens b, nblocked = hardBlocked b, nload = NormalizedLoad b\<rparr>"

text \<open>\<open>draw k n\<close> is what the \<open>k\<close>-th call of \<^verbatim>\<open>rand.IntN(n)\<close> returns. \<open>None\<close> is the infinite start score.\<close>

type_synonym rng = "nat \<Rightarrow> nat \<Rightarrow> nat"

definition better_than :: "bool \<Rightarrow> rat \<Rightarrow> rat option \<Rightarrow> bool" where
  "better_than maximize s best = (case best of None \<Rightarrow> True | Some b \<Rightarrow> if maximize then s > b else s < b)"

fun pick_loop :: "rng \<Rightarrow> bool \<Rightarrow> ('a \<Rightarrow> rat) \<Rightarrow> 'a list \<Rightarrow> 'a option \<Rightarrow> rat option \<Rightarrow> nat \<Rightarrow> nat \<Rightarrow> 'a option" where
  "pick_loop draw maximize score [] best bestScore ties k = best"
| "pick_loop draw maximize score (c # cs) best bestScore ties k =
     (let s = score c in
      if better_than maximize s bestScore then pick_loop draw maximize score cs (Some c) (Some s) 1 k
      else if bestScore = Some s
      then pick_loop draw maximize score cs (if draw k (ties + 1) = 0 then Some c else best) bestScore (ties + 1) (k + 1)
      else pick_loop draw maximize score cs best bestScore ties k)"

definition pickBest :: "rng \<Rightarrow> bool \<Rightarrow> ('a \<Rightarrow> rat) \<Rightarrow> 'a list \<Rightarrow> 'a option" where
  "pickBest draw maximize score cands = pick_loop draw maximize score cands None None 0 0"

text \<open>\<open>None\<close> is \<^verbatim>\<open>ErrNoCandidates\<close>.\<close>

definition LeastOutstanding :: "rng \<Rightarrow> node list \<Rightarrow> node option" where
  "LeastOutstanding draw cands = (if cands = [] then None else pickBest draw False nload cands)"

section \<open>Signals\<close>

record refusal =
  ref_at :: ns
  ref_inflight :: int

datatype signal = Refused | Concurrency int | TTFT ns | Imbalance rat

definition minRebalanceLoad :: int where
  "minRebalanceLoad = 8"

definition record_refusal :: "ns \<Rightarrow> node \<Rightarrow> (url \<rightharpoonup> refusal) \<Rightarrow> url \<rightharpoonup> refusal" where
  "record_refusal now b hot = hot(nurl b \<mapsto> \<lparr>ref_at = now, ref_inflight = ninflight b\<rparr>)"

definition clear_refusal :: "node \<Rightarrow> (url \<rightharpoonup> refusal) \<Rightarrow> url \<rightharpoonup> refusal" where
  "clear_refusal b hot = (if hot (nurl b) = None then hot else hot(nurl b := None))"

definition refused_saturated :: "ns \<Rightarrow> ns \<Rightarrow> (url \<rightharpoonup> refusal) \<Rightarrow> node \<Rightarrow> bool \<times> int" where
  "refused_saturated now ttl hot b =
     (case hot (nurl b) of None \<Rightarrow> (False, 0)
      | Some f \<Rightarrow>
          (if now - ref_at f > ttl then (False, 0)
           else if ninflight b < ref_inflight f then (False, 0)
           else (True, ref_inflight f)))"

definition concurrency_saturated :: "int \<Rightarrow> node \<Rightarrow> bool \<times> int" where
  "concurrency_saturated limit b = (if ninflight b \<ge> limit then (True, limit) else (False, 0))"

definition ttft_saturated :: "ns \<Rightarrow> node \<Rightarrow> bool \<times> int" where
  "ttft_saturated limit b = (if nblocked b \<and> np90 b \<ge> limit then (True, 0) else (False, 0))"

definition imbalance_saturated :: "rat \<Rightarrow> int \<Rightarrow> node \<Rightarrow> bool \<times> int" where
  "imbalance_saturated ratio minInflight b =
     (let load = ninflight b in
      if load \<le> 0 \<or> load \<le> minInflight then (False, 0)
      else if load < minRebalanceLoad then (False, 0)
      else if fdiv (f64 (load - minInflight)) (f64 load) > ratio then (True, load)
      else (False, 0))"

definition saturated :: "ns \<Rightarrow> ns \<Rightarrow> (url \<rightharpoonup> refusal) \<Rightarrow> int \<Rightarrow> signal \<Rightarrow> node \<Rightarrow> bool \<times> int" where
  "saturated now ttl hot minInflight sg b =
     (case sg of Refused \<Rightarrow> refused_saturated now ttl hot b
      | Concurrency limit \<Rightarrow> concurrency_saturated limit b
      | TTFT limit \<Rightarrow> ttft_saturated limit b
      | Imbalance ratio \<Rightarrow> imbalance_saturated ratio minInflight b)"

definition is_concurrency :: "signal \<Rightarrow> bool" where
  "is_concurrency sg = (case sg of Concurrency _ \<Rightarrow> True | _ \<Rightarrow> False)"

section \<open>The tie-break\<close>

text \<open>Scanning \<open>cs\<close> after \<open>ds\<close> with the incumbent a best of \<open>ds\<close>.\<close>

definition optimal :: "bool \<Rightarrow> ('a \<Rightarrow> rat) \<Rightarrow> 'a list \<Rightarrow> 'a \<Rightarrow> bool" where
  "optimal maximize score cs b \<longleftrightarrow> b \<in> set cs \<and> (\<forall>c\<in>set cs. if maximize then score c \<le> score b else score b \<le> score c)"

lemma pick_loop_optimal:
  assumes "optimal mx score ds b"
  shows "\<exists>b'. pick_loop draw mx score cs (Some b) (Some (score b)) ties k = Some b' \<and> optimal mx score (ds @ cs) b'"
  using assms
proof (induction cs arbitrary: ds b ties k)
  case (Cons c cs)
  consider "better_than mx (score c) (Some (score b))" | "score c = score b" "\<not> better_than mx (score c) (Some (score b))"
    | "score c \<noteq> score b" "\<not> better_than mx (score c) (Some (score b))" by blast
  then show ?case
  proof cases
    case 1
    then have "optimal mx score (ds @ [c]) c"
      using Cons.prems by (auto simp: optimal_def better_than_def split: if_splits)
    from Cons.IH [OF this] show ?thesis using 1 by (simp add: Let_def)
  next
    case 2
    then have "optimal mx score (ds @ [c]) x" if "x = b \<or> x = c" for x
      using Cons.prems that by (auto simp: optimal_def split: if_splits)
    from Cons.IH [OF this] show ?thesis using 2 by (cases "draw k (ties + 1) = 0") (fastforce simp: Let_def)+
  next
    case 3
    then have "optimal mx score (ds @ [c]) b"
      using Cons.prems by (auto simp: optimal_def better_than_def split: if_splits)
    from Cons.IH [OF this] show ?thesis using 3 by (simp add: Let_def)
  qed
qed simp

lemma pickBest_optimal: "cs \<noteq> [] \<Longrightarrow> \<exists>b. pickBest draw mx score cs = Some b \<and> optimal mx score cs b"
proof (cases cs)
  case (Cons c cs')
  have "optimal mx score [c] c" by (simp add: optimal_def)
  from pick_loop_optimal [OF this] show ?thesis using Cons by (simp add: pickBest_def better_than_def Let_def)
qed simp

text \<open>A draw that fails for every later tie keeps the incumbent; a prefix leaves a best of it and the number
  of its equals.\<close>

lemma pick_loop_keep:
  assumes "\<And>c. c \<in> set cs \<Longrightarrow> if mx then score c \<le> score b else score b \<le> score c"
    and "\<And>j n. ties < n \<Longrightarrow> draw j n \<noteq> 0"
  shows "pick_loop draw mx score cs (Some b) (Some (score b)) ties k = Some b"
  using assms
proof (induction cs arbitrary: ties k)
  case (Cons c cs)
  have n: "\<not> better_than mx (score c) (Some (score b))"
    using Cons.prems(1) [of c] by (auto simp: better_than_def split: if_splits)
  have le: "if mx then score x \<le> score b else score b \<le> score x" if "x \<in> set cs" for x using Cons.prems(1) that by simp
  have d: "draw j m \<noteq> 0" if "ties < m" for j m using Cons.prems(2) that .
  have "pick_loop draw mx score cs (Some b) (Some (score b)) (ties + 1) (k + 1) = Some b"
    by (rule Cons.IH) (use le d in auto)
  moreover have "pick_loop draw mx score cs (Some b) (Some (score b)) ties k = Some b"
    by (rule Cons.IH) (use le d in auto)
  moreover have "draw k (ties + 1) \<noteq> 0" by (rule d) simp
  ultimately show ?case using n by (cases "score b = score c") (simp_all add: Let_def)
qed simp

definition equals :: "('a \<Rightarrow> rat) \<Rightarrow> 'a \<Rightarrow> 'a list \<Rightarrow> nat" where
  "equals score b ds = length (filter (\<lambda>x. score x = score b) ds)"

lemma pick_loop_prefix:
  assumes "optimal mx score pre b"
  shows "\<exists>b' k'. optimal mx score (pre @ ds) b' \<and> pick_loop draw mx score (ds @ rest) (Some b) (Some (score b)) (equals score b pre) k =
    pick_loop draw mx score rest (Some b') (Some (score b')) (equals score b' (pre @ ds)) k'"
  using assms
proof (induction ds arbitrary: pre b k)
  case (Cons c ds)
  consider "better_than mx (score c) (Some (score b))" | "score c = score b" "\<not> better_than mx (score c) (Some (score b))"
    | "score c \<noteq> score b" "\<not> better_than mx (score c) (Some (score b))" by blast
  then show ?case
  proof cases
    case 1
    then have o: "optimal mx score (pre @ [c]) c"
      using Cons.prems by (auto simp: optimal_def better_than_def split: if_splits)
    have "filter (\<lambda>x. score x = score c) pre = []"
      using 1 Cons.prems by (auto simp: filter_empty_conv optimal_def better_than_def split: if_splits)
    then have "equals score c (pre @ [c]) = 1" by (simp add: equals_def)
    then show ?thesis using Cons.IH [OF o, of k] 1 by (simp add: Let_def)
  next
    case 2
    define x where "x = (if draw k (equals score b pre + 1) = 0 then c else b)"
    have o: "optimal mx score (pre @ [c]) x"
      using Cons.prems 2 by (auto simp: x_def optimal_def split: if_splits)
    have sx: "score x = score b" using 2 by (simp add: x_def)
    then have e: "equals score x (pre @ [c]) = equals score b pre + 1" using 2 by (simp add: equals_def)
    have "pick_loop draw mx score ((c # ds) @ rest) (Some b) (Some (score b)) (equals score b pre) k =
        pick_loop draw mx score (ds @ rest) (Some x) (Some (score x)) (equals score b pre + 1) (k + 1)"
      using 2 by (simp add: x_def Let_def)
    then show ?thesis using Cons.IH [OF o, of "k + 1"] unfolding e by simp
  next
    case 3
    then have o: "optimal mx score (pre @ [c]) b"
      using Cons.prems by (auto simp: optimal_def better_than_def split: if_splits)
    have e: "equals score b (pre @ [c]) = equals score b pre" using 3 by (simp add: equals_def)
    show ?thesis using Cons.IH [OF o, of k] 3 unfolding e by (simp add: Let_def)
  qed
qed auto

lemma pick_loop_reach:
  assumes "optimal mx score (ds @ c # es) c"
  shows "\<exists>draw. (\<forall>k n. 1 < n \<longrightarrow> draw k n < n) \<and> pickBest draw mx score (ds @ c # es) = Some c"
proof -
  have best: "if mx then score x \<le> score c else score c \<le> score x" if "x \<in> set ds \<union> set es" for x
    using assms that by (auto simp: optimal_def split: if_splits)
  define m where "m = equals score c ds + 1"
  define draw :: rng where "draw = (\<lambda>k n. if n = m \<and> 1 < m then 0 else 1)"
  have keep: "pick_loop draw mx score es (Some c) (Some (score c)) m k = Some c" for k
    by (rule pick_loop_keep) (use best in \<open>auto simp: draw_def\<close>)
  have "pickBest draw mx score (ds @ c # es) = Some c"
  proof (cases ds)
    case Nil
    then show ?thesis using keep by (simp add: pickBest_def better_than_def m_def equals_def Let_def)
  next
    case (Cons d ds')
    have o: "optimal mx score [d] d" by (simp add: optimal_def)
    have "equals score d [d] = 1" by (simp add: equals_def)
    with pick_loop_prefix [OF o, of ds' draw "c # es" 0] obtain b k where
      b: "optimal mx score ds b" "pickBest draw mx score (ds @ c # es) =
        pick_loop draw mx score (c # es) (Some b) (Some (score b)) (equals score b ds) k"
      unfolding Cons pickBest_def by (auto simp: better_than_def Let_def)
    have le: "if mx then score b \<le> score c else score c \<le> score b" using best b(1) by (simp add: optimal_def)
    show ?thesis
    proof (cases "score b = score c")
      case True
      then have e: "equals score b ds = m - 1" by (simp add: m_def equals_def)
      have "0 < equals score b ds" using b(1) by (auto simp: equals_def optimal_def filter_empty_conv)
      then have "draw k (m - 1 + 1) = 0" using e by (simp add: draw_def)
      then show ?thesis using True keep [of "k + 1"] unfolding b(2) e by (simp add: better_than_def Let_def m_def)
    next
      case False
      then have "filter (\<lambda>x. score x = score c) ds = []"
        using b(1) le by (auto simp: filter_empty_conv optimal_def split: if_splits)
      then have "m = 1" by (simp add: m_def equals_def)
      then show ?thesis using False le keep [of k] unfolding b(2) by (auto simp: better_than_def Let_def split: if_splits)
    qed
  qed
  moreover have "\<forall>k n. 1 < n \<longrightarrow> draw k n < n" by (simp add: draw_def)
  ultimately show ?thesis by blast
qed

text \<open>The selector returns a least-loaded candidate whatever the draws, never refuses a non-empty set,
  and its tie-break favours no position: every least-loaded candidate is the answer for some legal draws.\<close>

theorem LeastOutstanding_fair:
  assumes "cands \<noteq> []"
  shows "(\<exists>b\<in>set cands. LeastOutstanding draw cands = Some b \<and> (\<forall>c\<in>set cands. nload b \<le> nload c)) \<and>
    (\<forall>c\<in>set cands. (\<forall>x\<in>set cands. nload c \<le> nload x) \<longrightarrow>
       (\<exists>draw'. (\<forall>k n. 1 < n \<longrightarrow> draw' k n < n) \<and> LeastOutstanding draw' cands = Some c))"
proof -
  have "\<exists>b. LeastOutstanding draw cands = Some b \<and> optimal False nload cands b"
    using pickBest_optimal [OF assms] assms by (simp add: LeastOutstanding_def)
  moreover have "\<exists>draw'. (\<forall>k n. 1 < n \<longrightarrow> draw' k n < n) \<and> LeastOutstanding draw' cands = Some c"
    if c: "c \<in> set cands" "\<forall>x\<in>set cands. nload c \<le> nload x" for c
  proof -
    obtain ds es where d: "cands = ds @ c # es" using split_list [OF c(1)] by blast
    have "optimal False nload (ds @ c # es) c" using c d by (simp add: optimal_def)
    from pick_loop_reach [OF this] show ?thesis using d by (simp add: LeastOutstanding_def)
  qed
  ultimately show ?thesis by (auto simp: optimal_def)
qed

theorem LeastOutstanding_fair_witness:
  "\<exists>b. LeastOutstanding (\<lambda>_ _. 0) [reading 0 (newBackend DefaultConfig (bare_spec ''a''))] = Some b"
  using LeastOutstanding_fair [of "[reading 0 (newBackend DefaultConfig (bare_spec ''a''))]" "\<lambda>_ _. 0"] by blast

end
