(* ===== verification/Flow.thy ===== *)
theory Flow
  imports AffinityEvict Selector
begin

text \<open>
  \<^verbatim>\<open>router/internal/policy/affinity/policy.go\<close> and \<^verbatim>\<open>relative.go\<close>: the routing flow. \<open>Select\<close> follows the
  ladder of \<^verbatim>\<open>Policy.Select\<close>; its stages are definitions of their own. The flow's state is the marked tree,
  the refusal latches and the backends known. The atomics of a candidate are read once (\<open>node\<close>), the
  selector used among equals is the argument \<open>sel\<close> (the interface \<^verbatim>\<open>policy.Policy\<close>, \<open>None\<close> its error), the
  iteration order of the Go map \<^verbatim>\<open>saturated\<close> the argument \<open>ord\<close>, the digest the argument \<open>sha\<close>. Metrics are
  not modelled, except the decision label, which is the \<open>tier\<close> of the answer.
\<close>

section \<open>Configuration and state\<close>

datatype ladder = LadderStrict | LadderServeAnyway

record flow_config =
  NodeConcurrency :: int
  SoftNodeConcurrency :: int
  TTFTHard :: ns
  TTFTSoft :: ns
  RelativeTTFT :: bool
  RelativeDecode :: bool
  CostRouting :: bool
  RebalanceRatio :: rat
  SplitGuard :: rat
  TransientFallback :: rat
  TailTTL :: ns
  RefusalTTL :: ns
  PoolName :: string
  Ladder :: ladder

definition DefaultSplitGuard :: rat where
  "DefaultSplitGuard = fl64 (1 / 5)"

definition DefaultTailTTL :: ns where
  "DefaultTailTTL = 300 * second"

definition DefaultRefusalTTL :: ns where
  "DefaultRefusalTTL = 2 * second"

text \<open>\<^verbatim>\<open>withDefaults\<close> in its order: the simple defaults, then the clamps that read them.\<close>

definition fill_defaults :: "flow_config \<Rightarrow> flow_config" where
  "fill_defaults c = c\<lparr>SplitGuard := (if SplitGuard c \<le> 0 \<or> SplitGuard c \<ge> 1 then DefaultSplitGuard else SplitGuard c),
     TailTTL := (if TailTTL c \<le> 0 then DefaultTailTTL else TailTTL c),
     RefusalTTL := (if RefusalTTL c \<le> 0 then DefaultRefusalTTL else RefusalTTL c),
     PoolName := (if PoolName c = [] then ''default'' else PoolName c)\<rparr>"

definition clamp_transient :: "flow_config \<Rightarrow> flow_config" where
  "clamp_transient c =
     (if TransientFallback c < 0 \<or> TransientFallback c \<ge> SplitGuard c then c\<lparr>TransientFallback := 0\<rparr> else c)"

definition clamp_soft :: "flow_config \<Rightarrow> flow_config" where
  "clamp_soft c =
     (if SoftNodeConcurrency c < 0 \<or> NodeConcurrency c \<le> 0 \<or> SoftNodeConcurrency c \<ge> NodeConcurrency c
      then c\<lparr>SoftNodeConcurrency := 0\<rparr> else c)"

definition clamp_ttft :: "flow_config \<Rightarrow> flow_config" where
  "clamp_ttft c = c\<lparr>TTFTHard := (if TTFTHard c < 0 then 0 else TTFTHard c),
     TTFTSoft := (if TTFTSoft c < 0 then 0 else TTFTSoft c)\<rparr>"

definition withDefaults :: "flow_config \<Rightarrow> flow_config" where
  "withDefaults c = clamp_ttft (clamp_soft (clamp_transient (fill_defaults c)))"

record flow =
  fcfg :: flow_config
  ftree :: tree
  hot :: "url \<rightharpoonup> refusal"
  signals :: "signal list"
  members :: "url set"

definition Flow_New :: "flow_config \<Rightarrow> flow" where
  "Flow_New c0 =
     (let c = withDefaults c0;
          s1 = [Refused];
          s2 = (if NodeConcurrency c > 0 then s1 @ [Concurrency (NodeConcurrency c)] else s1);
          s3 = (if TTFTHard c > 0 then s2 @ [TTFT (TTFTHard c)] else s2);
          s4 = (if RebalanceRatio c > 0 then s3 @ [Imbalance (RebalanceRatio c)] else s3)
      in \<lparr>fcfg = c, ftree = newTree (TailTTL c), hot = Map.empty, signals = s4, members = {}\<rparr>)"

definition OnRefused :: "ns \<Rightarrow> node \<Rightarrow> flow \<Rightarrow> flow" where
  "OnRefused now b fl = fl\<lparr>hot := record_refusal now b (hot fl)\<rparr>"

definition OnAccepted :: "node \<Rightarrow> flow \<Rightarrow> flow" where
  "OnAccepted b fl = fl\<lparr>hot := clear_refusal b (hot fl)\<rparr>"

text \<open>What a policy may know of a request; \<open>mark\<close> is \<^verbatim>\<open>PolicyState\<close>, \<open>prefill\<close> the charge of cost routing.\<close>

record request =
  Units :: "kvunit list"
  Model :: string
  EstTokens :: int
  mark :: "bool option"
  Prefill :: "(url \<times> int) option"

datatype tier = Cache | Split | Stretch | Overflow | Load | CostMove | CostStay

datatype flow_error = ErrNoCandidates | ErrAllBackendsSaturated | SaturatedError node int | ErrSplitGuardBlocked

datatype verdict = Routed tier node | Rejected flow_error

type_synonym sel = "node list \<Rightarrow> node option"
type_synonym sha = "byte list \<Rightarrow> u64"

definition model_key :: "sha \<Rightarrow> string \<Rightarrow> u64" where
  "model_key sha model =
     (if model = [] then 0
      else HashContent sha (map (\<lambda>c. of_nat (of_char c)) ''model'') (map (\<lambda>c. of_nat (of_char c)) model))"

definition req_path :: "sha \<Rightarrow> request \<Rightarrow> rpath" where
  "req_path sha rr = \<lparr>units = Units rr, modelKey = model_key sha (Model rr)\<rparr>"

definition route :: "sel \<Rightarrow> tier \<Rightarrow> node list \<Rightarrow> verdict" where
  "route sel t cs = (case sel cs of None \<Rightarrow> Rejected ErrNoCandidates | Some b \<Rightarrow> Routed t b)"

section \<open>The usable set\<close>

definition min_inflight :: "node list \<Rightarrow> int" where
  "min_inflight cands = fold (\<lambda>c m. if ninflight c < m then ninflight c else m) (tl cands) (ninflight (hd cands))"

text \<open>The loop over the signals for one candidate: the reference so far (\<^verbatim>\<open>-1\<close> for none), whether one fired,
  whether only the concurrency signal did.\<close>

definition fire_step :: "ns \<Rightarrow> flow \<Rightarrow> int \<Rightarrow> node \<Rightarrow> signal \<Rightarrow> int \<times> bool \<times> bool \<Rightarrow> int \<times> bool \<times> bool" where
  "fire_step now fl mi c sg acc =
     (case (acc, saturated now (RefusalTTL (fcfg fl)) (hot fl) mi sg c) of
        ((ref, fired, only), (hit, r)) \<Rightarrow>
          (if \<not> hit then (ref, fired, only)
           else (let ref1 = (if r > 0 \<and> (ref < 0 \<or> r < ref) then r else ref)
                 in (if ref1 < 0 then 0 else ref1, True, only \<and> is_concurrency sg))))"

definition fire :: "ns \<Rightarrow> flow \<Rightarrow> int \<Rightarrow> node \<Rightarrow> int \<times> bool \<times> bool" where
  "fire now fl mi c = fold (fire_step now fl mi c) (signals fl) (- 1, False, True)"

fun sort_out :: "ns \<Rightarrow> flow \<Rightarrow> int \<Rightarrow> node list \<Rightarrow> node list \<Rightarrow> (url \<times> int) list \<Rightarrow> node list \<Rightarrow>
    node list \<times> (url \<times> int) list \<times> node list" where
  "sort_out now fl mi [] usable sat waitable = (usable, sat, waitable)"
| "sort_out now fl mi (c # cs) usable sat waitable =
     (case fire now fl mi c of (ref, fired, only) \<Rightarrow>
        (if ref < 0 then sort_out now fl mi cs (usable @ [c]) sat waitable
         else sort_out now fl mi cs usable (AList.update (nurl c) ref sat)
                (if fired \<and> only then waitable @ [c] else waitable)))"

fun resolve :: "node list \<Rightarrow> int list \<times> markSet \<times> tree \<Rightarrow> int list \<times> markSet \<times> tree" where
  "resolve [] acc = acc"
| "resolve (c # cs) (sl, cm, t) =
     (case slotOrCreate t (nurl c) of (s, t') \<Rightarrow> resolve cs (sl @ [s], Add cm s, t'))"

abbreviation resolved :: "node list \<Rightarrow> tree \<Rightarrow> int list \<times> markSet \<times> tree" where
  "resolved cs t \<equiv> resolve cs ([], empty_marks, t)"

definition holding_nodes :: "markSet \<Rightarrow> int list \<Rightarrow> node list \<Rightarrow> node list" where
  "holding_nodes m sl ns = map snd (filter (\<lambda>(s, c). Has m s) (zip sl ns))"

definition queueTarget :: "sel \<Rightarrow> sha \<Rightarrow> node list \<Rightarrow> request \<Rightarrow> tree \<Rightarrow> node option \<times> tree" where
  "queueTarget sel sha waitable rr t =
     (if waitable = [] then (None, t)
      else if Units rr = [] then (sel waitable, t)
      else
        (case resolved waitable t of (sl, cm, t1) \<Rightarrow>
           (let a = walk t1 (req_path sha rr) cm in
            if Empty (pool a) \<or> \<not> availDeepest a then (None, t1)
            else (let hs = holding_nodes (pool a) sl waitable
                  in if hs = [] then (None, t1) else (sel hs, t1)))))"

section \<open>Relative load and cost\<close>

fun lowest_loop :: "url \<Rightarrow> (node \<Rightarrow> int) \<Rightarrow> node list \<Rightarrow> int option \<Rightarrow> int option" where
  "lowest_loop self f [] lo = lo"
| "lowest_loop self f (c # cs) lo =
     (if nurl c = self then lowest_loop self f cs lo
      else lowest_loop self f cs (case lo of None \<Rightarrow> Some (f c) | Some l \<Rightarrow> if f c < l then Some (f c) else lo))"

definition lowestOther :: "node list \<Rightarrow> node \<Rightarrow> (node \<Rightarrow> int) \<Rightarrow> int option" where
  "lowestOther usable self f = lowest_loop (nurl self) f usable None"

definition estTokens :: "request \<Rightarrow> int" where
  "estTokens rr = (if EstTokens rr > 0 then EstTokens rr else (\<Sum>u\<leftarrow>Units rr. uTokens u))"

definition node_cost :: "int \<Rightarrow> int \<Rightarrow> node \<Rightarrow> int" where
  "node_cost tot0 h c = (tot0 - h) + nprefill c + nactive c"

text \<open>The scan of \<^verbatim>\<open>selectByCost\<close>: the best so far with its held tokens, and the deepest held.\<close>

fun cost_loop :: "int \<Rightarrow> (node \<times> int) list \<Rightarrow> (node \<times> int) option \<Rightarrow> int \<Rightarrow> (node \<times> int) option \<times> int" where
  "cost_loop tot0 [] best deepest = (best, deepest)"
| "cost_loop tot0 ((c, h) # cs) best deepest =
     (let cost = node_cost tot0 h c;
          win = (case best of None \<Rightarrow> True
                 | Some (b, hb) \<Rightarrow> cost < node_cost tot0 hb b \<or>
                     cost = node_cost tot0 hb b \<and> ninflight c < ninflight b)
      in cost_loop tot0 cs (if win then Some (c, h) else best) (max deepest h))"

definition selectByCost :: "node list \<Rightarrow> int list \<Rightarrow> rpath \<Rightarrow> tree \<Rightarrow> request \<Rightarrow> verdict \<times> request" where
  "selectByCost usable sl pth t rr =
     (let tot0 = (\<Sum>u\<leftarrow>units pth. uTokens u);
          h = heldTokens t pth sl
      in case cost_loop tot0 (zip usable h) None 0 of
           (None, _) \<Rightarrow> (Rejected ErrNoCandidates, rr)
         | (Some (b, hb), deepest) \<Rightarrow>
             (Routed (if hb < deepest then CostMove else CostStay) b,
              rr\<lparr>mark := Some True, Prefill := Some (nurl b, tot0 - hb)\<rparr>))"

section \<open>The bands\<close>

datatype cause = CauseConcurrency | CauseSoftTTFT | CauseRelTTFT | CauseRelDecode

record bands =
  under :: "node list"
  causes :: "cause set"
  refP90 :: "ns option"
  refLoad :: "int option"

text \<open>Soft TTFT is active for a decision only if some usable node is within it.\<close>

definition soft_ttft :: "flow_config \<Rightarrow> node list \<Rightarrow> bool" where
  "soft_ttft cf usable \<longleftrightarrow> TTFTSoft cf > 0 \<and> (\<exists>c\<in>set usable. np90 c \<le> TTFTSoft cf)"

text \<open>Why a holder is passed over; the empty set keeps it.\<close>

definition holder_causes :: "flow_config \<Rightarrow> node list \<Rightarrow> int \<Rightarrow> node \<Rightarrow> cause set" where
  "holder_causes cf usable estTok c =
     (if SoftNodeConcurrency cf > 0 \<and> ninflight c \<ge> SoftNodeConcurrency cf then {CauseConcurrency} else {}) \<union>
     (if soft_ttft cf usable \<and> np90 c > TTFTSoft cf then {CauseSoftTTFT} else {}) \<union>
     (if RelativeTTFT cf \<and> (case lowestOther usable c np90 of None \<Rightarrow> False | Some lo \<Rightarrow> np90 c > lo)
      then {CauseRelTTFT} else {}) \<union>
     (if RelativeDecode cf \<and> (case lowestOther usable c ndecode of None \<Rightarrow> False | Some lo \<Rightarrow> ndecode c > lo + estTok)
      then {CauseRelDecode} else {})"

definition lower_of :: "int option \<Rightarrow> int \<Rightarrow> int option" where
  "lower_of old x = (case old of None \<Rightarrow> Some x | Some y \<Rightarrow> if x < y then Some x else old)"

fun band_loop :: "flow_config \<Rightarrow> node list \<Rightarrow> int \<Rightarrow> node list \<Rightarrow> bands \<Rightarrow> bands" where
  "band_loop cf usable estTok [] b = b"
| "band_loop cf usable estTok (c # cs) b =
     (let hc = holder_causes cf usable estTok c
      in band_loop cf usable estTok cs
           \<lparr>under = (if hc = {} then under b @ [c] else under b), causes = causes b \<union> hc,
            refP90 = lower_of (refP90 b) (np90 c), refLoad = lower_of (refLoad b) (ndecode c)\<rparr>)"

definition no_bands :: bands where
  "no_bands = \<lparr>under = [], causes = {}, refP90 = None, refLoad = None\<rparr>"

text \<open>The holders still preferred, those set aside, and the bands.\<close>

definition apply_bands :: "flow_config \<Rightarrow> node list \<Rightarrow> int \<Rightarrow> node list \<Rightarrow> node list \<times> node list \<times> bands" where
  "apply_bands cf usable estTok pl =
     (if (SoftNodeConcurrency cf > 0 \<or> soft_ttft cf usable \<or> RelativeTTFT cf \<or> RelativeDecode cf) \<and> pl \<noteq> [] then
        (let b = band_loop cf usable estTok pl no_bands in
         if under b = [] then ([], pl, b) else (under b, [], b\<lparr>causes := {}\<rparr>))
      else (pl, [], no_bands))"

section \<open>The guard\<close>

text \<open>The busiest saturated holder of the prefix, \<^verbatim>\<open>-1\<close> if none.\<close>

fun saturated_ref :: "markSet \<Rightarrow> (url \<times> int) list \<Rightarrow> int \<times> tree \<Rightarrow> int \<times> tree" where
  "saturated_ref h [] acc = acc"
| "saturated_ref h ((u, ref) # xs) (g, t) =
     (if ref > g then
        (case slotOrCreate t u of (s, t') \<Rightarrow> saturated_ref h xs (if Has h s then ref else g, t'))
      else saturated_ref h xs (g, t))"

fun least_stretch :: "node list \<Rightarrow> int \<Rightarrow> int" where
  "least_stretch [] h = h"
| "least_stretch (c # cs) h = least_stretch cs (if h < 0 \<or> ninflight c < h then ninflight c else h)"

definition guard_ref :: "flow_config \<Rightarrow> int \<Rightarrow> node list \<Rightarrow> cause set \<Rightarrow> int" where
  "guard_ref cf g0 stretch cs =
     (let g1 = (if stretch \<noteq> [] \<and> SoftNodeConcurrency cf > 0 then SoftNodeConcurrency cf
                else if g0 \<le> 0 then NodeConcurrency cf else g0)
      in if stretch \<noteq> [] \<and> (CauseRelTTFT \<in> cs \<or> CauseRelDecode \<in> cs)
         then (let h = least_stretch stretch (- 1) in if h > 0 \<and> (g1 \<le> 0 \<or> h < g1) then h else g1)
         else g1)"

text \<open>\<open>None\<close> is \<^verbatim>\<open>+Inf\<close>.\<close>

definition threshold :: "flow_config \<Rightarrow> int \<Rightarrow> rat option" where
  "threshold cf g = (if g > 0 then Some (fmul (f64 g) (fsub 1 (SplitGuard cf))) else None)"

definition below :: "rat option \<Rightarrow> node \<Rightarrow> bool" where
  "below th c = (case th of None \<Rightarrow> True | Some x \<Rightarrow> f64 (ninflight c) < x)"

definition split_ok :: "flow_config \<Rightarrow> node list \<Rightarrow> int \<Rightarrow> bands \<Rightarrow> rat option \<Rightarrow> node \<Rightarrow> bool" where
  "split_ok cf usable estTok b th c =
     (if soft_ttft cf usable \<and> np90 c > TTFTSoft cf then False
      else if CauseRelTTFT \<in> causes b \<and> \<not> (case refP90 b of None \<Rightarrow> np90 c < 0 | Some r \<Rightarrow> np90 c < r) then False
      else if CauseRelDecode \<in> causes b \<and> \<not> (case refLoad b of None \<Rightarrow> ndecode c + estTok < 0 | Some r \<Rightarrow> ndecode c + estTok < r)
      then False
      else below th c)"

definition split_targets :: "flow_config \<Rightarrow> int \<Rightarrow> bands \<Rightarrow> rat option \<Rightarrow> markSet \<Rightarrow> int list \<Rightarrow> node list \<Rightarrow> node list" where
  "split_targets cf estTok b th h sl usable =
     map snd (filter (\<lambda>(s, c). \<not> Has h s \<and> split_ok cf usable estTok b th c) (zip sl usable))"

definition transient_targets :: "flow_config \<Rightarrow> int \<Rightarrow> markSet \<Rightarrow> int list \<Rightarrow> node list \<Rightarrow> node list" where
  "transient_targets cf g h sl usable =
     (if TransientFallback cf > 0 \<and> g > 0
      then map snd (filter (\<lambda>(s, c). \<not> Has h s \<and> f64 (ninflight c) < fmul (f64 g) (fsub 1 (TransientFallback cf))) (zip sl usable))
      else [])"

section \<open>The ladder\<close>

definition tier1_pool :: "flow_config \<Rightarrow> anchors \<Rightarrow> int list \<Rightarrow> node list \<Rightarrow> node list" where
  "tier1_pool cf a sl usable =
     (let shallow = \<not> Empty (pool a) \<and> \<not> availDeepest a
      in if \<not> Empty (pool a) \<and> \<not> (shallow \<and> Ladder cf = LadderStrict) then holding_nodes (pool a) sl usable else [])"

definition ladder_tiers :: "sel \<Rightarrow> flow_config \<Rightarrow> node list \<Rightarrow> node list \<Rightarrow> int list \<Rightarrow> anchors \<Rightarrow> node list \<Rightarrow> node list \<Rightarrow>
    bands \<Rightarrow> int \<Rightarrow> request \<Rightarrow> verdict \<times> request" where
  "ladder_tiers sel cf cands usable sl a pl stretch b g rr =
     (let yes = rr\<lparr>mark := Some True\<rparr>; no = rr\<lparr>mark := Some False\<rparr> in
      if pl \<noteq> [] then (route sel Cache pl, yes)
      else if \<not> Empty (held a) then
        (let split = split_targets cf (estTokens rr) b (threshold cf g) (held a) sl usable;
             transient = transient_targets cf g (held a) sl usable
         in if split \<noteq> [] then (route sel Split split, yes)
            else if stretch \<noteq> [] then (route sel Stretch stretch, yes)
            else if transient \<noteq> [] then (route sel Overflow transient, no)
            else if Ladder cf = LadderStrict then (Rejected ErrSplitGuardBlocked, rr)
            else (route sel Overflow cands, no))
      else (route sel Load usable, yes))"

definition run_ladder :: "sel \<Rightarrow> flow_config \<Rightarrow> node list \<Rightarrow> node list \<Rightarrow> int list \<Rightarrow> (url \<times> int) list \<Rightarrow> anchors \<Rightarrow>
    request \<Rightarrow> tree \<Rightarrow> (verdict \<times> request) \<times> tree" where
  "run_ladder sel cf cands usable sl sat a rr t =
     (case apply_bands cf usable (estTokens rr) (tier1_pool cf a sl usable) of
        (pl, stretch, b) \<Rightarrow>
          (case saturated_ref (held a) sat (- 1, t) of
             (g0, t') \<Rightarrow> (ladder_tiers sel cf cands usable sl a pl stretch b (guard_ref cf g0 stretch (causes b)) rr, t')))"

definition Select :: "sel \<Rightarrow> sha \<Rightarrow> ((url \<times> int) list \<Rightarrow> (url \<times> int) list) \<Rightarrow> ns \<Rightarrow> node list \<Rightarrow> request \<Rightarrow> flow \<Rightarrow>
    (verdict \<times> request) \<times> flow" where
  "Select sel sha ord now cands rr fl =
     (if cands = [] then ((Rejected ErrNoCandidates, rr), fl)
      else
        (case sort_out now fl (min_inflight cands) cands [] [] [] of
           (usable, sat, waitable) \<Rightarrow>
             (case resolved usable (ftree fl) of
                (sl, cm, t1) \<Rightarrow>
                  (if usable = [] then
                     (case queueTarget sel sha waitable rr t1 of
                        (Some b, t2) \<Rightarrow> ((Rejected (SaturatedError b (NodeConcurrency (fcfg fl))), rr), fl\<lparr>ftree := t2\<rparr>)
                      | (None, t2) \<Rightarrow> ((Rejected ErrAllBackendsSaturated, rr), fl\<lparr>ftree := t2\<rparr>))
                   else if Units rr = [] then ((route sel Load usable, rr\<lparr>mark := Some False\<rparr>), fl\<lparr>ftree := t1\<rparr>)
                   else if CostRouting (fcfg fl)
                   then (selectByCost usable sl (req_path sha rr) t1 rr, fl\<lparr>ftree := t1\<rparr>)
                   else
                     (case run_ladder sel (fcfg fl) cands usable sl (ord sat) (walk t1 (req_path sha rr) cm) rr t1 of
                        (res, t2) \<Rightarrow> (res, fl\<lparr>ftree := t2\<rparr>))))))"

section \<open>Commit and the hooks\<close>

definition Commit :: "sha \<Rightarrow> ns \<Rightarrow> url \<Rightarrow> request \<Rightarrow> flow \<Rightarrow> flow" where
  "Commit sha now u rr fl =
     (if Units rr = [] then fl
      else if mark rr = Some False then fl
      else (case slotOrCreate (ftree fl) u of (s, t) \<Rightarrow> fl\<lparr>ftree := snd (commit now t (req_path sha rr) s)\<rparr>))"

definition AddBackend :: "backend \<Rightarrow> flow \<Rightarrow> flow \<times> backend" where
  "AddBackend b fl =
     (fl\<lparr>ftree := snd (slotFor (ftree fl) (URL b)), members := insert (URL b) (members fl)\<rparr>,
      SetHardTTFT (TTFTHard (fcfg fl)) b)"

definition DropBackend :: "(run_ref list \<Rightarrow> run_ref list) \<Rightarrow> nat \<Rightarrow> url \<Rightarrow> flow \<Rightarrow> flow option" where
  "DropBackend ord fuel u fl =
     map_option (\<lambda>t. fl\<lparr>members := members fl - {u}, ftree := t\<rparr>) (dropBackend ord fuel (ftree fl) u)"

definition Flush :: "flow \<Rightarrow> flow" where
  "Flush fl = fl\<lparr>ftree := flush (ftree fl)\<rparr>"

definition Flow_Sweep :: "(run_ref list \<Rightarrow> run_ref list) \<Rightarrow> ns \<Rightarrow> flow \<Rightarrow> int \<times> flow" where
  "Flow_Sweep ord now fl = (case sweep ord now (ftree fl) of (freed, t) \<Rightarrow> (freed, fl\<lparr>ftree := t\<rparr>))"

end
