(* ===== verification/FlowProps.thy ===== *)
theory FlowProps
  imports Flow
begin

text \<open>
  What the routing flow promises: which backend each tier of the ladder may choose, when it refuses, and
  that commits make it converge.
\<close>

section \<open>The usable set\<close>

definition usable_node :: "ns \<Rightarrow> flow \<Rightarrow> int \<Rightarrow> node \<Rightarrow> bool" where
  "usable_node now fl mi c \<longleftrightarrow> (\<forall>sg\<in>set (signals fl). \<not> fst (saturated now (RefusalTTL (fcfg fl)) (hot fl) mi sg c))"

definition only_concurrency :: "ns \<Rightarrow> flow \<Rightarrow> int \<Rightarrow> node \<Rightarrow> bool" where
  "only_concurrency now fl mi c \<longleftrightarrow> \<not> usable_node now fl mi c \<and>
     (\<forall>sg\<in>set (signals fl). fst (saturated now (RefusalTTL (fcfg fl)) (hot fl) mi sg c) \<longrightarrow> is_concurrency sg)"

lemma fire_step_cases:
  "fire_step now fl mi c sg (ref, fired, only) =
     (if fst (saturated now (RefusalTTL (fcfg fl)) (hot fl) mi sg c)
      then (let r = snd (saturated now (RefusalTTL (fcfg fl)) (hot fl) mi sg c);
                ref1 = (if r > 0 \<and> (ref < 0 \<or> r < ref) then r else ref)
            in (if ref1 < 0 then 0 else ref1, True, only \<and> is_concurrency sg))
      else (ref, fired, only))"
  by (simp add: fire_step_def case_prod_beta Let_def)

lemma fire_fold:
  assumes "fold (fire_step now fl mi c) sgs (ref, fired, only) = (ref', fired', only')" and "fired \<longleftrightarrow> 0 \<le> ref"
  shows "(fired' \<longleftrightarrow> 0 \<le> ref') \<and>
    (fired' \<longleftrightarrow> fired \<or> (\<exists>sg\<in>set sgs. fst (saturated now (RefusalTTL (fcfg fl)) (hot fl) mi sg c))) \<and>
    (only' \<longleftrightarrow> only \<and> (\<forall>sg\<in>set sgs. fst (saturated now (RefusalTTL (fcfg fl)) (hot fl) mi sg c) \<longrightarrow> is_concurrency sg))"
  using assms
proof (induction sgs arbitrary: ref fired only)
  case (Cons sg sgs)
  obtain r1 f1 o1 where s: "fire_step now fl mi c sg (ref, fired, only) = (r1, f1, o1)" by (metis prod_cases3)
  have "f1 \<longleftrightarrow> 0 \<le> r1" using s Cons.prems(2) by (auto simp: fire_step_cases Let_def split: if_splits)
  moreover have "fold (fire_step now fl mi c) sgs (r1, f1, o1) = (ref', fired', only')" using Cons.prems(1) s by simp
  ultimately have IH: "(fired' \<longleftrightarrow> 0 \<le> ref') \<and>
    (fired' \<longleftrightarrow> f1 \<or> (\<exists>sg\<in>set sgs. fst (saturated now (RefusalTTL (fcfg fl)) (hot fl) mi sg c))) \<and>
    (only' \<longleftrightarrow> o1 \<and> (\<forall>sg\<in>set sgs. fst (saturated now (RefusalTTL (fcfg fl)) (hot fl) mi sg c) \<longrightarrow> is_concurrency sg))"
    using Cons.IH by blast
  show ?case using s IH by (auto simp: fire_step_cases Let_def split: if_splits)
qed auto

lemma fire_spec:
  assumes "fire now fl mi c = (ref, fired, only)"
  shows "ref < 0 \<longleftrightarrow> usable_node now fl mi c" and "fired \<and> only \<longleftrightarrow> only_concurrency now fl mi c"
  using fire_fold [OF assms [unfolded fire_def]] by (auto simp: usable_node_def only_concurrency_def not_less)

lemma sort_out_spec:
  "sort_out now fl mi cs us sat ws =
     (us @ filter (usable_node now fl mi) cs,
      fold (\<lambda>c sat. AList.update (nurl c) (fst (fire now fl mi c)) sat) (filter (\<lambda>c. \<not> usable_node now fl mi c) cs) sat,
      ws @ filter (only_concurrency now fl mi) cs)"
proof (induction cs arbitrary: us sat ws)
  case (Cons c cs)
  obtain ref fired only where f: "fire now fl mi c = (ref, fired, only)" by (metis prod_cases3)
  have nc: "only_concurrency now fl mi c \<Longrightarrow> \<not> usable_node now fl mi c" by (simp add: only_concurrency_def)
  show ?case using Cons fire_spec [OF f] nc by (cases "ref < 0"; cases "fired \<and> only") (simp_all add: f)
qed simp

section \<open>Slots\<close>

lemma slotOrCreate_spec:
  assumes "wf_tree t" and "slotOrCreate t u = (s, t')"
  shows "wf_tree t'" and "slot_of t' u = Some s" and "shards t' = shards t" and "s \<in> registered t'"
    and "slot_of t v = Some x \<Longrightarrow> slot_of t' v = Some x"
proof -
  have "wf_tree t' \<and> slot_of t' u = Some s \<and> shards t' = shards t \<and> s \<in> registered t' \<and>
      (\<forall>x. slot_of t v = Some x \<longrightarrow> slot_of t' v = Some x)"
  proof (cases "slot_of t u")
    case None
    then have r: "slotFor t u = (s, t')" using assms(2) by (simp add: slotOrCreate_def)
    note w = slotFor_wf [OF assms(1) r]
    have "slot_of t v = Some x \<longrightarrow> slot_of t' v = Some x" for x
      using None w(5) [of v] by (cases "v = u") (simp_all add: slot_of_def)
    then show ?thesis using w(1-4) by (simp add: slot_of_def)
  next
    case (Some s0)
    then have e: "s0 = s" "t' = t" using assms(2) by (simp_all add: slotOrCreate_def)
    have "(u, s) \<in> set (slots t)" using Some e by (simp add: slot_of_def map_of_SomeD)
    then have "s \<in> registered t" by force
    then show ?thesis using Some e assms(1) by simp
  qed
  then show "wf_tree t'" "slot_of t' u = Some s" "shards t' = shards t" "s \<in> registered t'"
    "slot_of t v = Some x \<Longrightarrow> slot_of t' v = Some x" by blast+
qed

lemma resolve_spec:
  assumes "wf_tree t" and "resolve cs (sl, cm, t) = (sl', cm', t')"
  shows "wf_tree t' \<and> shards t' = shards t \<and> holders cm' = holders cm \<union> set (drop (length sl) sl') \<and>
    take (length sl) sl' = sl \<and> length sl' = length sl + length cs \<and>
    (\<forall>i<length cs. slot_of t' (nurl (cs ! i)) = Some (sl' ! (length sl + i))) \<and>
    (\<forall>v x. slot_of t v = Some x \<longrightarrow> slot_of t' v = Some x)"
  using assms
proof (induction cs arbitrary: sl cm t)
  case (Cons c cs)
  obtain s t1 where s: "slotOrCreate t (nurl c) = (s, t1)" by fastforce
  note S = slotOrCreate_spec [OF Cons.prems(1) s]
  have s0: "0 \<le> s" using S(1,4) by (auto simp: wf_tree_def wf_slots_def)
  have r: "resolve cs (sl @ [s], Add cm s, t1) = (sl', cm', t')" using Cons.prems(2) s by simp
  note I = Cons.IH [OF S(1) r]
  have h: "holders (Add cm s) = insert s (holders cm)" using s0 by (auto simp: holders_def Has_Add)
  have len: "length sl < length sl'" using I by simp
  have n: "sl' ! length sl = s" using I len by (metis nth_append_length nth_take lessI length_append_singleton)
  then have d: "drop (length sl) sl' = s # drop (Suc (length sl)) sl'" using Cons_nth_drop_Suc [OF len] by simp
  have tk: "take (length sl) sl' = sl" using I by (metis butlast_snoc butlast_take diff_Suc_1 le_SucI length_append_singleton less_imp_le_nat len Suc_leI)
  have sc: "slot_of t' (nurl c) = Some s" using I S(2) by blast
  have "slot_of t' (nurl ((c # cs) ! i)) = Some (sl' ! (length sl + i))" if "i < length (c # cs)" for i
    using that I sc n by (cases i) auto
  then show ?case using I S(3,5) h d tk by auto
qed auto

lemma resolved_spec:
  assumes "wf_tree t" and "resolved cs t = (sl, cm, t')"
  shows "wf_tree t'" and "shards t' = shards t" and "holders cm = set sl" and "length sl = length cs"
    and "i < length cs \<Longrightarrow> slot_of t' (nurl (cs ! i)) = Some (sl ! i)" and "slot_of t v = Some x \<Longrightarrow> slot_of t' v = Some x"
  using resolve_spec [OF assms] by (auto simp: holders_def)

text \<open>A backend holds the first \<open>d\<close> blocks of a path: its slot is marked there.\<close>

definition holds_url :: "tree \<Rightarrow> rpath \<Rightarrow> nat \<Rightarrow> url \<Rightarrow> bool" where
  "holds_url t p d u \<longleftrightarrow> (\<exists>s. slot_of t u = Some s \<and> s \<in> holders_upto t p d)"

lemma holders_upto_registered: "wf_tree t \<Longrightarrow> 0 < d \<Longrightarrow> d \<le> length (units p) \<Longrightarrow> holders_upto t p d \<subseteq> registered t"
  by (cases "units p") (auto simp: wf_tree_def gr0_conv_Suc)

text \<open>Creating slots changes nobody's holdings.\<close>

lemma holds_url_slots:
  assumes "wf_tree t" and "wf_tree t'" and "shards t' = shards t" and "0 < d" and "d \<le> length (units p)"
    and "\<And>v x. slot_of t v = Some x \<Longrightarrow> slot_of t' v = Some x"
  shows "holds_url t' p d u \<longleftrightarrow> holds_url t p d u"
proof -
  have h: "holders_upto t' p d = holders_upto t p d" by (rule path_holders_shards [OF assms(3)])
  have reg: "holders_upto t p d \<subseteq> registered t" by (rule holders_upto_registered [OF assms(1,4,5)])
  show ?thesis
  proof
    assume "holds_url t' p d u"
    then obtain s where s: "slot_of t' u = Some s" "s \<in> holders_upto t p d" by (auto simp: holds_url_def h)
    then obtain v where v: "slot_of t v = Some s"
      using reg assms(1) by (auto simp: slot_of_def wf_tree_def wf_slots_def map_of_eq_Some_iff image_iff)
    have "slot_of t' v = Some s" by (rule assms(6) [OF v])
    then have "(v, s) \<in> set (slots t')" "(u, s) \<in> set (slots t')" using s(1) by (simp_all add: slot_of_def map_of_SomeD)
    moreover have "inj_on snd (set (slots t'))" using assms(2) by (simp add: wf_tree_def wf_slots_def distinct_map)
    ultimately have "(u, s) = (v, s)" by (metis inj_onD snd_conv)
    then have "u = v" by simp
    then show "holds_url t p d u" using v s(2) by (auto simp: holds_url_def)
  next
    assume "holds_url t p d u"
    then show "holds_url t' p d u" using assms(6) by (auto simp: holds_url_def h)
  qed
qed

lemma set_holding: "length sl = length cs \<Longrightarrow> set (map snd (filter (\<lambda>(s, c). P s c) (zip sl cs))) = {cs ! i |i. i < length cs \<and> P (sl ! i) (cs ! i)}"
  by (force simp: set_zip image_iff)

text \<open>The anchors of a walk over the resolved candidates, in terms of URLs.\<close>

lemma anchors_urls:
  assumes wf: "wf_tree t" and us: "units p \<noteq> []" and r: "resolved cs t = (sl, cm, t')" and a: "a = walk t' p cm"
    and i: "i < length cs"
  shows "Has (pool a) (sl ! i) \<longleftrightarrow> 0 < anchorBlocks a \<and> holds_url t p (anchorBlocks a) (nurl (cs ! i))"
    and "Has (held a) (sl ! i) \<longleftrightarrow> 0 < heldBlocks a \<and> holds_url t p (heldBlocks a) (nurl (cs ! i))"
proof -
  note R = resolved_spec [OF wf r]
  note W = walk_reports [OF R(1) us, of cm, folded a, unfolded depth_report_def]
  have s: "slot_of t' (nurl (cs ! i)) = Some (sl ! i)" by (rule R(5) [OF i])
  have k: "anchorBlocks a \<le> length (units p)" "heldBlocks a \<le> length (units p)" using W by (auto simp: depth_of_def)
  have *: "sl ! i \<in> holders_upto t' p d \<longleftrightarrow> holds_url t p d (nurl (cs ! i))" if "0 < d" "d \<le> length (units p)" for d
    using holds_url_slots [OF wf R(1,2) that R(6), of "nurl (cs ! i)"] s by (simp add: holds_url_def)
  have "Has (pool a) (sl ! i) \<longleftrightarrow> sl ! i \<in> holders (pool a)" "Has (held a) (sl ! i) \<longleftrightarrow> sl ! i \<in> holders (held a)"
    by (simp_all add: holders_def)
  then show "Has (pool a) (sl ! i) \<longleftrightarrow> 0 < anchorBlocks a \<and> holds_url t p (anchorBlocks a) (nurl (cs ! i))"
    "Has (held a) (sl ! i) \<longleftrightarrow> 0 < heldBlocks a \<and> holds_url t p (heldBlocks a) (nurl (cs ! i))"
    using W k * by auto
qed

lemma none_holding: "Empty m \<longleftrightarrow> holders m = {}"
  by (auto simp: Empty_iff holders_def)

text \<open>The depths: \<open>deepest t p k\<close> when \<open>k\<close> leading blocks are held by someone and no more.\<close>

definition deepest :: "tree \<Rightarrow> rpath \<Rightarrow> nat \<Rightarrow> bool" where
  "deepest t p k \<longleftrightarrow> depth_of UNIV (holders_upto t p) (length (units p)) k"

lemma anchors_depth:
  assumes wf: "wf_tree t" and us: "units p \<noteq> []" and r: "resolved cs t = (sl, cm, t')" and a: "a = walk t' p cm"
  shows "deepest t p (heldBlocks a)" and "Empty (held a) \<longleftrightarrow> heldBlocks a = 0" and "Empty (pool a) \<longleftrightarrow> anchorBlocks a = 0"
    and "availDeepest a \<longleftrightarrow> 0 < anchorBlocks a \<and> anchorBlocks a = heldBlocks a"
    and "0 < heldBlocks a \<Longrightarrow> (availDeepest a \<longleftrightarrow> (\<exists>c\<in>set cs. holds_url t p (heldBlocks a) (nurl c)))"
proof -
  note R = resolved_spec [OF wf r]
  note W = walk_reports [OF R(1) us, of cm, folded a, unfolded depth_report_def]
  have h: "holders_upto t' p = holders_upto t p" using path_holders_shards [OF R(2)] by auto
  show D: "deepest t p (heldBlocks a)" using W by (simp add: deepest_def h)
  show "Empty (held a) \<longleftrightarrow> heldBlocks a = 0" "Empty (pool a) \<longleftrightarrow> anchorBlocks a = 0"
    using W by (auto simp: none_holding depth_of_def)
  show A: "availDeepest a \<longleftrightarrow> 0 < anchorBlocks a \<and> anchorBlocks a = heldBlocks a" using W by blast
  assume k: "0 < heldBlocks a"
  have le: "heldBlocks a \<le> length (units p)" using D by (simp add: deepest_def depth_of_def)
  have dC: "holders_upto t' p d \<inter> set sl \<noteq> {} \<longleftrightarrow> d \<le> anchorBlocks a" if "0 < d" "d \<le> length (units p)" for d
    using W that R(3) by (auto simp: depth_of_def)
  have dU: "holders_upto t' p d \<noteq> {} \<longleftrightarrow> d \<le> heldBlocks a" if "0 < d" "d \<le> length (units p)" for d
    using W that by (auto simp: depth_of_def)
  have "anchorBlocks a \<le> heldBlocks a"
  proof (cases "anchorBlocks a = 0")
    case False
    have "anchorBlocks a \<le> length (units p)" using W by (auto simp: depth_of_def)
    then show ?thesis using dC [of "anchorBlocks a"] dU [of "anchorBlocks a"] False by auto
  qed simp
  then have "availDeepest a \<longleftrightarrow> holders_upto t' p (heldBlocks a) \<inter> set sl \<noteq> {}" using A dC [OF k le] k by auto
  also have "\<dots> \<longleftrightarrow> (\<exists>c\<in>set cs. holds_url t p (heldBlocks a) (nurl c))"
  proof -
    have "sl ! i \<in> holders_upto t' p (heldBlocks a) \<longleftrightarrow> holds_url t p (heldBlocks a) (nurl (cs ! i))" if "i < length cs" for i
      using holds_url_slots [OF wf R(1,2) k le R(6), of "nurl (cs ! i)"] R(5) [OF that] by (simp add: holds_url_def)
    then show ?thesis using R(4) by (fastforce simp: in_set_conv_nth disjoint_iff)
  qed
  finally show "availDeepest a \<longleftrightarrow> (\<exists>c\<in>set cs. holds_url t p (heldBlocks a) (nurl c))" .
qed

section \<open>The ladder, stage by stage\<close>

lemma set_holding_nodes:
  assumes "wf_tree t" and "units p \<noteq> []" and "resolved cs t = (sl, cm, t')" and "a = walk t' p cm"
  shows "set (holding_nodes (pool a) sl cs) = {c \<in> set cs. 0 < anchorBlocks a \<and> holds_url t p (anchorBlocks a) (nurl c)}"
  unfolding holding_nodes_def set_holding [OF resolved_spec(4) [OF assms(1,3)]]
  using anchors_urls(1) [OF assms] by (auto simp: in_set_conv_nth)

lemma set_not_held:
  assumes "wf_tree t" and "units p \<noteq> []" and "resolved cs t = (sl, cm, t')" and "a = walk t' p cm" and "0 < heldBlocks a"
  shows "set (map snd (filter (\<lambda>(s, c). \<not> Has (held a) s \<and> Q c) (zip sl cs))) =
    {c \<in> set cs. \<not> holds_url t p (heldBlocks a) (nurl c) \<and> Q c}"
  unfolding set_holding [OF resolved_spec(4) [OF assms(1,3)]]
  using anchors_urls(2) [OF assms(1-4)] assms(5) by (auto simp: in_set_conv_nth)

lemma band_loop_under:
  "set (under (band_loop cf us e cs b)) = set (under b) \<union> {c \<in> set cs. holder_causes cf us e c = {}}"
  by (induction cs arbitrary: b) (auto simp: Let_def)

lemma apply_bands_spec:
  assumes "apply_bands cf us e pl0 = (pl, stretch, b)"
  shows "set pl \<subseteq> set pl0" and "set stretch \<subseteq> set pl0" and "pl = [] \<Longrightarrow> pl0 \<noteq> [] \<Longrightarrow> stretch = pl0" and "pl \<noteq> [] \<Longrightarrow> stretch = []"
    and "pl0 = [] \<Longrightarrow> pl = [] \<and> stretch = [] \<and> b = no_bands"
  using assms band_loop_under [of cf us e pl0 no_bands]
  by (auto simp: apply_bands_def Let_def no_bands_def split: if_splits)

definition plain :: "flow_config \<Rightarrow> bool" where
  "plain cf \<longleftrightarrow> SoftNodeConcurrency cf \<le> 0 \<and> TTFTSoft cf \<le> 0 \<and> \<not> RelativeTTFT cf \<and> \<not> RelativeDecode cf \<and> \<not> CostRouting cf"

lemma apply_bands_plain: "plain cf \<Longrightarrow> apply_bands cf us e pl = (pl, [], no_bands)"
  by (auto simp: apply_bands_def plain_def soft_ttft_def)

lemma split_ok_plain: "plain cf \<Longrightarrow> split_ok cf us e no_bands th c \<longleftrightarrow> below th c"
  by (auto simp: split_ok_def soft_ttft_def plain_def no_bands_def)

lemma guard_ref_plain: "guard_ref cf g [] cs = (if g \<le> 0 then NodeConcurrency cf else g)"
  by (simp add: guard_ref_def Let_def)

text \<open>The pool of tier 1: under the strict ladder only holders of the deepest marked prefix.\<close>

lemma set_tier1:
  assumes "wf_tree t" and "units p \<noteq> []" and "resolved cs t = (sl, cm, t')" and "a = walk t' p cm"
  shows "set (tier1_pool cf a sl cs) \<subseteq> set cs"
    and "Ladder cf = LadderStrict \<Longrightarrow>
      set (tier1_pool cf a sl cs) = {c \<in> set cs. 0 < heldBlocks a \<and> holds_url t p (heldBlocks a) (nurl c)}"
proof -
  note H = set_holding_nodes [OF assms] and D = anchors_depth [OF assms]
  show "set (tier1_pool cf a sl cs) \<subseteq> set cs" using H by (auto simp: tier1_pool_def Let_def)
  assume strict: "Ladder cf = LadderStrict"
  show "set (tier1_pool cf a sl cs) = {c \<in> set cs. 0 < heldBlocks a \<and> holds_url t p (heldBlocks a) (nurl c)}"
  proof (cases "availDeepest a")
    case True
    then have e: "0 < anchorBlocks a" "heldBlocks a = anchorBlocks a" using D(4) by auto
    then have "tier1_pool cf a sl cs = holding_nodes (pool a) sl cs" using True D(3) by (simp add: tier1_pool_def Let_def)
    then show ?thesis using H e by simp
  next
    case False
    then have "tier1_pool cf a sl cs = []" using strict by (simp add: tier1_pool_def Let_def)
    moreover have "\<not> holds_url t p (heldBlocks a) (nurl c)" if "c \<in> set cs" "0 < heldBlocks a" for c
      using D(5) [OF that(2)] False that(1) by blast
    ultimately show ?thesis by auto
  qed
qed

text \<open>The reference of the guard does not depend on the order the map is walked in.\<close>

lemma Max_insert_insert: "finite S \<Longrightarrow> Max (insert g (insert r S)) = Max (insert (max g r) S)" for g r :: int
  by (cases "S = {}") (simp_all add: max.assoc)

lemma filter_image_Cons:
  "snd ` {y \<in> set ((u, r) # xs). P (fst y)} = (if P u then insert r (snd ` {y \<in> set xs. P (fst y)}) else snd ` {y \<in> set xs. P (fst y)})"
proof -
  have "{y \<in> set ((u, r) # xs). P (fst y)} = (if P u then insert (u, r) {y \<in> set xs. P (fst y)} else {y \<in> set xs. P (fst y)})"
    by auto
  then show ?thesis by simp
qed

lemma saturated_ref_spec:
  assumes "wf_tree t" and "0 < d" and "d \<le> length (units p)" and "holders h = holders_upto t p d"
    and "saturated_ref h xs (g, t) = (g', t')"
  shows "g' = Max (insert g (snd ` {x \<in> set xs. holds_url t p d (fst x)})) \<and> wf_tree t' \<and> shards t' = shards t \<and>
    (\<forall>v x. slot_of t v = Some x \<longrightarrow> slot_of t' v = Some x)"
  using assms(1,4,5)
proof (induction xs arbitrary: g t)
  case (Cons x xs)
  obtain u r where x: "x = (u, r)" by (cases x)
  let ?S = "\<lambda>t. snd ` {x \<in> set xs. holds_url t p d (fst x)}"
  have fin: "finite (?S t)" by simp
  show ?case
  proof (cases "r > g")
    case False
    then have "saturated_ref h xs (g, t) = (g', t')" using Cons.prems(3) x by simp
    note I = Cons.IH [OF Cons.prems(1,2) this]
    have "Max (insert g (insert r (?S t))) = Max (insert g (?S t))"
      unfolding Max_insert_insert [OF fin] using False by (simp only: max_absorb1 not_less)
    moreover have "snd ` {y \<in> set (x # xs). holds_url t p d (fst y)} = (if holds_url t p d u then insert r (?S t) else ?S t)"
      unfolding x by (rule filter_image_Cons)
    ultimately show ?thesis using I by simp
  next
    case True
    obtain s t1 where s: "slotOrCreate t u = (s, t1)" by fastforce
    note S = slotOrCreate_spec [OF Cons.prems(1) s]
    have h: "holders h = holders_upto t1 p d" using Cons.prems(2) path_holders_shards [OF S(3)] by simp
    have same: "holds_url t1 p d v \<longleftrightarrow> holds_url t p d v" for v
      by (rule holds_url_slots [OF Cons.prems(1) S(1,3) assms(2,3) S(5)])
    have "Has h s \<longleftrightarrow> s \<in> holders h" by (simp add: holders_def)
    then have hs: "Has h s \<longleftrightarrow> holds_url t p d u" using same [of u] S(2) h by (simp add: holds_url_def)
    have r: "saturated_ref h xs (if Has h s then r else g, t1) = (g', t')" using Cons.prems(3) x s True by simp
    note I = Cons.IH [OF S(1) h r, unfolded same]
    have "Max (insert g (insert r (?S t))) = Max (insert r (?S t))"
      unfolding Max_insert_insert [OF fin] using True by (simp only: max_absorb2 less_imp_le)
    moreover have "snd ` {y \<in> set (x # xs). holds_url t p d (fst y)} = (if holds_url t p d u then insert r (?S t) else ?S t)"
      unfolding x by (rule filter_image_Cons)
    ultimately show ?thesis using I S(3,5) hs by auto
  qed
qed simp

definition usable_of :: "ns \<Rightarrow> flow \<Rightarrow> node list \<Rightarrow> node list" where
  "usable_of now fl cands = filter (usable_node now fl (min_inflight cands)) cands"

definition sat_of :: "ns \<Rightarrow> flow \<Rightarrow> node list \<Rightarrow> (url \<times> int) list" where
  "sat_of now fl cands =
     fold (\<lambda>c sat. AList.update (nurl c) (fst (fire now fl (min_inflight cands) c)) sat)
       (filter (\<lambda>c. \<not> usable_node now fl (min_inflight cands) c) cands) []"

lemma sort_out_of:
  "sort_out now fl (min_inflight cands) cands [] [] [] =
     (usable_of now fl cands, sat_of now fl cands, filter (only_concurrency now fl (min_inflight cands)) cands)"
  by (simp add: sort_out_spec usable_of_def sat_of_def)

lemma Select_ladder:
  assumes "usable_of now fl cands \<noteq> []" and "Units rr \<noteq> []" and "\<not> CostRouting (fcfg fl)"
  obtains sl cm t1 a pl stretch b g0 t2 where
    "resolved (usable_of now fl cands) (ftree fl) = (sl, cm, t1)" and "a = walk t1 (req_path sha rr) cm"
    and "apply_bands (fcfg fl) (usable_of now fl cands) (estTokens rr) (tier1_pool (fcfg fl) a sl (usable_of now fl cands)) = (pl, stretch, b)"
    and "saturated_ref (held a) (ord (sat_of now fl cands)) (- 1, t1) = (g0, t2)"
    and "Select sel sha ord now cands rr fl =
      (ladder_tiers sel (fcfg fl) cands (usable_of now fl cands) sl a pl stretch b (guard_ref (fcfg fl) g0 stretch (causes b)) rr, fl\<lparr>ftree := t2\<rparr>)"
proof -
  obtain sl cm t1 where r: "resolved (usable_of now fl cands) (ftree fl) = (sl, cm, t1)" by (metis prod_cases3)
  let ?a = "walk t1 (req_path sha rr) cm"
  obtain pl stretch b where ab: "apply_bands (fcfg fl) (usable_of now fl cands) (estTokens rr)
      (tier1_pool (fcfg fl) ?a sl (usable_of now fl cands)) = (pl, stretch, b)" by (metis prod_cases3)
  obtain g0 t2 where sr: "saturated_ref (held ?a) (ord (sat_of now fl cands)) (- 1, t1) = (g0, t2)" by fastforce
  have "cands \<noteq> []" using assms(1) by (auto simp: usable_of_def)
  then have "Select sel sha ord now cands rr fl =
      (ladder_tiers sel (fcfg fl) cands (usable_of now fl cands) sl ?a pl stretch b (guard_ref (fcfg fl) g0 stretch (causes b)) rr, fl\<lparr>ftree := t2\<rparr>)"
    using assms r ab sr by (simp add: Select_def sort_out_of run_ladder_def)
  then show thesis using that r ab sr by blast
qed

lemma Select_rest:
  assumes "cands \<noteq> []" and "usable_of now fl cands = [] \<or> Units rr = [] \<or> CostRouting (fcfg fl)"
  shows "fst (Select sel sha ord now cands rr fl) =
    (if usable_of now fl cands = [] then
       (case fst (queueTarget sel sha (filter (only_concurrency now fl (min_inflight cands)) cands) rr
           (snd (snd (resolved [] (ftree fl))))) of
          Some b \<Rightarrow> (Rejected (SaturatedError b (NodeConcurrency (fcfg fl))), rr)
        | None \<Rightarrow> (Rejected ErrAllBackendsSaturated, rr))
     else if Units rr = [] then (route sel Load (usable_of now fl cands), rr\<lparr>mark := Some False\<rparr>)
     else (case resolved (usable_of now fl cands) (ftree fl) of
        (sl, _, t1) \<Rightarrow> selectByCost (usable_of now fl cands) sl (req_path sha rr) t1 rr))"
  using assms
  by (cases "queueTarget sel sha (filter (only_concurrency now fl (min_inflight cands)) cands) rr (ftree fl)"; cases "resolved (usable_of now fl cands) (ftree fl)")
    (auto simp: Select_def sort_out_of split: option.splits)

section \<open>The selector as an interface\<close>

text \<open>What the flow asks of the policy it narrows the field for: an answer from the field, whenever there is
  one.\<close>

locale selector =
  fixes sel :: sel
  assumes sel_some: "cs \<noteq> [] \<Longrightarrow> \<exists>c\<in>set cs. sel cs = Some c"
    and sel_none: "sel [] = None"
begin

lemma route_some: "cs \<noteq> [] \<Longrightarrow> \<exists>c\<in>set cs. route sel t cs = Routed t c"
  using sel_some by (fastforce simp: route_def)

lemma route_in: "route sel t cs = Routed t' b \<Longrightarrow> b \<in> set cs \<and> t' = t \<and> sel cs = Some b"
  using sel_some [of cs] sel_none by (cases cs) (auto simp: route_def split: option.splits)

lemma route_not_rejected: "cs \<noteq> [] \<Longrightarrow> route sel t cs \<noteq> Rejected e"
  using route_some [of cs t] by auto

lemma queueTarget_in: "fst (queueTarget sel sha ws rr t) = Some b \<Longrightarrow> b \<in> set ws"
proof -
  have "sel cs = Some b \<Longrightarrow> b \<in> set cs" for cs using sel_some [of cs] sel_none by (cases cs) auto
  moreover have "set (holding_nodes m sl ws) \<subseteq> set ws" for m sl by (auto simp: holding_nodes_def dest: set_zip_rightD)
  ultimately show "fst (queueTarget sel sha ws rr t) = Some b \<Longrightarrow> b \<in> set ws"
    by (auto simp: queueTarget_def Let_def split: if_splits prod.splits)
qed

text \<open>The tiers of the ladder.\<close>

lemma tiers_routed:
  assumes "ladder_tiers sel cf cands us sl a pl stretch b g rr = (Routed t n, rr')" and "us \<noteq> []"
  shows "(t = Cache \<and> n \<in> set pl \<and> sel pl = Some n \<and> rr' = rr\<lparr>mark := Some True\<rparr>) \<or>
    (pl = [] \<and> \<not> Empty (held a) \<and> t = Split \<and> n \<in> set (split_targets cf (estTokens rr) b (threshold cf g) (held a) sl us) \<and>
      rr' = rr\<lparr>mark := Some True\<rparr>) \<or>
    (pl = [] \<and> \<not> Empty (held a) \<and> t = Stretch \<and> n \<in> set stretch \<and> rr' = rr\<lparr>mark := Some True\<rparr>) \<or>
    (pl = [] \<and> \<not> Empty (held a) \<and> t = Overflow \<and> rr' = rr\<lparr>mark := Some False\<rparr> \<and>
      split_targets cf (estTokens rr) b (threshold cf g) (held a) sl us = [] \<and>
      (n \<in> set (transient_targets cf g (held a) sl us) \<or> Ladder cf = LadderServeAnyway \<and> n \<in> set cands)) \<or>
    (pl = [] \<and> Empty (held a) \<and> t = Load \<and> n \<in> set us \<and> rr' = rr\<lparr>mark := Some True\<rparr>)"
proof -
  have "Ladder cf = LadderServeAnyway" if "Ladder cf \<noteq> LadderStrict" using that by (cases "Ladder cf") auto
  then show ?thesis using assms route_in
    by (auto simp: ladder_tiers_def Let_def split: if_splits dest!: route_in)
qed

lemma tiers_rejected:
  assumes "ladder_tiers sel cf cands us sl a pl stretch b g rr = (Rejected e, rr')" and "us \<noteq> []" and "cands \<noteq> []"
  shows "e = ErrSplitGuardBlocked \<and> rr' = rr \<and> pl = [] \<and> \<not> Empty (held a) \<and> stretch = [] \<and> Ladder cf = LadderStrict \<and>
    split_targets cf (estTokens rr) b (threshold cf g) (held a) sl us = [] \<and> transient_targets cf g (held a) sl us = []"
  using assms by (auto simp: ladder_tiers_def Let_def route_not_rejected split: if_splits)

end

interpretation lo: selector "LeastOutstanding draw" for draw
proof unfold_locales
  show "LeastOutstanding draw [] = None" by (simp add: LeastOutstanding_def)
  fix cs :: "node list" assume "cs \<noteq> []"
  then show "\<exists>c\<in>set cs. LeastOutstanding draw cs = Some c"
    using pickBest_optimal [of cs draw False nload] by (auto simp: LeastOutstanding_def optimal_def)
qed

lemma lo_least: "LeastOutstanding draw cs = Some b \<Longrightarrow> c \<in> set cs \<Longrightarrow> nload b \<le> nload c"
  using pickBest_optimal [of cs draw False nload] by (auto simp: LeastOutstanding_def optimal_def split: if_splits)

section \<open>What a decision leaves alone\<close>

definition extends :: "tree \<Rightarrow> tree \<Rightarrow> bool" where
  "extends t t' \<longleftrightarrow> wf_tree t' \<and> shards t' = shards t \<and> (\<forall>v x. slot_of t v = Some x \<longrightarrow> slot_of t' v = Some x)"

lemma extends_refl: "wf_tree t \<Longrightarrow> extends t t" by (simp add: extends_def)

lemma extends_trans: "extends t t1 \<Longrightarrow> extends t1 t2 \<Longrightarrow> extends t t2" by (simp add: extends_def)

lemma extends_resolved: "wf_tree t \<Longrightarrow> resolved cs t = (sl, cm, t') \<Longrightarrow> extends t t'"
  unfolding extends_def using resolved_spec(1,2,6) by blast

lemma extends_saturated_ref: "wf_tree t \<Longrightarrow> saturated_ref h xs (g, t) = (g', t') \<Longrightarrow> extends t t'"
proof (induction xs arbitrary: g t)
  case (Cons x xs)
  obtain u r where x: "x = (u, r)" by (cases x)
  show ?case
  proof (cases "r > g")
    case True
    obtain s t1 where s: "slotOrCreate t u = (s, t1)" by fastforce
    note S = slotOrCreate_spec [OF Cons.prems(1) s]
    have "extends t t1" using S(1,3,5) by (auto simp: extends_def)
    moreover have "extends t1 t'" using Cons.IH [OF S(1)] Cons.prems(2) True by (simp add: x s)
    ultimately show ?thesis by (rule extends_trans)
  qed (use Cons x in simp)
qed (simp add: extends_refl)

lemma extends_queueTarget: "wf_tree t \<Longrightarrow> extends t (snd (queueTarget sel sha ws rr t))"
  using extends_resolved [of t ws] by (auto simp: queueTarget_def Let_def extends_refl split: prod.split)

lemma Select_extends:
  assumes wf: "wf_tree (ftree fl)"
  shows "extends (ftree fl) (ftree (snd (Select sel sha ord now cands rr fl)))"
    and "snd (Select sel sha ord now cands rr fl) = fl\<lparr>ftree := ftree (snd (Select sel sha ord now cands rr fl))\<rparr>"
proof -
  let ?us = "usable_of now fl cands"
  let ?ws = "filter (only_concurrency now fl (min_inflight cands)) cands"
  obtain sl cm t1 where r: "resolved ?us (ftree fl) = (sl, cm, t1)" by (metis prod_cases3)
  note e1 = extends_resolved [OF wf r]
  have wf1: "wf_tree t1" using e1 by (simp add: extends_def)
  obtain qb t2 where q: "queueTarget sel sha ?ws rr t1 = (qb, t2)" by fastforce
  have e2: "extends (ftree fl) t2" using extends_trans [OF e1 extends_queueTarget [OF wf1, of sel sha ?ws rr]] q by simp
  obtain res t3 where l: "run_ladder sel (fcfg fl) cands ?us sl (ord (sat_of now fl cands)) (walk t1 (req_path sha rr) cm) rr t1 = (res, t3)"
    by fastforce
  obtain g0 t4 where sr: "saturated_ref (held (walk t1 (req_path sha rr) cm)) (ord (sat_of now fl cands)) (- 1, t1) = (g0, t4)" by fastforce
  have "t3 = t4" using l sr by (auto simp: run_ladder_def split: prod.splits)
  then have e3: "extends (ftree fl) t3" using extends_trans [OF e1 extends_saturated_ref [OF wf1 sr]] by simp
  have "snd (Select sel sha ord now cands rr fl) \<in> {fl, fl\<lparr>ftree := t1\<rparr>, fl\<lparr>ftree := t2\<rparr>, fl\<lparr>ftree := t3\<rparr>}"
    by (simp add: Select_def sort_out_of r q l split: option.split)
  then show "extends (ftree fl) (ftree (snd (Select sel sha ord now cands rr fl)))"
    "snd (Select sel sha ord now cands rr fl) = fl\<lparr>ftree := ftree (snd (Select sel sha ord now cands rr fl))\<rparr>"
    using e1 e2 e3 extends_refl [OF wf] by auto
qed

lemma extends_holds:
  "wf_tree t \<Longrightarrow> extends t t' \<Longrightarrow> 0 < d \<Longrightarrow> d \<le> length (units p) \<Longrightarrow> holds_url t' p d u = holds_url t p d u"
  using holds_url_slots [of t t' d p u] by (auto simp: extends_def)

lemma deepest_unique: "deepest t p k \<Longrightarrow> deepest t p k' \<Longrightarrow> k = k'"
proof -
  assume a: "deepest t p k" "deepest t p k'"
  then have "d \<le> k \<longleftrightarrow> d \<le> k'" if "0 < d" "d \<le> length (units p)" for d using that by (auto simp: deepest_def depth_of_def)
  then show "k = k'" using a by (metis (no_types, lifting) deepest_def depth_of_def le_antisym le_zero_eq neq0_conv order_refl)
qed

section \<open>Cost routing\<close>

definition cost_le :: "int \<Rightarrow> node \<times> int \<Rightarrow> node \<times> int \<Rightarrow> bool" where
  "cost_le tot0 x y \<longleftrightarrow> node_cost tot0 (snd x) (fst x) < node_cost tot0 (snd y) (fst y) \<or>
     node_cost tot0 (snd x) (fst x) = node_cost tot0 (snd y) (fst y) \<and> ninflight (fst x) \<le> ninflight (fst y)"

lemma cost_le_trans: "cost_le k x y \<Longrightarrow> cost_le k y z \<Longrightarrow> cost_le k x z"
  by (auto simp: cost_le_def)

lemma cost_le_total: "cost_le k x y \<or> cost_le k y x"
  by (auto simp: cost_le_def)

definition cheapest :: "int \<Rightarrow> (node \<times> int) list \<Rightarrow> node \<times> int \<Rightarrow> bool" where
  "cheapest tot0 cs x \<longleftrightarrow> x \<in> set cs \<and> (\<forall>y\<in>set cs. cost_le tot0 x y)"

lemma cheapest_snoc:
  assumes "cheapest k ds x"
  shows "cost_le k y x \<Longrightarrow> cheapest k (ds @ [y]) y" and "cost_le k x y \<Longrightarrow> cheapest k (ds @ [y]) x"
  using assms cost_le_trans [of k y x] cost_le_total [of k y y] by (auto simp: cheapest_def)

lemma cost_loop_spec:
  assumes "cheapest tot0 ds x"
  shows "\<exists>x'. cost_loop tot0 cs (Some x) dp = (Some x', Max (insert dp (snd ` set cs))) \<and> cheapest tot0 (ds @ cs) x'"
  using assms
proof (induction cs arbitrary: ds x dp)
  case (Cons y cs)
  obtain c h where y: "y = (c, h)" by (cases y)
  obtain b hb where x: "x = (b, hb)" by (cases x)
  define w where "w \<longleftrightarrow> node_cost tot0 h c < node_cost tot0 hb b \<or> node_cost tot0 h c = node_cost tot0 hb b \<and> ninflight c < ninflight b"
  have "w \<Longrightarrow> cost_le tot0 y x" "\<not> w \<Longrightarrow> cost_le tot0 x y"
    using cost_le_total [of tot0 x y] by (auto simp: w_def x y cost_le_def)
  then have "cheapest tot0 (ds @ [y]) (if w then y else x)" using cheapest_snoc [OF Cons.prems] by simp
  from Cons.IH [OF this, of "max dp h"] obtain x' where
    I: "cost_loop tot0 cs (Some (if w then y else x)) (max dp h) = (Some x', Max (insert (max dp h) (snd ` set cs)))"
      "cheapest tot0 ((ds @ [y]) @ cs) x'" by blast
  have "cost_loop tot0 (y # cs) (Some x) dp = cost_loop tot0 cs (Some (if w then y else x)) (max dp h)"
    by (simp add: x y w_def Let_def)
  moreover have "Max (insert dp (snd ` set (y # cs))) = Max (insert (max dp h) (snd ` set cs))"
    using Max_insert_insert [of "snd ` set cs" dp h] by (simp add: y)
  ultimately show ?case using I by (metis append.assoc append_Cons append_Nil)
qed simp

lemma cost_loop_from:
  assumes "cs \<noteq> []"
  shows "\<exists>x. cost_loop tot0 cs None 0 = (Some x, Max (insert 0 (snd ` set cs))) \<and> cheapest tot0 cs x"
proof -
  obtain c h cs' where cs: "cs = (c, h) # cs'" using assms by (metis list.exhaust surj_pair)
  have "cheapest tot0 [(c, h)] (c, h)" by (simp add: cheapest_def cost_le_def)
  from cost_loop_spec [OF this, of cs' "max 0 h"] show ?thesis
    using Max_insert_insert [of "snd ` set cs'" 0 h] by (auto simp: cs Let_def)
qed

lemma heldTokens_length: "wf_tree t \<Longrightarrow> units p \<noteq> [] \<Longrightarrow> length (heldTokens t p sl) = length sl"
  using heldTokens_spec by blast

lemma tier1_sub: "set (tier1_pool cf a sl us) \<subseteq> set us"
  by (auto simp: tier1_pool_def Let_def holding_nodes_def dest: set_zip_rightD)

lemma split_sub: "set (split_targets cf e b th h sl us) \<subseteq> set us" "set (transient_targets cf g h sl us) \<subseteq> set us"
  by (auto simp: split_targets_def transient_targets_def dest: set_zip_rightD)

lemma selectByCost_spec:
  assumes "us \<noteq> []" and "length sl = length us" and "wf_tree t" and "units p \<noteq> []"
  shows "\<exists>x. cheapest (\<Sum>u\<leftarrow>units p. uTokens u) (zip us (heldTokens t p sl)) x \<and>
    selectByCost us sl p t rr = (Routed (if snd x < Max (insert 0 (set (heldTokens t p sl))) then CostMove else CostStay) (fst x),
      rr\<lparr>mark := Some True, Prefill := Some (nurl (fst x), (\<Sum>u\<leftarrow>units p. uTokens u) - snd x)\<rparr>)"
proof -
  let ?h = "heldTokens t p sl"
  have len: "length ?h = length us" using heldTokens_length [OF assms(3,4)] assms(2) by simp
  then have "zip us ?h \<noteq> []" using assms(1) by (cases us; cases ?h) auto
  from cost_loop_from [OF this, of "\<Sum>u\<leftarrow>units p. uTokens u"] obtain b hb where
    x: "cost_loop (\<Sum>u\<leftarrow>units p. uTokens u) (zip us ?h) None 0 = (Some (b, hb), Max (insert 0 (snd ` set (zip us ?h))))"
      "cheapest (\<Sum>u\<leftarrow>units p. uTokens u) (zip us ?h) (b, hb)" by auto
  have "snd ` set (zip us ?h) = set ?h" using len by (metis list.set_map map_snd_zip)
  then show ?thesis using x by (intro exI [of _ "(b, hb)"]) (simp add: selectByCost_def)
qed

section \<open>The properties of a decision\<close>

lemma Select_sound_ladder:
  assumes "wf_tree (ftree fl)" and "usable_of now fl cands \<noteq> []" and "Units rr \<noteq> []" and "\<not> CostRouting (fcfg fl)"
    and "fst (Select (LeastOutstanding draw) sha ord now cands rr fl) = (v, rr')"
  shows "(\<exists>t b. v = Routed t b \<and> b \<in> set cands \<and> (Ladder (fcfg fl) = LadderStrict \<longrightarrow> b \<in> set (usable_of now fl cands))) \<or>
    v = Rejected ErrSplitGuardBlocked \<and> Ladder (fcfg fl) = LadderStrict"
proof -
  have sub: "set (usable_of now fl cands) \<subseteq> set cands" by (auto simp: usable_of_def)
  obtain sl cm t1 a pl stretch b g0 t2 where L:
    "apply_bands (fcfg fl) (usable_of now fl cands) (estTokens rr) (tier1_pool (fcfg fl) a sl (usable_of now fl cands)) = (pl, stretch, b)"
    "Select (LeastOutstanding draw) sha ord now cands rr fl = (ladder_tiers (LeastOutstanding draw) (fcfg fl) cands
      (usable_of now fl cands) sl a pl stretch b (guard_ref (fcfg fl) g0 stretch (causes b)) rr, fl\<lparr>ftree := t2\<rparr>)"
    using Select_ladder [OF assms(2-4), of sha ord "LeastOutstanding draw"] by metis
  have T: "ladder_tiers (LeastOutstanding draw) (fcfg fl) cands (usable_of now fl cands) sl a pl stretch b
      (guard_ref (fcfg fl) g0 stretch (causes b)) rr = (v, rr')" using assms(5) L(2) by simp
  have pl: "set pl \<subseteq> set (usable_of now fl cands)" "set stretch \<subseteq> set (usable_of now fl cands)"
    using apply_bands_spec(1,2) [OF L(1)] tier1_sub by blast+
  have ne: "cands \<noteq> []" using assms(2) by (auto simp: usable_of_def)
  show ?thesis
  proof (cases v)
    case (Routed t n)
    have "n \<in> set (usable_of now fl cands) \<or> Ladder (fcfg fl) = LadderServeAnyway \<and> n \<in> set cands"
      using lo.tiers_routed [OF T [unfolded Routed] assms(2)] pl split_sub by blast
    then show ?thesis using Routed sub by auto
  next
    case (Rejected e)
    then show ?thesis using lo.tiers_rejected [OF T [unfolded Rejected] assms(2) ne] by simp
  qed
qed

text \<open>C1. A decision never leaves the field: a routed backend is a candidate, and under the strict ladder one
  that no enabled signal calls saturated; every backend is saturated exactly when the answer says so, the
  backend it suggests waiting for is one that only the concurrency signal refuses; the only other refusal is
  the split guard's. And a decision by itself records nothing: the marks of the tree are untouched.\<close>

theorem Select_sound:
  assumes "wf_tree (ftree fl)" and "cands \<noteq> []" and "fst (Select (LeastOutstanding draw) sha ord now cands rr fl) = (v, rr')"
  shows "(case v of
      Routed t b \<Rightarrow> b \<in> set cands \<and> (\<exists>c\<in>set cands. usable_node now fl (min_inflight cands) c) \<and>
        (Ladder (fcfg fl) = LadderStrict \<longrightarrow> usable_node now fl (min_inflight cands) b)
    | Rejected ErrAllBackendsSaturated \<Rightarrow> \<forall>c\<in>set cands. \<not> usable_node now fl (min_inflight cands) c
    | Rejected (SaturatedError b k) \<Rightarrow> (\<forall>c\<in>set cands. \<not> usable_node now fl (min_inflight cands) c) \<and> b \<in> set cands \<and>
        only_concurrency now fl (min_inflight cands) b \<and> k = NodeConcurrency (fcfg fl)
    | Rejected ErrSplitGuardBlocked \<Rightarrow> Ladder (fcfg fl) = LadderStrict \<and> (\<exists>c\<in>set cands. usable_node now fl (min_inflight cands) c)
    | Rejected ErrNoCandidates \<Rightarrow> False) \<and>
    shards (ftree (snd (Select (LeastOutstanding draw) sha ord now cands rr fl))) = shards (ftree fl)"
proof (rule conjI)
  show "shards (ftree (snd (Select (LeastOutstanding draw) sha ord now cands rr fl))) = shards (ftree fl)"
    using Select_extends(1) [OF assms(1)] by (simp add: extends_def)
  let ?us = "usable_of now fl cands"
  have us: "?us \<noteq> [] \<longleftrightarrow> (\<exists>c\<in>set cands. usable_node now fl (min_inflight cands) c)"
    by (auto simp: usable_of_def filter_empty_conv)
  have mem: "c \<in> set ?us \<longleftrightarrow> c \<in> set cands \<and> usable_node now fl (min_inflight cands) c" for c by (auto simp: usable_of_def)
  consider "?us = []" | "?us \<noteq> []" "Units rr = []" | "?us \<noteq> []" "Units rr \<noteq> []" "CostRouting (fcfg fl)"
    | "?us \<noteq> []" "Units rr \<noteq> []" "\<not> CostRouting (fcfg fl)" by blast
  then show "case v of
      Routed t b \<Rightarrow> b \<in> set cands \<and> (\<exists>c\<in>set cands. usable_node now fl (min_inflight cands) c) \<and>
        (Ladder (fcfg fl) = LadderStrict \<longrightarrow> usable_node now fl (min_inflight cands) b)
    | Rejected ErrAllBackendsSaturated \<Rightarrow> \<forall>c\<in>set cands. \<not> usable_node now fl (min_inflight cands) c
    | Rejected (SaturatedError b k) \<Rightarrow> (\<forall>c\<in>set cands. \<not> usable_node now fl (min_inflight cands) c) \<and> b \<in> set cands \<and>
        only_concurrency now fl (min_inflight cands) b \<and> k = NodeConcurrency (fcfg fl)
    | Rejected ErrSplitGuardBlocked \<Rightarrow> Ladder (fcfg fl) = LadderStrict \<and> (\<exists>c\<in>set cands. usable_node now fl (min_inflight cands) c)
    | Rejected ErrNoCandidates \<Rightarrow> False"
  proof cases
    case 1
    let ?q = "fst (queueTarget (LeastOutstanding draw) sha (filter (only_concurrency now fl (min_inflight cands)) cands) rr (ftree fl))"
    have no: "\<forall>c\<in>set cands. \<not> usable_node now fl (min_inflight cands) c" using us 1 by blast
    have v: "v = (case ?q of Some b \<Rightarrow> Rejected (SaturatedError b (NodeConcurrency (fcfg fl))) | None \<Rightarrow> Rejected ErrAllBackendsSaturated)"
      using Select_rest [of cands now fl rr "LeastOutstanding draw" sha ord, OF assms(2)] 1 assms(3)
      by (cases ?q) simp_all
    show ?thesis
    proof (cases ?q)
      case None
      then show ?thesis using v no by simp
    next
      case (Some b)
      have "b \<in> set cands \<and> only_concurrency now fl (min_inflight cands) b" using lo.queueTarget_in [OF Some] by simp
      then show ?thesis using v no Some by simp
    qed
  next
    case 2
    then have "fst (Select (LeastOutstanding draw) sha ord now cands rr fl) = (route (LeastOutstanding draw) Load ?us, rr\<lparr>mark := Some False\<rparr>)"
      using Select_rest [of cands now fl rr "LeastOutstanding draw" sha ord] assms(2) by simp
    then show ?thesis using lo.route_some [OF 2(1), of draw Load] assms(3) us mem 2(1) by auto
  next
    case 3
    obtain sl cm t1 where r: "resolved ?us (ftree fl) = (sl, cm, t1)" by (metis prod_cases3)
    note R = resolved_spec [OF assms(1) r]
    obtain x where x: "cheapest (\<Sum>u\<leftarrow>Units rr. uTokens u) (zip ?us (heldTokens t1 (req_path sha rr) sl)) x"
      "fst (selectByCost ?us sl (req_path sha rr) t1 rr) =
        Routed (if snd x < Max (insert 0 (set (heldTokens t1 (req_path sha rr) sl))) then CostMove else CostStay) (fst x)"
      using selectByCost_spec [OF 3(1) R(4,1), of "req_path sha rr" rr] 3(2) by (auto simp: req_path_def)
    have "fst x \<in> set ?us" using x(1) by (cases x) (auto simp: cheapest_def dest: set_zip_leftD)
    moreover have "(v, rr') = selectByCost ?us sl (req_path sha rr) t1 rr"
      using Select_rest [of cands now fl rr "LeastOutstanding draw" sha ord, OF assms(2)] 3 assms(3) r by simp
    then have "v = Routed (if snd x < Max (insert 0 (set (heldTokens t1 (req_path sha rr) sl))) then CostMove else CostStay) (fst x)"
      using x(2) by (metis fst_conv)
    ultimately show ?thesis using us mem 3(1) by simp
  next
    case 4
    have ex: "\<exists>c\<in>set cands. usable_node now fl (min_inflight cands) c" using us 4(1) by blast
    from Select_sound_ladder [OF assms(1) 4 assms(3)] show ?thesis
    proof (elim disjE exE conjE)
      fix t b assume "v = Routed t b" "b \<in> set cands" "Ladder (fcfg fl) = LadderStrict \<longrightarrow> b \<in> set ?us"
      then show ?thesis using ex mem by simp
    qed (use ex in simp)
  qed
qed

lemma set_apply_bands:
  "apply_bands cf us e pl0 = (pl, stretch, b) \<Longrightarrow> set pl = {c \<in> set pl0. holder_causes cf us e c = {}} \<or> pl = [] \<and> pl0 = []"
  using band_loop_under [of cf us e pl0 no_bands]
  by (auto simp: apply_bands_def Let_def no_bands_def holder_causes_def split: if_splits)

lemma holder_causes_plain: "plain cf \<Longrightarrow> holder_causes cf us e c = {}"
  by (simp add: holder_causes_def plain_def soft_ttft_def)

text \<open>With a usable holder of the deepest prefix the pool of tier 1 is the holders of it, under either ladder.\<close>

lemma set_tier1_deepest:
  assumes "wf_tree t" and "units p \<noteq> []" and "resolved cs t = (sl, cm, t')" and "a = walk t' p cm"
    and "0 < heldBlocks a" and "\<exists>c\<in>set cs. holds_url t p (heldBlocks a) (nurl c)"
  shows "set (tier1_pool cf a sl cs) = {c \<in> set cs. holds_url t p (heldBlocks a) (nurl c)}"
proof -
  note D = anchors_depth [OF assms(1-4)]
  have av: "availDeepest a" using D(5) [OF assms(5)] assms(6) by blast
  then have e: "0 < anchorBlocks a" "anchorBlocks a = heldBlocks a" using D(4) by auto
  then have "tier1_pool cf a sl cs = holding_nodes (pool a) sl cs" using av D(3) by (simp add: tier1_pool_def Let_def)
  then show ?thesis using set_holding_nodes [OF assms(1-4)] e assms(5) by auto
qed

text \<open>The usable holders of the first \<open>d\<close> blocks that no soft band passes over.\<close>

definition preferred :: "ns \<Rightarrow> flow \<Rightarrow> rpath \<Rightarrow> nat \<Rightarrow> int \<Rightarrow> node list \<Rightarrow> node set" where
  "preferred now fl p d est cands = {c \<in> set (usable_of now fl cands). holds_url (ftree fl) p d (nurl c) \<and>
     holder_causes (fcfg fl) (usable_of now fl cands) est c = {}}"

lemma Select_preferred:
  assumes "wf_tree (ftree fl)" and "\<not> CostRouting (fcfg fl)" and "Units rr \<noteq> []"
    and "deepest (ftree fl) (req_path sha rr) d" and "0 < d"
    and "preferred now fl (req_path sha rr) d (estTokens rr) cands \<noteq> {}"
  shows "\<exists>b\<in>preferred now fl (req_path sha rr) d (estTokens rr) cands.
    (\<forall>x\<in>preferred now fl (req_path sha rr) d (estTokens rr) cands. nload b \<le> nload x) \<and>
    fst (Select (LeastOutstanding draw) sha ord now cands rr fl) = (Routed Cache b, rr\<lparr>mark := Some True\<rparr>)"
proof -
  let ?us = "usable_of now fl cands" let ?P = "preferred now fl (req_path sha rr) d (estTokens rr) cands"
  have us: "?us \<noteq> []" using assms(6) by (auto simp: preferred_def)
  have p: "units (req_path sha rr) \<noteq> []" using assms(3) by (simp add: req_path_def)
  obtain sl cm t1 a pl stretch b g0 t2 where L: "resolved ?us (ftree fl) = (sl, cm, t1)" "a = walk t1 (req_path sha rr) cm"
    "apply_bands (fcfg fl) ?us (estTokens rr) (tier1_pool (fcfg fl) a sl ?us) = (pl, stretch, b)"
    "Select (LeastOutstanding draw) sha ord now cands rr fl = (ladder_tiers (LeastOutstanding draw) (fcfg fl) cands
      ?us sl a pl stretch b (guard_ref (fcfg fl) g0 stretch (causes b)) rr, fl\<lparr>ftree := t2\<rparr>)"
    using Select_ladder [OF us assms(3,2), of sha ord "LeastOutstanding draw"] by metis
  have d: "heldBlocks a = d" using deepest_unique [OF anchors_depth(1) [OF assms(1) p L(1,2)] assms(4)] .
  have ex: "\<exists>c\<in>set ?us. holds_url (ftree fl) (req_path sha rr) (heldBlocks a) (nurl c)" using assms(6) d by (auto simp: preferred_def)
  note T = set_tier1_deepest [OF assms(1) p L(1,2) _ ex, of "fcfg fl", unfolded d, OF assms(5)]
  have "tier1_pool (fcfg fl) a sl ?us \<noteq> []" using T ex d by auto
  then have set_pl: "set pl = ?P" using set_apply_bands [OF L(3)] T by (auto simp: preferred_def)
  then have ne: "pl \<noteq> []" using assms(6) by auto
  obtain n where n: "n \<in> set pl" "route (LeastOutstanding draw) Cache pl = Routed Cache n" using lo.route_some [OF ne] by blast
  have "LeastOutstanding draw pl = Some n" using lo.route_in [OF n(2)] by simp
  then have "\<forall>x\<in>set pl. nload n \<le> nload x" using lo_least by blast
  moreover have "fst (Select (LeastOutstanding draw) sha ord now cands rr fl) = (Routed Cache n, rr\<lparr>mark := Some True\<rparr>)"
    using L(4) ne n(2) by (simp add: ladder_tiers_def Let_def)
  ultimately show ?thesis using n(1) set_pl by auto
qed

lemma Select_cache:
  assumes "wf_tree (ftree fl)" and "plain (fcfg fl)" and "Units rr \<noteq> []"
    and "deepest (ftree fl) (req_path sha rr) d" and "0 < d" and "c \<in> set (usable_of now fl cands)"
    and "holds_url (ftree fl) (req_path sha rr) d (nurl c)"
  shows "\<exists>b\<in>set (usable_of now fl cands). holds_url (ftree fl) (req_path sha rr) d (nurl b) \<and>
    (\<forall>x\<in>set (usable_of now fl cands). holds_url (ftree fl) (req_path sha rr) d (nurl x) \<longrightarrow> nload b \<le> nload x) \<and>
    fst (Select (LeastOutstanding draw) sha ord now cands rr fl) = (Routed Cache b, rr\<lparr>mark := Some True\<rparr>)"
proof -
  have P: "preferred now fl (req_path sha rr) d (estTokens rr) cands =
      {c \<in> set (usable_of now fl cands). holds_url (ftree fl) (req_path sha rr) d (nurl c)}"
    by (simp add: preferred_def holder_causes_plain [OF assms(2)])
  have cost: "\<not> CostRouting (fcfg fl)" using assms(2) by (simp add: plain_def)
  have "preferred now fl (req_path sha rr) d (estTokens rr) cands \<noteq> {}" using assms(6,7) unfolding P by blast
  from Select_preferred [OF assms(1) cost assms(3-5) this, of draw ord] show ?thesis unfolding P by blast
qed

text \<open>C2. Prefix affinity, when cost routing is off, under either ladder and whatever soft bands are configured: let
  the deepest prefix of the request that anyone holds be held by a usable backend that no soft band (soft
  concurrency, soft TTFT, relative TTFT, relative decode load) passes over. Then the request goes to a least-loaded
  one of those backends, as a cache hit that will be recorded. A backend holding only a shorter prefix, or passed
  over by a band, never gets it.\<close>

theorem Select_cache_hit:
  assumes "wf_tree (ftree fl)" and "\<not> CostRouting (fcfg fl)" and "Units rr \<noteq> []"
    and "deepest (ftree fl) (req_path sha rr) d" and "0 < d"
    and "preferred now fl (req_path sha rr) d (estTokens rr) cands \<noteq> {}"
  shows "\<exists>b\<in>preferred now fl (req_path sha rr) d (estTokens rr) cands.
    (\<forall>x\<in>preferred now fl (req_path sha rr) d (estTokens rr) cands. nload b \<le> nload x) \<and>
    fst (Select (LeastOutstanding draw) sha ord now cands rr fl) = (Routed Cache b, rr\<lparr>mark := Some True\<rparr>)"
  by (rule Select_preferred [OF assms])

lemma fold_update_new:
  "distinct (map f cs) \<Longrightarrow> f ` set cs \<inter> fst ` set al = {} \<Longrightarrow>
   fold (\<lambda>c al. AList.update (f c) (g c) al) cs al = al @ map (\<lambda>c. (f c, g c)) cs"
proof (induction cs arbitrary: al)
  case (Cons c cs)
  have "AList.update (f c) (g c) al = al @ [(f c, g c)]" using Cons.prems(2) by (intro update_append_new) auto
  moreover have "f ` set cs \<inter> fst ` set (al @ [(f c, g c)]) = {}" using Cons.prems by auto
  ultimately show ?case using Cons.IH [of "al @ [(f c, g c)]"] Cons.prems(1) by simp
qed simp

text \<open>What the guard protects: the highest reference among the saturated backends that hold the deepest
  prefix, or else the configured limit; 0 or less when there is nothing to measure against.\<close>

definition relieved :: "ns \<Rightarrow> flow \<Rightarrow> rpath \<Rightarrow> nat \<Rightarrow> node list \<Rightarrow> int" where
  "relieved now fl p d cands =
     (let m = Max (insert (- 1) ((\<lambda>c. fst (fire now fl (min_inflight cands) c)) `
            {c \<in> set cands. \<not> usable_node now fl (min_inflight cands) c \<and> holds_url (ftree fl) p d (nurl c)}))
      in if m \<le> 0 then NodeConcurrency (fcfg fl) else m)"

lemma guard_relieved:
  assumes "wf_tree (ftree fl)" and "extends (ftree fl) t1" and "0 < d" and "d \<le> length (units p)" and "holders h = holders_upto t1 p d"
    and "saturated_ref h (ord (sat_of now fl cands)) (- 1, t1) = (g0, t2)" and "distinct (map nurl cands)"
    and "\<And>xs. set (ord xs) = set xs"
  shows "guard_ref (fcfg fl) g0 [] cs = relieved now fl p d cands"
proof -
  let ?bad = "filter (\<lambda>c. \<not> usable_node now fl (min_inflight cands) c) cands"
  let ?r = "\<lambda>c. fst (fire now fl (min_inflight cands) c)"
  have wf1: "wf_tree t1" using assms(2) by (simp add: extends_def)
  have "distinct (map nurl ?bad)" using assms(7) by (rule distinct_map_filter)
  then have sat: "set (sat_of now fl cands) = (\<lambda>c. (nurl c, ?r c)) ` set ?bad"
    unfolding sat_of_def by (subst fold_update_new) auto
  have "g0 = Max (insert (- 1) (snd ` {x \<in> set (sat_of now fl cands). holds_url t1 p d (fst x)}))"
    using saturated_ref_spec [OF wf1 assms(3,4,5,6)] assms(8) by simp
  also have "snd ` {x \<in> set (sat_of now fl cands). holds_url t1 p d (fst x)} =
      ?r ` {c \<in> set cands. \<not> usable_node now fl (min_inflight cands) c \<and> holds_url (ftree fl) p d (nurl c)}"
    unfolding sat extends_holds [OF assms(1,2,3,4)] by force
  finally show ?thesis by (simp add: guard_ref_plain relieved_def Let_def)
qed

text \<open>No usable backend is left in tier 1: none holds the deepest prefix and, where shallower holders would do, none
  holds any.\<close>

definition no_holder :: "ns \<Rightarrow> flow \<Rightarrow> rpath \<Rightarrow> nat \<Rightarrow> node list \<Rightarrow> bool" where
  "no_holder now fl p d cands \<longleftrightarrow> (\<forall>c\<in>set (usable_of now fl cands).
     \<not> holds_url (ftree fl) p d (nurl c) \<and> (Ladder (fcfg fl) \<noteq> LadderStrict \<longrightarrow> (\<forall>k>0. \<not> holds_url (ftree fl) p k (nurl c))))"

lemma tier1_none:
  assumes "wf_tree (ftree fl)" and "units p \<noteq> []" and "resolved (usable_of now fl cands) (ftree fl) = (sl, cm, t')" and "a = walk t' p cm"
    and "0 < heldBlocks a" and "no_holder now fl p (heldBlocks a) cands"
  shows "tier1_pool (fcfg fl) a sl (usable_of now fl cands) = []"
proof (cases "Ladder (fcfg fl) = LadderStrict")
  case True
  then have "set (tier1_pool (fcfg fl) a sl (usable_of now fl cands)) = {}"
    using set_tier1(2) [OF assms(1-4) True] assms(6) by (auto simp: no_holder_def)
  then show ?thesis by simp
next
  case False
  then have "set (holding_nodes (pool a) sl (usable_of now fl cands)) = {}"
    using set_holding_nodes [OF assms(1-4)] assms(6) by (auto simp: no_holder_def)
  then show ?thesis by (simp add: tier1_pool_def Let_def)
qed

lemma split_ok_no_bands: "split_ok cf us e no_bands th c \<longleftrightarrow> \<not> (soft_ttft cf us \<and> np90 c > TTFTSoft cf) \<and> below th c"
  by (auto simp: split_ok_def no_bands_def)

text \<open>C3. The split guard, exactly, when cost routing is off, under either ladder and whatever soft bands are
  configured: let the deepest held prefix have no usable holder (and, under the serve-anyway ladder, which would fall
  back on them, no shorter prefix either). A copy is made on a least-loaded usable backend that is within an active
  soft TTFT and carries less than the relieved load times one minus the guard (any, if there is no load to relieve),
  and will be recorded; failing that, with a transient threshold, a usable backend under that looser bar serves it
  unrecorded; failing that the strict ladder refuses it and the other serves it unrecorded on a least-loaded candidate,
  usable or not. The order in which the runtime walks the saturated map has no influence.\<close>

theorem Select_split_guard:
  assumes "wf_tree (ftree fl)" and "\<not> CostRouting (fcfg fl)" and "Units rr \<noteq> []"
    and "deepest (ftree fl) (req_path sha rr) d" and "0 < d" and "us = usable_of now fl cands" and "us \<noteq> []"
    and "no_holder now fl (req_path sha rr) d cands"
    and "distinct (map nurl cands)" and "\<And>xs. set (ord xs) = set xs" and "g = relieved now fl (req_path sha rr) d cands"
    and "roomy = {c \<in> set us. \<not> (soft_ttft (fcfg fl) us \<and> np90 c > TTFTSoft (fcfg fl)) \<and>
      (0 < g \<longrightarrow> f64 (ninflight c) < fmul (f64 g) (fsub 1 (SplitGuard (fcfg fl))))}"
    and "spare = {c \<in> set us. 0 < TransientFallback (fcfg fl) \<and> 0 < g \<and>
      f64 (ninflight c) < fmul (f64 g) (fsub 1 (TransientFallback (fcfg fl)))}"
    and "res = fst (Select (LeastOutstanding draw) sha ord now cands rr fl)"
  shows "if roomy \<noteq> {} then \<exists>b\<in>roomy. (\<forall>x\<in>roomy. nload b \<le> nload x) \<and> res = (Routed Split b, rr\<lparr>mark := Some True\<rparr>)
    else if spare \<noteq> {} then \<exists>b\<in>spare. (\<forall>x\<in>spare. nload b \<le> nload x) \<and> res = (Routed Overflow b, rr\<lparr>mark := Some False\<rparr>)
    else if Ladder (fcfg fl) = LadderStrict then res = (Rejected ErrSplitGuardBlocked, rr)
    else \<exists>b\<in>set cands. (\<forall>x\<in>set cands. nload b \<le> nload x) \<and> res = (Routed Overflow b, rr\<lparr>mark := Some False\<rparr>)"
proof -
  let ?us = "usable_of now fl cands" let ?p = "req_path sha rr"
  note us = assms(6)
  have usne: "?us \<noteq> []" using assms(6,7) by simp
  have cne: "cands \<noteq> []" using usne by (auto simp: usable_of_def)
  have p: "units ?p \<noteq> []" using assms(3) by (simp add: req_path_def)
  have dn: "d \<le> length (units ?p)" using assms(4) by (simp add: deepest_def depth_of_def)
  obtain sl cm t1 a pl stretch b g0 t2 where L: "resolved ?us (ftree fl) = (sl, cm, t1)" "a = walk t1 ?p cm"
    "apply_bands (fcfg fl) ?us (estTokens rr) (tier1_pool (fcfg fl) a sl ?us) = (pl, stretch, b)"
    "saturated_ref (held a) (ord (sat_of now fl cands)) (- 1, t1) = (g0, t2)"
    "Select (LeastOutstanding draw) sha ord now cands rr fl = (ladder_tiers (LeastOutstanding draw) (fcfg fl) cands
      ?us sl a pl stretch b (guard_ref (fcfg fl) g0 stretch (causes b)) rr, fl\<lparr>ftree := t2\<rparr>)"
    using Select_ladder [OF usne assms(3,2), of sha ord "LeastOutstanding draw"] by metis
  note D = anchors_depth [OF assms(1) p L(1,2)]
  have d: "heldBlocks a = d" by (rule deepest_unique [OF D(1) assms(4)])
  have "tier1_pool (fcfg fl) a sl ?us = []" using tier1_none [OF assms(1) p L(1,2)] assms(5,8) d by simp
  then have bands: "pl = []" "stretch = []" "b = no_bands" using apply_bands_spec(5) [OF L(3)] by simp_all
  have W: "holders (held a) = holders_upto t1 ?p d"
    using walk_reports [OF resolved_spec(1) [OF assms(1) L(1)] p, of cm, folded L(2)] d assms(5) by (simp add: depth_report_def)
  have g: "guard_ref (fcfg fl) g0 stretch (causes b) = g"
    unfolding bands(2) assms(11)
    by (rule guard_relieved [OF assms(1) extends_resolved [OF assms(1) L(1)] assms(5) dn W L(4) assms(9,10)])
  have held: "\<not> Empty (held a)" using D(2) d assms(5) by simp
  have nh: "c \<in> set ?us \<Longrightarrow> \<not> holds_url (ftree fl) ?p d (nurl c)" for c using assms(8) by (simp add: no_holder_def)
  note H = set_not_held [OF assms(1) p L(1,2), unfolded d, OF assms(5)]
  have S: "set (split_targets (fcfg fl) (estTokens rr) b (threshold (fcfg fl) g) (held a) sl ?us) = roomy"
    unfolding split_targets_def H assms(12) us bands(3) split_ok_no_bands using nh by (auto simp: below_def threshold_def)
  have T: "set (transient_targets (fcfg fl) g (held a) sl ?us) = spare"
    unfolding transient_targets_def assms(13) us using H nh by auto
  have least: "\<exists>b\<in>set cs. (\<forall>x\<in>set cs. nload b \<le> nload x) \<and> route (LeastOutstanding draw) t cs = Routed t b" if ne: "cs \<noteq> []" for t cs
    using lo.route_some [OF ne, of draw t] lo.route_in lo_least by metis
  have "res = ladder_tiers (LeastOutstanding draw) (fcfg fl) cands ?us sl a [] [] b g rr"
    using L(5) g by (simp add: assms(14) bands(1,2))
  then show ?thesis using S T held least [OF cne, of Overflow]
      least [of "split_targets (fcfg fl) (estTokens rr) b (threshold (fcfg fl) g) (held a) sl ?us" Split]
      least [of "transient_targets (fcfg fl) g (held a) sl ?us" Overflow]
    by (auto simp: ladder_tiers_def Let_def)
qed

text \<open>A new prompt: when nobody holds even its first block, the strict flow gives it to a least-loaded
  usable backend and will record it; a request without a routable prefix is placed the same way but never
  recorded.\<close>

theorem Select_new_prompt:
  assumes "wf_tree (ftree fl)" and "plain (fcfg fl)" and "usable_of now fl cands \<noteq> []"
    and "Units rr = [] \<or> deepest (ftree fl) (req_path sha rr) 0"
  shows "\<exists>b\<in>set (usable_of now fl cands). (\<forall>x\<in>set (usable_of now fl cands). nload b \<le> nload x) \<and>
    fst (Select (LeastOutstanding draw) sha ord now cands rr fl) = (Routed Load b, rr\<lparr>mark := Some (Units rr \<noteq> [])\<rparr>)"
proof -
  let ?us = "usable_of now fl cands" let ?p = "req_path sha rr"
  obtain n where n: "n \<in> set ?us" "route (LeastOutstanding draw) Load ?us = Routed Load n" using lo.route_some [OF assms(3)] by blast
  have least: "\<forall>x\<in>set ?us. nload n \<le> nload x" using lo.route_in [OF n(2)] lo_least by blast
  have "fst (Select (LeastOutstanding draw) sha ord now cands rr fl) = (Routed Load n, rr\<lparr>mark := Some (Units rr \<noteq> [])\<rparr>)"
  proof (cases "Units rr = []")
    case True
    have "cands \<noteq> []" using assms(3) by (auto simp: usable_of_def)
    from Select_rest [OF this, of now fl rr "LeastOutstanding draw" sha ord] show ?thesis using True assms(3) n(2) by simp
  next
    case False
    then have p: "units ?p \<noteq> []" by (simp add: req_path_def)
    have cost: "\<not> CostRouting (fcfg fl)" using assms(2) by (simp add: plain_def)
    obtain sl cm t1 a pl stretch b g0 t2 where L: "resolved ?us (ftree fl) = (sl, cm, t1)" "a = walk t1 ?p cm"
      "apply_bands (fcfg fl) ?us (estTokens rr) (tier1_pool (fcfg fl) a sl ?us) = (pl, stretch, b)"
      "Select (LeastOutstanding draw) sha ord now cands rr fl = (ladder_tiers (LeastOutstanding draw) (fcfg fl) cands
        ?us sl a pl stretch b (guard_ref (fcfg fl) g0 stretch (causes b)) rr, fl\<lparr>ftree := t2\<rparr>)"
      using Select_ladder [OF assms(3) False cost, of sha ord "LeastOutstanding draw"] by metis
    note D = anchors_depth [OF assms(1) p L(1,2)]
    have d: "heldBlocks a = 0" using deepest_unique [OF D(1)] assms(4) False by simp
    have "deepest (ftree fl) ?p 0" using D(1) d by simp
    then have none: "\<not> holds_url (ftree fl) ?p k u" if "0 < k" "k \<le> length (units ?p)" for k u
      using that by (auto simp: deepest_def depth_of_def holds_url_def)
    have "anchorBlocks a \<le> length (units ?p)"
      using walk_reports [OF resolved_spec(1) [OF assms(1) L(1)] p, of cm, folded L(2)] by (simp add: depth_report_def depth_of_def)
    then have "holding_nodes (pool a) sl ?us = []"
      using set_holding_nodes [OF assms(1) p L(1,2)] none [of "anchorBlocks a"] by (cases "0 < anchorBlocks a") auto
    then have "pl = []" using L(3) apply_bands_plain [OF assms(2)] by (simp add: tier1_pool_def Let_def split: if_splits)
    then show ?thesis using L(4) D(2) d n(2) False by (simp add: ladder_tiers_def Let_def)
  qed
  then show ?thesis using n(1) least by blast
qed

section \<open>Commit\<close>

lemma Commit_marks:
  assumes "wf_tree (ftree fl)" and "Units rr \<noteq> []" and "mark rr \<noteq> Some False" and "fl' = Commit sha now u rr fl"
  shows "wf_tree (ftree fl')" and "hot fl' = hot fl" and "signals fl' = signals fl" and "fcfg fl' = fcfg fl" and "members fl' = members fl"
    and "holds_url (ftree fl') (req_path sha rr) (length (Units rr)) u"
    and "units q \<noteq> [] \<Longrightarrow> path_holders (ftree fl') q = path_holders (ftree fl) q \<union>
      (if path_prefix q (req_path sha rr) then {the (slot_of (ftree fl') u)} else {})"
    and "slot_of (ftree fl) v = Some x \<Longrightarrow> slot_of (ftree fl') v = Some x"
proof -
  obtain s t where s: "slotOrCreate (ftree fl) u = (s, t)" by fastforce
  note S = slotOrCreate_spec [OF assms(1) s]
  obtain hit t' where c: "commit now t (req_path sha rr) s = (hit, t')" by fastforce
  have p: "units (req_path sha rr) \<noteq> []" using assms(2) by (simp add: req_path_def)
  have fl': "fl' = fl\<lparr>ftree := t'\<rparr>" using assms(2-4) s c by (simp add: Commit_def)
  note W = commit_wf [OF S(1) p S(4) c]
  have H: "path_holders t' q = path_holders (ftree fl) q \<union> (if path_prefix q (req_path sha rr) then {s} else {})" if "units q \<noteq> []" for q
    using commit_holders [OF S(1) p S(4) c that] path_holders_shards [OF S(3), of q] by simp
  have sl: "slot_of t' v = slot_of t v" for v using W(2) by (simp add: slot_of_def)
  show "wf_tree (ftree fl')" "hot fl' = hot fl" "signals fl' = signals fl" "fcfg fl' = fcfg fl" "members fl' = members fl"
    using W(1) by (simp_all add: fl')
  show "units q \<noteq> [] \<Longrightarrow> path_holders (ftree fl') q = path_holders (ftree fl) q \<union>
      (if path_prefix q (req_path sha rr) then {the (slot_of (ftree fl') u)} else {})"
    using H sl S(2) by (simp add: fl')
  show "slot_of (ftree fl) v = Some x \<Longrightarrow> slot_of (ftree fl') v = Some x" using S(5) sl by (simp add: fl')
  have "path_prefix (req_path sha rr) (req_path sha rr)" by (simp add: path_prefix_def)
  then show "holds_url (ftree fl') (req_path sha rr) (length (Units rr)) u"
    using H [OF p] sl S(2) by (simp add: holds_url_def fl' req_path_def)
qed

text \<open>A commit is the only way a backend comes to hold a prefix, and it is honest: an unmarked decision or a
  request without units changes nothing; otherwise the backend that served holds the request and each of its
  prefixes, and for every path nobody else's holding changes.\<close>

theorem Commit_records:
  assumes "wf_tree (ftree fl)" and "fl' = Commit sha now u rr fl"
  shows "(Units rr = [] \<or> mark rr = Some False \<longrightarrow> fl' = fl) \<and>
    (Units rr \<noteq> [] \<and> mark rr \<noteq> Some False \<longrightarrow>
      wf_tree (ftree fl') \<and> holds_url (ftree fl') (req_path sha rr) (length (Units rr)) u \<and>
      (\<forall>q. units q \<noteq> [] \<longrightarrow> path_holders (ftree fl') q = path_holders (ftree fl) q \<union>
         (if path_prefix q (req_path sha rr) then {the (slot_of (ftree fl') u)} else {})) \<and>
      (\<forall>v. v \<noteq> u \<longrightarrow> holds_url (ftree fl') (req_path sha rr) (length (Units rr)) v =
         holds_url (ftree fl) (req_path sha rr) (length (Units rr)) v))"
proof (cases "Units rr = [] \<or> mark rr = Some False")
  case True
  then show ?thesis using assms(2) by (auto simp: Commit_def)
next
  case False
  then have C: "Units rr \<noteq> []" "mark rr \<noteq> Some False" by auto
  note M = Commit_marks [OF assms(1) C assms(2)]
  let ?p = "req_path sha rr" let ?n = "length (Units rr)"
  have n: "units ?p = Units rr" "units ?p \<noteq> []" using C(1) by (simp_all add: req_path_def)
  have self: "holders_upto t ?p ?n = path_holders t ?p" for t by (simp add: req_path_def)
  obtain s where s: "slot_of (ftree fl') u = Some s" using M(6) by (auto simp: holds_url_def)
  have "holds_url (ftree fl') ?p ?n v = holds_url (ftree fl) ?p ?n v" if v: "v \<noteq> u" for v
  proof -
    have h: "holders_upto (ftree fl') ?p ?n \<subseteq> insert s (holders_upto (ftree fl) ?p ?n)"
      "holders_upto (ftree fl) ?p ?n \<subseteq> holders_upto (ftree fl') ?p ?n"
      unfolding self using M(7) [of ?p] n s by (auto split: if_splits)
    have inj: "slot_of (ftree fl') v \<noteq> Some s"
    proof
      assume "slot_of (ftree fl') v = Some s"
      then have "(v, s) \<in> set (slots (ftree fl'))" "(u, s) \<in> set (slots (ftree fl'))" using s by (simp_all add: slot_of_def map_of_SomeD)
      moreover have "inj_on snd (set (slots (ftree fl')))" using M(1) by (simp add: wf_tree_def wf_slots_def distinct_map)
      ultimately have "(v, s) = (u, s)" by (metis inj_onD snd_conv)
      then show False using v by simp
    qed
    have old: "slot_of (ftree fl) v = Some x" if "slot_of (ftree fl') v = Some x" "x \<in> holders_upto (ftree fl) ?p ?n" for x
    proof -
      have "x \<in> registered (ftree fl)" using that(2) holders_upto_registered [OF assms(1), of ?n ?p] n C(1) by auto
      then obtain w where w: "slot_of (ftree fl) w = Some x"
        using assms(1) by (auto simp: slot_of_def wf_tree_def wf_slots_def map_of_eq_Some_iff image_iff)
      then have "(w, x) \<in> set (slots (ftree fl'))" "(v, x) \<in> set (slots (ftree fl'))"
        using M(8) that(1) by (simp_all add: slot_of_def map_of_SomeD)
      moreover have "inj_on snd (set (slots (ftree fl')))" using M(1) by (simp add: wf_tree_def wf_slots_def distinct_map)
      ultimately have "(w, x) = (v, x)" by (metis inj_onD snd_conv)
      then show ?thesis using w by simp
    qed
    show ?thesis unfolding holds_url_def using h inj old M(8) by blast
  qed
  then show ?thesis using C M(1,6,7) by auto
qed

lemma Commit_deepest:
  assumes "wf_tree (ftree fl)" and "Units rr \<noteq> []" and "mark rr \<noteq> Some False" and "fl' = Commit sha now u rr fl"
  shows "deepest (ftree fl') (req_path sha rr) (length (Units rr))"
proof -
  note M = Commit_marks [OF assms]
  have "holders_upto (ftree fl') (req_path sha rr) d \<noteq> {}" if "0 < d" "d \<le> length (Units rr)" for d
  proof -
    let ?q = "(req_path sha rr)\<lparr>units := take d (Units rr)\<rparr>"
    have "units ?q \<noteq> []" using that assms(2) by simp
    moreover have "path_prefix ?q (req_path sha rr)" by (simp add: path_prefix_def req_path_def take_map [symmetric] take_is_prefix)
    ultimately show ?thesis using M(7) [of ?q] by (simp add: req_path_def)
  qed
  then show ?thesis by (simp add: deepest_def depth_of_def req_path_def)
qed

text \<open>Commits make the flow converge: once a backend has served a request and been recorded, the next request
  with the same prompt and model is a cache hit as long as that backend is usable, on a backend that holds
  the whole prompt and is no more loaded.\<close>

theorem Commit_then_Select:
  assumes "wf_tree (ftree fl)" and "plain (fcfg fl)" and "Ladder (fcfg fl) = LadderStrict" and "Units rr \<noteq> []"
    and "mark rr \<noteq> Some False" and "fl' = Commit sha t0 (nurl c) rr fl" and "c \<in> set (usable_of now fl' cands)"
    and "Units rr2 = Units rr" and "Model rr2 = Model rr"
  shows "\<exists>b\<in>set (usable_of now fl' cands). holds_url (ftree fl') (req_path sha rr) (length (Units rr)) (nurl b) \<and>
    nload b \<le> nload c \<and> fst (Select (LeastOutstanding draw) sha ord now cands rr2 fl') = (Routed Cache b, rr2\<lparr>mark := Some True\<rparr>)"
proof -
  note M = Commit_marks [OF assms(1,4,5,6)]
  have q: "req_path sha rr2 = req_path sha rr" using assms(8,9) by (simp add: req_path_def)
  have n: "0 < length (Units rr)" "Units rr2 \<noteq> []" using assms(4,8) by auto
  have cf: "plain (fcfg fl')" "Ladder (fcfg fl') = LadderStrict" using M(4) assms(2,3) by simp_all
  from Select_cache [OF M(1) cf(1) n(2) Commit_deepest [OF assms(1,4,5,6), folded q] n(1) assms(7) M(6) [folded q]] show ?thesis
    using assms(7) M(6) unfolding q by blast
qed

text \<open>C4. Cost routing is optimal: among the usable backends it picks one whose missing prompt tokens plus prefill
  and active load are least, ties by in-flight, and charges exactly the missing tokens; a backend's held tokens
  are those of the longest prefix it holds.\<close>

theorem Cost_routing_optimal:
  assumes "wf_tree (ftree fl)" and "CostRouting (fcfg fl)" and "Units rr \<noteq> []" and "us = usable_of now fl cands" and "us \<noteq> []"
    and "resolved us (ftree fl) = (sl, cm, t1)" and "h = heldTokens t1 (req_path sha rr) sl" and "k = (\<Sum>u\<leftarrow>Units rr. uTokens u)"
  shows "length h = length us \<and> (\<exists>i<length us. \<exists>tr. (\<forall>j<length us. cost_le k (us ! i, h ! i) (us ! j, h ! j)) \<and>
    fst (Select (LeastOutstanding draw) sha ord now cands rr fl) =
      (Routed tr (us ! i), rr\<lparr>mark := Some True, Prefill := Some (nurl (us ! i), k - h ! i)\<rparr>))"
proof -
  note R = resolved_spec [OF assms(1,6)]
  have p: "units (req_path sha rr) \<noteq> []" "units (req_path sha rr) = Units rr" using assms(3) by (simp_all add: req_path_def)
  have len: "length h = length us" using heldTokens_length [OF R(1) p(1)] R(4) assms(7) by simp
  obtain x tr where x: "cheapest k (zip us h) x" "selectByCost us sl (req_path sha rr) t1 rr =
      (Routed tr (fst x), rr\<lparr>mark := Some True, Prefill := Some (nurl (fst x), k - snd x)\<rparr>)"
    using selectByCost_spec [OF assms(5) R(4,1) p(1), of rr] unfolding p(2) assms(7) [symmetric] assms(8) [symmetric] by blast
  then obtain i where i: "i < length us" "x = (us ! i, h ! i)" using len by (auto simp: cheapest_def set_zip)
  have "\<forall>j<length us. cost_le k x (us ! j, h ! j)" using x(1) len by (auto simp: cheapest_def set_zip)
  moreover have "cands \<noteq> []" using assms(4,5) by (auto simp: usable_of_def)
  then have "fst (Select (LeastOutstanding draw) sha ord now cands rr fl) = selectByCost us sl (req_path sha rr) t1 rr"
    using Select_rest [of cands now fl rr "LeastOutstanding draw" sha ord] assms(2,3,4,5,6) by simp
  ultimately show ?thesis using i x(2) len by auto
qed

lemma DefaultSplitGuard_range: "0 < DefaultSplitGuard" "DefaultSplitGuard < 1"
  by code_simp+

lemma withDefaults_fields [simp]:
  "SplitGuard (withDefaults c) = (if SplitGuard c \<le> 0 \<or> SplitGuard c \<ge> 1 then DefaultSplitGuard else SplitGuard c)"
  "TailTTL (withDefaults c) = (if TailTTL c \<le> 0 then DefaultTailTTL else TailTTL c)"
  "RefusalTTL (withDefaults c) = (if RefusalTTL c \<le> 0 then DefaultRefusalTTL else RefusalTTL c)"
  "TTFTHard (withDefaults c) = max 0 (TTFTHard c)" "TTFTSoft (withDefaults c) = max 0 (TTFTSoft c)"
  "NodeConcurrency (withDefaults c) = NodeConcurrency c" "RebalanceRatio (withDefaults c) = RebalanceRatio c"
  "SoftNodeConcurrency (withDefaults c) = (if SoftNodeConcurrency c < 0 \<or> NodeConcurrency c \<le> 0 \<or>
     SoftNodeConcurrency c \<ge> NodeConcurrency c then 0 else SoftNodeConcurrency c)"
  "TransientFallback (withDefaults c) = (if TransientFallback c < 0 \<or> TransientFallback c \<ge> SplitGuard (withDefaults c)
     then 0 else TransientFallback c)"
  by (simp_all add: withDefaults_def fill_defaults_def clamp_transient_def clamp_soft_def clamp_ttft_def)

lemma withDefaults_twice: "withDefaults (withDefaults c) = withDefaults c"
proof -
  have f: "fill_defaults (withDefaults c) = withDefaults c"
    using DefaultSplitGuard_range by (cases c) (auto simp: withDefaults_def fill_defaults_def clamp_transient_def clamp_soft_def
      clamp_ttft_def DefaultTailTTL_def DefaultRefusalTTL_def)
  have "clamp_transient (clamp_ttft x) = clamp_ttft (clamp_transient x)" "clamp_transient (clamp_soft x) = clamp_soft (clamp_transient x)"
    "clamp_transient (clamp_transient x) = clamp_transient x" "clamp_soft (clamp_ttft x) = clamp_ttft (clamp_soft x)"
    "clamp_soft (clamp_soft x) = clamp_soft x" "clamp_ttft (clamp_ttft x) = clamp_ttft x" for x
    by (simp_all add: clamp_transient_def clamp_soft_def clamp_ttft_def)
  then have "clamp_ttft (clamp_soft (clamp_transient (withDefaults c))) = withDefaults c" by (simp add: withDefaults_def)
  then show ?thesis by (simp only: withDefaults_def [of "withDefaults c"] f)
qed

text \<open>The configuration the flow runs with is in normal form whatever the caller passed: the guard lies strictly
  between 0 and 1, the transient threshold below the guard, the soft limit below the hard one (or off), the
  thresholds are not negative and the TTLs positive; normalising again changes nothing, and the concurrency,
  TTFT and imbalance signals are on exactly when they are configured.\<close>

theorem withDefaults_normal:
  "0 < SplitGuard (withDefaults c) \<and> SplitGuard (withDefaults c) < 1 \<and>
   0 \<le> TransientFallback (withDefaults c) \<and> TransientFallback (withDefaults c) < SplitGuard (withDefaults c) \<and>
   (SoftNodeConcurrency (withDefaults c) = 0 \<or>
     0 < SoftNodeConcurrency (withDefaults c) \<and> SoftNodeConcurrency (withDefaults c) < NodeConcurrency (withDefaults c)) \<and>
   0 < TailTTL (withDefaults c) \<and> 0 < RefusalTTL (withDefaults c) \<and> 0 \<le> TTFTHard (withDefaults c) \<and> 0 \<le> TTFTSoft (withDefaults c) \<and>
   withDefaults (withDefaults c) = withDefaults c \<and>
   set (signals (Flow_New c)) = {Refused} \<union> (if 0 < NodeConcurrency c then {Concurrency (NodeConcurrency c)} else {}) \<union>
     (if 0 < TTFTHard c then {TTFT (TTFTHard c)} else {}) \<union> (if 0 < RebalanceRatio c then {Imbalance (RebalanceRatio c)} else {})"
  using DefaultSplitGuard_range withDefaults_twice [of c]
  by (auto simp: Flow_New_def Let_def DefaultTailTTL_def DefaultRefusalTTL_def)

section \<open>Witnesses\<close>

definition cfg0 :: flow_config where
  "cfg0 = \<lparr>NodeConcurrency = 0, SoftNodeConcurrency = 0, TTFTHard = 0, TTFTSoft = 0, RelativeTTFT = False,
     RelativeDecode = False, CostRouting = False, RebalanceRatio = 0, SplitGuard = 0, TransientFallback = 0,
     TailTTL = 0, RefusalTTL = 0, PoolName = [], Ladder = LadderStrict\<rparr>"

definition node0 :: "url \<Rightarrow> node" where
  "node0 u = reading 0 (newBackend DefaultConfig (bare_spec u))"

definition req0 :: request where
  "req0 = \<lparr>Units = [\<lparr>uHash = 7, uTokens = 3\<rparr>], Model = [], EstTokens = 0, mark = None, Prefill = None\<rparr>"

definition sha0 :: sha where
  "sha0 bs = 0"

lemma nurl_node0 [simp]: "nurl (node0 u) = u"
  by (simp add: node0_def reading_def newBackend_def bare_spec_def)

lemma ninflight_node0 [simp]: "ninflight (node0 u) = 0"
  by (simp add: node0_def reading_def newBackend_def)

lemma flow0: "ftree (Flow_New cfg0) = newTree (TailTTL (withDefaults cfg0))" "hot (Flow_New cfg0) = Map.empty"
    "signals (Flow_New cfg0) = [Refused]" "fcfg (Flow_New cfg0) = withDefaults cfg0"
  by (simp_all add: Flow_New_def Let_def cfg0_def)

lemma flow0_cfg: "plain (fcfg (Flow_New cfg0))" "Ladder (fcfg (Flow_New cfg0)) = LadderStrict"
    "NodeConcurrency (fcfg (Flow_New cfg0)) = 0"
  unfolding flow0(4)
  by (simp_all add: plain_def withDefaults_def fill_defaults_def clamp_transient_def clamp_soft_def clamp_ttft_def cfg0_def)

lemma flow0_wf: "wf_tree (ftree (Flow_New cfg0))"
  by (simp add: flow0 wf_newTree)

text \<open>Where nothing was refused and only that signal is on, everything is usable.\<close>

lemma usable_idle:
  assumes "hot fl = Map.empty" and "signals fl = [Refused]"
  shows "usable_of now fl cands = cands"
proof -
  have "usable_node now fl mi c" for mi c using assms by (simp add: usable_node_def saturated_def refused_saturated_def)
  then show ?thesis by (simp add: usable_of_def)
qed

definition flow1 :: flow where
  "flow1 = Commit sha0 0 ''a'' req0 (Flow_New cfg0)"

lemma req0: "Units req0 \<noteq> []" "mark req0 \<noteq> Some False" "length (Units req0) = 1"
  by (simp_all add: req0_def)

lemmas flow1 = Commit_marks [OF flow0_wf req0(1,2) flow1_def]
lemmas flow1_deepest = Commit_deepest [OF flow0_wf req0(1,2) flow1_def]

lemma flow1_cfg: "plain (fcfg flow1)" "Ladder (fcfg flow1) = LadderStrict"
  unfolding flow1(4) by (rule flow0_cfg)+

lemma flow1_usable: "usable_of now flow1 cands = cands"
  by (rule usable_idle) (simp_all add: flow1(2,3) flow0)

lemma flow1_slot_b: "slot_of (ftree flow1) ''b'' = None"
proof -
  obtain s t where s: "slotOrCreate (ftree (Flow_New cfg0)) ''a'' = (s, t)" by fastforce
  have "slot_of (ftree (Flow_New cfg0)) u = None" for u by (simp add: flow0 slot_of_def newTree_def)
  then have r: "slotFor (ftree (Flow_New cfg0)) ''a'' = (s, t)" "map_of (slots (ftree (Flow_New cfg0))) ''b'' = None"
    using s by (simp_all add: slotOrCreate_def slot_of_def)
  have t: "map_of (slots t) ''b'' = None" using slotFor_wf(5) [OF flow0_wf r(1), of "''b''"] r(2) by simp
  obtain hit t' where c: "commit 0 t (req_path sha0 req0) s = (hit, t')" by fastforce
  have "slots t' = slots t"
    by (rule commit_wf(2) [OF slotFor_wf(1) [OF flow0_wf r(1)] _ slotFor_wf(2) [OF flow0_wf r(1)] c]) (simp add: req_path_def req0)
  moreover have "ftree flow1 = t'" using s c req0 by (simp add: flow1_def Commit_def)
  ultimately show ?thesis using t by (simp add: slot_of_def)
qed

theorem Select_sound_witness:
  "shards (ftree (snd (Select (LeastOutstanding (\<lambda>_ _. 0)) sha0 id 0 [node0 ''a''] req0 flow1))) = shards (ftree flow1)"
  using Select_sound [where draw = "\<lambda>_ _. 0" and sha = sha0 and ord = id and now = 0 and cands = "[node0 ''a'']" and rr = req0,
      OF flow1(1) _ surjective_pairing] by simp

lemma flow1_cost: "\<not> CostRouting (fcfg flow1)"
  using flow1_cfg(1) by (simp add: plain_def)

theorem Select_cache_hit_witness:
  "fst (Select (LeastOutstanding (\<lambda>_ _. 0)) sha0 id 0 [node0 ''a''] req0 flow1) = (Routed Cache (node0 ''a''), req0\<lparr>mark := Some True\<rparr>)"
proof -
  have P: "preferred 0 flow1 (req_path sha0 req0) (length (Units req0)) (estTokens req0) [node0 ''a''] = {node0 ''a''}"
    using flow1(6) by (auto simp: preferred_def flow1_usable holder_causes_plain [OF flow1_cfg(1)])
  show ?thesis
    using Select_cache_hit [where draw = "\<lambda>_ _. 0" and ord = id and now = 0 and cands = "[node0 ''a'']",
        OF flow1(1) flow1_cost req0(1) flow1_deepest] req0(3) unfolding P by simp
qed

theorem Select_split_guard_witness:
  "fst (Select (LeastOutstanding (\<lambda>_ _. 0)) sha0 id 0 [node0 ''b''] req0 flow1) = (Routed Split (node0 ''b''), req0\<lparr>mark := Some True\<rparr>)"
proof -
  have nh: "no_holder 0 flow1 (req_path sha0 req0) (length (Units req0)) [node0 ''b'']"
    using flow1_slot_b flow1_cfg(2) by (simp add: no_holder_def flow1_usable holds_url_def)
  have un: "usable_node 0 flow1 m c" for m c
    using flow1(2,3) by (simp add: usable_node_def saturated_def refused_saturated_def flow0)
  have g: "relieved 0 flow1 (req_path sha0 req0) (length (Units req0)) [node0 ''b''] = 0"
    using un flow1(4) flow0_cfg(3) by (simp add: relieved_def Let_def)
  have "\<not> soft_ttft (fcfg flow1) us" for us using flow1_cfg(1) by (simp add: soft_ttft_def plain_def)
  then show ?thesis
    using Select_split_guard [where draw = "\<lambda>_ _. 0" and ord = id and now = 0 and cands = "[node0 ''b'']",
        OF flow1(1) flow1_cost req0(1) flow1_deepest _ refl _ nh _ _ g [symmetric] refl refl refl] req0(3)
    by (auto simp: flow1_usable)
qed

theorem Select_new_prompt_witness:
  "fst (Select (LeastOutstanding (\<lambda>_ _. 0)) sha0 id 0 [node0 ''b''] (req0\<lparr>Units := []\<rparr>) flow1) =
    (Routed Load (node0 ''b''), req0\<lparr>Units := [], mark := Some False\<rparr>)"
  using Select_new_prompt [where draw = "\<lambda>_ _. 0" and sha = sha0 and ord = id and now = 0 and cands = "[node0 ''b'']"
      and rr = "req0\<lparr>Units := []\<rparr>", OF flow1(1) flow1_cfg(1)]
  by (simp add: flow1_usable)

theorem Commit_records_witness: "holds_url (ftree flow1) (req_path sha0 req0) 1 ''a''"
  using Commit_records [OF flow0_wf flow1_def] req0 by simp

lemma flow1_a: "flow1 = Commit sha0 0 (nurl (node0 ''a'')) req0 (Flow_New cfg0)"
  by (simp add: flow1_def)

theorem Commit_then_Select_witness:
  "\<exists>b. fst (Select (LeastOutstanding (\<lambda>_ _. 0)) sha0 id 0 [node0 ''a''] req0 flow1) = (Routed Cache b, req0\<lparr>mark := Some True\<rparr>)"
  using Commit_then_Select [where draw = "\<lambda>_ _. 0" and ord = id and now = 0 and cands = "[node0 ''a'']" and ?rr2.0 = req0,
      OF flow0_wf flow0_cfg(1,2) req0(1,2) flow1_a]
  by (auto simp: flow1_usable)

theorem Cost_routing_optimal_witness:
  "\<exists>tr rr. fst (Select (LeastOutstanding (\<lambda>_ _. 0)) sha0 id 0 [node0 ''a''] req0 (flow1\<lparr>fcfg := cfg0\<lparr>CostRouting := True\<rparr>\<rparr>)) =
    (Routed tr (node0 ''a''), rr)"
proof -
  let ?fl = "flow1\<lparr>fcfg := cfg0\<lparr>CostRouting := True\<rparr>\<rparr>"
  have us: "usable_of 0 ?fl [node0 ''a''] = [node0 ''a'']"
    by (rule usable_idle) (simp_all add: flow1(2,3) flow0)
  obtain sl cm t1 where r: "resolved [node0 ''a''] (ftree ?fl) = (sl, cm, t1)" by (metis prod_cases3)
  show ?thesis
    using Cost_routing_optimal [where draw = "\<lambda>_ _. 0" and sha = sha0 and ord = id and now = 0 and cands = "[node0 ''a'']",
        OF _ _ req0(1) us [symmetric] _ r refl refl]
      flow1(1) by auto
qed

end
