(* ===== verification/JsonScan.thy ===== *)
theory JsonScan
  imports KvUnits
begin

text \<open>
  \<^verbatim>\<open>router/internal/jsonscan/jsonscan.go\<close>: the structural scanner that reads chosen keys of a request body
  and skips the rest. Offsets into the buffer are kept as the code keeps them; a callback is a function on
  an explicit state that also says whether to go on. The loops are total functions, so every call returns.
\<close>

unbundle bit_operations_syntax

section \<open>Definitions\<close>

datatype scan_error = ErrNotObject | ErrMalformed

abbreviation quote :: byte where "quote \<equiv> 34"
abbreviation backslash :: byte where "backslash \<equiv> 92"
abbreviation comma :: byte where "comma \<equiv> 44"
abbreviation colon :: byte where "colon \<equiv> 58"
abbreviation lbrace :: byte where "lbrace \<equiv> 123"
abbreviation rbrace :: byte where "rbrace \<equiv> 125"
abbreviation lbracket :: byte where "lbracket \<equiv> 91"
abbreviation rbracket :: byte where "rbracket \<equiv> 93"

definition blank :: "byte \<Rightarrow> bool" where
  "blank c \<longleftrightarrow> c = 32 \<or> c = 9 \<or> c = 10 \<or> c = 13"

function skipSpace :: "byte list \<Rightarrow> nat \<Rightarrow> nat" where
  "skipSpace b i = (if i < length b \<and> blank (b ! i) then skipSpace b (i + 1) else i)"
  by pat_completeness auto
termination by (relation "measure (\<lambda>(b, i). length b - i)") auto

text \<open>The position of the closing quote.\<close>

function scan_quote :: "byte list \<Rightarrow> nat \<Rightarrow> nat option" where
  "scan_quote b i =
     (if i < length b then
        (if b ! i = backslash then scan_quote b (i + 2)
         else if b ! i = quote then Some i else scan_quote b (i + 1))
      else None)"
  by pat_completeness auto
termination by (relation "measure (\<lambda>(b, i). length b - i)") auto

declare skipSpace.simps [simp del] scan_quote.simps [simp del]

lemma scan_quote_bounds: "scan_quote b i = Some e \<Longrightarrow> i \<le> e \<and> e < length b"
proof (induction b i rule: scan_quote.induct)
  case (1 b i)
  then show ?case by (subst (asm) (3) scan_quote.simps) (fastforce split: if_splits)
qed

text \<open>The inner bounds of a string and the index after it.\<close>

definition scanString :: "byte list \<Rightarrow> nat \<Rightarrow> (nat \<times> nat \<times> nat) option" where
  "scanString b i =
     (if i \<ge> length b \<or> b ! i \<noteq> quote then None
      else map_option (\<lambda>e. (i + 1, e, e + 1)) (scan_quote b (i + 1)))"

lemma scanString_bounds: "scanString b i = Some (s, e, n) \<Longrightarrow> s = i + 1 \<and> n = e + 1 \<and> i < e \<and> n \<le> length b"
  using scan_quote_bounds [of b "i + 1"] by (fastforce simp: scanString_def split: if_splits)

text \<open>A nested value: the stack holds the openers not closed yet.\<close>

function skip_nested :: "byte list \<Rightarrow> nat \<Rightarrow> byte list \<Rightarrow> nat option" where
  "skip_nested b i st =
     (if i < length b then
        (if b ! i = quote then
           (case scanString b i of None \<Rightarrow> None | Some (s, e, n) \<Rightarrow> skip_nested b n st)
         else if b ! i = lbrace \<or> b ! i = lbracket then skip_nested b (i + 1) (b ! i # st)
         else if b ! i = rbrace \<or> b ! i = rbracket then
           (case st of [] \<Rightarrow> None
            | op # st1 \<Rightarrow>
                (if b ! i \<noteq> (if op = lbracket then rbracket else rbrace) then None
                 else if st1 = [] then Some (i + 1) else skip_nested b (i + 1) st1))
         else skip_nested b (i + 1) st)
      else None)"
  by pat_completeness auto
termination by (relation "measure (\<lambda>(b, i, st). length b - i)") (auto dest: scanString_bounds)

function skip_scalar :: "byte list \<Rightarrow> nat \<Rightarrow> nat" where
  "skip_scalar b i =
     (if i < length b \<and> \<not> (b ! i = comma \<or> b ! i = rbrace \<or> b ! i = rbracket \<or> blank (b ! i))
      then skip_scalar b (i + 1) else i)"
  by pat_completeness auto
termination by (relation "measure (\<lambda>(b, i). length b - i)") auto

declare skip_nested.simps [simp del] skip_scalar.simps [simp del]

definition skipValue :: "byte list \<Rightarrow> nat \<Rightarrow> nat option" where
  "skipValue b i =
     (if i \<ge> length b then None
      else if b ! i = quote then map_option (\<lambda>(s, e, n). n) (scanString b i)
      else if b ! i = lbrace \<or> b ! i = lbracket then skip_nested b i []
      else if b ! i = comma \<or> b ! i = rbrace \<or> b ! i = rbracket \<or> b ! i = colon then None
      else (let j = skip_scalar b i in if j < length b then Some j else if j = i then None else Some j))"

lemma skipSpace_bounds: "i \<le> skipSpace b i \<and> (i \<le> length b \<longrightarrow> skipSpace b i \<le> length b)"
proof (induction b i rule: skipSpace.induct)
  case (1 b i)
  then show ?case by (subst (1 2) skipSpace.simps) fastforce
qed

lemma skip_scalar_bounds: "i \<le> skip_scalar b i \<and> (i \<le> length b \<longrightarrow> skip_scalar b i \<le> length b)"
proof (induction b i rule: skip_scalar.induct)
  case (1 b i)
  then show ?case by (subst (1 2) skip_scalar.simps) fastforce
qed

lemma skip_nested_step:
  assumes "i < length b"
  shows "b ! i = quote \<Longrightarrow> scanString b i = Some (s, e, n) \<Longrightarrow> skip_nested b i st = skip_nested b n st"
    and "b ! i = quote \<Longrightarrow> scanString b i = None \<Longrightarrow> skip_nested b i st = None"
    and "b ! i = lbrace \<or> b ! i = lbracket \<Longrightarrow> skip_nested b i st = skip_nested b (Suc i) (b ! i # st)"
    and "b ! i = rbrace \<or> b ! i = rbracket \<Longrightarrow> skip_nested b i [] = None"
    and "b ! i = rbrace \<or> b ! i = rbracket \<Longrightarrow> skip_nested b i (op # st1) =
      (if b ! i \<noteq> (if op = lbracket then rbracket else rbrace) then None
       else if st1 = [] then Some (Suc i) else skip_nested b (Suc i) st1)"
    and "b ! i \<notin> {quote, lbrace, lbracket, rbrace, rbracket} \<Longrightarrow> skip_nested b i st = skip_nested b (Suc i) st"
proof -
  note unf = skip_nested.simps [of b i]
  show "b ! i = quote \<Longrightarrow> scanString b i = Some (s, e, n) \<Longrightarrow> skip_nested b i st = skip_nested b n st"
    "b ! i = quote \<Longrightarrow> scanString b i = None \<Longrightarrow> skip_nested b i st = None"
    "b ! i \<notin> {quote, lbrace, lbracket, rbrace, rbracket} \<Longrightarrow> skip_nested b i st = skip_nested b (Suc i) st"
    using assms unf [of st] by simp_all
  show "b ! i = lbrace \<or> b ! i = lbracket \<Longrightarrow> skip_nested b i st = skip_nested b (Suc i) (b ! i # st)"
    using assms unf [of st] by (elim disjE) simp_all
  show "b ! i = rbrace \<or> b ! i = rbracket \<Longrightarrow> skip_nested b i [] = None"
    using assms unf [of "[]"] by (elim disjE) simp_all
  show "b ! i = rbrace \<or> b ! i = rbracket \<Longrightarrow> skip_nested b i (op # st1) =
      (if b ! i \<noteq> (if op = lbracket then rbracket else rbrace) then None
       else if st1 = [] then Some (Suc i) else skip_nested b (Suc i) st1)"
    using assms unf [of "op # st1"] by (elim disjE) simp_all
qed

lemma skip_nested_bounds: "skip_nested b i st = Some j \<Longrightarrow> i < j \<and> j \<le> length b"
proof (induction "length b - i" arbitrary: i st rule: less_induct)
  case less
  have i: "i < length b" using less.prems by (subst (asm) skip_nested.simps) (simp split: if_splits)
  have IH: "k < j \<and> j \<le> length b" if "skip_nested b k st' = Some j" "i < k" for k st'
    using less.hyps [of k st'] that i by auto
  note step = skip_nested_step [OF i]
  consider "b ! i = quote" | "b ! i = lbrace \<or> b ! i = lbracket" | "b ! i = rbrace \<or> b ! i = rbracket"
    | "b ! i \<notin> {quote, lbrace, lbracket, rbrace, rbracket}" by blast
  then show ?case
  proof cases
    case 1
    then obtain s e n where "scanString b i = Some (s, e, n)" "skip_nested b n st = Some j"
      using less.prems step(1,2) by (cases "scanString b i") auto
    then show ?thesis using scanString_bounds [of b i s e n] IH [of n st] by auto
  next
    case 2
    then show ?thesis using less.prems step(3) IH by fastforce
  next
    case 3
    then show ?thesis using less.prems step(4,5) IH i by (cases st) (fastforce split: if_splits)+
  next
    case 4
    then show ?thesis using less.prems step(6) IH by fastforce
  qed
qed

lemma skipValue_bounds: "skipValue b i = Some j \<Longrightarrow> i \<le> j \<and> j \<le> length b \<and> (\<not> blank (b ! i) \<longrightarrow> i < j)"
proof -
  assume a: "skipValue b i = Some j"
  have "i < skip_scalar b i" if "i < length b" "\<not> blank (b ! i)" "b ! i \<noteq> comma" "b ! i \<noteq> rbrace" "b ! i \<noteq> rbracket"
    using that skip_scalar_bounds [of "i + 1" b] by (subst skip_scalar.simps) auto
  then show ?thesis
    using a skip_scalar_bounds [of i b] skip_nested_bounds [of b i "[]" j]
    by (auto simp: skipValue_def Let_def blank_def split: if_splits dest!: scanString_bounds)
qed

section \<open>Strings\<close>

definition hex_digit :: "byte \<Rightarrow> 32 word option" where
  "hex_digit c =
     (if 48 \<le> c \<and> c \<le> 57 then Some (ucast (c - 48))
      else if 97 \<le> c \<and> c \<le> 102 then Some (ucast (c - 97) + 10)
      else if 65 \<le> c \<and> c \<le> 70 then Some (ucast (c - 65) + 10)
      else None)"

fun hex_loop :: "nat \<Rightarrow> byte list \<Rightarrow> 32 word \<Rightarrow> 32 word option" where
  "hex_loop 0 cs v = Some v"
| "hex_loop (Suc k) [] v = None"
| "hex_loop (Suc k) (c # cs) v =
     (case hex_digit c of None \<Rightarrow> None | Some d \<Rightarrow> hex_loop k cs (push_bit 4 v OR d))"

definition hex4 :: "byte list \<Rightarrow> 32 word option" where
  "hex4 b = (if length b < 4 then None else hex_loop 4 b 0)"

text \<open>\<^verbatim>\<open>utf8.AppendRune\<close>; \<^verbatim>\<open>utf8.RuneError\<close> is U+FFFD.\<close>

definition RuneError :: "32 word" where
  "RuneError = 0xFFFD"

definition rune_bytes :: "32 word \<Rightarrow> byte list" where
  "rune_bytes r =
     (if r \<le> 0x7F then [ucast r]
      else if r \<le> 0x7FF then [0xC0 OR ucast (drop_bit 6 r), 0x80 OR (ucast r AND 0x3F)]
      else if 0xD800 \<le> r \<and> r \<le> 0xDFFF \<or> 0x10FFFF < r then [0xEF, 0xBF, 0xBD]
      else if r \<le> 0xFFFF
      then [0xE0 OR ucast (drop_bit 12 r), 0x80 OR (ucast (drop_bit 6 r) AND 0x3F), 0x80 OR (ucast r AND 0x3F)]
      else [0xF0 OR ucast (drop_bit 18 r), 0x80 OR (ucast (drop_bit 12 r) AND 0x3F),
        0x80 OR (ucast (drop_bit 6 r) AND 0x3F), 0x80 OR (ucast r AND 0x3F)])"

text \<open>The argument is what follows the \<^verbatim>\<open>u\<close>; the result says how much of it was consumed.\<close>

definition decodeUnicodeEscape :: "byte list \<Rightarrow> (32 word \<times> nat) option" where
  "decodeUnicodeEscape cs =
     (if length cs < 4 then None
      else
        (case hex4 (take 4 cs) of None \<Rightarrow> None
         | Some hi \<Rightarrow>
             (if 0xD800 \<le> hi \<and> hi \<le> 0xDBFF then
                (if 10 \<le> length cs \<and> cs ! 4 = backslash \<and> cs ! 5 = 117 then
                   (case hex4 (take 4 (drop 6 cs)) of
                      Some lo \<Rightarrow>
                        (if 0xDC00 \<le> lo \<and> lo \<le> 0xDFFF
                         then Some (0x10000 + push_bit 10 (hi - 0xD800) + (lo - 0xDC00), 10)
                         else Some (RuneError, 4))
                    | None \<Rightarrow> Some (RuneError, 4))
                 else Some (RuneError, 4))
              else if 0xDC00 \<le> hi \<and> hi \<le> 0xDFFF then Some (RuneError, 4)
              else Some (hi, 4))))"

definition short_escape :: "byte \<Rightarrow> byte option" where
  "short_escape c =
     (if c = 110 then Some 10 else if c = 116 then Some 9 else if c = 114 then Some 13 else if c = 98 then Some 8
      else if c = 102 then Some 12 else if c = 47 then Some 47 else if c = quote then Some quote
      else if c = backslash then Some backslash else None)"

function unescape_loop :: "byte list \<Rightarrow> byte list \<Rightarrow> byte list option" where
  "unescape_loop [] out = Some out"
| "unescape_loop (c # cs) out =
     (if c \<noteq> backslash then unescape_loop cs (out @ [c])
      else
        (case cs of [] \<Rightarrow> None
         | e # es \<Rightarrow>
             (if e = 117 then
                (case decodeUnicodeEscape es of None \<Rightarrow> None
                 | Some (r, k) \<Rightarrow> unescape_loop (drop k es) (out @ rune_bytes r))
              else
                (case short_escape e of None \<Rightarrow> None | Some x \<Rightarrow> unescape_loop es (out @ [x])))))"
  by pat_completeness auto
termination by (relation "measure (\<lambda>(cs, out). length cs)") auto

definition unescape :: "byte list \<Rightarrow> byte list option" where
  "unescape body = unescape_loop body []"

definition String :: "byte list \<Rightarrow> byte list option" where
  "String sp =
     (if length sp < 2 \<or> hd sp \<noteq> quote \<or> last sp \<noteq> quote then None
      else (let body = butlast (tl sp) in if backslash \<notin> set body then Some body else unescape body))"

section \<open>Scalars\<close>

definition Bool :: "byte list \<Rightarrow> bool option" where
  "Bool sp =
     (if sp = [116, 114, 117, 101] then Some True
      else if sp = [102, 97, 108, 115, 101] then Some False else None)"

text \<open>A Go \<^verbatim>\<open>int\<close> is 64 bits wide and the accumulation wraps.\<close>

fun int_loop :: "byte list \<Rightarrow> 64 word \<Rightarrow> 64 word option" where
  "int_loop [] n = Some n"
| "int_loop (c # cs) n = (if c < 48 \<or> c > 57 then None else int_loop cs (n * 10 + ucast (c - 48)))"

definition Int_span :: "byte list \<Rightarrow> 64 word option" where
  "Int_span sp = (if sp = [] then None else int_loop sp 0)"

section \<open>Walking objects and arrays\<close>

definition slice :: "byte list \<Rightarrow> nat \<Rightarrow> nat \<Rightarrow> byte list" where
  "slice b i j = take (j - i) (drop i b)"

text \<open>The key as the callback sees it: unescaped when it has an escape.\<close>

definition field_key :: "byte list \<Rightarrow> byte list option" where
  "field_key raw = (if backslash \<in> set raw then unescape raw else Some raw)"

text \<open>One member from the opening quote of its key: the raw key, the sp of its value.\<close>

definition scan_member :: "byte list \<Rightarrow> nat \<Rightarrow> (byte list \<times> nat \<times> nat) option" where
  "scan_member b i =
     (case scanString b i of None \<Rightarrow> None
      | Some (ks, ke, next) \<Rightarrow>
          (let j = skipSpace b next in
           if j \<ge> length b \<or> b ! j \<noteq> colon then None
           else (let vs = skipSpace b (j + 1) in
                 map_option (\<lambda>ve. (slice b ks ke, vs, ve)) (skipValue b vs))))"

lemma scan_member_bounds: "scan_member b i = Some (k, vs, ve) \<Longrightarrow> i < vs \<and> vs \<le> ve \<and> ve \<le> length b"
proof -
  assume a: "scan_member b i = Some (k, vs, ve)"
  then obtain ks ke n where n: "scanString b i = Some (ks, ke, n)" "vs = skipSpace b (skipSpace b n + 1)" "skipValue b vs = Some ve"
    by (auto simp: scan_member_def Let_def split: option.splits if_splits)
  show ?thesis
    using scanString_bounds [OF n(1)] skipSpace_bounds [of n b] skipSpace_bounds [of "skipSpace b n + 1" b] skipValue_bounds [OF n(3)]
      n(2) by linarith
qed

lemma member_progress:
  "scan_member b (skipSpace b i) = Some (k, vs, ve) \<Longrightarrow> \<not> length b \<le> skipSpace b i \<Longrightarrow> length b - ve < length b - i"
  using skipSpace_bounds [of i b] scan_member_bounds [of b "skipSpace b i" k vs ve] by linarith

lemma value_progress: "\<not> ee \<le> skipSpace b i \<Longrightarrow> \<not> length b \<le> skipSpace b i \<Longrightarrow> length b - ee < length b - i"
  using skipSpace_bounds [of i b] by linarith

function fields_loop :: "(byte list \<Rightarrow> byte list \<Rightarrow> 's \<Rightarrow> bool \<times> 's) \<Rightarrow> byte list \<Rightarrow> nat \<Rightarrow> 's \<Rightarrow> scan_error option \<times> 's" where
  "fields_loop fn b i0 s =
     (let i = skipSpace b i0 in
      if i \<ge> length b then (Some ErrMalformed, s)
      else if b ! i = rbrace then (None, s)
      else if b ! i = comma then fields_loop fn b (i + 1) s
      else if b ! i \<noteq> quote then (Some ErrMalformed, s)
      else
        (case scan_member b i of None \<Rightarrow> (Some ErrMalformed, s)
         | Some (raw, vs, ve) \<Rightarrow>
             (case field_key raw of None \<Rightarrow> (Some ErrMalformed, s)
              | Some key \<Rightarrow>
                  (case fn key (slice b vs ve) s of
                     (True, s1) \<Rightarrow> fields_loop fn b ve s1
                   | (False, s1) \<Rightarrow> (None, s1)))))"
  by pat_completeness auto
termination
proof (relation "measure (\<lambda>(fn, b, i, s). length b - i)", goal_cases)
  case (2 fn b i0 s i)
  then show ?case using skipSpace_bounds [of i0 b] by auto
next
  case 3
  then show ?case by (auto dest: member_progress)
qed simp

definition Fields :: "(byte list \<Rightarrow> byte list \<Rightarrow> 's \<Rightarrow> bool \<times> 's) \<Rightarrow> byte list \<Rightarrow> 's \<Rightarrow> scan_error option \<times> 's" where
  "Fields fn b s =
     (let i = skipSpace b 0 in
      if i \<ge> length b \<or> b ! i \<noteq> lbrace then (Some ErrNotObject, s) else fields_loop fn b (i + 1) s)"

function array_loop :: "(byte list \<Rightarrow> 's \<Rightarrow> bool \<times> 's) \<Rightarrow> byte list \<Rightarrow> nat \<Rightarrow> 's \<Rightarrow> scan_error option \<times> 's" where
  "array_loop fn v i0 s =
     (let i = skipSpace v i0 in
      if i \<ge> length v then (Some ErrMalformed, s)
      else if v ! i = rbracket then (None, s)
      else if v ! i = comma then array_loop fn v (i + 1) s
      else
        (case skipValue v i of None \<Rightarrow> (Some ErrMalformed, s)
         | Some ee \<Rightarrow>
             (if ee \<le> i then (Some ErrMalformed, s)
              else
                (case fn (slice v i ee) s of
                   (True, s1) \<Rightarrow> array_loop fn v ee s1
                 | (False, s1) \<Rightarrow> (None, s1)))))"
  by pat_completeness auto
termination
proof (relation "measure (\<lambda>(fn, v, i, s). length v - i)", goal_cases)
  case (2 fn v i0 s i)
  then show ?case using skipSpace_bounds [of i0 v] by auto
next
  case 3
  then show ?case by (auto simp: value_progress)
qed simp

definition Array :: "(byte list \<Rightarrow> 's \<Rightarrow> bool \<times> 's) \<Rightarrow> byte list \<Rightarrow> 's \<Rightarrow> scan_error option \<times> 's" where
  "Array fn v s =
     (let i = skipSpace v 0 in
      if i \<ge> length v \<or> v ! i \<noteq> lbracket then (Some ErrMalformed, s) else array_loop fn v (i + 1) s)"

declare fields_loop.simps [simp del] array_loop.simps [simp del]

end
