(* ===== verification/JsonProps.thy ===== *)
theory JsonProps
  imports JsonScan
begin

text \<open>
  The scanner against the JSON grammar: a value of the grammar is skipped exactly, so \<open>Fields\<close> and \<open>Array\<close>
  hand the callback the members and elements of a well-formed text, in order; on any input, well-formed or
  not, what they hand out lies in the input and is bounded by it; and no spelling of a key hides it.
\<close>

unbundle bit_operations_syntax

section \<open>Positions\<close>

lemma drop_Cons_iff: "drop i b = c # t \<Longrightarrow> i < length b \<and> b ! i = c \<and> drop (Suc i) b = t"
  by (metis drop_all drop_Suc linorder_not_le list.sel(3) list.simps(3) nth_via_drop tl_drop)

lemma drop_append_len: "drop i b = s @ t \<Longrightarrow> drop (i + length s) b = t"
  by (metis add.commute append_eq_conv_conj drop_drop)

lemma drop_Nil_len: "drop i b = [] \<Longrightarrow> length b \<le> i"
  by simp

section \<open>The grammar\<close>

definition ws_list :: "byte list \<Rightarrow> bool" where
  "ws_list w \<longleftrightarrow> (\<forall>c\<in>set w. blank c)"

inductive str_body :: "byte list \<Rightarrow> bool" where
  str_nil: "str_body []"
| str_plain: "c \<noteq> quote \<Longrightarrow> c \<noteq> backslash \<Longrightarrow> str_body s \<Longrightarrow> str_body (c # s)"
| str_escape: "str_body s \<Longrightarrow> str_body (backslash # c # s)"

definition structural :: "byte \<Rightarrow> bool" where
  "structural c \<longleftrightarrow> c = quote \<or> c = comma \<or> c = colon \<or> c = lbrace \<or> c = rbrace \<or> c = lbracket \<or> c = rbracket"

definition scalar_text :: "byte list \<Rightarrow> bool" where
  "scalar_text s \<longleftrightarrow> s \<noteq> [] \<and> (\<forall>c\<in>set s. \<not> blank c \<and> \<not> structural c)"

record element =
  epre :: "byte list"
  eval :: "byte list"
  epost :: "byte list"

record member =
  mpre :: "byte list"
  mkey :: "byte list"
  mmid :: "byte list"
  mpost :: "byte list"
  mval :: "byte list"
  mend :: "byte list"

definition element_text :: "element \<Rightarrow> byte list" where
  "element_text e = epre e @ eval e @ epost e"

definition member_text :: "member \<Rightarrow> byte list" where
  "member_text m = mpre m @ quote # mkey m @ quote # mmid m @ colon # mpost m @ mval m @ mend m"

fun rest_text :: "byte \<Rightarrow> byte list list \<Rightarrow> byte list" where
  "rest_text close [] = [close]"
| "rest_text close (x # xs) = comma # x @ rest_text close xs"

text \<open>The items between separators and the closing bracket; \<open>w\<close> is the blank of an empty list.\<close>

fun items_text :: "byte \<Rightarrow> byte list \<Rightarrow> byte list list \<Rightarrow> byte list" where
  "items_text close w [] = w @ [close]"
| "items_text close w (x # xs) = x @ rest_text close xs"

inductive json :: "byte list \<Rightarrow> bool" where
  scalar: "scalar_text s \<Longrightarrow> json s"
| string: "str_body s \<Longrightarrow> json (quote # s @ [quote])"
| array: "ws_list w \<Longrightarrow> \<forall>e\<in>set es. ws_list (epre e) \<and> json (eval e) \<and> ws_list (epost e) \<Longrightarrow>
    json (lbracket # items_text rbracket w (map element_text es))"
| object: "ws_list w \<Longrightarrow> \<forall>m\<in>set ms. ws_list (mpre m) \<and> str_body (mkey m) \<and> ws_list (mmid m) \<and> ws_list (mpost m) \<and>
      json (mval m) \<and> ws_list (mend m) \<Longrightarrow>
    json (lbrace # items_text rbrace w (map member_text ms))"

definition element_ok :: "element \<Rightarrow> bool" where
  "element_ok e \<longleftrightarrow> ws_list (epre e) \<and> json (eval e) \<and> ws_list (epost e)"

definition member_ok :: "member \<Rightarrow> bool" where
  "member_ok m \<longleftrightarrow> ws_list (mpre m) \<and> str_body (mkey m) \<and> ws_list (mmid m) \<and> ws_list (mpost m) \<and>
     json (mval m) \<and> ws_list (mend m)"

section \<open>Balanced text\<close>

inductive bal :: "byte list \<Rightarrow> bool" where
  bal_nil: "bal []"
| bal_other: "c \<notin> {quote, lbrace, lbracket, rbrace, rbracket} \<Longrightarrow> bal t \<Longrightarrow> bal (c # t)"
| bal_string: "str_body s \<Longrightarrow> bal t \<Longrightarrow> bal (quote # s @ quote # t)"
| bal_array: "bal u \<Longrightarrow> bal t \<Longrightarrow> bal (lbracket # u @ rbracket # t)"
| bal_object: "bal u \<Longrightarrow> bal t \<Longrightarrow> bal (lbrace # u @ rbrace # t)"

lemma bal_append: "bal s \<Longrightarrow> bal t \<Longrightarrow> bal (s @ t)"
  by (induction rule: bal.induct) (auto intro: bal.intros)

lemma bal_single: "c \<notin> {quote, lbrace, lbracket, rbrace, rbracket} \<Longrightarrow> bal [c]"
  by (rule bal_other [OF _ bal_nil])

lemma bal_ws: "ws_list w \<Longrightarrow> bal w"
  by (induction w) (auto simp: ws_list_def blank_def intro!: bal.intros)

lemma bal_scalar: "(\<forall>c\<in>set s. \<not> blank c \<and> \<not> structural c) \<Longrightarrow> bal s"
  by (induction s) (auto simp: structural_def intro!: bal.intros)

lemma bal_str: "str_body s \<Longrightarrow> bal (quote # s @ [quote])"
  using bal_string [OF _ bal_nil] .

lemma bal_comma: "bal t \<Longrightarrow> bal (comma # t)"
  by (rule bal_other) simp_all

lemma rest_text_close: "\<exists>u. rest_text close xs = u @ [close] \<and> ((\<forall>x\<in>set xs. bal x) \<longrightarrow> bal u)"
proof (induction xs)
  case Nil
  then show ?case using bal_nil by auto
next
  case (Cons x xs)
  then obtain u where u: "rest_text close xs = u @ [close]" "(\<forall>x\<in>set xs. bal x) \<longrightarrow> bal u" by blast
  then have "rest_text close (x # xs) = ([comma] @ x @ u) @ [close]" by simp
  moreover have "(\<forall>y\<in>set (x # xs). bal y) \<longrightarrow> bal ([comma] @ x @ u)"
    using u(2) by (auto intro: bal_append bal_comma)
  ultimately show ?case by blast
qed

lemma items_text_close: "ws_list w \<Longrightarrow> \<forall>x\<in>set xs. bal x \<Longrightarrow> \<exists>u. items_text close w xs = u @ [close] \<and> bal u"
proof (cases xs)
  case (Cons x ys)
  assume b: "\<forall>x\<in>set xs. bal x"
  from rest_text_close obtain u where "rest_text close ys = u @ [close]" "(\<forall>x\<in>set ys. bal x) \<longrightarrow> bal u" by blast
  then have "items_text close w xs = (x @ u) @ [close] \<and> bal (x @ u)" using Cons b by (auto intro: bal_append)
  then show ?thesis by blast
qed (auto intro: bal_ws)

lemma bal_element: "ws_list (epre e) \<Longrightarrow> bal (eval e) \<Longrightarrow> ws_list (epost e) \<Longrightarrow> bal (element_text e)"
  by (simp add: element_text_def bal_append bal_ws)

lemma bal_member:
  assumes "ws_list (mpre m)" and "str_body (mkey m)" and "ws_list (mmid m)" and "ws_list (mpost m)" and "bal (mval m)" and "ws_list (mend m)"
  shows "bal (member_text m)"
proof -
  have "bal (mpre m @ (quote # mkey m @ [quote]) @ mmid m @ [colon] @ mpost m @ mval m @ mend m)"
    using assms by (intro bal_append) (auto intro: bal_ws bal_str bal_single)
  then show ?thesis by (simp add: member_text_def)
qed

lemma json_bal: "json v \<Longrightarrow> bal v"
proof (induction rule: json.induct)
  case (array w es)
  then have "\<forall>x\<in>set (map element_text es). bal x" by (auto intro: bal_element)
  from items_text_close [OF array(1) this, of rbracket] show ?case using bal_array [OF _ bal_nil] by fastforce
next
  case (object w ms)
  then have "\<forall>x\<in>set (map member_text ms). bal x" by (auto intro: bal_member)
  from items_text_close [OF object(1) this, of rbrace] show ?case using bal_object [OF _ bal_nil] by fastforce
qed (auto simp: scalar_text_def intro: bal_scalar bal_str)

section \<open>The scanner on the grammar\<close>

lemma skipSpace_ws: "ws_list w \<Longrightarrow> drop i b = w @ t \<Longrightarrow> (t = [] \<or> \<not> blank (hd t)) \<Longrightarrow> skipSpace b i = i + length w"
proof (induction w arbitrary: i)
  case Nil
  then show ?case using drop_Cons_iff [of i b "hd t" "tl t"] by (subst skipSpace.simps) (cases t; auto)
next
  case (Cons c w)
  then have "i < length b" "b ! i = c" "drop (Suc i) b = w @ t" "blank c" "ws_list w"
    using drop_Cons_iff [of i b c "w @ t"] by (auto simp: ws_list_def)
  then show ?case using Cons.IH [of "Suc i"] Cons.prems(3) by (subst skipSpace.simps) simp
qed

lemma scan_quote_body: "str_body s \<Longrightarrow> drop i b = s @ quote # t \<Longrightarrow> scan_quote b i = Some (i + length s)"
proof (induction arbitrary: i rule: str_body.induct)
  case str_nil
  then show ?case using drop_Cons_iff [of i b quote t] by (subst scan_quote.simps) auto
next
  case (str_plain c s)
  then show ?case using drop_Cons_iff [of i b c "s @ quote # t"] by (subst scan_quote.simps) auto
next
  case (str_escape s c)
  then show ?case using drop_Cons_iff [of i b backslash "c # s @ quote # t"] drop_Cons_iff [of "Suc i" b c "s @ quote # t"]
    by (subst scan_quote.simps) auto
qed

lemma scanString_body:
  "str_body s \<Longrightarrow> drop i b = quote # s @ quote # t \<Longrightarrow> scanString b i = Some (i + 1, i + 1 + length s, i + 2 + length s)"
  using drop_Cons_iff [of i b quote "s @ quote # t"] scan_quote_body [of s "i + 1" b t] by (simp add: scanString_def)

lemma skip_nested_bal:
  "bal u \<Longrightarrow> st \<noteq> [] \<Longrightarrow> drop i b = u @ t \<Longrightarrow> skip_nested b i st = skip_nested b (i + length u) st"
proof (induction arbitrary: i st t rule: bal.induct)
  case (bal_other c t')
  note d = drop_Cons_iff [of i b c "t' @ t"]
  have "skip_nested b i st = skip_nested b (Suc i) st" using bal_other d by (intro skip_nested_step(6)) auto
  then show ?case using bal_other.IH [of st "Suc i" t] bal_other.prems d by simp
next
  case (bal_string s t')
  have s: "scanString b i = Some (i + 1, i + 1 + length s, i + 2 + length s)"
    using scanString_body [of s i b "t' @ t"] bal_string by simp
  have "i < length b" "b ! i = quote" using drop_Cons_iff [of i b quote "s @ quote # t' @ t"] bal_string.prems by auto
  then have "skip_nested b i st = skip_nested b (i + 2 + length s) st" using skip_nested_step(1) s by blast
  moreover have "drop (i + 2 + length s) b = t' @ t"
    using drop_append_len [of i b "quote # s @ [quote]" "t' @ t"] bal_string.prems by (simp add: algebra_simps)
  ultimately show ?case using bal_string.IH [of st] bal_string.prems by (simp add: algebra_simps)
next
  case (bal_array u t')
  have i: "i < length b" "b ! i = lbracket" "drop (Suc i) b = u @ rbracket # t' @ t"
    using drop_Cons_iff [of i b lbracket "u @ rbracket # t' @ t"] bal_array.prems by auto
  let ?k = "Suc i + length u"
  have k: "?k < length b" "b ! ?k = rbracket" "drop (Suc ?k) b = t' @ t"
    using drop_Cons_iff [OF drop_append_len [OF i(3)]] by auto
  have "skip_nested b i st = skip_nested b (Suc i) (lbracket # st)" using skip_nested_step(3) [OF i(1)] i(2) by simp
  also have "\<dots> = skip_nested b ?k (lbracket # st)" using bal_array.IH(1) [OF _ i(3)] by simp
  also have "\<dots> = skip_nested b (Suc ?k) st" using skip_nested_step(5) [OF k(1)] k(2) bal_array.prems(1) by simp
  also have "\<dots> = skip_nested b (Suc ?k + length t') st" by (rule bal_array.IH(2) [OF bal_array.prems(1) k(3)])
  finally show ?case by (simp add: algebra_simps)
next
  case (bal_object u t')
  have i: "i < length b" "b ! i = lbrace" "drop (Suc i) b = u @ rbrace # t' @ t"
    using drop_Cons_iff [of i b lbrace "u @ rbrace # t' @ t"] bal_object.prems by auto
  let ?k = "Suc i + length u"
  have k: "?k < length b" "b ! ?k = rbrace" "drop (Suc ?k) b = t' @ t"
    using drop_Cons_iff [OF drop_append_len [OF i(3)]] by auto
  have "skip_nested b i st = skip_nested b (Suc i) (lbrace # st)" using skip_nested_step(3) [OF i(1)] i(2) by simp
  also have "\<dots> = skip_nested b ?k (lbrace # st)" using bal_object.IH(1) [OF _ i(3)] by simp
  also have "\<dots> = skip_nested b (Suc ?k) st" using skip_nested_step(5) [OF k(1)] k(2) bal_object.prems(1) by simp
  also have "\<dots> = skip_nested b (Suc ?k + length t') st" by (rule bal_object.IH(2) [OF bal_object.prems(1) k(3)])
  finally show ?case by (simp add: algebra_simps)
qed simp

definition stops :: "byte list \<Rightarrow> bool" where
  "stops t \<longleftrightarrow> t = [] \<or> hd t = comma \<or> hd t = rbrace \<or> hd t = rbracket \<or> blank (hd t)"

lemma skip_scalar_text:
  "\<forall>c\<in>set s. \<not> blank c \<and> \<not> structural c \<Longrightarrow> drop i b = s @ t \<Longrightarrow> stops t \<Longrightarrow> skip_scalar b i = i + length s"
proof (induction s arbitrary: i)
  case Nil
  then show ?case using drop_Cons_iff [of i b "hd t" "tl t"] by (subst skip_scalar.simps) (cases t; auto simp: stops_def)
next
  case (Cons c s)
  then have "i < length b" "b ! i = c" "drop (Suc i) b = s @ t" using drop_Cons_iff [of i b c "s @ t"] by auto
  then show ?case using Cons.IH [of "Suc i"] Cons.prems by (subst skip_scalar.simps) (auto simp: structural_def)
qed

lemma skip_nested_value:
  assumes "bal u" and "drop i b = op # u @ cl # t" and "(op, cl) \<in> {(lbracket, rbracket), (lbrace, rbrace)}"
  shows "skip_nested b i [] = Some (i + length u + 2)"
proof -
  have i: "i < length b" "b ! i = op" "drop (Suc i) b = u @ cl # t" using drop_Cons_iff [OF assms(2)] by auto
  let ?k = "Suc i + length u"
  have k: "?k < length b" "b ! ?k = cl" using drop_Cons_iff [OF drop_append_len [OF i(3)]] by auto
  have "skip_nested b i [] = skip_nested b (Suc i) [op]" using skip_nested_step(3) [OF i(1)] i(2) assms(3) by auto
  also have "\<dots> = skip_nested b ?k [op]" by (rule skip_nested_bal [OF assms(1) _ i(3)]) simp
  also have "\<dots> = Some (Suc ?k)" using skip_nested_step(5) [OF k(1), of op "[]"] k(2) assms(3) by auto
  finally show ?thesis by simp
qed

text \<open>Where a value of the grammar starts and how it is skipped.\<close>

lemma json_hd: "json v \<Longrightarrow> v \<noteq> [] \<and> \<not> blank (hd v) \<and> hd v \<noteq> comma \<and> hd v \<noteq> rbrace \<and> hd v \<noteq> rbracket \<and> hd v \<noteq> colon"
  by (induction rule: json.induct) (auto simp: scalar_text_def structural_def blank_def neq_Nil_conv)

lemma skipValue_json:
  assumes "json v" and "drop i b = v @ t" and "stops t"
  shows "skipValue b i = Some (i + length v)"
  using assms(1)
proof cases
  case scalar
  then obtain c s where v: "v = c # s" by (auto simp: scalar_text_def neq_Nil_conv)
  have c: "\<not> structural c" "\<not> blank c" using scalar v by (auto simp: scalar_text_def)
  have "i < length b" "b ! i = c" using drop_Cons_iff [of i b c "s @ t"] assms(2) v by auto
  moreover have "skip_scalar b i = i + length v"
    by (rule skip_scalar_text [OF _ assms(2,3)]) (use scalar in \<open>simp add: scalar_text_def\<close>)
  ultimately show ?thesis using c v by (auto simp: skipValue_def structural_def Let_def)
next
  case (string s)
  then show ?thesis
    using scanString_body [of s i b t] drop_Cons_iff [of i b quote "s @ quote # t"] assms(2) by (simp add: skipValue_def)
next
  case (array w es)
  have "\<forall>x\<in>set (map element_text es). bal x" using array(3) by (auto intro: bal_element json_bal)
  from items_text_close [OF array(2) this, of rbracket] obtain u where
    u: "items_text rbracket w (map element_text es) = u @ [rbracket]" "bal u" by blast
  have d: "drop i b = lbracket # u @ rbracket # t" using assms(2) array(1) u(1) by simp
  then show ?thesis using skip_nested_value [OF u(2) d] drop_Cons_iff [OF d] array(1) u(1) by (simp add: skipValue_def)
next
  case (object w ms)
  have "\<forall>x\<in>set (map member_text ms). bal x" using object(3) by (auto intro: bal_member json_bal)
  from items_text_close [OF object(2) this, of rbrace] obtain u where
    u: "items_text rbrace w (map member_text ms) = u @ [rbrace]" "bal u" by blast
  have d: "drop i b = lbrace # u @ rbrace # t" using assms(2) object(1) u(1) by simp
  then show ?thesis using skip_nested_value [OF u(2) d] drop_Cons_iff [OF d] object(1) u(1) by (simp add: skipValue_def)
qed

lemma slice_drop: "drop i b = s @ t \<Longrightarrow> slice b i (i + length s) = s"
  by (simp add: slice_def)

section \<open>Walking well-formed text\<close>

text \<open>The reference walk: the members in order, each key unescaped, until the callback stops it.\<close>

fun visit :: "(byte list \<Rightarrow> byte list \<Rightarrow> 's \<Rightarrow> bool \<times> 's) \<Rightarrow> member list \<Rightarrow> 's \<Rightarrow> scan_error option \<times> 's" where
  "visit fn [] s = (None, s)"
| "visit fn (m # ms) s =
     (case field_key (mkey m) of None \<Rightarrow> (Some ErrMalformed, s)
      | Some key \<Rightarrow> (case fn key (mval m) s of (True, s1) \<Rightarrow> visit fn ms s1 | (False, s1) \<Rightarrow> (None, s1)))"

fun visit_elements :: "(byte list \<Rightarrow> 's \<Rightarrow> bool \<times> 's) \<Rightarrow> element list \<Rightarrow> 's \<Rightarrow> scan_error option \<times> 's" where
  "visit_elements fn [] s = (None, s)"
| "visit_elements fn (e # es) s =
     (case fn (eval e) s of (True, s1) \<Rightarrow> visit_elements fn es s1 | (False, s1) \<Rightarrow> (None, s1))"

lemma scan_member_text:
  assumes "member_ok m" and "drop i b = mpre m @ t0" and "mpre m @ t0 = member_text m @ t" and "stops t"
  shows "skipSpace b i = i + length (mpre m)" (is "_ = ?i") and "i + length (mpre m) < length b" and "b ! (i + length (mpre m)) = quote"
    and "\<exists>vs ve. scan_member b (i + length (mpre m)) = Some (mkey m, vs, ve) \<and> slice b vs ve = mval m \<and> drop ve b = mend m @ t"
proof -
  have t0: "t0 = quote # mkey m @ quote # mmid m @ colon # mpost m @ mval m @ mend m @ t"
    using assms(3) by (simp add: member_text_def)
  show i: "skipSpace b i = ?i" using assms(1,2) t0 by (intro skipSpace_ws) (auto simp: member_ok_def blank_def)
  have d: "drop ?i b = t0" using drop_append_len [OF assms(2)] .
  show "?i < length b" "b ! ?i = quote" using drop_Cons_iff [OF d [unfolded t0]] by auto
  define n where "n = ?i + 2 + length (mkey m)"
  have k: "scanString b ?i = Some (?i + 1, ?i + 1 + length (mkey m), n)"
    using scanString_body [OF _ d [unfolded t0]] assms(1) by (simp add: member_ok_def n_def)
  have dk: "drop (?i + 1) b = mkey m @ quote # mmid m @ colon # mpost m @ mval m @ mend m @ t"
    using drop_Cons_iff [OF d [unfolded t0]] by simp
  have sk: "slice b (?i + 1) (?i + 1 + length (mkey m)) = mkey m" by (rule slice_drop [OF dk])
  have dn: "drop n b = mmid m @ colon # mpost m @ mval m @ mend m @ t"
    using drop_Cons_iff [OF drop_append_len [OF dk]] by (simp add: n_def algebra_simps)
  define j where "j = n + length (mmid m)"
  have j: "skipSpace b n = j" "j < length b" "b ! j = colon" "drop (Suc j) b = mpost m @ mval m @ mend m @ t"
    using skipSpace_ws [OF _ dn] drop_Cons_iff [OF drop_append_len [OF dn]] assms(1)
    by (auto simp: member_ok_def j_def blank_def)
  define vs where "vs = Suc j + length (mpost m)"
  have v: "mval m \<noteq> []" "\<not> blank (hd (mval m))" using json_hd [of "mval m"] assms(1) by (auto simp: member_ok_def)
  have dv: "drop vs b = mval m @ mend m @ t" using drop_append_len [OF j(4)] by (simp add: vs_def)
  have vs: "skipSpace b (Suc j) = vs" using skipSpace_ws [OF _ j(4)] assms(1) v by (simp add: member_ok_def vs_def)
  have "stops (mend m @ t)" using assms(1,4) by (cases "mend m") (auto simp: stops_def member_ok_def ws_list_def)
  then have "skipValue b vs = Some (vs + length (mval m))" using assms(1) by (intro skipValue_json [OF _ dv]) (auto simp: member_ok_def)
  then show "\<exists>vs ve. scan_member b ?i = Some (mkey m, vs, ve) \<and> slice b vs ve = mval m \<and> drop ve b = mend m @ t"
    using k sk j(1-3) vs slice_drop [OF dv] drop_append_len [OF dv] by (auto simp: scan_member_def)
qed

lemma rest_stops: "stops (rest_text rbrace xs @ t)" "stops (rest_text rbracket xs @ t)"
  by (cases xs; simp add: stops_def)+

lemma fields_member:
  assumes "member_ok m" and "drop i b = member_text m @ rest_text rbrace xs @ t"
    and IH: "\<And>j s. drop j b = mend m @ rest_text rbrace xs @ t \<Longrightarrow> fields_loop fn b j s = visit fn ms s"
  shows "fields_loop fn b i s = visit fn (m # ms) s"
proof -
  let ?i = "i + length (mpre m)"
  obtain t0 where t0: "member_text m @ rest_text rbrace xs @ t = mpre m @ t0" by (simp add: member_text_def)
  note S = scan_member_text [OF assms(1) assms(2) [unfolded t0] t0 [symmetric] rest_stops(1)]
  obtain vs ve where v: "scan_member b ?i = Some (mkey m, vs, ve)" "slice b vs ve = mval m" "drop ve b = mend m @ rest_text rbrace xs @ t"
    using S(4) by blast
  show ?thesis
    using S(1,2,3) v IH [OF v(3)] by (subst fields_loop.simps) (auto simp: Let_def split: option.splits prod.splits bool.splits)
qed

lemma fields_rest:
  "\<forall>m\<in>set ms. member_ok m \<Longrightarrow> ws_list w \<Longrightarrow> drop i b = w @ rest_text rbrace (map member_text ms) @ t \<Longrightarrow>
   fields_loop fn b i s = visit fn ms s"
proof (induction ms arbitrary: w i s)
  case Nil
  have "skipSpace b i = i + length w" by (rule skipSpace_ws [OF Nil(2,3)]) (simp add: blank_def)
  moreover have "i + length w < length b" "b ! (i + length w) = rbrace"
    using drop_Cons_iff [of "i + length w" b rbrace t] drop_append_len [OF Nil(3)] by auto
  ultimately show ?case by (subst fields_loop.simps) (simp add: Let_def)
next
  case (Cons m ms)
  have "skipSpace b i = i + length w" by (rule skipSpace_ws [OF Cons.prems(2,3)]) (simp add: blank_def)
  moreover have d: "i + length w < length b" "b ! (i + length w) = comma"
      "drop (Suc (i + length w)) b = member_text m @ rest_text rbrace (map member_text ms) @ t"
    using drop_Cons_iff [of "i + length w" b comma] drop_append_len [OF Cons.prems(3)] by auto
  moreover have "fields_loop fn b (Suc (i + length w)) s = visit fn (m # ms) s"
    by (rule fields_member [OF _ d(3)]) (use Cons.prems(1) Cons.IH [of "mend m"] in \<open>auto simp: member_ok_def\<close>)
  ultimately show ?case by (subst fields_loop.simps) (simp add: Let_def)
qed

lemma elements_member:
  assumes "element_ok e" and "drop i b = element_text e @ rest_text rbracket xs @ t"
    and IH: "\<And>j s. drop j b = epost e @ rest_text rbracket xs @ t \<Longrightarrow> array_loop fn b j s = visit_elements fn es s"
  shows "array_loop fn b i s = visit_elements fn (e # es) s"
proof -
  let ?i = "i + length (epre e)"
  have v: "eval e \<noteq> []" "\<not> blank (hd (eval e))" "hd (eval e) \<noteq> comma" "hd (eval e) \<noteq> rbracket"
    using json_hd [of "eval e"] assms(1) by (auto simp: element_ok_def)
  have d0: "drop i b = epre e @ eval e @ epost e @ rest_text rbracket xs @ t" using assms(2) by (simp add: element_text_def)
  have i: "skipSpace b i = ?i" using skipSpace_ws [OF _ d0] v assms(1) by (simp add: element_ok_def)
  have d: "drop ?i b = eval e @ epost e @ rest_text rbracket xs @ t" using drop_append_len [OF d0] .
  then have h: "?i < length b" "b ! ?i = hd (eval e)"
    using drop_Cons_iff [of ?i b "hd (eval e)" "tl (eval e) @ epost e @ rest_text rbracket xs @ t"] v(1) by (cases "eval e"; simp)+
  have "stops (epost e @ rest_text rbracket xs @ t)"
    using assms(1) rest_stops(2) [of xs t] by (cases "epost e") (auto simp: stops_def element_ok_def ws_list_def)
  then have s: "skipValue b ?i = Some (?i + length (eval e))"
    using assms(1) by (intro skipValue_json [OF _ d]) (auto simp: element_ok_def)
  show ?thesis
    using i h v s slice_drop [OF d] IH [OF drop_append_len [OF d]]
    by (subst array_loop.simps) (auto simp: Let_def split: option.splits prod.splits bool.splits)
qed

lemma elements_rest:
  "\<forall>e\<in>set es. element_ok e \<Longrightarrow> ws_list w \<Longrightarrow> drop i b = w @ rest_text rbracket (map element_text es) @ t \<Longrightarrow>
   array_loop fn b i s = visit_elements fn es s"
proof (induction es arbitrary: w i s)
  case Nil
  have "skipSpace b i = i + length w" by (rule skipSpace_ws [OF Nil(2,3)]) (simp add: blank_def)
  moreover have "i + length w < length b" "b ! (i + length w) = rbracket"
    using drop_Cons_iff [of "i + length w" b rbracket t] drop_append_len [OF Nil(3)] by auto
  ultimately show ?case by (subst array_loop.simps) (simp add: Let_def)
next
  case (Cons e es)
  have "skipSpace b i = i + length w" by (rule skipSpace_ws [OF Cons.prems(2,3)]) (simp add: blank_def)
  moreover have d: "i + length w < length b" "b ! (i + length w) = comma"
      "drop (Suc (i + length w)) b = element_text e @ rest_text rbracket (map element_text es) @ t"
    using drop_Cons_iff [of "i + length w" b comma] drop_append_len [OF Cons.prems(3)] by auto
  moreover have "array_loop fn b (Suc (i + length w)) s = visit_elements fn (e # es) s"
    by (rule elements_member [OF _ d(3)]) (use Cons.prems(1) Cons.IH [of "epost e"] in \<open>auto simp: element_ok_def\<close>)
  ultimately show ?case by (subst array_loop.simps) (simp add: Let_def)
qed

text \<open>C37. On every well-formed object or array, whatever its blanks and nesting and whatever follows it, the
  scanner calls back on exactly its members or elements, in order, with the exact text of each value and
  each key unescaped, and stops where the callback says; a key with an invalid escape is an error.\<close>

theorem scan_wellformed:
  assumes "ws_list w0" and "ws_list w" and "\<forall>m\<in>set ms. member_ok m" and "\<forall>e\<in>set es. element_ok e"
  shows "Fields fn (w0 @ lbrace # items_text rbrace w (map member_text ms) @ t) s = visit fn ms s \<and>
    Array gn (w0 @ lbracket # items_text rbracket w (map element_text es) @ t) s' = visit_elements gn es s'"
proof (rule conjI)
  let ?b = "w0 @ lbrace # items_text rbrace w (map member_text ms) @ t"
  have "skipSpace ?b 0 = length w0" using skipSpace_ws [OF assms(1), of 0 ?b] by (simp add: blank_def)
  moreover have "fields_loop fn ?b (Suc (length w0)) s = visit fn ms s"
  proof (cases ms)
    case Nil
    then show ?thesis using fields_rest [of "[]" w "Suc (length w0)" ?b t] assms(2) by simp
  next
    case (Cons m ms')
    have d: "drop (Suc (length w0)) ?b = member_text m @ rest_text rbrace (map member_text ms') @ t" using Cons by simp
    have ok: "member_ok m" "\<forall>x\<in>set ms'. member_ok x" "ws_list (mend m)" using assms(3) Cons by (auto simp: member_ok_def)
    show ?thesis unfolding Cons(1) by (rule fields_member [OF ok(1) d [unfolded Cons]]) (rule fields_rest [OF ok(2,3)])
  qed
  ultimately show "Fields fn ?b s = visit fn ms s" by (simp add: Fields_def)
next
  let ?b = "w0 @ lbracket # items_text rbracket w (map element_text es) @ t"
  have "skipSpace ?b 0 = length w0" using skipSpace_ws [OF assms(1), of 0 ?b] by (simp add: blank_def)
  moreover have "array_loop gn ?b (Suc (length w0)) s' = visit_elements gn es s'"
  proof (cases es)
    case Nil
    then show ?thesis using elements_rest [of "[]" w "Suc (length w0)" ?b t] assms(2) by simp
  next
    case (Cons e es')
    have d: "drop (Suc (length w0)) ?b = element_text e @ rest_text rbracket (map element_text es') @ t" using Cons by simp
    have ok: "element_ok e" "\<forall>x\<in>set es'. element_ok x" "ws_list (epost e)" using assms(4) Cons by (auto simp: element_ok_def)
    show ?thesis unfolding Cons(1) by (rule elements_member [OF ok(1) d [unfolded Cons]]) (rule elements_rest [OF ok(2,3)])
  qed
  ultimately show "Array gn ?b s' = visit_elements gn es s'" by (simp add: Array_def)
qed

section \<open>Any input\<close>

definition collect :: "byte list \<Rightarrow> byte list list \<Rightarrow> bool \<times> byte list list" where
  "collect e es = (True, es @ [e])"

definition collect_values :: "byte list \<Rightarrow> byte list \<Rightarrow> byte list list \<Rightarrow> bool \<times> byte list list" where
  "collect_values k v es = (True, es @ [v])"

lemma array_loop_bounded:
  "array_loop collect v i acc = (err, es) \<Longrightarrow> \<exists>xs. es = acc @ xs \<and> (\<forall>e\<in>set xs. e \<noteq> []) \<and> length (concat xs) \<le> length v - i"
proof (induction "length v - i" arbitrary: i acc rule: less_induct)
  case less
  let ?i = "skipSpace v i"
  have le: "i \<le> ?i" using skipSpace_bounds [of i v] by simp
  show ?case
  proof (cases "?i < length v \<and> v ! ?i \<noteq> rbracket")
    case True
    show ?thesis
    proof (cases "v ! ?i = comma")
      case c: True
      have "array_loop collect v (?i + 1) acc = (err, es)"
        using less.prems True c by (subst (asm) array_loop.simps) (simp add: Let_def)
      from less.hyps [OF _ this] True le show ?thesis by fastforce
    next
      case c: False
      show ?thesis
      proof (cases "\<exists>ee. skipValue v ?i = Some ee \<and> ?i < ee")
        case True
        then obtain ee where ee: "skipValue v ?i = Some ee" "?i < ee" by blast
        have b: "ee \<le> length v" using skipValue_bounds [OF ee(1)] by simp
        have "array_loop collect v ee (acc @ [slice v ?i ee]) = (err, es)"
          using less.prems \<open>?i < length v \<and> v ! ?i \<noteq> rbracket\<close> c ee
          by (subst (asm) array_loop.simps) (simp add: Let_def collect_def)
        moreover have "length v - ee < length v - i" using ee(2) b le by linarith
        ultimately obtain xs where xs: "es = (acc @ [slice v ?i ee]) @ xs" "\<forall>e\<in>set xs. e \<noteq> []" "length (concat xs) \<le> length v - ee"
          using less.hyps by blast
        have l: "length (slice v ?i ee) = ee - ?i" using b by (simp add: slice_def)
        then have "slice v ?i ee \<noteq> []" using ee(2) by (metis diff_is_0_eq list.size(3) not_less)
        then show ?thesis using xs l le b ee(2) by (intro exI [of _ "slice v ?i ee # xs"]) auto
      next
        case False
        then have "es = acc"
          using less.prems \<open>?i < length v \<and> v ! ?i \<noteq> rbracket\<close> c
          by (subst (asm) array_loop.simps) (auto simp: Let_def not_less split: option.splits if_splits)
        then show ?thesis by simp
      qed
    qed
  next
    case False
    then have "es = acc" using less.prems by (subst (asm) array_loop.simps) (auto simp: Let_def split: if_splits)
    then show ?thesis by simp
  qed
qed

lemma fields_loop_bounded:
  "fields_loop collect_values b i acc = (err, es) \<Longrightarrow> \<exists>xs. es = acc @ xs \<and> length xs + length (concat xs) \<le> length b - i"
proof (induction "length b - i" arbitrary: i acc rule: less_induct)
  case less
  let ?i = "skipSpace b i"
  have le: "i \<le> ?i" using skipSpace_bounds [of i b] by simp
  consider "?i < length b" "b ! ?i = comma"
    | k vs ve key where "?i < length b" "b ! ?i \<noteq> rbrace" "b ! ?i = quote" "scan_member b ?i = Some (k, vs, ve)" "field_key k = Some key"
    | "es = acc"
    using less.prems by (subst (asm) fields_loop.simps) (auto simp: Let_def split: if_splits option.splits)
  then show ?case
  proof cases
    case 1
    then have "fields_loop collect_values b (?i + 1) acc = (err, es)"
      using less.prems by (subst (asm) fields_loop.simps) (simp add: Let_def)
    from less.hyps [OF _ this] 1 le show ?thesis by fastforce
  next
    case 2
    note B = scan_member_bounds [OF 2(4)]
    have "fields_loop collect_values b ve (acc @ [slice b vs ve]) = (err, es)"
      using less.prems 2 by (subst (asm) fields_loop.simps) (simp add: Let_def collect_values_def)
    moreover have "length b - ve < length b - i" using B le 2(1) by linarith
    ultimately obtain xs where xs: "es = (acc @ [slice b vs ve]) @ xs" "length xs + length (concat xs) \<le> length b - ve"
      using less.hyps by blast
    have "length (slice b vs ve) = ve - vs" using B by (auto simp: slice_def)
    then show ?thesis using xs B le by (intro exI [of _ "slice b vs ve # xs"]) auto
  next
    case 3
    then show ?thesis by simp
  qed
qed

text \<open>C38. On any input at all, malformed or hostile, the walks end, every element handed out is non-empty,
  and what is handed out fits in the input: no more callbacks than bytes, no more value bytes than bytes.\<close>

theorem scan_bounded:
  "(\<exists>err es. Array collect v [] = (err, es) \<and> [] \<notin> set es \<and> length (concat es) \<le> length v \<and> length es \<le> length v) \<and>
   (\<exists>err es. Fields collect_values v [] = (err, es) \<and> length es + length (concat es) \<le> length v)"
proof (rule conjI)
  obtain err es where a: "Array collect v [] = (err, es)" by fastforce
  then have "(\<forall>e\<in>set es. e \<noteq> []) \<and> length (concat es) \<le> length v"
    using array_loop_bounded [of v "skipSpace v 0 + 1" "[]" err es] by (fastforce simp: Array_def Let_def split: if_splits)
  moreover have "length xs \<le> length (concat xs)" if "\<forall>e\<in>set xs. e \<noteq> []" for xs :: "byte list list"
    using that
  proof (induction xs)
    case (Cons x xs)
    then show ?case by (cases x) auto
  qed simp
  ultimately show "\<exists>err es. Array collect v [] = (err, es) \<and> [] \<notin> set es \<and> length (concat es) \<le> length v \<and> length es \<le> length v"
    using a le_trans by blast
next
  obtain err es where f: "Fields collect_values v [] = (err, es)" by fastforce
  then have "length es + length (concat es) \<le> length v"
    using fields_loop_bounded [of v "skipSpace v 0 + 1" "[]" err es] by (fastforce simp: Fields_def Let_def split: if_splits)
  then show "\<exists>err es. Fields collect_values v [] = (err, es) \<and> length es + length (concat es) \<le> length v" using f by blast
qed

section \<open>Spellings\<close>

definition hex_name :: "nat \<Rightarrow> byte \<Rightarrow> bool" where
  "hex_name v c \<longleftrightarrow> v < 16 \<and> (if v < 10 then c = of_nat (48 + v) else c = of_nat (87 + v) \<or> c = of_nat (55 + v))"

definition hex_names :: "nat \<Rightarrow> byte list \<Rightarrow> bool" where
  "hex_names v ds \<longleftrightarrow> (\<exists>d3 d2 d1 d0. ds = [d3, d2, d1, d0] \<and> v < 65536 \<and> hex_name (v div 4096) d3 \<and>
     hex_name (v div 256 mod 16) d2 \<and> hex_name (v div 16 mod 16) d1 \<and> hex_name (v mod 16) d0)"

text \<open>The ways a JSON text may write an ASCII character of a key.\<close>

definition spells :: "byte \<Rightarrow> byte list \<Rightarrow> bool" where
  "spells c p \<longleftrightarrow> p = [c] \<and> c \<noteq> backslash \<and> c \<noteq> quote \<or>
     (\<exists>e. p = [backslash, e] \<and> (c, e) \<in> {(10, 110), (9, 116), (13, 114), (8, 98), (12, 102), (47, 47), (34, 34), (92, 92)}) \<or>
     (\<exists>ds. p = backslash # 117 # ds \<and> hex_names (unat c) ds \<and> c < 128)"

lemma hex_digit_name: "hex_name v c \<Longrightarrow> hex_digit c = Some (of_nat v)"
proof -
  assume h: "hex_name v c"
  then have "v < 16" by (simp add: hex_name_def)
  then have "v \<in> {0, 1, 2, 3, 4, 5, 6, 7, 8, 9, 10, 11, 12, 13, 14, 15}" unfolding insert_iff empty_iff by presburger
  then show ?thesis using h by (elim insertE emptyE) (auto simp: hex_name_def hex_digit_def word_le_nat_alt unat_word_ariths)
qed

lemma or_digit: "v < 16 \<Longrightarrow> push_bit 4 (of_nat u) OR of_nat v = (of_nat (16 * u + v) :: 32 word)"
proof -
  assume "v < 16"
  then have "take_bit 4 v = v" by (simp add: take_bit_nat_eq_self_iff)
  then have t: "(of_nat v :: 32 word) = take_bit 4 (of_nat v)" by (metis of_nat_take_bit)
  have "push_bit 4 (of_nat u) AND take_bit 4 (of_nat v) = (0 :: 32 word)"
    by (rule bit_eqI) (auto simp: bit_simps)
  then have "push_bit 4 (of_nat u) OR of_nat v = push_bit 4 (of_nat u) + (of_nat v :: 32 word)"
    using t by (metis disjunctive_add_eq_or)
  then show ?thesis by (simp add: push_bit_eq_mult)
qed

lemma hex_loop_name:
  assumes "hex_name v c"
  shows "hex_loop (Suc k) (c # cs) (of_nat u) = hex_loop k cs (of_nat (16 * u + v))"
proof -
  have "v < 16" using assms by (simp add: hex_name_def)
  from or_digit [OF this, of u] show ?thesis using hex_digit_name [OF assms] by simp
qed

lemma hex4_names: "hex_names v ds \<Longrightarrow> hex4 ds = Some (of_nat v)"
proof -
  assume "hex_names v ds"
  then obtain d3 d2 d1 d0 where d: "ds = [d3, d2, d1, d0]" "hex_name (v div 4096) d3" "hex_name (v div 256 mod 16) d2"
    "hex_name (v div 16 mod 16) d1" "hex_name (v mod 16) d0" unfolding hex_names_def by blast
  have e: "16 * (16 * (16 * (16 * 0 + v div 4096) + v div 256 mod 16) + v div 16 mod 16) + v mod 16 = v"
  proof -
    have "v div 4096 = v div 256 div 16" "v div 256 = v div 16 div 16" by (simp_all flip: div_mult2_eq)
    then have "16 * (v div 4096) + v div 256 mod 16 = v div 256" "16 * (v div 256) + v div 16 mod 16 = v div 16"
      using mult_div_mod_eq by metis+
    then show ?thesis using mult_div_mod_eq [of 16 v] by simp
  qed
  have "hex_loop (Suc (Suc (Suc (Suc 0)))) ds (of_nat 0) =
      hex_loop 0 [] (of_nat (16 * (16 * (16 * (16 * 0 + v div 4096) + v div 256 mod 16) + v div 16 mod 16) + v mod 16))"
    unfolding d(1) by (simp only: d(2-5) [THEN hex_loop_name])
  then have h: "hex_loop (Suc (Suc (Suc (Suc 0)))) ds 0 = Some (of_nat v)" unfolding e hex_loop.simps(1) by (simp only: semiring_1_class.of_nat_0)
  have four: "(4 :: nat) = Suc (Suc (Suc (Suc 0)))" by simp
  have "hex4 ds = hex_loop 4 ds 0" by (simp add: hex4_def d(1) del: hex_loop.simps)
  then show ?thesis unfolding four h .
qed

lemma hex_names_length: "hex_names v ds \<Longrightarrow> length ds = 4"
  unfolding hex_names_def by (elim exE conjE) simp

lemma ascii_small: "y < 128 \<Longrightarrow> \<not> 0xD800 \<le> y \<and> \<not> 0xDC00 \<le> y \<and> (y :: 32 word) \<le> 0x7F"
  by (simp add: word_less_nat_alt word_le_nat_alt)

lemma decode_small:
  assumes "hex4 ds = Some y" and "length ds = 4" and "y < 128"
  shows "decodeUnicodeEscape (ds @ t) = Some (y, 4)"
proof -
  have "take 4 (ds @ t) = ds" using assms(2) by simp
  then show ?thesis unfolding decodeUnicodeEscape_def using assms(1,2) ascii_small [OF assms(3)] by simp
qed

lemma rune_small: "y < 128 \<Longrightarrow> rune_bytes y = [ucast y]"
  using ascii_small [of y] by (simp add: rune_bytes_def)

lemma small_of_nat: "n < 128 \<Longrightarrow> (of_nat n :: 32 word) < 128"
  by (simp add: word_less_nat_alt unat_of_nat)

lemma decode_ascii:
  assumes "hex_names (unat c) ds" and "c < 128"
  shows "\<exists>y. decodeUnicodeEscape (ds @ t) = Some (y, 4) \<and> rune_bytes y = [c]"
proof -
  have y: "(of_nat (unat c) :: 32 word) < 128" by (rule small_of_nat) (use assms(2) in \<open>simp add: word_less_nat_alt\<close>)
  have u: "ucast (of_nat (unat c) :: 32 word) = c"
    unfolding of_nat_unat by (rule bit_word_eqI) (simp add: bit_simps)
  show ?thesis
    by (intro exI conjI, rule decode_small [OF hex4_names [OF assms(1)] hex_names_length [OF assms(1)] y])
      (simp only: rune_small [OF y] u)
qed

lemma unescape_spelling:
  assumes "spells c p"
  shows "unescape_loop (p @ t) out = unescape_loop t (out @ [c])"
  using assms unfolding spells_def
proof (elim disjE exE conjE)
  fix ds assume p: "p = backslash # 117 # ds" and "hex_names (unat c) ds" "c < 128"
  then obtain y where "decodeUnicodeEscape (ds @ t) = Some (y, 4)" "rune_bytes y = [c]" using decode_ascii by blast
  then show ?thesis using hex_names_length \<open>hex_names (unat c) ds\<close> p by simp
qed (auto simp: short_escape_def)

lemma unescape_spellings:
  "list_all2 spells cs ps \<Longrightarrow> unescape_loop (concat ps @ t) out = unescape_loop t (out @ cs)"
  by (induction arbitrary: out rule: list_all2_induct) (simp_all add: unescape_spelling)

lemma str_body_append: "str_body s \<Longrightarrow> str_body t \<Longrightarrow> str_body (s @ t)"
  by (induction rule: str_body.induct) (auto intro: str_body.intros)

lemma str_body_plain: "(\<forall>c\<in>set s. c \<noteq> quote \<and> c \<noteq> backslash) \<Longrightarrow> str_body s"
  by (induction s) (auto intro: str_body.intros)

lemma hex_name_plain: "hex_name v c \<Longrightarrow> c \<noteq> quote \<and> c \<noteq> backslash"
  using hex_digit_name [of v c] by (auto simp: hex_digit_def)

lemma spells_body: "spells c p \<Longrightarrow> str_body p"
  unfolding spells_def
proof (elim disjE exE conjE)
  fix ds assume p: "p = backslash # 117 # ds" and h: "hex_names (unat c) ds"
  have "\<forall>c\<in>set ds. c \<noteq> quote \<and> c \<noteq> backslash" using h hex_name_plain unfolding hex_names_def by (elim exE conjE) simp
  then show "str_body p" using p by (simp add: str_escape str_body_plain)
qed (auto intro: str_body.intros)

lemma spellings_body: "list_all2 spells cs ps \<Longrightarrow> str_body (concat ps)"
  by (induction rule: list_all2_induct) (auto intro: str_nil str_body_append spells_body)

lemma no_escape: "list_all2 spells cs ps \<Longrightarrow> backslash \<notin> set (concat ps) \<Longrightarrow> concat ps = cs"
  by (induction rule: list_all2_induct) (auto simp: spells_def)

text \<open>No spelling hides a key: however a JSON text writes an ASCII string, each character plain, by its short
  escape or as \<^verbatim>\<open>\uXXXX\<close> in either case, the scanner takes it as one string body and the callback and
  \<^verbatim>\<open>String\<close> see the string itself.\<close>

theorem spellings_decoded:
  assumes "list_all2 spells cs ps"
  shows "str_body (concat ps) \<and> field_key (concat ps) = Some cs \<and> String (quote # concat ps @ [quote]) = Some cs"
proof -
  have u: "unescape (concat ps) = Some cs" using unescape_spellings [OF assms, of "[]" "[]"] by (simp add: unescape_def)
  moreover have "butlast (concat ps @ [quote]) = concat ps" by simp
  ultimately show ?thesis
    using spellings_body [OF assms] no_escape [OF assms] by (auto simp: field_key_def String_def Let_def)
qed

text \<open>A non-negative decimal that fits is read exactly; one that does not is read modulo 2^64.\<close>

fun decimal :: "byte list \<Rightarrow> nat \<Rightarrow> nat" where
  "decimal [] n = n"
| "decimal (c # cs) n = decimal cs (10 * n + (unat c - 48))"

theorem Int_reads_decimal:
  "Int_span sp = (if sp \<noteq> [] \<and> list_all (\<lambda>c. 48 \<le> c \<and> c \<le> 57) sp then Some (of_nat (decimal sp 0)) else None)"
proof -
  have step: "(of_nat n :: 64 word) * 10 + ucast (c - 48) = of_nat (10 * n + (unat c - 48))" if "48 \<le> c" for n and c :: byte
  proof -
    have "unat (c - 48) = unat c - 48" using that by (simp add: unat_sub)
    then have "(ucast (c - 48) :: 64 word) = of_nat (unat c - 48)" by (metis of_nat_unat)
    then show ?thesis by simp
  qed
  have "int_loop xs (of_nat n) = (if list_all (\<lambda>c. 48 \<le> c \<and> c \<le> 57) xs then Some (of_nat (decimal xs n)) else None)" for xs n
  proof (induction xs arbitrary: n)
    case (Cons c xs)
    show ?case
    proof (cases "48 \<le> c \<and> c \<le> 57")
      case True
      then have "\<not> (c < 48 \<or> c > 57)" by (simp add: not_less)
      then show ?thesis using Cons [of "10 * n + (unat c - 48)"] step [of c n] True unfolding int_loop.simps(2) by (simp add: mult.commute)
    next
      case False
      then have "c < 48 \<or> c > 57" by (simp add: not_le)
      then show ?thesis using False by auto
    qed
  qed simp
  from this [of sp 0] show ?thesis by (simp add: Int_span_def)
qed

section \<open>Witnesses\<close>

text \<open>The body \<^verbatim>\<open>{"a": 1} x\<close>.\<close>

theorem scan_wellformed_witness:
  "Fields (\<lambda>k v s. (True, s @ [(k, v)])) [lbrace, quote, 97, quote, colon, 32, 49, rbrace, 32, 120] [] = (None, [([97], [49])])"
proof -
  let ?m = "\<lparr>mpre = [], mkey = [97], mmid = [], mpost = [32], mval = [49], mend = []\<rparr>"
  have "json [49]" by (rule json.scalar) (simp add: scalar_text_def structural_def blank_def)
  then have "\<forall>m\<in>set [?m]. member_ok m"
    by (simp add: member_ok_def ws_list_def blank_def str_body_plain)
  then have "Fields (\<lambda>k v s. (True, s @ [(k, v)])) ([] @ lbrace # items_text rbrace [] (map member_text [?m]) @ [32, 120]) [] =
      visit (\<lambda>k v s. (True, s @ [(k, v)])) [?m] ([] :: (byte list \<times> byte list) list)"
    by (rule scan_wellformed [THEN conjunct1, of _ _ _ "[]", rotated 2]) (simp_all add: ws_list_def)
  then show ?thesis by (simp add: member_text_def field_key_def)
qed

text \<open>The key \<^verbatim>\<open>ab\<close> written \<^verbatim>\<open>\u0061b\<close>.\<close>

theorem spellings_decoded_witness: "field_key [backslash, 117, 48, 48, 54, 49, 98] = Some [97, 98]"
proof -
  have "hex_names (unat (97 :: byte)) [48, 48, 54, 49]" by (simp add: hex_names_def hex_name_def)
  then have "list_all2 spells [97, 98] [[backslash, 117, 48, 48, 54, 49], [98]]" by (simp add: spells_def)
  from spellings_decoded [OF this] show ?thesis by simp
qed

end
