(* ===== verification/KvTrie.thy ===== *)
theory KvTrie
  imports KvUnits Float64
begin

text \<open>
  \<^verbatim>\<open>kvcache/kvcache.go\<close>, the model of one cache: a prefix trie bounded in nodes and tokens, whose unpinned
  leaves form an intrusive least-recently-used list. A \<^verbatim>\<open>*node\<close> is an address, allocated in increasing order,
  the root is address 0, and every field of \<^verbatim>\<open>node\<close> is a function of the address, so that shared and
  detached nodes behave as in the code. What runs under the lock is one function.
\<close>

section \<open>The state\<close>

record kv_config =
  MaxNodes :: int
  MaxTokens :: int
  EvictBudget :: int

definition Bounded :: "kv_config \<Rightarrow> bool" where
  "Bounded c \<longleftrightarrow> MaxNodes c > 0 \<or> MaxTokens c > 0"

definition RouterConfig :: kv_config where
  "RouterConfig = \<lparr>MaxNodes = 100000, MaxTokens = 2000000, EvictBudget = 64\<rparr>"

record trie =
  tcfg :: kv_config
  alloc :: nat
  keyOf :: "nat \<Rightarrow> u64"
  tokOf :: "nat \<Rightarrow> int"
  parentOf :: "nat \<Rightarrow> nat option"
  kidsOf :: "nat \<Rightarrow> nat list"
  prevOf :: "nat \<Rightarrow> nat option"
  nextOf :: "nat \<Rightarrow> nat option"
  inLRU :: "nat \<Rightarrow> bool"
  pinsOf :: "nat \<Rightarrow> int"
  lhead :: "nat option"
  ltail :: "nat option"
  nnodes :: int
  ntokens :: int
  anomalies :: int
  pinnedNodes :: int
  obsCached :: int
  obsTotal :: int

definition Trie_New :: "kv_config \<Rightarrow> trie" where
  "Trie_New c =
     \<lparr>tcfg = (if Bounded c \<and> EvictBudget c \<le> 0 then c\<lparr>EvictBudget := 64\<rparr> else c), alloc = 1,
      keyOf = (\<lambda>_. 0), tokOf = (\<lambda>_. 0), parentOf = (\<lambda>_. None), kidsOf = (\<lambda>_. []), prevOf = (\<lambda>_. None),
      nextOf = (\<lambda>_. None), inLRU = (\<lambda>_. False), pinsOf = (\<lambda>_. 0), lhead = None, ltail = None, nnodes = 0,
      ntokens = 0, anomalies = 0, pinnedNodes = 0, obsCached = 0, obsTotal = 0\<rparr>"

abbreviation kid_key :: "trie \<Rightarrow> nat \<Rightarrow> u64 option" where
  "kid_key t a \<equiv> Some (keyOf t a)"

definition node_find :: "trie \<Rightarrow> nat \<Rightarrow> u64 \<Rightarrow> nat option" where
  "node_find t n k = lookup_kid (kid_key t) (kidsOf t n) k"

definition addKid :: "nat \<Rightarrow> nat \<Rightarrow> trie \<Rightarrow> trie" where
  "addKid n c t = t\<lparr>kidsOf := (kidsOf t)(n := link_kid (kid_key t) c (keyOf t c) (kidsOf t n))\<rparr>"

fun remove_key :: "(nat \<Rightarrow> u64) \<Rightarrow> u64 \<Rightarrow> nat list \<Rightarrow> nat list" where
  "remove_key ky k [] = []"
| "remove_key ky k (c # cs) = (if ky c = k then cs else c # remove_key ky k cs)"

definition removeKid :: "nat \<Rightarrow> u64 \<Rightarrow> trie \<Rightarrow> trie" where
  "removeKid n k t = t\<lparr>kidsOf := (kidsOf t)(n := remove_key (keyOf t) k (kidsOf t n))\<rparr>"

section \<open>The recency list\<close>

definition lruPushFront :: "nat \<Rightarrow> trie \<Rightarrow> trie" where
  "lruPushFront n t =
     (let t1 = t\<lparr>inLRU := (inLRU t)(n := True), prevOf := (prevOf t)(n := None), nextOf := (nextOf t)(n := lhead t)\<rparr>;
          t2 = (case lhead t of None \<Rightarrow> t1 | Some h \<Rightarrow> t1\<lparr>prevOf := (prevOf t1)(h := Some n)\<rparr>)
      in t2\<lparr>lhead := Some n, ltail := (if ltail t = None then Some n else ltail t)\<rparr>)"

definition lruPushBack :: "nat \<Rightarrow> trie \<Rightarrow> trie" where
  "lruPushBack n t =
     (let t1 = t\<lparr>inLRU := (inLRU t)(n := True), nextOf := (nextOf t)(n := None), prevOf := (prevOf t)(n := ltail t)\<rparr>;
          t2 = (case ltail t of None \<Rightarrow> t1 | Some l \<Rightarrow> t1\<lparr>nextOf := (nextOf t1)(l := Some n)\<rparr>)
      in t2\<lparr>ltail := Some n, lhead := (if lhead t = None then Some n else lhead t)\<rparr>)"

definition unlink_prev :: "nat \<Rightarrow> trie \<Rightarrow> trie" where
  "unlink_prev n t =
     (case prevOf t n of Some p \<Rightarrow> t\<lparr>nextOf := (nextOf t)(p := nextOf t n)\<rparr> | None \<Rightarrow> t\<lparr>lhead := nextOf t n\<rparr>)"

definition unlink_next :: "nat \<Rightarrow> trie \<Rightarrow> trie" where
  "unlink_next n t =
     (case nextOf t n of Some x \<Rightarrow> t\<lparr>prevOf := (prevOf t)(x := prevOf t n)\<rparr> | None \<Rightarrow> t\<lparr>ltail := prevOf t n\<rparr>)"

definition lruRemove :: "nat \<Rightarrow> trie \<Rightarrow> trie" where
  "lruRemove n t =
     (if \<not> inLRU t n then t
      else (let t2 = unlink_next n (unlink_prev n t)
            in t2\<lparr>prevOf := (prevOf t2)(n := None), nextOf := (nextOf t2)(n := None), inLRU := (inLRU t2)(n := False)\<rparr>))"

definition lruMoveToFront :: "nat \<Rightarrow> trie \<Rightarrow> trie" where
  "lruMoveToFront n t = (if lhead t = Some n then t else lruPushFront n (lruRemove n t))"

section \<open>Eviction\<close>

definition overBudget :: "trie \<Rightarrow> bool" where
  "overBudget t \<longleftrightarrow> MaxNodes (tcfg t) > 0 \<and> nnodes t > MaxNodes (tcfg t) \<or> MaxTokens (tcfg t) > 0 \<and> ntokens t > MaxTokens (tcfg t)"

text \<open>The body of the loop for the victim \<open>v\<close> with parent \<open>p\<close>.\<close>

definition evict_node :: "nat \<Rightarrow> nat \<Rightarrow> trie \<Rightarrow> trie" where
  "evict_node v p t =
     (let t1 = lruRemove v (removeKid p (keyOf t v) t);
          t2 = t1\<lparr>nnodes := nnodes t1 - 1, ntokens := ntokens t1 - tokOf t1 v\<rparr>
      in if p \<noteq> 0 \<and> kidsOf t2 p = [] \<and> pinsOf t2 p = 0 then lruPushBack p t2 else t2)"

text \<open>A victim without parent would be a nil dereference; only the root has none and it is never listed.\<close>

fun evictLocked :: "nat \<Rightarrow> trie \<Rightarrow> trie" where
  "evictLocked 0 t = t"
| "evictLocked (Suc budget) t =
     (if \<not> overBudget t then t
      else
        (case ltail t of None \<Rightarrow> t
         | Some v \<Rightarrow>
             (if kidsOf t v \<noteq> [] then t\<lparr>anomalies := anomalies t + 1\<rparr>
              else (case parentOf t v of None \<Rightarrow> t | Some p \<Rightarrow> evictLocked budget (evict_node v p t)))))"

section \<open>Recording\<close>

text \<open>The address reached, the units left and the tokens credited.\<close>

fun descend :: "trie \<Rightarrow> nat \<Rightarrow> kvunit list \<Rightarrow> int \<Rightarrow> nat \<times> kvunit list \<times> int" where
  "descend t n [] cached = (n, [], cached)"
| "descend t n (u # us) cached =
     (case node_find t n (uHash u) of None \<Rightarrow> (n, u # us, cached)
      | Some c \<Rightarrow> descend t c us (cached + uTokens u))"

definition unit_tokens :: "kvunit list \<Rightarrow> int" where
  "unit_tokens us = (\<Sum>u\<leftarrow>us. uTokens u)"

definition Query :: "trie \<Rightarrow> kvunit list \<Rightarrow> int \<times> int" where
  "Query t us = (if us = [] then (0, 0) else (case descend t 0 us 0 of (n, rest, cached) \<Rightarrow> (cached, unit_tokens us)))"

definition insertLocked :: "nat \<Rightarrow> kvunit \<Rightarrow> trie \<Rightarrow> nat \<times> trie" where
  "insertLocked p u t =
     (let t1 = (if p \<noteq> 0 \<and> inLRU t p then lruRemove p t else t);
          c = alloc t1;
          t2 = t1\<lparr>alloc := c + 1, keyOf := (keyOf t1)(c := uHash u), tokOf := (tokOf t1)(c := uTokens u),
                  parentOf := (parentOf t1)(c := Some p), kidsOf := (kidsOf t1)(c := []), prevOf := (prevOf t1)(c := None),
                  nextOf := (nextOf t1)(c := None), inLRU := (inLRU t1)(c := False), pinsOf := (pinsOf t1)(c := 0)\<rparr>;
          t3 = lruPushFront c (addKid p c t2)
      in (c, t3\<lparr>nnodes := nnodes t3 + 1, ntokens := ntokens t3 + uTokens u\<rparr>))"

fun insert_units :: "nat \<Rightarrow> kvunit list \<Rightarrow> trie \<Rightarrow> nat \<times> trie" where
  "insert_units n [] t = (n, t)"
| "insert_units n (u # us) t = (case insertLocked n u t of (c, t1) \<Rightarrow> insert_units c us t1)"

definition insertFrom :: "nat \<Rightarrow> kvunit list \<Rightarrow> trie \<Rightarrow> nat \<times> trie" where
  "insertFrom n us t =
     (case insert_units n us t of
        (leaf, t1) \<Rightarrow>
          (leaf, if Bounded (tcfg t1) then evictLocked (nat (int (length us) + EvictBudget (tcfg t1))) t1 else t1))"

definition commitLocked :: "kvunit list \<Rightarrow> trie \<Rightarrow> trie" where
  "commitLocked us t =
     (case descend t 0 us 0 of
        (n, rest, _) \<Rightarrow> snd (insertFrom n rest (if n \<noteq> 0 \<and> inLRU t n then lruMoveToFront n t else t)))"

definition Trie_Commit :: "kvunit list \<Rightarrow> trie \<Rightarrow> trie" where
  "Trie_Commit us t = (if us = [] then t else commitLocked us t)"

definition RecordAndCount :: "kvunit list \<Rightarrow> trie \<Rightarrow> (int \<times> int) \<times> trie" where
  "RecordAndCount us t =
     (if us = [] then ((0, 0), t)
      else (case descend t 0 us 0 of (n, rest, cached) \<Rightarrow> ((cached, unit_tokens us), snd (insertFrom n rest t))))"

section \<open>Pins\<close>

text \<open>The walks follow parent pointers up to the root. A parent is allocated before its child, so the fuel,
  one more than the address of the leaf, covers every step.\<close>

definition pin_node :: "nat \<Rightarrow> trie \<Rightarrow> trie" where
  "pin_node n t =
     (let t1 = (if pinsOf t n = 0
                then (let t0 = (if inLRU t n then lruRemove n t else t) in t0\<lparr>pinnedNodes := pinnedNodes t0 + 1\<rparr>)
                else t)
      in t1\<lparr>pinsOf := (pinsOf t1)(n := pinsOf t1 n + 1)\<rparr>)"

definition unpin_node :: "nat \<Rightarrow> trie \<Rightarrow> trie" where
  "unpin_node n t =
     (if pinsOf t n = 0 then t
      else
        (let t1 = t\<lparr>pinsOf := (pinsOf t)(n := pinsOf t n - 1)\<rparr> in
         if pinsOf t1 n = 0
         then (let t2 = t1\<lparr>pinnedNodes := pinnedNodes t1 - 1\<rparr> in if kidsOf t2 n = [] then lruPushFront n t2 else t2)
         else t1))"

fun up_chain :: "(nat \<Rightarrow> trie \<Rightarrow> trie) \<Rightarrow> nat \<Rightarrow> nat option \<Rightarrow> trie \<Rightarrow> trie" where
  "up_chain f 0 n t = t"
| "up_chain f (Suc k) None t = t"
| "up_chain f (Suc k) (Some n) t = (if n = 0 then t else (let t1 = f n t in up_chain f k (parentOf t1 n) t1))"

definition pinChain :: "nat \<Rightarrow> trie \<Rightarrow> trie" where
  "pinChain leaf t = up_chain pin_node (leaf + 1) (Some leaf) t"

definition unpinChain :: "nat \<Rightarrow> trie \<Rightarrow> trie" where
  "unpinChain leaf t = up_chain unpin_node (leaf + 1) (Some leaf) t"

text \<open>A \<^verbatim>\<open>Pin\<close> is its leaf, \<open>None\<close> for the empty request.\<close>

definition RecordAndPin :: "kvunit list \<Rightarrow> trie \<Rightarrow> (int \<times> int \<times> nat option) \<times> trie" where
  "RecordAndPin us t =
     (if us = [] then ((0, 0, None), t)
      else
        (case descend t 0 us 0 of
           (n, rest, cached) \<Rightarrow>
             (case insertFrom n rest t of (leaf, t1) \<Rightarrow> ((cached, unit_tokens us, Some leaf), pinChain leaf t1))))"

definition Unpin :: "nat option \<Rightarrow> trie \<Rightarrow> trie" where
  "Unpin p t =
     (case p of None \<Rightarrow> t
      | Some leaf \<Rightarrow>
          (let t1 = unpinChain leaf t in if Bounded (tcfg t1) then evictLocked (nat (EvictBudget (tcfg t1))) t1 else t1))"

section \<open>Reading and resetting\<close>

record chain =
  Hashes :: "u64 list"
  Tokens :: "int list"

text \<open>The depth of the walk is below \<open>alloc\<close>, which is the fuel.\<close>

fun chains_walk :: "nat \<Rightarrow> trie \<Rightarrow> int \<Rightarrow> nat \<Rightarrow> u64 list \<Rightarrow> int list \<Rightarrow> chain list \<times> int \<Rightarrow> chain list \<times> int" where
  "chains_walk 0 t limit n hs ts acc = acc"
| "chains_walk (Suc f) t limit n hs ts acc =
     (if kidsOf t n = [] then
        (if n = 0 then acc
         else (if limit \<le> 0 \<or> int (length (fst acc)) < limit then fst acc @ [\<lparr>Hashes = hs, Tokens = ts\<rparr>] else fst acc,
               snd acc + 1))
      else fold (\<lambda>c. chains_walk f t limit c (hs @ [keyOf t c]) (ts @ [tokOf t c])) (kidsOf t n) acc)"

definition Chains :: "trie \<Rightarrow> int \<Rightarrow> chain list \<times> int" where
  "Chains t limit = chains_walk (alloc t) t limit 0 [] [] ([], 0)"

definition Trie_Observe :: "int \<Rightarrow> int \<Rightarrow> trie \<Rightarrow> trie" where
  "Trie_Observe cached tot0 t =
     (if tot0 \<le> 0 then t else t\<lparr>obsCached := obsCached t + cached, obsTotal := obsTotal t + tot0\<rparr>)"

definition Ratio :: "trie \<Rightarrow> rat" where
  "Ratio t = (if obsTotal t \<le> 0 then 0 else fdiv (f64 (obsCached t)) (f64 (obsTotal t)))"

definition Reset :: "trie \<Rightarrow> trie" where
  "Reset t = t\<lparr>keyOf := (keyOf t)(0 := 0), tokOf := (tokOf t)(0 := 0), parentOf := (parentOf t)(0 := None),
     kidsOf := (kidsOf t)(0 := []), prevOf := (prevOf t)(0 := None), nextOf := (nextOf t)(0 := None),
     inLRU := (inLRU t)(0 := False), pinsOf := (pinsOf t)(0 := 0), lhead := None, ltail := None, nnodes := 0, ntokens := 0\<rparr>"

definition Stats :: "trie \<Rightarrow> int \<times> int \<times> int" where
  "Stats t = (nnodes t, ntokens t, anomalies t)"

definition Nodes :: "trie \<Rightarrow> int" where
  "Nodes t = fst (Stats t)"

definition PinnedNodes :: "trie \<Rightarrow> int" where
  "PinnedNodes t = pinnedNodes t"

section \<open>The estimator\<close>

record estimator =
  etrie :: trie
  chunkBytes :: int

definition NewEstimator :: "int \<Rightarrow> kv_config \<Rightarrow> estimator" where
  "NewEstimator chunk c = \<lparr>etrie = Trie_New c, chunkBytes = (if chunk \<le> 0 then DefaultChunkBytes else chunk)\<rparr>"

text \<open>The bytes of the tag \<^verbatim>\<open>"chunk"\<close>.\<close>

definition chunk_tag :: "byte list" where
  "chunk_tag = [99, 104, 117, 110, 107]"

definition Est_Observe :: "(byte list \<Rightarrow> u64) \<Rightarrow> byte list \<Rightarrow> estimator \<Rightarrow> rat \<times> estimator" where
  "Est_Observe sha content e =
     (case RecordAndCount (ChunkContent sha chunk_tag content (chunkBytes e)) (etrie e) of
        ((cached, tot0), t) \<Rightarrow>
          (if tot0 \<le> 0 then 0 else fdiv (f64 cached) (f64 tot0), e\<lparr>etrie := Trie_Observe cached tot0 t\<rparr>))"

definition Est_Insert :: "(byte list \<Rightarrow> u64) \<Rightarrow> byte list \<Rightarrow> estimator \<Rightarrow> estimator" where
  "Est_Insert sha content e =
     e\<lparr>etrie := snd (RecordAndCount (ChunkContent sha chunk_tag content (chunkBytes e)) (etrie e))\<rparr>"

end
