(* ===== verification/KvLru.thy ===== *)
theory KvLru
  imports KvTrie
begin

text \<open>
  The intrusive list of \<^verbatim>\<open>kvcache/kvcache.go\<close> represents a list of addresses: \<open>dll t L\<close> says that the links,
  the head and the tail of \<open>t\<close> spell \<open>L\<close>. The four operations on it implement insertion at either end and
  removal; the trie relies on that contract only, the locale \<open>recency\<close>.
\<close>

section \<open>Segments\<close>

definition first_or :: "nat option \<Rightarrow> nat list \<Rightarrow> nat option" where
  "first_or e L = (case L of [] \<Rightarrow> e | x # _ \<Rightarrow> Some x)"

definition last_or :: "nat option \<Rightarrow> nat list \<Rightarrow> nat option" where
  "last_or b L = (if L = [] then b else Some (last L))"

lemma first_or_simps [simp]: "first_or e [] = e" "first_or e (x # L) = Some x"
  by (simp_all add: first_or_def)

lemma last_or_simps [simp]: "last_or b [] = b" "last_or b (x # L) = last_or (Some x) L" "last_or b (L @ [x]) = Some x"
  by (simp_all add: last_or_def)

text \<open>The links of \<open>L\<close> between a predecessor \<open>b\<close> of its first and a successor \<open>e\<close> of its last element.\<close>

fun seg :: "(nat \<Rightarrow> nat option) \<Rightarrow> (nat \<Rightarrow> nat option) \<Rightarrow> nat option \<Rightarrow> nat list \<Rightarrow> nat option \<Rightarrow> bool" where
  "seg p n b [] e \<longleftrightarrow> True"
| "seg p n b (x # L) e \<longleftrightarrow> p x = b \<and> n x = first_or e L \<and> seg p n (Some x) L e"

lemma seg_append: "seg p n b (L @ M) e \<longleftrightarrow> seg p n b L (first_or e M) \<and> seg p n (last_or b L) M e"
proof (induction L arbitrary: b)
  case (Cons x L)
  have "first_or e (L @ M) = first_or (first_or e M) L" by (cases L) simp_all
  then show ?case using Cons by simp
qed simp

lemma seg_frame: "x \<notin> set L \<Longrightarrow> seg (p(x := v)) n b L e = seg p n b L e" "x \<notin> set L \<Longrightarrow> seg p (n(x := v)) b L e = seg p n b L e"
  by (induction L arbitrary: b) auto

lemma seg_first: "seg p n b (x # L) e \<Longrightarrow> x \<notin> set L \<Longrightarrow> seg (p(x := b')) n b' (x # L) e"
  by (simp add: seg_frame)

lemma seg_last: "seg p n b (L @ [x]) e \<Longrightarrow> x \<notin> set L \<Longrightarrow> seg p (n(x := e')) b (L @ [x]) e'"
  by (auto simp: seg_append seg_frame)

definition dll :: "trie \<Rightarrow> nat list \<Rightarrow> bool" where
  "dll t L \<longleftrightarrow> distinct L \<and> seg (prevOf t) (nextOf t) None L None \<and> lhead t = first_or None L \<and> ltail t = last_or None L \<and>
     (\<forall>x\<in>set L. inLRU t x)"

lemma dllD:
  assumes "dll t L"
  shows "distinct L" "seg (prevOf t) (nextOf t) None L None" "lhead t = first_or None L" "ltail t = last_or None L"
    "x \<in> set L \<Longrightarrow> inLRU t x"
  using assms by (simp_all add: dll_def)

section \<open>The operations\<close>

lemma lru_frame [frame_simps, simp]:
  "tcfg (lruPushFront n t) = tcfg t" "tcfg (lruPushBack n t) = tcfg t" "tcfg (lruRemove n t) = tcfg t"
  "alloc (lruPushFront n t) = alloc t" "alloc (lruPushBack n t) = alloc t" "alloc (lruRemove n t) = alloc t"
  "keyOf (lruPushFront n t) = keyOf t" "keyOf (lruPushBack n t) = keyOf t" "keyOf (lruRemove n t) = keyOf t"
  "tokOf (lruPushFront n t) = tokOf t" "tokOf (lruPushBack n t) = tokOf t" "tokOf (lruRemove n t) = tokOf t"
  "parentOf (lruPushFront n t) = parentOf t" "parentOf (lruPushBack n t) = parentOf t" "parentOf (lruRemove n t) = parentOf t"
  "kidsOf (lruPushFront n t) = kidsOf t" "kidsOf (lruPushBack n t) = kidsOf t" "kidsOf (lruRemove n t) = kidsOf t"
  "pinsOf (lruPushFront n t) = pinsOf t" "pinsOf (lruPushBack n t) = pinsOf t" "pinsOf (lruRemove n t) = pinsOf t"
  "nnodes (lruPushFront n t) = nnodes t" "nnodes (lruPushBack n t) = nnodes t" "nnodes (lruRemove n t) = nnodes t"
  "ntokens (lruPushFront n t) = ntokens t" "ntokens (lruPushBack n t) = ntokens t" "ntokens (lruRemove n t) = ntokens t"
  "anomalies (lruPushFront n t) = anomalies t" "anomalies (lruPushBack n t) = anomalies t" "anomalies (lruRemove n t) = anomalies t"
  "pinnedNodes (lruPushFront n t) = pinnedNodes t" "pinnedNodes (lruPushBack n t) = pinnedNodes t"
  "pinnedNodes (lruRemove n t) = pinnedNodes t"
  by (simp_all add: lruPushFront_def lruPushBack_def lruRemove_def unlink_prev_def unlink_next_def Let_def split: option.split)

lemma lru_flags [simp]:
  "inLRU (lruPushFront n t) = (inLRU t)(n := True)" "inLRU (lruPushBack n t) = (inLRU t)(n := True)"
  "inLRU (lruRemove n t) = (inLRU t)(n := False)"
  by (auto simp: lruPushFront_def lruPushBack_def lruRemove_def unlink_prev_def unlink_next_def Let_def fun_eq_iff split: option.split)

lemma dll_pushFront: "dll t L \<Longrightarrow> n \<notin> set L \<Longrightarrow> dll (lruPushFront n t) (n # L)"
proof (cases L)
  case Nil
  assume "dll t L"
  then show ?thesis using Nil by (simp add: dll_def lruPushFront_def)
next
  case (Cons h M)
  assume d: "dll t L" and n: "n \<notin> set L"
  have s: "seg (prevOf t) (nextOf t) None (h # M) None" using dllD(2) [OF d] Cons by simp
  have h: "n \<noteq> h" "n \<notin> set M" "h \<notin> set M" using n dllD(1) [OF d] Cons by auto
  have "seg ((prevOf t)(n := None, h := Some n)) ((nextOf t)(n := Some h)) None (n # h # M) None"
    using s h by (simp add: seg_frame)
  moreover have "last_or (Some h) M \<noteq> None" by (simp add: last_or_def)
  ultimately show ?thesis using d n Cons by (auto simp: dll_def lruPushFront_def)
qed

lemma dll_pushBack: "dll t L \<Longrightarrow> n \<notin> set L \<Longrightarrow> dll (lruPushBack n t) (L @ [n])"
proof (cases L rule: rev_cases)
  case Nil
  assume "dll t L"
  then show ?thesis using Nil by (simp add: dll_def lruPushBack_def)
next
  case (snoc M l)
  assume d: "dll t L" and n: "n \<notin> set L"
  have s: "seg (prevOf t) (nextOf t) None (M @ [l]) None" using dllD(2) [OF d] snoc by simp
  have l: "n \<noteq> l" "n \<notin> set M" "l \<notin> set M" using n dllD(1) [OF d] snoc by auto
  have "seg (prevOf t) ((nextOf t)(l := Some n)) None (M @ [l]) (Some n)" by (rule seg_last [OF s l(3)])
  then have "seg ((prevOf t)(n := Some l)) ((nextOf t)(n := None, l := Some n)) None (M @ [l]) (Some n)"
    using l by (simp add: seg_append seg_frame fun_upd_twist)
  then have "seg ((prevOf t)(n := Some l)) ((nextOf t)(n := None, l := Some n)) None ((M @ [l]) @ [n]) None"
    using l unfolding seg_append [of _ _ _ "M @ [l]"] by simp
  moreover have "first_or None (M @ [l] @ [n]) = first_or None (M @ [l])" by (cases M) simp_all
  moreover have "lhead t \<noteq> None" using dllD(3) [OF d] snoc by (cases M) simp_all
  moreover have "last_or None (M @ [l, n]) = Some n" by (simp add: last_or_def)
  ultimately show ?thesis using d n snoc by (auto simp: dll_def lruPushBack_def)
qed

lemma unlink_seg:
  assumes "seg p n None (L @ x # M) None" and "distinct (L @ x # M)"
  defines "n1 \<equiv> (case p x of Some a \<Rightarrow> n(a := n x) | None \<Rightarrow> n)" and "p1 \<equiv> (case n x of Some c \<Rightarrow> p(c := p x) | None \<Rightarrow> p)"
  shows "seg p1 n1 None (L @ M) None" and "p x = last_or None L" and "n x = first_or None M"
proof -
  have s: "seg p n None L (Some x)" "p x = last_or None L" "n x = first_or None M" "seg p n (Some x) M None"
    using assms(1) by (auto simp: seg_append)
  then show "p x = last_or None L" "n x = first_or None M" by auto
  have L: "seg p n1 None L (first_or None M)"
  proof (cases L rule: rev_cases)
    case (snoc K a)
    then show ?thesis using s assms(2) seg_last [of p n None K a "Some x" "first_or None M"] by (simp add: n1_def)
  qed simp
  have dis: "set L \<inter> set M = {}" using assms(2) by auto
  have L': "seg p1 n1 None L (first_or None M)"
  proof (cases M)
    case (Cons c K)
    then show ?thesis using L s(3) dis by (simp add: p1_def seg_frame)
  qed (use L s(3) in \<open>simp add: p1_def\<close>)
  have M: "seg p1 n (last_or None L) M None"
  proof (cases M)
    case (Cons c K)
    then show ?thesis using s assms(2) by (simp add: p1_def seg_frame)
  qed simp
  have "seg p1 n1 (last_or None L) M None"
  proof (cases L rule: rev_cases)
    case (snoc K a)
    then show ?thesis using M s(2) dis by (simp add: n1_def seg_frame)
  qed (use M s(2) in \<open>simp add: n1_def\<close>)
  then show "seg p1 n1 None (L @ M) None" using L' by (simp add: seg_append)
qed

lemma dll_remove: "dll t L \<Longrightarrow> n \<in> set L \<Longrightarrow> dll (lruRemove n t) (remove1 n L)"
proof -
  assume d: "dll t L" and "n \<in> set L"
  then obtain K M where L: "L = K @ n # M" "n \<notin> set K" by (metis in_set_conv_decomp_first)
  have dis: "distinct (K @ n # M)" using dllD(1) [OF d] L by simp
  then have n: "n \<notin> set (K @ M)" by auto
  note U = unlink_seg [OF dllD(2) [OF d, unfolded L(1)] dis]
  have i: "inLRU t n" using dllD(5) [OF d] L by simp
  let ?t = "lruRemove n t"
  have np: "nextOf (unlink_prev n t) n = nextOf t n" "prevOf (unlink_prev n t) = prevOf t"
    using U(2) n by (auto simp: unlink_prev_def last_or_def split: option.split)
  have prev: "prevOf ?t = (case nextOf t n of Some c \<Rightarrow> (prevOf t)(c := prevOf t n) | None \<Rightarrow> prevOf t)(n := None)"
    using i np by (simp add: lruRemove_def unlink_next_def split: option.split)
  have nxt: "nextOf ?t = (case prevOf t n of Some a \<Rightarrow> (nextOf t)(a := nextOf t n) | None \<Rightarrow> nextOf t)(n := None)"
    using i by (simp add: lruRemove_def unlink_next_def unlink_prev_def split: option.split)
  have "lhead ?t = first_or None (K @ M)"
    using i dllD(3) [OF d] U(2,3) L(1)
    by (cases K) (auto simp: lruRemove_def unlink_next_def unlink_prev_def last_or_def Let_def split: option.split)
  moreover have "ltail ?t = last_or None (K @ M)"
    using i dllD(4) [OF d] U(2,3) L(1) np
    by (cases M) (auto simp: lruRemove_def unlink_next_def unlink_prev_def last_or_def Let_def split: option.split)
  moreover have "seg (prevOf ?t) (nextOf ?t) None (K @ M) None"
    unfolding prev nxt using U(1) n by (simp add: seg_frame)
  moreover have "\<forall>x\<in>set (K @ M). inLRU ?t x" using dllD(5) [OF d] L n by auto
  moreover have "remove1 n L = K @ M" using L by (simp add: remove1_append)
  ultimately show ?thesis using dis by (simp add: dll_def)
qed

section \<open>The contract\<close>

locale recency =
  fixes lru :: "'s \<Rightarrow> nat list \<Rightarrow> bool"
    and front :: "nat \<Rightarrow> 's \<Rightarrow> 's"
    and rear :: "nat \<Rightarrow> 's \<Rightarrow> 's"
    and remove :: "nat \<Rightarrow> 's \<Rightarrow> 's"
  assumes lru_front: "lru s L \<Longrightarrow> n \<notin> set L \<Longrightarrow> lru (front n s) (n # L)"
    and lru_rear: "lru s L \<Longrightarrow> n \<notin> set L \<Longrightarrow> lru (rear n s) (L @ [n])"
    and lru_remove: "lru s L \<Longrightarrow> n \<in> set L \<Longrightarrow> lru (remove n s) (remove1 n L)"
    and lru_distinct: "lru s L \<Longrightarrow> distinct L"
begin

text \<open>Moving an element to the front, and replacing a leaf by its parent when the leaf goes.\<close>

lemma lru_refresh: "lru s L \<Longrightarrow> n \<in> set L \<Longrightarrow> lru (front n (remove n s)) (n # remove1 n L)"
  using lru_front [OF lru_remove] lru_distinct [of s L] by (simp add: set_remove1_eq)

lemma lru_replace: "lru s (K @ [v]) \<Longrightarrow> p \<notin> set K \<Longrightarrow> lru (rear p (remove v s)) (K @ [p])"
  using lru_remove [of s "K @ [v]" v] lru_distinct [of s "K @ [v]"] lru_rear [of "remove v s" K p]
  by (simp add: remove1_append)

end

interpretation lru: recency dll lruPushFront lruPushBack lruRemove
  by unfold_locales (auto intro: dll_pushFront dll_pushBack dll_remove dllD(1))

end
