(* ===== verification/KvShape.thy ===== *)
theory KvShape
  imports KvLru
begin

text \<open>
  The invariant of the trie and its abstraction. \<open>A\<close> is the set of attached addresses, \<open>L\<close> the recency list;
  \<open>follow t 0 hs\<close> is the node a sequence of keys leads to. Inserting a node adds exactly one sequence,
  evicting one removes exactly one.
\<close>

section \<open>The invariant\<close>

definition tshape :: "trie \<Rightarrow> nat set \<Rightarrow> bool" where
  "tshape t A \<longleftrightarrow> finite A \<and> 0 \<in> A \<and> (\<forall>a\<in>A. a < alloc t) \<and> parentOf t 0 = None \<and>
     (\<forall>a\<in>A. kids_sorted (kid_key t) (kidsOf t a)) \<and>
     (\<forall>a\<in>A. \<forall>c\<in>set (kidsOf t a). c \<in> A \<and> c \<noteq> 0 \<and> parentOf t c = Some a) \<and>
     (\<forall>c\<in>A. c \<noteq> 0 \<longrightarrow> (\<exists>p\<in>A. parentOf t c = Some p \<and> c \<in> set (kidsOf t p) \<and> p < c))"

definition counted :: "trie \<Rightarrow> nat set \<Rightarrow> bool" where
  "counted t A \<longleftrightarrow> nnodes t = int (card (A - {0})) \<and> ntokens t = (\<Sum>a\<in>A - {0}. tokOf t a)"

definition listed :: "trie \<Rightarrow> nat set \<Rightarrow> nat list \<Rightarrow> bool" where
  "listed t A L \<longleftrightarrow> dll t L \<and> set L = {a \<in> A. a \<noteq> 0 \<and> kidsOf t a = [] \<and> pinsOf t a = 0} \<and>
     (\<forall>a\<in>A. inLRU t a \<longrightarrow> a \<in> set L) \<and> (\<forall>a\<in>A. 0 \<le> pinsOf t a)"

definition tinv :: "trie \<Rightarrow> nat set \<Rightarrow> nat list \<Rightarrow> bool" where
  "tinv t A L \<longleftrightarrow> tshape t A \<and> counted t A \<and> listed t A L"

lemma tshapeD:
  assumes "tshape t A"
  shows "finite A" "0 \<in> A" "a \<in> A \<Longrightarrow> a < alloc t" "parentOf t 0 = None" "a \<in> A \<Longrightarrow> kids_sorted (kid_key t) (kidsOf t a)"
    "a \<in> A \<Longrightarrow> c \<in> set (kidsOf t a) \<Longrightarrow> c \<in> A \<and> c \<noteq> 0 \<and> parentOf t c = Some a"
    "c \<in> A \<Longrightarrow> c \<noteq> 0 \<Longrightarrow> \<exists>p\<in>A. parentOf t c = Some p \<and> c \<in> set (kidsOf t p) \<and> p < c"
  using assms unfolding tshape_def by blast+

lemma tinvD:
  assumes "tinv t A L"
  shows "tshape t A" "counted t A" "listed t A L" "dll t L"
    "a \<in> set L \<longleftrightarrow> a \<in> A \<and> a \<noteq> 0 \<and> kidsOf t a = [] \<and> pinsOf t a = 0"
    "a \<in> A \<Longrightarrow> inLRU t a \<longleftrightarrow> a \<in> set L" "a \<in> A \<Longrightarrow> 0 \<le> pinsOf t a"
  using assms by (auto simp: tinv_def listed_def dllD(5))

lemma tinv_New: "tinv (Trie_New c) {0} []"
  by (auto simp: tinv_def tshape_def counted_def listed_def Trie_New_def dll_def)

lemma node_find_iff:
  assumes "tshape t A" and "a \<in> A"
  shows "node_find t a h = Some c \<longleftrightarrow> c \<in> set (kidsOf t a) \<and> keyOf t c = h"
  using lookup_kid_iff [OF tshapeD(5) [OF assms], of h c] by (simp add: node_find_def)

lemma parent_less: "tshape t A \<Longrightarrow> a \<in> A \<Longrightarrow> c \<in> set (kidsOf t a) \<Longrightarrow> a < c"
  using tshapeD(6) [of t A a c] tshapeD(7) [of t A c] by fastforce

text \<open>The largest attached address is a leaf.\<close>

lemma leaf_exists: "tshape t A \<Longrightarrow> A \<noteq> {0} \<Longrightarrow> \<exists>a\<in>A. a \<noteq> 0 \<and> kidsOf t a = []"
proof -
  assume s: "tshape t A" and ne: "A \<noteq> {0}"
  let ?m = "Max A"
  have m: "?m \<in> A" using tshapeD(1,2) [OF s] by (auto intro: Max_in)
  have "?m \<noteq> 0"
  proof
    assume "?m = 0"
    then have "a = 0" if "a \<in> A" for a using Max_ge [OF tshapeD(1) [OF s] that] by simp
    then show False using ne tshapeD(2) [OF s] by auto
  qed
  moreover have "kidsOf t ?m = []"
  proof (rule ccontr)
    assume "kidsOf t ?m \<noteq> []"
    then obtain c where "c \<in> set (kidsOf t ?m)" by (cases "kidsOf t ?m") auto
    then have "?m < c" "c \<in> A" using parent_less [OF s m] tshapeD(6) [OF s m] by auto
    then show False using Max_ge [OF tshapeD(1) [OF s], of c] by simp
  qed
  ultimately show ?thesis using m by blast
qed

section \<open>Following keys\<close>

fun follow :: "trie \<Rightarrow> nat \<Rightarrow> u64 list \<Rightarrow> nat option" where
  "follow t n [] = Some n"
| "follow t n (h # hs) = (case node_find t n h of None \<Rightarrow> None | Some c \<Rightarrow> follow t c hs)"

lemma follow_append: "follow t n (xs @ ys) = (case follow t n xs of None \<Rightarrow> None | Some m \<Rightarrow> follow t m ys)"
  by (induction xs arbitrary: n) (auto split: option.split)

lemma follow_snoc: "follow t n (xs @ [h]) = (case follow t n xs of None \<Rightarrow> None | Some m \<Rightarrow> node_find t m h)"
  by (auto simp: follow_append split: option.split)

lemma follow_in: "tshape t A \<Longrightarrow> a \<in> A \<Longrightarrow> follow t a hs = Some c \<Longrightarrow> c \<in> A"
proof (induction hs arbitrary: a)
  case (Cons h hs)
  then show ?case using node_find_iff [OF Cons.prems(1,2)] tshapeD(6) [OF Cons.prems(1,2)] by (auto split: option.splits)
qed simp

lemma follow_snocE:
  assumes "tshape t A" and "follow t 0 (hs @ [h]) = Some c"
  obtains a where "follow t 0 hs = Some a" "a \<in> A" "c \<in> set (kidsOf t a)" "keyOf t c = h" "parentOf t c = Some a" "c \<noteq> 0" "a < c" "c \<in> A"
proof -
  obtain a where a: "follow t 0 hs = Some a" "node_find t a h = Some c" using assms(2) by (auto simp: follow_snoc split: option.splits)
  have "a \<in> A" using follow_in [OF assms(1) tshapeD(2) [OF assms(1)] a(1)] .
  with a show thesis
    using that node_find_iff [OF assms(1)] tshapeD(6) [OF assms(1)] parent_less [OF assms(1)] by metis
qed

text \<open>Every attached node is reached by exactly one sequence of keys.\<close>

lemma follow_unique: "tshape t A \<Longrightarrow> follow t 0 xs = Some a \<Longrightarrow> follow t 0 ys = Some a \<Longrightarrow> xs = ys"
proof (induction xs arbitrary: a ys rule: rev_induct)
  case Nil
  then show ?case by (cases ys rule: rev_cases) (auto elim: follow_snocE)
next
  case (snoc h xs)
  obtain p where p: "follow t 0 xs = Some p" "keyOf t a = h" "parentOf t a = Some p" "a \<noteq> 0"
    using follow_snocE [OF snoc.prems(1,2)] by metis
  show ?case
  proof (cases ys rule: rev_cases)
    case Nil
    then show ?thesis using snoc.prems(3) p(4) by simp
  next
    case (snoc zs k)
    then obtain q where "follow t 0 zs = Some q" "keyOf t a = k" "parentOf t a = Some q"
      using follow_snocE [OF \<open>tshape t A\<close>] \<open>follow t 0 ys = Some a\<close> by metis
    then show ?thesis using snoc.IH [OF \<open>tshape t A\<close> p(1), of zs] p snoc by simp
  qed
qed

lemma follow_exists: "tshape t A \<Longrightarrow> a \<in> A \<Longrightarrow> \<exists>hs. follow t 0 hs = Some a"
proof (induction a rule: less_induct)
  case (less a)
  show ?case
  proof (cases "a = 0")
    case True
    then have "follow t 0 [] = Some a" by simp
    then show ?thesis by blast
  next
    case False
    then obtain p where p: "p \<in> A" "a \<in> set (kidsOf t p)" "p < a" using tshapeD(7) [OF less.prems] by blast
    obtain hs where "follow t 0 hs = Some p" using less.IH [OF p(3) less.prems(1) p(1)] by blast
    moreover have "node_find t p (keyOf t a) = Some a" using node_find_iff [OF less.prems(1) p(1)] p(2) by simp
    ultimately have "follow t 0 (hs @ [keyOf t a]) = Some a" by (simp add: follow_snoc)
    then show ?thesis by blast
  qed
qed

text \<open>The resident sequences: the abstract state.\<close>

definition resident :: "trie \<Rightarrow> u64 list set" where
  "resident t = {hs. follow t 0 hs \<noteq> None}"

lemma resident_Nil [simp]: "[] \<in> resident t"
  by (simp add: resident_def)

lemma resident_prefix: "xs @ ys \<in> resident t \<Longrightarrow> xs \<in> resident t"
  by (auto simp: resident_def follow_append split: option.splits)

section \<open>The walk\<close>

lemma descend_spec:
  "descend t n us c = (m, rest, c') \<Longrightarrow>
   \<exists>k\<le>length us. rest = drop k us \<and> c' = c + unit_tokens (take k us) \<and> follow t n (map uHash (take k us)) = Some m \<and>
     (k < length us \<longrightarrow> node_find t m (uHash (us ! k)) = None)"
proof (induction us arbitrary: n c)
  case (Cons u us)
  show ?case
  proof (cases "node_find t n (uHash u)")
    case None
    then show ?thesis using Cons.prems by (intro exI [of _ 0]) (auto simp: unit_tokens_def)
  next
    case (Some d)
    then have "descend t d us (c + uTokens u) = (m, rest, c')" using Cons.prems by simp
    from Cons.IH [OF this] obtain k where k: "k \<le> length us" "rest = drop k us" "c' = c + uTokens u + unit_tokens (take k us)"
      "follow t d (map uHash (take k us)) = Some m" "k < length us \<longrightarrow> node_find t m (uHash (us ! k)) = None" by blast
    then show ?thesis using Some by (intro exI [of _ "Suc k"]) (simp add: unit_tokens_def)
  qed
qed (simp add: unit_tokens_def)

text \<open>How many leading keys are resident.\<close>

definition lead :: "u64 list set \<Rightarrow> u64 list \<Rightarrow> nat" where
  "lead R hs = length (takeWhile (\<lambda>j. take (Suc j) hs \<in> R) [0..<length hs])"

lemma lead_eqI:
  assumes "k \<le> length hs" and "\<And>j. j < k \<Longrightarrow> take (Suc j) hs \<in> R" and "k < length hs \<Longrightarrow> take (Suc k) hs \<notin> R"
  shows "lead R hs = k"
proof -
  have "[0..<length hs] = [0..<k] @ [k..<length hs]" using assms(1) by (metis le_add_diff_inverse upt_add_eq_append zero_le)
  moreover have "takeWhile (\<lambda>j. take (Suc j) hs \<in> R) [k..<length hs] = []"
    using assms(3) by (cases "k < length hs") (simp_all add: upt_conv_Cons)
  moreover have "takeWhile (\<lambda>j. take (Suc j) hs \<in> R) ([0..<k] @ [k..<length hs]) =
      [0..<k] @ takeWhile (\<lambda>j. take (Suc j) hs \<in> R) [k..<length hs]"
    by (rule takeWhile_append2) (use assms(2) in simp)
  ultimately have "takeWhile (\<lambda>j. take (Suc j) hs \<in> R) [0..<length hs] = [0..<k]" by simp
  then show ?thesis by (simp add: lead_def)
qed

lemma descend_lead:
  assumes "descend t 0 us 0 = (m, rest, c)"
  defines "k \<equiv> lead (resident t) (map uHash us)"
  shows "k \<le> length us" "rest = drop k us" "c = unit_tokens (take k us)" "follow t 0 (map uHash (take k us)) = Some m"
    "k < length us \<Longrightarrow> node_find t m (uHash (us ! k)) = None"
proof -
  obtain j where j: "j \<le> length us" "rest = drop j us" "c = 0 + unit_tokens (take j us)" "follow t 0 (map uHash (take j us)) = Some m"
    "j < length us \<longrightarrow> node_find t m (uHash (us ! j)) = None" using descend_spec [OF assms(1)] by blast
  have "k = j" unfolding k_def
  proof (rule lead_eqI)
    fix i assume "i < j"
    then have "map uHash (take j us) = take (Suc i) (map uHash us) @ map uHash (drop (Suc i) (take j us))"
      by (metis append_take_drop_id map_append min.absorb1 Suc_leI take_map take_take)
    then show "take (Suc i) (map uHash us) \<in> resident t"
      using j(4) resident_prefix [of "take (Suc i) (map uHash us)"] by (auto simp: resident_def)
  next
    assume "j < length (map uHash us)"
    then have "take (Suc j) (map uHash us) = map uHash (take j us) @ [uHash (us ! j)]" "j < length us"
      by (simp_all add: take_Suc_conv_app_nth take_map)
    then show "take (Suc j) (map uHash us) \<notin> resident t" using j(4,5) by (simp add: resident_def follow_snoc)
  qed (use j(1) in simp)
  then show "k \<le> length us" "rest = drop k us" "c = unit_tokens (take k us)" "follow t 0 (map uHash (take k us)) = Some m"
    "k < length us \<Longrightarrow> node_find t m (uHash (us ! k)) = None" using j by auto
qed

section \<open>Inserting a node\<close>

lemma kids_sorted_cong: "(\<And>x. x \<in> set ks \<Longrightarrow> f x = g x) \<Longrightarrow> kids_sorted f ks = kids_sorted g ks"
  by (simp add: kids_sorted_def cong: map_cong)

lemma option_eqI: "(\<And>x. f = Some x \<longleftrightarrow> g = Some x) \<Longrightarrow> f = g"
  by (metis not_None_eq)

text \<open>The fields after \<^verbatim>\<open>insertLocked\<close>.\<close>

lemma insert_fields:
  assumes "insertLocked p u t = (c, t')" and "p \<noteq> alloc t"
  shows "c = alloc t" "alloc t' = Suc (alloc t)" "tcfg t' = tcfg t" "keyOf t' = (keyOf t)(c := uHash u)"
    "tokOf t' = (tokOf t)(c := uTokens u)" "parentOf t' = (parentOf t)(c := Some p)" "pinsOf t' = (pinsOf t)(c := 0)"
    "kidsOf t' = (kidsOf t)(c := [], p := link_kid (kid_key t') c (uHash u) (kidsOf t p))"
    "nnodes t' = nnodes t + 1" "ntokens t' = ntokens t + uTokens u" "pinnedNodes t' = pinnedNodes t" "anomalies t' = anomalies t"
proof -
  define t1 where "t1 = (if p \<noteq> 0 \<and> inLRU t p then lruRemove p t else t)"
  have f: "alloc t1 = alloc t" "tcfg t1 = tcfg t" "keyOf t1 = keyOf t" "tokOf t1 = tokOf t" "parentOf t1 = parentOf t"
    "pinsOf t1 = pinsOf t" "kidsOf t1 = kidsOf t" "nnodes t1 = nnodes t" "ntokens t1 = ntokens t" "pinnedNodes t1 = pinnedNodes t"
    "anomalies t1 = anomalies t" by (simp_all add: t1_def)
  define t2 where "t2 = t1\<lparr>alloc := alloc t1 + 1, keyOf := (keyOf t1)(alloc t1 := uHash u), tokOf := (tokOf t1)(alloc t1 := uTokens u),
    parentOf := (parentOf t1)(alloc t1 := Some p), kidsOf := (kidsOf t1)(alloc t1 := []), prevOf := (prevOf t1)(alloc t1 := None),
    nextOf := (nextOf t1)(alloc t1 := None), inLRU := (inLRU t1)(alloc t1 := False), pinsOf := (pinsOf t1)(alloc t1 := 0)\<rparr>"
  have g: "alloc t2 = Suc (alloc t)" "tcfg t2 = tcfg t" "keyOf t2 = (keyOf t)(alloc t := uHash u)" "tokOf t2 = (tokOf t)(alloc t := uTokens u)"
    "parentOf t2 = (parentOf t)(alloc t := Some p)" "pinsOf t2 = (pinsOf t)(alloc t := 0)" "kidsOf t2 = (kidsOf t)(alloc t := [])"
    "nnodes t2 = nnodes t" "ntokens t2 = ntokens t" "pinnedNodes t2 = pinnedNodes t" "anomalies t2 = anomalies t"
    by (simp_all add: t2_def f)
  define t3 where "t3 = lruPushFront (alloc t) (addKid p (alloc t) t2)"
  have "insertLocked p u t = (alloc t, t3\<lparr>nnodes := nnodes t3 + 1, ntokens := ntokens t3 + uTokens u\<rparr>)"
    unfolding insertLocked_def Let_def t1_def [symmetric] t3_def t2_def f(1) by (rule refl)
  then have e: "c = alloc t" "t' = t3\<lparr>nnodes := nnodes t3 + 1, ntokens := ntokens t3 + uTokens u\<rparr>" using assms(1) by simp_all
  have h: "keyOf t3 = keyOf t2" "kidsOf t3 = (kidsOf t2)(p := link_kid (kid_key t2) (alloc t) (uHash u) (kidsOf t2 p))"
    by (simp_all add: t3_def addKid_def g)
  show "c = alloc t" by (rule e(1))
  show "alloc t' = Suc (alloc t)" "tcfg t' = tcfg t" "keyOf t' = (keyOf t)(c := uHash u)"
    "tokOf t' = (tokOf t)(c := uTokens u)" "parentOf t' = (parentOf t)(c := Some p)" "pinsOf t' = (pinsOf t)(c := 0)"
    "nnodes t' = nnodes t + 1" "ntokens t' = ntokens t + uTokens u" "pinnedNodes t' = pinnedNodes t" "anomalies t' = anomalies t"
    by (simp_all add: e t3_def addKid_def g)
  show "kidsOf t' = (kidsOf t)(c := [], p := link_kid (kid_key t') c (uHash u) (kidsOf t p))"
    using assms(2) by (simp add: e h g)
qed

lemma insert_shape:
  assumes "tshape t A" and "p \<in> A" and "node_find t p (uHash u) = None" and "insertLocked p u t = (c, t')"
  shows "tshape t' (insert c A)" and "c \<notin> A" and "c \<noteq> 0"
    and "a \<in> insert c A \<Longrightarrow> set (kidsOf t' a) = (if a = c then {} else if a = p then insert c (set (kidsOf t p)) else set (kidsOf t a))"
proof -
  have p: "p < alloc t" "p \<noteq> alloc t" using tshapeD(3) [OF assms(1,2)] by auto
  note F = insert_fields [OF assms(4) p(2)]
  show c: "c \<notin> A" using tshapeD(3) [OF assms(1)] F(1) by auto
  show c0: "c \<noteq> 0" using p F(1) by simp
  have key: "kid_key t' x = kid_key t x" if "x \<in> A" for x using that c F(4) by auto
  have sub: "x \<in> A" if "a \<in> A" "x \<in> set (kidsOf t a)" for a x using tshapeD(6) [OF assms(1) that] by blast
  have ks: "kids_sorted (kid_key t') (kidsOf t a)" if "a \<in> A" for a
    using tshapeD(5) [OF assms(1) that] kids_sorted_cong [of "kidsOf t a" "kid_key t'" "kid_key t"] key sub [OF that] by blast
  have nk: "keyOf t x \<noteq> uHash u" if "x \<in> set (kidsOf t p)" for x
    using node_find_iff [OF assms(1,2), of "uHash u" x] that assms(3) by simp
  have "lookup_kid (kid_key t') (kidsOf t p) (uHash u) \<noteq> Some x" for x
    using lookup_kid_iff [OF ks [OF assms(2)], of "uHash u" x] key [of x] sub [OF assms(2), of x] nk [of x] by auto
  then have "lookup_kid (kid_key t') (kidsOf t p) (uHash u) = None" by blast
  then have lk: "kids_sorted (kid_key t') (link_kid (kid_key t') c (uHash u) (kidsOf t p))"
    using kids_sorted_link [OF ks [OF assms(2)], of c "uHash u"] F(4) by simp
  show kids: "set (kidsOf t' a) = (if a = c then {} else if a = p then insert c (set (kidsOf t p)) else set (kidsOf t a))"
    if "a \<in> insert c A" for a
    using F(8) p(2) F(1) by auto
  have "kids_sorted (kid_key t') (kidsOf t' a)" if "a \<in> insert c A" for a
    using lk ks that F(8) by auto
  moreover have "x \<in> insert c A \<and> x \<noteq> 0 \<and> parentOf t' x = Some a" if "a \<in> insert c A" "x \<in> set (kidsOf t' a)" for a x
    using that kids [OF that(1)] tshapeD(6) [OF assms(1), of a x] assms(2) c c0 F(6) by (auto split: if_splits)
  moreover have "\<exists>q\<in>insert c A. parentOf t' x = Some q \<and> x \<in> set (kidsOf t' q) \<and> q < x" if "x \<in> insert c A" "x \<noteq> 0" for x
  proof (cases "x = c")
    case True
    then show ?thesis using assms(2) p F(1,6) kids [of p] by auto
  next
    case False
    then obtain q where q: "q \<in> A" "parentOf t x = Some q" "x \<in> set (kidsOf t q)" "q < x"
      using tshapeD(7) [OF assms(1)] \<open>x \<in> insert c A\<close> \<open>x \<noteq> 0\<close> by blast
    then show ?thesis using kids [of q] False F(6) c by auto
  qed
  moreover have "\<forall>a\<in>insert c A. a < alloc t'" using tshapeD(3) [OF assms(1)] F(1,2) by fastforce
  moreover have "parentOf t' 0 = None" using tshapeD(4) [OF assms(1)] F(6) c0 by simp
  ultimately show "tshape t' (insert c A)" using tshapeD(1,2) [OF assms(1)] unfolding tshape_def by simp
qed

lemma insert_listed:
  assumes "tinv t A L" and "p \<in> A" and "node_find t p (uHash u) = None" and "insertLocked p u t = (c, t')"
  shows "listed t' (insert c A) (c # remove1 p L)"
proof -
  have s: "tshape t A" using tinvD(1) [OF assms(1)] .
  have p: "p < alloc t" "p \<noteq> alloc t" using tshapeD(3) [OF s assms(2)] by auto
  note F = insert_fields [OF assms(4) p(2)]
  note S = insert_shape [OF s assms(2-4)]
  define t1 where "t1 = (if p \<noteq> 0 \<and> inLRU t p then lruRemove p t else t)"
  have d1: "dll t1 (remove1 p L)"
    using tinvD(4-6) [OF assms(1)] assms(2) lru.lru_remove [of t L p] by (auto simp: t1_def remove1_idem)
  have cL: "c \<notin> set (remove1 p L)" using tinvD(5) [OF assms(1), of c] S(2) notin_set_remove1 by metis
  define t2 where "t2 = t1\<lparr>alloc := c + 1, keyOf := (keyOf t1)(c := uHash u), tokOf := (tokOf t1)(c := uTokens u),
    parentOf := (parentOf t1)(c := Some p), kidsOf := (kidsOf t1)(c := []), prevOf := (prevOf t1)(c := None),
    nextOf := (nextOf t1)(c := None), inLRU := (inLRU t1)(c := False), pinsOf := (pinsOf t1)(c := 0)\<rparr>"
  have "dll (addKid p c t2) (remove1 p L)"
    using d1 cL by (auto simp: t2_def dll_def addKid_def seg_frame)
  from lru.lru_front [OF this cL] have d: "dll (lruPushFront c (addKid p c t2)) (c # remove1 p L)" .
  have t': "t' = (lruPushFront c (addKid p c t2))\<lparr>nnodes := nnodes t + 1, ntokens := ntokens t + uTokens u\<rparr>"
    using assms(4) F(1) by (auto simp: insertLocked_def Let_def t1_def t2_def addKid_def)
  have "dll t' (c # remove1 p L)" using d unfolding t' dll_def by simp
  moreover have "set (c # remove1 p L) = {a \<in> insert c A. a \<noteq> 0 \<and> kidsOf t' a = [] \<and> pinsOf t' a = 0}"
  proof -
    have e: "kidsOf t' a = [] \<longleftrightarrow> a = c \<or> a \<noteq> p \<and> kidsOf t a = []" if "a \<in> insert c A" for a
      using S(4) [OF that] by (metis insert_not_empty set_empty)
    have "set (remove1 p L) = set L - {p}" using dllD(1) [OF tinvD(4) [OF assms(1)]] by simp
    then show ?thesis using e tinvD(5) [OF assms(1)] S(2,3) F(7) by auto
  qed
  moreover have "a \<in> set (c # remove1 p L)" if "a \<in> insert c A" "inLRU t' a" for a
  proof -
    have "inLRU t' a \<longleftrightarrow> a = c \<or> inLRU t1 a" by (simp add: t' t2_def addKid_def)
    then show ?thesis
      using that tinvD(6) [OF assms(1), of a] dllD(1) [OF tinvD(4) [OF assms(1)]] tinvD(5) [OF assms(1), of p]
      by (auto simp: t1_def split: if_splits)
  qed
  moreover have "\<forall>a\<in>insert c A. 0 \<le> pinsOf t' a" using tinvD(7) [OF assms(1)] F(7) by simp
  ultimately show ?thesis unfolding listed_def by blast
qed

lemma insert_tinv:
  assumes "tinv t A L" and "p \<in> A" and "node_find t p (uHash u) = None" and "insertLocked p u t = (c, t')"
  shows "tinv t' (insert c A) (c # remove1 p L)"
proof -
  have s: "tshape t A" using tinvD(1) [OF assms(1)] .
  have p: "p \<noteq> alloc t" using tshapeD(3) [OF s assms(2)] by auto
  note F = insert_fields [OF assms(4) p]
  note S = insert_shape [OF s assms(2-4)]
  have i: "insert c A - {0} = insert c (A - {0})" "c \<notin> A - {0}" "finite (A - {0})" using S(2,3) tshapeD(1) [OF s] by auto
  have "(\<Sum>a\<in>A - {0}. tokOf t' a) = (\<Sum>a\<in>A - {0}. tokOf t a)" by (rule sum.cong) (use F(5) S(2) in auto)
  then have "counted t' (insert c A)"
    using tinvD(2) [OF assms(1)] F(5,9,10) i by (simp add: counted_def i)
  then show ?thesis using S(1) insert_listed [OF assms] by (simp add: tinv_def)
qed

lemma insert_follow:
  assumes "tshape t A" and "p \<in> A" and "node_find t p (uHash u) = None" and "insertLocked p u t = (c, t')" and "follow t 0 ps = Some p"
  shows "follow t' 0 hs = (if hs = ps @ [uHash u] then Some c else follow t 0 hs)"
proof (induction hs rule: rev_induct)
  case (snoc h hs)
  note S = insert_shape [OF assms(1-4)]
  have p: "p \<noteq> alloc t" using tshapeD(3) [OF assms(1,2)] by auto
  note F = insert_fields [OF assms(4) p]
  have nf: "node_find t' a k = (if a = p \<and> k = uHash u then Some c else node_find t a k)" if "a \<in> A" for a k
  proof -
    have iff: "node_find t' a k = Some x \<longleftrightarrow> (if a = p \<and> k = uHash u then x = c else node_find t a k = Some x)" for x
      using node_find_iff [OF S(1), of a k x] node_find_iff [OF assms(1) that, of k x] S(2) S(4) [of a] that F(4) assms(3)
        tshapeD(6) [OF assms(1) that, of x] node_find_iff [OF assms(1,2), of "uHash u" x] by auto
    show ?thesis by (rule option_eqI) (use iff in auto)
  qed
  have nc: "node_find t' c k = None" for k
    using node_find_iff [OF S(1), of c k] S(4) [of c] by (metis empty_iff insertI1 not_None_eq)
  show ?case
  proof (cases "follow t 0 hs")
    case None
    then have "hs \<noteq> ps" using assms(5) by auto
    moreover have "follow t' 0 (hs @ [h]) = None"
    proof (cases "hs = ps @ [uHash u]")
      case True
      then have "follow t' 0 hs = Some c" using snoc by simp
      then show ?thesis using nc by (simp add: follow_snoc [of _ _ hs])
    next
      case False
      then show ?thesis using snoc None by (simp add: follow_snoc)
    qed
    moreover have "follow t 0 (hs @ [h]) = None" using None by (simp add: follow_snoc)
    ultimately show ?thesis by simp
  next
    case (Some a)
    have "a \<in> A" using follow_in [OF assms(1) tshapeD(2) [OF assms(1)] Some] .
    moreover have "follow t 0 (ps @ [uHash u]) = None" using assms(3,5) by (simp add: follow_snoc)
    then have "hs \<noteq> ps @ [uHash u]" using Some by auto
    then have "follow t' 0 hs = Some a" using snoc Some by simp
    moreover have e: "a = p \<longleftrightarrow> hs = ps"
    proof
      assume "a = p"
      then show "hs = ps" using follow_unique [OF assms(1) Some, of ps] assms(5) by simp
    next
      assume "hs = ps"
      then show "a = p" using Some assms(5) by simp
    qed
    ultimately have "follow t' 0 (hs @ [h]) = node_find t' a h" "follow t 0 (hs @ [h]) = node_find t a h"
      using Some by (simp_all add: follow_snoc)
    then show ?thesis using nf [OF \<open>a \<in> A\<close>, of h] e by auto
  qed
qed simp

end
