(* ===== verification/KvEvict.thy ===== *)
theory KvEvict
  imports KvShape
begin

text \<open>
  Eviction in \<^verbatim>\<open>kvcache/kvcache.go\<close>: the tail of the recency list is always an unpinned leaf, evicting it keeps
  the invariant and forgets exactly its sequence of keys, and the loop ends within its budget, under the
  caps, or with nothing left to evict.
\<close>

section \<open>One victim\<close>

lemma remove_key_eq: "kids_sorted (\<lambda>a. Some (ky a)) ks \<Longrightarrow> remove_key ky k ks = filter (\<lambda>a. ky a \<noteq> k) ks"
proof (induction ks)
  case (Cons c ks)
  then have "kids_sorted (\<lambda>a. Some (ky a)) ks" "\<forall>x\<in>set ks. ky x \<noteq> ky c" by (auto simp: kids_sorted_def)
  then show ?case using Cons.IH by (auto simp: filter_id_conv)
qed simp

lemma evict_fields:
  shows "tcfg (evict_node v p t) = tcfg t" "alloc (evict_node v p t) = alloc t" "keyOf (evict_node v p t) = keyOf t"
    "tokOf (evict_node v p t) = tokOf t" "parentOf (evict_node v p t) = parentOf t" "pinsOf (evict_node v p t) = pinsOf t"
    "kidsOf (evict_node v p t) = (kidsOf t)(p := remove_key (keyOf t) (keyOf t v) (kidsOf t p))"
    "nnodes (evict_node v p t) = nnodes t - 1" "ntokens (evict_node v p t) = ntokens t - tokOf t v"
    "pinnedNodes (evict_node v p t) = pinnedNodes t" "anomalies (evict_node v p t) = anomalies t"
  by (simp_all add: evict_node_def removeKid_def Let_def)

lemma evict_shape:
  assumes "tshape t A" and "v \<in> A" and "v \<noteq> 0" and "kidsOf t v = []" and "parentOf t v = Some p"
  shows "tshape (evict_node v p t) (A - {v})" and "p \<in> A" and "p \<noteq> v" and "v \<in> set (kidsOf t p)"
    and "a \<in> A \<Longrightarrow> set (kidsOf (evict_node v p t) a) = set (kidsOf t a) - {v}"
proof -
  let ?t = "evict_node v p t"
  show p: "p \<in> A" "v \<in> set (kidsOf t p)" using tshapeD(7) [OF assms(1-3)] assms(5) by auto
  show pv: "p \<noteq> v" using p(2) assms(4) by auto
  have inj: "x = v" if "x \<in> set (kidsOf t p)" "keyOf t x = keyOf t v" for x
    using node_find_iff [OF assms(1) p(1)] that p(2) by (metis option.inject)
  have rk: "remove_key (keyOf t) (keyOf t v) (kidsOf t p) = filter (\<lambda>a. keyOf t a \<noteq> keyOf t v) (kidsOf t p)"
    using remove_key_eq tshapeD(5) [OF assms(1) p(1)] by blast
  show kids: "set (kidsOf ?t a) = set (kidsOf t a) - {v}" if "a \<in> A" for a
  proof (cases "a = p")
    case True
    then show ?thesis using rk inj by (auto simp: evict_fields)
  next
    case False
    then have "v \<notin> set (kidsOf t a)" using tshapeD(6) [OF assms(1) that, of v] assms(5) by auto
    then show ?thesis using False by (simp add: evict_fields)
  qed
  have "kids_sorted (kid_key ?t) (kidsOf ?t a)" if "a \<in> A" for a
    using tshapeD(5) [OF assms(1)] that rk kids_sorted_filter by (auto simp: evict_fields)
  moreover have "\<exists>q\<in>A - {v}. parentOf ?t x = Some q \<and> x \<in> set (kidsOf ?t q) \<and> q < x" if x: "x \<in> A - {v}" "x \<noteq> 0" for x
  proof -
    obtain q where q: "q \<in> A" "parentOf t x = Some q" "x \<in> set (kidsOf t q)" "q < x" using tshapeD(7) [OF assms(1)] x by blast
    then have "q \<noteq> v" using assms(4) by auto
    then show ?thesis using q x kids [OF q(1)] by (auto simp: evict_fields)
  qed
  ultimately show "tshape ?t (A - {v})"
    using assms(3) kids tshapeD(1-4,6) [OF assms(1)] unfolding tshape_def by (auto simp: evict_fields)
qed

lemma evict_follow:
  assumes "tshape t A" and "v \<in> A" and "v \<noteq> 0" and "kidsOf t v = []" and "parentOf t v = Some p"
  shows "follow (evict_node v p t) 0 hs = (if follow t 0 hs = Some v then None else follow t 0 hs)"
proof (induction hs rule: rev_induct)
  case Nil
  then show ?case using assms(3) by simp
next
  case (snoc h hs)
  let ?t = "evict_node v p t"
  note S = evict_shape [OF assms]
  have nf: "node_find ?t a h = (if node_find t a h = Some v then None else node_find t a h)" if "a \<in> A - {v}" for a
  proof (rule option_eqI)
    fix x
    have "a \<in> A" using that by simp
    then have "node_find ?t a h = Some x \<longleftrightarrow> x \<noteq> v \<and> node_find t a h = Some x"
      using node_find_iff [OF S(1) that, of h x] node_find_iff [OF assms(1), of a h x] S(5) [of a] by (auto simp: evict_fields)
    then show "node_find ?t a h = Some x \<longleftrightarrow> (if node_find t a h = Some v then None else node_find t a h) = Some x" by auto
  qed
  have nv: "node_find t v h = None" using node_find_iff [OF assms(1,2), of h] assms(4) by (metis empty_iff empty_set not_None_eq)
  show ?case
  proof (cases "follow t 0 hs")
    case (Some a)
    then have "a \<in> A" using follow_in [OF assms(1) tshapeD(2) [OF assms(1)]] by blast
    then show ?thesis using snoc Some nf [of a] nv by (cases "a = v") (simp_all add: follow_snoc)
  qed (use snoc in \<open>simp add: follow_snoc\<close>)
qed

lemma evict_tinv:
  assumes "tinv t A (K @ [v])" and "parentOf t v = Some p"
  defines "t' \<equiv> evict_node v p t"
  shows "tinv t' (A - {v}) (if p \<noteq> 0 \<and> kidsOf t' p = [] \<and> pinsOf t p = 0 then K @ [p] else K)"
proof -
  let ?L' = "if p \<noteq> 0 \<and> kidsOf t' p = [] \<and> pinsOf t p = 0 then K @ [p] else K"
  have v: "v \<in> A" "v \<noteq> 0" "kidsOf t v = []" "pinsOf t v = 0" using tinvD(5) [OF assms(1), of v] by auto
  note S = evict_shape [OF tinvD(1) [OF assms(1)] v(1-3) assms(2)]
  define t1 where "t1 = removeKid p (keyOf t v) t"
  define t2 where "t2 = (lruRemove v t1)\<lparr>nnodes := nnodes t - 1, ntokens := ntokens t - tokOf t v\<rparr>"
  have f2: "kidsOf t2 = kidsOf t'" "pinsOf t2 = pinsOf t" "inLRU t2 = (inLRU t)(v := False)"
    by (simp_all add: t2_def t1_def t'_def evict_fields removeKid_def)
  have t': "t' = (if p \<noteq> 0 \<and> kidsOf t' p = [] \<and> pinsOf t p = 0 then lruPushBack p t2 else t2)"
    using f2(1,2) by (simp add: t'_def evict_node_def Let_def t2_def t1_def removeKid_def)
  have "dll t1 (K @ [v])" using tinvD(4) [OF assms(1)] by (simp add: t1_def removeKid_def dll_def)
  from lru.lru_remove [OF this, of v] have "dll (lruRemove v t1) K"
    using dllD(1) [OF tinvD(4) [OF assms(1)]] by (simp add: remove1_append)
  then have d2: "dll t2 K" by (auto simp: t2_def dll_def split: if_splits)
  have dis: "distinct K" "v \<notin> set K" using dllD(1) [OF tinvD(4) [OF assms(1)]] by auto
  have "kidsOf t p \<noteq> []" using S(4) by auto
  then have pK: "p \<notin> set K" using tinvD(5) [OF assms(1), of p] by auto
  define c where "c \<longleftrightarrow> p \<noteq> 0 \<and> kidsOf t' p = [] \<and> pinsOf t p = 0"
  have tc: "t' = (if c then lruPushBack p t2 else t2)" unfolding c_def by (rule t')
  have "dll t' (if c then K @ [p] else K)" using d2 lru.lru_rear [OF d2 pK] tc by (cases c) simp_all
  then have "dll t' ?L'" by (simp add: c_def)
  moreover have "set ?L' = {a \<in> A - {v}. a \<noteq> 0 \<and> kidsOf t' a = [] \<and> pinsOf t' a = 0}"
  proof -
    have K: "a \<in> set K \<longleftrightarrow> a \<in> A \<and> a \<noteq> v \<and> a \<noteq> 0 \<and> kidsOf t a = [] \<and> pinsOf t a = 0" for a
      using tinvD(5) [OF assms(1), of a] dis(2) by auto
    have kp: "kidsOf t' a = kidsOf t a" if "a \<noteq> p" for a using that by (simp add: t'_def evict_fields)
    have pn: "pinsOf t' = pinsOf t" by (simp add: t'_def evict_fields)
    have "a \<in> set ?L' \<longleftrightarrow> a \<in> A - {v} \<and> a \<noteq> 0 \<and> kidsOf t' a = [] \<and> pinsOf t' a = 0" for a
      using K [of a] kp [of a] pn pK S(2,3) \<open>kidsOf t p \<noteq> []\<close> by (cases "a = p") auto
    then show ?thesis by blast
  qed
  moreover have "a \<in> set ?L'" if "a \<in> A - {v}" "inLRU t' a" for a
  proof -
    have "inLRU t' a \<longleftrightarrow> inLRU t a \<or> a = p \<and> p \<noteq> 0 \<and> kidsOf t' p = [] \<and> pinsOf t p = 0"
      using that(1) f2(3) tc by (cases c) (auto simp: c_def)
    then show ?thesis using that tinvD(6) [OF assms(1), of a] tinvD(5) [OF assms(1), of p] \<open>kidsOf t p \<noteq> []\<close> by auto
  qed
  moreover have "\<forall>a\<in>A - {v}. 0 \<le> pinsOf t' a" using tinvD(7) [OF assms(1)] by (simp add: t'_def evict_fields)
  ultimately have "listed t' (A - {v}) ?L'" unfolding listed_def by blast
  moreover have "counted t' (A - {v})"
  proof -
    have e: "A - {v} - {0} = (A - {0}) - {v}" by auto
    have f: "finite (A - {0})" "v \<in> A - {0}" using tshapeD(1) [OF tinvD(1) [OF assms(1)]] v by auto
    show ?thesis
      using tinvD(2) [OF assms(1)] card_Suc_Diff1 [OF f] sum.remove [OF f, of "tokOf t"]
      unfolding counted_def e t'_def evict_fields by linarith
  qed
  ultimately show ?thesis using S(1) by (simp add: tinv_def t'_def)
qed

section \<open>The loop\<close>

text \<open>What remains after evictions: \<open>t'\<close> keeps some attached nodes, their sequences and all pinned ones.\<close>

definition shrinks :: "trie \<Rightarrow> nat set \<Rightarrow> trie \<Rightarrow> nat set \<Rightarrow> bool" where
  "shrinks t A t' A' \<longleftrightarrow> A' \<subseteq> A \<and> (\<forall>a\<in>A. pinsOf t a > 0 \<longrightarrow> a \<in> A') \<and> pinsOf t' = pinsOf t \<and> keyOf t' = keyOf t \<and>
     tokOf t' = tokOf t \<and> tcfg t' = tcfg t \<and> anomalies t' = anomalies t \<and> pinnedNodes t' = pinnedNodes t \<and> alloc t' = alloc t \<and>
     (\<forall>hs. follow t' 0 hs = (case follow t 0 hs of None \<Rightarrow> None | Some a \<Rightarrow> if a \<in> A' then Some a else None))"

lemma shrinks_refl: "tshape t A \<Longrightarrow> shrinks t A t A"
  using follow_in [OF _ tshapeD(2)] by (auto simp: shrinks_def split: option.split)

lemma shrinks_trans: "shrinks t A t1 A1 \<Longrightarrow> shrinks t1 A1 t2 A2 \<Longrightarrow> shrinks t A t2 A2"
  unfolding shrinks_def by (auto split: option.split)

lemma evict_shrinks:
  assumes "tinv t A (K @ [v])" and "parentOf t v = Some p"
  shows "shrinks t A (evict_node v p t) (A - {v})"
proof -
  have v: "v \<in> A" "v \<noteq> 0" "kidsOf t v = []" "pinsOf t v = 0" using tinvD(5) [OF assms(1), of v] by auto
  note s = tinvD(1) [OF assms(1)]
  have "follow (evict_node v p t) 0 hs = (case follow t 0 hs of None \<Rightarrow> None | Some a \<Rightarrow> if a \<in> A - {v} then Some a else None)" for hs
    using evict_follow [OF s v(1-3) assms(2), of hs] follow_in [OF s tshapeD(2) [OF s], of hs] by (auto split: option.split)
  then show ?thesis using v(4) by (auto simp: shrinks_def evict_fields)
qed

lemma evictLocked_spec:
  "tinv t A L \<Longrightarrow> \<exists>A' L'. tinv (evictLocked b t) A' L' \<and> shrinks t A (evictLocked b t) A' \<and>
     (\<not> overBudget (evictLocked b t) \<or> L' = [] \<or> nnodes (evictLocked b t) = nnodes t - int b)"
proof (induction b arbitrary: t A L)
  case 0
  then show ?case using shrinks_refl [OF tinvD(1)] by auto
next
  case (Suc b)
  note refl = shrinks_refl [OF tinvD(1) [OF Suc.prems]]
  show ?case
  proof (cases "overBudget t \<and> L \<noteq> []")
    case False
    then have "evictLocked (Suc b) t = t" using dllD(4) [OF tinvD(4) [OF Suc.prems]] by auto
    then show ?thesis using Suc.prems refl False by auto
  next
    case True
    then obtain K v where L: "L = K @ [v]" by (cases L rule: rev_cases) auto
    have v: "v \<in> A" "v \<noteq> 0" "kidsOf t v = []" using tinvD(5) [OF Suc.prems, of v] L by auto
    obtain p where p: "parentOf t v = Some p" using tshapeD(7) [OF tinvD(1) [OF Suc.prems] v(1,2)] by blast
    have e: "evictLocked (Suc b) t = evictLocked b (evict_node v p t)"
      using True v p dllD(4) [OF tinvD(4) [OF Suc.prems]] L by simp
    note I = evict_tinv [OF Suc.prems [unfolded L] p] evict_shrinks [OF Suc.prems [unfolded L] p]
    obtain A' L' where A: "tinv (evictLocked b (evict_node v p t)) A' L'"
      "shrinks (evict_node v p t) (A - {v}) (evictLocked b (evict_node v p t)) A'"
      "\<not> overBudget (evictLocked b (evict_node v p t)) \<or> L' = [] \<or> nnodes (evictLocked b (evict_node v p t)) = nnodes (evict_node v p t) - int b"
      using Suc.IH [OF I(1)] by blast
    show ?thesis unfolding e
      by (intro exI conjI, rule A(1), rule shrinks_trans [OF I(2) A(2)]) (use A(3) in \<open>auto simp: evict_fields\<close>)
  qed
qed

text \<open>Without pins the loop makes room for as many nodes as its budget.\<close>

lemma evictLocked_caps:
  assumes "tinv t A L" and "\<forall>a\<in>A. pinsOf t a = 0" and "MaxNodes (tcfg t) > 0" and "nnodes t \<le> MaxNodes (tcfg t) + int b"
  shows "nnodes (evictLocked b t) \<le> MaxNodes (tcfg t)"
proof -
  obtain A' L' where A: "tinv (evictLocked b t) A' L'" "shrinks t A (evictLocked b t) A'"
    "\<not> overBudget (evictLocked b t) \<or> L' = [] \<or> nnodes (evictLocked b t) = nnodes t - int b" using evictLocked_spec [OF assms(1)] by blast
  have c: "tcfg (evictLocked b t) = tcfg t" "A' \<subseteq> A" "pinsOf (evictLocked b t) = pinsOf t" using A(2) by (auto simp: shrinks_def)
  have "nnodes (evictLocked b t) = 0" if "L' = []"
  proof -
    have "A' = {0}"
      using leaf_exists [OF tinvD(1) [OF A(1)]] tinvD(5) [OF A(1)] that assms(2) c by auto
    then show ?thesis using tinvD(2) [OF A(1)] by (simp add: counted_def)
  qed
  then show ?thesis using A(3) assms(3,4) c(1) by (auto simp: overBudget_def)
qed

end
