(* ===== verification/KvOps.thy ===== *)
theory KvOps
  imports KvEvict
begin

text \<open>
  The operations of the trie of \<^verbatim>\<open>kvcache/kvcache.go\<close>, pins included: recording inserts the sequences of the
  request and then makes room, pinning and unpinning walk the chain of a request, and a pinned chain stays
  attached until every pin on it is gone.
\<close>

section \<open>Recording\<close>

definition grows :: "trie \<Rightarrow> nat set \<Rightarrow> trie \<Rightarrow> nat set \<Rightarrow> bool" where
  "grows t A t' A' \<longleftrightarrow> A \<subseteq> A' \<and> (\<forall>a\<in>A. pinsOf t' a = pinsOf t a) \<and> (\<forall>a\<in>A' - A. pinsOf t' a = 0) \<and> tcfg t' = tcfg t \<and>
     pinnedNodes t' = pinnedNodes t \<and> anomalies t' = anomalies t \<and> (\<forall>hs a. follow t 0 hs = Some a \<longrightarrow> follow t' 0 hs = Some a)"

lemma grows_refl: "grows t A t A"
  by (simp add: grows_def)

lemma grows_trans: "grows t A t1 A1 \<Longrightarrow> grows t1 A1 t2 A2 \<Longrightarrow> grows t A t2 A2"
  unfolding grows_def by (auto; metis DiffI)

lemma insert_grows:
  assumes "tinv t A L" and "p \<in> A" and "node_find t p (uHash u) = None" and "insertLocked p u t = (c, t')" and "follow t 0 ps = Some p"
  shows "grows t A t' (insert c A)" and "resident t' = insert (ps @ [uHash u]) (resident t)" and "follow t' 0 (ps @ [uHash u]) = Some c"
    and "node_find t' c k = None" and "nnodes t' = nnodes t + 1"
proof -
  have s: "tshape t A" using tinvD(1) [OF assms(1)] .
  have p: "p \<noteq> alloc t" using tshapeD(3) [OF s assms(2)] by auto
  note F = insert_fields [OF assms(4) p] and S = insert_shape [OF s assms(2-4)] and W = insert_follow [OF s assms(2-5)]
  have none: "follow t 0 (ps @ [uHash u]) = None" using assms(3,5) by (simp add: follow_snoc)
  have "follow t' 0 hs = Some a" if "follow t 0 hs = Some a" for hs a using W [of hs] that none by (auto split: if_splits)
  then show "grows t A t' (insert c A)" using S(2) F by (auto simp: grows_def)
  show "resident t' = insert (ps @ [uHash u]) (resident t)" using W by (auto simp: resident_def)
  show "follow t' 0 (ps @ [uHash u]) = Some c" using W by simp
  show "node_find t' c k = None"
    using node_find_iff [OF S(1), of c k] S(4) [of c] by (cases "node_find t' c k") auto
  show "nnodes t' = nnodes t + 1" by (rule F(9))
qed

definition ext_paths :: "u64 list \<Rightarrow> u64 list \<Rightarrow> u64 list set" where
  "ext_paths ps hs = {ps @ take j hs | j. j \<le> length hs}"

lemma ext_paths_simps: "ext_paths ps [] = {ps}" "ext_paths ps (h # hs) = insert ps (ext_paths (ps @ [h]) hs)"
proof -
  show "ext_paths ps (h # hs) = insert ps (ext_paths (ps @ [h]) hs)" (is "?l = ?r")
  proof
    show "?l \<subseteq> ?r"
    proof
      fix x assume "x \<in> ?l"
      then obtain j where "x = ps @ take j (h # hs)" "j \<le> length (h # hs)" by (auto simp: ext_paths_def)
      then show "x \<in> ?r" by (cases j) (auto simp: ext_paths_def)
    qed
    show "?r \<subseteq> ?l"
    proof
      fix x assume "x \<in> ?r"
      then consider "x = ps" | j where "x = (ps @ [h]) @ take j hs" "j \<le> length hs" by (auto simp: ext_paths_def)
      then show "x \<in> ?l"
      proof cases
        case 1
        then have "x = ps @ take 0 (h # hs)" by simp
        then show ?thesis unfolding ext_paths_def by blast
      next
        case 2
        then have "x = ps @ take (Suc j) (h # hs)" "Suc j \<le> length (h # hs)" by simp_all
        then show ?thesis unfolding ext_paths_def by blast
      qed
    qed
  qed
qed (simp add: ext_paths_def)

lemma ext_paths_prefix: "ext_paths [] hs = {xs. prefix xs hs}"
proof (intro set_eqI iffI)
  fix xs assume "xs \<in> {xs. prefix xs hs}"
  then obtain ys where "hs = xs @ ys" by (auto elim: prefixE)
  then have "xs = [] @ take (length xs) hs" "length xs \<le> length hs" by simp_all
  then show "xs \<in> ext_paths [] hs" unfolding ext_paths_def by blast
qed (auto simp: ext_paths_def take_is_prefix)

lemma insert_units_spec:
  "tinv t A L \<Longrightarrow> n \<in> A \<Longrightarrow> follow t 0 ps = Some n \<Longrightarrow> us = [] \<or> node_find t n (uHash (hd us)) = None \<Longrightarrow>
   insert_units n us t = (leaf, t') \<Longrightarrow>
   \<exists>A' L'. tinv t' A' L' \<and> grows t A t' A' \<and> leaf \<in> A' \<and> follow t' 0 (ps @ map uHash us) = Some leaf \<and>
     resident t' = resident t \<union> ext_paths ps (map uHash us) \<and> nnodes t' = nnodes t + int (length us)"
proof (induction us arbitrary: n ps t A L)
  case Nil
  then have "leaf = n" "t' = t" "ps \<in> resident t" by (auto simp: resident_def)
  then show ?case using Nil grows_refl by (intro exI [of _ A] exI [of _ L]) (auto simp: ext_paths_simps)
next
  case (Cons u us)
  obtain c t1 where c: "insertLocked n u t = (c, t1)" by fastforce
  have nf: "node_find t n (uHash u) = None" using Cons.prems(4) by simp
  note I = insert_grows [OF Cons.prems(1,2) nf c Cons.prems(3)]
  have "insert_units c us t1 = (leaf, t')" using Cons.prems(5) c by simp
  from Cons.IH [OF insert_tinv [OF Cons.prems(1,2) nf c] _ I(3) _ this] I(4) obtain A' L' where A:
    "tinv t' A' L'" "grows t1 (insert c A) t' A'" "leaf \<in> A'" "follow t' 0 ((ps @ [uHash u]) @ map uHash us) = Some leaf"
    "resident t' = resident t1 \<union> ext_paths (ps @ [uHash u]) (map uHash us)" "nnodes t' = nnodes t1 + int (length us)" by auto
  have "ps @ [uHash u] \<in> ext_paths (ps @ [uHash u]) (map uHash us)" by (cases us) (simp_all add: ext_paths_simps)
  moreover have "ps \<in> resident t" using Cons.prems(3) by (simp add: resident_def)
  ultimately have "resident t' = resident t \<union> ext_paths ps (map uHash (u # us))" using A(5) I(2) by (auto simp: ext_paths_simps)
  then show ?case using A(1,3,4,6) I(5) grows_trans [OF I(1) A(2)] by (intro exI [of _ A'] exI [of _ L']) simp
qed

text \<open>The effect of a recording: the tree grows by the request and then shrinks back towards the caps.\<close>

definition records :: "trie \<Rightarrow> nat set \<Rightarrow> u64 list \<Rightarrow> nat \<Rightarrow> trie \<Rightarrow> nat set \<Rightarrow> bool" where
  "records t A hs leaf t' A' \<longleftrightarrow> (\<exists>t1 A1. tshape t1 A1 \<and> grows t A t1 A1 \<and> shrinks t1 A1 t' A' \<and> follow t1 0 hs = Some leaf \<and>
     resident t1 = resident t \<union> ext_paths [] hs \<and> (\<not> Bounded (tcfg t) \<longrightarrow> t' = t1 \<and> A' = A1) \<and>
     (MaxNodes (tcfg t) > 0 \<and> 0 \<le> EvictBudget (tcfg t) \<and> (\<forall>a\<in>A. pinsOf t a = 0) \<and> nnodes t \<le> MaxNodes (tcfg t) \<longrightarrow>
        nnodes t' \<le> MaxNodes (tcfg t)))"

lemma insertFrom_records:
  assumes "tinv t A L" and "descend t 0 us 0 = (n, rest, c)" and "insertFrom n rest t = (leaf, t')"
  shows "\<exists>A' L'. tinv t' A' L' \<and> records t A (map uHash us) leaf t' A'"
proof -
  define k where "k = lead (resident t) (map uHash us)"
  note D = descend_lead [OF assms(2), folded k_def]
  have n: "n \<in> A" using follow_in [OF tinvD(1) [OF assms(1)] tshapeD(2) [OF tinvD(1) [OF assms(1)]] D(4)] .
  have r: "rest = [] \<or> node_find t n (uHash (hd rest)) = None" using D(1,2,5) by (cases "k < length us") (auto simp: hd_drop_conv_nth)
  obtain t1 where i: "insert_units n rest t = (leaf, t1)" and
    t': "t' = (if Bounded (tcfg t1) then evictLocked (nat (int (length rest) + EvictBudget (tcfg t1))) t1 else t1)"
    using assms(3) by (auto simp: insertFrom_def split: prod.splits)
  obtain A1 L1 where A1: "tinv t1 A1 L1" "grows t A t1 A1" "leaf \<in> A1" "follow t1 0 (map uHash (take k us) @ map uHash rest) = Some leaf"
    "resident t1 = resident t \<union> ext_paths (map uHash (take k us)) (map uHash rest)" "nnodes t1 = nnodes t + int (length rest)"
    using insert_units_spec [OF assms(1) n D(4) r i] by blast
  have us: "map uHash (take k us) @ map uHash rest = map uHash us" unfolding D(2) by (simp flip: map_append)
  have res: "resident t1 = resident t \<union> ext_paths [] (map uHash us)"
  proof -
    have "ext_paths [] (xs @ ys) = ext_paths [] xs \<union> ext_paths xs ys" for xs ys :: "u64 list"
    proof (induction ys arbitrary: xs)
      case Nil
      have "xs \<in> ext_paths [] xs" by (auto simp: ext_paths_def intro: exI [of _ "length xs"])
      then show ?case by (auto simp: ext_paths_simps)
    next
      case (Cons y ys)
      have "ext_paths [] (xs @ [y]) = insert (xs @ [y]) (ext_paths [] xs)"
        by (auto simp: ext_paths_prefix)
      moreover have "xs \<in> ext_paths [] xs" by (auto simp: ext_paths_def intro: exI [of _ "length xs"])
      moreover have "xs @ [y] \<in> ext_paths (xs @ [y]) ys" by (cases ys) (simp_all add: ext_paths_simps)
      ultimately show ?case using Cons [of "xs @ [y]"] by (auto simp: ext_paths_simps)
    qed
    from this [of "map uHash (take k us)" "map uHash rest"]
    have e: "ext_paths [] (map uHash us) = ext_paths [] (map uHash (take k us)) \<union> ext_paths (map uHash (take k us)) (map uHash rest)"
      by (simp add: us)
    have "x \<in> resident t" if "x \<in> ext_paths [] (map uHash (take k us))" for x
    proof -
      obtain j where "x = take j (map uHash (take k us))" using \<open>x \<in> _\<close> by (auto simp: ext_paths_def)
      then show ?thesis
        using resident_prefix [of x "drop j (map uHash (take k us))" t] D(4) by (simp add: resident_def)
    qed
    then show ?thesis using A1(5) e by blast
  qed
  have cfg: "tcfg t1 = tcfg t" using A1(2) by (simp add: grows_def)
  let ?b = "nat (int (length rest) + EvictBudget (tcfg t))"
  have cap: "nnodes t' \<le> MaxNodes (tcfg t)"
    if "MaxNodes (tcfg t) > 0" "0 \<le> EvictBudget (tcfg t)" "\<forall>a\<in>A. pinsOf t a = 0" "nnodes t \<le> MaxNodes (tcfg t)"
  proof -
    have "\<forall>a\<in>A1. pinsOf t1 a = 0" using A1(2) that(3) unfolding grows_def by (metis DiffI)
    then have "nnodes (evictLocked ?b t1) \<le> MaxNodes (tcfg t)"
      using evictLocked_caps [OF A1(1), of ?b] that(1,2,4) A1(6) cfg by simp
    then show ?thesis using t' cfg that(1) by (simp add: Bounded_def)
  qed
  show ?thesis
  proof (cases "Bounded (tcfg t)")
    case True
    then have e: "t' = evictLocked ?b t1" using t' cfg by simp
    obtain A' L' where "tinv t' A' L'" "shrinks t1 A1 t' A'" using evictLocked_spec [OF A1(1), of ?b] e by blast
    then show ?thesis using tinvD(1) [OF A1(1)] A1(2,4) res cap True us unfolding records_def by auto
  next
    case False
    then have e: "t' = t1" using t' cfg by simp
    then show ?thesis
      using tinvD(1) [OF A1(1)] A1(1,2,4) res cap False us shrinks_refl [OF tinvD(1) [OF A1(1)]] unfolding records_def by auto
  qed
qed

text \<open>Refreshing the recency of a listed leaf changes nothing else.\<close>

lemma moveToFront_tinv:
  assumes "tinv t A L" and "n \<in> A" and "inLRU t n"
  shows "tinv (lruMoveToFront n t) A (n # remove1 n L)"
proof -
  have n: "n \<in> set L" using tinvD(6) [OF assms(1,2)] assms(3) by simp
  have f: "lruMoveToFront n t = t \<and> L = n # remove1 n L \<or> lruMoveToFront n t = lruPushFront n (lruRemove n t)"
    using dllD(3) [OF tinvD(4) [OF assms(1)]] n by (cases L) (auto simp: lruMoveToFront_def)
  then show ?thesis
  proof
    assume "lruMoveToFront n t = t \<and> L = n # remove1 n L"
    then show ?thesis using assms(1) by simp
  next
    assume e: "lruMoveToFront n t = lruPushFront n (lruRemove n t)"
    have "set (n # remove1 n L) = set L" using n dllD(1) [OF tinvD(4) [OF assms(1)]] by auto
    then show ?thesis
      using assms lru.lru_refresh [OF tinvD(4) [OF assms(1)] n] n tinvD(6,7) [OF assms(1)]
      unfolding e tinv_def tshape_def counted_def listed_def by auto
  qed
qed

lemma follow_cong: "kidsOf t' = kidsOf t \<Longrightarrow> keyOf t' = keyOf t \<Longrightarrow> follow t' n hs = follow t n hs"
  by (induction hs arbitrary: n) (auto simp: node_find_def split: option.split)

lemma moveToFront_frame [simp]:
  "kidsOf (lruMoveToFront n t) = kidsOf t" "keyOf (lruMoveToFront n t) = keyOf t" "tcfg (lruMoveToFront n t) = tcfg t"
  "pinsOf (lruMoveToFront n t) = pinsOf t" "nnodes (lruMoveToFront n t) = nnodes t" "pinnedNodes (lruMoveToFront n t) = pinnedNodes t"
  "anomalies (lruMoveToFront n t) = anomalies t"
  by (simp_all add: lruMoveToFront_def)

lemma descend_cong: "kidsOf t' = kidsOf t \<Longrightarrow> keyOf t' = keyOf t \<Longrightarrow> descend t' n us c = descend t n us c"
  by (induction us arbitrary: n c) (auto simp: node_find_def split: option.split)

lemma commit_records:
  assumes "tinv t A L" and "us \<noteq> []"
  shows "\<exists>A' L' leaf. tinv (Trie_Commit us t) A' L' \<and> records t A (map uHash us) leaf (Trie_Commit us t) A'"
proof -
  obtain n rest c where d: "descend t 0 us 0 = (n, rest, c)" by (metis prod_cases3)
  define t0 where "t0 = (if n \<noteq> 0 \<and> inLRU t n then lruMoveToFront n t else t)"
  obtain leaf t' where i: "insertFrom n rest t0 = (leaf, t')" by fastforce
  have T: "Trie_Commit us t = t'" using assms(2) d i by (simp add: Trie_Commit_def commitLocked_def t0_def)
  have f: "kidsOf t0 = kidsOf t" "keyOf t0 = keyOf t" "tcfg t0 = tcfg t" "pinsOf t0 = pinsOf t" "nnodes t0 = nnodes t"
    "pinnedNodes t0 = pinnedNodes t" "anomalies t0 = anomalies t" by (simp_all add: t0_def)
  have "n \<in> A" using follow_in [OF tinvD(1) [OF assms(1)] tshapeD(2) [OF tinvD(1) [OF assms(1)]] descend_lead(4) [OF d]] .
  then have "\<exists>L0. tinv t0 A L0" using moveToFront_tinv [OF assms(1), of n] assms(1) by (cases "n \<noteq> 0 \<and> inLRU t n") (auto simp: t0_def)
  then obtain L0 where t0: "tinv t0 A L0" by blast
  have "descend t0 0 us 0 = (n, rest, c)" using d descend_cong [OF f(1,2)] by simp
  from insertFrom_records [OF t0 this i] obtain A' L' where "tinv t' A' L'" "records t0 A (map uHash us) leaf t' A'" by blast
  moreover have "resident t0 = resident t" using follow_cong [OF f(1,2)] by (simp add: resident_def)
  moreover have "grows t0 A x y \<longleftrightarrow> grows t A x y" for x y using follow_cong [OF f(1,2)] by (simp add: grows_def f)
  ultimately show ?thesis unfolding T records_def f by (intro exI [of _ A'] exI [of _ L'] exI [of _ leaf]) simp
qed

lemma record_records:
  assumes "tinv t A L" and "us \<noteq> []"
  shows "\<exists>A' L' leaf. tinv (snd (RecordAndCount us t)) A' L' \<and> records t A (map uHash us) leaf (snd (RecordAndCount us t)) A'"
proof -
  obtain n rest c where d: "descend t 0 us 0 = (n, rest, c)" by (metis prod_cases3)
  obtain leaf t' where i: "insertFrom n rest t = (leaf, t')" by fastforce
  show ?thesis using insertFrom_records [OF assms(1) d i] assms(2) d i by (auto simp: RecordAndCount_def)
qed

end
