(* ===== verification/KvPin.thy ===== *)
theory KvPin
  imports KvOps
begin

text \<open>
  Pins of \<^verbatim>\<open>kvcache/kvcache.go\<close>: a pin counts on every node of the chain of a resident request, takes the
  chain out of the recency list, and keeps it attached through every later recording until it is released.
\<close>

section \<open>Chains\<close>

fun path_list :: "trie \<Rightarrow> nat \<Rightarrow> u64 list \<Rightarrow> nat list" where
  "path_list t n [] = []"
| "path_list t n (h # hs) = (case node_find t n h of None \<Rightarrow> [] | Some c \<Rightarrow> c # path_list t c hs)"

lemma path_list_snoc: "follow t n hs = Some m \<Longrightarrow> path_list t n (hs @ [h]) = path_list t n hs @ (case node_find t m h of None \<Rightarrow> [] | Some c \<Rightarrow> [c])"
  by (induction hs arbitrary: n) (auto split: option.splits)

lemma path_list_cong: "(\<And>xs. prefix xs hs \<Longrightarrow> follow t' n xs = follow t n xs) \<Longrightarrow> path_list t' n hs = path_list t n hs"
proof (induction hs arbitrary: n)
  case (Cons h hs)
  have e: "node_find t' n h = node_find t n h"
    using Cons.prems [of "[h]"] by (auto split: option.splits)
  show ?case
  proof (cases "node_find t n h")
    case (Some c)
    have "follow t' c xs = follow t c xs" if "prefix xs hs" for xs
      using Cons.prems [of "h # xs"] that e Some by simp
    from Cons.IH [OF this] show ?thesis using e Some by simp
  qed (use e in simp)
qed simp

lemma path_list_props:
  "tshape t A \<Longrightarrow> follow t 0 hs = Some a \<Longrightarrow>
   distinct (path_list t 0 hs) \<and> set (path_list t 0 hs) \<subseteq> A - {0} \<and> (\<forall>x\<in>set (path_list t 0 hs). x \<le> a)"
proof (induction hs arbitrary: a rule: rev_induct)
  case (snoc h hs)
  obtain p where p: "follow t 0 hs = Some p" "p \<in> A" "a \<in> set (kidsOf t p)" "keyOf t a = h" "a \<noteq> 0" "p < a" "a \<in> A"
    using follow_snocE [OF snoc.prems] by metis
  have "node_find t p h = Some a" using node_find_iff [OF snoc.prems(1) p(2)] p(3,4) by simp
  then have "path_list t 0 (hs @ [h]) = path_list t 0 hs @ [a]" using path_list_snoc [OF p(1), of h] by simp
  then show ?case using snoc.IH [OF snoc.prems(1) p(1)] p by fastforce
qed simp

lemma path_list_prefix:
  assumes "a \<in> set (path_list t n hs)"
  shows "\<exists>xs. prefix xs hs \<and> xs \<noteq> [] \<and> follow t n xs = Some a"
  using assms
proof (induction hs arbitrary: n)
  case (Cons h hs)
  obtain c where c: "node_find t n h = Some c" "a = c \<or> a \<in> set (path_list t c hs)"
    using Cons.prems by (cases "node_find t n h") auto
  show ?case
  proof (cases "a = c")
    case True
    then show ?thesis using c by (intro exI [of _ "[h]"]) simp
  next
    case False
    then obtain xs where "prefix xs hs" "follow t c xs = Some a" using Cons.IH [of c] c by blast
    then show ?thesis using c by (intro exI [of _ "h # xs"]) simp
  qed
qed simp

lemma prefix_path_list: "prefix xs hs \<Longrightarrow> xs \<noteq> [] \<Longrightarrow> follow t n xs = Some a \<Longrightarrow> a \<in> set (path_list t n hs)"
proof (induction hs arbitrary: n xs)
  case (Cons h hs)
  then obtain ys where xs: "xs = h # ys" "prefix ys hs" by (cases xs) auto
  then obtain c where c: "node_find t n h = Some c" "follow t c ys = Some a" using Cons.prems(3) by (auto split: option.splits)
  then show ?case using Cons.IH [OF xs(2) _ c(2)] by (cases "ys = []") auto
qed simp

text \<open>The walks over parent pointers visit the chain from its leaf up.\<close>

lemma up_chain_path:
  assumes "tshape t A" and "\<And>n s. parentOf (f n s) = parentOf s"
  shows "follow t 0 hs = Some a \<Longrightarrow> parentOf s = parentOf t \<Longrightarrow> a < k \<Longrightarrow> up_chain f k (Some a) s = fold f (rev (path_list t 0 hs)) s"
proof (induction hs arbitrary: a s k rule: rev_induct)
  case Nil
  then show ?case by (cases k) auto
next
  case (snoc h hs)
  obtain p where p: "follow t 0 hs = Some p" "p \<in> A" "a \<in> set (kidsOf t p)" "keyOf t a = h" "parentOf t a = Some p" "a \<noteq> 0" "p < a"
    using follow_snocE [OF assms(1) snoc.prems(1)] by metis
  have "node_find t p h = Some a" using node_find_iff [OF assms(1) p(2)] p(3,4) by simp
  then have l: "path_list t 0 (hs @ [h]) = path_list t 0 hs @ [a]" using path_list_snoc [OF p(1), of h] by simp
  obtain j where j: "k = Suc j" using snoc.prems(3) by (cases k) auto
  have "up_chain f j (Some p) (f a s) = fold f (rev (path_list t 0 hs)) (f a s)"
    by (rule snoc.IH [OF p(1)]) (use assms(2) snoc.prems(2,3) p(7) j in auto)
  then show ?case using l j p(5,6) assms(2) snoc.prems(2) by (simp add: Let_def)
qed

section \<open>Pinning one node\<close>

definition same_tree :: "trie \<Rightarrow> trie \<Rightarrow> bool" where
  "same_tree t t' \<longleftrightarrow> tcfg t' = tcfg t \<and> alloc t' = alloc t \<and> keyOf t' = keyOf t \<and> tokOf t' = tokOf t \<and> parentOf t' = parentOf t \<and>
     kidsOf t' = kidsOf t \<and> nnodes t' = nnodes t \<and> ntokens t' = ntokens t \<and> anomalies t' = anomalies t"

lemma same_tree_follow: "same_tree t t' \<Longrightarrow> follow t' n hs = follow t n hs"
  by (intro follow_cong) (simp_all add: same_tree_def)

lemma same_tree_shape: "same_tree t t' \<Longrightarrow> tshape t A \<Longrightarrow> tshape t' A"
  unfolding same_tree_def tshape_def by simp

lemma same_tree_counted: "same_tree t t' \<Longrightarrow> counted t A \<Longrightarrow> counted t' A"
  unfolding same_tree_def counted_def by simp

lemma same_tree_trans: "same_tree t t1 \<Longrightarrow> same_tree t1 t2 \<Longrightarrow> same_tree t t2"
  unfolding same_tree_def by simp

lemma same_tree_pin [simp]: "same_tree t (pin_node n t)"
  by (simp add: same_tree_def pin_node_def Let_def)

lemma same_tree_unpin [simp]: "same_tree t (unpin_node n t)"
  by (simp add: same_tree_def unpin_node_def Let_def)

definition pinned_ok :: "trie \<Rightarrow> nat set \<Rightarrow> bool" where
  "pinned_ok t A \<longleftrightarrow> pinnedNodes t = int (card {a \<in> A. 0 < pinsOf t a})"

lemma pin_node_fields:
  "pinsOf (pin_node n t) = (pinsOf t)(n := pinsOf t n + 1)"
  "pinnedNodes (pin_node n t) = pinnedNodes t + (if pinsOf t n = 0 then 1 else 0)"
  by (simp_all add: pin_node_def Let_def)

lemma unpin_node_fields:
  "pinsOf (unpin_node n t) = (pinsOf t)(n := if pinsOf t n = 0 then 0 else pinsOf t n - 1)"
  "pinnedNodes (unpin_node n t) = pinnedNodes t - (if pinsOf t n = 1 then 1 else 0)"
  by (auto simp: unpin_node_def Let_def)

lemma pin_node_tinv:
  assumes "tinv t A L" and "n \<in> A" and "n \<noteq> 0"
  shows "tinv (pin_node n t) A (remove1 n L)"
proof -
  let ?t = "pin_node n t"
  have L: "n \<in> set L \<longleftrightarrow> inLRU t n" using tinvD(6) [OF assms(1,2)] by simp
  define t1 where "t1 = (if pinsOf t n = 0 \<and> inLRU t n then lruRemove n t else t)"
  have d1: "dll t1 (remove1 n L)"
    using lru.lru_remove [OF tinvD(4) [OF assms(1)], of n] tinvD(4) [OF assms(1)] tinvD(5) [OF assms(1), of n] L
    by (auto simp: t1_def remove1_idem)
  have p: "prevOf ?t = prevOf t1" "nextOf ?t = nextOf t1" "lhead ?t = lhead t1" "ltail ?t = ltail t1" "inLRU ?t = inLRU t1"
    by (auto simp: pin_node_def Let_def t1_def)
  have d: "dll ?t (remove1 n L)" using d1 p by (simp add: dll_def)
  have k: "kidsOf ?t = kidsOf t" using same_tree_pin [of t n] by (simp add: same_tree_def)
  have dis: "distinct L" using dllD(1) [OF tinvD(4) [OF assms(1)]] .
  have n0: "0 \<le> pinsOf t n" using tinvD(7) [OF assms(1,2)] .
  have "a \<in> set (remove1 n L) \<longleftrightarrow> a \<in> A \<and> a \<noteq> 0 \<and> kidsOf ?t a = [] \<and> pinsOf ?t a = 0" for a
    using tinvD(5) [OF assms(1), of a] dis n0 k by (auto simp: pin_node_fields)
  moreover have "a \<in> set (remove1 n L)" if "a \<in> A" "inLRU ?t a" for a
    using that p(5) tinvD(6) [OF assms(1) that(1)] tinvD(5) [OF assms(1), of n] dis L
    by (cases "a = n") (auto simp: t1_def split: if_splits)
  moreover have "\<forall>a\<in>A. 0 \<le> pinsOf ?t a" using tinvD(7) [OF assms(1)] n0 by (auto simp: pin_node_fields)
  ultimately have "listed ?t A (remove1 n L)" using d unfolding listed_def by blast
  then show ?thesis
    using same_tree_shape [OF same_tree_pin tinvD(1) [OF assms(1)]] same_tree_counted [OF same_tree_pin tinvD(2) [OF assms(1)]]
    by (simp add: tinv_def)
qed

lemma unpin_node_tinv:
  assumes "tinv t A L" and "n \<in> A" and "n \<noteq> 0" and "0 < pinsOf t n"
  shows "tinv (unpin_node n t) A (if pinsOf t n = 1 \<and> kidsOf t n = [] then n # L else L)"
proof -
  let ?t = "unpin_node n t" and ?L = "if pinsOf t n = 1 \<and> kidsOf t n = [] then n # L else L"
  have nL: "n \<notin> set L" using tinvD(5) [OF assms(1), of n] assms(4) by simp
  define t1 where "t1 = t\<lparr>pinsOf := (pinsOf t)(n := pinsOf t n - 1), pinnedNodes := pinnedNodes t - (if pinsOf t n = 1 then 1 else 0)\<rparr>"
  have d1: "dll t1 L" using tinvD(4) [OF assms(1)] by (simp add: t1_def dll_def)
  define c where "c \<longleftrightarrow> pinsOf t n = 1 \<and> kidsOf t n = []"
  have t: "?t = (if c then lruPushFront n t1 else t1)"
    using assms(4) by (auto simp: unpin_node_def Let_def t1_def c_def)
  have d: "dll ?t ?L" using d1 lru.lru_front [OF d1 nL] t by (cases c) (auto simp: c_def)
  have k: "kidsOf ?t = kidsOf t" using same_tree_unpin [of t n] by (simp add: same_tree_def)
  have "a \<in> set ?L \<longleftrightarrow> a \<in> A \<and> a \<noteq> 0 \<and> kidsOf ?t a = [] \<and> pinsOf ?t a = 0" for a
    using tinvD(5) [OF assms(1), of a] k assms(2-4) nL by (cases "a = n") (auto simp: unpin_node_fields)
  moreover have "a \<in> set ?L" if "a \<in> A" "inLRU ?t a" for a
  proof -
    have "inLRU ?t a \<longleftrightarrow> inLRU t a \<or> a = n \<and> c" using t by (cases c) (auto simp: t1_def)
    then show ?thesis using tinvD(6) [OF assms(1) that(1)] that(2) by (auto simp: c_def)
  qed
  moreover have "\<forall>a\<in>A. 0 \<le> pinsOf ?t a" using tinvD(7) [OF assms(1)] assms(4) by (auto simp: unpin_node_fields)
  ultimately have "listed ?t A ?L" using d unfolding listed_def by blast
  then show ?thesis
    using same_tree_shape [OF same_tree_unpin tinvD(1) [OF assms(1)]] same_tree_counted [OF same_tree_unpin tinvD(2) [OF assms(1)]]
    by (simp add: tinv_def)
qed

lemma pin_node_pinned: "pinned_ok t A \<Longrightarrow> finite A \<Longrightarrow> n \<in> A \<Longrightarrow> 0 \<le> pinsOf t n \<Longrightarrow> pinned_ok (pin_node n t) A"
proof -
  assume a: "pinned_ok t A" "finite A" "n \<in> A" "0 \<le> pinsOf t n"
  have "{a \<in> A. 0 < pinsOf (pin_node n t) a} = insert n {a \<in> A. 0 < pinsOf t a}" using a by (auto simp: pin_node_fields)
  then show ?thesis using a by (auto simp: pinned_ok_def pin_node_fields card_insert_if)
qed

lemma unpin_node_pinned: "pinned_ok t A \<Longrightarrow> finite A \<Longrightarrow> n \<in> A \<Longrightarrow> 0 < pinsOf t n \<Longrightarrow> pinned_ok (unpin_node n t) A"
proof -
  assume a: "pinned_ok t A" "finite A" "n \<in> A" "0 < pinsOf t n"
  have e: "{a \<in> A. 0 < pinsOf (unpin_node n t) a} = (if pinsOf t n = 1 then {a \<in> A. 0 < pinsOf t a} - {n} else {a \<in> A. 0 < pinsOf t a})"
    using a by (auto simp: unpin_node_fields)
  have "card ({a \<in> A. 0 < pinsOf t a} - {n}) = card {a \<in> A. 0 < pinsOf t a} - 1" "0 < card {a \<in> A. 0 < pinsOf t a}"
    using a by (auto simp: card_gt_0_iff)
  then show ?thesis using a e by (auto simp: pinned_ok_def unpin_node_fields of_nat_diff)
qed

section \<open>Pinning a chain\<close>

lemma fold_pin:
  "tinv t A L \<Longrightarrow> pinned_ok t A \<Longrightarrow> distinct xs \<Longrightarrow> set xs \<subseteq> A - {0} \<Longrightarrow>
   \<exists>L'. tinv (fold pin_node xs t) A L' \<and> pinned_ok (fold pin_node xs t) A \<and> same_tree t (fold pin_node xs t) \<and>
     pinsOf (fold pin_node xs t) = (\<lambda>a. pinsOf t a + (if a \<in> set xs then 1 else 0))"
proof (induction xs arbitrary: t L)
  case Nil
  then show ?case by (auto simp: same_tree_def)
next
  case (Cons x xs)
  have x: "x \<in> A" "x \<noteq> 0" using Cons.prems(4) by auto
  have p: "pinned_ok (pin_node x t) A"
    using pin_node_pinned [OF Cons.prems(2) tshapeD(1) [OF tinvD(1) [OF Cons.prems(1)]] x(1) tinvD(7) [OF Cons.prems(1) x(1)]] .
  obtain L' where L: "tinv (fold pin_node xs (pin_node x t)) A L'" "pinned_ok (fold pin_node xs (pin_node x t)) A"
    "same_tree (pin_node x t) (fold pin_node xs (pin_node x t))"
    "pinsOf (fold pin_node xs (pin_node x t)) = (\<lambda>a. pinsOf (pin_node x t) a + (if a \<in> set xs then 1 else 0))"
    using Cons.IH [OF pin_node_tinv [OF Cons.prems(1) x] p] Cons.prems(3,4) by auto
  have "pinsOf (fold pin_node xs (pin_node x t)) = (\<lambda>a. pinsOf t a + (if a \<in> set (x # xs) then 1 else 0))"
    unfolding L(4) pin_node_fields using Cons.prems(3) by auto
  then show ?case using L(1,2) same_tree_trans [OF same_tree_pin L(3)] by auto
qed

lemma fold_unpin:
  "tinv t A L \<Longrightarrow> pinned_ok t A \<Longrightarrow> distinct xs \<Longrightarrow> set xs \<subseteq> A - {0} \<Longrightarrow> \<forall>x\<in>set xs. 0 < pinsOf t x \<Longrightarrow>
   \<exists>L'. tinv (fold unpin_node xs t) A L' \<and> pinned_ok (fold unpin_node xs t) A \<and> same_tree t (fold unpin_node xs t) \<and>
     pinsOf (fold unpin_node xs t) = (\<lambda>a. pinsOf t a - (if a \<in> set xs then 1 else 0))"
proof (induction xs arbitrary: t L)
  case Nil
  then show ?case by (auto simp: same_tree_def)
next
  case (Cons x xs)
  have x: "x \<in> A" "x \<noteq> 0" "0 < pinsOf t x" using Cons.prems(4,5) by auto
  have p: "pinned_ok (unpin_node x t) A"
    using unpin_node_pinned [OF Cons.prems(2) tshapeD(1) [OF tinvD(1) [OF Cons.prems(1)]] x(1,3)] .
  have q: "\<forall>y\<in>set xs. 0 < pinsOf (unpin_node x t) y" using Cons.prems(3,5) by (auto simp: unpin_node_fields)
  obtain L' where L: "tinv (fold unpin_node xs (unpin_node x t)) A L'" "pinned_ok (fold unpin_node xs (unpin_node x t)) A"
    "same_tree (unpin_node x t) (fold unpin_node xs (unpin_node x t))"
    "pinsOf (fold unpin_node xs (unpin_node x t)) = (\<lambda>a. pinsOf (unpin_node x t) a - (if a \<in> set xs then 1 else 0))"
    using Cons.IH [OF unpin_node_tinv [OF Cons.prems(1) x] p _ _ q] Cons.prems(3,4) by auto
  have "pinsOf (fold unpin_node xs (unpin_node x t)) = (\<lambda>a. pinsOf t a - (if a \<in> set (x # xs) then 1 else 0))"
    unfolding L(4) unpin_node_fields using Cons.prems(3) x(3) by auto
  then show ?case using L(1,2) same_tree_trans [OF same_tree_unpin L(3)] by auto
qed

text \<open>The pins held: the leaf of each and the keys it was taken for.\<close>

definition pcount :: "trie \<Rightarrow> (nat \<times> u64 list) list \<Rightarrow> nat \<Rightarrow> int" where
  "pcount t ps a = (\<Sum>p\<leftarrow>ps. if a \<in> set (path_list t 0 (snd p)) then 1 else 0)"

definition pins_ok :: "trie \<Rightarrow> nat set \<Rightarrow> (nat \<times> u64 list) list \<Rightarrow> bool" where
  "pins_ok t A ps \<longleftrightarrow> (\<forall>p\<in>set ps. follow t 0 (snd p) = Some (fst p)) \<and> (\<forall>a\<in>A. pinsOf t a = pcount t ps a) \<and> pinned_ok t A"

lemma pcount_pos: "p \<in> set ps \<Longrightarrow> a \<in> set (path_list t 0 (snd p)) \<Longrightarrow> 0 < pcount t ps a"
proof -
  assume p: "p \<in> set ps" "a \<in> set (path_list t 0 (snd p))"
  have "0 \<le> pcount t (remove1 p ps) a" by (auto simp: pcount_def intro!: sum_list_nonneg)
  moreover have "pcount t ps a = 1 + pcount t (remove1 p ps) a"
    using sum_list_map_remove1 [OF p(1), of "\<lambda>p. if a \<in> set (path_list t 0 (snd p)) then 1 else (0 :: int)"] p(2)
    by (simp add: pcount_def)
  ultimately show ?thesis by simp
qed

lemma pcount_zero: "\<forall>p\<in>set ps. a \<notin> set (path_list t 0 (snd p)) \<Longrightarrow> pcount t ps a = 0"
  by (induction ps) (auto simp: pcount_def)

lemma pcount_cong: "\<forall>p\<in>set ps. path_list t' 0 (snd p) = path_list t 0 (snd p) \<Longrightarrow> pcount t' ps a = pcount t ps a"
  by (induction ps) (auto simp: pcount_def)

lemma same_tree_path: "same_tree t t' \<Longrightarrow> path_list t' 0 hs = path_list t 0 hs"
  by (rule path_list_cong) (rule same_tree_follow)

lemma pinChain_spec:
  assumes "tinv t A L" and "pins_ok t A ps" and "follow t 0 hs = Some leaf"
  shows "\<exists>L'. tinv (pinChain leaf t) A L' \<and> pins_ok (pinChain leaf t) A ((leaf, hs) # ps) \<and> same_tree t (pinChain leaf t)"
proof -
  let ?xs = "path_list t 0 hs"
  have e: "pinChain leaf t = fold pin_node (rev ?xs) t"
    unfolding pinChain_def by (rule up_chain_path [OF tinvD(1) [OF assms(1)] _ assms(3)]) (use same_tree_pin in \<open>auto simp: same_tree_def\<close>)
  have "pinned_ok t A" using assms(2) by (simp add: pins_ok_def)
  from fold_pin [OF assms(1) this, of "rev ?xs"] path_list_props [OF tinvD(1) [OF assms(1)] assms(3)] obtain L' where L:
    "tinv (pinChain leaf t) A L'" "pinned_ok (pinChain leaf t) A" "same_tree t (pinChain leaf t)"
    "pinsOf (pinChain leaf t) = (\<lambda>a. pinsOf t a + (if a \<in> set ?xs then 1 else 0))" unfolding e by auto
  have "pcount (pinChain leaf t) ((leaf, hs) # ps) a = pcount t ps a + (if a \<in> set ?xs then 1 else 0)" for a
    using pcount_cong [of ps "pinChain leaf t" t a] same_tree_path [OF L(3)] by (simp add: pcount_def)
  then have "pins_ok (pinChain leaf t) A ((leaf, hs) # ps)"
    using assms(2,3) L(2,4) same_tree_follow [OF L(3)] by (simp add: pins_ok_def)
  then show ?thesis using L(1,3) by blast
qed

lemma unpinChain_spec:
  assumes "tinv t A L" and "pins_ok t A ps" and "(leaf, hs) \<in> set ps"
  shows "\<exists>L'. tinv (unpinChain leaf t) A L' \<and> pins_ok (unpinChain leaf t) A (remove1 (leaf, hs) ps) \<and> same_tree t (unpinChain leaf t)"
proof -
  let ?xs = "path_list t 0 hs"
  have f: "follow t 0 hs = Some leaf" using assms(2,3) by (auto simp: pins_ok_def)
  have e: "unpinChain leaf t = fold unpin_node (rev ?xs) t"
    unfolding unpinChain_def by (rule up_chain_path [OF tinvD(1) [OF assms(1)] _ f]) (use same_tree_unpin in \<open>auto simp: same_tree_def\<close>)
  have p: "pinned_ok t A" using assms(2) by (simp add: pins_ok_def)
  have "0 < pinsOf t x" if "x \<in> set ?xs" for x
    using pcount_pos [OF assms(3), of x t] that path_list_props [OF tinvD(1) [OF assms(1)] f] assms(2) unfolding pins_ok_def by auto
  with fold_unpin [OF assms(1) p, of "rev ?xs"] path_list_props [OF tinvD(1) [OF assms(1)] f] obtain L' where L:
    "tinv (unpinChain leaf t) A L'" "pinned_ok (unpinChain leaf t) A" "same_tree t (unpinChain leaf t)"
    "pinsOf (unpinChain leaf t) = (\<lambda>a. pinsOf t a - (if a \<in> set ?xs then 1 else 0))" unfolding e by auto
  have "pcount (unpinChain leaf t) (remove1 (leaf, hs) ps) a = pcount t ps a - (if a \<in> set ?xs then 1 else 0)" for a
    using sum_list_map_remove1 [OF assms(3), of "\<lambda>p. if a \<in> set (path_list t 0 (snd p)) then 1 else (0 :: int)"]
      pcount_cong [of "remove1 (leaf, hs) ps" "unpinChain leaf t" t a] same_tree_path [OF L(3)] by (simp add: pcount_def)
  then have "pins_ok (unpinChain leaf t) A (remove1 (leaf, hs) ps)"
    using assms(2) L(2,4) same_tree_follow [OF L(3)] by (auto simp: pins_ok_def dest: notin_set_remove1)
  then show ?thesis using L(1,3) by blast
qed

section \<open>Pins across recordings and evictions\<close>

lemma grows_pins:
  assumes "tshape t A" and "grows t A t' A'" and "pins_ok t A ps"
  shows "pins_ok t' A' ps"
proof -
  have g: "A \<subseteq> A'" "\<And>a. a \<in> A \<Longrightarrow> pinsOf t' a = pinsOf t a" "\<And>a. a \<in> A' - A \<Longrightarrow> pinsOf t' a = 0" "pinnedNodes t' = pinnedNodes t"
    "\<And>hs a. follow t 0 hs = Some a \<Longrightarrow> follow t' 0 hs = Some a" using assms(2) by (auto simp: grows_def)
  have f: "follow t 0 (snd p) = Some (fst p)" if "p \<in> set ps" for p using assms(3) that by (auto simp: pins_ok_def)
  have pl: "\<forall>p\<in>set ps. path_list t' 0 (snd p) = path_list t 0 (snd p)"
  proof (intro ballI path_list_cong)
    fix p xs assume p: "p \<in> set ps" "prefix xs (snd p)"
    then obtain a where "follow t 0 xs = Some a" using f [OF p(1)] by (auto simp: follow_append elim!: prefixE split: option.splits)
    then show "follow t' 0 xs = follow t 0 xs" using g(5) by simp
  qed
  have "pinsOf t' a = pcount t' ps a" if "a \<in> A'" for a
  proof (cases "a \<in> A")
    case True
    then show ?thesis using assms(3) g(2) pcount_cong [OF pl] by (simp add: pins_ok_def)
  next
    case False
    then have "\<forall>p\<in>set ps. a \<notin> set (path_list t' 0 (snd p))" using pl path_list_props [OF assms(1) f] by fastforce
    then show ?thesis using pcount_zero g(3) that False by simp
  qed
  moreover have "{a \<in> A'. 0 < pinsOf t' a} = {a \<in> A. 0 < pinsOf t a}" using g(1-3) by force
  then have "pinned_ok t' A'" using assms(3) g(4) by (simp add: pins_ok_def pinned_ok_def)
  ultimately show ?thesis using f g(5) by (simp add: pins_ok_def)
qed

lemma shrinks_pins:
  assumes "tshape t A" and "tshape t' A'" and "shrinks t A t' A'" and "pins_ok t A ps"
  shows "pins_ok t' A' ps"
proof -
  have g: "A' \<subseteq> A" "\<And>a. a \<in> A \<Longrightarrow> 0 < pinsOf t a \<Longrightarrow> a \<in> A'" "pinsOf t' = pinsOf t" "pinnedNodes t' = pinnedNodes t"
    "\<And>hs. follow t' 0 hs = (case follow t 0 hs of None \<Rightarrow> None | Some a \<Rightarrow> if a \<in> A' then Some a else None)"
    using assms(3) by (auto simp: shrinks_def)
  have f: "follow t 0 (snd p) = Some (fst p)" if "p \<in> set ps" for p using assms(4) that by (auto simp: pins_ok_def)
  have k: "follow t' 0 xs = follow t 0 xs" if p: "p \<in> set ps" "prefix xs (snd p)" for p xs
  proof -
    obtain a where a: "follow t 0 xs = Some a" using f [OF p(1)] p(2) by (auto simp: follow_append elim!: prefixE split: option.splits)
    have "a \<in> A'"
    proof (cases "xs = []")
      case True
      then show ?thesis using a tshapeD(2) [OF assms(2)] by simp
    next
      case False
      have "a \<in> set (path_list t 0 (snd p))" using prefix_path_list [OF p(2) False a] .
      then have "0 < pcount t ps a" "a \<in> A" using pcount_pos [OF p(1)] path_list_props [OF assms(1) f [OF p(1)]] by auto
      then show ?thesis using g(2) assms(4) by (simp add: pins_ok_def)
    qed
    then show ?thesis using a g(5) by simp
  qed
  then have "\<forall>p\<in>set ps. path_list t' 0 (snd p) = path_list t 0 (snd p)" by (intro ballI path_list_cong) blast
  from pcount_cong [OF this] have "\<forall>a\<in>A'. pinsOf t' a = pcount t' ps a" using g(1,3) assms(4) by (auto simp: pins_ok_def)
  moreover have "{a \<in> A'. 0 < pinsOf t' a} = {a \<in> A. 0 < pinsOf t a}" using g(1-3) by force
  then have "pinned_ok t' A'" using assms(4) g(4) by (simp add: pins_ok_def pinned_ok_def)
  ultimately show ?thesis using f k by (simp add: pins_ok_def)
qed

lemma records_pins:
  assumes "tinv t A L" and "tinv t' A' L'" and "records t A hs leaf t' A'" and "pins_ok t A ps"
  shows "pins_ok t' A' ps"
proof -
  obtain t1 A1 where r: "grows t A t1 A1" "shrinks t1 A1 t' A'" "tshape t1 A1"
    using assms(2,3) unfolding records_def by blast
  show ?thesis
    by (rule shrinks_pins [OF r(3) tinvD(1) [OF assms(2)] r(2) grows_pins [OF tinvD(1) [OF assms(1)] r(1) assms(4)]])
qed

end
