(* ===== verification/KvFlight.thy ===== *)
theory KvFlight
  imports KvPin
begin

text \<open>
  When the requests in flight fit the cache of \<^verbatim>\<open>kvcache/kvcache.go\<close>: with a cap on nodes that binds before the
  cap on tokens, as \<^verbatim>\<open>NewEngine\<close> of \<^verbatim>\<open>router/internal/mockvllm/engine.go\<close> configures it, making room for a request
  stops before the request itself, and the cap holds after every operation.
\<close>

section \<open>Everything unlisted is pinned\<close>

lemma leaf_below:
  assumes "tshape t A" and "follow t 0 xs = Some a"
  shows "\<exists>ys b. follow t 0 (xs @ ys) = Some b \<and> kidsOf t b = []"
  using assms(2)
proof (induction "alloc t - a" arbitrary: xs a rule: less_induct)
  case less
  have a: "a \<in> A" using follow_in [OF assms(1) tshapeD(2) [OF assms(1)] less.prems] .
  show ?case
  proof (cases "kidsOf t a = []")
    case True
    then show ?thesis using less.prems by (intro exI [of _ "[]"] exI [of _ a]) simp
  next
    case False
    then obtain c where c: "c \<in> set (kidsOf t a)" by (cases "kidsOf t a") auto
    have "follow t 0 (xs @ [keyOf t c]) = Some c"
      using less.prems c node_find_iff [OF assms(1) a, of "keyOf t c" c] by (simp add: follow_snoc)
    moreover have "alloc t - c < alloc t - a"
      using parent_less [OF assms(1) a c] tshapeD(3) [OF assms(1) a] by linarith
    ultimately obtain ys b where "follow t 0 ((xs @ [keyOf t c]) @ ys) = Some b" "kidsOf t b = []" using less.hyps by blast
    then show ?thesis by (intro exI [of _ "keyOf t c # ys"] exI [of _ b]) simp
  qed
qed

definition flight :: "(nat \<times> u64 list) list \<Rightarrow> nat" where
  "flight ps = (\<Sum>p\<leftarrow>ps. length (snd p))"

lemma flight_simps [simp]: "flight [] = 0" "flight (p # ps) = length (snd p) + flight ps"
  by (simp_all add: flight_def)

lemma flight_remove1: "flight (remove1 p ps) \<le> flight ps"
  by (induction ps) auto

lemma length_path_list: "length (path_list t n hs) \<le> length hs"
  by (induction hs arbitrary: n) (auto split: option.split)

lemma card_paths: "card (\<Union>p\<in>set ps. set (path_list t 0 (snd p))) \<le> flight ps"
proof (induction ps)
  case (Cons p ps)
  have "card (set (path_list t 0 (snd p))) \<le> length (snd p)"
    using card_length [of "path_list t 0 (snd p)"] length_path_list [of t 0 "snd p"] by linarith
  then show ?case using Cons card_Un_le [of "set (path_list t 0 (snd p))" "\<Union>p\<in>set ps. set (path_list t 0 (snd p))"] by simp
qed simp

text \<open>If at most the leaf of one request is evictable, the tree consists of the requests in flight and that one.\<close>

lemma nodes_flight:
  assumes "tinv t A L" and "pins_ok t A ps" and "set L \<subseteq> {leaf}" and "follow t 0 hs = Some leaf"
  shows "nnodes t \<le> int (length hs + flight ps)"
proof -
  note s = tinvD(1) [OF assms(1)]
  have "A - {0} \<subseteq> set (path_list t 0 hs) \<union> (\<Union>p\<in>set ps. set (path_list t 0 (snd p)))"
  proof
    fix a assume a: "a \<in> A - {0}"
    then obtain xs where xs: "follow t 0 xs = Some a" using follow_exists [OF s] by blast
    have ne: "xs \<noteq> []" using xs a by auto
    obtain ys b where b: "follow t 0 (xs @ ys) = Some b" "kidsOf t b = []" using leaf_below [OF s xs] by blast
    have bA: "b \<in> A" using follow_in [OF s tshapeD(2) [OF s] b(1)] .
    have b0: "b \<noteq> 0" using follow_unique [OF s b(1), of "[]"] ne by auto
    show "a \<in> set (path_list t 0 hs) \<union> (\<Union>p\<in>set ps. set (path_list t 0 (snd p)))"
    proof (cases "pinsOf t b = 0")
      case True
      then have "b = leaf" using tinvD(5) [OF assms(1), of b] bA b0 b(2) assms(3) by auto
      then have "xs @ ys = hs" using follow_unique [OF s b(1)] assms(4) by simp
      then show ?thesis using prefix_path_list [OF _ ne xs, of hs] by auto
    next
      case False
      have "\<exists>p\<in>set ps. b \<in> set (path_list t 0 (snd p))"
        using False assms(2) bA pcount_zero [of ps b t] by (auto simp: pins_ok_def)
      then obtain p where p: "p \<in> set ps" "b \<in> set (path_list t 0 (snd p))" by blast
      from path_list_prefix [OF p(2)] obtain zs where z: "prefix zs (snd p)" "follow t 0 zs = Some b" by blast
      have "zs = xs @ ys" using follow_unique [OF s z(2) b(1)] .
      then have "prefix xs (snd p)" using z(1) by (auto elim: prefixE)
      then show ?thesis using prefix_path_list [OF _ ne xs] p(1) by blast
    qed
  qed
  then have "card (A - {0}) \<le> card (set (path_list t 0 hs) \<union> (\<Union>p\<in>set ps. set (path_list t 0 (snd p))))"
    by (intro card_mono) auto
  also have "\<dots> \<le> length hs + flight ps"
    using card_Un_le [of "set (path_list t 0 hs)" "\<Union>p\<in>set ps. set (path_list t 0 (snd p))"]
      card_length [of "path_list t 0 hs"] length_path_list [of t 0 hs] card_paths [of t ps] by linarith
  finally show ?thesis using tinvD(2) [OF assms(1)] by (simp add: counted_def)
qed

section \<open>Caps that bind on nodes\<close>

text \<open>No unit has more than \<open>T\<close> tokens, and the cap on tokens leaves that many for each node.\<close>

definition block_capped :: "int \<Rightarrow> kv_config \<Rightarrow> bool" where
  "block_capped T c \<longleftrightarrow> 0 < MaxNodes c \<and> 0 \<le> T \<and> (MaxTokens c \<le> 0 \<or> MaxNodes c * T \<le> MaxTokens c)"

lemma overBudget_nodes:
  assumes "tinv t A L" and "block_capped T (tcfg t)" and "\<forall>a. tokOf t a \<le> T"
  shows "overBudget t \<longleftrightarrow> MaxNodes (tcfg t) < nnodes t"
proof -
  have c: "0 < MaxNodes (tcfg t)" "0 \<le> T" "MaxTokens (tcfg t) \<le> 0 \<or> MaxNodes (tcfg t) * T \<le> MaxTokens (tcfg t)"
    using assms(2) by (auto simp: block_capped_def)
  have "ntokens t \<le> nnodes t * T"
    using tinvD(2) [OF assms(1)] sum_bounded_above [of "A - {0}" "tokOf t" T] assms(3) by (simp add: counted_def)
  moreover have "nnodes t * T \<le> MaxNodes (tcfg t) * T" if "nnodes t \<le> MaxNodes (tcfg t)"
    using that c(2) by (rule mult_right_mono)
  ultimately show ?thesis using c(1,3) unfolding overBudget_def by (cases "nnodes t \<le> MaxNodes (tcfg t)") (simp_all, linarith)
qed

lemma evictLocked_fits: "\<not> overBudget t \<Longrightarrow> evictLocked b t = t"
  by (cases b) auto

lemma evictLocked_cap:
  assumes "tinv t A L" and "pins_ok t A ps" and "block_capped T (tcfg t)" and "\<forall>a. tokOf t a \<le> T"
    and "int (flight ps) \<le> MaxNodes (tcfg t)" and "nnodes t \<le> MaxNodes (tcfg t) + int b"
  shows "nnodes (evictLocked b t) \<le> MaxNodes (tcfg t)"
proof -
  let ?t = "evictLocked b t"
  obtain A' L' where A: "tinv ?t A' L'" "shrinks t A ?t A'" "\<not> overBudget ?t \<or> L' = [] \<or> nnodes ?t = nnodes t - int b"
    using evictLocked_spec [OF assms(1)] by blast
  have c: "tcfg ?t = tcfg t" "tokOf ?t = tokOf t" using A(2) by (simp_all add: shrinks_def)
  note p = shrinks_pins [OF tinvD(1) [OF assms(1)] tinvD(1) [OF A(1)] A(2) assms(2)]
  have "nnodes ?t \<le> int (flight ps)" if "L' = []"
    using nodes_flight [OF A(1) p, of 0 "[]"] that by simp
  moreover have "overBudget ?t \<longleftrightarrow> MaxNodes (tcfg t) < nnodes ?t"
    using overBudget_nodes [OF A(1), of T] assms(3,4) c by simp
  ultimately show ?thesis using A(3) assms(5,6) by auto
qed

text \<open>The loop takes its victims behind the newest leaf: it is done before it reaches that one.\<close>

lemma evictLocked_newest:
  "tinv t A (leaf # K) \<Longrightarrow> pins_ok t A ps \<Longrightarrow> block_capped T (tcfg t) \<Longrightarrow> \<forall>a. tokOf t a \<le> T \<Longrightarrow> follow t 0 hs = Some leaf \<Longrightarrow>
   int (length hs + flight ps) \<le> MaxNodes (tcfg t) \<Longrightarrow> follow (evictLocked b t) 0 hs = Some leaf"
proof (induction b arbitrary: t A K)
  case (Suc b)
  show ?case
  proof (cases "overBudget t")
    case True
    have "K \<noteq> []"
    proof
      assume "K = []"
      then have "nnodes t \<le> int (length hs + flight ps)" using nodes_flight [OF Suc.prems(1,2) _ Suc.prems(5)] by simp
      then show False using True Suc.prems(6) overBudget_nodes [OF Suc.prems(1,3,4)] by linarith
    qed
    then obtain K' v where K: "K = K' @ [v]" by (cases K rule: rev_cases) auto
    have I: "tinv t A ((leaf # K') @ [v])" using Suc.prems(1) K by simp
    have v: "v \<in> A" "v \<noteq> 0" "kidsOf t v = []" "v \<noteq> leaf" "leaf \<in> A"
      using tinvD(5) [OF Suc.prems(1)] dllD(1) [OF tinvD(4) [OF Suc.prems(1)]] K by auto
    obtain p where p: "parentOf t v = Some p" using tshapeD(7) [OF tinvD(1) [OF I] v(1,2)] by blast
    have e: "evictLocked (Suc b) t = evictLocked b (evict_node v p t)"
      using True v p dllD(4) [OF tinvD(4) [OF I]] by simp
    note S = evict_shrinks [OF I p] and E = evict_tinv [OF I p]
    have f: "tcfg (evict_node v p t) = tcfg t" "tokOf (evict_node v p t) = tokOf t" "follow (evict_node v p t) 0 hs = Some leaf"
      using S Suc.prems(5) v(4,5) by (auto simp: shrinks_def)
    have "\<exists>K2. tinv (evict_node v p t) (A - {v}) (leaf # K2)" using E by (auto split: if_splits)
    then obtain K2 where "tinv (evict_node v p t) (A - {v}) (leaf # K2)" by blast
    from Suc.IH [OF this shrinks_pins [OF tinvD(1) [OF I] tinvD(1) [OF this] S Suc.prems(2)]] Suc.prems(3,4,6) f
    show ?thesis unfolding e by simp
  qed (use Suc.prems(5) in simp)
qed simp

section \<open>Recording within the caps\<close>

lemma pushFront_lhead: "lhead (lruPushFront n t) = Some n"
  by (simp add: lruPushFront_def Let_def split: option.split)

lemma insertLocked_front: "insertLocked p u t = (c, t') \<Longrightarrow> lhead t' = Some c \<and> tokOf t' = (tokOf t)(c := uTokens u)"
  unfolding insertLocked_def Let_def prod.inject by (elim conjE, hypsubst) (simp add: pushFront_lhead addKid_def)

lemma insert_units_front:
  "insert_units n us t = (leaf, t') \<Longrightarrow> us \<noteq> [] \<Longrightarrow> lhead t' = Some leaf"
proof (induction us arbitrary: n t)
  case (Cons u us)
  obtain c t1 where c: "insertLocked n u t = (c, t1)" by fastforce
  show ?case
  proof (cases "us = []")
    case True
    then show ?thesis using Cons.prems c insertLocked_front [OF c] by simp
  qed (use Cons c in simp)
qed simp

lemma insert_units_tok:
  "insert_units n us t = (leaf, t') \<Longrightarrow> \<forall>a. tokOf t a \<le> T \<Longrightarrow> \<forall>u\<in>set us. uTokens u \<le> T \<Longrightarrow> \<forall>a. tokOf t' a \<le> T"
proof (induction us arbitrary: n t)
  case (Cons u us)
  obtain c t1 where c: "insertLocked n u t = (c, t1)" by fastforce
  have "\<forall>a. tokOf t1 a \<le> T" using insertLocked_front [OF c] Cons.prems(2,3) by simp
  then show ?case using Cons.IH [of c t1] Cons.prems c by simp
qed simp

text \<open>What a recording needs and keeps: the caps, the units within \<open>T\<close>, and room for the requests in flight.\<close>

definition roomy :: "int \<Rightarrow> trie \<Rightarrow> (nat \<times> u64 list) list \<Rightarrow> bool" where
  "roomy T t ps \<longleftrightarrow> block_capped T (tcfg t) \<and> 0 \<le> EvictBudget (tcfg t) \<and> (\<forall>a. tokOf t a \<le> T) \<and>
     nnodes t \<le> MaxNodes (tcfg t) \<and> int (flight ps) \<le> MaxNodes (tcfg t)"

lemma insertFrom_roomy:
  assumes "tinv t A L" and "pins_ok t A ps" and "roomy T t ps" and "\<forall>u\<in>set us. uTokens u \<le> T"
    and "descend t 0 us 0 = (n, rest, c)" and "insertFrom n rest t = (leaf, t')"
  shows "roomy T t' ps" and "int (length us + flight ps) \<le> MaxNodes (tcfg t) \<Longrightarrow> follow t' 0 (map uHash us) = Some leaf"
proof -
  define k where "k = lead (resident t) (map uHash us)"
  note D = descend_lead [OF assms(5), folded k_def]
  note s = tinvD(1) [OF assms(1)]
  have n: "n \<in> A" using follow_in [OF s tshapeD(2) [OF s] D(4)] .
  have r: "rest = [] \<or> node_find t n (uHash (hd rest)) = None" using D(1,2,5) by (cases "k < length us") (auto simp: hd_drop_conv_nth)
  have R: "block_capped T (tcfg t)" "0 \<le> EvictBudget (tcfg t)" "\<forall>a. tokOf t a \<le> T" "nnodes t \<le> MaxNodes (tcfg t)"
    "int (flight ps) \<le> MaxNodes (tcfg t)" using assms(3) by (simp_all add: roomy_def)
  obtain t1 where i: "insert_units n rest t = (leaf, t1)" and
    t': "t' = (if Bounded (tcfg t1) then evictLocked (nat (int (length rest) + EvictBudget (tcfg t1))) t1 else t1)"
    using assms(6) by (auto simp: insertFrom_def split: prod.splits)
  obtain A1 L1 where A1: "tinv t1 A1 L1" "grows t A t1 A1" "follow t1 0 (map uHash (take k us) @ map uHash rest) = Some leaf"
    "nnodes t1 = nnodes t + int (length rest)" using insert_units_spec [OF assms(1) n D(4) r i] by blast
  have us: "map uHash (take k us) @ map uHash rest = map uHash us" unfolding D(2) by (simp flip: map_append)
  have cfg: "tcfg t1 = tcfg t" using A1(2) by (simp add: grows_def)
  have tok: "\<forall>a. tokOf t1 a \<le> T"
    using insert_units_tok [OF i R(3)] assms(4) unfolding D(2) by (auto dest: in_set_dropD)
  note P = grows_pins [OF s A1(2) assms(2)]
  let ?b = "nat (int (length rest) + EvictBudget (tcfg t))"
  have e: "t' = evictLocked ?b t1" using t' cfg R(1) by (simp add: Bounded_def block_capped_def)
  have "nnodes t' \<le> MaxNodes (tcfg t)"
    using evictLocked_cap [OF A1(1) P, of T ?b] R cfg tok A1(4) e by simp
  moreover have "tcfg t' = tcfg t" "tokOf t' = tokOf t1" using evictLocked_spec [OF A1(1), of ?b] cfg unfolding e shrinks_def by auto
  ultimately show "roomy T t' ps" using R tok by (simp add: roomy_def)
  show "follow t' 0 (map uHash us) = Some leaf" if fit: "int (length us + flight ps) \<le> MaxNodes (tcfg t)"
  proof (cases "rest = []")
    case True
    then have "\<not> overBudget t1" using overBudget_nodes [OF A1(1), of T] R(1,4) cfg tok A1(4) by simp
    then show ?thesis using e evictLocked_fits A1(3) us by simp
  next
    case False
    obtain K where K: "L1 = leaf # K"
      using insert_units_front [OF i False] dllD(3) [OF tinvD(4) [OF A1(1)]] by (cases L1) auto
    show ?thesis unfolding e
      by (rule evictLocked_newest [OF A1(1) [unfolded K] P, of T]) (use R(1) cfg tok A1(3) us fit in simp_all)
  qed
qed

end
