(* ===== verification/KvProps.thy ===== *)
theory KvProps
  imports KvFlight
begin

text \<open>
  The cache model of \<^verbatim>\<open>kvcache/kvcache.go\<close> as a system: the trie and the pins its callers hold, with one
  step per exported operation. The code does not check that the request it pins survived its own insertion, nor
  that no pin is held when the trie is reset, and neither does the step relation: runs in which that holds are
  singled out by the condition \<open>survives\<close>, and in them the trie is well formed, its counters are exact, recording
  refines a set of resident sequences, and what is pinned stays resident. A cache that has room for the requests
  in flight meets the condition; two concrete runs show what the code does outside it.
\<close>

section \<open>The system\<close>

record ksys =
  ktrie :: trie
  kpins :: "(nat \<times> u64 list) list"

datatype kop =
  KCommit "kvunit list"
| KRecord "kvunit list"
| KPin "kvunit list"
| KUnpin nat "u64 list"
| KObserve int int
| KReset

text \<open>A pin is released by the caller that holds it, once; the pin of an empty request has no leaf and holds nothing.\<close>

inductive kstep :: "ksys \<Rightarrow> kop \<Rightarrow> ksys \<Rightarrow> bool" where
  k_commit: "kstep s (KCommit us) (s\<lparr>ktrie := Trie_Commit us (ktrie s)\<rparr>)"
| k_record: "kstep s (KRecord us) (s\<lparr>ktrie := snd (RecordAndCount us (ktrie s))\<rparr>)"
| k_pin: "RecordAndPin us (ktrie s) = ((c, tot0, p), t') \<Longrightarrow>
    kstep s (KPin us) \<lparr>ktrie = t', kpins = (case p of None \<Rightarrow> kpins s | Some leaf \<Rightarrow> (leaf, map uHash us) # kpins s)\<rparr>"
| k_unpin: "(leaf, hs) \<in> set (kpins s) \<Longrightarrow>
    kstep s (KUnpin leaf hs) \<lparr>ktrie = Unpin (Some leaf) (ktrie s), kpins = remove1 (leaf, hs) (kpins s)\<rparr>"
| k_observe: "kstep s (KObserve x y) (s\<lparr>ktrie := Trie_Observe x y (ktrie s)\<rparr>)"
| k_reset: "kstep s KReset (s\<lparr>ktrie := Reset (ktrie s)\<rparr>)"

text \<open>The states reached from an empty trie by steps that meet the condition \<open>P\<close>.\<close>

inductive kreachable :: "(ksys \<Rightarrow> kop \<Rightarrow> bool) \<Rightarrow> kv_config \<Rightarrow> ksys \<Rightarrow> bool" for P c where
  k_init: "kreachable P c \<lparr>ktrie = Trie_New c, kpins = []\<rparr>"
| k_step: "kreachable P c s \<Longrightarrow> kstep s op s' \<Longrightarrow> P s op \<Longrightarrow> kreachable P c s'"

text \<open>The request that is pinned is resident after its own insertion, and the trie is reset while no pin is held.\<close>

definition survives :: "ksys \<Rightarrow> kop \<Rightarrow> bool" where
  "survives s op =
     (case op of
        KPin us \<Rightarrow> follow (snd (RecordAndPin us (ktrie s))) 0 (map uHash us) \<noteq> None
      | KReset \<Rightarrow> kpins s = []
      | _ \<Rightarrow> True)"

text \<open>No unit has more than \<open>T\<close> tokens, and the requests in flight have at most \<open>MaxNodes\<close> units together.\<close>

fun op_units :: "kop \<Rightarrow> kvunit list" where
  "op_units (KCommit us) = us"
| "op_units (KRecord us) = us"
| "op_units (KPin us) = us"
| "op_units _ = []"

definition within_caps :: "int \<Rightarrow> ksys \<Rightarrow> kop \<Rightarrow> bool" where
  "within_caps T s op \<longleftrightarrow> (\<forall>u\<in>set (op_units op). uTokens u \<le> T) \<and>
     (case op of
        KPin us \<Rightarrow> Bounded (tcfg (ktrie s)) \<longrightarrow> int (length us + flight (kpins s)) \<le> MaxNodes (tcfg (ktrie s))
      | KReset \<Rightarrow> kpins s = []
      | _ \<Rightarrow> True)"

definition kinv :: "trie \<Rightarrow> (nat \<times> u64 list) list \<Rightarrow> bool" where
  "kinv t ps \<longleftrightarrow> (\<exists>A L. tinv t A L \<and> pins_ok t A ps) \<and> anomalies t = 0"

lemma records_anomalies: "records t A hs leaf t' A' \<Longrightarrow> anomalies t' = anomalies t"
  by (auto simp: records_def grows_def shrinks_def)

lemma kinvI: "tinv t A L \<Longrightarrow> pins_ok t A ps \<Longrightarrow> anomalies t = 0 \<Longrightarrow> kinv t ps"
  unfolding kinv_def by blast

lemma kinv_New: "kinv (Trie_New c) []"
  by (rule kinvI [OF tinv_New]) (auto simp: pins_ok_def pcount_def pinned_ok_def Trie_New_def)

lemma kinv_commit: "kinv t ps \<Longrightarrow> kinv (Trie_Commit us t) ps"
proof (cases "us = []")
  case False
  assume "kinv t ps"
  then obtain A L where t: "tinv t A L" "pins_ok t A ps" "anomalies t = 0" unfolding kinv_def by blast
  obtain A' L' leaf where "tinv (Trie_Commit us t) A' L'" "records t A (map uHash us) leaf (Trie_Commit us t) A'"
    using commit_records [OF t(1) False] by blast
  then show ?thesis using kinvI records_pins [OF t(1) _ _ t(2)] records_anomalies t(3) by metis
qed (simp add: Trie_Commit_def)

lemma kinv_record: "kinv t ps \<Longrightarrow> kinv (snd (RecordAndCount us t)) ps"
proof (cases "us = []")
  case False
  assume "kinv t ps"
  then obtain A L where t: "tinv t A L" "pins_ok t A ps" "anomalies t = 0" unfolding kinv_def by blast
  obtain A' L' leaf where "tinv (snd (RecordAndCount us t)) A' L'" "records t A (map uHash us) leaf (snd (RecordAndCount us t)) A'"
    using record_records [OF t(1) False] by blast
  then show ?thesis using kinvI records_pins [OF t(1) _ _ t(2)] records_anomalies t(3) by metis
qed (simp add: RecordAndCount_def)

text \<open>The leaf returned by a recording is the node of its request as long as that is resident.\<close>

lemma records_leaf:
  assumes "records t A hs leaf t' A'" and "follow t' 0 hs \<noteq> None"
  shows "follow t' 0 hs = Some leaf"
  using assms unfolding records_def shrinks_def by (auto split: option.splits if_splits)

lemma kinv_pin:
  assumes "kinv t ps" and "RecordAndPin us t = ((c, tot0, Some leaf), t')" and "follow t' 0 (map uHash us) \<noteq> None"
  shows "kinv t' ((leaf, map uHash us) # ps)"
proof -
  obtain A L where t: "tinv t A L" "pins_ok t A ps" "anomalies t = 0" using assms(1) unfolding kinv_def by blast
  obtain n rest k where d: "descend t 0 us 0 = (n, rest, k)" by (metis prod_cases3)
  obtain t1 where i: "insertFrom n rest t = (leaf, t1)" "t' = pinChain leaf t1"
    using assms(2) d by (auto simp: RecordAndPin_def split: if_splits prod.splits)
  obtain A1 L1 where A1: "tinv t1 A1 L1" "records t A (map uHash us) leaf t1 A1" using insertFrom_records [OF t(1) d i(1)] by blast
  have p: "parentOf (pin_node n s) = parentOf s" "kidsOf (pin_node n s) = kidsOf s" "keyOf (pin_node n s) = keyOf s" for n s
    using same_tree_pin [of s n] by (simp_all add: same_tree_def)
  have "kidsOf (up_chain pin_node j m s) = kidsOf s \<and> keyOf (up_chain pin_node j m s) = keyOf s" for j m s
  proof (induction j arbitrary: m s)
    case (Suc j)
    then show ?case using p(2,3) by (cases m) (simp_all add: Let_def)
  qed simp
  then have "follow t' 0 (map uHash us) = follow t1 0 (map uHash us)" unfolding i(2) pinChain_def by (intro follow_cong) blast+
  then have "follow t1 0 (map uHash us) = Some leaf" using records_leaf [OF A1(2)] assms(3) by simp
  from pinChain_spec [OF A1(1) records_pins [OF t(1) A1 t(2)] this] show ?thesis
    using records_anomalies [OF A1(2)] t(3) unfolding i(2) same_tree_def by (auto intro: kinvI)
qed

lemma kinv_unpin:
  assumes "kinv t ps" and "(leaf, hs) \<in> set ps"
  shows "kinv (Unpin (Some leaf) t) (remove1 (leaf, hs) ps)"
proof -
  obtain A L where t: "tinv t A L" "pins_ok t A ps" "anomalies t = 0" using assms(1) unfolding kinv_def by blast
  obtain L1 where L1: "tinv (unpinChain leaf t) A L1" "pins_ok (unpinChain leaf t) A (remove1 (leaf, hs) ps)"
    "same_tree t (unpinChain leaf t)" using unpinChain_spec [OF t(1,2) assms(2)] by blast
  have a: "anomalies (unpinChain leaf t) = 0" using L1(3) t(3) by (simp add: same_tree_def)
  show ?thesis
  proof (cases "Bounded (tcfg (unpinChain leaf t))")
    case True
    let ?b = "nat (EvictBudget (tcfg (unpinChain leaf t)))"
    obtain A' L' where A: "tinv (evictLocked ?b (unpinChain leaf t)) A' L'" "shrinks (unpinChain leaf t) A (evictLocked ?b (unpinChain leaf t)) A'"
      using evictLocked_spec [OF L1(1), of ?b] by blast
    show ?thesis
      using kinvI [OF A(1) shrinks_pins [OF tinvD(1) [OF L1(1)] tinvD(1) [OF A(1)] A(2) L1(2)]] True A(2) a by (simp add: Unpin_def Let_def shrinks_def)
  qed (use kinvI [OF L1(1,2) a] in \<open>simp add: Unpin_def Let_def\<close>)
qed

lemma tinv_observed: "tinv (t\<lparr>obsCached := x, obsTotal := z\<rparr>) A L = tinv t A L"
  unfolding tinv_def tshape_def counted_def listed_def dll_def by simp

lemma kinv_observe: "kinv t ps \<Longrightarrow> kinv (Trie_Observe x y t) ps"
proof -
  assume "kinv t ps"
  then obtain A L where t: "tinv t A L" "pins_ok t A ps" "anomalies t = 0" unfolding kinv_def by blast
  let ?t = "Trie_Observe x y t"
  have "follow ?t 0 hs = follow t 0 hs" "path_list ?t 0 hs = path_list t 0 hs" for hs
    by (auto intro!: follow_cong path_list_cong simp: Trie_Observe_def)
  moreover have "tinv ?t A L" using t(1) by (simp add: Trie_Observe_def tinv_observed)
  moreover have "pcount ?t ps a = pcount t ps a" for a by (rule pcount_cong) (use calculation(2) in simp)
  moreover have "pinsOf ?t = pinsOf t" "pinnedNodes ?t = pinnedNodes t" "anomalies ?t = 0" using t(3) by (simp_all add: Trie_Observe_def)
  ultimately show ?thesis using t(2) by (intro kinvI [of _ A L]) (simp_all add: pins_ok_def pinned_ok_def)
qed

lemma kinv_reset: "kinv t [] \<Longrightarrow> kinv (Reset t) []"
proof -
  assume "kinv t []"
  then obtain A L where t: "tinv t A L" "pins_ok t A []" "anomalies t = 0" unfolding kinv_def by blast
  have "0 < alloc t" using tshapeD(2,3) [OF tinvD(1) [OF t(1)]] by auto
  then have "tinv (Reset t) {0} []" by (auto simp: tinv_def tshape_def counted_def listed_def dll_def Reset_def)
  moreover have e: "{a \<in> A. 0 < pinsOf t a} = {}" using t(2) by (auto simp: pins_ok_def pcount_def)
  have "pinnedNodes t = 0" using t(2) unfolding pins_ok_def pinned_ok_def e by simp
  then have "pins_ok (Reset t) {0} []" by (auto simp: pins_ok_def pcount_def pinned_ok_def Reset_def)
  ultimately show ?thesis by (rule kinvI) (simp add: Reset_def t(3))
qed

lemma RecordAndPin_Nil: "RecordAndPin [] t = ((0, 0, None), t)"
  by (simp add: RecordAndPin_def)

lemma RecordAndPin_Some: "us \<noteq> [] \<Longrightarrow> RecordAndPin us t = ((c, tot0, p), t') \<Longrightarrow> \<exists>leaf. p = Some leaf"
  by (auto simp: RecordAndPin_def split: prod.splits)

lemma kstep_kinv:
  assumes "kstep s op s'" and "survives s op" and "kinv (ktrie s) (kpins s)"
  shows "kinv (ktrie s') (kpins s')"
  using assms
proof (cases rule: kstep.cases)
  case (k_pin us c tot0 p t')
  show ?thesis
  proof (cases "us = []")
    case True
    then show ?thesis using k_pin assms(3) by (auto simp: RecordAndPin_Nil)
  next
    case False
    then obtain leaf where p: "p = Some leaf" using RecordAndPin_Some k_pin(3) by blast
    have "follow t' 0 (map uHash us) \<noteq> None" using assms(2) k_pin(1,3) by (simp add: survives_def)
    from kinv_pin [OF assms(3) k_pin(3) [unfolded p] this] show ?thesis using k_pin(2) p by simp
  qed
qed (simp_all add: survives_def kinv_commit kinv_record kinv_unpin kinv_observe kinv_reset)

lemma kreachable_kinv: "kreachable survives c s \<Longrightarrow> kinv (ktrie s) (kpins s)"
proof (induction rule: kreachable.induct)
  case k_init
  then show ?case by (simp add: kinv_New)
qed (rule kstep_kinv)

lemma kinv_obtains:
  assumes "kinv t ps"
  obtains A L where "tinv t A L" "pins_ok t A ps" "anomalies t = 0"
  using assms unfolding kinv_def by blast

section \<open>Consequences\<close>

lemma resident_nodes:
  assumes "tinv t A L"
  shows "bij_betw (\<lambda>hs. the (follow t 0 hs)) (resident t - {[]}) (A - {0})"
proof (rule bij_betw_imageI)
  note s = tinvD(1) [OF assms]
  show "inj_on (\<lambda>hs. the (follow t 0 hs)) (resident t - {[]})"
    using follow_unique [OF s] by (auto simp: inj_on_def resident_def)
  show "(\<lambda>hs. the (follow t 0 hs)) ` (resident t - {[]}) = A - {0}"
  proof (intro equalityI subsetI)
    fix a assume "a \<in> (\<lambda>hs. the (follow t 0 hs)) ` (resident t - {[]})"
    then obtain hs where h: "follow t 0 hs = Some a" "hs \<noteq> []" by (force simp: resident_def)
    then have "a \<in> A" using follow_in [OF s tshapeD(2) [OF s]] by blast
    moreover have "a \<noteq> 0" using follow_unique [OF s h(1), of "[]"] h(2) by auto
    ultimately show "a \<in> A - {0}" by simp
  next
    fix a assume a: "a \<in> A - {0}"
    then obtain hs where h: "follow t 0 hs = Some a" using follow_exists [OF s] by blast
    then have "hs \<noteq> []" using a by auto
    then show "a \<in> (\<lambda>hs. the (follow t 0 hs)) ` (resident t - {[]})" using h by (force simp: resident_def image_iff)
  qed
qed

lemma lead_full: "hs \<in> resident t \<Longrightarrow> lead (resident t) hs = length hs"
proof (rule lead_eqI)
  fix j assume "hs \<in> resident t"
  then show "take (Suc j) hs \<in> resident t" using resident_prefix [of "take (Suc j) hs" "drop (Suc j) hs" t] by simp
qed simp_all

lemma Query_lead: "Query t us = (unit_tokens (take (lead (resident t) (map uHash us)) us), unit_tokens us)"
proof -
  obtain m rest k where d: "descend t 0 us 0 = (m, rest, k)" by (metis prod_cases3)
  show ?thesis using descend_lead(3) [OF d] d by (simp add: Query_def unit_tokens_def)
qed

lemma RecordAndCount_value: "fst (RecordAndCount us t) = Query t us"
  by (auto simp: RecordAndCount_def Query_def split: prod.splits)

lemma records_resident:
  assumes "records t A hs leaf t' A'"
  shows "resident t' \<subseteq> resident t \<union> {xs. prefix xs hs}" and "\<not> Bounded (tcfg t) \<Longrightarrow> resident t' = resident t \<union> {xs. prefix xs hs}"
proof -
  obtain t1 A1 where r: "shrinks t1 A1 t' A'" "resident t1 = resident t \<union> ext_paths [] hs" "\<not> Bounded (tcfg t) \<longrightarrow> t' = t1"
    using assms unfolding records_def by blast
  have "resident t' \<subseteq> resident t1" using r(1) unfolding shrinks_def resident_def by (auto split: option.splits)
  then show "resident t' \<subseteq> resident t \<union> {xs. prefix xs hs}" using r(2) by (simp add: ext_paths_prefix)
  show "\<not> Bounded (tcfg t) \<Longrightarrow> resident t' = resident t \<union> {xs. prefix xs hs}" using r(2,3) by (simp add: ext_paths_prefix)
qed

lemma records_cfg: "records t A hs leaf t' A' \<Longrightarrow> tcfg t' = tcfg t"
  unfolding records_def grows_def shrinks_def by auto

lemma records_cap:
  assumes "records t A hs leaf t' A'" and "0 < MaxNodes (tcfg t)" and "0 \<le> EvictBudget (tcfg t)" and "nnodes t \<le> MaxNodes (tcfg t)"
    and "\<forall>a\<in>A. pinsOf t a = 0"
  shows "nnodes t' \<le> MaxNodes (tcfg t)"
  using assms unfolding records_def by blast

section \<open>Runs of the offline simulator\<close>

datatype kcall = CallCommit "kvunit list" | CallRecord "kvunit list"

fun run_call :: "kcall \<Rightarrow> trie \<Rightarrow> trie" where
  "run_call (CallCommit us) t = Trie_Commit us t"
| "run_call (CallRecord us) t = snd (RecordAndCount us t)"

lemma run_call_cap:
  assumes "kinv t []" and "0 < MaxNodes (tcfg t)" and "0 \<le> EvictBudget (tcfg t)" and "nnodes t \<le> MaxNodes (tcfg t)"
  shows "kinv (run_call k t) []" and "tcfg (run_call k t) = tcfg t" and "nnodes (run_call k t) \<le> MaxNodes (tcfg t)"
proof -
  obtain A L where t: "tinv t A L" "pins_ok t A []" using assms(1) by (rule kinv_obtains)
  then have z: "\<forall>a\<in>A. pinsOf t a = 0" by (simp add: pins_ok_def pcount_def)
  show "kinv (run_call k t) []" using assms(1) by (cases k) (simp_all add: kinv_commit kinv_record)
  have "run_call k t = t \<or> (\<exists>hs A' leaf. records t A hs leaf (run_call k t) A')"
  proof (cases k)
    case (CallCommit us)
    show ?thesis
    proof (cases "us = []")
      case True
      then show ?thesis using CallCommit by (simp add: Trie_Commit_def)
    next
      case False
      obtain A' L' leaf where "records t A (map uHash us) leaf (Trie_Commit us t) A'" using commit_records [OF t(1) False] by blast
      then show ?thesis unfolding CallCommit run_call.simps by (intro disjI2 exI)
    qed
  next
    case (CallRecord us)
    then show ?thesis using record_records [OF t(1), of us] by (cases "us = []") (auto simp: RecordAndCount_def)
  qed
  then show "tcfg (run_call k t) = tcfg t" "nnodes (run_call k t) \<le> MaxNodes (tcfg t)"
    using records_cfg records_cap [OF _ assms(2-4) z] assms(4) by (metis, metis)
qed

lemma fold_run_call:
  "kinv t [] \<Longrightarrow> 0 < MaxNodes (tcfg t) \<Longrightarrow> 0 \<le> EvictBudget (tcfg t) \<Longrightarrow> nnodes t \<le> MaxNodes (tcfg t) \<Longrightarrow>
   nnodes (fold run_call ks t) \<le> MaxNodes (tcfg t)"
proof (induction ks arbitrary: t)
  case (Cons k ks)
  note C = run_call_cap [OF Cons.prems, of k]
  from Cons.IH [OF C(1)] C(2,3) Cons.prems(2,3) show ?case by simp
qed simp

section \<open>A cache with room for the requests in flight\<close>

text \<open>Either nothing is capped, or the trie and the pins leave room.\<close>

definition kroomy :: "int \<Rightarrow> trie \<Rightarrow> (nat \<times> u64 list) list \<Rightarrow> bool" where
  "kroomy T t ps \<longleftrightarrow> kinv t ps \<and> (Bounded (tcfg t) \<longrightarrow> roomy T t ps)"

lemma kroomy_insert:
  assumes "kroomy T t ps" and "\<forall>u\<in>set us. uTokens u \<le> T" and "descend t 0 us 0 = (n, rest, c)" and "insertFrom n rest t = (leaf, t')"
  shows "Bounded (tcfg t') \<longrightarrow> roomy T t' ps" and "tcfg t' = tcfg t"
    and "Bounded (tcfg t) \<longrightarrow> int (length us + flight ps) \<le> MaxNodes (tcfg t) \<Longrightarrow> follow t' 0 (map uHash us) = Some leaf"
proof -
  obtain A L where t: "tinv t A L" "pins_ok t A ps" using assms(1) unfolding kroomy_def kinv_def by blast
  obtain A' L' where r: "records t A (map uHash us) leaf t' A'" using insertFrom_records [OF t(1) assms(3,4)] by blast
  show cfg: "tcfg t' = tcfg t" by (rule records_cfg [OF r])
  show "Bounded (tcfg t') \<longrightarrow> roomy T t' ps"
    using insertFrom_roomy(1) [OF t _ assms(2-4)] assms(1) by (simp add: kroomy_def cfg)
  show "follow t' 0 (map uHash us) = Some leaf" if "Bounded (tcfg t) \<longrightarrow> int (length us + flight ps) \<le> MaxNodes (tcfg t)"
  proof (cases "Bounded (tcfg t)")
    case True
    then show ?thesis using insertFrom_roomy(2) [OF t _ assms(2-4)] assms(1) that by (simp add: kroomy_def)
  next
    case False
    then show ?thesis using r by (auto simp: records_def)
  qed
qed

lemma roomy_same_tree: "same_tree t t' \<Longrightarrow> roomy T t' ps = roomy T t ps"
  by (simp add: same_tree_def roomy_def)

lemma kroomy_commit:
  assumes "kroomy T t ps" and "\<forall>u\<in>set us. uTokens u \<le> T"
  shows "kroomy T (Trie_Commit us t) ps \<and> tcfg (Trie_Commit us t) = tcfg t"
proof (cases "us = []")
  case False
  obtain n rest c where d: "descend t 0 us 0 = (n, rest, c)" by (metis prod_cases3)
  define t0 where "t0 = (if n \<noteq> 0 \<and> inLRU t n then lruMoveToFront n t else t)"
  obtain leaf t' where i: "insertFrom n rest t0 = (leaf, t')" by fastforce
  have T: "Trie_Commit us t = t'" using False d i by (simp add: Trie_Commit_def commitLocked_def t0_def)
  have k: "kinv t ps" using assms(1) by (simp add: kroomy_def)
  then obtain A L where t: "tinv t A L" "pins_ok t A ps" "anomalies t = 0" by (rule kinv_obtains)
  have f: "kidsOf t0 = kidsOf t" "keyOf t0 = keyOf t" "tcfg t0 = tcfg t" "pinsOf t0 = pinsOf t" "nnodes t0 = nnodes t"
    "pinnedNodes t0 = pinnedNodes t" "anomalies t0 = anomalies t" "tokOf t0 = tokOf t"
    by (simp_all add: t0_def lruMoveToFront_def)
  have "n \<in> A" using follow_in [OF tinvD(1) [OF t(1)] tshapeD(2) [OF tinvD(1) [OF t(1)]] descend_lead(4) [OF d]] .
  then have "\<exists>L0. tinv t0 A L0" using moveToFront_tinv [OF t(1), of n] t(1) by (cases "n \<noteq> 0 \<and> inLRU t n") (auto simp: t0_def)
  then obtain L0 where t0: "tinv t0 A L0" by blast
  have fo: "follow t0 n hs = follow t n hs" for n hs using follow_cong [OF f(1,2)] .
  have "pcount t0 ps a = pcount t ps a" for a by (rule pcount_cong) (use fo in \<open>auto intro!: path_list_cong\<close>)
  then have "pins_ok t0 A ps" using t(2) fo f by (simp add: pins_ok_def pinned_ok_def)
  then have "kroomy T t0 ps" using assms(1) t0 t(3) f kinvI [of t0 A L0 ps] by (simp add: kroomy_def roomy_def)
  moreover have "descend t0 0 us 0 = (n, rest, c)" using d descend_cong [OF f(1,2)] by simp
  ultimately show ?thesis
    using kroomy_insert [of T t0 ps us n rest c leaf t'] assms(2) i kinv_commit [OF k, of us] f(3) unfolding T by (simp add: kroomy_def)
qed (use assms in \<open>simp add: Trie_Commit_def\<close>)

lemma kroomy_record:
  assumes "kroomy T t ps" and "\<forall>u\<in>set us. uTokens u \<le> T"
  shows "kroomy T (snd (RecordAndCount us t)) ps \<and> tcfg (snd (RecordAndCount us t)) = tcfg t"
proof (cases "us = []")
  case False
  obtain n rest c where d: "descend t 0 us 0 = (n, rest, c)" by (metis prod_cases3)
  obtain leaf t' where i: "insertFrom n rest t = (leaf, t')" by fastforce
  have T: "snd (RecordAndCount us t) = t'" using False d i by (simp add: RecordAndCount_def)
  have k: "kinv t ps" using assms(1) by (simp add: kroomy_def)
  show ?thesis using kroomy_insert [OF assms d i] kinv_record [OF k, of us] unfolding T by (simp add: kroomy_def)
qed (use assms in \<open>simp add: RecordAndCount_def\<close>)

text \<open>A request that fits beside those in flight is resident when it is pinned, and the room is kept.\<close>

lemma kroomy_pin:
  assumes "kroomy T t ps" and "\<forall>u\<in>set us. uTokens u \<le> T" and "us \<noteq> []" and "RecordAndPin us t = ((c, tot0, Some leaf), t')"
    and "Bounded (tcfg t) \<longrightarrow> int (length us + flight ps) \<le> MaxNodes (tcfg t)"
  shows "follow t' 0 (map uHash us) = Some leaf" and "kroomy T t' ((leaf, map uHash us) # ps)" and "tcfg t' = tcfg t"
proof -
  obtain n rest k where d: "descend t 0 us 0 = (n, rest, k)" by (metis prod_cases3)
  obtain t1 where i: "insertFrom n rest t = (leaf, t1)" "t' = pinChain leaf t1"
    using assms(3,4) d by (auto simp: RecordAndPin_def split: prod.splits)
  note I = kroomy_insert [OF assms(1,2) d i(1)]
  have f: "follow t1 0 (map uHash us) = Some leaf" by (rule I(3) [OF assms(5)])
  have kt: "kinv t ps" using assms(1) by (simp add: kroomy_def)
  then obtain A L where t: "tinv t A L" "pins_ok t A ps" "anomalies t = 0" by (rule kinv_obtains)
  obtain A1 L1 where A1: "tinv t1 A1 L1" "records t A (map uHash us) leaf t1 A1" using insertFrom_records [OF t(1) d i(1)] by blast
  obtain L' where p: "same_tree t1 t'"
    using pinChain_spec [OF A1(1) records_pins [OF t(1) A1 t(2)] f] unfolding i(2) by blast
  show g: "follow t' 0 (map uHash us) = Some leaf" using same_tree_follow [OF p] f by simp
  show cfg: "tcfg t' = tcfg t" using p I(2) by (simp add: same_tree_def)
  have "kinv t' ((leaf, map uHash us) # ps)" by (rule kinv_pin [OF kt assms(4)]) (simp add: g)
  moreover have "roomy T t' ((leaf, map uHash us) # ps)" if "Bounded (tcfg t)"
  proof -
    have "roomy T t' ps" using I(1,2) that roomy_same_tree [OF p] by simp
    then show ?thesis using assms(5) that cfg by (simp add: roomy_def)
  qed
  ultimately show "kroomy T t' ((leaf, map uHash us) # ps)" by (simp add: kroomy_def cfg)
qed

lemma kroomy_unpin:
  assumes "kroomy T t ps" and "(leaf, hs) \<in> set ps"
  shows "kroomy T (Unpin (Some leaf) t) (remove1 (leaf, hs) ps) \<and> tcfg (Unpin (Some leaf) t) = tcfg t"
proof -
  have kt: "kinv t ps" using assms(1) by (simp add: kroomy_def)
  then obtain A L where t: "tinv t A L" "pins_ok t A ps" "anomalies t = 0" by (rule kinv_obtains)
  obtain L1 where L1: "tinv (unpinChain leaf t) A L1" "same_tree t (unpinChain leaf t)" using unpinChain_spec [OF t(1,2) assms(2)] by blast
  have cfg: "tcfg (unpinChain leaf t) = tcfg t" using L1(2) by (simp add: same_tree_def)
  have same: "Unpin (Some leaf) t = unpinChain leaf t"
  proof (cases "Bounded (tcfg t)")
    case True
    then have "roomy T (unpinChain leaf t) ps" using assms(1) roomy_same_tree [OF L1(2)] by (simp add: kroomy_def)
    then have "\<not> overBudget (unpinChain leaf t)" using overBudget_nodes [OF L1(1), of T] by (simp add: roomy_def)
    then show ?thesis using evictLocked_fits by (simp add: Unpin_def Let_def)
  qed (simp add: Unpin_def Let_def cfg)
  have "Bounded (tcfg t) \<longrightarrow> roomy T (unpinChain leaf t) (remove1 (leaf, hs) ps)"
    using assms(1) roomy_same_tree [OF L1(2)] flight_remove1 [of "(leaf, hs)" ps] by (auto simp: kroomy_def roomy_def)
  then show ?thesis using kinv_unpin [OF kt assms(2)] same cfg by (simp add: kroomy_def)
qed

lemma kstep_kroomy:
  assumes "kstep s op s'" and "within_caps T s op" and "kroomy T (ktrie s) (kpins s)"
  shows "survives s op \<and> kroomy T (ktrie s') (kpins s') \<and> tcfg (ktrie s') = tcfg (ktrie s)"
  using assms(1)
proof (cases rule: kstep.cases)
  case (k_pin us c tot0 p t')
  have u: "\<forall>u\<in>set us. uTokens u \<le> T" "Bounded (tcfg (ktrie s)) \<longrightarrow> int (length us + flight (kpins s)) \<le> MaxNodes (tcfg (ktrie s))"
    using assms(2) k_pin(1) by (simp_all add: within_caps_def)
  show ?thesis
  proof (cases "us = []")
    case True
    then show ?thesis using k_pin assms(3) by (auto simp: RecordAndPin_Nil survives_def)
  next
    case False
    then obtain leaf where p: "p = Some leaf" using RecordAndPin_Some k_pin(3) by blast
    note K = kroomy_pin [OF assms(3) u(1) False k_pin(3) [unfolded p] u(2)]
    show ?thesis using K k_pin p by (simp add: survives_def)
  qed
next
  case (k_observe x y)
  then show ?thesis using assms(3) kinv_observe [of "ktrie s" "kpins s" x y]
    by (simp add: survives_def kroomy_def roomy_def Trie_Observe_def)
next
  case k_reset
  then have e: "kpins s = []" using assms(2) by (simp add: within_caps_def)
  then have "kroomy T (Reset (ktrie s)) []"
    using assms(3) kinv_reset by (auto simp: kroomy_def roomy_def Reset_def block_capped_def)
  then show ?thesis using k_reset e by (simp add: survives_def) (simp add: Reset_def)
qed (use assms kroomy_commit kroomy_record kroomy_unpin in \<open>auto simp: survives_def within_caps_def\<close>)

lemma within_caps_run:
  assumes "\<not> Bounded c \<or> block_capped T c"
  shows "kreachable (within_caps T) c s \<Longrightarrow> kreachable survives c s \<and> kroomy T (ktrie s) (kpins s) \<and> tcfg (ktrie s) = tcfg (Trie_New c)"
proof (induction rule: kreachable.induct)
  case k_init
  have "Bounded (tcfg (Trie_New c)) \<longrightarrow> roomy T (Trie_New c) []"
    using assms by (auto simp: Trie_New_def roomy_def block_capped_def Bounded_def)
  then show ?case using kreachable.k_init [of survives c] by (simp add: kroomy_def kinv_New)
next
  case (k_step s op s')
  then show ?case using kstep_kroomy [OF k_step.hyps(2,3)] kreachable.k_step [of survives c s op s'] by auto
qed

section \<open>Properties\<close>

text \<open>C33. In every state reached by operations in which no request is pinned that its own insertion evicted and
  no pin is held at a reset (\<open>survives\<close>, which the code does not check) the trie is well formed: sorted children
  with mutual parent links, the recency list holding exactly the unpinned leaves, counters equal to the nodes and
  tokens attached, and pin counts equal to the pins held.\<close>

theorem kv_well_formed:
  "kreachable survives c s \<Longrightarrow> \<exists>A L. tinv (ktrie s) A L \<and> pins_ok (ktrie s) A (kpins s)"
  using kreachable_kinv [of c s] by (simp add: kinv_def)

definition ex_kcfg :: kv_config where
  "ex_kcfg = \<lparr>MaxNodes = 2, MaxTokens = 0, EvictBudget = 1\<rparr>"

definition ex_kunits :: "u64 list \<Rightarrow> kvunit list" where
  "ex_kunits hs = map (\<lambda>h. \<lparr>uHash = h, uTokens = 16\<rparr>) hs"

definition ex_kpin :: ksys where
  "ex_kpin = \<lparr>ktrie = snd (RecordAndPin (ex_kunits [1, 2]) (Trie_New ex_kcfg)), kpins = [(2, [1, 2])]\<rparr>"

lemma ex_kpin_reachable: "kreachable survives ex_kcfg ex_kpin"
proof -
  let ?r = "RecordAndPin (ex_kunits [1, 2]) (Trie_New ex_kcfg)"
  have "fst ?r = (0, 32, Some 2)" "follow (snd ?r) 0 [1, 2] = Some 2" "map uHash (ex_kunits [1, 2]) = [1, 2]" by code_simp+
  then have "?r = ((0, 32, Some 2), snd ?r)" "follow (snd ?r) 0 (map uHash (ex_kunits [1, 2])) \<noteq> None"
    by (simp_all add: prod_eq_iff)
  from k_pin [of _ "\<lparr>ktrie = Trie_New ex_kcfg, kpins = []\<rparr>", unfolded ksys.simps, OF this(1)]
  have "kstep \<lparr>ktrie = Trie_New ex_kcfg, kpins = []\<rparr> (KPin (ex_kunits [1, 2])) ex_kpin"
    by (simp add: ex_kpin_def \<open>map uHash (ex_kunits [1, 2]) = [1, 2]\<close>)
  then show ?thesis
    by (rule k_step [OF k_init]) (use \<open>follow (snd ?r) 0 (map uHash (ex_kunits [1, 2])) \<noteq> None\<close> in \<open>simp add: survives_def\<close>)
qed

theorem kv_well_formed_witness: "\<exists>A L. tinv (ktrie ex_kpin) A L \<and> pins_ok (ktrie ex_kpin) A (kpins ex_kpin)"
  by (rule kv_well_formed [OF ex_kpin_reachable])

text \<open>The counters \<^verbatim>\<open>Stats\<close> reports are exact in those states: the number of non-empty
  resident sequences, and no anomaly. The loop never finds a victim with children.\<close>

theorem kv_counters_exact:
  "kreachable survives c s \<Longrightarrow> Nodes (ktrie s) = int (card (resident (ktrie s) - {[]})) \<and> snd (snd (Stats (ktrie s))) = 0 \<and>
     (kpins s = [] \<longrightarrow> PinnedNodes (ktrie s) = 0)"
proof -
  assume r: "kreachable survives c s"
  obtain A L where t: "tinv (ktrie s) A L" "pins_ok (ktrie s) A (kpins s)" "anomalies (ktrie s) = 0" using kreachable_kinv [OF r] by (rule kinv_obtains)
  have "nnodes (ktrie s) = int (card (resident (ktrie s) - {[]}))"
    using bij_betw_same_card [OF resident_nodes [OF t(1)]] tinvD(2) [OF t(1)] by (simp add: counted_def)
  moreover have "pinnedNodes (ktrie s) = 0" if "kpins s = []"
  proof -
    have e: "{a \<in> A. 0 < pinsOf (ktrie s) a} = {}" using t(2) that by (auto simp: pins_ok_def pcount_def)
    show ?thesis using t(2) unfolding pins_ok_def pinned_ok_def e by simp
  qed
  ultimately show ?thesis using t(3) by (simp add: Nodes_def Stats_def PinnedNodes_def)
qed

theorem kv_counters_exact_witness:
  "Nodes (ktrie ex_kpin) = int (card (resident (ktrie ex_kpin) - {[]})) \<and> snd (snd (Stats (ktrie ex_kpin))) = 0 \<and>
   (kpins ex_kpin = [] \<longrightarrow> PinnedNodes (ktrie ex_kpin) = 0)"
  by (rule kv_counters_exact [OF ex_kpin_reachable])

text \<open>C34. \<^verbatim>\<open>RecordAndCount\<close> refines a set of resident sequences: it credits the tokens of the longest
  resident run of leading units, adds at most the prefixes of the request, and without caps exactly them, so
  that the same request asked next is fully cached.\<close>

theorem RecordAndCount_refines:
  assumes "kreachable survives c s" and "us \<noteq> []" and "RecordAndCount us (ktrie s) = ((cached, tot0), t')"
  shows "cached = unit_tokens (take (lead (resident (ktrie s)) (map uHash us)) us) \<and> tot0 = unit_tokens us \<and>
    resident t' \<subseteq> resident (ktrie s) \<union> {xs. prefix xs (map uHash us)} \<and>
    (Bounded (tcfg (ktrie s)) \<or>
       resident t' = resident (ktrie s) \<union> {xs. prefix xs (map uHash us)} \<and> Query t' us = (unit_tokens us, unit_tokens us))"
proof -
  obtain A L where t: "tinv (ktrie s) A L" using kreachable_kinv [OF assms(1)] by (rule kinv_obtains)
  obtain A' L' leaf where r: "records (ktrie s) A (map uHash us) leaf t' A'" using record_records [OF t assms(2)] assms(3) by auto
  have "(cached, tot0) = Query (ktrie s) us" using RecordAndCount_value [of us "ktrie s"] assms(3) by simp
  moreover have "Query t' us = (unit_tokens us, unit_tokens us)" if "\<not> Bounded (tcfg (ktrie s))"
  proof -
    have "map uHash us \<in> resident t'" using records_resident(2) [OF r that] by simp
    then show ?thesis using lead_full [of "map uHash us" t'] by (simp add: Query_lead)
  qed
  ultimately show ?thesis using records_resident [OF r] by (auto simp: Query_lead)
qed

definition ex_k0 :: ksys where
  "ex_k0 = \<lparr>ktrie = Trie_New \<lparr>MaxNodes = 0, MaxTokens = 0, EvictBudget = 0\<rparr>, kpins = []\<rparr>"

theorem RecordAndCount_refines_witness:
  "16 = unit_tokens (take (lead (resident (snd (RecordAndCount (ex_kunits [1, 2]) (ktrie ex_k0)))) (map uHash (ex_kunits [1, 3]))) (ex_kunits [1, 3]))"
proof -
  let ?t = "snd (RecordAndCount (ex_kunits [1, 2]) (ktrie ex_k0))"
  have r: "kreachable survives \<lparr>MaxNodes = 0, MaxTokens = 0, EvictBudget = 0\<rparr> (ex_k0\<lparr>ktrie := ?t\<rparr>)"
    by (rule k_step [OF _ k_record]) (simp_all add: ex_k0_def k_init survives_def)
  have v: "fst (RecordAndCount (ex_kunits [1, 3]) ?t) = (16, 32)" and n: "ex_kunits [1, 3] \<noteq> []" by code_simp+
  have "RecordAndCount (ex_kunits [1, 3]) (ktrie (ex_k0\<lparr>ktrie := ?t\<rparr>)) = ((16, 32), snd (RecordAndCount (ex_kunits [1, 3]) ?t))"
    using v by (simp add: prod_eq_iff)
  from RecordAndCount_refines [OF r n this] show ?thesis by simp
qed

text \<open>C35. Under the same condition, a request is fully cached for as long as its pin is held, whatever else was
  recorded, released or evicted.\<close>

theorem pinned_requests_hit:
  assumes "kreachable survives c s" and "(leaf, map uHash us) \<in> set (kpins s)"
  shows "Query (ktrie s) us = (unit_tokens us, unit_tokens us)"
proof -
  obtain A L where t: "tinv (ktrie s) A L" "pins_ok (ktrie s) A (kpins s)" using kreachable_kinv [OF assms(1)] by (rule kinv_obtains)
  have "map uHash us \<in> resident (ktrie s)" using t(2) assms(2) by (auto simp: pins_ok_def resident_def)
  then show ?thesis using lead_full [of "map uHash us" "ktrie s"] by (simp add: Query_lead)
qed

theorem pinned_requests_hit_witness:
  "Query (snd (RecordAndCount (ex_kunits [7, 8, 9]) (ktrie ex_kpin))) (ex_kunits [1, 2]) = (32, 32)"
proof -
  have r: "kreachable survives ex_kcfg (ex_kpin\<lparr>ktrie := snd (RecordAndCount (ex_kunits [7, 8, 9]) (ktrie ex_kpin))\<rparr>)"
    by (rule k_step [OF ex_kpin_reachable k_record]) (simp add: survives_def)
  have "unit_tokens (ex_kunits [1, 2]) = 32" by code_simp
  then show ?thesis using pinned_requests_hit [OF r, of 2 "ex_kunits [1, 2]"] by (simp add: ex_kpin_def ex_kunits_def)
qed

text \<open>C36. With a cap on nodes and a cap on tokens that allows \<open>T\<close> for each node, as \<^verbatim>\<open>NewEngine\<close> of the mock engine
  sets them, or without caps: as long as the units have at most \<open>T\<close> tokens and the requests in flight together
  have at most \<open>MaxNodes\<close> units (and no pin is held at a reset), no request is evicted by its own insertion, so that the condition of C33 and C35
  holds by itself; the cap is exceeded after no operation, and every request in flight is resident.\<close>

theorem in_flight_fits:
  assumes "\<not> Bounded c \<or> block_capped T c" and "kreachable (within_caps T) c s"
  shows "kreachable survives c s \<and> (Bounded c \<longrightarrow> Nodes (ktrie s) \<le> MaxNodes c) \<and>
    (\<forall>p\<in>set (kpins s). follow (ktrie s) 0 (snd p) = Some (fst p))"
proof -
  note F = within_caps_run [OF assms]
  then obtain A L where "tinv (ktrie s) A L" "pins_ok (ktrie s) A (kpins s)" unfolding kroomy_def kinv_def by blast
  moreover have "Bounded (tcfg (Trie_New c)) = Bounded c" "MaxNodes (tcfg (Trie_New c)) = MaxNodes c"
    by (auto simp: Trie_New_def Bounded_def)
  ultimately show ?thesis using F by (auto simp: kroomy_def roomy_def pins_ok_def Nodes_def Stats_def)
qed

definition ex_fit :: ksys where
  "ex_fit = ex_kpin\<lparr>ktrie := snd (RecordAndCount (ex_kunits [7, 8, 9]) (ktrie ex_kpin))\<rparr>"

theorem in_flight_fits_witness:
  "Nodes (ktrie ex_fit) \<le> 2 \<and> follow (ktrie ex_fit) 0 [1, 2] = Some 2"
proof -
  let ?s = "\<lparr>ktrie = Trie_New ex_kcfg, kpins = []\<rparr>" and ?r = "RecordAndPin (ex_kunits [1, 2]) (Trie_New ex_kcfg)"
  have v: "fst ?r = (0, 32, Some 2)" "map uHash (ex_kunits [1, 2]) = [1, 2]" "within_caps 16 ?s (KPin (ex_kunits [1, 2]))"
    "block_capped 16 ex_kcfg" "Bounded ex_kcfg" "MaxNodes ex_kcfg = 2" by code_simp+
  have "kstep ?s (KPin (ex_kunits [1, 2])) ex_kpin"
    using k_pin [of "ex_kunits [1, 2]" ?s 0 32 "Some 2" "snd ?r"] v(1,2) by (simp add: ex_kpin_def prod_eq_iff)
  then have "kreachable (within_caps 16) ex_kcfg ex_kpin" by (rule k_step [OF k_init]) (rule v(3))
  then have "kreachable (within_caps 16) ex_kcfg ex_fit" unfolding ex_fit_def
    by (rule k_step [OF _ k_record]) (simp add: within_caps_def ex_kunits_def)
  from in_flight_fits [OF _ this] v(4-6) show ?thesis by (simp add: ex_fit_def ex_kpin_def)
qed

text \<open>With a cap on nodes the offline simulator, which never pins, is never above it after a call, however
  long the requests: the budget covers what each call inserted.\<close>

theorem node_cap_is_real:
  assumes "0 < MaxNodes c"
  shows "Nodes (fold run_call ks (Trie_New c)) \<le> MaxNodes c"
  using fold_run_call [OF kinv_New, of c ks] assms by (auto simp: Trie_New_def Bounded_def Nodes_def Stats_def)

theorem node_cap_is_real_witness:
  "Nodes (fold run_call [CallRecord (ex_kunits [1, 2, 3, 4, 5]), CallCommit (ex_kunits [1, 6])] (Trie_New ex_kcfg)) \<le> 2"
proof -
  have m: "MaxNodes ex_kcfg = 2" by code_simp
  show ?thesis by (rule node_cap_is_real [of ex_kcfg, unfolded m]) simp
qed

definition ex_over :: "trie" where
  "ex_over = Unpin (Some 2) (snd (RecordAndPin (ex_kunits [1, 2]) (Trie_New \<lparr>MaxNodes = 1, MaxTokens = 0, EvictBudget = 1\<rparr>)))"

text \<open>Outside \<open>survives\<close>, in one run: \<^verbatim>\<open>RecordAndPin\<close> evicts before it pins. With a cap below the length of the
  request the new leaf is evicted, and pinned although it is detached, so that the pinned request is not cached;
  releasing the pin puts the detached node at the tail of the recency list, and in the three recordings that follow
  each eviction drops that one node from the counters: the trie reports one node while all three are resident.\<close>

lemma pin_of_evicted_corrupts:
  "Query (snd (RecordAndPin (ex_kunits [1, 2]) (Trie_New \<lparr>MaxNodes = 1, MaxTokens = 0, EvictBudget = 1\<rparr>))) (ex_kunits [1, 2]) = (16, 32) \<and>
   (let t = fold run_call [CallRecord (ex_kunits [3]), CallRecord (ex_kunits [4]), CallRecord (ex_kunits [5])] ex_over
    in Nodes t = 1 \<and> map (Query t) [ex_kunits [3], ex_kunits [4], ex_kunits [5]] = [(16, 16), (16, 16), (16, 16)])"
  by code_simp

definition ex_stale :: "trie" where
  "ex_stale = Unpin (Some 1) (Reset (snd (RecordAndPin (ex_kunits [1]) (Trie_New ex_kcfg))))"

text \<open>The comment on \<^verbatim>\<open>Reset\<close> says that releasing a pin issued before it does not corrupt the reset tree.
  It does: the orphan enters the recency list of the fresh tree, its eviction is charged to the counters, and
  the cap is exceeded from then on.\<close>

theorem unpin_after_reset_corrupts:
  "lhead ex_stale = Some 1 \<and> resident ex_stale = {[]} \<and>
   (let t = fold run_call [CallRecord (ex_kunits [3]), CallRecord (ex_kunits [4]), CallRecord (ex_kunits [5])] ex_stale
    in MaxNodes (tcfg t) = 2 \<and> Nodes t = 2 \<and> map (Query t) [ex_kunits [3], ex_kunits [4], ex_kunits [5]] = [(16, 16), (16, 16), (16, 16)])"
proof -
  have k: "kidsOf ex_stale 0 = []" by code_simp
  have "node_find ex_stale 0 h = None" for h using k lookup_kid_mem [of _ "[]" h] by (cases "node_find ex_stale 0 h") (auto simp: node_find_def)
  then have "follow ex_stale 0 hs = None" if "hs \<noteq> []" for hs using that by (cases hs) simp_all
  then have "resident ex_stale = {[]}" by (force simp: resident_def)
  moreover have "lhead ex_stale = Some 1" by code_simp
  moreover have "let t = fold run_call [CallRecord (ex_kunits [3]), CallRecord (ex_kunits [4]), CallRecord (ex_kunits [5])] ex_stale
    in MaxNodes (tcfg t) = 2 \<and> Nodes t = 2 \<and> map (Query t) [ex_kunits [3], ex_kunits [4], ex_kunits [5]] = [(16, 16), (16, 16), (16, 16)]"
    by code_simp
  ultimately show ?thesis by blast
qed

end
