(* ===== verification/KvLabels.thy ===== *)
theory KvLabels
  imports KvUnits Float64
begin

text \<open>
  The rest of the units of \<^verbatim>\<open>kvcache/kvcache.go\<close>: the fractions of a coverage, and the hash labels captures
  carry, which are read back into the keys they were rendered from.
\<close>

definition TokenFraction :: "Coverage \<Rightarrow> rat" where
  "TokenFraction c = (if TotalTokens c \<le> 0 then 0 else fdiv (f64 (MatchedTokens c)) (f64 (TotalTokens c)))"

definition BlockFraction :: "Coverage \<Rightarrow> rat" where
  "BlockFraction c = (if TotalBlocks c \<le> 0 then 0 else fdiv (f64 (MatchedBlocks c)) (f64 (TotalBlocks c)))"

section \<open>Labels\<close>

text \<open>\<^verbatim>\<open>hex.EncodeToString\<close> of the big-endian bytes.\<close>

definition hex_char :: "byte \<Rightarrow> byte" where
  "hex_char d = (if d < 10 then 48 + d else 87 + d)"

definition hex_byte :: "byte \<Rightarrow> byte list" where
  "hex_byte b = [hex_char (b div 16), hex_char (b mod 16)]"

definition be64 :: "u64 \<Rightarrow> byte list" where
  "be64 h = map (\<lambda>k. ucast (drop_bit (8 * k) h)) [7, 6, 5, 4, 3, 2, 1, 0]"

definition HexHash :: "u64 \<Rightarrow> byte list" where
  "HexHash h = concat (map hex_byte (be64 h))"

text \<open>\<^verbatim>\<open>strconv.ParseUint\<close> in base 16, on the sixteen digits it is called with, which cannot overflow.\<close>

definition digit_val :: "byte \<Rightarrow> u64 option" where
  "digit_val c =
     (if 48 \<le> c \<and> c \<le> 57 then Some (ucast c - 48)
      else if 97 \<le> c \<and> c \<le> 102 then Some (ucast c - 87)
      else if 65 \<le> c \<and> c \<le> 70 then Some (ucast c - 55) else None)"

fun parse_hex :: "byte list \<Rightarrow> u64 \<Rightarrow> u64 option" where
  "parse_hex [] acc = Some acc"
| "parse_hex (c # cs) acc = (case digit_val c of None \<Rightarrow> None | Some d \<Rightarrow> parse_hex cs (acc * 16 + d))"

text \<open>What follows the last colon (58).\<close>

fun after_colon :: "byte list \<Rightarrow> byte list \<Rightarrow> byte list" where
  "after_colon part [] = part"
| "after_colon part (c # cs) = after_colon (if c = 58 then cs else part) cs"

definition label_tag :: "byte list" where
  "label_tag = [108, 97, 98, 101, 108]"

definition HashLabel :: "(byte list \<Rightarrow> u64) \<Rightarrow> byte list \<Rightarrow> u64" where
  "HashLabel sha s =
     (let part = after_colon s s;
          v = (if length part = 16 then parse_hex part 0 else None)
      in case v of Some v \<Rightarrow> v | None \<Rightarrow> HashContent sha label_tag s)"

definition int32 :: "int \<Rightarrow> int" where
  "int32 n = sint (word_of_int n :: 32 word)"

fun labels_loop :: "(byte list \<Rightarrow> u64) \<Rightarrow> byte list list \<Rightarrow> int list \<Rightarrow> nat \<Rightarrow> kvunit list" where
  "labels_loop sha [] ts i = []"
| "labels_loop sha (h # hs) ts i =
     \<lparr>uHash = HashLabel sha h, uTokens = int32 (if i < length ts then ts ! i else 0)\<rparr> # labels_loop sha hs ts (Suc i)"

definition UnitsFromLabels :: "(byte list \<Rightarrow> u64) \<Rightarrow> byte list list \<Rightarrow> int list \<Rightarrow> kvunit list" where
  "UnitsFromLabels sha hs ts = labels_loop sha hs ts 0"

section \<open>Reading labels back\<close>

lemma digit_val_hex_char: "d < 16 \<Longrightarrow> digit_val (hex_char d) = Some (ucast d) \<and> hex_char d \<noteq> 58"
proof -
  have "\<forall>d\<in>set (map word_of_nat [0..<16]). digit_val (hex_char d) = Some (ucast d) \<and> hex_char d \<noteq> 58" by code_simp
  moreover assume "d < 16"
  then have "unat d < 16" by (simp add: word_less_nat_alt)
  then have "d \<in> set (map word_of_nat [0..<16])" by (auto intro!: image_eqI [of _ _ "unat d"])
  ultimately show ?thesis by blast
qed

lemma hex_byte_digits: "b div 16 < 16" "b mod 16 < 16" for b :: byte
  using unsigned_less [of b, where ?'a = nat] by (simp_all add: word_less_nat_alt unat_div unat_mod)

lemma parse_hex_byte: "parse_hex (hex_byte b @ cs) acc = parse_hex cs (acc * 256 + ucast b)"
proof -
  have u: "unat b = unat b div 16 * 16 + unat b mod 16" by simp
  have "ucast (b div 16) * 16 + ucast (b mod 16) = (ucast b :: u64)"
  proof (rule word_unat_eq_iff [THEN iffD2])
    have l: "unat b < 256" using unsigned_less [of b, where ?'a = nat] by simp
    show "unat (ucast (b div 16) * 16 + ucast (b mod 16) :: u64) = unat (ucast b :: u64)"
      using l by (simp add: unat_word_ariths unsigned_ucast_eq unat_div unat_mod take_bit_eq_mod unat_mod)
  qed
  then have e: "(acc * 16 + ucast (b div 16)) * 16 + ucast (b mod 16) = acc * 256 + (ucast b :: u64)"
    by (simp add: algebra_simps)
  have "parse_hex (hex_byte b @ cs) acc = parse_hex cs ((acc * 16 + ucast (b div 16)) * 16 + ucast (b mod 16))"
    using digit_val_hex_char [OF hex_byte_digits(1), of b] digit_val_hex_char [OF hex_byte_digits(2), of b]
    by (simp add: hex_byte_def)
  then show ?thesis unfolding e .
qed

lemma shift_byte: "drop_bit (8 * Suc k) h * 256 + ucast (ucast (drop_bit (8 * k) h) :: byte) = drop_bit (8 * k) (h :: u64)"
proof -
  let ?x = "drop_bit (8 * k) h"
  have "ucast (ucast ?x :: byte) = take_bit 8 ?x" by (rule bit_word_eqI) (auto simp: bit_simps)
  moreover have "drop_bit (8 * Suc k) h * 256 = push_bit 8 (drop_bit 8 ?x)" by (simp add: push_bit_eq_mult add.commute)
  moreover have "push_bit 8 (drop_bit 8 ?x) + take_bit 8 ?x = ?x" by (rule bits_ident)
  ultimately show ?thesis by argo
qed

lemma parse_hex_last: "parse_hex (hex_byte b) acc = Some (acc * 256 + ucast b)"
  using parse_hex_byte [of b "[]" acc] by simp

lemma parse_hex_HexHash: "parse_hex (HexHash h) 0 = Some h"
proof -
  have s: "drop_bit (8 * Suc k) h * 256 + ucast (ucast (drop_bit (8 * k) h) :: byte) = drop_bit (8 * k) h" for k by (rule shift_byte)
  have z: "drop_bit 64 h = 0" by (rule bit_word_eqI) (auto simp: bit_simps)
  show ?thesis
    using s [of 0] s [of 1] s [of 2] s [of 3] s [of 4] s [of 5] s [of 6] s [of 7] z
    by (simp add: HexHash_def be64_def parse_hex_byte parse_hex_last)
qed

lemma after_colon_skip: "58 \<notin> set cs \<Longrightarrow> after_colon part cs = part"
  by (induction cs arbitrary: part) auto

lemma after_colon_append: "58 \<notin> set cs \<Longrightarrow> after_colon part (xs @ 58 # cs) = cs"
  by (induction xs arbitrary: part) (auto simp: after_colon_skip)

lemma HexHash_chars: "58 \<notin> set (HexHash h)" "length (HexHash h) = 16"
proof -
  have "58 \<notin> set (hex_byte b)" for b
    using digit_val_hex_char [of "b div 16"] digit_val_hex_char [of "b mod 16"] hex_byte_digits [of b] by (auto simp: hex_byte_def)
  then show "58 \<notin> set (HexHash h)" by (simp add: HexHash_def be64_def)
  show "length (HexHash h) = 16" by (simp add: HexHash_def be64_def hex_byte_def)
qed

text \<open>A key rendered with \<^verbatim>\<open>HexHash\<close>, bare or behind any scheme prefix, is read back by \<^verbatim>\<open>HashLabel\<close>.\<close>

theorem HashLabel_HexHash:
  "HashLabel sha (HexHash h) = h \<and> HashLabel sha (scheme @ 58 # HexHash h) = h"
  using HexHash_chars [of h] by (simp add: HashLabel_def after_colon_skip after_colon_append parse_hex_HexHash)

text \<open>The fractions of a coverage are fractions.\<close>

lemma fdiv_unit: "0 \<le> a \<Longrightarrow> a \<le> b \<Longrightarrow> 0 < b \<Longrightarrow> b < 2 ^ 53 \<Longrightarrow> 0 \<le> fdiv (f64 a) (f64 b) \<and> fdiv (f64 a) (f64 b) \<le> 1"
proof -
  assume a: "0 \<le> a" "a \<le> b" "0 < b" "b < 2 ^ 53"
  have e: "f64 a = of_int a" "f64 b = of_int b" using a by (simp_all add: f64_exact)
  have "(of_int a :: rat) / of_int b \<le> 1" using a by (simp add: divide_le_eq)
  then have "fl64 (of_int a / of_int b) \<le> fl64 1" by (rule fl64_mono)
  moreover have "fl64 1 = 1" using f64_exact [of 1] by (simp add: f64_def)
  moreover have "fl64 0 \<le> fl64 (of_int a / of_int b)" using a by (intro fl64_mono) simp
  ultimately show ?thesis by (simp add: fdiv_def e)
qed

lemma Cover_fraction:
  assumes "\<forall>u\<in>set us. 0 \<le> uTokens u" and "token_sum us < 2 ^ 53"
  shows "0 \<le> TokenFraction (Cover us n) \<and> TokenFraction (Cover us n) \<le> 1"
proof -
  have nn: "0 \<le> token_sum xs" if "set xs \<subseteq> set us" for xs using that assms(1) by (intro sum_list_nonneg) (auto dest: subsetD)
  let ?k = "clamp_match us n"
  have "token_sum (take ?k us @ drop ?k us) = token_sum (take ?k us) + token_sum (drop ?k us)"
    unfolding map_append sum_list_append by (rule refl)
  then have "token_sum us = token_sum (take ?k us) + token_sum (drop ?k us)" unfolding append_take_drop_id .
  moreover have "0 \<le> token_sum (drop ?k us)" "0 \<le> token_sum (take ?k us)" by (rule nn, rule set_drop_subset) (rule nn, rule set_take_subset)
  ultimately show ?thesis
    using fdiv_unit [of "token_sum (take ?k us)" "token_sum us"] assms(2) by (auto simp: TokenFraction_def Cover_eq)
qed

end
