(* ===== verification/Dialect.thy ===== *)
theory Dialect
  imports JsonScan
begin

text \<open>
  \<^verbatim>\<open>router/internal/dialect\<close>: the scanner for the end of a stream and the OpenAI dialect, which turns a request
  body into the hashed units the affinity tree is walked with. SHA-256 is the parameter \<open>sha\<close>; header access
  and rendering of responses are left out.
\<close>

definition bytes :: "string \<Rightarrow> byte list" where
  "bytes s = map of_char s"

section \<open>Stream terminal (dialect.go)\<close>

record line_scanner =
  Markers :: "byte list list"
  carry :: "byte list"
  capped :: bool
  seen :: bool

definition maxCarry :: nat where
  "maxCarry = 8192"

text \<open>A new scanner, the zero values but for its markers.\<close>

definition LineScanner :: "byte list list \<Rightarrow> line_scanner" where
  "LineScanner ms = \<lparr>Markers = ms, carry = [], capped = False, seen = False\<rparr>"

fun indexByte :: "byte list \<Rightarrow> byte \<Rightarrow> nat option" where
  "indexByte [] c = None"
| "indexByte (x # xs) c = (if x = c then Some 0 else map_option Suc (indexByte xs c))"

definition hasPrefix :: "byte list \<Rightarrow> byte list \<Rightarrow> bool" where
  "hasPrefix b p = (if length b < length p then False else list_all (\<lambda>i. b ! i = p ! i) [0..<length p])"

function trimCR :: "byte list \<Rightarrow> byte list" where
  "trimCR b = (if b \<noteq> [] \<and> b ! (length b - 1) = 13 then trimCR (butlast b) else b)"
  by pat_completeness auto
termination by (relation "measure length") auto

declare trimCR.simps [simp del]

text \<open>What a complete line does to the scanner.\<close>

definition end_line :: "byte list \<Rightarrow> line_scanner \<Rightarrow> line_scanner" where
  "end_line p s =
     (let line = (if carry s \<noteq> [] then carry s @ p else p)
      in s\<lparr>seen := seen s \<or> \<not> capped s \<and> (\<exists>m\<in>set (Markers s). hasPrefix (trimCR line) m), carry := [], capped := False\<rparr>)"

lemma indexByte_bound: "indexByte p c = Some j \<Longrightarrow> j < length p"
  by (induction p arbitrary: j) (auto split: if_splits)

function Feed :: "byte list \<Rightarrow> line_scanner \<Rightarrow> line_scanner" where
  "Feed p s =
     (if p = [] then s
      else
        (case indexByte p 10 of
           None \<Rightarrow>
             (if capped s then s
              else if length (carry s) + length p \<le> maxCarry then s\<lparr>carry := carry s @ p\<rparr>
              else s\<lparr>capped := True, carry := []\<rparr>)
         | Some j \<Rightarrow> Feed (drop (j + 1) p) (end_line (take j p) s)))"
  by pat_completeness auto
termination by (relation "measure (\<lambda>(p, s). length p)") (auto dest: indexByte_bound)

declare Feed.simps [simp del]

section \<open>The OpenAI dialect (openai.go)\<close>

record introspection =
  Model :: "byte list"
  is_stream :: bool

definition introspect_field :: "byte list \<Rightarrow> byte list \<Rightarrow> introspection \<Rightarrow> bool \<times> introspection" where
  "introspect_field k v a =
     (True,
      if k = bytes ''model'' then (case String v of Some s \<Rightarrow> a\<lparr>Model := s\<rparr> | None \<Rightarrow> a)
      else if k = bytes ''stream'' then (case Bool v of Some b \<Rightarrow> a\<lparr>is_stream := b\<rparr> | None \<Rightarrow> a)
      else a)"

definition Introspect :: "byte list \<Rightarrow> introspection" where
  "Introspect body =
     (let a = \<lparr>Model = [], is_stream = False\<rparr> in if body = [] then a else snd (Fields introspect_field body a))"

definition billingBlockBytes :: nat where
  "billingBlockBytes = 200"

definition ClassCountTokens :: string where
  "ClassCountTokens = ''count_tokens''"

text \<open>The spans of the body the extraction reads; an absent field is the empty span, as the code tests lengths.\<close>

record body_spans =
  messages :: "byte list"
  tools :: "byte list"
  systemSpan :: "byte list"
  promptSpan :: "byte list"
  inputSpan :: "byte list"

definition span_field :: "byte list \<Rightarrow> byte list \<Rightarrow> body_spans \<Rightarrow> bool \<times> body_spans" where
  "span_field k v a =
     (True,
      if k = bytes ''messages'' then a\<lparr>messages := v\<rparr>
      else if k = bytes ''tools'' \<or> k = bytes ''functions'' then a\<lparr>tools := v\<rparr>
      else if k = bytes ''system'' then a\<lparr>systemSpan := v\<rparr>
      else if k = bytes ''prompt'' then a\<lparr>promptSpan := v\<rparr>
      else if k = bytes ''input'' then a\<lparr>inputSpan := v\<rparr> else a)"

definition spans :: "byte list \<Rightarrow> body_spans" where
  "spans body = snd (Fields span_field body \<lparr>messages = [], tools = [], systemSpan = [], promptSpan = [], inputSpan = []\<rparr>)"

definition push_elem :: "byte list \<Rightarrow> byte list list \<Rightarrow> bool \<times> byte list list" where
  "push_elem e es = (True, es @ [e])"

definition systemBlocks :: "byte list \<Rightarrow> byte list list" where
  "systemBlocks sp =
     (if sp = [] then []
      else
        (case String sp of Some s \<Rightarrow> [s]
         | None \<Rightarrow> (case Array push_elem sp [] of (None, out) \<Rightarrow> out | (Some _, _) \<Rightarrow> [])))"

text \<open>\<^verbatim>\<open>add\<close>.\<close>

definition add_units :: "(byte list \<Rightarrow> u64) \<Rightarrow> byte list \<Rightarrow> byte list \<Rightarrow> kvunit list \<Rightarrow> kvunit list" where
  "add_units sha tag content us = us @ ChunkContent sha tag content DefaultChunkBytes"

fun add_system :: "(byte list \<Rightarrow> u64) \<Rightarrow> nat \<Rightarrow> byte list list \<Rightarrow> kvunit list \<Rightarrow> kvunit list" where
  "add_system sha i [] us = us"
| "add_system sha i (blk # bs) us =
     add_system sha (Suc i) bs
       (if i = 0 \<and> length blk < billingBlockBytes then us else add_units sha (bytes ''system'') blk us)"

text \<open>The role and the content of a message; \<open>None\<close> is the nil slice.\<close>

definition message_field :: "byte list \<Rightarrow> byte list \<Rightarrow> byte list \<times> byte list option \<Rightarrow> bool \<times> byte list \<times> byte list option" where
  "message_field k v rc =
     (True,
      if k = bytes ''role'' then ((case String v of Some s \<Rightarrow> s | None \<Rightarrow> []), snd rc)
      else if k = bytes ''content'' then (fst rc, Some (case String v of Some s \<Rightarrow> s | None \<Rightarrow> v))
      else rc)"

record extraction =
  xunits :: "kvunit list"
  xsys :: "(byte list \<times> byte list) list"
  xrest :: "(byte list \<times> byte list) list"

definition message_elem :: "(byte list \<Rightarrow> u64) \<Rightarrow> byte list \<Rightarrow> extraction \<Rightarrow> bool \<times> extraction" where
  "message_elem sha el x =
     (True,
      (case Fields message_field el ([], None) of
         (Some _, _) \<Rightarrow> x\<lparr>xunits := add_units sha (bytes ''elem'') el (xunits x)\<rparr>
       | (None, (role, content)) \<Rightarrow>
           (let pair = (role, case content of None \<Rightarrow> el | Some c \<Rightarrow> c) in
            if role = bytes ''system'' \<or> role = bytes ''developer'' then x\<lparr>xsys := xsys x @ [pair]\<rparr>
            else x\<lparr>xrest := xrest x @ [pair]\<rparr>)))"

definition add_pairs :: "(byte list \<Rightarrow> u64) \<Rightarrow> (byte list \<times> byte list) list \<Rightarrow> kvunit list \<Rightarrow> kvunit list" where
  "add_pairs sha ps us = fold (\<lambda>m. add_units sha (fst m) (snd m)) ps us"

definition chat_units :: "(byte list \<Rightarrow> u64) \<Rightarrow> body_spans \<Rightarrow> kvunit list" where
  "chat_units sha sp =
     (let u0 = add_system sha 0 (systemBlocks (systemSpan sp)) [];
          x = snd (Array (message_elem sha) (messages sp) \<lparr>xunits = u0, xsys = [], xrest = []\<rparr>);
          u1 = add_pairs sha (xsys x) (xunits x);
          u2 = (if tools sp \<noteq> [] then add_units sha (bytes ''tools'') (tools sp) u1 else u1)
      in add_pairs sha (xrest x) u2)"

definition scalar_units :: "(byte list \<Rightarrow> u64) \<Rightarrow> byte list \<Rightarrow> byte list \<Rightarrow> kvunit list" where
  "scalar_units sha tag v = add_units sha tag (case String v of Some s \<Rightarrow> s | None \<Rightarrow> v) []"

definition ExtractUnits :: "(byte list \<Rightarrow> u64) \<Rightarrow> byte list \<Rightarrow> string \<Rightarrow> kvunit list \<Rightarrow> kvunit list \<times> bool" where
  "ExtractUnits sha body class dst =
     (if body = [] \<or> class = ClassCountTokens then (dst, False)
      else
        (let sp = spans body;
             us = (if messages sp \<noteq> [] then chat_units sha sp
                   else if promptSpan sp \<noteq> [] then scalar_units sha (bytes ''prompt'') (promptSpan sp)
                   else if inputSpan sp \<noteq> [] then scalar_units sha (bytes ''input'') (inputSpan sp)
                   else [])
         in if us = [] then (dst, False) else (dst @ us, True)))"

section \<open>Usage\<close>

record usage =
  PromptTokens :: "64 word"
  CachedTokens :: "64 word"
  TotalToks :: "64 word"

record usage_scan =
  uu :: usage
  inputTokens :: "64 word"
  cacheCreate :: "64 word"
  cacheRead :: "64 word"
  anthropic :: bool
  ufound :: bool

definition int_or_0 :: "byte list \<Rightarrow> 64 word" where
  "int_or_0 v = (case Int_span v of Some n \<Rightarrow> n | None \<Rightarrow> 0)"

definition detail_field :: "byte list \<Rightarrow> byte list \<Rightarrow> usage_scan \<Rightarrow> bool \<times> usage_scan" where
  "detail_field k v a = (True, if k = bytes ''cached_tokens'' then a\<lparr>uu := (uu a)\<lparr>CachedTokens := int_or_0 v\<rparr>\<rparr> else a)"

definition usage_field :: "byte list \<Rightarrow> byte list \<Rightarrow> usage_scan \<Rightarrow> bool \<times> usage_scan" where
  "usage_field k v a =
     (True,
      if k = bytes ''prompt_tokens'' then a\<lparr>uu := (uu a)\<lparr>PromptTokens := int_or_0 v\<rparr>\<rparr>
      else if k = bytes ''total_tokens'' then a\<lparr>uu := (uu a)\<lparr>TotalToks := int_or_0 v\<rparr>\<rparr>
      else if k = bytes ''prompt_tokens_details'' then snd (Fields detail_field v a)
      else if k = bytes ''input_tokens'' then a\<lparr>inputTokens := int_or_0 v, anthropic := True\<rparr>
      else if k = bytes ''cache_creation_input_tokens'' then a\<lparr>cacheCreate := int_or_0 v, anthropic := True\<rparr>
      else if k = bytes ''cache_read_input_tokens'' then a\<lparr>cacheRead := int_or_0 v, anthropic := True\<rparr>
      else a)"

definition top_field :: "byte list \<Rightarrow> byte list \<Rightarrow> usage_scan \<Rightarrow> bool \<times> usage_scan" where
  "top_field k v a = (if k \<noteq> bytes ''usage'' then (True, a) else (False, snd (Fields usage_field v (a\<lparr>ufound := True\<rparr>))))"

definition ExtractUsage :: "byte list \<Rightarrow> usage \<times> bool" where
  "ExtractUsage body =
     (let a = snd (Fields top_field body
                \<lparr>uu = \<lparr>PromptTokens = 0, CachedTokens = 0, TotalToks = 0\<rparr>, inputTokens = 0, cacheCreate = 0, cacheRead = 0,
                 anthropic = False, ufound = False\<rparr>);
          u = (if anthropic a \<and> PromptTokens (uu a) = 0
               then (uu a)\<lparr>PromptTokens := inputTokens a + cacheCreate a + cacheRead a, CachedTokens := cacheRead a\<rparr> else uu a)
      in (u, ufound a))"

definition typeForStatus :: "int \<Rightarrow> string" where
  "typeForStatus status =
     (if status = 401 then ''invalid_request_error'' else if status = 429 then ''rate_limit_error''
      else if status \<ge> 500 then ''api_error'' else ''invalid_request_error'')"

end
