(* ===== verification/DialectProps.thy ===== *)
theory DialectProps
  imports Dialect JsonProps
begin

text \<open>
  What the dialect promises: the end of a stream is found whatever the chunking, a request extracts to units
  its next turn extends, and no body makes a token count look like a generation.
\<close>

section \<open>The stream scanner\<close>

text \<open>The lines of a stream: the complete ones and, last, the unfinished one.\<close>

fun split_lines :: "byte list \<Rightarrow> byte list \<Rightarrow> byte list list" where
  "split_lines cur [] = [cur]"
| "split_lines cur (c # cs) = (if c = 10 then cur # split_lines [] cs else split_lines (cur @ [c]) cs)"

definition hit :: "byte list list \<Rightarrow> byte list \<Rightarrow> bool" where
  "hit ms l \<longleftrightarrow> (\<exists>m\<in>set ms. prefix m (rev (dropWhile (\<lambda>c. c = 13) (rev l))))"

lemma trimCR_eq: "trimCR b = rev (dropWhile (\<lambda>c. c = 13) (rev b))"
proof (induction b rule: rev_induct)
  case (snoc c b)
  then show ?case by (subst trimCR.simps) (simp add: nth_append)
qed (simp add: trimCR.simps)

lemma hasPrefix_eq: "hasPrefix b p = prefix p b"
proof
  assume "hasPrefix b p"
  then have "length p \<le> length b" "\<forall>i<length p. b ! i = p ! i" by (auto simp: hasPrefix_def list_all_iff split: if_splits)
  then have "take (length p) b = p" by (simp add: list_eq_iff_nth_eq)
  then show "prefix p b" by (metis take_is_prefix)
next
  assume "prefix p b"
  then show "hasPrefix b p" by (auto simp: hasPrefix_def list_all_iff prefix_def nth_append)
qed

lemma end_line_hit: "end_line p s = s\<lparr>seen := seen s \<or> \<not> capped s \<and> hit (Markers s) (carry s @ p), carry := [], capped := False\<rparr>"
  by (simp add: end_line_def hit_def trimCR_eq hasPrefix_eq Let_def)

lemma split_lines_ne [simp]: "split_lines cur p \<noteq> []"
  by (induction p arbitrary: cur) auto

lemma split_lines_line: "10 \<notin> set xs \<Longrightarrow> split_lines cur (xs @ 10 # ys) = (cur @ xs) # split_lines [] ys"
  by (induction xs arbitrary: cur) auto

lemma split_lines_rest: "10 \<notin> set xs \<Longrightarrow> split_lines cur xs = [cur @ xs]"
  by (induction xs arbitrary: cur) auto

lemma split_lines_append:
  "split_lines cur (p @ q) = butlast (split_lines cur p) @ split_lines (last (split_lines cur p)) q"
  by (induction p arbitrary: cur) auto

lemma indexByte_Some: "indexByte p c = Some j \<Longrightarrow> p = take j p @ c # drop (j + 1) p \<and> c \<notin> set (take j p)"
  by (induction p arbitrary: j) (auto split: if_splits)

lemma indexByte_None: "indexByte p c = None \<Longrightarrow> c \<notin> set p"
  by (induction p) (auto split: if_splits)

lemma Feed_Markers [simp]: "Markers (Feed p s) = Markers s"
  by (induction p s rule: Feed.induct) (subst Feed.simps, auto simp: end_line_def Let_def split: option.split)

text \<open>
  Where the scanner stands after the bytes \<open>dn\<close>: it holds the unfinished line unless that has outgrown the
  carry, whatever it reported is a complete line of the stream, and no short line passed unnoticed.
\<close>

definition scanned :: "byte list \<Rightarrow> line_scanner \<Rightarrow> bool" where
  "scanned dn s \<longleftrightarrow>
     (if capped s then maxCarry < length (last (split_lines [] dn)) else carry s = last (split_lines [] dn)) \<and>
     (seen s \<longrightarrow> (\<exists>l\<in>set (butlast (split_lines [] dn)). hit (Markers s) l)) \<and>
     (\<forall>l\<in>set (butlast (split_lines [] dn)). length l \<le> maxCarry \<longrightarrow> hit (Markers s) l \<longrightarrow> seen s)"

lemma scanned_end_line:
  assumes "scanned dn s" and "10 \<notin> set p"
  shows "scanned (dn @ p @ [10]) (end_line p s)"
proof -
  have "split_lines [] (dn @ p @ [10]) = butlast (split_lines [] dn) @ [last (split_lines [] dn) @ p, []]"
    using assms(2) by (simp add: split_lines_append split_lines_rest)
  then show ?thesis using assms(1) unfolding scanned_def end_line_hit by (auto simp: butlast_append split: if_splits)
qed

lemma Feed_scanned: "scanned dn s \<Longrightarrow> scanned (dn @ p) (Feed p s)"
proof (induction p s arbitrary: dn rule: Feed.induct)
  case (1 p s)
  show ?case
  proof (cases "p = []")
    case True
    then show ?thesis using 1(2) by (simp add: Feed.simps)
  next
    case p: False
    show ?thesis
    proof (cases "indexByte p 10")
      case None
      then have "split_lines [] (dn @ p) = butlast (split_lines [] dn) @ [last (split_lines [] dn) @ p]"
        by (simp add: split_lines_append split_lines_rest indexByte_None)
      then show ?thesis using 1(2) p None by (subst Feed.simps) (auto simp: scanned_def)
    next
      case (Some j)
      have "scanned (dn @ take j p @ [10]) (end_line (take j p) s)"
        using scanned_end_line [OF 1(2)] indexByte_Some [OF Some] by blast
      from 1(1) [OF p Some this] have "scanned (dn @ take j p @ 10 # drop (j + 1) p) (Feed p s)"
        using p Some by (subst Feed.simps) simp
      then show ?thesis using indexByte_Some [OF Some] by simp
    qed
  qed
qed

lemma fold_Feed_scanned: "scanned dn s \<Longrightarrow> scanned (dn @ concat ps) (fold Feed ps s)"
proof (induction ps arbitrary: dn s)
  case (Cons p ps)
  from Cons.IH [OF Feed_scanned [OF Cons.prems, of p]] show ?case by simp
qed simp

lemma fold_Feed_Markers: "Markers (fold Feed ps s) = Markers s"
  by (induction ps arbitrary: s) simp_all

text \<open>C31. Whatever the stream and however it was cut into chunks, the scanner reports the end only if a complete
  line of the stream starts with a terminal marker, and it misses no such line of at most 8 KiB, however long
  the other lines are: a line that outgrows the carry costs only itself.\<close>

theorem stream_terminal_any_chunking:
  "(seen (fold Feed ps (LineScanner ms)) \<longrightarrow> (\<exists>l\<in>set (butlast (split_lines [] (concat ps))). hit ms l)) \<and>
   (\<forall>l\<in>set (butlast (split_lines [] (concat ps))). length l \<le> maxCarry \<longrightarrow> hit ms l \<longrightarrow> seen (fold Feed ps (LineScanner ms)))"
proof -
  have "scanned [] (LineScanner ms)" by (simp add: scanned_def LineScanner_def)
  from fold_Feed_scanned [OF this, of ps] have "scanned (concat ps) (fold Feed ps (LineScanner ms))" by simp
  moreover have "Markers (fold Feed ps (LineScanner ms)) = ms" by (simp add: fold_Feed_Markers LineScanner_def)
  ultimately show ?thesis unfolding scanned_def by simp
qed

text \<open>An answer of 9000 bytes on one line, in two chunks, and then the end of the stream, again in two.\<close>

theorem stream_terminal_any_chunking_witness:
  "seen (fold Feed [replicate 5000 65, replicate 4000 65, 10 # bytes ''data: [DO'', bytes ''NE]'', [13, 10]]
     (LineScanner [bytes ''data: [DONE]'']))"
proof -
  let ?ps = "[replicate 5000 65, replicate 4000 65, 10 # bytes ''data: [DO'', bytes ''NE]'', [13, 10]] :: byte list list"
  let ?l = "bytes ''data: [DONE]'' @ [13]"
  have l: "10 \<notin> set ?l" "length ?l \<le> maxCarry" "hit [bytes ''data: [DONE]''] ?l" by code_simp+
  have "concat ?ps = (replicate 5000 65 @ replicate 4000 65) @ 10 # (?l @ 10 # [])" by (simp add: bytes_def)
  moreover have "split_lines [] ((replicate 5000 65 @ replicate 4000 65) @ 10 # (?l @ 10 # [])) = [replicate 5000 65 @ replicate 4000 65, ?l, []]"
    by (subst split_lines_line, simp, subst split_lines_line [OF l(1)]) simp
  ultimately have "?l \<in> set (butlast (split_lines [] (concat ?ps)))" by (simp only: butlast.simps) simp
  with stream_terminal_any_chunking [of ?ps "[bytes ''data: [DONE]'']"] l(2,3)
  show ?thesis by blast
qed

section \<open>Extraction\<close>

text \<open>A callback that always goes on sees exactly the elements, in order.\<close>

lemma array_loop_fold:
  assumes "\<And>e s. cb e s = (True, g e s)"
  shows "\<exists>err es. (\<forall>acc. array_loop push_elem v i acc = (err, acc @ es)) \<and> (\<forall>s. array_loop cb v i s = (err, fold g es s))"
proof (induction "length v - i" arbitrary: i rule: less_induct)
  case less
  let ?i = "skipSpace v i"
  have le: "i \<le> ?i" using skipSpace_bounds [of i v] by simp
  show ?case
  proof (cases "?i < length v \<and> v ! ?i \<noteq> rbracket")
    case True
    show ?thesis
    proof (cases "v ! ?i = comma")
      case c: True
      have "array_loop f v i s = array_loop f v (?i + 1) s" for f :: "byte list \<Rightarrow> 'x \<Rightarrow> bool \<times> 'x" and s
        using True c by (subst array_loop.simps) (simp add: Let_def)
      then show ?thesis using less.hyps [of "?i + 1"] True le by (metis add_lessD1 diff_less_mono2 less_add_one order_le_less_trans)
    next
      case c: False
      show ?thesis
      proof (cases "\<exists>ee. skipValue v ?i = Some ee \<and> ?i < ee")
        case True
        then obtain ee where ee: "skipValue v ?i = Some ee" "?i < ee" by blast
        have step: "array_loop f v i s = (case f (slice v ?i ee) s of (True, s1) \<Rightarrow> array_loop f v ee s1 | (False, s1) \<Rightarrow> (None, s1))"
          for f :: "byte list \<Rightarrow> 'x \<Rightarrow> bool \<times> 'x" and s
          using \<open>?i < length v \<and> v ! ?i \<noteq> rbracket\<close> c ee by (subst array_loop.simps) (simp add: Let_def)
        have "ee \<le> length v" using skipValue_bounds [OF ee(1)] by simp
        then have "length v - ee < length v - i" using ee(2) le by linarith
        then obtain err es where I: "\<forall>acc. array_loop push_elem v ee acc = (err, acc @ es)" "\<forall>s. array_loop cb v ee s = (err, fold g es s)"
          using less.hyps by blast
        have "array_loop push_elem v i acc = (err, acc @ slice v ?i ee # es)" for acc
          unfolding step using I(1) by (simp add: push_elem_def)
        moreover have "array_loop cb v i s = (err, fold g (slice v ?i ee # es) s)" for s unfolding step assms [of "slice v ?i ee" s] using I(2) by simp
        ultimately show ?thesis by blast
      next
        case False
        then have bad: "array_loop f v i s = (Some ErrMalformed, s)" for f :: "byte list \<Rightarrow> 'x \<Rightarrow> bool \<times> 'x" and s
          using \<open>?i < length v \<and> v ! ?i \<noteq> rbracket\<close> c
          by (subst array_loop.simps) (auto simp: Let_def not_less split: option.splits)
        show ?thesis by (intro exI [of _ "Some ErrMalformed"] exI [of _ "[]"]) (simp add: bad)
      qed
    qed
  next
    case False
    define err where "err = (if ?i \<ge> length v then Some ErrMalformed else None)"
    have stop: "array_loop f v i s = (err, s)" for f :: "byte list \<Rightarrow> 'x \<Rightarrow> bool \<times> 'x" and s
      using False by (subst array_loop.simps) (auto simp: Let_def err_def)
    show ?thesis by (intro exI [of _ err] exI [of _ "[]"]) (simp add: stop)
  qed
qed

definition elements :: "byte list \<Rightarrow> byte list list" where
  "elements v = snd (Array push_elem v [])"

lemma Array_fold: "(\<And>e s. cb e s = (True, g e s)) \<Longrightarrow> snd (Array cb v s) = fold g (elements v) s"
proof -
  assume a: "\<And>e s. cb e s = (True, g e s)"
  obtain err es where "\<forall>acc. array_loop push_elem v (skipSpace v 0 + 1) acc = (err, acc @ es)"
    "\<forall>s. array_loop cb v (skipSpace v 0 + 1) s = (err, fold g es s)"
    using array_loop_fold [of cb g v "skipSpace v 0 + 1", OF a] by blast
  then show ?thesis by (simp add: Array_def elements_def Let_def)
qed

text \<open>A message that is neither an instruction nor malformed: it extracts to one tagged content.\<close>

definition turn :: "byte list \<Rightarrow> bool" where
  "turn e \<longleftrightarrow> (case Fields message_field e ([], None) of (None, (role, c)) \<Rightarrow> role \<noteq> bytes ''system'' \<and> role \<noteq> bytes ''developer'' | _ \<Rightarrow> False)"

definition turn_pair :: "byte list \<Rightarrow> byte list \<times> byte list" where
  "turn_pair e = (case snd (Fields message_field e ([], None)) of (role, c) \<Rightarrow> (role, case c of None \<Rightarrow> e | Some c \<Rightarrow> c))"

lemma message_turns:
  "\<forall>e\<in>set es. turn e \<Longrightarrow> fold (\<lambda>e. snd \<circ> message_elem sha e) es x = x\<lparr>xrest := xrest x @ map turn_pair es\<rparr>"
proof (induction es arbitrary: x)
  case (Cons e es)
  have "snd (message_elem sha e x) = x\<lparr>xrest := xrest x @ [turn_pair e]\<rparr>"
    using Cons.prems by (auto simp: turn_def turn_pair_def message_elem_def Let_def split: prod.splits option.splits)
  then show ?case using Cons by simp
qed simp

lemma add_pairs_append: "add_pairs sha (ps @ qs) us = add_pairs sha qs (add_pairs sha ps us)"
  by (simp add: add_pairs_def)

lemma add_pairs_acc: "add_pairs sha ps us = us @ add_pairs sha ps []"
proof (induction ps arbitrary: us)
  case (Cons p ps)
  have "add_pairs sha (p # ps) us = add_pairs sha ps (add_units sha (fst p) (snd p) us)" for us by (simp add: add_pairs_def)
  then show ?case using Cons [of "add_units sha (fst p) (snd p) us"] Cons [of "add_units sha (fst p) (snd p) []"]
    by (simp add: add_units_def)
qed (simp add: add_pairs_def)

definition chat_state :: "(byte list \<Rightarrow> u64) \<Rightarrow> body_spans \<Rightarrow> extraction" where
  "chat_state sha sp = fold (\<lambda>e. snd \<circ> message_elem sha e) (elements (messages sp))
     \<lparr>xunits = add_system sha 0 (systemBlocks (systemSpan sp)) [], xsys = [], xrest = []\<rparr>"

lemma chat_units_eq:
  "chat_units sha sp =
     (let x = chat_state sha sp; u1 = add_pairs sha (xsys x) (xunits x)
      in add_pairs sha (xrest x) (if tools sp \<noteq> [] then add_units sha (bytes ''tools'') (tools sp) u1 else u1))"
proof -
  have "snd (Array (message_elem sha) (messages sp) s) = fold (\<lambda>e. snd \<circ> message_elem sha e) (elements (messages sp)) s" for s
    by (rule Array_fold) (simp add: message_elem_def)
  then show ?thesis by (simp add: chat_units_def chat_state_def Let_def)
qed

lemma chat_units_turns:
  assumes "elements (messages sp2) = elements (messages sp1) @ es" and "\<forall>e\<in>set es. turn e" and "tools sp2 = tools sp1"
    and "systemSpan sp2 = systemSpan sp1"
  shows "chat_units sha sp2 = chat_units sha sp1 @ add_pairs sha (map turn_pair es) []"
proof -
  have "chat_state sha sp2 = (chat_state sha sp1)\<lparr>xrest := xrest (chat_state sha sp1) @ map turn_pair es\<rparr>"
    unfolding chat_state_def assms(1,4) by (simp add: message_turns [OF assms(2)])
  then show ?thesis unfolding chat_units_eq Let_def assms(3) by (auto simp: add_pairs_append intro: add_pairs_acc)
qed

text \<open>C32. The next turn of a conversation extends the units of the last one: with the same tools and system
  prompt and further messages that are not instructions, the units of the earlier request are a prefix of the
  units of the later one, so the later request walks the affinity tree through the whole earlier one.\<close>

theorem next_turn_extends_units:
  assumes "ExtractUnits sha body1 class [] = (us, True)"
    and "messages (spans body1) \<noteq> []" and "messages (spans body2) \<noteq> []" and "body2 \<noteq> []"
    and "tools (spans body2) = tools (spans body1)" and "systemSpan (spans body2) = systemSpan (spans body1)"
    and "elements (messages (spans body2)) = elements (messages (spans body1)) @ es" and "\<forall>e\<in>set es. turn e"
  shows "ExtractUnits sha body2 class [] = (us @ add_pairs sha (map turn_pair es) [], True)"
proof -
  have "class \<noteq> ClassCountTokens" "us = chat_units sha (spans body1)" "us \<noteq> []"
    using assms(1,2) by (auto simp: ExtractUnits_def Let_def split: if_splits)
  then show ?thesis using chat_units_turns [OF assms(7,8,5,6), of sha] assms(3,4) by (simp add: ExtractUnits_def Let_def)
qed

definition ex_body :: "string \<Rightarrow> byte list" where
  "ex_body ext = bytes (''{\"messages\":[{\"content\":\"ab\"}'' @ ext @ '']}'')"

definition ex_len_sha :: "byte list \<Rightarrow> u64" where
  "ex_len_sha bs = of_nat (length bs)"

theorem next_turn_extends_units_witness:
  "map uHash (fst (ExtractUnits ex_len_sha (ex_body '',{\"content\":\"c\"}'') ''chat'' [])) = [6, 5]"
proof -
  let ?b1 = "ex_body []" and ?b2 = "ex_body '',{\"content\":\"c\"}''"
    and ?e = "bytes ''{\"content\":\"c\"}''"
  have a: "ExtractUnits ex_len_sha ?b1 ''chat'' [] = ([\<lparr>uHash = 6, uTokens = 1\<rparr>], True)" by code_simp
  have b: "messages (spans ?b1) \<noteq> []" "messages (spans ?b2) \<noteq> []" "?b2 \<noteq> []" "tools (spans ?b2) = tools (spans ?b1)"
    "systemSpan (spans ?b2) = systemSpan (spans ?b1)" by code_simp+
  have c: "elements (messages (spans ?b2)) = elements (messages (spans ?b1)) @ [?e]" by code_simp
  have d: "\<forall>e\<in>set [?e]. turn e" by code_simp
  have "map uHash (add_pairs ex_len_sha (map turn_pair [?e]) []) = [5]" by code_simp
  then show ?thesis unfolding next_turn_extends_units [OF a b c d] by simp
qed

text \<open>Content always hashes to at least one unit.\<close>

lemma ChunkContent_ne: "ChunkContent sha tag content n \<noteq> []"
  by (auto simp: ChunkContent_def Let_def DefaultChunkBytes_def chunk_loop.simps [of _ _ content _ 0])

lemma add_units_ne: "add_units sha tag content us \<noteq> []"
  by (simp add: add_units_def ChunkContent_ne)

lemma add_pairs_Nil: "add_pairs sha ps us = [] \<longleftrightarrow> ps = [] \<and> us = []"
proof (induction ps arbitrary: us)
  case (Cons p ps)
  have "add_pairs sha (p # ps) us = add_pairs sha ps (add_units sha (fst p) (snd p) us)" by (simp add: add_pairs_def)
  then show ?case using Cons add_units_ne by simp
qed (simp add: add_pairs_def)

definition kept_blocks :: "byte list list \<Rightarrow> byte list list" where
  "kept_blocks bs = (case bs of [] \<Rightarrow> [] | b # bs \<Rightarrow> if length b < billingBlockBytes then bs else b # bs)"

lemma add_system_Nil: "add_system sha i bs us = [] \<longleftrightarrow> us = [] \<and> (if i = 0 then kept_blocks bs else bs) = []"
proof (induction bs arbitrary: i us)
  case (Cons b bs)
  then show ?case using add_units_ne by (cases "i = 0") (auto simp: kept_blocks_def)
qed (simp add: kept_blocks_def)

definition xempty :: "extraction \<Rightarrow> bool" where
  "xempty x \<longleftrightarrow> xunits x = [] \<and> xsys x = [] \<and> xrest x = []"

lemma message_elem_some: "\<not> xempty (snd (message_elem sha e x))"
  by (auto simp: message_elem_def xempty_def Let_def add_units_ne split: prod.splits option.splits)

lemma chat_state_empty: "xempty (chat_state sha sp) \<longleftrightarrow> elements (messages sp) = [] \<and> kept_blocks (systemBlocks (systemSpan sp)) = []"
proof (cases "elements (messages sp)" rule: rev_cases)
  case Nil
  then show ?thesis by (simp add: chat_state_def xempty_def add_system_Nil)
next
  case (snoc es e)
  then show ?thesis using message_elem_some by (simp add: chat_state_def)
qed

lemma chat_units_Nil:
  "chat_units sha sp = [] \<longleftrightarrow> elements (messages sp) = [] \<and> tools sp = [] \<and> kept_blocks (systemBlocks (systemSpan sp)) = []"
proof -
  have "chat_units sha sp = [] \<longleftrightarrow> tools sp = [] \<and> xempty (chat_state sha sp)"
    using add_units_ne by (auto simp: chat_units_eq Let_def add_pairs_Nil xempty_def)
  then show ?thesis using chat_state_empty by blast
qed

text \<open>When a request routes by prefix at all: an extraction only appends to what it was given, and it
  succeeds exactly on a request that is not a token count and has content, a message, tools or a system block
  past the billing header for a chat, a prompt or an input otherwise.\<close>

theorem ExtractUnits_when:
  "\<exists>us. ExtractUnits sha body class dst = (dst @ us, us \<noteq> []) \<and>
     (us \<noteq> []) = (body \<noteq> [] \<and> class \<noteq> ClassCountTokens \<and>
       (if messages (spans body) \<noteq> []
        then elements (messages (spans body)) \<noteq> [] \<or> tools (spans body) \<noteq> [] \<or> kept_blocks (systemBlocks (systemSpan (spans body))) \<noteq> []
        else promptSpan (spans body) \<noteq> [] \<or> inputSpan (spans body) \<noteq> []))"
proof (cases "body = [] \<or> class = ClassCountTokens")
  case True
  then show ?thesis by (auto simp: ExtractUnits_def)
next
  case False
  define us where "us = (if messages (spans body) \<noteq> [] then chat_units sha (spans body)
     else if promptSpan (spans body) \<noteq> [] then scalar_units sha (bytes ''prompt'') (promptSpan (spans body))
     else if inputSpan (spans body) \<noteq> [] then scalar_units sha (bytes ''input'') (inputSpan (spans body)) else [])"
  have "ExtractUnits sha body class dst = (dst @ us, us \<noteq> [])"
    using False by (simp add: ExtractUnits_def us_def Let_def)
  moreover have "(us \<noteq> []) = (if messages (spans body) \<noteq> []
        then elements (messages (spans body)) \<noteq> [] \<or> tools (spans body) \<noteq> [] \<or> kept_blocks (systemBlocks (systemSpan (spans body))) \<noteq> []
        else promptSpan (spans body) \<noteq> [] \<or> inputSpan (spans body) \<noteq> [])"
    by (auto simp: us_def chat_units_Nil scalar_units_def add_units_ne)
  ultimately show ?thesis using False by blast
qed

theorem ExtractUnits_when_witness:
  "snd (ExtractUnits ex_len_sha (ex_body []) ''chat'' []) \<and> \<not> snd (ExtractUnits ex_len_sha (ex_body []) ''count_tokens'' [])"
proof -
  have m: "messages (spans (ex_body [])) \<noteq> []" "ex_body [] \<noteq> []" "elements (messages (spans (ex_body []))) \<noteq> []"
    "''chat'' \<noteq> ClassCountTokens" "''count_tokens'' = ClassCountTokens" by code_simp+
  show ?thesis
    using ExtractUnits_when [of ex_len_sha "ex_body []" "''chat''" "[]"] ExtractUnits_when [of ex_len_sha "ex_body []" "''count_tokens''" "[]"] m
    by force
qed

end
