(* ===== verification/Prefill.thy ===== *)
theory Prefill
  imports Selector "HOL-Library.List_Lexorder" "HOL-Library.Char_ord"
begin

text \<open>
  \<^verbatim>\<open>router/internal/prefill/manager.go\<close>: which nodes of a pool run prefill jobs. A \<^verbatim>\<open>*node\<close> and a \<^verbatim>\<open>*Job\<close> are
  addresses, as jobs keep the node they were reserved on even when the map forgets it. A \<^verbatim>\<open>*registry.Backend\<close>
  is an index; \<open>bs\<close> reads it at the time of the call. The map is an association list, whose order no operation
  depends on, the zero time is \<open>None\<close>, and metrics are not modelled.
\<close>

section \<open>State\<close>

datatype pmode = Decode | Draining | Prefill

record prefill_config =
  NodeBudgetTokens :: int
  MaxFleetFraction :: rat
  NodeConcurrency :: int
  ConvertAfter :: ns
  ReleaseIdle :: ns

definition DefaultNodeBudgetTokens :: int where
  "DefaultNodeBudgetTokens = 4000000"

definition DefaultMaxFleetFraction :: rat where
  "DefaultMaxFleetFraction = 1 / 2"

definition prefill_defaults :: "prefill_config \<Rightarrow> prefill_config" where
  "prefill_defaults c =
     (let c1 = (if NodeBudgetTokens c \<le> 0 then c\<lparr>NodeBudgetTokens := DefaultNodeBudgetTokens\<rparr> else c)
      in if MaxFleetFraction c1 \<le> 0 \<or> MaxFleetFraction c1 > 1 then c1\<lparr>MaxFleetFraction := DefaultMaxFleetFraction\<rparr> else c1)"

record pnode =
  pn_b :: nat
  running :: int
  jqueue :: "nat list"
  mode :: pmode
  pending :: int
  overSince :: "ns option"
  idleSince :: "ns option"

record job =
  jnode :: nat
  jtokens :: int
  jdone :: bool
  granted :: bool
  held :: bool
  queued :: bool
  jbackend :: nat

record manager =
  mcfg :: prefill_config
  mnodes :: "(url \<times> nat) list"
  nheap :: "nat \<Rightarrow> pnode"
  nalloc :: nat
  jheap :: "nat \<Rightarrow> job"
  jalloc :: nat
  conversions :: u64
  releases :: u64

definition no_job :: job where
  "no_job = \<lparr>jnode = 0, jtokens = 0, jdone = True, granted = False, held = False, queued = False, jbackend = 0\<rparr>"

definition fresh_node :: "nat \<Rightarrow> pnode" where
  "fresh_node b = \<lparr>pn_b = b, running = 0, jqueue = [], mode = Decode, pending = 0, overSince = None, idleSince = None\<rparr>"

definition Prefill_New :: "prefill_config \<Rightarrow> manager" where
  "Prefill_New c = \<lparr>mcfg = prefill_defaults c, mnodes = [], nheap = (\<lambda>_. fresh_node 0), nalloc = 0, jheap = (\<lambda>_. no_job), jalloc = 0,
     conversions = 0, releases = 0\<rparr>"

definition upd_node :: "nat \<Rightarrow> (pnode \<Rightarrow> pnode) \<Rightarrow> manager \<Rightarrow> manager" where
  "upd_node a f m = m\<lparr>nheap := (nheap m)(a := f (nheap m a))\<rparr>"

definition upd_job :: "nat \<Rightarrow> (job \<Rightarrow> job) \<Rightarrow> manager \<Rightarrow> manager" where
  "upd_job j f m = m\<lparr>jheap := (jheap m)(j := f (jheap m j))\<rparr>"

section \<open>Modes\<close>

definition nodeLocked :: "(nat \<Rightarrow> backend) \<Rightarrow> nat \<Rightarrow> manager \<Rightarrow> manager" where
  "nodeLocked bs b m =
     (case map_of (mnodes m) (URL (bs b)) of
        None \<Rightarrow> m\<lparr>mnodes := (URL (bs b), nalloc m) # mnodes m, nheap := (nheap m)(nalloc m := fresh_node b), nalloc := nalloc m + 1\<rparr>
      | Some a \<Rightarrow> upd_node a (\<lambda>n. n\<lparr>pn_b := b\<rparr>) m)"

definition ModeOf :: "(nat \<Rightarrow> backend) \<Rightarrow> nat \<Rightarrow> manager \<Rightarrow> pmode" where
  "ModeOf bs b m = (case map_of (mnodes m) (URL (bs b)) of None \<Rightarrow> Decode | Some a \<Rightarrow> mode (nheap m a))"

definition DecodeNodes :: "(nat \<Rightarrow> backend) \<Rightarrow> nat list \<Rightarrow> manager \<Rightarrow> nat list" where
  "DecodeNodes bs cands m = (let out = filter (\<lambda>b. ModeOf bs b m = Decode) cands in if out = [] then cands else out)"

text \<open>\<^verbatim>\<open>m.nodes[b.URL]\<close> of a candidate, which \<^verbatim>\<open>nodeLocked\<close> has made present.\<close>

definition addr :: "(nat \<Rightarrow> backend) \<Rightarrow> manager \<Rightarrow> nat \<Rightarrow> nat" where
  "addr bs m b = the (map_of (mnodes m) (URL (bs b)))"

definition pend :: "(nat \<Rightarrow> backend) \<Rightarrow> manager \<Rightarrow> nat \<Rightarrow> int" where
  "pend bs m b = pending (nheap m (addr bs m b))"

section \<open>Choosing a node\<close>

fun fullest_loop :: "('a \<Rightarrow> int) \<Rightarrow> 'a list \<Rightarrow> 'a list \<Rightarrow> 'a list" where
  "fullest_loop f [] acc = acc"
| "fullest_loop f (b # bs) acc =
     fullest_loop f bs (if acc = [] \<or> f b > f (hd acc) then [b] else if f b = f (hd acc) then acc @ [b] else acc)"

text \<open>The picker is \<open>None\<close> when nil; its answer is \<open>None\<close> when it declines.\<close>

type_synonym picker = "(nat list \<Rightarrow> nat option) option"

definition pickLocked :: "(nat \<Rightarrow> backend) \<Rightarrow> nat list \<Rightarrow> picker \<Rightarrow> manager \<Rightarrow> nat" where
  "pickLocked bs eligible pick m =
     (let fullest = fullest_loop (pend bs m) eligible [] in
      case pick of None \<Rightarrow> hd fullest
      | Some p \<Rightarrow> (if length fullest > 1 then (case p fullest of Some b \<Rightarrow> b | None \<Rightarrow> hd fullest) else hd fullest))"

text \<open>The common loop of \<^verbatim>\<open>leastPendingLocked\<close> and \<^verbatim>\<open>leastLoaded\<close>.\<close>

fun least_loop :: "rng \<Rightarrow> ('a \<Rightarrow> 'c::linorder) \<Rightarrow> 'a list \<Rightarrow> 'a \<Rightarrow> nat \<Rightarrow> nat \<Rightarrow> 'a" where
  "least_loop draw f [] best ties k = best"
| "least_loop draw f (b # bs) best ties k =
     (if f b < f best then least_loop draw f bs b 1 k
      else if f b = f best then least_loop draw f bs (if draw k (ties + 1) = 0 then b else best) (ties + 1) (k + 1)
      else least_loop draw f bs best ties k)"

definition leastPendingLocked :: "rng \<Rightarrow> (nat \<Rightarrow> backend) \<Rightarrow> nat list \<Rightarrow> manager \<Rightarrow> nat" where
  "leastPendingLocked draw bs xs m = least_loop draw (pend bs m) (tl xs) (hd xs) 1 0"

definition leastLoaded :: "rng \<Rightarrow> (nat \<Rightarrow> backend) \<Rightarrow> nat list \<Rightarrow> nat" where
  "leastLoaded draw bs xs = least_loop draw (\<lambda>b. NormalizedLoad (bs b)) (tl xs) (hd xs) 1 0"

definition canConvertLocked :: "prefill_config \<Rightarrow> nat \<Rightarrow> nat \<Rightarrow> nat \<Rightarrow> bool" where
  "canConvertLocked c fleet nonDecode decode =
     (let limit = min \<lfloor>fmul (f64 (int fleet)) (MaxFleetFraction c)\<rfloor> (int fleet - 1)
      in decode > 1 \<and> int nonDecode < limit)"

definition overflowedLongEnoughLocked :: "rng \<Rightarrow> ns \<Rightarrow> (nat \<Rightarrow> backend) \<Rightarrow> nat list \<Rightarrow> manager \<Rightarrow> bool" where
  "overflowedLongEnoughLocked draw now bs nonDecode m =
     (if ConvertAfter (mcfg m) \<le> 0 \<or> nonDecode = [] then True
      else (case overSince (nheap m (addr bs m (leastPendingLocked draw bs nonDecode m))) of
              None \<Rightarrow> False | Some t \<Rightarrow> now - t \<ge> ConvertAfter (mcfg m)))"

definition trackBudgetLocked :: "ns \<Rightarrow> nat \<Rightarrow> manager \<Rightarrow> manager" where
  "trackBudgetLocked now a m =
     upd_node a (\<lambda>n. if pending n \<le> NodeBudgetTokens (mcfg m) then n\<lparr>overSince := None\<rparr>
                     else if overSince n = None then n\<lparr>overSince := Some now\<rparr> else n) m"

section \<open>Reserving\<close>

text \<open>Candidates by class: decode, other, other with room.\<close>

record classes =
  cdecode :: "nat list"
  cnonDecode :: "nat list"
  celigible :: "nat list"

fun classify :: "(nat \<Rightarrow> backend) \<Rightarrow> int \<Rightarrow> nat list \<Rightarrow> manager \<Rightarrow> classes \<Rightarrow> manager \<times> classes" where
  "classify bs tokens [] m c = (m, c)"
| "classify bs tokens (b # cands) m c =
     (let m1 = nodeLocked bs b m; n = nheap m1 (addr bs m1 b) in
      classify bs tokens cands m1
        (if mode n = Decode then c\<lparr>cdecode := cdecode c @ [b]\<rparr>
         else (let c1 = c\<lparr>cnonDecode := cnonDecode c @ [b]\<rparr> in
               if pending n = 0 \<or> pending n + tokens \<le> NodeBudgetTokens (mcfg m1) then c1\<lparr>celigible := celigible c1 @ [b]\<rparr> else c1)))"

definition choose_node :: "rng \<Rightarrow> rng \<Rightarrow> ns \<Rightarrow> (nat \<Rightarrow> backend) \<Rightarrow> nat list \<Rightarrow> picker \<Rightarrow> classes \<Rightarrow> manager \<Rightarrow> nat option \<times> manager" where
  "choose_node draw1 draw2 now bs cands pick c m =
     (if celigible c \<noteq> [] then (Some (pickLocked bs (celigible c) pick m), m)
      else if canConvertLocked (mcfg m) (length cands) (length (cnonDecode c)) (length (cdecode c)) \<and>
              overflowedLongEnoughLocked draw1 now bs (cnonDecode c) m
      then (let b = leastLoaded draw2 bs (cdecode c)
            in (Some b, (upd_node (addr bs m b) (\<lambda>n. n\<lparr>mode := Draining\<rparr>) m)\<lparr>conversions := conversions m + 1\<rparr>))
      else if cnonDecode c \<noteq> [] then (Some (leastPendingLocked draw2 bs (cnonDecode c) m), m)
      else (None, m))"

definition charge :: "ns \<Rightarrow> nat \<Rightarrow> nat \<Rightarrow> int \<Rightarrow> manager \<Rightarrow> nat \<times> manager" where
  "charge now b a tokens m =
     (let m1 = trackBudgetLocked now a (upd_node a (\<lambda>n. n\<lparr>pending := pending n + tokens, idleSince := None\<rparr>) m);
          j = jalloc m1;
          m2 = m1\<lparr>jheap := (jheap m1)(j := \<lparr>jnode = a, jtokens = tokens, jdone = False, granted = False, held = False, queued = True, jbackend = b\<rparr>),
                  jalloc := j + 1\<rparr>
      in (j, upd_node a (\<lambda>n. n\<lparr>jqueue := jqueue n @ [j]\<rparr>) m2))"

text \<open>The job reserved, \<open>None\<close> for \<^verbatim>\<open>ErrNoPrefillNode\<close>.\<close>

definition Reserve :: "rng \<Rightarrow> rng \<Rightarrow> ns \<Rightarrow> (nat \<Rightarrow> backend) \<Rightarrow> nat list \<Rightarrow> int \<Rightarrow> picker \<Rightarrow> manager \<Rightarrow> nat option \<times> manager" where
  "Reserve draw1 draw2 now bs cands tokens0 pick m =
     (let tokens = max tokens0 1 in
      case classify bs tokens cands m \<lparr>cdecode = [], cnonDecode = [], celigible = []\<rparr> of
        (m1, c) \<Rightarrow>
          (case choose_node draw1 draw2 now bs cands pick c m1 of
             (None, m2) \<Rightarrow> (None, m2)
           | (Some b, m2) \<Rightarrow> (case charge now b (addr bs m2 b) tokens m2 of (j, m3) \<Rightarrow> (Some j, m3))))"

section \<open>Slots\<close>

text \<open>The loop of \<^verbatim>\<open>grantLocked\<close> over the queue it pops.\<close>

fun grant_loop :: "(nat \<Rightarrow> backend) \<Rightarrow> nat \<Rightarrow> nat list \<Rightarrow> manager \<Rightarrow> manager" where
  "grant_loop bs a [] m = m"
| "grant_loop bs a (j # q) m =
     (let n = nheap m a; limit = NodeConcurrency (mcfg m) in
      if mode n = Draining then m
      else if limit > 0 \<and> (running n \<ge> limit \<or> inflight (bs (pn_b n)) \<ge> limit) then m
      else grant_loop bs a q
        (upd_job j (\<lambda>x. x\<lparr>queued := False, held := True, granted := True\<rparr>)
          (upd_node a (\<lambda>n. n\<lparr>jqueue := q, running := running n + 1\<rparr>) m)))"

definition grantLocked :: "(nat \<Rightarrow> backend) \<Rightarrow> nat \<Rightarrow> manager \<Rightarrow> manager" where
  "grantLocked bs a m = grant_loop bs a (jqueue (nheap m a)) m"

definition dequeueLocked :: "nat \<Rightarrow> manager \<Rightarrow> manager" where
  "dequeueLocked j m =
     (if \<not> queued (jheap m j) then m
      else upd_job j (\<lambda>x. x\<lparr>queued := False\<rparr>) (upd_node (jnode (jheap m j)) (\<lambda>n. n\<lparr>jqueue := remove1 j (jqueue n)\<rparr>) m))"

text \<open>Giving back a slot that was granted.\<close>

definition drop_slot :: "(nat \<Rightarrow> backend) \<Rightarrow> nat \<Rightarrow> manager \<Rightarrow> manager" where
  "drop_slot bs j m =
     (if held (jheap m j)
      then grantLocked bs (jnode (jheap m j))
             (upd_node (jnode (jheap m j)) (\<lambda>n. n\<lparr>running := running n - 1\<rparr>) (upd_job j (\<lambda>x. x\<lparr>held := False\<rparr>) m))
      else m)"

section \<open>Waiting\<close>

text \<open>One turn of the first loop of \<^verbatim>\<open>WaitReady\<close>: the node's decodes are polled.\<close>

definition poll_drained :: "(nat \<Rightarrow> backend) \<Rightarrow> nat \<Rightarrow> manager \<Rightarrow> manager" where
  "poll_drained bs j m =
     (if mode (nheap m (jnode (jheap m j))) = Draining \<and> inflight (bs (jbackend (jheap m j))) = 0
      then upd_node (jnode (jheap m j)) (\<lambda>n. n\<lparr>mode := Prefill\<rparr>) m else m)"

text \<open>The rest of the turn that finds the node out of draining, and every turn of the second loop: the result
  says whether the job holds a slot, which ends the wait.\<close>

definition poll_grant :: "(nat \<Rightarrow> backend) \<Rightarrow> nat \<Rightarrow> manager \<Rightarrow> bool \<times> manager" where
  "poll_grant bs j m = (let m1 = grantLocked bs (jnode (jheap m j)) m in (held (jheap m1 j), m1))"

text \<open>The context ends while the job is queued.\<close>

definition abandon_wait :: "(nat \<Rightarrow> backend) \<Rightarrow> nat \<Rightarrow> manager \<Rightarrow> manager" where
  "abandon_wait bs j m = drop_slot bs j (dequeueLocked j m)"

section \<open>Releasing\<close>

definition releaseLocked :: "nat \<Rightarrow> manager \<Rightarrow> manager" where
  "releaseLocked a m = (upd_node a (\<lambda>n. n\<lparr>mode := Decode, idleSince := None\<rparr>) m)\<lparr>releases := releases m + 1\<rparr>"

definition releaseIfIdleLocked :: "ns \<Rightarrow> nat \<Rightarrow> manager \<Rightarrow> manager" where
  "releaseIfIdleLocked now a m =
     (let n = nheap m a in
      if mode n = Decode \<or> pending n \<noteq> 0 \<or> running n \<noteq> 0 \<or> jqueue n \<noteq> [] then m
      else if mode n = Prefill \<and> ReleaseIdle (mcfg m) > 0
      then (if idleSince n = None then upd_node a (\<lambda>n. n\<lparr>idleSince := Some now\<rparr>) m else m)
      else releaseLocked a m)"

text \<open>\<^verbatim>\<open>Done\<close> acts once.\<close>

definition Done :: "(nat \<Rightarrow> backend) \<Rightarrow> ns \<Rightarrow> nat \<Rightarrow> manager \<Rightarrow> manager" where
  "Done bs now j m =
     (if jdone (jheap m j) then m
      else
        (let a = jnode (jheap m j);
             m1 = drop_slot bs j (dequeueLocked j (upd_job j (\<lambda>x. x\<lparr>jdone := True\<rparr>) m));
             m2 = upd_node a (\<lambda>n. n\<lparr>pending := pending n - jtokens (jheap m1 j)\<rparr>) m1
         in releaseIfIdleLocked now a (trackBudgetLocked now a m2)))"

definition expired :: "ns \<Rightarrow> manager \<Rightarrow> nat \<Rightarrow> bool" where
  "expired now m a \<longleftrightarrow> mode (nheap m a) = Prefill \<and>
     (case idleSince (nheap m a) of None \<Rightarrow> False | Some t \<Rightarrow> now - t \<ge> ReleaseIdle (mcfg m))"

definition releaseExpired :: "ns \<Rightarrow> manager \<Rightarrow> manager" where
  "releaseExpired now m = fold (\<lambda>ua m. if expired now m (snd ua) then releaseLocked (snd ua) m else m) (mnodes m) m"

definition Prune :: "(nat \<Rightarrow> backend) \<Rightarrow> nat list \<Rightarrow> manager \<Rightarrow> manager" where
  "Prune bs known m = m\<lparr>mnodes := filter (\<lambda>ua. fst ua \<in> set (map (\<lambda>b. URL (bs b)) known)) (mnodes m)\<rparr>"

section \<open>The view\<close>

record node_state =
  ns_url :: url
  ns_mode :: pmode
  ns_pending :: int
  ns_running :: int
  ns_queued :: int

definition node_states :: "manager \<Rightarrow> node_state list" where
  "node_states m = sort_key ns_url (map (\<lambda>(u, a). let n = nheap m a in
     \<lparr>ns_url = u, ns_mode = mode n, ns_pending = pending n, ns_running = running n, ns_queued = int (length (jqueue n))\<rparr>) (mnodes m))"

end
