(* ===== verification/PrefillProps.thy ===== *)
theory PrefillProps
  imports Prefill
begin

text \<open>
  The prefill manager of \<^verbatim>\<open>prefill/manager.go\<close> as a system: the charges of a node are the jobs reserved on
  it, its slots go out in arrival order under its limit, and it leaves decode exactly as long as it has work.
\<close>

section \<open>The invariant, by concern\<close>

definition nodes_inv :: "manager \<Rightarrow> bool" where
  "nodes_inv m \<longleftrightarrow> distinct (map fst (mnodes m)) \<and> (\<forall>ua\<in>set (mnodes m). snd ua < nalloc m) \<and> (\<forall>j<jalloc m. jnode (jheap m j) < nalloc m)"

definition slot_jobs :: "manager \<Rightarrow> nat \<Rightarrow> nat set" where
  "slot_jobs m a = {j. j < jalloc m \<and> jnode (jheap m j) = a \<and> held (jheap m j)}"

definition queue_jobs :: "manager \<Rightarrow> nat \<Rightarrow> nat set" where
  "queue_jobs m a = {j. j < jalloc m \<and> jnode (jheap m j) = a \<and> queued (jheap m j)}"

definition node_slots :: "prefill_config \<Rightarrow> nat set \<Rightarrow> nat set \<Rightarrow> pnode \<Rightarrow> bool" where
  "node_slots c Q H n \<longleftrightarrow> sorted (jqueue n) \<and> distinct (jqueue n) \<and> set (jqueue n) = Q \<and> running n = int (card H) \<and>
     (0 < NodeConcurrency c \<longrightarrow> running n \<le> NodeConcurrency c) \<and> (mode n = Draining \<longrightarrow> running n = 0)"

definition slots_inv :: "manager \<Rightarrow> bool" where
  "slots_inv m \<longleftrightarrow> (\<forall>j<jalloc m. \<not> (held (jheap m j) \<and> queued (jheap m j))) \<and>
     (\<forall>a<nalloc m. node_slots (mcfg m) (queue_jobs m a) (slot_jobs m a) (nheap m a))"

lemma slots_invD:
  assumes "slots_inv m" and "a < nalloc m"
  shows "sorted (jqueue (nheap m a))" "distinct (jqueue (nheap m a))" "set (jqueue (nheap m a)) = queue_jobs m a"
    "running (nheap m a) = int (card (slot_jobs m a))" "0 < NodeConcurrency (mcfg m) \<Longrightarrow> running (nheap m a) \<le> NodeConcurrency (mcfg m)"
    "mode (nheap m a) = Draining \<Longrightarrow> running (nheap m a) = 0" "j < jalloc m \<Longrightarrow> \<not> (held (jheap m j) \<and> queued (jheap m j))"
  using assms unfolding slots_inv_def node_slots_def by blast+

definition open_jobs :: "manager \<Rightarrow> nat \<Rightarrow> nat set" where
  "open_jobs m a = {j. j < jalloc m \<and> jnode (jheap m j) = a \<and> \<not> jdone (jheap m j)}"

definition load_inv :: "manager \<Rightarrow> bool" where
  "load_inv m \<longleftrightarrow> (\<forall>j<jalloc m. 1 \<le> jtokens (jheap m j) \<and> (jdone (jheap m j) \<longrightarrow> \<not> held (jheap m j) \<and> \<not> queued (jheap m j))) \<and>
     (\<forall>a<nalloc m. pending (nheap m a) = (\<Sum>j\<in>open_jobs m a. jtokens (jheap m j)))"

definition node_mode_ok :: "prefill_config \<Rightarrow> pnode \<Rightarrow> bool" where
  "node_mode_ok c n \<longleftrightarrow> (mode n = Decode \<longrightarrow> pending n = 0 \<and> idleSince n = None) \<and>
     (idleSince n \<noteq> None \<longrightarrow> mode n = Prefill \<and> pending n = 0) \<and>
     (mode n \<noteq> Decode \<and> pending n = 0 \<longrightarrow> mode n = Prefill \<and> 0 < ReleaseIdle c \<and> idleSince n \<noteq> None)"

definition modes_inv :: "manager \<Rightarrow> bool" where
  "modes_inv m \<longleftrightarrow> (\<forall>a<nalloc m. node_mode_ok (mcfg m) (nheap m a))"

definition minv :: "manager \<Rightarrow> bool" where
  "minv m \<longleftrightarrow> nodes_inv m \<and> slots_inv m \<and> load_inv m \<and> modes_inv m"

lemma open_jobs_finite [simp]: "finite (open_jobs m a)"
  by (simp add: open_jobs_def)

lemma load_zero: "load_inv m \<Longrightarrow> a < nalloc m \<Longrightarrow> pending (nheap m a) = 0 \<longleftrightarrow> open_jobs m a = {}"
proof -
  assume l: "load_inv m" "a < nalloc m"
  have t: "\<forall>j\<in>open_jobs m a. 1 \<le> jtokens (jheap m j)" using l(1) by (auto simp: load_inv_def open_jobs_def)
  have "(\<Sum>j\<in>open_jobs m a. jtokens (jheap m j)) = 0 \<longleftrightarrow> (\<forall>j\<in>open_jobs m a. jtokens (jheap m j) = 0)"
    by (rule sum_nonneg_eq_0_iff) (use t in auto)
  then show ?thesis using l t by (fastforce simp: load_inv_def)
qed

text \<open>What only moves slots.\<close>

definition slots_only :: "manager \<Rightarrow> manager \<Rightarrow> bool" where
  "slots_only m m' \<longleftrightarrow> mcfg m' = mcfg m \<and> mnodes m' = mnodes m \<and> nalloc m' = nalloc m \<and> jalloc m' = jalloc m \<and>
     (\<forall>j. jnode (jheap m' j) = jnode (jheap m j) \<and> jtokens (jheap m' j) = jtokens (jheap m j) \<and> jdone (jheap m' j) = jdone (jheap m j) \<and>
        jbackend (jheap m' j) = jbackend (jheap m j)) \<and>
     (\<forall>a. mode (nheap m' a) = mode (nheap m a) \<and> pending (nheap m' a) = pending (nheap m a) \<and>
        idleSince (nheap m' a) = idleSince (nheap m a) \<and> pn_b (nheap m' a) = pn_b (nheap m a))"

lemma slots_only_refl: "slots_only m m"
  by (simp add: slots_only_def)

lemma slots_only_trans: "slots_only m m1 \<Longrightarrow> slots_only m1 m2 \<Longrightarrow> slots_only m m2"
  by (simp add: slots_only_def)

lemma slots_only_nodes: "slots_only m m' \<Longrightarrow> nodes_inv m \<Longrightarrow> nodes_inv m'"
  unfolding slots_only_def nodes_inv_def by metis

lemma node_mode_ok_cong:
  "mode n' = mode n \<Longrightarrow> pending n' = pending n \<Longrightarrow> idleSince n' = idleSince n \<Longrightarrow> node_mode_ok c n' = node_mode_ok c n"
  unfolding node_mode_ok_def by simp

lemma slots_only_modes:
  assumes "slots_only m m'" and "modes_inv m"
  shows "modes_inv m'"
  unfolding modes_inv_def
proof (intro allI impI)
  fix a assume a: "a < nalloc m'"
  have "nalloc m' = nalloc m" using assms(1) unfolding slots_only_def by blast
  with a have "a < nalloc m" by simp
  then have "node_mode_ok (mcfg m) (nheap m a)" using assms(2) unfolding modes_inv_def by blast
  moreover have c: "mcfg m' = mcfg m" and "node_mode_ok (mcfg m) (nheap m' a) = node_mode_ok (mcfg m) (nheap m a)"
    using assms(1) node_mode_ok_cong unfolding slots_only_def by blast+
  ultimately show "node_mode_ok (mcfg m') (nheap m' a)" unfolding c by blast
qed

lemma slots_only_open: "slots_only m m' \<Longrightarrow> open_jobs m' a = open_jobs m a"
  by (auto simp: slots_only_def open_jobs_def)

section \<open>Slots\<close>

text \<open>A grant pops a prefix of the queue.\<close>

definition grant_k :: "nat \<Rightarrow> nat \<Rightarrow> manager \<Rightarrow> manager" where
  "grant_k a k m = m\<lparr>nheap := (nheap m)(a := (nheap m a)\<lparr>jqueue := drop k (jqueue (nheap m a)), running := running (nheap m a) + int k\<rparr>),
     jheap := (\<lambda>j. if j \<in> set (take k (jqueue (nheap m a))) then (jheap m j)\<lparr>queued := False, held := True, granted := True\<rparr> else jheap m j)\<rparr>"

lemma grant_k_0: "grant_k a 0 m = m"
proof -
  have "(nheap m a)\<lparr>jqueue := jqueue (nheap m a), running := running (nheap m a)\<rparr> = nheap m a" by (cases "nheap m a") simp
  then show ?thesis by (simp add: grant_k_def)
qed

lemma grant_loop_spec:
  "jqueue (nheap m a) = q \<Longrightarrow>
   \<exists>k\<le>length q. grant_loop bs a q m = grant_k a k m \<and> (k > 0 \<longrightarrow> mode (nheap m a) \<noteq> Draining) \<and>
     (0 < NodeConcurrency (mcfg m) \<longrightarrow> running (nheap m a) \<le> NodeConcurrency (mcfg m) \<longrightarrow> running (nheap m a) + int k \<le> NodeConcurrency (mcfg m))"
proof (induction q arbitrary: m)
  case Nil
  then show ?case by (intro exI [of _ 0]) (simp add: grant_k_0)
next
  case (Cons j q)
  show ?case
  proof (cases "mode (nheap m a) = Draining \<or> 0 < NodeConcurrency (mcfg m) \<and>
      (running (nheap m a) \<ge> NodeConcurrency (mcfg m) \<or> inflight (bs (pn_b (nheap m a))) \<ge> NodeConcurrency (mcfg m))")
    case True
    then have "grant_loop bs a (j # q) m = m" by (auto simp: Let_def)
    then show ?thesis by (intro exI [of _ 0]) (simp add: grant_k_0)
  next
    case False
    define m1 where "m1 = upd_job j (\<lambda>x. x\<lparr>queued := False, held := True, granted := True\<rparr>)
      (upd_node a (\<lambda>n. n\<lparr>jqueue := q, running := running n + 1\<rparr>) m)"
    have f: "jqueue (nheap m1 a) = q" "mode (nheap m1 a) = mode (nheap m a)" "mcfg m1 = mcfg m" "running (nheap m1 a) = running (nheap m a) + 1"
      by (simp_all add: m1_def upd_job_def upd_node_def)
    obtain k where k: "k \<le> length q" "grant_loop bs a q m1 = grant_k a k m1"
      "0 < NodeConcurrency (mcfg m) \<longrightarrow> running (nheap m1 a) \<le> NodeConcurrency (mcfg m) \<longrightarrow> running (nheap m1 a) + int k \<le> NodeConcurrency (mcfg m)"
      using Cons.IH [OF f(1)] f(3) by auto
    have "grant_k a k m1 = grant_k a (Suc k) m"
      using Cons.prems f(1) by (auto simp: grant_k_def m1_def upd_job_def upd_node_def fun_eq_iff)
    moreover have "grant_loop bs a (j # q) m = grant_loop bs a q m1" using False by (auto simp: Let_def m1_def)
    ultimately show ?thesis using k f(4) False by (intro exI [of _ "Suc k"]) auto
  qed
qed

lemma grantLocked_spec:
  obtains k where "k \<le> length (jqueue (nheap m a))" "grantLocked bs a m = grant_k a k m" "k > 0 \<Longrightarrow> mode (nheap m a) \<noteq> Draining"
    "0 < NodeConcurrency (mcfg m) \<Longrightarrow> running (nheap m a) \<le> NodeConcurrency (mcfg m) \<Longrightarrow> running (nheap m a) + int k \<le> NodeConcurrency (mcfg m)"
  using grant_loop_spec [of m a "jqueue (nheap m a)" bs] by (auto simp: grantLocked_def)

lemma grant_k_slots_only: "slots_only m (grant_k a k m)"
  by (simp add: slots_only_def grant_k_def)

lemma grant_k_inv:
  assumes "slots_inv m" and "a < nalloc m" and "k \<le> length (jqueue (nheap m a))" and "k > 0 \<Longrightarrow> mode (nheap m a) \<noteq> Draining"
    and "0 < NodeConcurrency (mcfg m) \<Longrightarrow> running (nheap m a) + int k \<le> NodeConcurrency (mcfg m)"
  shows "slots_inv (grant_k a k m)"
proof -
  let ?m = "grant_k a k m" and ?q = "jqueue (nheap m a)"
  let ?t = "set (take k ?q)"
  note s = slots_invD [OF assms(1,2)]
  have tq: "?t \<subseteq> set ?q" "?t \<inter> set (drop k ?q) = {}" "set ?q = ?t \<union> set (drop k ?q)"
    using set_take_subset [of k ?q] set_take_disj_set_drop_if_distinct [OF s(2), of k k] set_append [of "take k ?q" "drop k ?q"] by auto
  have ja: "jheap ?m j = (if j \<in> ?t then (jheap m j)\<lparr>queued := False, held := True, granted := True\<rparr> else jheap m j)" for j
    by (simp add: grant_k_def)
  have own: "j < jalloc m \<and> jnode (jheap m j) = a \<and> queued (jheap m j)" if "j \<in> ?t" for j
    using that tq(1) s(3) by (auto simp: queue_jobs_def)
  have other: "nheap ?m b = nheap m b" if "b \<noteq> a" for b using that by (simp add: grant_k_def)
  have all: "jalloc ?m = jalloc m" "nalloc ?m = nalloc m" "mcfg ?m = mcfg m" by (simp_all add: grant_k_def)
  have na: "jqueue (nheap ?m a) = drop k ?q" "running (nheap ?m a) = running (nheap m a) + int k" "mode (nheap ?m a) = mode (nheap m a)"
    by (simp_all add: grant_k_def)
  have "queue_jobs ?m b = queue_jobs m b - ?t" for b using own by (auto simp: queue_jobs_def ja all split: if_splits)
  then have qset: "queue_jobs ?m a = set (drop k ?q)" "b \<noteq> a \<Longrightarrow> queue_jobs ?m b = queue_jobs m b" for b
    using s(3) tq(2,3) own by (auto simp: queue_jobs_def)
  have hset: "slot_jobs ?m a = slot_jobs m a \<union> ?t" "b \<noteq> a \<Longrightarrow> slot_jobs ?m b = slot_jobs m b" for b
    using own by (auto simp: slot_jobs_def ja all split: if_splits)
  have "card (slot_jobs m a \<union> ?t) = card (slot_jobs m a) + card ?t"
    by (rule card_Un_disjoint) (use own s(7) in \<open>auto simp: slot_jobs_def\<close>)
  moreover have "card ?t = k" using distinct_card [OF distinct_take [OF s(2)], of k] assms(3) by simp
  ultimately have run: "running (nheap ?m a) = int (card (slot_jobs ?m a))" unfolding hset(1) na(2) using s(4) by simp
  have "\<not> (held (jheap ?m j) \<and> queued (jheap ?m j))" if "j < jalloc m" for j using s(7) [OF that] by (simp add: ja)
  moreover have "node_slots (mcfg m) (queue_jobs ?m b) (slot_jobs ?m b) (nheap ?m b)" if "b < nalloc m" for b
  proof (cases "b = a")
    case True
    have "mode (nheap m a) = Draining \<longrightarrow> running (nheap m a) + int k = 0" using assms(4) s(6) by auto
    moreover have "sorted (drop k ?q)" "distinct (drop k ?q)" using s(1,2) by (simp_all add: sorted_wrt_drop)
    ultimately show ?thesis unfolding True node_slots_def using run assms(5) na qset(1) by simp
  next
    case False
    have "node_slots (mcfg m) (queue_jobs m b) (slot_jobs m b) (nheap m b)" using assms(1) that unfolding slots_inv_def by blast
    then show ?thesis unfolding qset(2) [OF False] hset(2) [OF False] other [OF False] .
  qed
  ultimately show ?thesis unfolding slots_inv_def all by blast
qed

lemma grant_inv:
  assumes "slots_inv m" and "a < nalloc m"
  shows "slots_inv (grantLocked bs a m)" and "slots_only m (grantLocked bs a m)"
proof -
  obtain k where k: "k \<le> length (jqueue (nheap m a))" "grantLocked bs a m = grant_k a k m" "k > 0 \<Longrightarrow> mode (nheap m a) \<noteq> Draining"
    "0 < NodeConcurrency (mcfg m) \<Longrightarrow> running (nheap m a) \<le> NodeConcurrency (mcfg m) \<Longrightarrow> running (nheap m a) + int k \<le> NodeConcurrency (mcfg m)"
    using grantLocked_spec by blast
  show "slots_inv (grantLocked bs a m)" unfolding k(2) using grant_k_inv [OF assms k(1,3)] k(4) slots_invD(5) [OF assms] by blast
  show "slots_only m (grantLocked bs a m)" unfolding k(2) by (rule grant_k_slots_only)
qed

lemma upd_simps [simp]:
  "nheap (upd_node a f m) b = (if b = a then f (nheap m a) else nheap m b)" "jheap (upd_node a f m) = jheap m"
  "mcfg (upd_node a f m) = mcfg m" "mnodes (upd_node a f m) = mnodes m" "nalloc (upd_node a f m) = nalloc m" "jalloc (upd_node a f m) = jalloc m"
  "jheap (upd_job j g m) i = (if i = j then g (jheap m j) else jheap m i)" "nheap (upd_job j g m) = nheap m"
  "mcfg (upd_job j g m) = mcfg m" "mnodes (upd_job j g m) = mnodes m" "nalloc (upd_job j g m) = nalloc m" "jalloc (upd_job j g m) = jalloc m"
  by (simp_all add: upd_node_def upd_job_def)

text \<open>What leaves the slot fields of a node and of every job alone keeps the slot invariant.\<close>

lemma slots_inv_cong:
  assumes "slots_inv m" and "mcfg m' = mcfg m" and "nalloc m' = nalloc m" and "jalloc m' = jalloc m"
    and "\<And>j. held (jheap m' j) = held (jheap m j) \<and> queued (jheap m' j) = queued (jheap m j) \<and> jnode (jheap m' j) = jnode (jheap m j)"
    and "\<And>a. jqueue (nheap m' a) = jqueue (nheap m a) \<and> running (nheap m' a) = running (nheap m a) \<and> (mode (nheap m' a) = Draining \<longrightarrow> mode (nheap m a) = Draining)"
  shows "slots_inv m'"
proof -
  have q: "queue_jobs m' a = queue_jobs m a" "slot_jobs m' a = slot_jobs m a" for a
    using assms(4,5) by (simp_all add: queue_jobs_def slot_jobs_def)
  have "node_slots (mcfg m) Q H (nheap m' a)" if "node_slots (mcfg m) Q H (nheap m a)" for Q H a
    using that assms(6) [of a] unfolding node_slots_def by auto
  then show ?thesis using assms(1) unfolding slots_inv_def q assms(2-4) using assms(5) by simp
qed

lemma queued_iff: "slots_inv m \<Longrightarrow> j < jalloc m \<Longrightarrow> jnode (jheap m j) < nalloc m \<Longrightarrow> queued (jheap m j) \<longleftrightarrow> j \<in> set (jqueue (nheap m (jnode (jheap m j))))"
  using slots_invD(3) [of m "jnode (jheap m j)"] by (simp add: queue_jobs_def)

lemma grant_frame:
  assumes "slots_inv m" and "a < nalloc m" and "\<not> queued (jheap m j)"
  shows "jheap (grantLocked bs a m) j = jheap m j"
proof -
  obtain k where k: "grantLocked bs a m = grant_k a k m" using grantLocked_spec by blast
  have "j \<notin> set (take k (jqueue (nheap m a)))" using slots_invD(3) [OF assms(1,2)] assms(3) set_take_subset [of k "jqueue (nheap m a)"] by (auto simp: queue_jobs_def)
  then show ?thesis by (simp add: k grant_k_def)
qed

lemma dequeue_spec:
  assumes "slots_inv m" and "nodes_inv m" and "j < jalloc m"
  shows "slots_inv (dequeueLocked j m)" and "slots_only m (dequeueLocked j m)" and "\<not> queued (jheap (dequeueLocked j m) j)"
    and "held (jheap (dequeueLocked j m) i) = held (jheap m i)" and "i \<noteq> j \<Longrightarrow> jheap (dequeueLocked j m) i = jheap m i"
proof -
  let ?a = "jnode (jheap m j)" and ?m = "dequeueLocked j m"
  have a: "?a < nalloc m" using assms(2,3) by (simp add: nodes_inv_def)
  show "slots_only m ?m" by (auto simp: dequeueLocked_def slots_only_def)
  show "\<not> queued (jheap ?m j)" "held (jheap ?m i) = held (jheap m i)" "i \<noteq> j \<Longrightarrow> jheap ?m i = jheap m i" by (simp_all add: dequeueLocked_def)
  show "slots_inv ?m"
  proof (cases "queued (jheap m j)")
    case True
    have f: "mcfg ?m = mcfg m" "nalloc ?m = nalloc m" "jalloc ?m = jalloc m" using True by (simp_all add: dequeueLocked_def)
    have h: "slot_jobs ?m b = slot_jobs m b" for b using True by (auto simp: slot_jobs_def dequeueLocked_def)
    have q: "queue_jobs ?m b = queue_jobs m b - {j}" for b using True by (auto simp: queue_jobs_def dequeueLocked_def)
    have "node_slots (mcfg m) (queue_jobs m b - {j}) (slot_jobs m b) (nheap ?m b)" if "b < nalloc m" for b
    proof (cases "b = ?a")
      case b: True
      note S = slots_invD [OF assms(1) a]
      have "set (remove1 j (jqueue (nheap m ?a))) = queue_jobs m ?a - {j}" using S(2,3) by simp
      then show ?thesis
        unfolding b node_slots_def using S True by (simp add: dequeueLocked_def sorted_remove1)
    next
      case False
      then have "j \<notin> queue_jobs m b" by (simp add: queue_jobs_def)
      then show ?thesis using assms(1) that False True unfolding slots_inv_def by (simp add: dequeueLocked_def)
    qed
    moreover have "\<not> (held (jheap ?m i) \<and> queued (jheap ?m i))" if "i < jalloc m" for i
      using assms(1) that True by (simp add: slots_inv_def dequeueLocked_def)
    ultimately show ?thesis unfolding slots_inv_def f h q by blast
  qed (use assms(1) in \<open>simp add: dequeueLocked_def\<close>)
qed

text \<open>The slot of \<open>j\<close> taken back, before it is handed on.\<close>

definition unslot :: "nat \<Rightarrow> manager \<Rightarrow> manager" where
  "unslot j m = upd_node (jnode (jheap m j)) (\<lambda>n. n\<lparr>running := running n - 1\<rparr>) (upd_job j (\<lambda>x. x\<lparr>held := False\<rparr>) m)"

lemma drop_slot_unslot: "drop_slot bs j m = (if held (jheap m j) then grantLocked bs (jnode (jheap m j)) (unslot j m) else m)"
  by (simp add: drop_slot_def unslot_def)

lemma unslot_inv:
  assumes "slots_inv m" and "nodes_inv m" and "j < jalloc m" and "held (jheap m j)"
  shows "slots_inv (unslot j m)" and "slots_only m (unslot j m)"
proof -
  let ?a = "jnode (jheap m j)" and ?m = "unslot j m"
  have a: "?a < nalloc m" using assms(2,3) by (simp add: nodes_inv_def)
  have f: "mcfg ?m = mcfg m" "nalloc ?m = nalloc m" "jalloc ?m = jalloc m" by (simp_all add: unslot_def)
  have q: "queue_jobs ?m b = queue_jobs m b" for b by (auto simp: queue_jobs_def unslot_def)
  have h: "slot_jobs ?m b = slot_jobs m b - {j}" for b by (auto simp: slot_jobs_def unslot_def)
  have j: "j \<in> slot_jobs m ?a" using assms(3,4) by (simp add: slot_jobs_def)
  have fin: "finite (slot_jobs m b)" for b by (simp add: slot_jobs_def)
  have "node_slots (mcfg m) (queue_jobs m b) (slot_jobs m b - {j}) (nheap ?m b)" if "b < nalloc m" for b
  proof (cases "b = ?a")
    case b: True
    note S = slots_invD [OF assms(1) a]
    have "card (slot_jobs m ?a) = Suc (card (slot_jobs m ?a - {j}))" using card_Suc_Diff1 [OF fin j] by simp
    moreover have "mode (nheap m ?a) \<noteq> Draining" using S(4,6) calculation by auto
    ultimately show ?thesis unfolding b node_slots_def using S by (auto simp: unslot_def)
  next
    case False
    then have "j \<notin> slot_jobs m b" by (simp add: slot_jobs_def)
    then show ?thesis using assms(1) that False unfolding slots_inv_def by (simp add: unslot_def)
  qed
  moreover have "\<not> (held (jheap ?m i) \<and> queued (jheap ?m i))" if "i < jalloc m" for i
    using assms(1) that by (simp add: slots_inv_def unslot_def)
  ultimately show "slots_inv ?m" unfolding slots_inv_def f h q by blast
  show "slots_only m ?m" by (auto simp: slots_only_def unslot_def)
qed

lemma drop_slot_spec:
  assumes "slots_inv m" and "nodes_inv m" and "j < jalloc m" and "\<not> queued (jheap m j)"
  shows "slots_inv (drop_slot bs j m)" and "slots_only m (drop_slot bs j m)" and "\<not> queued (jheap (drop_slot bs j m) j)" and "\<not> held (jheap (drop_slot bs j m) j)"
    and "i \<noteq> j \<Longrightarrow> \<not> queued (jheap m i) \<Longrightarrow> jheap (drop_slot bs j m) i = jheap m i"
proof -
  let ?a = "jnode (jheap m j)" and ?m = "drop_slot bs j m"
  have main: "slots_inv ?m \<and> slots_only m ?m \<and> \<not> queued (jheap ?m j) \<and> \<not> held (jheap ?m j) \<and> (i \<noteq> j \<longrightarrow> \<not> queued (jheap m i) \<longrightarrow> jheap ?m i = jheap m i)" for i
  proof (cases "held (jheap m j)")
    case True
    have e: "?m = grantLocked bs ?a (unslot j m)" using True by (simp add: drop_slot_unslot)
    note U = unslot_inv [OF assms(1-3) True]
    have a1: "?a < nalloc (unslot j m)" using assms(2,3) by (simp add: nodes_inv_def unslot_def)
    note G = grant_inv [OF U(1) a1, of bs] and F = grant_frame [OF U(1) a1, of _ bs]
    have "jheap ?m j = jheap (unslot j m) j" unfolding e by (rule F) (use assms(4) in \<open>simp add: unslot_def\<close>)
    moreover have "jheap ?m i = jheap m i" if "i \<noteq> j" "\<not> queued (jheap m i)"
      unfolding e using F [of i] that by (simp add: unslot_def)
    ultimately show ?thesis using G slots_only_trans [OF U(2) G(2)] assms(4) unfolding e by (simp add: unslot_def)
  qed (use assms slots_only_refl in \<open>simp add: drop_slot_def\<close>)
  show "slots_inv ?m" "slots_only m ?m" "\<not> queued (jheap ?m j)" "\<not> held (jheap ?m j)"
    "i \<noteq> j \<Longrightarrow> \<not> queued (jheap m i) \<Longrightarrow> jheap ?m i = jheap m i" using main by blast+
qed

section \<open>Every operation keeps the invariant\<close>

lemma load_slots_only:
  assumes "load_inv m" and "slots_only m m'" and "\<And>j. j < jalloc m \<Longrightarrow> jdone (jheap m j) \<Longrightarrow> \<not> held (jheap m' j) \<and> \<not> queued (jheap m' j)"
  shows "load_inv m'"
proof -
  have f: "jalloc m' = jalloc m" "nalloc m' = nalloc m" "\<And>j. jtokens (jheap m' j) = jtokens (jheap m j)" "\<And>j. jdone (jheap m' j) = jdone (jheap m j)"
    "\<And>a. pending (nheap m' a) = pending (nheap m a)" using assms(2) unfolding slots_only_def by blast+
  show ?thesis using assms(1,3) unfolding load_inv_def f slots_only_open [OF assms(2)] by blast
qed

lemma grant_minv: "minv m \<Longrightarrow> a < nalloc m \<Longrightarrow> minv (grantLocked bs a m)"
proof -
  assume m: "minv m" "a < nalloc m"
  note s = m(1) [unfolded minv_def]
  have G: "slots_inv (grantLocked bs a m)" "slots_only m (grantLocked bs a m)" using grant_inv s m(2) by blast+
  have "\<not> held (jheap (grantLocked bs a m) j) \<and> \<not> queued (jheap (grantLocked bs a m) j)" if "j < jalloc m" "jdone (jheap m j)" for j
    using s that grant_frame [of m a j bs] m(2) by (simp add: load_inv_def)
  then show "minv (grantLocked bs a m)"
    unfolding minv_def using G s slots_only_nodes slots_only_modes load_slots_only by blast
qed

lemma poll_grant_minv: "minv m \<Longrightarrow> j < jalloc m \<Longrightarrow> minv (snd (poll_grant bs j m))"
  using grant_minv [of m "jnode (jheap m j)" bs] by (simp add: poll_grant_def Let_def minv_def nodes_inv_def)

text \<open>A change of one node that leaves its slot fields alone.\<close>

lemma upd_node_minv:
  assumes "minv m" and "a < nalloc m" and "jqueue (f (nheap m a)) = jqueue (nheap m a)" and "running (f (nheap m a)) = running (nheap m a)"
    and "mode (f (nheap m a)) = Draining \<Longrightarrow> mode (nheap m a) = Draining" and "pending (f (nheap m a)) = pending (nheap m a)"
    and "node_mode_ok (mcfg m) (f (nheap m a))"
  shows "minv (upd_node a f m)"
proof -
  note s = assms(1) [unfolded minv_def]
  have "slots_inv (upd_node a f m)" by (rule slots_inv_cong [of m]) (use s assms(3-5) in auto)
  moreover have "open_jobs (upd_node a f m) b = open_jobs m b" for b by (simp add: open_jobs_def)
  then have "load_inv (upd_node a f m)" using s assms(6) by (simp add: load_inv_def)
  moreover have "nodes_inv (upd_node a f m)" "modes_inv (upd_node a f m)" using s assms(7) by (simp_all add: nodes_inv_def modes_inv_def)
  ultimately show ?thesis by (simp add: minv_def)
qed

lemma minvD: "minv m \<Longrightarrow> a < nalloc m \<Longrightarrow> node_mode_ok (mcfg m) (nheap m a)"
  by (simp add: minv_def modes_inv_def)

lemma poll_drained_minv:
  assumes "minv m" and "j < jalloc m" and "\<not> jdone (jheap m j)"
  shows "minv (poll_drained bs j m)"
proof (cases "mode (nheap m (jnode (jheap m j))) = Draining \<and> inflight (bs (jbackend (jheap m j))) = 0")
  case True
  let ?a = "jnode (jheap m j)"
  have a: "?a < nalloc m" using assms(1,2) by (simp add: minv_def nodes_inv_def)
  have "j \<in> open_jobs m ?a" using assms(2,3) by (simp add: open_jobs_def)
  then have "pending (nheap m ?a) \<noteq> 0" using load_zero [of m ?a] assms(1) a by (auto simp: minv_def)
  then have "minv (upd_node ?a (\<lambda>n. n\<lparr>mode := Prefill\<rparr>) m)"
    using minvD [OF assms(1) a] by (intro upd_node_minv [OF assms(1) a]) (auto simp: node_mode_ok_def)
  then show ?thesis using True by (simp add: poll_drained_def)
qed (use assms(1) in \<open>auto simp: poll_drained_def\<close>)

lemma slots_pair:
  assumes "minv m" and "j < jalloc m"
  shows "slots_inv (drop_slot bs j (dequeueLocked j m))" and "slots_only m (drop_slot bs j (dequeueLocked j m))"
    and "\<not> queued (jheap (drop_slot bs j (dequeueLocked j m)) j)" and "\<not> held (jheap (drop_slot bs j (dequeueLocked j m)) j)"
    and "i \<noteq> j \<Longrightarrow> \<not> queued (jheap m i) \<Longrightarrow> jheap (drop_slot bs j (dequeueLocked j m)) i = jheap m i"
proof -
  let ?d = "dequeueLocked j m"
  have s: "slots_inv m" "nodes_inv m" using assms(1) by (simp_all add: minv_def)
  note D = dequeue_spec [OF s assms(2)]
  have n: "nodes_inv ?d" using slots_only_nodes [OF D(2) s(2)] .
  have j: "j < jalloc ?d" using D(2) assms(2) by (simp add: slots_only_def)
  note P = drop_slot_spec [OF D(1) n j D(3)]
  show "slots_inv (drop_slot bs j ?d)" by (rule P(1))
  show "slots_only m (drop_slot bs j ?d)" by (rule slots_only_trans [OF D(2) P(2)])
  show "\<not> queued (jheap (drop_slot bs j ?d) j)" by (rule P(3))
  show "\<not> held (jheap (drop_slot bs j ?d) j)" by (rule P(4))
  show "jheap (drop_slot bs j ?d) i = jheap m i" if "i \<noteq> j" "\<not> queued (jheap m i)" using P(5) [of i] D(5) [OF that(1)] that by simp
qed

lemma abandon_minv: "minv m \<Longrightarrow> j < jalloc m \<Longrightarrow> minv (abandon_wait bs j m)"
proof -
  assume m: "minv m" "j < jalloc m"
  note S = slots_pair [OF m, where bs = bs]
  have "\<not> held (jheap (abandon_wait bs j m) i) \<and> \<not> queued (jheap (abandon_wait bs j m) i)" if "i < jalloc m" "jdone (jheap m i)" for i
    using S(3,4) S(5) [of i] that m(1) by (cases "i = j") (auto simp: abandon_wait_def minv_def load_inv_def)
  then show ?thesis
    using S(1,2) m(1) slots_only_nodes slots_only_modes load_slots_only unfolding minv_def abandon_wait_def by blast
qed

text \<open>\<^verbatim>\<open>trackBudgetLocked\<close> only moves the overflow stamp.\<close>

lemma track_fields:
  "mcfg (trackBudgetLocked now a m) = mcfg m" "mnodes (trackBudgetLocked now a m) = mnodes m" "nalloc (trackBudgetLocked now a m) = nalloc m"
  "jalloc (trackBudgetLocked now a m) = jalloc m" "jheap (trackBudgetLocked now a m) = jheap m"
  "mode (nheap (trackBudgetLocked now a m) b) = mode (nheap m b)" "pending (nheap (trackBudgetLocked now a m) b) = pending (nheap m b)"
  "running (nheap (trackBudgetLocked now a m) b) = running (nheap m b)" "jqueue (nheap (trackBudgetLocked now a m) b) = jqueue (nheap m b)"
  "idleSince (nheap (trackBudgetLocked now a m) b) = idleSince (nheap m b)" "pn_b (nheap (trackBudgetLocked now a m) b) = pn_b (nheap m b)"
  by (simp_all add: trackBudgetLocked_def)

lemma release_fields:
  "mcfg (releaseIfIdleLocked now a m) = mcfg m" "mnodes (releaseIfIdleLocked now a m) = mnodes m" "nalloc (releaseIfIdleLocked now a m) = nalloc m"
  "jalloc (releaseIfIdleLocked now a m) = jalloc m" "jheap (releaseIfIdleLocked now a m) = jheap m"
  "pending (nheap (releaseIfIdleLocked now a m) b) = pending (nheap m b)" "running (nheap (releaseIfIdleLocked now a m) b) = running (nheap m b)"
  "jqueue (nheap (releaseIfIdleLocked now a m) b) = jqueue (nheap m b)" "b \<noteq> a \<Longrightarrow> nheap (releaseIfIdleLocked now a m) b = nheap m b"
  "mode (nheap (releaseIfIdleLocked now a m) b) = Draining \<Longrightarrow> mode (nheap m b) = Draining"
  by (auto simp: releaseIfIdleLocked_def releaseLocked_def Let_def split: if_splits)

lemma release_mode_ok:
  assumes "mode (nheap m a) \<noteq> Decode" and "idleSince (nheap m a) = None" and "pending (nheap m a) = 0 \<Longrightarrow> running (nheap m a) = 0 \<and> jqueue (nheap m a) = []"
  shows "node_mode_ok (mcfg m) (nheap (releaseIfIdleLocked now a m) a)"
proof (cases "pending (nheap m a) = 0")
  case True
  then show ?thesis
    using assms by (cases "mode (nheap m a)") (auto simp: releaseIfIdleLocked_def releaseLocked_def Let_def node_mode_ok_def)
next
  case False
  then show ?thesis using assms by (simp add: releaseIfIdleLocked_def Let_def node_mode_ok_def)
qed

lemma Done_minv:
  assumes "minv m" and "j < jalloc m"
  shows "minv (Done bs now j m)"
proof (cases "jdone (jheap m j)")
  case False
  define a where "a = jnode (jheap m j)"
  define m0 where "m0 = upd_job j (\<lambda>x. x\<lparr>jdone := True\<rparr>) m"
  define m1 where "m1 = drop_slot bs j (dequeueLocked j m0)"
  define m2 where "m2 = upd_node a (\<lambda>n. n\<lparr>pending := pending n - jtokens (jheap m1 j)\<rparr>) m1"
  define m3 where "m3 = trackBudgetLocked now a m2"
  have e: "Done bs now j m = releaseIfIdleLocked now a m3" using False by (simp add: Done_def Let_def a_def m0_def m1_def m2_def m3_def)
  note s = assms(1) [unfolded minv_def]
  have a: "a < nalloc m" using s assms(2) by (simp add: nodes_inv_def a_def)
  have s0: "slots_inv m0" by (rule slots_inv_cong [of m]) (use s in \<open>auto simp: m0_def\<close>)
  have n0: "nodes_inv m0" using s by (auto simp: nodes_inv_def m0_def)
  have j0: "j < jalloc m0" "jtokens (jheap m0 j) = jtokens (jheap m j)" using assms(2) by (simp_all add: m0_def)
  note D = dequeue_spec [OF s0 n0 j0(1)]
  have j1: "j < jalloc (dequeueLocked j m0)" using D(2) j0(1) by (simp add: slots_only_def)
  note P = drop_slot_spec [OF D(1) slots_only_nodes [OF D(2) n0] j1 D(3), where bs = bs, folded m1_def]
  have o1: "slots_only m0 m1" using slots_only_trans [OF D(2) P(2)] .
  then have f1: "mcfg m1 = mcfg m" "mnodes m1 = mnodes m" "nalloc m1 = nalloc m" "jalloc m1 = jalloc m" "\<And>i. jtokens (jheap m1 i) = jtokens (jheap m i)"
    "\<And>i. jnode (jheap m1 i) = jnode (jheap m i)" "\<And>i. jdone (jheap m1 i) = (i = j \<or> jdone (jheap m i))"
    "\<And>b. pending (nheap m1 b) = pending (nheap m b)" "\<And>b. mode (nheap m1 b) = mode (nheap m b)" "\<And>b. idleSince (nheap m1 b) = idleSince (nheap m b)"
    unfolding slots_only_def m0_def by (auto split: if_splits)
  have quiet: "\<not> held (jheap m1 i) \<and> \<not> queued (jheap m1 i)" if "i < jalloc m" "jdone (jheap m1 i)" for i
  proof (cases "i = j")
    case False
    then have i: "jdone (jheap m i)" using that(2) f1(7) by blast
    then have q: "\<not> held (jheap m0 i) \<and> \<not> queued (jheap m0 i)" using s that(1) False by (auto simp: load_inv_def m0_def)
    have "jheap m1 i = jheap m0 i" using P(5) [OF False] D(5) [OF False] q by simp
    then show ?thesis using q by simp
  qed (use P(3,4) in simp)
  have op: "open_jobs m1 b = open_jobs m b - {j}" for b using f1 by (auto simp: open_jobs_def)
  have pen: "pending (nheap m2 b) = (\<Sum>i\<in>open_jobs m1 b. jtokens (jheap m1 i))" if "b < nalloc m" for b
  proof -
    have p: "pending (nheap m b) = (\<Sum>i\<in>open_jobs m b. jtokens (jheap m i))" using s that by (simp add: load_inv_def)
    show ?thesis
    proof (cases "b = a")
      case True
      have j: "j \<in> open_jobs m a" using assms(2) False by (simp add: open_jobs_def a_def)
      have "(\<Sum>i\<in>open_jobs m a. jtokens (jheap m i)) = jtokens (jheap m j) + (\<Sum>i\<in>open_jobs m a - {j}. jtokens (jheap m i))"
        by (rule sum.remove) (use j in simp_all)
      then show ?thesis unfolding True op using p [unfolded True] f1(5,8) by (simp add: m2_def)
    next
      case False
      then have "j \<notin> open_jobs m b" by (simp add: open_jobs_def a_def)
      then show ?thesis unfolding op using p f1(5,8) False by (simp add: m2_def)
    qed
  qed
  have f3: "mcfg m3 = mcfg m" "mnodes m3 = mnodes m" "nalloc m3 = nalloc m" "jalloc m3 = jalloc m" "jheap m3 = jheap m1"
    using f1 by (simp_all add: m3_def m2_def track_fields)
  have "slots_inv (releaseIfIdleLocked now a m3)"
    by (rule slots_inv_cong [OF P(1)]) (auto simp: release_fields m3_def m2_def track_fields split: if_splits dest: release_fields(10))
  moreover have "nodes_inv (releaseIfIdleLocked now a m3)" using s f1 f3 by (simp add: nodes_inv_def release_fields)
  moreover have "load_inv (releaseIfIdleLocked now a m3)"
  proof -
    have o: "open_jobs (releaseIfIdleLocked now a m3) b = open_jobs m1 b" for b
      using f1 f3 by (simp add: open_jobs_def release_fields)
    have p: "pending (nheap m3 b) = pending (nheap m2 b)" for b by (simp add: m3_def track_fields)
    show ?thesis using s quiet pen f1(5) unfolding load_inv_def release_fields o p f3 by auto
  qed
  moreover have "modes_inv (releaseIfIdleLocked now a m3)"
    unfolding modes_inv_def release_fields f3
  proof (intro allI impI)
    fix b assume b: "b < nalloc m"
    show "node_mode_ok (mcfg m) (nheap (releaseIfIdleLocked now a m3) b)"
    proof (cases "b = a")
      case True
      have ne: "pending (nheap m a) \<noteq> 0" using load_zero [of m a] s a assms(2) False by (auto simp: open_jobs_def a_def)
      have ok: "mode (nheap m a) \<noteq> Decode" "idleSince (nheap m a) = None" using minvD [OF assms(1) a] ne by (auto simp: node_mode_ok_def)
      have z: "running (nheap m3 a) = 0 \<and> jqueue (nheap m3 a) = []" if "pending (nheap m3 a) = 0"
      proof -
        have "(\<Sum>i\<in>open_jobs m1 a. jtokens (jheap m1 i)) = 0" using pen [OF a] that by (simp add: m3_def track_fields)
        moreover have t: "\<forall>i\<in>open_jobs m1 a. 1 \<le> jtokens (jheap m1 i)" using s f1(5) op by (auto simp: load_inv_def open_jobs_def)
        ultimately have "\<forall>i\<in>open_jobs m1 a. jtokens (jheap m1 i) = 0" by (subst (asm) sum_nonneg_eq_0_iff) force+
        then have "open_jobs m1 a = {}" using t by force
        then have "slot_jobs m1 a = {}" "queue_jobs m1 a = {}" using quiet f1(4) by (auto simp: open_jobs_def slot_jobs_def queue_jobs_def)
        then show ?thesis using slots_invD(3,4) [OF P(1), of a] a f1(3) by (simp add: m3_def m2_def track_fields)
      qed
      have "node_mode_ok (mcfg m3) (nheap (releaseIfIdleLocked now a m3) a)"
        by (rule release_mode_ok) (use ok z f1 in \<open>simp_all add: m3_def m2_def track_fields\<close>)
      then show ?thesis unfolding True f3 .
    next
      case False
      then have "nheap (releaseIfIdleLocked now a m3) b = nheap m3 b" by (rule release_fields)
      moreover have "node_mode_ok (mcfg m) (nheap m3 b) = node_mode_ok (mcfg m) (nheap m b)"
        by (rule node_mode_ok_cong) (use f1 False in \<open>simp_all add: m3_def m2_def track_fields\<close>)
      ultimately show ?thesis using minvD [OF assms(1) b] by simp
    qed
  qed
  ultimately show ?thesis unfolding e minv_def by blast
qed (use assms(1) in \<open>simp add: Done_def\<close>)

lemma minv_counters [simp]: "minv (m\<lparr>releases := x\<rparr>) = minv m" "minv (m\<lparr>conversions := x\<rparr>) = minv m"
  unfolding minv_def nodes_inv_def slots_inv_def load_inv_def modes_inv_def open_jobs_def slot_jobs_def queue_jobs_def by simp_all

lemma release_expired_minv: "minv m \<Longrightarrow> a < nalloc m \<Longrightarrow> expired now m a \<Longrightarrow> minv (releaseLocked a m)"
  using minvD [of m a] unfolding releaseLocked_def minv_counters
  by (intro upd_node_minv) (auto simp: expired_def node_mode_ok_def split: option.splits)

lemma releaseExpired_minv:
  assumes "minv m"
  shows "minv (releaseExpired now m)"
proof -
  have "minv M \<and> nalloc M = N \<Longrightarrow> \<forall>ua\<in>set xs. snd ua < N \<Longrightarrow>
     minv (fold (\<lambda>ua m. if expired now m (snd ua) then releaseLocked (snd ua) m else m) xs M)" for xs :: "(url \<times> nat) list" and M N
  proof (induction xs arbitrary: M)
    case (Cons ua xs)
    let ?M = "if expired now M (snd ua) then releaseLocked (snd ua) M else M"
    have "minv ?M \<and> nalloc ?M = N" using Cons.prems release_expired_minv [of M "snd ua" now] by (auto simp: releaseLocked_def)
    then show ?case using Cons.IH [of ?M] Cons.prems by simp
  qed simp
  moreover have "\<forall>ua\<in>set (mnodes m). snd ua < nalloc m" using assms by (simp add: minv_def nodes_inv_def)
  ultimately show ?thesis unfolding releaseExpired_def using assms by blast
qed

lemma Prune_minv: "minv m \<Longrightarrow> minv (Prune bs known m)"
  unfolding minv_def nodes_inv_def slots_inv_def load_inv_def modes_inv_def open_jobs_def slot_jobs_def queue_jobs_def Prune_def
  by (simp add: distinct_map_filter)

section \<open>Reserving\<close>

definition PendOf :: "(nat \<Rightarrow> backend) \<Rightarrow> nat \<Rightarrow> manager \<Rightarrow> int" where
  "PendOf bs b m = (case map_of (mnodes m) (URL (bs b)) of None \<Rightarrow> 0 | Some a \<Rightarrow> pending (nheap m a))"

lemma map_of_alloc: "nodes_inv m \<Longrightarrow> map_of (mnodes m) u = Some a \<Longrightarrow> a < nalloc m"
  by (auto simp: nodes_inv_def dest: map_of_SomeD)

lemma nodeLocked_minv: "minv m \<Longrightarrow> minv (nodeLocked bs b m)"
proof (cases "map_of (mnodes m) (URL (bs b))")
  case None
  assume m: "minv m"
  let ?m = "nodeLocked bs b m"
  have e: "?m = m\<lparr>mnodes := (URL (bs b), nalloc m) # mnodes m, nheap := (nheap m)(nalloc m := fresh_node b), nalloc := nalloc m + 1\<rparr>"
    using None by (simp add: nodeLocked_def)
  note s = m [unfolded minv_def]
  have jn: "\<forall>j<jalloc m. jnode (jheap m j) < nalloc m" using s by (simp add: nodes_inv_def)
  have sets: "open_jobs ?m a = open_jobs m a" "slot_jobs ?m a = slot_jobs m a" "queue_jobs ?m a = queue_jobs m a" for a
    by (simp_all add: e open_jobs_def slot_jobs_def queue_jobs_def)
  have new: "open_jobs m (nalloc m) = {}" "slot_jobs m (nalloc m) = {}" "queue_jobs m (nalloc m) = {}"
    using jn by (auto simp: open_jobs_def slot_jobs_def queue_jobs_def)
  have "nodes_inv ?m" using s None by (auto simp: e nodes_inv_def map_of_eq_None_iff less_Suc_eq)
  moreover have "slots_inv ?m" using s new unfolding slots_inv_def sets by (auto simp: e less_Suc_eq node_slots_def fresh_node_def)
  moreover have "load_inv ?m" using s new unfolding load_inv_def sets by (auto simp: e less_Suc_eq fresh_node_def)
  moreover have "node_mode_ok (mcfg m) (fresh_node b)" by (simp add: node_mode_ok_def fresh_node_def)
  then have "modes_inv ?m" using s unfolding modes_inv_def by (auto simp: e less_Suc_eq)
  ultimately show ?thesis by (simp add: minv_def)
next
  case (Some a)
  assume m: "minv m"
  then have "a < nalloc m" using map_of_alloc Some by (simp add: minv_def)
  moreover have "node_mode_ok (mcfg m) ((nheap m a)\<lparr>pn_b := b\<rparr>)"
    using minvD [OF m calculation] node_mode_ok_cong [of "(nheap m a)\<lparr>pn_b := b\<rparr>" "nheap m a"] by simp
  ultimately have "minv (upd_node a (\<lambda>n. n\<lparr>pn_b := b\<rparr>) m)" by (intro upd_node_minv [OF m]) simp_all
  then show ?thesis using Some by (simp add: nodeLocked_def)
qed

lemma nodeLocked_same:
  assumes "nodes_inv m"
  shows "ModeOf bs x (nodeLocked bs b m) = ModeOf bs x m" "PendOf bs x (nodeLocked bs b m) = PendOf bs x m"
    "map_of (mnodes (nodeLocked bs b m)) (URL (bs b)) \<noteq> None"
    "map_of (mnodes m) u \<noteq> None \<Longrightarrow> map_of (mnodes (nodeLocked bs b m)) u = map_of (mnodes m) u"
    "mcfg (nodeLocked bs b m) = mcfg m" "jalloc (nodeLocked bs b m) = jalloc m" "jheap (nodeLocked bs b m) = jheap m"
proof -
  let ?m = "nodeLocked bs b m"
  have two: "map_of (mnodes ?m) v = (if v = URL (bs b) then Some (addr bs ?m b) else map_of (mnodes m) v)"
    "\<And>a. a < nalloc m \<Longrightarrow> mode (nheap ?m a) = mode (nheap m a) \<and> pending (nheap ?m a) = pending (nheap m a)" for v
    by (auto simp: nodeLocked_def addr_def upd_node_def split: option.split)
  have here: "case map_of (mnodes m) (URL (bs b)) of
      None \<Rightarrow> mode (nheap ?m (addr bs ?m b)) = Decode \<and> pending (nheap ?m (addr bs ?m b)) = 0 | Some a \<Rightarrow> addr bs ?m b = a"
    by (auto simp: nodeLocked_def addr_def fresh_node_def upd_node_def split: option.split)
  show "ModeOf bs x ?m = ModeOf bs x m" "PendOf bs x ?m = PendOf bs x m"
    using two(1) [of "URL (bs x)"] two(2) map_of_alloc [OF assms, of "URL (bs x)"] here
    by (cases "map_of (mnodes m) (URL (bs x))"; auto simp: ModeOf_def PendOf_def split: option.splits)+
  show "map_of (mnodes ?m) (URL (bs b)) \<noteq> None" using two(1) by simp
  show "map_of (mnodes m) u \<noteq> None \<Longrightarrow> map_of (mnodes ?m) u = map_of (mnodes m) u" using two(1) [of u] here by (cases "u = URL (bs b)") (auto split: option.splits)
  show "mcfg ?m = mcfg m" "jalloc ?m = jalloc m" "jheap ?m = jheap m" by (auto simp: nodeLocked_def split: option.split)
qed

lemma addr_mode: "map_of (mnodes m) (URL (bs b)) \<noteq> None \<Longrightarrow> mode (nheap m (addr bs m b)) = ModeOf bs b m \<and> pend bs m b = PendOf bs b m"
  by (auto simp: addr_def ModeOf_def pend_def PendOf_def)

lemma classify_spec:
  "minv m \<Longrightarrow> classify bs tokens cands m c = (m1, c1) \<Longrightarrow>
   minv m1 \<and> (\<forall>x. ModeOf bs x m1 = ModeOf bs x m \<and> PendOf bs x m1 = PendOf bs x m) \<and>
   (\<forall>b\<in>set cands. map_of (mnodes m1) (URL (bs b)) \<noteq> None) \<and>
   (\<forall>u. map_of (mnodes m) u \<noteq> None \<longrightarrow> map_of (mnodes m1) u = map_of (mnodes m) u) \<and>
   mcfg m1 = mcfg m \<and> jalloc m1 = jalloc m \<and> jheap m1 = jheap m \<and>
   cdecode c1 = cdecode c @ filter (\<lambda>b. ModeOf bs b m = Decode) cands \<and> cnonDecode c1 = cnonDecode c @ filter (\<lambda>b. ModeOf bs b m \<noteq> Decode) cands \<and>
   celigible c1 = celigible c @ filter (\<lambda>b. ModeOf bs b m \<noteq> Decode \<and> (PendOf bs b m = 0 \<or> PendOf bs b m + tokens \<le> NodeBudgetTokens (mcfg m))) cands"
proof (induction cands arbitrary: m c)
  case Nil
  then show ?case by simp
next
  case (Cons b cands)
  let ?m = "nodeLocked bs b m"
  have n: "nodes_inv m" using Cons.prems(1) by (simp add: minv_def)
  note N = nodeLocked_same [OF n]
  have ad: "mode (nheap ?m (addr bs ?m b)) = ModeOf bs b m" "pending (nheap ?m (addr bs ?m b)) = PendOf bs b m"
    using addr_mode [of ?m bs b, OF N(3)] N(1,2) by (simp_all add: pend_def)
  define c2 where "c2 = (if ModeOf bs b m = Decode then c\<lparr>cdecode := cdecode c @ [b]\<rparr>
     else (let c1 = c\<lparr>cnonDecode := cnonDecode c @ [b]\<rparr> in
           if PendOf bs b m = 0 \<or> PendOf bs b m + tokens \<le> NodeBudgetTokens (mcfg m) then c1\<lparr>celigible := celigible c1 @ [b]\<rparr> else c1))"
  have "classify bs tokens cands ?m c2 = (m1, c1)" using Cons.prems(2) unfolding c2_def by (simp only: classify.simps Let_def ad N(5))
  note I = Cons.IH [OF nodeLocked_minv [OF Cons.prems(1)] this]
  have "map_of (mnodes m1) (URL (bs b)) \<noteq> None" using I N(3) [of bs b] by metis
  moreover have "\<forall>u. map_of (mnodes m) u \<noteq> None \<longrightarrow> map_of (mnodes m1) u = map_of (mnodes m) u" using I N(4) [where bs = bs and b = b] by metis
  moreover have "cdecode c2 = cdecode c @ (if ModeOf bs b m = Decode then [b] else [])"
    "cnonDecode c2 = cnonDecode c @ (if ModeOf bs b m \<noteq> Decode then [b] else [])"
    "celigible c2 = celigible c @ (if ModeOf bs b m \<noteq> Decode \<and> (PendOf bs b m = 0 \<or> PendOf bs b m + tokens \<le> NodeBudgetTokens (mcfg m)) then [b] else [])"
    by (simp_all add: c2_def Let_def)
  ultimately show ?case using I unfolding N(1,2,5,6,7) by simp
qed

lemma fullest_loop_spec:
  "\<forall>x\<in>set acc. \<forall>y\<in>set acc. f x = f y \<Longrightarrow> acc \<noteq> [] \<or> xs \<noteq> [] \<Longrightarrow>
   fullest_loop f xs acc \<noteq> [] \<and> set (fullest_loop f xs acc) \<subseteq> set acc \<union> set xs \<and>
   (\<forall>x\<in>set (fullest_loop f xs acc). \<forall>y\<in>set acc \<union> set xs. f y \<le> f x)"
proof (induction xs arbitrary: acc)
  case (Cons b xs)
  let ?acc = "if acc = [] \<or> f b > f (hd acc) then [b] else if f b = f (hd acc) then acc @ [b] else acc"
  define v where "v = f (hd acc)"
  have eq: "f x = v" if "x \<in> set acc" for x using Cons.prems(1) that hd_in_set [of acc] by (fastforce simp: v_def)
  have "\<forall>x\<in>set ?acc. \<forall>y\<in>set ?acc. f x = f y" unfolding v_def [symmetric] using eq by simp
  moreover have "?acc \<noteq> []" by simp
  ultimately have "\<forall>x\<in>set ?acc. \<forall>y\<in>set ?acc. f x = f y" "?acc \<noteq> []" by blast+
  note I = Cons.IH [OF this(1) disjI1 [OF this(2)]]
  have hd: "hd ?acc \<in> set ?acc" using \<open>?acc \<noteq> []\<close> by (rule hd_in_set)
  have "f y \<le> f (hd ?acc)" if y: "y \<in> set acc \<union> {b}" for y
  proof -
    consider "acc = []" | "acc \<noteq> []" "f b > v" | "acc \<noteq> []" "f b = v" | "acc \<noteq> []" "f b < v" by fastforce
    then show ?thesis
    proof cases
      case 1
      then show ?thesis using y by simp
    next
      case 2
      then show ?thesis using y eq [of y] by (auto simp: v_def [symmetric] less_imp_le)
    next
      case 3
      then show ?thesis using y eq [of y] by (auto simp: v_def [symmetric])
    next
      case 4
      then show ?thesis using y eq [of y] by (auto simp: v_def [symmetric])
    qed
  qed
  then have up: "\<exists>z\<in>set ?acc. f y \<le> f z" if "y \<in> set acc \<union> {b}" for y using hd that by blast
  have "f y \<le> f x" if x: "x \<in> set (fullest_loop f xs ?acc)" and y: "y \<in> set acc \<union> set (b # xs)" for x y
  proof (cases "y \<in> set xs")
    case True
    then show ?thesis using I x by blast
  next
    case False
    then obtain z where "z \<in> set ?acc" "f y \<le> f z" using up y by auto
    moreover have "f z \<le> f x" using I x calculation(1) by blast
    ultimately show ?thesis by simp
  qed
  then have "\<forall>x\<in>set (fullest_loop f xs ?acc). \<forall>y\<in>set acc \<union> set (b # xs). f y \<le> f x" by blast
  moreover have "set ?acc \<subseteq> set acc \<union> {b}" by auto
  moreover have "set (fullest_loop f xs ?acc) \<subseteq> set acc \<union> set (b # xs)" using I calculation(2) by auto
  moreover have "fullest_loop f (b # xs) acc = fullest_loop f xs ?acc" by simp
  moreover have "fullest_loop f xs ?acc \<noteq> []" using I by blast
  ultimately show ?case by argo
next
  case Nil
  have "f y \<le> f x" if "x \<in> set acc" "y \<in> set acc" for x y using Nil.prems(1) that by (metis order_refl)
  then show ?case using Nil.prems(2) by simp
qed

lemma least_loop_spec:
  "\<forall>y\<in>ds. f best \<le> f y \<Longrightarrow> best \<in> ds \<Longrightarrow>
   least_loop draw f xs best ties k \<in> ds \<union> set xs \<and> (\<forall>y\<in>ds \<union> set xs. f (least_loop draw f xs best ties k) \<le> f y)"
proof (induction xs arbitrary: ds best ties k)
  case (Cons b xs)
  consider "f b < f best" | "f b = f best" | "f b > f best" by fastforce
  then show ?case
  proof cases
    case 1
    then have "\<forall>y\<in>insert b ds. f b \<le> f y" using Cons.prems by fastforce
    from Cons.IH [OF this] 1 show ?thesis by auto
  next
    case 2
    let ?b = "if draw k (ties + 1) = 0 then b else best"
    have "\<forall>y\<in>insert b ds. f ?b \<le> f y" "?b \<in> insert b ds" using Cons.prems 2 by auto
    from Cons.IH [OF this] 2 show ?thesis by auto
  next
    case 3
    then have "\<forall>y\<in>insert b ds. f best \<le> f y" "best \<in> insert b ds" using Cons.prems by auto
    from Cons.IH [OF this] 3 show ?thesis by auto
  qed
qed simp

end
