(* ===== verification/PrefillSystem.thy ===== *)
theory PrefillSystem
  imports PrefillProps
begin

text \<open>
  The prefill manager as a step relation over its critical sections, what \<^verbatim>\<open>Reserve\<close> chooses, and the
  properties of the pool: exact charges, slots in arrival order, nodes back in decode when idle.
\<close>

section \<open>Reserving keeps the invariant\<close>

lemma charge_minv:
  assumes "minv m" and "a < nalloc m" and "1 \<le> tokens"
    and M: "mcfg M = mcfg m" "mnodes M = mnodes m" "nalloc M = nalloc m" "jalloc M = Suc (jalloc m)"
      "jheap M = (jheap m)(jalloc m := \<lparr>jnode = a, jtokens = tokens, jdone = False, granted = False, held = False, queued = True, jbackend = b\<rparr>)"
    and other: "\<And>c. c \<noteq> a \<Longrightarrow> nheap M c = nheap m c"
    and new: "pending (nheap M a) = pending (nheap m a) + tokens" "idleSince (nheap M a) = None" "jqueue (nheap M a) = jqueue (nheap m a) @ [jalloc m]"
      "running (nheap M a) = running (nheap m a)" "mode (nheap M a) \<noteq> Decode" "mode (nheap M a) = Draining \<Longrightarrow> running (nheap m a) = 0"
  shows "minv M"
proof -
  note s = assms(1) [unfolded minv_def]
  let ?j = "jalloc m"
  have op: "open_jobs M c = (if c = a then insert ?j (open_jobs m a) else open_jobs m c)" for c
    by (auto simp: open_jobs_def M less_Suc_eq)
  have sl: "slot_jobs M c = slot_jobs m c" for c by (auto simp: slot_jobs_def M less_Suc_eq)
  have qu: "queue_jobs M c = (if c = a then insert ?j (queue_jobs m a) else queue_jobs m c)" for c
    by (auto simp: queue_jobs_def M less_Suc_eq)
  have jn: "?j \<notin> open_jobs m c" "?j \<notin> queue_jobs m c" for c by (simp_all add: open_jobs_def queue_jobs_def)
  have "nodes_inv M" using s assms(2) by (simp add: nodes_inv_def M less_Suc_eq)
  moreover have "slots_inv M"
  proof -
    have "node_slots (mcfg m) (queue_jobs M c) (slot_jobs M c) (nheap M c)" if c: "c < nalloc m" for c
    proof (cases "c = a")
      case True
      note S = slots_invD [of m a]
      have "\<forall>x\<in>set (jqueue (nheap m a)). x < ?j" using S(3) s assms(2) by (auto simp: queue_jobs_def)
      then have "sorted (jqueue (nheap m a) @ [?j])" "distinct (jqueue (nheap m a) @ [?j])"
        using S(1,2) s assms(2) by (auto simp: sorted_append less_imp_le)
      then show ?thesis
        unfolding True node_slots_def sl qu using S(3-5) s assms(2) new(3,4,6) by auto
    next
      case False
      then show ?thesis using s c unfolding slots_inv_def sl qu other [OF False] by simp
    qed
    then show ?thesis using s unfolding slots_inv_def M by (simp add: less_Suc_eq)
  qed
  moreover have "load_inv M"
  proof -
    have "(\<Sum>i\<in>open_jobs M c. jtokens (jheap M i)) = (\<Sum>i\<in>open_jobs m c. jtokens (jheap m i)) + (if c = a then tokens else 0)" for c
    proof -
      have "(\<Sum>i\<in>open_jobs m c. jtokens (jheap M i)) = (\<Sum>i\<in>open_jobs m c. jtokens (jheap m i))"
        by (rule sum.cong) (auto simp: M open_jobs_def)
      moreover have "(\<Sum>i\<in>insert ?j (open_jobs m a). jtokens (jheap M i)) = jtokens (jheap M ?j) + (\<Sum>i\<in>open_jobs m a. jtokens (jheap M i))"
        by (rule sum.insert) (use jn(1) [of a] in simp_all)
      moreover have "jtokens (jheap M ?j) = tokens" by (simp add: M)
      ultimately show ?thesis unfolding op by auto
    qed
    then have "pending (nheap M c) = (\<Sum>i\<in>open_jobs M c. jtokens (jheap M i))" if "c < nalloc m" for c
      using s that new(1) other [of c] unfolding load_inv_def by (cases "c = a") auto
    then show ?thesis using s assms(3) unfolding load_inv_def M by (simp add: less_Suc_eq)
  qed
  moreover have "modes_inv M"
    unfolding modes_inv_def M
  proof (intro allI impI)
    fix c assume c: "c < nalloc m"
    show "node_mode_ok (mcfg m) (nheap M c)"
    proof (cases "c = a")
      case True
      have "0 \<le> pending (nheap m a)" using s assms(2) by (auto simp: load_inv_def open_jobs_def intro!: sum_nonneg)
      then have "pending (nheap M a) \<noteq> 0" using new(1) assms(3) by simp
      then show ?thesis unfolding True node_mode_ok_def using new(2,5) by simp
    next
      case False
      then show ?thesis using minvD [OF assms(1) c] other by simp
    qed
  qed
  ultimately show ?thesis by (simp add: minv_def)
qed

lemma charge_conversions: "conversions (snd (charge now b a tokens m)) = conversions m"
  by (simp add: charge_def Let_def trackBudgetLocked_def upd_node_def)

lemma charge_fields:
  "fst (charge now b a tokens m) = jalloc m" "mcfg (snd (charge now b a tokens m)) = mcfg m" "mnodes (snd (charge now b a tokens m)) = mnodes m"
  "nalloc (snd (charge now b a tokens m)) = nalloc m" "jalloc (snd (charge now b a tokens m)) = Suc (jalloc m)"
  "jheap (snd (charge now b a tokens m)) = (jheap m)(jalloc m :=
     \<lparr>jnode = a, jtokens = tokens, jdone = False, granted = False, held = False, queued = True, jbackend = b\<rparr>)"
  "c \<noteq> a \<Longrightarrow> nheap (snd (charge now b a tokens m)) c = nheap m c"
  "pending (nheap (snd (charge now b a tokens m)) a) = pending (nheap m a) + tokens" "idleSince (nheap (snd (charge now b a tokens m)) a) = None"
  "jqueue (nheap (snd (charge now b a tokens m)) a) = jqueue (nheap m a) @ [jalloc m]"
  "running (nheap (snd (charge now b a tokens m)) a) = running (nheap m a)" "mode (nheap (snd (charge now b a tokens m)) a) = mode (nheap m a)"
  by (simp_all add: charge_def Let_def track_fields) (simp_all add: trackBudgetLocked_def)

lemma charge_busy:
  assumes "minv m" and "a < nalloc m" and "1 \<le> tokens" and "mode (nheap m a) \<noteq> Decode"
  shows "minv (snd (charge now b a tokens m))"
  by (rule charge_minv [OF assms(1-3)]) (use assms slots_invD(6) [of m a] in \<open>simp_all add: charge_fields minv_def\<close>)

lemma charge_converted:
  assumes "minv m" and "a < nalloc m" and "1 \<le> tokens" and "running (nheap m a) = 0"
  shows "minv (snd (charge now b a tokens ((upd_node a (\<lambda>n. n\<lparr>mode := Draining\<rparr>) m)\<lparr>conversions := x\<rparr>)))"
  by (rule charge_minv [OF assms(1-3)]) (use assms in \<open>simp_all add: charge_fields\<close>)

text \<open>A picker answers, if at all, with one of the nodes it was asked about.\<close>

definition picker_ok :: "picker \<Rightarrow> bool" where
  "picker_ok pick \<longleftrightarrow> (case pick of None \<Rightarrow> True | Some p \<Rightarrow> \<forall>xs b. p xs = Some b \<longrightarrow> b \<in> set xs)"

lemma pickLocked_spec:
  assumes "picker_ok pick" and "xs \<noteq> []"
  shows "pickLocked bs xs pick m \<in> set xs \<and> (\<forall>y\<in>set xs. pend bs m y \<le> pend bs m (pickLocked bs xs pick m))"
proof -
  let ?f = "fullest_loop (pend bs m) xs []"
  have F: "?f \<noteq> []" "set ?f \<subseteq> set xs" "\<forall>x\<in>set ?f. \<forall>y\<in>set xs. pend bs m y \<le> pend bs m x"
    using fullest_loop_spec [of "[]" "pend bs m" xs] assms(2) by auto
  have "pickLocked bs xs pick m \<in> set ?f"
    using assms(1) hd_in_set [OF F(1)] by (auto simp: pickLocked_def Let_def picker_ok_def split: option.split)
  then show ?thesis using F by blast
qed

lemma leastPending_spec:
  assumes "xs \<noteq> []"
  shows "leastPendingLocked draw bs xs m \<in> set xs \<and> (\<forall>y\<in>set xs. pend bs m (leastPendingLocked draw bs xs m) \<le> pend bs m y)"
proof -
  have "set xs = insert (hd xs) (set (tl xs))" using assms by (cases xs) auto
  then show ?thesis using least_loop_spec [of "{hd xs}" "pend bs m" "hd xs" draw "tl xs" 1 0] by (auto simp: leastPendingLocked_def)
qed

lemma leastLoaded_spec:
  assumes "xs \<noteq> []"
  shows "leastLoaded draw bs xs \<in> set xs \<and> (\<forall>y\<in>set xs. NormalizedLoad (bs (leastLoaded draw bs xs)) \<le> NormalizedLoad (bs y))"
proof -
  have "set xs = insert (hd xs) (set (tl xs))" using assms by (cases xs) auto
  then show ?thesis
    using least_loop_spec [of "{hd xs}" "\<lambda>b. NormalizedLoad (bs b)" "hd xs" draw "tl xs" 1 0] by (auto simp: leastLoaded_def)
qed

definition decode_of :: "(nat \<Rightarrow> backend) \<Rightarrow> nat list \<Rightarrow> manager \<Rightarrow> nat list" where
  "decode_of bs cands m = filter (\<lambda>b. ModeOf bs b m = Decode) cands"

definition prefill_of :: "(nat \<Rightarrow> backend) \<Rightarrow> nat list \<Rightarrow> manager \<Rightarrow> nat list" where
  "prefill_of bs cands m = filter (\<lambda>b. ModeOf bs b m \<noteq> Decode) cands"

definition room_of :: "(nat \<Rightarrow> backend) \<Rightarrow> int \<Rightarrow> nat list \<Rightarrow> manager \<Rightarrow> nat list" where
  "room_of bs tokens cands m =
     filter (\<lambda>b. ModeOf bs b m \<noteq> Decode \<and> (PendOf bs b m = 0 \<or> PendOf bs b m + tokens \<le> NodeBudgetTokens (mcfg m))) cands"

text \<open>Since when the node of a candidate has been over its budget.\<close>

definition OverOf :: "(nat \<Rightarrow> backend) \<Rightarrow> nat \<Rightarrow> manager \<Rightarrow> ns option" where
  "OverOf bs b m = (case map_of (mnodes m) (URL (bs b)) of None \<Rightarrow> None | Some a \<Rightarrow> overSince (nheap m a))"

lemma nodeLocked_over:
  assumes "nodes_inv m"
  shows "OverOf bs x (nodeLocked bs b m) = OverOf bs x m" and "conversions (nodeLocked bs b m) = conversions m"
  using map_of_alloc [OF assms, of "URL (bs x)"] map_of_alloc [OF assms, of "URL (bs b)"]
  by (auto simp: OverOf_def nodeLocked_def upd_node_def fresh_node_def split: option.split)

lemma classify_over:
  "minv m \<Longrightarrow> classify bs tokens cands m c = (m1, c1) \<Longrightarrow> OverOf bs x m1 = OverOf bs x m \<and> conversions m1 = conversions m"
proof (induction cands arbitrary: m c)
  case (Cons b cands)
  have n: "nodes_inv m" using Cons.prems(1) by (simp add: minv_def)
  obtain c2 where "classify bs tokens cands (nodeLocked bs b m) c2 = (m1, c1)" using Cons.prems(2) by (auto simp: Let_def)
  from Cons.IH [OF nodeLocked_minv [OF Cons.prems(1)] this] show ?case using nodeLocked_over [OF n] by metis
qed simp

text \<open>Whether another node may be converted: at least one decode node stays, and the share of the fleet is kept.\<close>

definition may_convert :: "prefill_config \<Rightarrow> nat \<Rightarrow> nat \<Rightarrow> nat \<Rightarrow> bool" where
  "may_convert f fleet p d \<longleftrightarrow> 1 < d \<and> int p < int fleet - 1 \<and> int p < \<lfloor>fmul (f64 (int fleet)) (MaxFleetFraction f)\<rfloor>"

lemma canConvert_may: "canConvertLocked f fleet p d = may_convert f fleet p d"
  by (auto simp: canConvertLocked_def may_convert_def Let_def)

text \<open>Whether the pool has been over its budget for long enough, judged by its node \<open>x\<close>.\<close>

definition long_over :: "ns \<Rightarrow> (nat \<Rightarrow> backend) \<Rightarrow> nat list \<Rightarrow> manager \<Rightarrow> nat \<Rightarrow> bool" where
  "long_over now bs P m x \<longleftrightarrow> P = [] \<or> ConvertAfter (mcfg m) \<le> 0 \<or>
     (case OverOf bs x m of None \<Rightarrow> False | Some t \<Rightarrow> ConvertAfter (mcfg m) \<le> now - t)"

definition least_pending :: "(nat \<Rightarrow> backend) \<Rightarrow> nat list \<Rightarrow> manager \<Rightarrow> nat \<Rightarrow> bool" where
  "least_pending bs P m x \<longleftrightarrow> x \<in> set P \<and> (\<forall>y\<in>set P. PendOf bs x m \<le> PendOf bs y m)"

lemma Reserve_spec:
  assumes "minv m" and "picker_ok pick" and "Reserve draw1 draw2 now bs cands tokens0 pick m = (r, m')"
  defines "tokens \<equiv> max tokens0 1"
  defines "D \<equiv> decode_of bs cands m" and "P \<equiv> prefill_of bs cands m" and "E \<equiv> room_of bs tokens cands m"
  shows "minv m' \<and> mcfg m' = mcfg m \<and>
    (case r of
       None \<Rightarrow> E = [] \<and> P = [] \<and> \<not> canConvertLocked (mcfg m) (length cands) 0 (length D) \<and> jalloc m' = jalloc m \<and> jheap m' = jheap m
     | Some j \<Rightarrow> j = jalloc m \<and> jtokens (jheap m' j) = tokens \<and> queued (jheap m' j) \<and> (\<forall>i. i \<noteq> j \<longrightarrow> jheap m' i = jheap m i) \<and>
         (let b = jbackend (jheap m' j) in
          if E \<noteq> [] then b \<in> set E \<and> (\<forall>x\<in>set E. PendOf bs x m \<le> PendOf bs b m)
          else (\<exists>x. (P \<noteq> [] \<longrightarrow> least_pending bs P m x) \<and>
            (if may_convert (mcfg m) (length cands) (length P) (length D) \<and> long_over now bs P m x
             then b \<in> set D \<and> (\<forall>y\<in>set D. NormalizedLoad (bs b) \<le> NormalizedLoad (bs y)) \<and>
               conversions m' = conversions m + 1 \<and> mode (nheap m' (jnode (jheap m' j))) = Draining
             else least_pending bs P m b \<and> conversions m' = conversions m))))"
proof -
  obtain m1 c where c: "classify bs tokens cands m \<lparr>cdecode = [], cnonDecode = [], celigible = []\<rparr> = (m1, c)" by fastforce
  note C = classify_spec [OF assms(1) c]
  have cl: "cdecode c = D" "cnonDecode c = P" "celigible c = E" using C by (simp_all add: D_def P_def E_def decode_of_def prefill_of_def room_of_def)
  have m1: "minv m1" "mcfg m1 = mcfg m" "jalloc m1 = jalloc m" "jheap m1 = jheap m" using C by blast+
  note V = classify_over [OF assms(1) c]
  have sub: "set D \<subseteq> set cands" "set P \<subseteq> set cands" "set E \<subseteq> set P" by (auto simp: D_def P_def E_def decode_of_def prefill_of_def room_of_def)
  have at: "mode (nheap m1 (addr bs m1 b)) = ModeOf bs b m" "pend bs m1 b = PendOf bs b m" "addr bs m1 b < nalloc m1" if "b \<in> set cands" for b
  proof -
    have "map_of (mnodes m1) (URL (bs b)) \<noteq> None" using C that by blast
    then show "mode (nheap m1 (addr bs m1 b)) = ModeOf bs b m" "pend bs m1 b = PendOf bs b m" using addr_mode C by metis+
    show "addr bs m1 b < nalloc m1" using map_of_alloc [of m1] m1(1) \<open>map_of (mnodes m1) (URL (bs b)) \<noteq> None\<close> by (auto simp: addr_def minv_def)
  qed
  obtain ch m2 where ch: "choose_node draw1 draw2 now bs cands pick c m1 = (ch, m2)" by fastforce
  have R: "Reserve draw1 draw2 now bs cands tokens0 pick m =
      (case (ch, m2) of (None, m2) \<Rightarrow> (None, m2) | (Some b, m2) \<Rightarrow> (case charge now b (addr bs m2 b) tokens m2 of (j, m3) \<Rightarrow> (Some j, m3)))"
    unfolding Reserve_def Let_def tokens_def [symmetric] c prod.case ch by (rule refl)
  define x where "x = leastPendingLocked draw1 bs P m1"
  have x: "least_pending bs P m x" if "P \<noteq> []"
    using leastPending_spec [OF that, of draw1 bs m1] at(2) sub(2) by (auto simp: x_def least_pending_def subset_iff)
  have long: "overflowedLongEnoughLocked draw1 now bs P m1 = long_over now bs P m x"
  proof (cases "P = []")
    case False
    then have "x \<in> set cands" using x sub(2) by (auto simp: least_pending_def)
    then have "map_of (mnodes m1) (URL (bs x)) \<noteq> None" using C by blast
    then have "overSince (nheap m1 (addr bs m1 x)) = OverOf bs x m" using V [of x] by (auto simp: OverOf_def addr_def)
    then show ?thesis using False by (simp add: overflowedLongEnoughLocked_def long_over_def m1(2) x_def split: option.split)
  qed (simp add: overflowedLongEnoughLocked_def long_over_def)
  let ?conv = "canConvertLocked (mcfg m) (length cands) (length P) (length D) \<and> overflowedLongEnoughLocked draw1 now bs P m1"
  consider (room) "E \<noteq> []" | (conv) "E = []" ?conv | (queue) "E = []" "\<not> ?conv" "P \<noteq> []" | (none) "E = []" "\<not> ?conv" "P = []" by blast
  then show ?thesis
  proof cases
    case none
    have "overflowedLongEnoughLocked draw1 now bs P m1" using none(3) by (simp add: overflowedLongEnoughLocked_def)
    moreover have "ch = None" "m2 = m1" using ch none by (auto simp: choose_node_def cl m1(2))
    ultimately show ?thesis using none R m1 assms(3) by simp
  next
    case room
    define b where "b = pickLocked bs E pick m1"
    have b: "b \<in> set E" "\<forall>y\<in>set E. pend bs m1 y \<le> pend bs m1 b" using pickLocked_spec [OF assms(2) room, of bs m1] by (simp_all add: b_def)
    have bc: "b \<in> set cands" "ModeOf bs b m \<noteq> Decode" using b(1) by (auto simp: E_def room_of_def)
    have "ch = Some b" "m2 = m1" using ch room by (auto simp: choose_node_def cl b_def)
    then obtain e: "r = Some (jalloc m1)" "m' = snd (charge now b (addr bs m1 b) tokens m1)"
      using R assms(3) by (auto simp: charge_def Let_def track_fields)
    have "minv m'" unfolding e(2) by (rule charge_busy [OF m1(1) at(3) [OF bc(1)]]) (use bc(2) at(1) [OF bc(1)] in \<open>simp_all add: tokens_def\<close>)
    moreover have "mcfg m' = mcfg m" "jheap m' (jalloc m) = \<lparr>jnode = addr bs m1 b, jtokens = tokens, jdone = False, granted = False, held = False, queued = True, jbackend = b\<rparr>"
      "\<forall>i. i \<noteq> jalloc m \<longrightarrow> jheap m' i = jheap m i" using e(2) m1 by (simp_all add: charge_fields)
    moreover have "PendOf bs x m \<le> PendOf bs b m" if "x \<in> set E" for x
      using b at(2) [of x] at(2) [OF bc(1)] that sub by (metis subsetD)
    ultimately show ?thesis using e(1) m1(3) room b(1) by simp
  next
    case queue
    define b where "b = leastPendingLocked draw2 bs P m1"
    have b: "b \<in> set P" "\<forall>y\<in>set P. pend bs m1 b \<le> pend bs m1 y" using leastPending_spec [OF queue(3), of draw2 bs m1] by (simp_all add: b_def)
    have bc: "b \<in> set cands" "ModeOf bs b m \<noteq> Decode" using b(1) by (auto simp: P_def prefill_of_def)
    have "ch = Some b" "m2 = m1" using ch queue by (auto simp: choose_node_def cl b_def m1(2))
    then obtain e: "r = Some (jalloc m1)" "m' = snd (charge now b (addr bs m1 b) tokens m1)"
      using R assms(3) by (auto simp: charge_def Let_def track_fields)
    have "minv m'" unfolding e(2) by (rule charge_busy [OF m1(1) at(3) [OF bc(1)]]) (use bc(2) at(1) [OF bc(1)] in \<open>simp_all add: tokens_def\<close>)
    moreover have "mcfg m' = mcfg m" "jheap m' (jalloc m) = \<lparr>jnode = addr bs m1 b, jtokens = tokens, jdone = False, granted = False, held = False, queued = True, jbackend = b\<rparr>"
      "\<forall>i. i \<noteq> jalloc m \<longrightarrow> jheap m' i = jheap m i" using e(2) m1 by (simp_all add: charge_fields)
    moreover have "PendOf bs b m \<le> PendOf bs x m" if "x \<in> set P" for x
      using b at(2) [of x] at(2) [OF bc(1)] that sub by (metis subsetD)
    moreover have "conversions m' = conversions m" using e(2) V by (simp add: charge_conversions)
    moreover have "\<not> (may_convert (mcfg m) (length cands) (length P) (length D) \<and> long_over now bs P m x)"
      using queue(2) by (simp add: canConvert_may long)
    ultimately show ?thesis using e(1) m1(3) queue(1,3) b(1) x by (auto simp: least_pending_def intro!: exI [of _ x])
  next
    case conv
    have D: "D \<noteq> []" using conv(2) by (auto simp: canConvertLocked_def Let_def)
    define b where "b = leastLoaded draw2 bs D"
    have b: "b \<in> set D" "\<forall>y\<in>set D. NormalizedLoad (bs b) \<le> NormalizedLoad (bs y)" using leastLoaded_spec [OF D, of draw2 bs] by (simp_all add: b_def)
    have bc: "b \<in> set cands" "ModeOf bs b m = Decode" using b(1) by (auto simp: D_def decode_of_def)
    let ?a = "addr bs m1 b"
    define m2' where "m2' = (upd_node ?a (\<lambda>n. n\<lparr>mode := Draining\<rparr>) m1)\<lparr>conversions := conversions m1 + 1\<rparr>"
    have "ch = Some b" "m2 = m2'" using ch conv by (auto simp: choose_node_def cl b_def m1(2) m2'_def Let_def)
    moreover have "addr bs m2' b = ?a" by (simp add: addr_def m2'_def)
    ultimately obtain e: "r = Some (jalloc m1)" "m' = snd (charge now b ?a tokens m2')"
      using R assms(3) by (auto simp: charge_def Let_def track_fields m2'_def)
    have "open_jobs m1 ?a = {}"
      using load_zero [of m1 ?a] minvD [OF m1(1) at(3) [OF bc(1)]] at [OF bc(1)] bc(2) m1(1) by (auto simp: minv_def node_mode_ok_def)
    then have "slot_jobs m1 ?a = {}" using m1(1) by (auto simp: minv_def load_inv_def open_jobs_def slot_jobs_def)
    then have run: "running (nheap m1 ?a) = 0" using slots_invD(4) [of m1 ?a] at(3) [OF bc(1)] m1(1) by (simp add: minv_def)
    have "minv m'" unfolding e(2) m2'_def by (rule charge_converted [OF m1(1) at(3) [OF bc(1)] _ run]) (simp add: tokens_def)
    moreover have "mcfg m' = mcfg m" "jheap m' (jalloc m) = \<lparr>jnode = ?a, jtokens = tokens, jdone = False, granted = False, held = False, queued = True, jbackend = b\<rparr>"
      "\<forall>i. i \<noteq> jalloc m \<longrightarrow> jheap m' i = jheap m i" using e(2) m1 by (simp_all add: charge_fields m2'_def)
    moreover have "conversions m' = conversions m + 1" using e(2) V by (simp add: charge_conversions m2'_def)
    moreover have "mode (nheap m' ?a) = Draining" using e(2) by (simp add: charge_fields m2'_def upd_node_def)
    moreover have "may_convert (mcfg m) (length cands) (length P) (length D) \<and> long_over now bs P m x"
      using conv(2) by (simp add: canConvert_may long)
    ultimately show ?thesis using e(1) m1(3) conv(1) b x by (auto intro!: exI [of _ x])
  qed
qed

section \<open>The system\<close>

text \<open>Every critical section is a step, with whatever the backends read at that time. A job is polled until its
  wait ends and released once; \<^verbatim>\<open>Done\<close> may come at any time.\<close>

inductive pstep :: "manager \<Rightarrow> manager \<Rightarrow> bool" where
  p_reserve: "picker_ok pick \<Longrightarrow> pstep m (snd (Reserve draw1 draw2 now bs cands tokens pick m))"
| p_drained: "j < jalloc m \<Longrightarrow> \<not> jdone (jheap m j) \<Longrightarrow> pstep m (poll_drained bs j m)"
| p_grant: "j < jalloc m \<Longrightarrow> pstep m (snd (poll_grant bs j m))"
| p_abandon: "j < jalloc m \<Longrightarrow> pstep m (abandon_wait bs j m)"
| p_done: "j < jalloc m \<Longrightarrow> pstep m (Done bs now j m)"
| p_expire: "pstep m (releaseExpired now m)"
| p_prune: "pstep m (Prune bs known m)"

inductive preachable :: "prefill_config \<Rightarrow> manager \<Rightarrow> bool" for c where
  p_init: "preachable c (Prefill_New c)"
| p_step: "preachable c m \<Longrightarrow> pstep m m' \<Longrightarrow> preachable c m'"

lemma minv_New: "minv (Prefill_New c)"
  by (simp add: minv_def nodes_inv_def slots_inv_def load_inv_def modes_inv_def Prefill_New_def)

lemma pstep_minv: "pstep m m' \<Longrightarrow> minv m \<Longrightarrow> minv m'"
proof (induction rule: pstep.induct)
  case (p_reserve pick m draw1 draw2 now bs cands tokens)
  obtain r m' where r: "Reserve draw1 draw2 now bs cands tokens pick m = (r, m')" by fastforce
  show ?case using Reserve_spec [OF p_reserve(2,1) r] r by simp
qed (simp_all add: poll_drained_minv poll_grant_minv abandon_minv Done_minv releaseExpired_minv Prune_minv)

lemma preachable_minv: "preachable c m \<Longrightarrow> minv m"
  by (induction rule: preachable.induct) (auto intro: minv_New pstep_minv)

section \<open>Slots in arrival order\<close>

definition fifo :: "manager \<Rightarrow> manager \<Rightarrow> bool" where
  "fifo m m' \<longleftrightarrow> (\<forall>i<jalloc m. queued (jheap m' i) \<longrightarrow> queued (jheap m i)) \<and>
     (\<forall>i j. i < j \<and> j < jalloc m \<and> jnode (jheap m i) = jnode (jheap m j) \<and> queued (jheap m i) \<and> queued (jheap m' i) \<and> held (jheap m' j) \<longrightarrow> held (jheap m j))"

lemma fifo_quiet: "\<forall>i<jalloc m. (queued (jheap m' i) \<longrightarrow> queued (jheap m i)) \<and> (held (jheap m' i) \<longrightarrow> held (jheap m i)) \<Longrightarrow> fifo m m'"
  unfolding fifo_def by blast

lemma fifo_trans: "fifo m m1 \<Longrightarrow> fifo m1 m2 \<Longrightarrow> slots_only m m1 \<Longrightarrow> fifo m m2"
  unfolding fifo_def slots_only_def by (smt (verit) order_less_trans)

lemma grant_fifo:
  assumes "slots_inv m" and "a < nalloc m"
  shows "fifo m (grantLocked bs a m)"
proof -
  obtain k where k: "grantLocked bs a m = grant_k a k m" using grantLocked_spec by blast
  let ?q = "jqueue (nheap m a)"
  note S = slots_invD [OF assms]
  have jh: "jheap (grant_k a k m) i = (if i \<in> set (take k ?q) then (jheap m i)\<lparr>queued := False, held := True, granted := True\<rparr> else jheap m i)" for i
    by (simp add: grant_k_def)
  have first: "i \<in> set (take k ?q)" if "i < j" "j \<in> set (take k ?q)" "i \<in> set ?q" for i j
  proof (rule ccontr)
    assume "i \<notin> set (take k ?q)"
    then have "i \<in> set (drop k ?q)" using that(3) set_append [of "take k ?q" "drop k ?q"] by auto
    moreover have "\<forall>x\<in>set (take k ?q). \<forall>y\<in>set (drop k ?q). x \<le> y" using S(1) sorted_append [of "take k ?q" "drop k ?q"] by simp
    ultimately show False using that(1,2) by fastforce
  qed
  have "held (jheap m j)" if "i < j" "j < jalloc m" "jnode (jheap m i) = jnode (jheap m j)" "queued (jheap m i)"
    "queued (jheap (grant_k a k m) i)" "held (jheap (grant_k a k m) j)" for i j
  proof (cases "j \<in> set (take k ?q)")
    case True
    then have "jnode (jheap m j) = a" using S(3) set_take_subset [of k ?q] by (auto simp: queue_jobs_def)
    then have "i \<in> set ?q" using S(3) that(1-4) by (simp add: queue_jobs_def)
    then have "i \<in> set (take k ?q)" using first [OF that(1) True] by simp
    then show ?thesis using that(5) by (simp add: jh)
  next
    case False
    then show ?thesis using that(6) by (simp add: jh)
  qed
  then show ?thesis unfolding k fifo_def by (auto simp: jh)
qed

lemma slots_pair_fifo:
  assumes "slots_inv m" and "nodes_inv m" and "j < jalloc m"
  shows "fifo m (drop_slot bs j (dequeueLocked j m))"
proof -
  let ?d = "dequeueLocked j m"
  note D = dequeue_spec [OF assms]
  have "queued (jheap ?d i) \<longrightarrow> queued (jheap m i)" for i by (simp add: dequeueLocked_def)
  then have f1: "fifo m ?d" using D(4) by (intro fifo_quiet) simp
  have n: "nodes_inv ?d" "j < jalloc ?d" using slots_only_nodes [OF D(2) assms(2)] D(2) assms(3) by (simp_all add: slots_only_def)
  have "fifo ?d (drop_slot bs j ?d)"
  proof (cases "held (jheap ?d j)")
    case True
    note U = unslot_inv [OF D(1) n True]
    have a: "jnode (jheap ?d j) < nalloc (unslot j ?d)" using n by (simp add: nodes_inv_def unslot_def)
    have "fifo ?d (unslot j ?d)" by (rule fifo_quiet) (simp add: unslot_def)
    from fifo_trans [OF this grant_fifo [OF U(1) a] U(2)] show ?thesis using True by (simp add: drop_slot_unslot)
  qed (simp add: drop_slot_def fifo_quiet)
  then show ?thesis using fifo_trans [OF f1 _ D(2)] by blast
qed

lemma fifo_cong:
  assumes "jalloc m1 = jalloc m" and "\<And>i. jnode (jheap m1 i) = jnode (jheap m i)" and "\<And>i. queued (jheap m1 i) = queued (jheap m i)"
    and "\<And>i. held (jheap m1 i) = held (jheap m i)" and "jheap x = jheap y" and "fifo m1 x"
  shows "fifo m y"
  using assms(6) unfolding fifo_def assms(1-5) .

lemma pstep_fifo: "pstep m m' \<Longrightarrow> minv m \<Longrightarrow> fifo m m'"
proof (induction rule: pstep.induct)
  case (p_reserve pick m draw1 draw2 now bs cands tokens)
  obtain r m' where r: "Reserve draw1 draw2 now bs cands tokens pick m = (r, m')" by fastforce
  have "\<forall>i<jalloc m. jheap m' i = jheap m i" using Reserve_spec [OF p_reserve(2,1) r] by (cases r) auto
  then show ?case using r by (intro fifo_quiet) simp
next
  case (p_grant j m bs)
  then show ?case using grant_fifo [of m "jnode (jheap m j)" bs] by (simp add: poll_grant_def Let_def minv_def nodes_inv_def)
next
  case (p_abandon j m bs)
  then show ?case using slots_pair_fifo [of m j bs] by (simp add: abandon_wait_def minv_def)
next
  case (p_done j m bs now)
  show ?case
  proof (cases "jdone (jheap m j)")
    case False
    let ?m0 = "upd_job j (\<lambda>x. x\<lparr>jdone := True\<rparr>) m"
    have "slots_inv ?m0" by (rule slots_inv_cong [of m]) (use p_done in \<open>auto simp: minv_def\<close>)
    moreover have "nodes_inv ?m0" using p_done by (auto simp: minv_def nodes_inv_def)
    ultimately have "fifo ?m0 (drop_slot bs j (dequeueLocked j ?m0))" using p_done(1) by (intro slots_pair_fifo) simp_all
    moreover have "jheap (Done bs now j m) = jheap (drop_slot bs j (dequeueLocked j ?m0))"
      using False by (simp add: Done_def Let_def release_fields track_fields)
    ultimately show ?thesis by (intro fifo_cong [of ?m0 m]) simp_all
  qed (simp add: Done_def fifo_quiet)
next
  case (p_expire m now)
  have "jheap (fold (\<lambda>ua m. if expired now m (snd ua) then releaseLocked (snd ua) m else m) xs M) = jheap M" for xs :: "(url \<times> nat) list" and M
    by (induction xs arbitrary: M) (simp_all add: releaseLocked_def)
  then show ?case by (intro fifo_quiet) (simp add: releaseExpired_def)
qed (auto intro!: fifo_quiet simp: poll_drained_def Prune_def)

section \<open>Idle nodes go back to decode\<close>

lemma releaseLocked_mcfg [simp]: "mcfg (releaseLocked a m) = mcfg m"
  by (simp add: releaseLocked_def)

lemma expired_released: "expired now (releaseLocked b m) a \<longleftrightarrow> expired now m a \<and> a \<noteq> b"
  unfolding expired_def releaseLocked_mcfg by (simp add: releaseLocked_def)

lemma release_fold:
  fixes xs :: "(url \<times> nat) list" and now :: ns
  defines "F \<equiv> \<lambda>xs m. fold (\<lambda>ua m. if expired now m (snd ua) then releaseLocked (snd ua) m else m) xs m"
  shows "\<forall>a. expired now (F xs m) a \<longrightarrow> expired now m a" and "\<forall>a\<in>snd ` set xs. \<not> expired now (F xs m) a"
    and "open_jobs (F xs m) a = open_jobs m a" and "mcfg (F xs m) = mcfg m" and "nalloc (F xs m) = nalloc m"
    and "idleSince (nheap (F xs m) a) = Some t \<Longrightarrow> idleSince (nheap m a) = Some t"
proof -
  have step: "expired now (if expired now m b then releaseLocked b m else m) a \<Longrightarrow> expired now m a \<and> a \<noteq> b" for m a b
    by (cases "expired now m b") (auto simp: expired_released)
  have gen: "(\<forall>a. expired now (F xs m) a \<longrightarrow> expired now m a) \<and> (\<forall>a\<in>snd ` set xs. \<not> expired now (F xs m) a) \<and>
      open_jobs (F xs m) a = open_jobs m a \<and> mcfg (F xs m) = mcfg m \<and> nalloc (F xs m) = nalloc m \<and>
      (idleSince (nheap (F xs m) a) = Some t \<longrightarrow> idleSince (nheap m a) = Some t)" for m
  proof (induction xs arbitrary: m)
    case (Cons ua xs)
    let ?m = "if expired now m (snd ua) then releaseLocked (snd ua) m else m"
    have e: "F (ua # xs) m = F xs ?m" by (simp add: F_def)
    have f: "open_jobs ?m a = open_jobs m a" "mcfg ?m = mcfg m" "nalloc ?m = nalloc m"
      "idleSince (nheap ?m a) = Some t \<longrightarrow> idleSince (nheap m a) = Some t"
      by (auto simp: releaseLocked_def open_jobs_def split: if_splits)
    note I = Cons.IH [of ?m]
    have a1: "\<forall>b. expired now (F xs ?m) b \<longrightarrow> expired now m b" using I step by blast
    have "\<not> expired now (F xs ?m) (snd ua)" using I step [of m "snd ua" "snd ua"] by blast
    then have a2: "\<forall>b\<in>snd ` set (ua # xs). \<not> expired now (F xs ?m) b" using I by simp
    have a3: "open_jobs (F xs ?m) a = open_jobs m a" "mcfg (F xs ?m) = mcfg m" "nalloc (F xs ?m) = nalloc m" using I f(1-3) by argo+
    have "idleSince (nheap (F xs ?m) a) = Some t \<longrightarrow> idleSince (nheap m a) = Some t" using I f(4) by blast
    then show ?case unfolding e using a1 a2 a3 by blast
  qed (simp add: F_def)
  show "\<forall>a. expired now (F xs m) a \<longrightarrow> expired now m a" "\<forall>a\<in>snd ` set xs. \<not> expired now (F xs m) a"
    "open_jobs (F xs m) a = open_jobs m a" "mcfg (F xs m) = mcfg m" "nalloc (F xs m) = nalloc m"
    "idleSince (nheap (F xs m) a) = Some t \<Longrightarrow> idleSince (nheap m a) = Some t" using gen by blast+
qed

lemma busy_iff:
  assumes "minv m" and "a < nalloc m" and "ReleaseIdle (mcfg m) \<le> 0"
  shows "mode (nheap m a) \<noteq> Decode \<longleftrightarrow> open_jobs m a \<noteq> {}"
  using minvD [OF assms(1,2)] load_zero [of m a] assms by (auto simp: node_mode_ok_def minv_def)

lemma busy_iff_expired:
  assumes "minv m" and "a \<in> snd ` set (mnodes m)" and "\<And>t. idleSince (nheap m a) = Some t \<Longrightarrow> t + ReleaseIdle (mcfg m) \<le> now"
  shows "mode (nheap (releaseExpired now m) a) \<noteq> Decode \<longleftrightarrow> open_jobs m a \<noteq> {}"
proof -
  note F = release_fold [where xs = "mnodes m" and now = now and m = m, folded releaseExpired_def]
  have a: "a < nalloc (releaseExpired now m)" using assms(1,2) F(5) by (auto simp: minv_def nodes_inv_def)
  have I: "minv (releaseExpired now m)" using releaseExpired_minv [OF assms(1)] .
  have "\<not> expired now (releaseExpired now m) a" using F(2) assms(2) by blast
  then have "pending (nheap (releaseExpired now m) a) \<noteq> 0" if "mode (nheap (releaseExpired now m) a) \<noteq> Decode"
    using minvD [OF I a] that F(6) [of a] assms(3) F(4) by (fastforce simp: node_mode_ok_def expired_def)
  moreover have "pending (nheap (releaseExpired now m) a) = 0" if "mode (nheap (releaseExpired now m) a) = Decode"
    using minvD [OF I a] that by (simp add: node_mode_ok_def)
  moreover have "pending (nheap (releaseExpired now m) a) = 0 \<longleftrightarrow> open_jobs (releaseExpired now m) a = {}"
    by (rule load_zero [OF _ a]) (use I in \<open>simp add: minv_def\<close>)
  ultimately show ?thesis using F(3) [of a] by auto
qed

section \<open>Properties\<close>

text \<open>C29. In every reachable state of the prefill manager a node is charged exactly the tokens of its
  unfinished jobs, its running count is the jobs that hold a slot, its queue the jobs that wait, no more jobs
  than the concurrency limit run on it, and none runs while it drains.\<close>

theorem prefill_accounting:
  assumes "preachable c m" and "a < nalloc m"
  shows "pending (nheap m a) = (\<Sum>j\<in>open_jobs m a. jtokens (jheap m j)) \<and> running (nheap m a) = int (card (slot_jobs m a)) \<and>
    set (jqueue (nheap m a)) = queue_jobs m a \<and> (0 < NodeConcurrency (mcfg m) \<longrightarrow> running (nheap m a) \<le> NodeConcurrency (mcfg m)) \<and>
    (mode (nheap m a) = Draining \<longrightarrow> running (nheap m a) = 0)"
proof -
  have I: "slots_inv m" "load_inv m" using preachable_minv [OF assms(1)] by (simp_all add: minv_def)
  show ?thesis using slots_invD [OF I(1) assms(2)] I(2) assms(2) by (simp add: load_inv_def)
qed

definition ex_pcfg :: prefill_config where
  "ex_pcfg = \<lparr>NodeBudgetTokens = 100, MaxFleetFraction = 1 / 2, NodeConcurrency = 1, ConvertAfter = 0, ReleaseIdle = 0\<rparr>"

definition ex_fleet :: "nat \<Rightarrow> backend" where
  "ex_fleet i = newBackend DefaultConfig (bare_spec (replicate i CHR ''a''))"

definition ex_pm :: manager where
  "ex_pm = snd (poll_grant ex_fleet 0 (poll_drained ex_fleet 0
     (snd (Reserve (\<lambda>_ _. 1) (\<lambda>_ _. 1) 0 ex_fleet [0, 1, 2] 10 None (Prefill_New ex_pcfg)))))"

lemma ex_pm_reachable: "preachable ex_pcfg ex_pm"
proof -
  let ?m = "snd (Reserve (\<lambda>_ _. 1) (\<lambda>_ _. 1) 0 ex_fleet [0, 1, 2] 10 None (Prefill_New ex_pcfg))"
  have a: "preachable ex_pcfg ?m" by (rule p_step [OF p_init p_reserve]) (simp add: picker_ok_def)
  have b: "0 < jalloc ?m" "\<not> jdone (jheap ?m 0)" "0 < jalloc (poll_drained ex_fleet 0 ?m)" by code_simp+
  show ?thesis unfolding ex_pm_def by (rule p_step [OF p_step [OF a p_drained [OF b(1,2)]] p_grant [OF b(3)]])
qed

theorem prefill_accounting_witness:
  "pending (nheap ex_pm 0) = (\<Sum>j\<in>open_jobs ex_pm 0. jtokens (jheap ex_pm j)) \<and> mode (nheap ex_pm 0) = Prefill \<and> running (nheap ex_pm 0) = 1"
proof -
  have "0 < nalloc ex_pm" "mode (nheap ex_pm 0) = Prefill" "running (nheap ex_pm 0) = 1" by code_simp+
  then show ?thesis using prefill_accounting [OF ex_pm_reachable, of 0] by simp
qed

text \<open>C30. What \<^verbatim>\<open>Reserve\<close> does, case by case and in this order. A node with room takes the job, the fullest of them.
  Otherwise, when another node may be converted (a decode node stays and the share of the fleet is kept) and the pool has
  been over its budget for \<^verbatim>\<open>ConvertAfter\<close>, judged by a least pending prefill node, the least loaded decode node starts
  draining and takes it. Otherwise a least pending prefill node queues it and nothing is converted. It fails exactly when
  there is no prefill node and no right to convert.\<close>

theorem Reserve_chooses:
  assumes "preachable c m" and "picker_ok pick" and "Reserve draw1 draw2 now bs cands tokens pick m = (r, m')"
    and "E = room_of bs (max tokens 1) cands m" and "P = prefill_of bs cands m" and "D = decode_of bs cands m"
  shows "(r = None \<longleftrightarrow> P = [] \<and> \<not> may_convert (mcfg m) (length cands) 0 (length D)) \<and>
    (case r of None \<Rightarrow> True
     | Some j \<Rightarrow>
        (let b = jbackend (jheap m' j) in
         queued (jheap m' j) \<and> jtokens (jheap m' j) = max tokens 1 \<and>
         (if E \<noteq> [] then b \<in> set E \<and> (\<forall>x\<in>set E. PendOf bs x m \<le> PendOf bs b m)
          else (\<exists>x. (P \<noteq> [] \<longrightarrow> least_pending bs P m x) \<and>
            (if may_convert (mcfg m) (length cands) (length P) (length D) \<and> long_over now bs P m x
             then b \<in> set D \<and> (\<forall>y\<in>set D. NormalizedLoad (bs b) \<le> NormalizedLoad (bs y)) \<and>
               conversions m' = conversions m + 1 \<and> mode (nheap m' (jnode (jheap m' j))) = Draining
             else least_pending bs P m b \<and> conversions m' = conversions m)))))"
proof (cases r)
  case None
  then show ?thesis using Reserve_spec [OF preachable_minv [OF assms(1)] assms(2,3)] by (simp add: assms(5,6) canConvert_may)
next
  case (Some j)
  note S = Reserve_spec [OF preachable_minv [OF assms(1)] assms(2,3), unfolded Some option.case, folded assms(4-6)]
  have "\<not> (P = [] \<and> \<not> may_convert (mcfg m) (length cands) 0 (length D))"
  proof
    assume h: "P = [] \<and> \<not> may_convert (mcfg m) (length cands) 0 (length D)"
    then have "E = []" by (auto simp: assms(4,5) room_of_def prefill_of_def filter_empty_conv)
    then show False using S h by (auto simp: Let_def least_pending_def)
  qed
  then have n: "(r = None \<longleftrightarrow> P = [] \<and> \<not> may_convert (mcfg m) (length cands) 0 (length D))" using Some by simp
  show ?thesis using n S unfolding Some option.case Let_def by blast
qed

text \<open>With no prefill node yet, a decode node is converted.\<close>

theorem Reserve_chooses_witness:
  "jbackend (jheap (snd (Reserve (\<lambda>_ _. 1) (\<lambda>_ _. 1) 0 ex_fleet [0, 1, 2] 10 None (Prefill_New ex_pcfg))) 0)
     \<in> set (decode_of ex_fleet [0, 1, 2] (Prefill_New ex_pcfg))"
proof -
  let ?r = "Reserve (\<lambda>_ _. 1) (\<lambda>_ _. 1) 0 ex_fleet [0, 1, 2] 10 None (Prefill_New ex_pcfg)"
  have v: "fst ?r = Some 0" "prefill_of ex_fleet [0, 1, 2] (Prefill_New ex_pcfg) = []" "room_of ex_fleet 10 [0, 1, 2] (Prefill_New ex_pcfg) = []"
    by code_simp+
  have "?r = (Some 0, snd ?r)" using v(1) by (metis prod.collapse)
  from Reserve_chooses [OF p_init _ this refl refl refl] show ?thesis using v
    by (auto simp: picker_ok_def Let_def least_pending_def split: if_splits)
qed

lemma Done_frame:
  assumes "minv m" and "j < jalloc m"
  shows "jnode (jheap (Done bs now j m) i) = jnode (jheap m i)" and "jalloc (Done bs now j m) = jalloc m"
proof -
  let ?m0 = "upd_job j (\<lambda>x. x\<lparr>jdone := True\<rparr>) m"
  have s0: "slots_inv ?m0" by (rule slots_inv_cong [of m]) (use assms in \<open>auto simp: minv_def\<close>)
  have n0: "nodes_inv ?m0" using assms by (auto simp: minv_def nodes_inv_def)
  have j0: "j < jalloc ?m0" using assms(2) by simp
  note D = dequeue_spec [OF s0 n0 j0]
  have j1: "j < jalloc (dequeueLocked j ?m0)" using D(2) j0 by (simp add: slots_only_def)
  have "slots_only ?m0 (drop_slot bs j (dequeueLocked j ?m0))"
    using slots_only_trans [OF D(2) drop_slot_spec(2) [OF D(1) slots_only_nodes [OF D(2) n0] j1 D(3)]] .
  then show "jnode (jheap (Done bs now j m) i) = jnode (jheap m i)" "jalloc (Done bs now j m) = jalloc m"
    by (auto simp: Done_def Let_def release_fields track_fields slots_only_def)
qed

lemma Reserve_alloc: "Reserve draw1 draw2 now bs cands tokens pick m = (Some j, m') \<Longrightarrow> jalloc m' = Suc j"
  by (auto simp: Reserve_def Let_def charge_def track_fields split: prod.splits option.splits)

lemma pstep_frame:
  assumes "pstep m m'" and "minv m"
  shows "(\<forall>j<jalloc m. jnode (jheap m' j) = jnode (jheap m j)) \<and> (\<forall>j<jalloc m'. jalloc m \<le> j \<longrightarrow> \<not> held (jheap m' j))"
  using assms
proof (induction rule: pstep.induct)
  case (p_reserve pick m draw1 draw2 now bs cands tokens)
  obtain r m' where r: "Reserve draw1 draw2 now bs cands tokens pick m = (r, m')" by fastforce
  have I: "minv m'" using Reserve_spec [OF p_reserve(2,1) r] by simp
  show ?case
  proof (cases r)
    case None
    then show ?thesis using Reserve_spec [OF p_reserve(2,1) r] r by simp
  next
    case (Some j)
    then have S: "j = jalloc m" "queued (jheap m' j)" "\<forall>i. i \<noteq> j \<longrightarrow> jheap m' i = jheap m i"
      using Reserve_spec [OF p_reserve(2,1) r] unfolding Some option.case by blast+
    have "jalloc m' = Suc (jalloc m)" using Reserve_alloc r Some S(1) by blast
    then show ?thesis using S I r by (auto simp: minv_def slots_inv_def less_Suc_eq)
  qed
next
  case (p_grant j m bs)
  then show ?case using grant_inv(2) [of m "jnode (jheap m j)" bs] by (simp add: poll_grant_def Let_def minv_def nodes_inv_def slots_only_def)
next
  case (p_abandon j m bs)
  then show ?case using slots_pair(2) [of m j bs] by (simp add: abandon_wait_def slots_only_def)
next
  case (p_done j m bs now)
  then show ?case using Done_frame [of m j bs now] by simp
next
  case (p_expire m now)
  have "jheap (fold (\<lambda>ua m. if expired now m (snd ua) then releaseLocked (snd ua) m else m) xs M) = jheap M \<and>
      jalloc (fold (\<lambda>ua m. if expired now m (snd ua) then releaseLocked (snd ua) m else m) xs M) = jalloc M" for xs :: "(url \<times> nat) list" and M
    by (induction xs arbitrary: M) (simp_all add: releaseLocked_def)
  then show ?case by (simp add: releaseExpired_def)
qed (auto simp: poll_drained_def Prune_def)

lemma preachable_order:
  "preachable c m \<Longrightarrow> i < j \<Longrightarrow> j < jalloc m \<Longrightarrow> jnode (jheap m i) = jnode (jheap m j) \<Longrightarrow> queued (jheap m i) \<Longrightarrow> \<not> held (jheap m j)"
proof (induction arbitrary: i j rule: preachable.induct)
  case p_init
  then show ?case by (simp add: Prefill_New_def)
next
  case (p_step m m')
  note I = preachable_minv [OF p_step.hyps(1)]
  note F = pstep_fifo [OF p_step.hyps(2) I] and J = pstep_frame [OF p_step.hyps(2) I]
  show ?case
  proof (cases "j < jalloc m")
    case True
    have n: "jnode (jheap m i) = jnode (jheap m j)" using J True p_step.prems(1,3) by simp
    have q: "queued (jheap m i)" using F p_step.prems(1,4) True unfolding fifo_def by (meson order_less_trans)
    have "\<not> held (jheap m j)" by (rule p_step.IH [OF p_step.prems(1) True n q])
    then show ?thesis using F p_step.prems(1,4) True n q unfolding fifo_def by blast
  next
    case False
    then show ?thesis using J p_step.prems(2) by simp
  qed
qed

text \<open>Slots go out in arrival order: no job holds a slot of a node while an earlier one waits for one.\<close>

theorem slots_in_arrival_order:
  assumes "preachable c m" and "i < j" and "j < jalloc m" and "jnode (jheap m i) = jnode (jheap m j)" and "queued (jheap m i)"
  shows "\<not> held (jheap m j)"
  by (rule preachable_order [OF assms])

definition ex_pm1 :: manager where
  "ex_pm1 = snd (Reserve (\<lambda>_ _. 1) (\<lambda>_ _. 1) 0 ex_fleet [0, 1, 2] 10 None (Prefill_New ex_pcfg))"

definition ex_pm2 :: manager where
  "ex_pm2 = snd (Reserve (\<lambda>_ _. 1) (\<lambda>_ _. 1) 0 ex_fleet [0] 20 None ex_pm1)"

theorem slots_in_arrival_order_witness: "\<not> held (jheap ex_pm2 1)"
proof -
  have r: "preachable ex_pcfg ex_pm2" unfolding ex_pm2_def ex_pm1_def
    by (rule p_step [OF p_step [OF p_init p_reserve] p_reserve]) (simp_all add: picker_ok_def)
  have f: "map_of (mnodes ex_pm1) (URL (ex_fleet 0)) = Some 0" "mode (nheap ex_pm1 0) = Draining" "pending (nheap ex_pm1 0) = 10"
    "jalloc ex_pm1 = 1" "queued (jheap ex_pm1 0)" "jnode (jheap ex_pm1 0) = 0" "NodeBudgetTokens (mcfg ex_pm1) = 100" by code_simp+
  have e: "ex_pm2 = snd (charge 0 0 0 20 (upd_node 0 (\<lambda>n. n\<lparr>pn_b := 0\<rparr>) ex_pm1))"
    using f by (simp add: ex_pm2_def Reserve_def nodeLocked_def addr_def choose_node_def pickLocked_def split: prod.split)
  have v: "1 < jalloc ex_pm2" "jnode (jheap ex_pm2 0) = jnode (jheap ex_pm2 1)" "queued (jheap ex_pm2 0)"
    unfolding e charge_fields using f by simp_all
  show ?thesis by (rule slots_in_arrival_order [OF r _ v]) simp
qed

text \<open>A node is out of decode exactly while it has an unfinished job; with \<^verbatim>\<open>ReleaseIdle\<close> set it stays out
  that much longer, and the next sweep after that returns it.\<close>

theorem idle_nodes_decode:
  assumes "preachable c m" and "a \<in> snd ` set (mnodes m)"
  shows "if ReleaseIdle (mcfg m) \<le> 0 then (mode (nheap m a) \<noteq> Decode) = (open_jobs m a \<noteq> {})
    else (\<forall>t. idleSince (nheap m a) = Some t \<longrightarrow> t + ReleaseIdle (mcfg m) \<le> now) \<longrightarrow>
      (mode (nheap (releaseExpired now m) a) \<noteq> Decode) = (open_jobs m a \<noteq> {})"
proof -
  have I: "minv m" by (rule preachable_minv [OF assms(1)])
  then have "a < nalloc m" using assms(2) by (auto simp: minv_def nodes_inv_def)
  then show ?thesis using busy_iff [OF I] busy_iff_expired [OF I assms(2)] by simp
qed

theorem idle_nodes_decode_witness:
  "(mode (nheap ex_pm 0) \<noteq> Decode) = (open_jobs ex_pm 0 \<noteq> {})"
proof -
  have "0 \<in> snd ` set (mnodes ex_pm)" "ReleaseIdle (mcfg ex_pm) \<le> 0" by code_simp+
  then show ?thesis using idle_nodes_decode [OF ex_pm_reachable, of 0] by simp
qed

end
