(* ===== verification/PrefillView.thy ===== *)
theory PrefillView
  imports Prefill
begin

text \<open>
  The counters of \<^verbatim>\<open>router/internal/prefill/manager.go\<close> that no decision reads, and the snapshot of the manager for
  the live view. \<^verbatim>\<open>conversions\<close> and \<^verbatim>\<open>releases\<close> are kept by the manager itself.
\<close>

record tallies =
  rejections :: u64
  jobRetries :: u64
  jobsOK :: u64
  jobsFailed :: u64
  fallbackNoNode :: u64
  fallbackJobFailed :: u64

definition CountRejection :: "tallies \<Rightarrow> tallies" where
  "CountRejection t = t\<lparr>rejections := rejections t + 1\<rparr>"

definition CountJobRetry :: "tallies \<Rightarrow> tallies" where
  "CountJobRetry t = t\<lparr>jobRetries := jobRetries t + 1\<rparr>"

definition CountJob :: "bool \<Rightarrow> tallies \<Rightarrow> tallies" where
  "CountJob ok t = (if ok then t\<lparr>jobsOK := jobsOK t + 1\<rparr> else t\<lparr>jobsFailed := jobsFailed t + 1\<rparr>)"

definition FallbackNoNode :: "tallies \<Rightarrow> tallies" where
  "FallbackNoNode t = t\<lparr>fallbackNoNode := fallbackNoNode t + 1\<rparr>"

definition FallbackJobFailed :: "tallies \<Rightarrow> tallies" where
  "FallbackJobFailed t = t\<lparr>fallbackJobFailed := fallbackJobFailed t + 1\<rparr>"

record prefill_view =
  Enabled :: bool
  view_budget :: int
  view_fraction :: rat
  view_nodes :: "node_state list"
  Rejections :: u64
  Jobs :: u64
  JobsFailed :: u64
  JobRetries :: u64
  Conversions :: u64
  Releases :: u64
  BypassFallbacks :: u64

text \<open>\<^verbatim>\<open>State\<close>, with the counters read at one moment.\<close>

definition Prefill_State :: "manager \<Rightarrow> tallies \<Rightarrow> prefill_view" where
  "Prefill_State m t =
     \<lparr>Enabled = True, view_budget = NodeBudgetTokens (mcfg m), view_fraction = MaxFleetFraction (mcfg m), view_nodes = node_states m,
      Rejections = rejections t, Jobs = jobsOK t + jobsFailed t, JobsFailed = jobsFailed t, JobRetries = jobRetries t,
      Conversions = conversions m, Releases = releases m, BypassFallbacks = fallbackNoNode t + fallbackJobFailed t\<rparr>"

lemma view_lists_nodes:
  "sorted (map ns_url (view_nodes (Prefill_State m t)))"
  "set (map ns_url (view_nodes (Prefill_State m t))) = fst ` set (mnodes m)"
  by (auto simp: Prefill_State_def node_states_def Let_def image_image split_def)

end
