(* ===== verification/GoStrings.thy ===== *)
theory GoStrings
  imports Dialect
begin

text \<open>
  What the router uses of Go's \<^verbatim>\<open>strings\<close> on byte strings: trimming of white space (the encodings of Unicode's
  White\_Space), splitting at a separator, containment. Lower-casing depends on the Unicode tables and is a parameter
  wherever it is used.
\<close>

definition spaces :: "byte list list" where
  "spaces = map (\<lambda>c. [c]) [9, 10, 11, 12, 13, 32] @ [[0xC2, 0x85], [0xC2, 0xA0], [0xE1, 0x9A, 0x80]] @
     map (\<lambda>c. [0xE2, 0x80, c]) [0x80, 0x81, 0x82, 0x83, 0x84, 0x85, 0x86, 0x87, 0x88, 0x89, 0x8A, 0xA8, 0xA9, 0xAF] @
     [[0xE2, 0x81, 0x9F], [0xE3, 0x80, 0x80]]"

lemma space_nonempty: "w \<in> set spaces \<Longrightarrow> 0 < length w"
  by (auto simp: spaces_def)

function trim_left :: "byte list \<Rightarrow> byte list" where
  "trim_left s = (case find (\<lambda>w. prefix w s) spaces of None \<Rightarrow> s | Some w \<Rightarrow> trim_left (drop (length w) s))"
  by pat_completeness auto
termination
proof (relation "measure length")
  fix s w assume "find (\<lambda>w. prefix w s) spaces = Some w"
  then have "w \<in> set spaces" "prefix w s" by (auto simp: find_Some_iff)
  then show "(drop (length w) s, s) \<in> measure length" using space_nonempty [of w] prefix_length_le [of w s] by (cases s) auto
qed simp

function trim_right :: "byte list \<Rightarrow> byte list" where
  "trim_right s = (case find (\<lambda>w. suffix w s) spaces of None \<Rightarrow> s | Some w \<Rightarrow> trim_right (take (length s - length w) s))"
  by pat_completeness auto
termination
proof (relation "measure length")
  fix s w assume "find (\<lambda>w. suffix w s) spaces = Some w"
  then have "w \<in> set spaces" "suffix w s" by (auto simp: find_Some_iff)
  then show "(take (length s - length w) s, s) \<in> measure length" using space_nonempty [of w] suffix_length_le [of w s] by (cases s) auto
qed simp

declare trim_left.simps [simp del] trim_right.simps [simp del]

definition TrimSpace :: "byte list \<Rightarrow> byte list" where
  "TrimSpace s = trim_right (trim_left s)"

fun split_at :: "byte \<Rightarrow> byte list \<Rightarrow> byte list \<Rightarrow> byte list list" where
  "split_at c cur [] = [cur]"
| "split_at c cur (x # xs) = (if x = c then cur # split_at c [] xs else split_at c (cur @ [x]) xs)"

definition Split :: "byte list \<Rightarrow> byte \<Rightarrow> byte list list" where
  "Split s c = split_at c [] s"

fun join_with :: "byte list \<Rightarrow> byte list list \<Rightarrow> byte list" where
  "join_with sep [] = []"
| "join_with sep [x] = x"
| "join_with sep (x # y # xs) = x @ sep @ join_with sep (y # xs)"

fun Contains :: "byte list \<Rightarrow> byte list \<Rightarrow> bool" where
  "Contains [] p = (p = [])"
| "Contains (c # cs) p = (prefix p (c # cs) \<or> Contains cs p)"

section \<open>Facts\<close>

lemma Contains_sublist: "Contains s p \<longleftrightarrow> sublist p s"
  by (induction s) (auto simp: sublist_Cons_right)

text \<open>A string that neither starts nor ends with a space is left alone.\<close>

definition trimmed :: "byte list \<Rightarrow> bool" where
  "trimmed s \<longleftrightarrow> (\<forall>w\<in>set spaces. \<not> prefix w s \<and> \<not> suffix w s)"

lemma TrimSpace_trimmed: "trimmed s \<Longrightarrow> TrimSpace s = s"
proof -
  assume t: "trimmed s"
  then have "find (\<lambda>w. prefix w s) spaces = None" "find (\<lambda>w. suffix w s) spaces = None" by (auto simp: find_None_iff trimmed_def)
  then show ?thesis by (simp add: TrimSpace_def trim_left.simps [of s] trim_right.simps [of s])
qed

lemma trimmed_ends: "s \<noteq> [] \<Longrightarrow> (\<forall>w\<in>set spaces. hd w \<noteq> hd s \<and> last w \<noteq> last s) \<Longrightarrow> trimmed s"
  unfolding trimmed_def
proof (intro ballI)
  fix w assume s: "s \<noteq> []" "\<forall>w\<in>set spaces. hd w \<noteq> hd s \<and> last w \<noteq> last s" and w: "w \<in> set spaces"
  have n: "w \<noteq> []" using space_nonempty [OF w] by auto
  show "\<not> prefix w s \<and> \<not> suffix w s"
    using s w n by (auto simp: prefix_def suffix_def hd_append last_append)
qed

lemma split_at_line: "c \<notin> set xs \<Longrightarrow> split_at c cur (xs @ c # ys) = (cur @ xs) # split_at c [] ys"
  by (induction xs arbitrary: cur) auto

lemma split_at_rest: "c \<notin> set xs \<Longrightarrow> split_at c cur xs = [cur @ xs]"
  by (induction xs arbitrary: cur) auto

lemma Split_join: "\<forall>x\<in>set xs. c \<notin> set x \<Longrightarrow> xs \<noteq> [] \<Longrightarrow> Split (join_with [c] xs) c = xs"
proof (induction "[c]" xs rule: join_with.induct)
  case (3 x y xs)
  then show ?case using split_at_line [of c x "[]" "join_with [c] (y # xs)"] by (simp add: Split_def)
qed (auto simp: Split_def split_at_rest)

end
