(* ===== verification/Routing.thy ===== *)
theory Routing
  imports GoStrings
begin

text \<open>
  \<^verbatim>\<open>router/internal/routing/routing.go\<close>: which pool serves a model. A pool is opaque here but for its name and
  whether it has a prefill flow; \<^verbatim>\<open>strings.ToLower\<close> is the parameter \<open>lower\<close>. \<^verbatim>\<open>String\<close>, which renders a rule for
  the log, is not modelled.
\<close>

section \<open>Definitions\<close>

record 'p pool_view =
  PoolName :: "byte list"
  Handle :: 'p
  PDFlow :: bool

record 'p rule =
  Patterns :: "byte list list"
  Pool :: "'p pool_view option"
  RewriteModel :: "byte list"
  AutoModel :: "byte list option"
  StripAuth :: bool
  Credential :: "byte list"
  ForwardClientCredential :: bool
  Transparent :: bool

text \<open>The registry, the flow, the split and the disaggregation of the pool are its \<open>tHandle\<close>.\<close>

record 'p target =
  tName :: "byte list"
  tHandle :: 'p
  tRewriteModel :: "byte list"
  tStripAuth :: bool
  tCredential :: "byte list"
  tForwardClientCredential :: bool
  tTransparent :: bool
  tPrefillSelector :: bool

definition matches :: "(byte list \<Rightarrow> byte list) \<Rightarrow> 'p rule \<Rightarrow> byte list \<Rightarrow> bool" where
  "matches lower r model = (if Patterns r = [] then True else list_ex (Contains (lower model)) (Patterns r))"

text \<open>\<^verbatim>\<open>target\<close> dereferences the pool, which \<^verbatim>\<open>NewTable\<close> has checked.\<close>

definition pdSelector :: "'p pool_view \<Rightarrow> bool" where
  "pdSelector p = PDFlow p"

definition target_of :: "'p rule \<Rightarrow> 'p target" where
  "target_of r =
     (let p = the (Pool r);
          rewrite = (if RewriteModel r = [] then (case AutoModel r of Some m \<Rightarrow> m | None \<Rightarrow> []) else RewriteModel r)
      in \<lparr>tName = PoolName p, tHandle = Handle p, tRewriteModel = rewrite, tStripAuth = StripAuth r, tCredential = Credential r,
          tForwardClientCredential = ForwardClientCredential r, tTransparent = Transparent r, tPrefillSelector = pdSelector p\<rparr>)"

datatype route_error = ErrNoRules | ErrNoPool "byte list"

record 'p table =
  trules :: "'p rule list"
  ttargets :: "'p target list"

fun table_loop :: "'p rule list \<Rightarrow> byte list list \<Rightarrow> 'p target list \<Rightarrow> route_error + 'p target list" where
  "table_loop [] known ts = Inr ts"
| "table_loop (r # rs) known ts =
     (case Pool r of None \<Rightarrow> Inl (ErrNoPool (join_with [44] (Patterns r)))
      | Some p \<Rightarrow>
          (if PoolName p \<in> set known then table_loop rs known ts
           else table_loop rs (PoolName p # known) (ts @ [target_of r])))"

definition NewTable :: "'p rule list \<Rightarrow> route_error + 'p table" where
  "NewTable rules =
     (if rules = [] then Inl ErrNoRules
      else (case table_loop rules [] [] of Inl e \<Rightarrow> Inl e | Inr ts \<Rightarrow> Inr \<lparr>trules = rules, ttargets = ts\<rparr>))"

fun route_loop :: "(byte list \<Rightarrow> byte list) \<Rightarrow> 'p rule list \<Rightarrow> byte list \<Rightarrow> 'p target option" where
  "route_loop lower [] model = None"
| "route_loop lower (r # rs) model = (if matches lower r model then Some (target_of r) else route_loop lower rs model)"

definition Route :: "(byte list \<Rightarrow> byte list) \<Rightarrow> 'p table \<Rightarrow> byte list \<Rightarrow> 'p target option" where
  "Route lower t model = route_loop lower (trules t) model"

definition Targets :: "'p table \<Rightarrow> 'p target list" where
  "Targets t = ttargets t"

definition NormalizePatterns :: "(byte list \<Rightarrow> byte list) \<Rightarrow> byte list \<Rightarrow> byte list list" where
  "NormalizePatterns lower raw0 =
     (let raw = TrimSpace raw0 in
      if raw = [] \<or> raw = [42] then []
      else filter (\<lambda>p. p \<noteq> []) (map (\<lambda>p. lower (TrimSpace p)) (Split raw 44)))"

section \<open>Properties\<close>

lemma route_loop_first:
  "route_loop lower rs model = (case find (\<lambda>r. matches lower r model) rs of None \<Rightarrow> None | Some r \<Rightarrow> Some (target_of r))"
  by (induction rs) auto

text \<open>The rules that introduce a pool name not in \<open>known\<close>.\<close>

fun fresh_rules :: "byte list list \<Rightarrow> 'p rule list \<Rightarrow> 'p rule list" where
  "fresh_rules known [] = []"
| "fresh_rules known (r # rs) =
     (let n = PoolName (the (Pool r)) in if n \<in> set known then fresh_rules known rs else r # fresh_rules (n # known) rs)"

lemma table_loop_spec:
  "table_loop rs known ts = (case find (\<lambda>r. Pool r = None) rs of
     Some r \<Rightarrow> Inl (ErrNoPool (join_with [44] (Patterns r))) | None \<Rightarrow> Inr (ts @ map target_of (fresh_rules known rs)))"
  by (induction rs arbitrary: known ts) (auto simp: Let_def split: option.split)

lemma fresh_rules_names:
  "distinct (map (\<lambda>r. PoolName (the (Pool r))) (fresh_rules known rs)) \<and>
   set (map (\<lambda>r. PoolName (the (Pool r))) (fresh_rules known rs)) = (\<lambda>r. PoolName (the (Pool r))) ` set rs - set known \<and> subseq (fresh_rules known rs) rs"
proof (induction rs arbitrary: known)
  case (Cons r rs)
  show ?case
  proof (cases "PoolName (the (Pool r)) \<in> set known")
    case True
    then show ?thesis using Cons.IH [of known] by (auto simp: Let_def)
  next
    case False
    then show ?thesis using Cons.IH [of "PoolName (the (Pool r)) # known"] by (auto simp: Let_def)
  qed
qed simp

text \<open>Routing is first match: a table is refused only without rules or with a rule that has no pool, the
  target of the first rule that claims the model is returned, a model nothing claims is refused, a catch-all rule
  leaves no model unclaimed and the rules after it without effect, and each distinct pool is listed once.\<close>

theorem first_match_routes:
  assumes "NewTable rules = Inr t"
  shows "Route lower t model = (case find (\<lambda>r. matches lower r model) rules of None \<Rightarrow> None | Some r \<Rightarrow> Some (target_of r)) \<and>
    (\<forall>before r after. rules = before @ r # after \<and> Patterns r = [] \<longrightarrow>
       Route lower t model = Route lower \<lparr>trules = before @ [r], ttargets = Targets t\<rparr> model \<and> Route lower t model \<noteq> None) \<and>
    distinct (map tName (Targets t)) \<and> set (map tName (Targets t)) = (\<lambda>r. PoolName (the (Pool r))) ` set rules \<and>
    rules \<noteq> [] \<and> (\<forall>r\<in>set rules. Pool r \<noteq> None)"
proof -
  have ne: "rules \<noteq> []" and ok: "find (\<lambda>r. Pool r = None) rules = None" and t: "t = \<lparr>trules = rules, ttargets = map target_of (fresh_rules [] rules)\<rparr>"
    using assms by (auto simp: NewTable_def table_loop_spec split: if_splits option.splits)
  have names: "map tName (Targets t) = map (\<lambda>r. PoolName (the (Pool r))) (fresh_rules [] rules)"
    by (simp add: t Targets_def target_of_def Let_def comp_def)
  have "Route lower t model = Route lower \<lparr>trules = before @ [r], ttargets = Targets t\<rparr> model \<and> Route lower t model \<noteq> None"
    if "rules = before @ r # after" "Patterns r = []" for before r after
  proof -
    have "matches lower r model" using that(2) by (simp add: matches_def)
    then have "route_loop lower (before @ r # after) model = route_loop lower (before @ [r]) model" "route_loop lower (before @ [r]) model \<noteq> None"
      by (induction before) auto
    then show ?thesis by (simp add: Route_def t that(1))
  qed
  note each = this
  have cut: "\<forall>before r after. rules = before @ r # after \<and> Patterns r = [] \<longrightarrow>
       Route lower t model = Route lower \<lparr>trules = before @ [r], ttargets = Targets t\<rparr> model \<and> Route lower t model \<noteq> None"
    by (intro allI impI, elim conjE) (rule each)
  have "Route lower t model = (case find (\<lambda>r. matches lower r model) rules of None \<Rightarrow> None | Some r \<Rightarrow> Some (target_of r))"
    by (simp add: Route_def t route_loop_first)
  moreover have "\<forall>r\<in>set rules. Pool r \<noteq> None" using ok by (simp add: find_None_iff)
  ultimately show ?thesis using cut ne fresh_rules_names [of "[]" rules] unfolding names by (metis (no_types, lifting) Diff_empty set_empty2)
qed

definition ex_rules :: "nat rule list" where
  "ex_rules = [\<lparr>Patterns = [bytes ''gpt''], Pool = Some \<lparr>PoolName = bytes ''a'', Handle = 0, PDFlow = False\<rparr>, RewriteModel = [],
      AutoModel = Some (bytes ''real''), StripAuth = False, Credential = [], ForwardClientCredential = False, Transparent = False\<rparr>,
    \<lparr>Patterns = [], Pool = Some \<lparr>PoolName = bytes ''b'', Handle = 1, PDFlow = False\<rparr>, RewriteModel = [],
      AutoModel = None, StripAuth = False, Credential = [], ForwardClientCredential = False, Transparent = False\<rparr>]"

theorem first_match_routes_witness:
  "Route (\<lambda>s. s) \<lparr>trules = ex_rules, ttargets = map target_of ex_rules\<rparr> (bytes ''my-gpt-4'') = Some (target_of (hd ex_rules))"
proof -
  have "NewTable ex_rules = Inr \<lparr>trules = ex_rules, ttargets = map target_of ex_rules\<rparr>" by code_simp
  note F = first_match_routes [OF this, of "\<lambda>s. s" "bytes ''my-gpt-4''"]
  have "find (\<lambda>r. matches (\<lambda>s. s) r (bytes ''my-gpt-4'')) ex_rules = Some (hd ex_rules)" by code_simp
  then show ?thesis using F by simp
qed

text \<open>A pattern list is read back from its comma-separated form, for patterns that are not empty, trimmed,
  without comma and lower case, and are not the single star; the blank string and the star are the catch-all, and
  so is a list with nothing between its commas.\<close>

theorem patterns_read_back:
  assumes "ps \<noteq> []" and "ps \<noteq> [[42]]" and "[] \<notin> set ps" and "\<forall>p\<in>set ps. 44 \<notin> set p \<and> trimmed p \<and> lower p = p"
    and "trimmed (join_with [44] ps)"
  shows "NormalizePatterns lower (join_with [44] ps) = ps"
proof -
  have "join_with [44] ps \<noteq> []" using assms(1,3) by (cases "([44] :: byte list, ps)" rule: join_with.cases) auto
  moreover have "join_with [44] ps \<noteq> [42]"
  proof (cases "([44] :: byte list, ps)" rule: join_with.cases)
    case (2 sep x)
    then show ?thesis using assms(2) by auto
  next
    case (3 sep x y xs)
    have "44 \<in> set (join_with [44] ps)" using 3 by auto
    then show ?thesis by auto
  qed (use assms(1) in auto)
  moreover have "map (\<lambda>p. lower (TrimSpace p)) ps = ps" using assms(4) by (intro map_idI) (simp add: TrimSpace_trimmed)
  moreover have "filter (\<lambda>p. p \<noteq> []) ps = ps" using assms(3) by (auto simp: filter_id_conv)
  ultimately show ?thesis
    using assms(1,4) by (simp add: NormalizePatterns_def Let_def TrimSpace_trimmed [OF assms(5)] Split_join)
qed

theorem patterns_read_back_witness:
  "NormalizePatterns (\<lambda>s. s) (join_with [44] [bytes ''gpt'', bytes ''claude'']) = [bytes ''gpt'', bytes ''claude'']"
  by (rule patterns_read_back) code_simp+

lemma blank_patterns_catch_all:
  "NormalizePatterns lower [] = []" "NormalizePatterns lower (bytes '' * '') = []" "lower [] = [] \<Longrightarrow> NormalizePatterns lower (bytes '','') = []"
proof -
  show "NormalizePatterns lower [] = []" "NormalizePatterns lower (bytes '' * '') = []" by code_simp+
  have "TrimSpace (bytes '','') = [44]" "Split [44] 44 = [[], []]" "TrimSpace [] = []" by code_simp+
  then show "lower [] = [] \<Longrightarrow> NormalizePatterns lower (bytes '','') = []" by (simp add: NormalizePatterns_def Let_def)
qed

end
