(* ===== verification/Proxy.thy ===== *)
theory Proxy
  imports Lease Dialect
begin

text \<open>
  \<^verbatim>\<open>router/internal/proxy/proxy.go\<close>: one request, its attempts on the fleet and the verdicts they leave behind.
  The backends are the ones of \<open>Lease\<close>, with their breakers. What the network does to an attempt is a
  \<open>dispatch\<close>, what the rest of the process does to a turn of the loop a \<open>turn\<close>; both are arguments.
  \<^verbatim>\<open>httputil.ReverseProxy\<close> is used as documented: it calls \<^verbatim>\<open>ModifyResponse\<close> before it writes the header, closes the
  body, and, when the copy fails in a request that an \<^verbatim>\<open>http.Server\<close> serves, panics with \<^verbatim>\<open>http.ErrAbortHandler\<close>.
  What \<^verbatim>\<open>RejectionFromResponse\<close> reads from a 503 is part of the reply.
\<close>

section \<open>What an attempt meets\<close>

datatype upstream_error = Canceled | DeadlineExceeded | Transport

text \<open>How the copy of a body ends: at its end, with an error of the read, by the idle timer, with an error of
  the write to the client.\<close>

datatype copy_end = EOF | ReadFails upstream_error | IdleTimeout | WriteFails

record reply =
  r_status :: int
  r_refusal :: "int option"
  r_body :: "byte list list"
  r_end :: copy_end

datatype round_trip = NoReply upstream_error | Reply reply

text \<open>\<open>early\<close>: an informational response was forwarded; \<open>gone\<close>: the inbound context is done when the round trip
  returns; \<open>mid\<close>: what other requests do meanwhile.\<close>

record dispatch =
  url_ok :: bool
  early :: bool
  trip :: round_trip
  gone :: bool
  started :: ns
  first_byte :: ns
  finished :: ns
  mid :: "lsys \<Rightarrow> lsys"

text \<open>Calls to other components, headers written to the client and metrics, in order.\<close>

datatype pevent =
    Admitted nat bool | Recorded nat outcome bool
  | Dispatched nat | Accepted nat | Answered nat int | Wrote nat
  | Retried string | StreamAborted string | UpstreamError nat string | ObservedFraction rat

record pworld =
  sys :: lsys
  Served :: "nat \<Rightarrow> u64"
  Failed :: "nat \<Rightarrow> u64"
  trace :: "pevent list"

definition note_event :: "pevent \<Rightarrow> pworld \<Rightarrow> pworld" where
  "note_event e w = w\<lparr>trace := trace w @ [e]\<rparr>"

definition on_sys :: "(lsys \<Rightarrow> lsys) \<Rightarrow> pworld \<Rightarrow> pworld" where
  "on_sys f w = w\<lparr>sys := f (sys w)\<rparr>"

section \<open>Classification\<close>

definition isRetryable :: "int \<Rightarrow> upstream_error option \<Rightarrow> bool" where
  "isRetryable status e = (if e \<noteq> None then True else status \<in> {502, 503, 504, 408, 429})"

definition kindOf :: "upstream_error option \<Rightarrow> string" where
  "kindOf e = (case e of None \<Rightarrow> ''status'' | Some Canceled \<Rightarrow> ''client_cancelled'' | Some DeadlineExceeded \<Rightarrow> ''timeout''
     | Some Transport \<Rightarrow> ''transport'')"

definition without :: "nat list \<Rightarrow> nat \<Rightarrow> nat list" where
  "without bs b = filter (\<lambda>x. x \<noteq> b) bs"

record attempt_out =
  status :: int
  err :: "upstream_error option"
  retryable :: bool
  rejected :: bool
  rejectedTokens :: int
  ignored :: bool
  clientGone :: bool

definition countOutcome :: "nat \<Rightarrow> attempt_out \<Rightarrow> pworld \<Rightarrow> pworld" where
  "countOutcome b out w =
     (if clientGone out then note_event (UpstreamError b (kindOf (err out))) w
      else if err out \<noteq> None
      then (note_event (UpstreamError b (kindOf (err out))) w)\<lparr>Failed := (Failed w)(b := Failed w b + 1)\<rparr>
      else w\<lparr>Served := (Served w)(b := Served w b + 1)\<rparr>)"

text \<open>\<^verbatim>\<open>rr.Prefill\<close>, the backend selected by cost routing and its uncached tokens.\<close>

definition prefillCharge :: "(nat \<times> int) option \<Rightarrow> nat \<Rightarrow> nat \<Rightarrow> int" where
  "prefillCharge pre b bodylen =
     (case pre of None \<Rightarrow> 0 | Some (c, tokens) \<Rightarrow> (if c = b then tokens else EstimateTokens (int bodylen)))"

section \<open>The body of a response\<close>

definition maxSniff :: nat where
  "maxSniff = 65536"

record scan_body =
  scanner :: line_scanner
  sawEnd :: bool
  aborted :: "upstream_error option"
  tail_bytes :: "byte list"
  total_bytes :: nat
  armed :: bool

definition appendTail :: "byte list \<Rightarrow> scan_body \<Rightarrow> scan_body" where
  "appendTail p s =
     (let t = tail_bytes s @ p in
      s\<lparr>total_bytes := total_bytes s + length p, tail_bytes := (if length t > maxSniff then drop (length t - maxSniff) t else t)\<rparr>)"

text \<open>\<^verbatim>\<open>onFirstByte\<close>: the first token is there, the lease moves from prefill to decode.\<close>

definition first_token :: "dispatch \<Rightarrow> nat \<Rightarrow> nat \<Rightarrow> nat \<Rightarrow> lsys \<Rightarrow> lsys" where
  "first_token d b i bodylen s =
     StartDecode (EstimateTokens (int bodylen)) i
       (EndPrefill i (upd_backend b (ObserveTTFT (first_byte d) (first_byte d - started d)) s))"

text \<open>A read that returns bytes and an error is two reads here, the second without bytes; the order of effects is
  the same.\<close>

definition read_bytes :: "dispatch \<Rightarrow> nat \<Rightarrow> nat \<Rightarrow> nat \<Rightarrow> byte list \<Rightarrow> scan_body \<Rightarrow> pworld \<Rightarrow> scan_body \<times> pworld" where
  "read_bytes d b i bodylen p s w =
     (if p = [] then (s, w)
      else
        (let w1 = (if armed s then on_sys (first_token d b i bodylen) w else w);
             sc1 = Feed p (scanner s)
         in (appendTail p (s\<lparr>armed := False, scanner := sc1, sawEnd := seen sc1\<rparr>), w1)))"

definition read_error :: "upstream_error \<Rightarrow> scan_body \<Rightarrow> pworld \<Rightarrow> scan_body \<times> pworld" where
  "read_error e s w =
     (if sawEnd s then (s, w)
      else if e = Canceled then (s, note_event (StreamAborted ''client_disconnect'') w)
      else (s\<lparr>aborted := (if aborted s = None then Some e else aborted s)\<rparr>, note_event (StreamAborted ''upstream_error'') w))"

fun copy_body :: "dispatch \<Rightarrow> nat \<Rightarrow> nat \<Rightarrow> nat \<Rightarrow> byte list list \<Rightarrow> scan_body \<Rightarrow> pworld \<Rightarrow> scan_body \<times> pworld" where
  "copy_body d b i bodylen [] s w = (s, w)"
| "copy_body d b i bodylen (p # ps) s w =
     (case read_bytes d b i bodylen p s w of (s1, w1) \<Rightarrow> copy_body d b i bodylen ps s1 w1)"

definition end_copy :: "copy_end \<Rightarrow> scan_body \<Rightarrow> pworld \<Rightarrow> scan_body \<times> pworld" where
  "end_copy e s w =
     (case e of EOF \<Rightarrow> (s, w) | WriteFails \<Rightarrow> (s, w) | ReadFails x \<Rightarrow> read_error x s w
      | IdleTimeout \<Rightarrow> read_error Canceled s (note_event (StreamAborted ''idle_timeout'') w))"

text \<open>What follows the last occurrence of a pattern, if there is one.\<close>

fun after_last :: "byte list \<Rightarrow> byte list \<Rightarrow> byte list option" where
  "after_last pat [] = (if pat = [] then Some [] else None)"
| "after_last pat (c # cs) =
     (case after_last pat cs of Some r \<Rightarrow> Some r
      | None \<Rightarrow> (if prefix pat (c # cs) then Some (drop (length pat) (c # cs)) else None))"

definition usage_span :: "scan_body \<Rightarrow> byte list option" where
  "usage_span s =
     (if tail_bytes s = [] then None
      else
        (case after_last (bytes ''data: '') (tail_bytes s) of
           Some r \<Rightarrow> Some (takeWhile (\<lambda>c. c \<noteq> 10) r)
         | None \<Rightarrow> (if total_bytes s > length (tail_bytes s) then None else Some (tail_bytes s))))"

definition observeUsage :: "scan_body \<Rightarrow> pworld \<Rightarrow> pworld" where
  "observeUsage s w =
     (case usage_span s of None \<Rightarrow> w
      | Some sp \<Rightarrow>
          (case ExtractUsage sp of (u, ok) \<Rightarrow>
             if \<not> ok \<or> sint (PromptTokens u) \<le> 0 then w
             else note_event (ObservedFraction (fdiv (f64 (sint (CachedTokens u))) (f64 (sint (PromptTokens u))))) w))"

section \<open>One attempt\<close>

text \<open>What an attempt is told: whether a refusal is captured, whether the callbacks are set, whether the request
  is served by an \<^verbatim>\<open>http.Server\<close>, the length of the body and the markers of the dialect.\<close>

record serve_env =
  capture :: bool
  has_accepted :: bool
  has_outcome :: bool
  in_server :: bool
  bodylen :: nat
  markers :: "byte list list"

datatype hook = Pass bool | RetryElsewhere | Refused int

definition modifyResponse :: "serve_env \<Rightarrow> bool \<Rightarrow> bool \<Rightarrow> nat \<Rightarrow> reply \<Rightarrow> pworld \<Rightarrow> hook \<times> pworld" where
  "modifyResponse e canRetry committed b r w =
     (if r_status r = 503 \<and> r_refusal r \<noteq> None \<and> capture e then (Refused (the (r_refusal r)), w)
      else
        (let relayed = (r_status r = 503 \<and> r_refusal r \<noteq> None);
             w1 = (if has_outcome e \<and> \<not> relayed then note_event (Answered b (r_status r)) w else w)
         in if canRetry \<and> \<not> committed \<and> \<not> relayed \<and> isRetryable (r_status r) None then (RetryElsewhere, w1)
            else (Pass relayed, if has_accepted e \<and> 200 \<le> r_status r \<and> r_status r < 300 then note_event (Accepted b) w1 else w1)))"

datatype panic = AbortHandler | OtherPanic

datatype attempt_result = Returned attempt_out | Panicked panic

text \<open>\<^verbatim>\<open>ServeHTTP\<close> of the reverse proxy: the outcome, whether bytes reached the client, the new state.\<close>

record proxied =
  p_status :: int
  p_err :: "upstream_error option"
  p_hook :: hook
  p_panics :: bool
  p_committed :: bool

definition new_scan :: "serve_env \<Rightarrow> int \<Rightarrow> scan_body" where
  "new_scan e st = \<lparr>scanner = LineScanner (markers e), sawEnd = False, aborted = None, tail_bytes = [], total_bytes = 0,
     armed = (200 \<le> st \<and> st < 300)\<rparr>"

definition relay_body :: "serve_env \<Rightarrow> dispatch \<Rightarrow> nat \<Rightarrow> nat \<Rightarrow> reply \<Rightarrow> pworld \<Rightarrow> scan_body \<times> pworld" where
  "relay_body e d b i r w =
     (case copy_body d b i (bodylen e) (r_body r) (new_scan e (r_status r)) w of (s1, w1) \<Rightarrow>
      (case end_copy (r_end r) s1 w1 of (s2, w2) \<Rightarrow> (s2, observeUsage s2 w2)))"

definition reverse_proxy :: "serve_env \<Rightarrow> bool \<Rightarrow> bool \<Rightarrow> dispatch \<Rightarrow> nat \<Rightarrow> nat \<Rightarrow> pworld \<Rightarrow> proxied \<times> pworld" where
  "reverse_proxy e canRetry committed0 d b i w0 =
     (let committed = (committed0 \<or> early d); w = (if early d then note_event (Wrote b) w0 else w0) in
      case trip d of
        NoReply x \<Rightarrow> (\<lparr>p_status = 0, p_err = Some x, p_hook = Pass False, p_panics = False, p_committed = committed\<rparr>, w)
      | Reply r \<Rightarrow>
          (case modifyResponse e canRetry committed b r w of
             (Pass relayed, w1) \<Rightarrow>
               (case relay_body e d b i r (note_event (Wrote b) w1) of (s, w2) \<Rightarrow>
                  (\<lparr>p_status = r_status r, p_err = aborted s, p_hook = Pass relayed, p_panics = (in_server e \<and> r_end r \<noteq> EOF),
                    p_committed = True\<rparr>, w2))
           | (h, w1) \<Rightarrow> (\<lparr>p_status = r_status r, p_err = None, p_hook = h, p_panics = False, p_committed = committed\<rparr>, w1)))"

text \<open>What \<^verbatim>\<open>attempt\<close> makes of it.\<close>

definition conclude :: "bool \<Rightarrow> proxied \<Rightarrow> attempt_out" where
  "conclude hungup p =
     (let rej = (case p_hook p of Refused n \<Rightarrow> Some n | _ \<Rightarrow> None);
          rel = (p_hook p = Pass True);
          out = \<lparr>status = p_status p, err = p_err p, retryable = False, rejected = (rej \<noteq> None),
                 rejectedTokens = (case rej of Some n \<Rightarrow> n | None \<Rightarrow> 0), ignored = rel, clientGone = False\<rparr>
      in if p_err p \<noteq> None \<and> hungup then out\<lparr>clientGone := True\<rparr>
         else out\<lparr>retryable := rej = None \<and> \<not> rel \<and> (p_hook p = RetryElsewhere \<or> isRetryable (p_status p) (p_err p)) \<and> \<not> p_committed p\<rparr>)"

definition attempt :: "serve_env \<Rightarrow> bool \<Rightarrow> bool \<Rightarrow> dispatch \<Rightarrow> nat \<Rightarrow> int \<Rightarrow> pworld \<Rightarrow> attempt_result \<times> bool \<times> pworld" where
  "attempt e canRetry committed d b charge w =
     (case Acquire (started d) b (sys w) of (i, s) \<Rightarrow>
        (let w1 = w\<lparr>sys := StartPrefill charge i (StartActive (EstimateTokens (int (bodylen e))) i s)\<rparr> in
         if \<not> url_ok d
         then (Returned \<lparr>status = 0, err = Some Transport, retryable = False, rejected = False, rejectedTokens = 0, ignored = False,
                 clientGone = False\<rparr>, committed, on_sys (Release i) w1)
         else
           (case reverse_proxy e canRetry committed d b i (on_sys (mid d) w1) of (p, w2) \<Rightarrow>
              (if p_panics p then Panicked AbortHandler else Returned (conclude (gone d) p), p_committed p, on_sys (Release i) w2))))"

section \<open>Admission and verdict\<close>

definition record_verdict :: "nat \<Rightarrow> outcome \<Rightarrow> bool \<Rightarrow> ns \<Rightarrow> pworld \<Rightarrow> pworld" where
  "record_verdict b cls token now w =
     note_event (Recorded b cls token) (on_sys (upd_backend b (\<lambda>x. x\<lparr>CB := Record cls token now (CB x)\<rparr>)) w)"

definition verdict_of :: "attempt_result \<Rightarrow> outcome" where
  "verdict_of r =
     (case r of Panicked AbortHandler \<Rightarrow> Ignored | Panicked OtherPanic \<Rightarrow> Failure
      | Returned out \<Rightarrow> (if rejected out \<or> ignored out \<or> clientGone out then Ignored else Classify (status out) (err out \<noteq> None)))"

definition runAttempt :: "nat \<Rightarrow> bool \<Rightarrow> ns \<Rightarrow> attempt_result \<times> bool \<times> pworld \<Rightarrow> attempt_result \<times> bool \<times> pworld" where
  "runAttempt b token now x = (case x of (r, c, w) \<Rightarrow> (r, c, record_verdict b (verdict_of r) token now w))"

definition admit :: "nat \<Rightarrow> ns \<Rightarrow> pworld \<Rightarrow> (bool \<times> bool) \<times> pworld" where
  "admit b now w =
     (case Allow now (CB (backends (sys w) b)) of (cb, permitted, token) \<Rightarrow>
        ((permitted, token),
         (if permitted then note_event (Admitted b token) else id) (on_sys (upd_backend b (\<lambda>x. x\<lparr>CB := cb\<rparr>)) w)))"

section \<open>Serve\<close>

datatype 'e serve_error = Selection 'e | Upstream upstream_error | NoBackend

record 'e result =
  Backend :: "nat option"
  Status :: int
  Attempts :: nat
  Err :: "'e serve_error option"
  Committed :: bool
  PrefillRejected :: bool
  PrefillTokens :: int

definition no_result :: "'e result" where
  "no_result = \<lparr>Backend = None, Status = 0, Attempts = 0, Err = None, Committed = False, PrefillRejected = False, PrefillTokens = 0\<rparr>"

text \<open>One turn: what other requests do before it, the selection over the remaining candidates (an error, nil or
  a backend, and \<^verbatim>\<open>rr.Prefill\<close>), the time of the admission and the dispatch.\<close>

record 'e turn =
  t_env :: "lsys \<Rightarrow> lsys"
  t_pick :: "nat list \<Rightarrow> 'e + nat option"
  t_prefill :: "(nat \<times> int) option"
  t_now :: ns
  t_dispatch :: dispatch

record 'e loop_state =
  remaining :: "nat list"
  tries :: nat
  failovers :: nat
  l_committed :: bool
  res :: "'e result"

datatype 'e serve_end = Answer "'e result" | Aborts panic

datatype 'e loop_next = Stop "'e serve_end" | Again "'e loop_state"

definition finish :: "'e result \<Rightarrow> 'e result" where
  "finish r = (if Backend r = None \<and> Err r = None then r\<lparr>Err := Some NoBackend\<rparr> else r)"

text \<open>The body of the loop after an attempt that returned.\<close>

definition after_attempt :: "nat \<Rightarrow> nat \<Rightarrow> nat \<Rightarrow> attempt_out \<Rightarrow> bool \<Rightarrow> 'e loop_state \<Rightarrow> pworld \<Rightarrow> 'e loop_next \<times> pworld" where
  "after_attempt maxAttempts maxFailovers b out committed st w =
     (let r = (res st)\<lparr>Status := status out, Err := map_option Upstream (err out), Committed := committed\<rparr>;
          st1 = st\<lparr>res := r, l_committed := committed\<rparr>
      in if rejected out
         then (Stop (Answer (r\<lparr>PrefillRejected := True, PrefillTokens := rejectedTokens out\<rparr>)), w)
         else if status out = 429 \<and> failovers st < maxFailovers \<and> retryable out \<and> \<not> committed \<and> length (remaining st) > 1
         then (Again (st1\<lparr>failovers := failovers st + 1, remaining := without (remaining st) b\<rparr>), note_event (Retried ''refused'') w)
         else if \<not> retryable out \<or> committed \<or> tries st + 1 \<ge> maxAttempts then (Stop (Answer r), w)
         else (Again (st1\<lparr>tries := tries st + 1, remaining := without (remaining st) b\<rparr>), note_event (Retried (kindOf (err out))) w))"

definition deliver :: "serve_env \<Rightarrow> nat \<Rightarrow> nat \<Rightarrow> 'e turn \<Rightarrow> nat \<Rightarrow> bool \<Rightarrow> 'e loop_state \<Rightarrow> pworld \<Rightarrow> 'e loop_next \<times> pworld" where
  "deliver e maxAttempts maxFailovers t b token st w =
     (let st1 = st\<lparr>res := (res st)\<lparr>Backend := Some b, Attempts := Attempts (res st) + 1\<rparr>\<rparr>;
          canRetry = ((tries st + 1 < maxAttempts \<or> failovers st < maxFailovers) \<and> length (remaining st) > 1)
      in case runAttempt b token (finished (t_dispatch t))
                (attempt e canRetry (l_committed st) (t_dispatch t) b (prefillCharge (t_prefill t) b (bodylen e)) (note_event (Dispatched b) w)) of
           (Panicked p, c, w2) \<Rightarrow> (Stop (Aborts p), w2)
         | (Returned out, c, w2) \<Rightarrow> after_attempt maxAttempts maxFailovers b out c st1 (countOutcome b out w2))"

definition serve_turn :: "serve_env \<Rightarrow> nat \<Rightarrow> nat \<Rightarrow> 'e turn \<Rightarrow> 'e loop_state \<Rightarrow> pworld \<Rightarrow> 'e loop_next \<times> pworld" where
  "serve_turn e maxAttempts maxFailovers t st w =
     (if tries st \<ge> maxAttempts \<or> remaining st = [] then (Stop (Answer (finish (res st))), w)
      else
        (case t_pick t (remaining st) of
           Inl x \<Rightarrow> (Stop (Answer (finish ((res st)\<lparr>Err := Some (Selection x)\<rparr>))), on_sys (t_env t) w)
         | Inr None \<Rightarrow> (Stop (Answer (finish ((res st)\<lparr>Err := None\<rparr>))), on_sys (t_env t) w)
         | Inr (Some b) \<Rightarrow>
             (case admit b (t_now t) (on_sys (t_env t) w) of ((permitted, token), w1) \<Rightarrow>
                if \<not> permitted then (Again (st\<lparr>remaining := without (remaining st) b\<rparr>), w1)
                else deliver e maxAttempts maxFailovers t b token st w1)))"

text \<open>The loop, with fuel; turn \<open>k\<close> meets \<open>turns k\<close>.\<close>

fun serve_loop :: "nat \<Rightarrow> serve_env \<Rightarrow> nat \<Rightarrow> nat \<Rightarrow> (nat \<Rightarrow> 'e turn) \<Rightarrow> nat \<Rightarrow> 'e loop_state \<Rightarrow> pworld \<Rightarrow> ('e serve_end \<times> pworld) option" where
  "serve_loop 0 e maxAttempts maxFailovers turns k st w = None"
| "serve_loop (Suc fuel) e maxAttempts maxFailovers turns k st w =
     (case serve_turn e maxAttempts maxFailovers (turns k) st w of
        (Stop r, w1) \<Rightarrow> Some (r, w1)
      | (Again st1, w1) \<Rightarrow> serve_loop fuel e maxAttempts maxFailovers turns (Suc k) st1 w1)"

definition Serve :: "nat \<Rightarrow> serve_env \<Rightarrow> nat \<Rightarrow> (nat \<Rightarrow> 'e turn) \<Rightarrow> nat list \<Rightarrow> pworld \<Rightarrow> ('e serve_end \<times> pworld) option" where
  "Serve fuel e maxAttempts turns candidates w =
     serve_loop fuel e maxAttempts (length candidates) turns 0
       \<lparr>remaining = candidates, tries = 0, failovers = 0, l_committed = False, res = no_result\<rparr> w"

text \<open>\<^verbatim>\<open>Relay\<close>: one attempt, without breaker, retry or callbacks.\<close>

definition Relay :: "serve_env \<Rightarrow> dispatch \<Rightarrow> nat \<Rightarrow> pworld \<Rightarrow> 'e serve_end \<times> pworld" where
  "Relay e d b w =
     (case attempt (e\<lparr>has_accepted := False, has_outcome := False\<rparr>) False False d b 0 w of
        (Panicked p, c, w1) \<Rightarrow> (Aborts p, w1)
      | (Returned out, c, w1) \<Rightarrow>
          (Answer \<lparr>Backend = Some b, Status = status out, Attempts = 1, Err = map_option Upstream (err out), Committed = c,
             PrefillRejected = False, PrefillTokens = 0\<rparr>, countOutcome b out w1))"

end
