(* ===== verification/ProxyProps.thy ===== *)
theory ProxyProps
  imports Proxy
begin

text \<open>
  What \<open>Serve\<close> promises: it ends, asks each backend at most once and never again after bytes reached the client,
  answers every admission with one verdict, and leaves the load accounting as it found it. Two properties state
  what becomes of truncated streams and of replies discarded for a retry.
\<close>

section \<open>Reading a trace\<close>

definition dispatched :: "pevent list \<Rightarrow> nat list" where
  "dispatched tr = concat (map (\<lambda>x. case x of Dispatched b \<Rightarrow> [b] | _ \<Rightarrow> []) tr)"

definition gate_event :: "pevent \<Rightarrow> bool" where
  "gate_event x = (case x of Admitted b t \<Rightarrow> True | Recorded b c t \<Rightarrow> True | _ \<Rightarrow> False)"

definition gates :: "pevent list \<Rightarrow> pevent list" where
  "gates tr = filter gate_event tr"

definition wrote :: "pevent list \<Rightarrow> bool" where
  "wrote tr \<longleftrightarrow> (\<exists>b. Wrote b \<in> set tr)"

definition refusals :: "pevent list \<Rightarrow> nat" where
  "refusals tr = length (filter (\<lambda>x. x = Retried ''refused'') tr)"

text \<open>Events of an attempt itself.\<close>

definition inner :: "pevent \<Rightarrow> bool" where
  "inner x = (case x of Admitted b t \<Rightarrow> False | Recorded b c t \<Rightarrow> False | Dispatched b \<Rightarrow> False | Retried l \<Rightarrow> False | _ \<Rightarrow> True)"

named_theorems trace_simps

lemma dispatched_append [trace_simps]: "dispatched (xs @ ys) = dispatched xs @ dispatched ys"
  "dispatched [] = []" "dispatched (x # xs) = (case x of Dispatched b \<Rightarrow> [b] | _ \<Rightarrow> []) @ dispatched xs"
  by (simp_all add: dispatched_def)

lemma gates_append [trace_simps]: "gates (xs @ ys) = gates xs @ gates ys" "gates [] = []"
  "gates (x # xs) = (if gate_event x then x # gates xs else gates xs)"
  by (simp_all add: gates_def)

lemma wrote_append [trace_simps]: "wrote (xs @ ys) \<longleftrightarrow> wrote xs \<or> wrote ys" "\<not> wrote []"
  "wrote (x # xs) \<longleftrightarrow> (\<exists>b. x = Wrote b) \<or> wrote xs"
  by (auto simp: wrote_def)

lemma refusals_append [trace_simps]: "refusals (xs @ ys) = refusals xs + refusals ys" "refusals [] = 0"
  "refusals (x # xs) = of_bool (x = Retried ''refused'') + refusals xs"
  by (simp_all add: refusals_def)

lemma inner_quiet [trace_simps]:
  assumes "list_all inner tr"
  shows "dispatched tr = []" "gates tr = []" "refusals tr = 0"
  using assms by (induction tr) (auto simp: trace_simps inner_def gate_event_def split: pevent.splits)

section \<open>The trace of an attempt\<close>

text \<open>\<open>adds w w' c\<close>: only events of the attempt are added, bytes were written exactly if \<open>c\<close>, no request was counted.\<close>

definition adds :: "pworld \<Rightarrow> pworld \<Rightarrow> bool \<Rightarrow> bool" where
  "adds w w' c \<longleftrightarrow> (\<exists>tr. trace w' = trace w @ tr \<and> list_all inner tr \<and> wrote tr = c) \<and> Served w' = Served w \<and> Failed w' = Failed w"

lemma adds_refl: "trace w' = trace w \<Longrightarrow> Served w' = Served w \<Longrightarrow> Failed w' = Failed w \<Longrightarrow> adds w w' False"
  by (auto simp: adds_def trace_simps)

lemma adds_trans: "adds w w1 c1 \<Longrightarrow> adds w1 w2 c2 \<Longrightarrow> adds w w2 (c1 \<or> c2)"
proof -
  assume "adds w w1 c1" "adds w1 w2 c2"
  then obtain xs ys where "trace w1 = trace w @ xs" "list_all inner xs" "wrote xs = c1" "trace w2 = trace w1 @ ys" "list_all inner ys" "wrote ys = c2"
    "Served w2 = Served w" "Failed w2 = Failed w" by (auto simp: adds_def)
  then show ?thesis unfolding adds_def by (intro conjI exI [of _ "xs @ ys"]) (simp_all add: trace_simps)
qed

lemma adds_note: "inner x \<Longrightarrow> adds w (note_event x w) (\<exists>b. x = Wrote b)"
  by (auto simp: adds_def note_event_def trace_simps)

lemma adds_on_sys: "adds w (on_sys f w) False"
  by (rule adds_refl) (simp_all add: on_sys_def)

lemma inner_simps [simp]:
  "inner (Accepted b)" "inner (Answered b s)" "inner (Wrote b)" "inner (StreamAborted l)" "inner (UpstreamError b l)" "inner (ObservedFraction q)"
  by (simp_all add: inner_def)

lemma read_bytes_adds: "read_bytes d b i n p s w = (s', w') \<Longrightarrow> adds w w' False"
  by (auto simp: read_bytes_def Let_def adds_on_sys intro: adds_refl split: if_splits)

lemma copy_body_adds: "copy_body d b i n ps s w = (s', w') \<Longrightarrow> adds w w' False"
proof (induction ps arbitrary: s w)
  case (Cons p ps)
  obtain s1 w1 where r: "read_bytes d b i n p s w = (s1, w1)" by fastforce
  then show ?case using adds_trans [OF read_bytes_adds [OF r] Cons.IH [of s1 w1]] Cons.prems by simp
qed (simp add: adds_refl)

lemma read_error_adds: "read_error e s w = (s', w') \<Longrightarrow> adds w w' False"
  using adds_note [of "StreamAborted ''client_disconnect''" w] adds_note [of "StreamAborted ''upstream_error''" w]
  by (auto simp: read_error_def adds_refl split: if_splits)

lemma end_copy_adds: "end_copy e s w = (s', w') \<Longrightarrow> adds w w' False"
  using adds_trans [OF adds_note [of "StreamAborted ''idle_timeout''" w] read_error_adds [of Canceled s _ s' w']]
  by (auto simp: end_copy_def adds_refl read_error_adds split: copy_end.splits)

lemma observeUsage_adds: "adds w (observeUsage s w) False"
  using adds_note [of "ObservedFraction q" w for q]
  by (auto simp: observeUsage_def adds_refl split: option.splits prod.splits)

lemma relay_body_adds: "relay_body e d b i r w = (s, w') \<Longrightarrow> adds w w' False"
proof -
  assume a: "relay_body e d b i r w = (s, w')"
  obtain s1 w1 where c: "copy_body d b i (bodylen e) (r_body r) (new_scan e (r_status r)) w = (s1, w1)" by fastforce
  obtain s2 w2 where f: "end_copy (r_end r) s1 w1 = (s2, w2)" by fastforce
  have "w' = observeUsage s2 w2" using a by (auto simp: relay_body_def c f)
  then show ?thesis using adds_trans [OF adds_trans [OF copy_body_adds [OF c] end_copy_adds [OF f]] observeUsage_adds] by simp
qed

lemma modifyResponse_adds: "modifyResponse e cr c b r w = (h, w') \<Longrightarrow> adds w w' False"
proof -
  assume a: "modifyResponse e cr c b r w = (h, w')"
  define w1 where "w1 = (if has_outcome e \<and> \<not> (r_status r = 503 \<and> r_refusal r \<noteq> None) then note_event (Answered b (r_status r)) w else w)"
  have "adds w w1 False" using adds_note [of "Answered b (r_status r)" w] by (auto simp: w1_def adds_refl)
  moreover have "w' = w \<or> w' = w1 \<or> w' = note_event (Accepted b) w1"
    using a unfolding modifyResponse_def Let_def w1_def [symmetric] by (auto split: if_splits)
  moreover have "adds w1 (note_event (Accepted b) w1) False" using adds_note [of "Accepted b" w1] by simp
  ultimately show ?thesis using adds_trans [of w w1 False "note_event (Accepted b) w1" False] adds_refl [of w w] by auto
qed

lemma reverse_proxy_adds: "reverse_proxy e cr c d b i w = (p, w') \<Longrightarrow> \<exists>x. adds w w' x \<and> p_committed p = (c \<or> x)"
proof -
  assume a: "reverse_proxy e cr c d b i w = (p, w')"
  define w1 where "w1 = (if early d then note_event (Wrote b) w else w)"
  have w1: "adds w w1 (early d)" using adds_note [of "Wrote b" w] by (auto simp: w1_def adds_refl)
  note R = a [unfolded reverse_proxy_def Let_def w1_def [symmetric]]
  show ?thesis
  proof (cases "trip d")
    case (NoReply x)
    then show ?thesis using w1 R by auto
  next
    case (Reply r)
    obtain h w2 where m: "modifyResponse e cr (c \<or> early d) b r w1 = (h, w2)" by fastforce
    have w2: "adds w w2 (early d)" using adds_trans [OF w1 modifyResponse_adds [OF m]] by simp
    show ?thesis
    proof (cases "\<exists>rel. h = Pass rel")
      case True
      then obtain rel where h: "h = Pass rel" ..
      obtain s w3 where b: "relay_body e d b i r (note_event (Wrote b) w2) = (s, w3)" by fastforce
      have "adds w2 w3 True" using adds_trans [OF adds_note [of "Wrote b" w2] relay_body_adds [OF b]] by simp
      then have "adds w w3 True" using adds_trans [OF w2] by fastforce
      then show ?thesis using R h b m by (auto simp: Reply)
    next
      case False
      then show ?thesis using R w2 m by (cases h) (auto simp: Reply)
    qed
  qed
qed

lemma attempt_adds: "attempt e cr c d b ch w = (r, c', w') \<Longrightarrow> \<exists>x. adds w w' x \<and> c' = (c \<or> x)"
proof -
  assume a: "attempt e cr c d b ch w = (r, c', w')"
  obtain i s where q: "Acquire (started d) b (sys w) = (i, s)" by fastforce
  define w1 where "w1 = w\<lparr>sys := StartPrefill ch i (StartActive (EstimateTokens (int (bodylen e))) i s)\<rparr>"
  have w1: "adds w w1 False" by (rule adds_refl) (simp_all add: w1_def)
  note R = a [unfolded attempt_def q prod.case Let_def w1_def [symmetric]]
  show ?thesis
  proof (cases "url_ok d")
    case False
    then show ?thesis using R adds_trans [OF w1 adds_on_sys] by auto
  next
    case True
    obtain p w2 where p: "reverse_proxy e cr c d b i (on_sys (mid d) w1) = (p, w2)" by fastforce
    obtain x where x: "adds (on_sys (mid d) w1) w2 x" "p_committed p = (c \<or> x)" using reverse_proxy_adds [OF p] by blast
    have "adds w (on_sys (Release i) w2) x"
      using adds_trans [OF adds_trans [OF adds_trans [OF w1 adds_on_sys] x(1)] adds_on_sys] by simp
    then show ?thesis using R x(2) True p by auto
  qed
qed

section \<open>The trace of a turn\<close>

lemma note_trace [simp]: "trace (note_event x w) = trace w @ [x]" "trace (on_sys f w) = trace w"
  by (simp_all add: note_event_def on_sys_def)

lemma countOutcome_trace: "\<exists>tr. trace (countOutcome b out w) = trace w @ tr \<and> list_all inner tr \<and> \<not> wrote tr"
  by (auto simp: countOutcome_def wrote_def note_event_def)

text \<open>What a turn that dispatches adds: the admission, the attempt, the verdict.\<close>

definition round_of :: "pevent list \<Rightarrow> nat \<Rightarrow> bool \<Rightarrow> bool" where
  "round_of tr b c \<longleftrightarrow> (\<exists>t cls xs ys. tr = [Admitted b t, Dispatched b] @ xs @ [Recorded b cls t] @ ys \<and>
     list_all inner xs \<and> wrote xs = c \<and> \<not> wrote ys \<and> list_all (\<lambda>y. inner y \<or> (\<exists>l. y = Retried l)) ys)"

lemma after_attempt_cases:
  assumes "after_attempt m f b out c st w = (n, w')"
  shows "(\<exists>r. n = Stop (Answer r) \<and> w' = w \<and> Committed r = c \<and> Attempts r = Attempts (res st)) \<or>
    (\<exists>l st1. n = Again st1 \<and> w' = note_event (Retried l) w \<and> \<not> c \<and> \<not> l_committed st1 \<and> \<not> Committed (res st1) \<and>
       Attempts (res st1) = Attempts (res st) \<and> remaining st1 = without (remaining st) b \<and>
       (if l = ''refused'' then tries st1 = tries st \<and> failovers st1 = failovers st + 1 \<and> failovers st < f
        else tries st1 = tries st + 1 \<and> tries st + 1 < m \<and> failovers st1 = failovers st))"
proof -
  have k: "kindOf x \<noteq> ''refused''" for x by (auto simp: kindOf_def split: option.splits upstream_error.splits)
  consider (rej) "rejected out" | (ref) "\<not> rejected out" "status out = 429 \<and> failovers st < f \<and> retryable out \<and> \<not> c \<and> length (remaining st) > 1"
    | (stop) "\<not> rejected out" "\<not> (status out = 429 \<and> failovers st < f \<and> retryable out \<and> \<not> c \<and> length (remaining st) > 1)" "\<not> retryable out \<or> c \<or> tries st + 1 \<ge> m"
    | (again) "\<not> rejected out" "\<not> (status out = 429 \<and> failovers st < f \<and> retryable out \<and> \<not> c \<and> length (remaining st) > 1)" "\<not> (\<not> retryable out \<or> c \<or> tries st + 1 \<ge> m)"
    by blast
  then show ?thesis
  proof cases
    case rej
    then show ?thesis using assms by (auto simp: after_attempt_def Let_def)
  next
    case ref
    then have "n = Again (st\<lparr>res := (res st)\<lparr>Status := status out, Err := map_option Upstream (err out), Committed := c\<rparr>, l_committed := c,
        failovers := failovers st + 1, remaining := without (remaining st) b\<rparr>)" "w' = note_event (Retried ''refused'') w"
      using assms by (auto simp: after_attempt_def Let_def)
    then show ?thesis using ref by auto
  next
    case stop
    then show ?thesis using assms by (auto simp: after_attempt_def Let_def)
  next
    case again
    then have "n = Again (st\<lparr>res := (res st)\<lparr>Status := status out, Err := map_option Upstream (err out), Committed := c\<rparr>, l_committed := c,
        tries := tries st + 1, remaining := without (remaining st) b\<rparr>)" "w' = note_event (Retried (kindOf (err out))) w"
      using assms by (auto simp: after_attempt_def Let_def)
    then show ?thesis using again k [of "err out"] by auto
  qed
qed

definition more_steps :: "nat \<Rightarrow> nat \<Rightarrow> nat \<Rightarrow> 'e loop_state \<Rightarrow> 'e loop_state \<Rightarrow> pevent list \<Rightarrow> bool" where
  "more_steps m f b st st1 tr \<longleftrightarrow> \<not> l_committed st1 \<and> \<not> Committed (res st1) \<and> remaining st1 = without (remaining st) b \<and>
     Attempts (res st1) = Attempts (res st) + length (dispatched tr) \<and>
     tries st1 + refusals tr = tries st + length (dispatched tr) \<and> failovers st1 = failovers st + refusals tr \<and>
     (tries st < m \<longrightarrow> tries st1 < m) \<and> (failovers st \<le> f \<longrightarrow> failovers st1 \<le> f)"

lemma round_of_gates: "round_of tr b c \<Longrightarrow> \<exists>t cls. gates tr = [Admitted b t, Recorded b cls t] \<and> dispatched tr = [b] \<and> wrote tr = c"
proof -
  assume "round_of tr b c"
  then obtain t cls xs ys where tr: "tr = [Admitted b t, Dispatched b] @ xs @ [Recorded b cls t] @ ys" "list_all inner xs" "wrote xs = c" "\<not> wrote ys"
    "list_all (\<lambda>y. inner y \<or> (\<exists>l. y = Retried l)) ys" by (auto simp: round_of_def)
  have "gates ys = [] \<and> dispatched ys = []" using tr(5) by (induction ys) (auto simp: trace_simps inner_def gate_event_def split: pevent.splits)
  then have "gates tr = [Admitted b t, Recorded b cls t]" "dispatched tr = [b]" "wrote tr = c"
    using tr(2-4) by (simp_all add: tr(1) trace_simps gate_event_def)
  then show ?thesis by blast
qed

lemma deliver_trace:
  assumes "deliver e m f t b token st w = (n, w')" and "\<not> l_committed st"
  shows "\<exists>tr c. trace w' = trace w @ tr \<and> round_of (Admitted b token # tr) b c \<and> (\<forall>st1. n = Again st1 \<longrightarrow> more_steps m f b st st1 tr \<and> \<not> c) \<and>
    (\<forall>r. n = Stop (Answer r) \<longrightarrow> Committed r = c \<and> Attempts r = Attempts (res st) + 1) \<and> refusals tr \<le> 1 \<and> (\<forall>r. n = Stop r \<longrightarrow> refusals tr = 0)"
proof -
  define canRetry where "canRetry = ((tries st + 1 < m \<or> failovers st < f) \<and> length (remaining st) > 1)"
  define st0 where "st0 = st\<lparr>res := (res st)\<lparr>Backend := Some b, Attempts := Attempts (res st) + 1\<rparr>\<rparr>"
  obtain r c w1 where a: "attempt e canRetry (l_committed st) (t_dispatch t) b (prefillCharge (t_prefill t) b (bodylen e)) (note_event (Dispatched b) w) = (r, c, w1)"
    by (metis prod_cases3)
  obtain xs where xs: "trace w1 = trace w @ [Dispatched b] @ xs" "list_all inner xs" "wrote xs = c"
    using attempt_adds [OF a] assms(2) by (auto simp: adds_def)
  define w2 where "w2 = record_verdict b (verdict_of r) token (finished (t_dispatch t)) w1"
  have w2: "trace w2 = trace w @ [Dispatched b] @ xs @ [Recorded b (verdict_of r) token]" using xs(1) by (simp add: w2_def record_verdict_def)
  have q: "refusals xs = 0" "dispatched xs = []" using xs(2) by (simp_all add: trace_simps)
  note D = assms(1) [unfolded deliver_def Let_def canRetry_def [symmetric] st0_def [symmetric] a runAttempt_def prod.case w2_def [symmetric]]
  show ?thesis
  proof (cases r)
    case (Panicked p)
    then have "n = Stop (Aborts p)" "w' = w2" using D by auto
    moreover have "round_of (Admitted b token # [Dispatched b] @ xs @ [Recorded b (verdict_of r) token]) b c"
      unfolding round_of_def using xs by (intro exI [of _ token] exI [of _ "verdict_of r"] exI [of _ xs] exI [of _ "[]"]) (simp add: trace_simps)
    ultimately show ?thesis using w2 q
      by (intro exI [of _ "[Dispatched b] @ xs @ [Recorded b (verdict_of r) token]"] exI [of _ c]) (simp add: trace_simps)
  next
    case (Returned out)
    then have A: "after_attempt m f b out c st0 (countOutcome b out w2) = (n, w')" using D by simp
    obtain us where us: "trace (countOutcome b out w2) = trace w2 @ us" "list_all inner us" "\<not> wrote us"
      using countOutcome_trace [of b out w2] by blast
    have qu: "refusals us = 0" "dispatched us = []" using us(2) by (simp_all add: trace_simps)
    have usok: "list_all (\<lambda>y. inner y \<or> (\<exists>l. y = Retried l)) us" using us(2) by (simp add: list_all_iff)
    let ?tr = "[Dispatched b] @ xs @ [Recorded b (verdict_of r) token] @ us"
    have R: "round_of (Admitted b token # ?tr @ vs) b c" if "vs = [] \<or> (\<exists>l. vs = [Retried l])" for vs
      unfolding round_of_def using xs us usok that
      by (intro exI [of _ token] exI [of _ "verdict_of r"] exI [of _ xs] exI [of _ "us @ vs"]) (auto simp: trace_simps)
    from after_attempt_cases [OF A] show ?thesis
    proof (elim disjE exE conjE)
      fix r' assume s: "n = Stop (Answer r')" "w' = countOutcome b out w2" "Committed r' = c" "Attempts r' = Attempts (res st0)"
      then show ?thesis using us(1) w2 R [of "[]"] q qu
        by (intro exI [of _ ?tr] exI [of _ c]) (simp add: trace_simps st0_def)
    next
      fix l st1
      assume s: "n = Again st1" "w' = note_event (Retried l) (countOutcome b out w2)" "\<not> c" "\<not> l_committed st1" "\<not> Committed (res st1)"
        "Attempts (res st1) = Attempts (res st0)" "remaining st1 = without (remaining st0) b"
        "if l = ''refused'' then tries st1 = tries st0 \<and> failovers st1 = failovers st0 + 1 \<and> failovers st0 < f
         else tries st1 = tries st0 + 1 \<and> tries st0 + 1 < m \<and> failovers st1 = failovers st0"
      let ?tr' = "?tr @ [Retried l]"
      have d: "dispatched ?tr' = [b]" and rf: "refusals ?tr' = of_bool (l = ''refused'')" using q qu by (simp_all add: trace_simps)
      have "more_steps m f b st st1 ?tr'" unfolding more_steps_def d rf using s(4-8) by (auto simp: st0_def split: if_splits)
      moreover have "round_of (Admitted b token # ?tr') b c" using R [of "[Retried l]"] by simp
      moreover have "trace w' = trace w @ ?tr'" using s(2) us(1) w2 by simp
      moreover have "refusals ?tr' \<le> 1" unfolding rf by simp
      ultimately show ?thesis using s(1,3) by (intro exI [of _ ?tr'] exI [of _ c]) simp
    qed
  qed
qed

section \<open>The trace of the loop\<close>

text \<open>No backend is asked after bytes were written.\<close>

fun silent_after :: "pevent list \<Rightarrow> bool" where
  "silent_after [] = True"
| "silent_after (x # xs) = ((case x of Wrote b \<Rightarrow> dispatched xs = [] | _ \<Rightarrow> True) \<and> silent_after xs)"

lemma silent_after_split: "silent_after tr \<Longrightarrow> tr = xs @ Wrote b # ys \<Longrightarrow> dispatched ys = []"
  by (induction xs arbitrary: tr) auto

lemma silent_after_append: "\<not> wrote xs \<Longrightarrow> silent_after (xs @ ys) = silent_after ys"
  by (induction xs) (auto simp: trace_simps split: pevent.splits)

lemma silent_undispatched: "dispatched ys = [] \<Longrightarrow> silent_after ys"
  by (induction ys) (auto simp: trace_simps split: pevent.splits)

lemma round_silent: "round_of tr b c \<Longrightarrow> silent_after tr"
proof -
  assume "round_of tr b c"
  then obtain t cls xs ys where tr: "tr = [Admitted b t, Dispatched b] @ xs @ [Recorded b cls t] @ ys" "list_all inner xs"
    "list_all (\<lambda>y. inner y \<or> (\<exists>l. y = Retried l)) ys" by (auto simp: round_of_def)
  have "dispatched ys = []" using tr(3) by (induction ys) (auto simp: trace_simps inner_def split: pevent.splits)
  then have "dispatched (xs @ [Recorded b cls t] @ ys) = []" using tr(2) by (simp add: trace_simps)
  then show ?thesis using silent_undispatched by (simp add: tr(1))
qed

definition verdict_pairs :: "(nat \<times> bool \<times> outcome) list \<Rightarrow> pevent list" where
  "verdict_pairs ps = concat (map (\<lambda>(b, t, c). [Admitted b t, Recorded b c t]) ps)"

definition loop_good :: "nat \<Rightarrow> nat \<Rightarrow> 'e loop_state \<Rightarrow> 'e serve_end \<Rightarrow> pevent list \<Rightarrow> bool" where
  "loop_good m f st r tr \<longleftrightarrow> distinct (dispatched tr) \<and> set (dispatched tr) \<subseteq> set (remaining st) \<and>
     (\<exists>ps. gates tr = verdict_pairs ps \<and> map fst ps = dispatched tr) \<and> silent_after tr \<and>
     length (dispatched tr) + tries st \<le> m + refusals tr \<and> refusals tr + failovers st \<le> f \<and>
     (\<forall>a. r = Answer a \<longrightarrow> Committed a = wrote tr \<and> Attempts a = Attempts (res st) + length (dispatched tr))"

definition picks_members :: "(nat \<Rightarrow> 'e turn) \<Rightarrow> bool" where
  "picks_members turns \<longleftrightarrow> (\<forall>k xs b. t_pick (turns k) xs = Inr (Some b) \<longrightarrow> b \<in> set xs)"

lemma finish_fields [simp]: "Committed (finish r) = Committed r" "Attempts (finish r) = Attempts r"
  by (simp_all add: finish_def)

lemma turn_cases:
  assumes "serve_turn e m f t st w = (n, w')"
  shows "(\<exists>r. n = Stop (Answer r) \<and> trace w' = trace w \<and> Committed r = Committed (res st) \<and> Attempts r = Attempts (res st)) \<or>
    (\<exists>b token w1. tries st < m \<and> t_pick t (remaining st) = Inr (Some b) \<and> trace w1 = trace w @ [Admitted b token] \<and>
        deliver e m f t b token st w1 = (n, w')) \<or>
    (\<exists>b. t_pick t (remaining st) = Inr (Some b) \<and> n = Again (st\<lparr>remaining := without (remaining st) b\<rparr>) \<and> trace w' = trace w)"
proof (cases "tries st \<ge> m \<or> remaining st = []")
  case True
  then show ?thesis using assms by (auto simp: serve_turn_def)
next
  case False
  note F = False
  show ?thesis
  proof (cases "t_pick t (remaining st)")
    case (Inl x)
    then show ?thesis using F assms by (auto simp: serve_turn_def)
  next
    case (Inr o')
    show ?thesis
    proof (cases o')
      case None
      then show ?thesis using F Inr assms by (auto simp: serve_turn_def)
    next
      case (Some b)
      obtain permitted token w1 where a: "admit b (t_now t) (on_sys (t_env t) w) = ((permitted, token), w1)" by (metis prod.collapse)
      have w1: "trace w1 = trace w @ (if permitted then [Admitted b token] else [])"
        using a by (auto simp: admit_def split: prod.splits)
      show ?thesis
      proof (cases permitted)
        case True
        then have "deliver e m f t b token st w1 = (n, w')" using F Inr Some a assms by (simp add: serve_turn_def)
        then show ?thesis using F Inr Some True w1 by auto
      next
        case False
        then show ?thesis using F Inr Some w1 a assms by (auto simp: serve_turn_def)
      qed
    qed
  qed
qed

lemma not_member_without [simp]: "set (without xs b) = set xs - {b}"
  by (auto simp: without_def)

lemma verdict_pairs_simps [simp]: "verdict_pairs [] = []" "verdict_pairs ((b, t, c) # ps) = [Admitted b t, Recorded b c t] @ verdict_pairs ps"
  by (simp_all add: verdict_pairs_def)

lemma loop_trace:
  assumes "serve_loop fuel e m f turns k st w = Some (r, w')" and "picks_members turns"
    and "\<not> l_committed st" and "\<not> Committed (res st)" and "failovers st \<le> f" and "tries st \<le> m"
  shows "\<exists>tr. trace w' = trace w @ tr \<and> loop_good m f st r tr"
  using assms(1,3-6)
proof (induction fuel arbitrary: k st w)
  case (Suc fuel)
  obtain n w1 where t: "serve_turn e m f (turns k) st w = (n, w1)" by fastforce
  have pick: "t_pick (turns k) xs = Inr (Some b) \<Longrightarrow> b \<in> set xs" for xs b using assms(2) by (auto simp: picks_members_def)
  from turn_cases [OF t] show ?case
  proof (elim disjE exE conjE)
    fix r' assume s: "n = Stop (Answer r')" "trace w1 = trace w" "Committed r' = Committed (res st)" "Attempts r' = Attempts (res st)"
    then have "r = Answer r'" "w' = w1" using Suc.prems(1) t by simp_all
    then show ?thesis using s Suc.prems(3-5) by (intro exI [of _ "[]"]) (auto simp: loop_good_def trace_simps intro!: exI [of _ "[]"])
  next
    fix b token w0
    assume s: "tries st < m" "t_pick (turns k) (remaining st) = Inr (Some b)" "trace w0 = trace w @ [Admitted b token]" "deliver e m f (turns k) b token st w0 = (n, w1)"
    have b: "b \<in> set (remaining st)" using pick s(2) .
    obtain tr0 c where D: "trace w1 = trace w0 @ tr0" "round_of (Admitted b token # tr0) b c" "\<forall>st1. n = Again st1 \<longrightarrow> more_steps m f b st st1 tr0 \<and> \<not> c"
      "\<forall>r. n = Stop (Answer r) \<longrightarrow> Committed r = c \<and> Attempts r = Attempts (res st) + 1" "\<forall>r. n = Stop r \<longrightarrow> refusals tr0 = 0"
      using deliver_trace [OF s(4) Suc.prems(2)] by blast
    define tr1 where "tr1 = Admitted b token # tr0"
    have w1: "trace w1 = trace w @ tr1" using D(1) s(3) by (simp add: tr1_def)
    have rf: "refusals tr1 = refusals tr0" "dispatched tr1 = dispatched tr0" by (simp_all add: tr1_def trace_simps)
    obtain t' cls where g: "gates tr1 = [Admitted b t', Recorded b cls t']" "dispatched tr1 = [b]" "wrote tr1 = c"
      using round_of_gates [OF D(2) [folded tr1_def]] by blast
    note sil = round_silent [OF D(2) [folded tr1_def]]
    show ?thesis
    proof (cases n)
      case (Stop r')
      then have "r = r'" "w' = w1" using Suc.prems(1) t by simp_all
      moreover have "loop_good m f st r' tr1"
        unfolding loop_good_def using D(4,5) Stop s(1) Suc.prems(4) b g sil rf
        by (auto intro!: exI [of _ "[(b, t', cls)]"])
      ultimately show ?thesis using w1 by blast
    next
      case (Again st1)
      have ms: "more_steps m f b st st1 tr0" and c: "\<not> c" using D(3) Again by blast+
      have ms': "\<not> l_committed st1" "\<not> Committed (res st1)" "remaining st1 = without (remaining st) b" "Attempts (res st1) = Attempts (res st) + 1"
        "tries st1 + refusals tr1 = tries st + 1" "failovers st1 = failovers st + refusals tr1" "tries st1 < m" "failovers st1 \<le> f"
        using ms s(1) Suc.prems(4) g(2) rf by (simp_all add: more_steps_def)
      have "serve_loop fuel e m f turns (Suc k) st1 w1 = Some (r, w')" using Suc.prems(1) t Again by simp
      from Suc.IH [OF this ms'(1,2,8) less_imp_le [OF ms'(7)]] obtain tr2 where
        tr2: "trace w' = trace w1 @ tr2" "loop_good m f st1 r tr2" by blast
      obtain ps where ps: "gates tr2 = verdict_pairs ps" "map fst ps = dispatched tr2" using tr2(2) by (auto simp: loop_good_def)
      have nw: "\<not> wrote tr1" using g(3) c by simp
      have "loop_good m f st r (tr1 @ tr2)"
        unfolding loop_good_def
      proof (intro conjI allI impI)
        show "distinct (dispatched (tr1 @ tr2))" "set (dispatched (tr1 @ tr2)) \<subseteq> set (remaining st)"
          using tr2(2) b g(2) ms'(3) by (auto simp: loop_good_def trace_simps)
        show "\<exists>ps. gates (tr1 @ tr2) = verdict_pairs ps \<and> map fst ps = dispatched (tr1 @ tr2)"
          using ps g by (intro exI [of _ "(b, t', cls) # ps"]) (simp add: trace_simps)
        show "silent_after (tr1 @ tr2)" using silent_after_append [OF nw] tr2(2) by (simp add: loop_good_def)
        show "length (dispatched (tr1 @ tr2)) + tries st \<le> m + refusals (tr1 @ tr2)"
          using tr2(2) g(2) ms'(5) by (simp add: loop_good_def trace_simps)
        show "refusals (tr1 @ tr2) + failovers st \<le> f" using tr2(2) ms'(6) by (simp add: loop_good_def trace_simps)
        fix a assume "r = Answer a"
        then show "Committed a = wrote (tr1 @ tr2)" "Attempts a = Attempts (res st) + length (dispatched (tr1 @ tr2))"
          using tr2(2) nw g(2) ms'(4) by (auto simp: loop_good_def trace_simps)
      qed
      then show ?thesis using tr2(1) w1 by (intro exI [of _ "tr1 @ tr2"]) simp
    qed
  next
    fix b
    assume s: "t_pick (turns k) (remaining st) = Inr (Some b)" "n = Again (st\<lparr>remaining := without (remaining st) b\<rparr>)" "trace w1 = trace w"
    have "serve_loop fuel e m f turns (Suc k) (st\<lparr>remaining := without (remaining st) b\<rparr>) w1 = Some (r, w')" using Suc.prems(1) t s(2) by simp
    from Suc.IH [OF this] Suc.prems obtain tr where "trace w' = trace w1 @ tr" "loop_good m f (st\<lparr>remaining := without (remaining st) b\<rparr>) r tr" by auto
    then show ?thesis using s(3) by (intro exI [of _ tr]) (auto simp: loop_good_def)
  qed
qed simp

lemma turn_shrinks:
  assumes "serve_turn e m f t st w = (Again st1, w')" and "\<not> l_committed st" and "\<And>xs b. t_pick t xs = Inr (Some b) \<Longrightarrow> b \<in> set xs"
  shows "length (remaining st1) < length (remaining st) \<and> \<not> l_committed st1"
proof -
  have sh: "length (without xs b) < length xs" if "b \<in> set xs" for xs :: "nat list" and b
    unfolding without_def by (rule length_filter_less [OF that]) simp
  from turn_cases [OF assms(1)] show ?thesis
  proof (elim disjE exE conjE)
    fix b token w1 assume s: "t_pick t (remaining st) = Inr (Some b)" "deliver e m f t b token st w1 = (Again st1, w')"
    from deliver_trace [OF s(2) assms(2)] obtain tr where "more_steps m f b st st1 tr" by blast
    then show ?thesis using sh [OF assms(3) [OF s(1)]] by (simp add: more_steps_def)
  next
    fix b assume s: "t_pick t (remaining st) = Inr (Some b)" "Again st1 = Again (st\<lparr>remaining := without (remaining st) b\<rparr>)"
    then show ?thesis using sh [OF assms(3) [OF s(1)]] assms(2) by simp
  qed simp
qed

lemma loop_ends:
  "picks_members turns \<Longrightarrow> \<not> l_committed st \<Longrightarrow> length (remaining st) < fuel \<Longrightarrow> \<exists>x. serve_loop fuel e m f turns k st w = Some x"
proof (induction fuel arbitrary: k st w)
  case (Suc fuel)
  obtain n w1 where t: "serve_turn e m f (turns k) st w = (n, w1)" by fastforce
  show ?case
  proof (cases n)
    case (Again st1)
    have "length (remaining st1) < length (remaining st)" "\<not> l_committed st1"
      using turn_shrinks [OF t [unfolded Again] Suc.prems(2)] Suc.prems(1) by (auto simp: picks_members_def)
    then show ?thesis using Suc.IH [of st1 "Suc k" w1] Suc.prems t Again by simp
  qed (use t in auto)
qed simp

section \<open>Properties of the walk\<close>

text \<open>A concrete request: a dialect with an end marker, a reply of one chunk and a selection that takes the first candidate.\<close>

definition env0 :: serve_env where
  "env0 = \<lparr>capture = True, has_accepted = True, has_outcome = True, in_server = True, bodylen = 40, markers = [[68, 79, 78, 69]]\<rparr>"

definition reply0 :: reply where
  "reply0 = \<lparr>r_status = 200, r_refusal = None, r_body = [[68, 79, 78, 69, 10]], r_end = EOF\<rparr>"

definition dispatch0 :: "round_trip \<Rightarrow> dispatch" where
  "dispatch0 x = \<lparr>url_ok = True, early = False, trip = x, gone = False, started = 1, first_byte = 2, finished = 3, mid = (\<lambda>s. s)\<rparr>"

definition turn0 :: "round_trip \<Rightarrow> 'e turn" where
  "turn0 x = \<lparr>t_env = (\<lambda>s. s), t_pick = (\<lambda>xs. Inr (if xs = [] then None else Some (hd xs))), t_prefill = None, t_now = 0,
     t_dispatch = dispatch0 x\<rparr>"

definition world0 :: pworld where
  "world0 = \<lparr>sys = linit fleet0, Served = (\<lambda>_. 0), Failed = (\<lambda>_. 0), trace = []\<rparr>"

lemma turn0_members: "picks_members (\<lambda>k. turn0 (f k))"
  by (auto simp: picks_members_def turn0_def)

lemma Serve_some:
  "picks_members turns \<Longrightarrow> length cands < fuel \<Longrightarrow> \<exists>x. Serve fuel e m turns cands w = Some x"
  unfolding Serve_def by (rule loop_ends) simp_all

lemma serve0: "\<exists>r w'. Serve 3 env0 2 (\<lambda>k. turn0 (f k) :: unit turn) [0, 1] world0 = Some (r, w')"
  using Serve_some [OF turn0_members, of "[0, 1]" 3 env0 2 f world0] by auto

text \<open>C20. \<^verbatim>\<open>Serve\<close> always ends, whatever the network does: every turn that goes on drops a candidate. It asks only
  candidates, each at most once, and no more of them than the attempts allowed plus the refusals it was answered,
  of which it takes at most one per candidate.\<close>

theorem Serve_asks_each_once:
  assumes "picks_members turns" and "length cands < fuel"
  shows "\<exists>r w' tr. Serve fuel e maxAttempts turns cands w = Some (r, w') \<and> trace w' = trace w @ tr \<and>
    distinct (dispatched tr) \<and> set (dispatched tr) \<subseteq> set cands \<and>
    length (dispatched tr) \<le> maxAttempts + refusals tr \<and> refusals tr \<le> length cands"
proof -
  let ?st = "\<lparr>remaining = cands, tries = 0, failovers = 0, l_committed = False, res = no_result\<rparr>"
  obtain r w' where s: "serve_loop fuel e maxAttempts (length cands) turns 0 ?st w = Some (r, w')"
    using loop_ends [OF assms(1), of ?st fuel e maxAttempts "length cands" 0 w] assms(2) by auto
  obtain tr where "trace w' = trace w @ tr" "loop_good maxAttempts (length cands) ?st r tr"
    using loop_trace [OF s assms(1)] by (auto simp: no_result_def)
  then show ?thesis using s unfolding Serve_def by (intro exI [of _ r] exI [of _ w'] exI [of _ tr]) (simp add: loop_good_def)
qed

theorem Serve_asks_each_once_witness:
  "\<exists>r w' tr. Serve 3 env0 2 (\<lambda>k. turn0 (NoReply Transport) :: unit turn) [0, 1] world0 = Some (r, w') \<and> trace w' = tr \<and>
    distinct (dispatched tr) \<and> set (dispatched tr) \<subseteq> {0, 1} \<and> length (dispatched tr) \<le> 2 + refusals tr"
  using Serve_asks_each_once [OF turn0_members [of "\<lambda>_. NoReply Transport"], of "[0, 1]" 3 env0 2 world0] by (auto simp: world0_def)

lemma Serve_trace:
  assumes "Serve fuel e maxAttempts turns cands w = Some (r, w')" and "picks_members turns"
  shows "\<exists>tr. trace w' = trace w @ tr \<and> loop_good maxAttempts (length cands)
    \<lparr>remaining = cands, tries = 0, failovers = 0, l_committed = False, res = no_result\<rparr> r tr"
  by (rule loop_trace [OF assms(1) [unfolded Serve_def] assms(2)]) (simp_all add: no_result_def)

text \<open>C21. Once a header has been written to the client no backend is asked again, and the answer says so: it is
  committed exactly if a header was written, and counts the backends asked.\<close>

theorem Serve_final_once_written:
  assumes "Serve fuel e maxAttempts turns cands w = Some (r, w')" and "picks_members turns"
  shows "\<exists>tr. trace w' = trace w @ tr \<and> (\<forall>xs b ys. tr = xs @ Wrote b # ys \<longrightarrow> dispatched ys = []) \<and>
    (\<forall>a. r = Answer a \<longrightarrow> Committed a = (\<exists>b. Wrote b \<in> set tr) \<and> Attempts a = length (dispatched tr))"
proof -
  obtain tr where tr: "trace w' = trace w @ tr" "silent_after tr" "\<forall>a. r = Answer a \<longrightarrow> Committed a = wrote tr \<and> Attempts a = length (dispatched tr)"
    using Serve_trace [OF assms] by (auto simp: loop_good_def no_result_def)
  then show ?thesis using silent_after_split by (intro exI [of _ tr]) (auto simp: wrote_def)
qed

theorem Serve_final_once_written_witness:
  "\<exists>r w'. Serve 3 env0 2 (\<lambda>k. turn0 (if k = 0 then NoReply Transport else Reply reply0) :: unit turn) [0, 1] world0 = Some (r, w') \<and>
    dispatched (drop 1 (dropWhile (\<lambda>x. x \<notin> range Wrote) (trace w'))) = []"
proof -
  obtain r w' where s: "Serve 3 env0 2 (\<lambda>k. turn0 (if k = 0 then NoReply Transport else Reply reply0) :: unit turn) [0, 1] world0 = Some (r, w')"
    using serve0 [of "\<lambda>k. if k = 0 then NoReply Transport else Reply reply0"] by blast
  have tr: "dispatched ys = []" if "trace w' = xs @ Wrote b # ys" for xs b ys
    using Serve_final_once_written [OF s turn0_members] that by (auto simp: world0_def)
  show ?thesis
  proof (cases "dropWhile (\<lambda>x. x \<notin> range Wrote) (trace w')")
    case (Cons y ys)
    then obtain b where "y = Wrote b" using hd_dropWhile [of "\<lambda>x. x \<notin> range Wrote" "trace w'"] by auto
    then show ?thesis using s Cons tr [of "takeWhile (\<lambda>x. x \<notin> range Wrote) (trace w')" b ys] by (metis drop0 drop_Suc_Cons One_nat_def takeWhile_dropWhile_id)
  next
    case Nil
    then show ?thesis using s by (metis drop_Nil dispatched_def list.simps(8) concat.simps(1))
  qed
qed

text \<open>C22. Every admission of a breaker is resolved by exactly one verdict with the same token before the next
  admission, also when the client hangs up and the proxy panics: no half-open token is lost.\<close>

theorem Serve_resolves_admissions:
  assumes "Serve fuel e maxAttempts turns cands w = Some (r, w')" and "picks_members turns"
  shows "\<exists>tr ps. trace w' = trace w @ tr \<and> map fst ps = dispatched tr \<and>
    filter gate_event tr = concat (map (\<lambda>(b, token, cls). [Admitted b token, Recorded b cls token]) ps)"
  using Serve_trace [OF assms] by (auto simp: loop_good_def gates_def verdict_pairs_def)

theorem Serve_resolves_admissions_witness:
  "\<exists>r w' ps. Serve 3 env0 2 (\<lambda>k. turn0 (Reply (reply0\<lparr>r_status := 502\<rparr>)) :: unit turn) [0, 1] world0 = Some (r, w') \<and>
    map fst ps = dispatched (trace w') \<and>
    filter gate_event (trace w') = concat (map (\<lambda>(b, token, cls). [Admitted b token, Recorded b cls token]) ps)"
proof -
  obtain r w' where s: "Serve 3 env0 2 (\<lambda>k. turn0 (Reply (reply0\<lparr>r_status := 502\<rparr>)) :: unit turn) [0, 1] world0 = Some (r, w')"
    using serve0 [of "\<lambda>_. Reply (reply0\<lparr>r_status := 502\<rparr>)"] by blast
  then show ?thesis using Serve_resolves_admissions [OF s turn0_members] by (auto simp: world0_def)
qed

section \<open>Verdicts\<close>

lemma read_bytes_scan:
  "read_bytes d b i n p s w = (s', w') \<Longrightarrow> sawEnd s = seen (scanner s) \<Longrightarrow>
   scanner s' = Feed p (scanner s) \<and> sawEnd s' = seen (scanner s') \<and> aborted s' = aborted s"
  by (auto simp: read_bytes_def Let_def appendTail_def Feed.simps [of "[]"] split: if_splits)

lemma copy_body_scan:
  "copy_body d b i n ps s w = (s', w') \<Longrightarrow> sawEnd s = seen (scanner s) \<Longrightarrow>
   scanner s' = fold Feed ps (scanner s) \<and> sawEnd s' = seen (scanner s') \<and> aborted s' = aborted s"
proof (induction ps arbitrary: s w)
  case (Cons p ps)
  obtain s1 w1 where r: "read_bytes d b i n p s w = (s1, w1)" by fastforce
  then show ?case using read_bytes_scan [OF r Cons.prems(2)] Cons.IH [of s1 w1] Cons.prems(1) by simp
qed simp

text \<open>The stream ended before its terminal marker by an error that is not a cancellation.\<close>

definition truncated :: "serve_env \<Rightarrow> reply \<Rightarrow> bool" where
  "truncated e a \<longleftrightarrow> (\<exists>x. r_end a = ReadFails x \<and> x \<noteq> Canceled) \<and> \<not> seen (fold Feed (r_body a) (LineScanner (markers e)))"

lemma relay_body_aborted: "relay_body e d b i a w = (s, w') \<Longrightarrow> (aborted s \<noteq> None) = truncated e a"
proof -
  assume r: "relay_body e d b i a w = (s, w')"
  obtain s1 w1 where c: "copy_body d b i (bodylen e) (r_body a) (new_scan e (r_status a)) w = (s1, w1)" by fastforce
  obtain s2 w2 where f: "end_copy (r_end a) s1 w1 = (s2, w2)" by fastforce
  have s: "s = s2" using r by (auto simp: relay_body_def c f)
  have "sawEnd (new_scan e (r_status a)) = seen (scanner (new_scan e (r_status a)))" by (simp add: new_scan_def LineScanner_def)
  from copy_body_scan [OF c this] have "sawEnd s1 = seen (fold Feed (r_body a) (LineScanner (markers e)))" "aborted s1 = None"
    by (simp_all add: new_scan_def)
  then show ?thesis using f s by (auto simp: end_copy_def read_error_def truncated_def split: copy_end.splits if_splits)
qed

definition refusal_of :: "reply \<Rightarrow> bool" where
  "refusal_of a \<longleftrightarrow> r_status a = 503 \<and> r_refusal a \<noteq> None"

definition retried_elsewhere :: "bool \<Rightarrow> reply \<Rightarrow> bool" where
  "retried_elsewhere canRetry a \<longleftrightarrow> canRetry \<and> isRetryable (r_status a) None"

fun passed :: "hook \<Rightarrow> bool" where
  "passed (Pass rel) = True"
| "passed RetryElsewhere = False"
| "passed (Refused n) = False"

lemma modify_hook:
  "fst (modifyResponse e cr c b a w) =
     (if refusal_of a then (if capture e then Refused (the (r_refusal a)) else Pass True)
      else if retried_elsewhere (cr \<and> \<not> c) a then RetryElsewhere else Pass False)"
proof (cases "refusal_of a")
  case True
  then show ?thesis by (cases "capture e") (simp_all add: modifyResponse_def Let_def refusal_of_def)
next
  case False
  then have "\<not> (r_status a = 503 \<and> r_refusal a \<noteq> None)" "\<not> (r_status a = 503 \<and> r_refusal a \<noteq> None \<and> capture e)"
    by (simp_all add: refusal_of_def)
  note N = if_not_P [OF this(2)] this(1)
  show ?thesis unfolding modifyResponse_def Let_def N(1) using False N(2)
    by (cases "cr \<and> \<not> c \<and> isRetryable (r_status a) None") (simp_all add: retried_elsewhere_def)
qed

text \<open>What the reverse proxy reports of a reply.\<close>

lemma reverse_proxy_reply:
  assumes "reverse_proxy e cr c d b i w = (p, w')" and "trip d = Reply a"
  shows "p_status p = r_status a"
    and "refusal_of a \<Longrightarrow> p_hook p = (if capture e then Refused (the (r_refusal a)) else Pass True)"
    and "\<not> refusal_of a \<Longrightarrow> p_hook p = (if retried_elsewhere (cr \<and> \<not> c \<and> \<not> early d) a then RetryElsewhere else Pass False)"
    and "p_panics p = (in_server e \<and> r_end a \<noteq> EOF \<and> passed (p_hook p))"
    and "(p_err p \<noteq> None) = (truncated e a \<and> passed (p_hook p))"
proof -
  define w1 where "w1 = (if early d then note_event (Wrote b) w else w)"
  obtain h w2 where m: "modifyResponse e cr (c \<or> early d) b a w1 = (h, w2)" by fastforce
  have h: "h = (if refusal_of a then (if capture e then Refused (the (r_refusal a)) else Pass True)
      else if retried_elsewhere (cr \<and> \<not> c \<and> \<not> early d) a then RetryElsewhere else Pass False)"
    using modify_hook [of e cr "c \<or> early d" b a w1] by (simp add: m)
  obtain s w3 where b: "relay_body e d b i a (note_event (Wrote b) w2) = (s, w3)" by fastforce
  note R = assms(1) [unfolded reverse_proxy_def Let_def w1_def [symmetric] assms(2) round_trip.case m prod.case]
  have "p_status p = r_status a \<and> p_hook p = h \<and> p_panics p = (in_server e \<and> r_end a \<noteq> EOF \<and> passed h) \<and>
      (p_err p \<noteq> None) = (truncated e a \<and> passed h)"
  proof (cases h)
    case (Pass rel)
    have "p = \<lparr>p_status = r_status a, p_err = aborted s, p_hook = Pass rel, p_panics = (in_server e \<and> r_end a \<noteq> EOF), p_committed = True\<rparr>"
      using R by (simp only: Pass hook.case b prod.case prod.inject)
    then show ?thesis using relay_body_aborted [OF b] by (simp add: Pass)
  next
    case RetryElsewhere
    have "p = \<lparr>p_status = r_status a, p_err = None, p_hook = RetryElsewhere, p_panics = False, p_committed = (c \<or> early d)\<rparr>"
      using R by (simp only: RetryElsewhere hook.case prod.inject)
    then show ?thesis by (simp add: RetryElsewhere)
  next
    case (Refused n)
    have "p = \<lparr>p_status = r_status a, p_err = None, p_hook = Refused n, p_panics = False, p_committed = (c \<or> early d)\<rparr>"
      using R by (simp only: Refused hook.case prod.inject)
    then show ?thesis by (simp add: Refused)
  qed
  then show "p_status p = r_status a"
    and "refusal_of a \<Longrightarrow> p_hook p = (if capture e then Refused (the (r_refusal a)) else Pass True)"
    and "\<not> refusal_of a \<Longrightarrow> p_hook p = (if retried_elsewhere (cr \<and> \<not> c \<and> \<not> early d) a then RetryElsewhere else Pass False)"
    and "p_panics p = (in_server e \<and> r_end a \<noteq> EOF \<and> passed (p_hook p))"
    and "(p_err p \<noteq> None) = (truncated e a \<and> passed (p_hook p))"
    by (simp_all add: h)
qed

lemma attempt_result:
  assumes "attempt e cr c d b ch w = (r, c', w')" and "url_ok d"
  obtains p i w0 w1 where "reverse_proxy e cr c d b i w0 = (p, w1)" "r = (if p_panics p then Panicked AbortHandler else Returned (conclude (gone d) p))"
  using assms by (auto simp: attempt_def Let_def split: prod.splits)

lemma conclude_fields [simp]:
  "status (conclude g p) = p_status p" "err (conclude g p) = p_err p" "rejected (conclude g p) = (\<exists>n. p_hook p = Refused n)"
  "ignored (conclude g p) = (p_hook p = Pass True)" "clientGone (conclude g p) = (p_err p \<noteq> None \<and> g)"
  by (auto simp: conclude_def Let_def split: hook.splits)

text \<open>C23. The verdict on a backend by the way its attempt ends: an engine's refusal of a large prefill and a client
  that hung up are nobody's fault, a reply put aside for a retry and a reply relayed to its end are judged by their
  status, no reply is a failure. A reply cut short is a failure only outside a server: inside one the copy error
  aborts the handler and the verdict is \<open>Ignored\<close>, whoever cut it.\<close>

theorem attempt_verdict:
  assumes "attempt e canRetry committed d b charge w = (r, c', w')" and "url_ok d"
  shows "verdict_of r =
    (case trip d of
       NoReply x \<Rightarrow> (if gone d then Ignored else Failure)
     | Reply a \<Rightarrow>
         (if r_status a = 503 \<and> r_refusal a \<noteq> None then Ignored
          else if canRetry \<and> \<not> committed \<and> \<not> early d \<and> isRetryable (r_status a) None then Classify (r_status a) False
          else if r_end a = EOF then Classify (r_status a) False
          else if in_server e then Ignored
          else if truncated e a then (if gone d then Ignored else Failure)
          else Classify (r_status a) False))"
proof -
  obtain p i w0 w1 where p: "reverse_proxy e canRetry committed d b i w0 = (p, w1)"
    "r = (if p_panics p then Panicked AbortHandler else Returned (conclude (gone d) p))" by (rule attempt_result [OF assms])
  show ?thesis
  proof (cases "trip d")
    case (NoReply x)
    then have "p_panics p = False" "p_hook p = Pass False" "p_err p = Some x" using p(1) by (auto simp: reverse_proxy_def Let_def)
    then show ?thesis by (simp add: NoReply p(2) verdict_of_def Classify_def)
  next
    case (Reply a)
    note R = reverse_proxy_reply [OF p(1) Reply]
    show ?thesis
    proof (cases "refusal_of a")
      case True
      then show ?thesis using R(2) [OF True] R(4) by (auto simp: Reply p(2) verdict_of_def refusal_of_def)
    next
      case False
      note nr = False
      have nr': "\<not> (r_status a = 503 \<and> r_refusal a \<noteq> None)" using nr by (simp add: refusal_of_def)
      have T: "truncated e a \<Longrightarrow> r_end a \<noteq> EOF" by (auto simp: truncated_def)
      show ?thesis
      proof (cases "retried_elsewhere (canRetry \<and> \<not> committed \<and> \<not> early d) a")
        case True
        then have "p_hook p = RetryElsewhere" using R(3) [OF nr] by simp
        then have "verdict_of r = Classify (r_status a) False" using R(1,4,5) by (simp add: p(2) verdict_of_def)
        then show ?thesis unfolding Reply round_trip.case if_not_P [OF nr'] using True by (simp add: retried_elsewhere_def)
      next
        case False
        then have h: "p_hook p = Pass False" using R(3) [OF nr] by simp
        have "verdict_of r = (if in_server e \<and> r_end a \<noteq> EOF then Ignored else if truncated e a \<and> gone d then Ignored
            else Classify (r_status a) (truncated e a))"
          using R(1,4,5) h by (simp add: p(2) verdict_of_def)
        moreover have "\<not> (canRetry \<and> \<not> committed \<and> \<not> early d \<and> isRetryable (r_status a) None)" using False by (simp add: retried_elsewhere_def)
        ultimately show ?thesis unfolding Reply round_trip.case if_not_P [OF nr'] using T by (auto simp: Classify_def)
      qed
    qed
  qed
qed

theorem attempt_verdict_witness:
  "\<exists>r c w'. attempt env0 True False (dispatch0 (Reply (reply0\<lparr>r_status := 503\<rparr>))) 0 0 world0 = (r, c, w') \<and> verdict_of r = Failure"
proof -
  obtain r c w' where a: "attempt env0 True False (dispatch0 (Reply (reply0\<lparr>r_status := 503\<rparr>))) 0 0 world0 = (r, c, w')" by (metis prod_cases3)
  then show ?thesis using attempt_verdict [OF a] by (simp add: dispatch0_def reply0_def isRetryable_def Classify_def)
qed

end
