(* ===== verification/ProxyLoad.thy ===== *)
theory ProxyLoad
  imports ProxyProps
begin

text \<open>
  The proxy over the load accounting of \<open>Lease\<close>: everything \<open>Serve\<close> does to the backends is a run of that system, and
  every lease it takes is released. The end states what is lost when a stream is cut short and when a reply put aside
  for a retry finds no other backend.
\<close>

section \<open>Runs of the lease system\<close>

text \<open>A run that leaves a held lease held.\<close>

definition keeps :: "nat \<Rightarrow> lsys \<Rightarrow> lsys \<Rightarrow> bool" where
  "keeps i s s' \<longleftrightarrow> lstep\<^sup>*\<^sup>* s s' \<and> (in_phase s i Held \<longrightarrow> in_phase s' i Held)"

text \<open>What other requests do. Between two attempts of this one they do anything that follows the accounting: take leases,
  move them on, release them. While it waits for a reply they do so too, except for the one lease it holds: the
  newest when they are called, as \<open>attempt\<close> has just acquired it.\<close>

definition traffic :: "(lsys \<Rightarrow> lsys) \<Rightarrow> bool" where
  "traffic f \<longleftrightarrow> (\<forall>s. lstep\<^sup>*\<^sup>* s (f s))"

definition bystander :: "(lsys \<Rightarrow> lsys) \<Rightarrow> bool" where
  "bystander f \<longleftrightarrow> (\<forall>s. keeps (length (leases s) - 1) s (f s))"

lemma traffic_id: "traffic (\<lambda>s. s)" and bystander_id: "bystander (\<lambda>s. s)"
  by (simp_all add: traffic_def bystander_def keeps_def)

lemma keeps_refl: "keeps i s s"
  by (simp add: keeps_def)

lemma keeps_trans: "keeps i s s1 \<Longrightarrow> keeps i s1 s2 \<Longrightarrow> keeps i s s2"
  by (auto simp: keeps_def intro: rtranclp_trans)

text \<open>Only lease \<open>i\<close> is touched.\<close>

definition only :: "nat \<Rightarrow> lsys \<Rightarrow> lsys \<Rightarrow> bool" where
  "only i s s' \<longleftrightarrow> length (leases s') = length (leases s) \<and> (\<forall>j. j \<noteq> i \<longrightarrow> leases s' ! j = leases s ! j)"

lemma only_refl: "only i s s"
  by (simp add: only_def)

lemma only_trans: "only i s s1 \<Longrightarrow> only i s1 s2 \<Longrightarrow> only i s s2"
  by (simp add: only_def)

lemma only_upd [simp]: "only i s (upd_backend b f s)" "only i s (upd_lease i g s)"
  by (simp_all add: only_def upd_backend_def upd_lease_def)

lemma phase_upd [simp]: "in_phase (upd_backend b f s) i p = in_phase s i p"
  by (simp add: in_phase_def upd_backend_def)

lemma phase_upd_lease [simp]: "(\<And>l. lphase (g l) = lphase l) \<Longrightarrow> in_phase (upd_lease i g s) i p = in_phase s i p"
  by (auto simp: in_phase_def upd_lease_def)

lemma held_bound: "in_phase s i p \<Longrightarrow> i < length (leases s)"
  by (simp add: in_phase_def)

lemma env_step: "same_gauges (backends s b) (f (backends s b)) \<Longrightarrow> lstep s (upd_backend b f s)"
proof -
  assume "same_gauges (backends s b) (f (backends s b))"
  then have "lstep s (upd_backend b (\<lambda>_. f (backends s b)) s)" by (rule lstep.Env)
  then show ?thesis by (simp add: upd_backend_def)
qed

lemma keeps_start:
  "keeps i s (StartActive n i s)" "keeps i s (StartPrefill n i s)" "keeps i s (StartDecode n i s)" "keeps i s (EndPrefill i s)"
  if "i < length (leases s)"
proof -
  show "keeps i s (StartActive n i s)" using lstep.Active [OF that, of n] by (auto simp: keeps_def StartActive_def Let_def)
  show "keeps i s (StartPrefill n i s)" using lstep.Prefill [OF that, of n] by (auto simp: keeps_def StartPrefill_def Let_def)
  show "keeps i s (StartDecode n i s)" using lstep.Decode [OF that, of n] by (auto simp: keeps_def StartDecode_def Let_def)
  show "keeps i s (EndPrefill i s)" using lstep.EndPre [OF that] by (auto simp: keeps_def EndPrefill_def Let_def)
qed

lemma only_start: "only i s (StartActive n i s)" "only i s (StartPrefill n i s)" "only i s (StartDecode n i s)" "only i s (EndPrefill i s)"
  by (auto simp: StartActive_def StartPrefill_def StartDecode_def EndPrefill_def Let_def only_refl
      intro: only_trans [OF only_upd(1) only_upd(2)] only_trans [OF only_upd(2) only_upd(1)])

lemma keeps_length: "i < length (leases s) \<Longrightarrow> only i s s' \<Longrightarrow> i < length (leases s')"
  by (simp add: only_def)

lemma observe_gauges: "same_gauges b (ObserveTTFT now d b)"
  by (simp add: same_gauges_def ObserveTTFT_def evictTTFT_def Let_def)

lemma first_token_keeps:
  assumes "i < length (leases s)"
  shows "keeps i s (first_token d b i n s)" and "only i s (first_token d b i n s)"
proof -
  define s1 where "s1 = upd_backend b (ObserveTTFT (first_byte d) (first_byte d - started d)) s"
  have 1: "keeps i s s1" "only i s s1" using env_step [of s b "ObserveTTFT (first_byte d) (first_byte d - started d)"] observe_gauges by (auto simp: s1_def keeps_def)
  have 2: "keeps i s1 (EndPrefill i s1)" "only i s1 (EndPrefill i s1)" using keeps_start(4) keeps_length [OF assms 1(2)] only_start(4) by auto
  have l2: "i < length (leases (EndPrefill i s1))" using keeps_length [OF keeps_length [OF assms 1(2)] 2(2)] .
  show "keeps i s (first_token d b i n s)" unfolding first_token_def s1_def [symmetric]
    by (rule keeps_trans [OF keeps_trans [OF 1(1) 2(1)] keeps_start(3) [OF l2]])
  show "only i s (first_token d b i n s)" unfolding first_token_def s1_def [symmetric]
    by (rule only_trans [OF only_trans [OF 1(2) 2(2)] only_start(3)])
qed

section \<open>Attempts\<close>

lemma note_sys [simp]: "sys (note_event x w) = sys w" "sys (on_sys f w) = f (sys w)"
  by (simp_all add: note_event_def on_sys_def)

text \<open>All the proxying of a reply does to the backends is to move the lease on at the first token, if one comes.\<close>

lemma read_bytes_sys:
  "read_bytes d b i n p s w = (s', w') \<Longrightarrow>
   (\<not> armed s \<longrightarrow> \<not> armed s' \<and> sys w' = sys w) \<and> (armed s' \<and> sys w' = sys w \<or> \<not> armed s' \<and> (sys w' = sys w \<or> sys w' = first_token d b i n (sys w)))"
  by (cases "armed s") (auto simp: read_bytes_def Let_def appendTail_def split: if_splits)

lemma copy_body_sys:
  "copy_body d b i n ps s w = (s', w') \<Longrightarrow> (\<not> armed s \<longrightarrow> sys w' = sys w) \<and> (sys w' = sys w \<or> sys w' = first_token d b i n (sys w))"
proof (induction ps arbitrary: s w)
  case (Cons p ps)
  obtain s1 w1 where r: "read_bytes d b i n p s w = (s1, w1)" by fastforce
  have c: "copy_body d b i n ps s1 w1 = (s', w')" using Cons.prems r by simp
  from read_bytes_sys [OF r] Cons.IH [OF c] show ?case by metis
qed simp

lemma end_copy_sys: "end_copy x s w = (s', w') \<Longrightarrow> sys w' = sys w"
  by (auto simp: end_copy_def read_error_def split: copy_end.splits if_splits)

lemma observeUsage_sys: "sys (observeUsage s w) = sys w"
  by (simp add: observeUsage_def split: option.splits prod.splits)

lemma relay_body_sys:
  "relay_body e d b i r w = (s, w') \<Longrightarrow> sys w' = sys w \<or> sys w' = first_token d b i (bodylen e) (sys w)"
proof -
  assume a: "relay_body e d b i r w = (s, w')"
  obtain s1 w1 where c: "copy_body d b i (bodylen e) (r_body r) (new_scan e (r_status r)) w = (s1, w1)" by fastforce
  obtain s2 w2 where f: "end_copy (r_end r) s1 w1 = (s2, w2)" by fastforce
  have "sys w' = sys w1" using a end_copy_sys [OF f] observeUsage_sys by (auto simp: relay_body_def c f)
  then show ?thesis using copy_body_sys [OF c] by simp
qed

lemma modifyResponse_sys: "modifyResponse e cr c b r w = (h, w') \<Longrightarrow> sys w' = sys w"
proof -
  assume a: "modifyResponse e cr c b r w = (h, w')"
  define w1 where "w1 = (if has_outcome e \<and> \<not> (r_status r = 503 \<and> r_refusal r \<noteq> None) then note_event (Answered b (r_status r)) w else w)"
  have "w' = w \<or> w' = w1 \<or> w' = note_event (Accepted b) w1"
    using a unfolding modifyResponse_def Let_def w1_def [symmetric] by (auto split: if_splits)
  then show ?thesis by (auto simp: w1_def)
qed

lemma reverse_proxy_sys:
  "reverse_proxy e cr c d b i w = (p, w') \<Longrightarrow> sys w' = sys w \<or> sys w' = first_token d b i (bodylen e) (sys w)"
proof -
  assume a: "reverse_proxy e cr c d b i w = (p, w')"
  define w1 where "w1 = (if early d then note_event (Wrote b) w else w)"
  have w1: "sys w1 = sys w" by (simp add: w1_def)
  note R = a [unfolded reverse_proxy_def Let_def w1_def [symmetric]]
  show ?thesis
  proof (cases "trip d")
    case (NoReply x)
    then show ?thesis using R w1 by simp
  next
    case (Reply r)
    obtain h w2 where m: "modifyResponse e cr (c \<or> early d) b r w1 = (h, w2)" by fastforce
    have w2: "sys w2 = sys w" using modifyResponse_sys [OF m] w1 by simp
    obtain s w3 where b: "relay_body e d b i r (note_event (Wrote b) w2) = (s, w3)" by fastforce
    have "w' = w3 \<or> w' = w2" using R b m by (cases h) (simp_all add: Reply)
    then show ?thesis using relay_body_sys [OF b] w2 by auto
  qed
qed

lemma reverse_proxy_keeps:
  assumes "reverse_proxy e cr c d b i w = (p, w')" and "i < length (leases (sys w))"
  shows "keeps i (sys w) (sys w')" and "only i (sys w) (sys w')"
  using reverse_proxy_sys [OF assms(1)] first_token_keeps [OF assms(2), of d b "bodylen e"] keeps_refl only_refl by (metis, metis)

lemma Release_run: "linv s \<Longrightarrow> in_phase s i Held \<Longrightarrow> lstep\<^sup>*\<^sup>* s (Release i s)"
proof -
  assume I: "linv s" and h: "in_phase s i Held"
  have i: "i < length (leases s)" and p: "lphase (leases s ! i) = Held" using h by (auto simp: in_phase_def)
  have "\<not> lonce (leases s ! i)" using linv_lease [OF I i] p by (auto simp: lease_ok_def fired_def)
  then show ?thesis using Release_effect(1) [OF h refl refl] inflight_pos [OF I i] p by (simp add: counted_def)
qed

lemma Release_local:
  assumes "i < length (leases s)" and "\<not> lonce (leases s ! i)"
  shows "only i s (Release i s)" and "in_phase (Release i s) i Done"
proof -
  have "only i s (release_locked i s)" for s by (simp add: release_locked_def Let_def only_trans [OF only_upd(2) only_upd(1)])
  moreover have "only i s (release_dec i s)" for s
    by (simp add: release_dec_def Let_def only_def upd_backend_def upd_lease_def)
  moreover have "only i s (release_clamp i s)" for s by (simp add: release_clamp_def Let_def only_trans [OF only_upd(2) only_upd(1)])
  moreover have "only i s (release_wake i s)" for s by (simp add: release_wake_def Let_def only_trans [OF only_upd(2) only_upd(1)])
  moreover have n: "only i s (release_note i s)" for s by (simp add: release_note_def Let_def only_trans [OF only_upd(2) only_upd(1)])
  ultimately have o: "only i s (release_wake i (release_clamp i (release_dec i (release_locked i s))))" by (meson only_trans)
  then show "only i s (Release i s)" using n only_trans assms(2) by (auto simp: Release_def)
  show "in_phase (Release i s) i Done"
    using keeps_length [OF assms(1) o] assms(2) by (simp add: Release_def release_note_def in_phase_def upd_backend_def upd_lease_def)
qed

lemma Acquire_leases: "leases (snd (Acquire now b s)) = leases s @ [last (leases (snd (Acquire now b s)))]" "fst (Acquire now b s) = length (leases s)"
proof -
  let ?i = "length (leases s)"
  define s1 where "s1 = acquire_inc b s"
  have l1: "length (leases s1) = Suc ?i" "\<forall>j<?i. leases s1 ! j = leases s ! j" by (simp_all add: s1_def acquire_inc_def upd_backend_def nth_append)
  have "only ?i s (acquire_count ?i s)" for s by (simp add: acquire_count_def only_trans [OF only_upd(2) only_upd(1)])
  moreover have "only ?i s (acquire_check now ?i s)" for s
    by (simp add: acquire_check_def Let_def split_def only_trans [OF only_upd(2) only_upd(1)])
  moreover have "only ?i s (acquire_admit ?i s)" for s by (simp add: acquire_admit_def Let_def only_trans [OF only_upd(2) only_upd(1)])
  ultimately have "only ?i s1 (acquire_admit ?i (acquire_check now ?i (acquire_count ?i s1)))" by (meson only_trans)
  then have A: "only ?i s1 (snd (Acquire now b s))" by (simp add: Acquire_def s1_def Let_def)
  let ?L = "leases (snd (Acquire now b s))"
  have len: "length ?L = Suc ?i" "\<forall>j<?i. ?L ! j = leases s ! j" using A l1 by (auto simp: only_def)
  have "take ?i ?L = leases s" by (rule nth_equalityI) (use len in auto)
  then show "?L = leases s @ [last ?L]"
    using len(1) by (metis append_take_drop_id append_butlast_last_id butlast_conv_take diff_Suc_1 length_0_conv nat.distinct(1))
  show "fst (Acquire now b s) = ?i" by (simp add: Acquire_def Let_def)
qed

text \<open>\<open>settles s s'\<close>: a run that adds leases, all released by its end.\<close>

definition settles :: "lsys \<Rightarrow> lsys \<Rightarrow> bool" where
  "settles s s' \<longleftrightarrow> (\<exists>ls. leases s' = leases s @ ls \<and> (\<forall>l\<in>set ls. lphase l = Done))"

lemma settles_refl: "leases s' = leases s \<Longrightarrow> settles s s'"
  by (simp add: settles_def)

lemma settles_trans: "settles s s1 \<Longrightarrow> settles s1 s2 \<Longrightarrow> settles s s2"
  unfolding settles_def by (metis (no_types, opaque_lifting) Un_iff append.assoc set_append)

definition quiet :: "dispatch \<Rightarrow> bool" where
  "quiet d \<longleftrightarrow> mid d = (\<lambda>s. s)"

lemma only_snoc:
  assumes "only (length ls) s s'" and "leases s = ls @ [l]"
  shows "leases s' = ls @ [leases s' ! length ls]"
proof (rule nth_equalityI)
  show "length (leases s') = length (ls @ [leases s' ! length ls])" using assms by (simp add: only_def)
  fix j assume "j < length (leases s')"
  then show "leases s' ! j = (ls @ [leases s' ! length ls]) ! j"
    using assms by (cases "j = length ls") (auto simp: only_def nth_append)
qed

lemma attempt_run:
  assumes "attempt e cr c d b ch w = (r, c', w')" and "linv (sys w)" and "bystander (mid d)"
  shows "lstep\<^sup>*\<^sup>* (sys w) (sys w')" and "quiet d \<Longrightarrow> settles (sys w) (sys w')"
proof -
  let ?i = "length (leases (sys w))"
  define s0 where "s0 = snd (Acquire (started d) b (sys w))"
  have q: "Acquire (started d) b (sys w) = (?i, s0)" using Acquire_leases(2) by (simp add: s0_def prod_eq_iff)
  have run0: "lstep\<^sup>*\<^sup>* (sys w) s0" and h0: "in_phase s0 ?i Held" using Acquire_run [where s = "sys w" and now = "started d" and b = b] by (simp_all add: q)
  obtain l where l0: "leases s0 = leases (sys w) @ [l]" using Acquire_leases(1) [of "started d" b "sys w"] s0_def by metis
  define s1 where "s1 = StartPrefill ch ?i (StartActive (EstimateTokens (int (bodylen e))) ?i s0)"
  define w1 where "w1 = w\<lparr>sys := s1\<rparr>"
  have i0: "?i < length (leases s0)" by (simp add: l0)
  have o1: "only ?i s0 s1" unfolding s1_def by (rule only_trans [OF only_start(1) only_start(2)])
  have k1: "keeps ?i s0 s1" unfolding s1_def
    by (rule keeps_trans [OF keeps_start(1) [OF i0] keeps_start(2) [OF keeps_length [OF i0 only_start(1)]]])
  have i1: "?i < length (leases s1)" using keeps_length [OF i0 o1] .
  have w1: "sys w1 = s1" by (simp add: w1_def)
  have fin: "lstep\<^sup>*\<^sup>* (sys w) (Release ?i s2)" and fin2: "only ?i s0 s2 \<Longrightarrow> settles (sys w) (Release ?i s2)" if k: "keeps ?i s0 s2" for s2
  proof -
    have run2: "lstep\<^sup>*\<^sup>* (sys w) s2" and h2: "in_phase s2 ?i Held" using k run0 h0 by (auto simp: keeps_def intro: rtranclp_trans)
    have I2: "linv s2" by (rule linv_reachable [OF run2 assms(2)])
    show "lstep\<^sup>*\<^sup>* (sys w) (Release ?i s2)" using run2 Release_run [OF I2 h2] by (rule rtranclp_trans)
    assume o: "only ?i s0 s2"
    have nl: "\<not> lonce (leases s2 ! ?i)" using linv_lease [OF I2 held_bound [OF h2]] h2 by (auto simp: lease_ok_def fired_def in_phase_def)
    note L = Release_local [OF held_bound [OF h2] nl]
    have "leases (Release ?i s2) = leases (sys w) @ [leases (Release ?i s2) ! ?i]" by (rule only_snoc [OF only_trans [OF o L(1)] l0])
    then show "settles (sys w) (Release ?i s2)" using L(2) unfolding settles_def in_phase_def
      by (intro exI [of _ "[leases (Release ?i s2) ! ?i]"]) simp
  qed
  note R = assms(1) [unfolded attempt_def q prod.case Let_def s1_def [symmetric] w1_def [symmetric]]
  have "lstep\<^sup>*\<^sup>* (sys w) (sys w') \<and> (quiet d \<longrightarrow> settles (sys w) (sys w'))"
  proof (cases "url_ok d")
    case False
    then show ?thesis using R fin [OF k1] fin2 [OF k1 o1] w1 by auto
  next
    case True
    obtain p w2 where p: "reverse_proxy e cr c d b ?i (on_sys (mid d) w1) = (p, w2)" by fastforce
    have w': "sys w' = Release ?i (sys w2)" using R True p by auto
    have "length (leases s1) = Suc ?i" using o1 l0 by (simp add: only_def)
    then have km: "keeps ?i s1 (mid d s1)" using assms(3) [unfolded bystander_def, rule_format, of s1] by simp
    then have hm: "in_phase (mid d s1) ?i Held" using k1 h0 by (simp add: keeps_def)
    have k2: "keeps ?i (mid d s1) (sys w2)" "only ?i (mid d s1) (sys w2)" using reverse_proxy_keeps [OF p] held_bound [OF hm] by (simp_all add: w1)
    have "quiet d \<Longrightarrow> only ?i s0 (sys w2)" using k2(2) o1 only_trans [of ?i s0 s1] by (simp add: quiet_def)
    then show ?thesis unfolding w' using fin fin2 keeps_trans [OF keeps_trans [OF k1 km] k2(1)] by blast
  qed
  then show "lstep\<^sup>*\<^sup>* (sys w) (sys w')" and "quiet d \<Longrightarrow> settles (sys w) (sys w')" by blast+
qed

section \<open>The loop\<close>

lemma breaker_gauges: "same_gauges x (x\<lparr>CB := c\<rparr>)"
  by (simp add: same_gauges_def)

lemma upd_CB_step: "lstep s (upd_backend b (\<lambda>x. x\<lparr>CB := g x\<rparr>) s)"
  by (rule env_step) (rule breaker_gauges)

lemma upd_CB_settles: "settles s (upd_backend b f s)"
  by (rule settles_refl) (simp add: upd_backend_def)

lemma countOutcome_sys: "sys (countOutcome b out w) = sys w"
  by (simp add: countOutcome_def note_event_def)

lemma after_attempt_sys: "sys (snd (after_attempt m f b out c st w)) = sys w"
  by (auto simp: after_attempt_def Let_def)

lemma serve_turn_run:
  assumes "serve_turn e m f t st w = (n, w')" and "linv (sys w)" and "traffic (t_env t)" and "bystander (mid (t_dispatch t))"
  shows "lstep\<^sup>*\<^sup>* (sys w) (sys w') \<and> (t_env t = (\<lambda>s. s) \<and> quiet (t_dispatch t) \<longrightarrow> settles (sys w) (sys w'))"
proof -
  define w0 where "w0 = on_sys (t_env t) w"
  have r0: "lstep\<^sup>*\<^sup>* (sys w) (sys w0)" using assms(3) by (simp add: w0_def traffic_def)
  have s0: "t_env t = (\<lambda>s. s) \<Longrightarrow> sys w0 = sys w" by (simp add: w0_def)
  show ?thesis
  proof (cases "tries st \<ge> m \<or> remaining st = [] \<or> (\<exists>x. t_pick t (remaining st) = Inl x) \<or> t_pick t (remaining st) = Inr None")
    case True
    then have "w' = w \<or> w' = w0" using assms(1) by (auto simp: serve_turn_def w0_def split: if_splits)
    then show ?thesis using r0 s0 by (auto intro: settles_refl)
  next
    case False
    then obtain b where b: "t_pick t (remaining st) = Inr (Some b)" by (metis not_None_eq old.sum.exhaust)
    have pre: "\<not> (tries st \<ge> m \<or> remaining st = [])" using False by blast
    obtain permitted token w1 where a: "admit b (t_now t) w0 = ((permitted, token), w1)" by (metis prod.collapse)
    have "\<exists>g. sys w1 = upd_backend b (\<lambda>x. x\<lparr>CB := g\<rparr>) (sys w0)" using a by (auto simp: admit_def split: prod.splits if_splits)
    then have r1: "lstep\<^sup>*\<^sup>* (sys w0) (sys w1)" "settles (sys w0) (sys w1)" using upd_CB_step upd_CB_settles by (auto intro: r_into_rtranclp)
    show ?thesis
    proof (cases permitted)
      case False
      then have "w' = w1" using assms(1) pre b a by (simp add: serve_turn_def w0_def)
      then show ?thesis using r0 r1 s0 by (auto intro: rtranclp_trans)
    next
      case True
      then have D: "deliver e m f t b token st w1 = (n, w')" using assms(1) pre b a by (simp add: serve_turn_def w0_def)
      define cr where "cr = ((tries st + 1 < m \<or> failovers st < f) \<and> length (remaining st) > 1)"
      obtain r c w2 where at: "attempt e cr (l_committed st) (t_dispatch t) b (prefillCharge (t_prefill t) b (bodylen e)) (note_event (Dispatched b) w1) = (r, c, w2)"
        by (metis prod_cases3)
      define w3 where "w3 = record_verdict b (verdict_of r) token (finished (t_dispatch t)) w2"
      have I1: "linv (sys w1)" using linv_reachable [OF rtranclp_trans [OF r0 r1(1)] assms(2)] .
      have r2: "lstep\<^sup>*\<^sup>* (sys w1) (sys w2)" "quiet (t_dispatch t) \<Longrightarrow> settles (sys w1) (sys w2)"
        using attempt_run [OF at _ assms(4)] I1 by simp_all
      have w3: "sys w3 = upd_backend b (\<lambda>x. x\<lparr>CB := Record (verdict_of r) token (finished (t_dispatch t)) (CB x)\<rparr>) (sys w2)"
        by (simp add: w3_def record_verdict_def)
      have r3: "lstep\<^sup>*\<^sup>* (sys w2) (sys w3)" "settles (sys w2) (sys w3)"
        unfolding w3 by (rule r_into_rtranclp, rule upd_CB_step, rule upd_CB_settles)
      note D' = D [unfolded deliver_def Let_def cr_def [symmetric] at runAttempt_def prod.case w3_def [symmetric]]
      have "sys w' = sys w3"
      proof (cases r)
        case (Panicked p)
        then show ?thesis using D' by simp
      next
        case (Returned out)
        have "sys w' = sys (countOutcome b out w3)"
          using arg_cong [where f = "\<lambda>x. sys (snd x)", OF D' [unfolded Returned attempt_result.case]] by (simp add: after_attempt_sys)
        then show ?thesis by (simp add: countOutcome_sys)
      qed
      moreover have "lstep\<^sup>*\<^sup>* (sys w) (sys w3)"
        by (rule rtranclp_trans [OF rtranclp_trans [OF rtranclp_trans [OF r0 r1(1)] r2(1)] r3(1)])
      moreover have "settles (sys w0) (sys w3)" if "quiet (t_dispatch t)"
        by (rule settles_trans [OF settles_trans [OF r1(2) r2(2) [OF that]] r3(2)])
      ultimately show ?thesis using s0 by auto
    qed
  qed
qed

lemma serve_loop_run:
  assumes "serve_loop fuel e m f turns k st w = Some (r, w')" and "linv (sys w)"
    and "\<And>k. traffic (t_env (turns k))" and "\<And>k. bystander (mid (t_dispatch (turns k)))"
  shows "lstep\<^sup>*\<^sup>* (sys w) (sys w') \<and> ((\<forall>k. t_env (turns k) = (\<lambda>s. s) \<and> quiet (t_dispatch (turns k))) \<longrightarrow> settles (sys w) (sys w'))"
  using assms(1,2)
proof (induction fuel arbitrary: k st w)
  case (Suc fuel)
  obtain n w1 where t: "serve_turn e m f (turns k) st w = (n, w1)" by fastforce
  note T = serve_turn_run [OF t Suc.prems(2) assms(3) [of k] assms(4) [of k]]
  show ?case
  proof (cases n)
    case (Stop x)
    then show ?thesis using T Suc.prems(1) t by auto
  next
    case (Again st1)
    have "linv (sys w1)" using linv_reachable [OF _ Suc.prems(2)] T by blast
    then show ?thesis using Suc.IH [of "Suc k" st1 w1] Suc.prems(1) t Again T by (auto intro: rtranclp_trans settles_trans)
  qed
qed simp

lemma settles_gauges:
  assumes "linv s" and "linv s'" and "settles s s'"
  shows "inflight (backends s' b) = inflight (backends s b)" and "decodeTokens (backends s' b) = decodeTokens (backends s b)"
    and "activeTokens (backends s' b) = activeTokens (backends s b)" and "prefillTokens (backends s' b) = prefillTokens (backends s b)"
proof -
  obtain ls where ls: "leases s' = leases s @ ls" "\<forall>l\<in>set ls. lphase l = Done" using assms(3) by (auto simp: settles_def)
  have "lease_ok l" if "l \<in> set ls" for l using assms(2) that ls(1) by (auto simp: linv_def)
  then have z: "\<not> counted l \<and> ldecode l = 0 \<and> lactive l = 0 \<and> lprefill l = 0" if "l \<in> set ls" for l
    using ls(2) that by (auto simp: lease_ok_def fired_def counted_def)
  have t: "tally g b ls = 0" if "\<And>l. l \<in> set ls \<Longrightarrow> g l = 0" for g by (rule tally_zero) (use that in \<open>auto simp: on_def\<close>)
  have "tally (\<lambda>l. of_bool (counted l)) b ls = 0" "tally ldecode b ls = 0" "tally lactive b ls = 0" "tally lprefill b ls = 0"
    using z by (auto intro!: t)
  then show "inflight (backends s' b) = inflight (backends s b)" and "decodeTokens (backends s' b) = decodeTokens (backends s b)"
    and "activeTokens (backends s' b) = activeTokens (backends s b)" and "prefillTokens (backends s' b) = prefillTokens (backends s b)"
    using linv_gauge [OF assms(1), of b] linv_gauge [OF assms(2), of b] by (simp_all add: gauges_ok_def ls(1))
qed

text \<open>Other traffic may release the leases of others at any time.\<close>

definition someone_releases :: "nat \<Rightarrow> lsys \<Rightarrow> lsys" where
  "someone_releases j s = (if linv s \<and> in_phase s j Held then Release j s else s)"

lemma someone_releases_traffic: "traffic (someone_releases j)"
  using Release_run by (simp add: traffic_def someone_releases_def)

lemma someone_releases_bystander: "bystander (\<lambda>s. if Suc j < length (leases s) then someone_releases j s else s)"
proof -
  have "keeps (length (leases s) - 1) s (someone_releases j s)" if j: "Suc j < length (leases s)" for s
  proof (cases "linv s \<and> in_phase s j Held")
    case True
    then have nl: "\<not> lonce (leases s ! j)"
      using linv_lease [of s j] held_bound [of s j Held] by (auto simp: lease_ok_def fired_def in_phase_def)
    have "only j s (Release j s)" using Release_local(1) [OF _ nl] j by simp
    then show ?thesis using True Release_run [of s j] j by (auto simp: keeps_def someone_releases_def only_def in_phase_def)
  qed (auto simp: someone_releases_def keeps_refl)
  then show ?thesis by (simp add: bystander_def keeps_refl)
qed

text \<open>C24. The proxy keeps the load accounting. Other requests may take, move on and release leases of theirs, before each
  attempt and while it waits for its reply; all that is asked of them is that they follow the accounting and leave the
  lease of this request alone. Then everything \<^verbatim>\<open>Serve\<close> does to the backends is a run of the lease system, without
  underflow; and alone it returns every gauge to where it was, whichever way the request ended, a panic included.\<close>

theorem Serve_returns_load:
  assumes "\<And>b. idle (bs b)" and "lstep\<^sup>*\<^sup>* (linit bs) (sys w)" and "Serve fuel e maxAttempts turns cands w = Some (r, w')"
    and "\<And>k. traffic (t_env (turns k))" and "\<And>k. bystander (mid (t_dispatch (turns k)))"
  shows "lstep\<^sup>*\<^sup>* (sys w) (sys w') \<and> accountingErrors (sys w') = 0 \<and>
    ((\<forall>k. t_env (turns k) = (\<lambda>s. s) \<and> mid (t_dispatch (turns k)) = (\<lambda>s. s)) \<longrightarrow>
       inflight (backends (sys w') b) = inflight (backends (sys w) b) \<and> decodeTokens (backends (sys w') b) = decodeTokens (backends (sys w) b) \<and>
       activeTokens (backends (sys w') b) = activeTokens (backends (sys w) b) \<and> prefillTokens (backends (sys w') b) = prefillTokens (backends (sys w) b))"
proof -
  have I: "linv (sys w)" using linv_reachable [OF assms(2)] linv_init [of bs] assms(1) by blast
  note R = serve_loop_run [OF assms(3) [unfolded Serve_def] I assms(4,5)]
  have I': "linv (sys w')" using linv_reachable [OF _ I] R by blast
  then have "accountingErrors (sys w') = 0" by (simp add: linv_def)
  then show ?thesis using R settles_gauges [OF I I'] by (simp add: quiet_def)
qed

theorem Serve_returns_load_witness:
  "\<exists>r w'. Serve 3 env0 2 (\<lambda>k. turn0 (Reply reply0) :: unit turn) [0, 1] world0 = Some (r, w') \<and>
    inflight (backends (sys w') 0) = 0 \<and> accountingErrors (sys w') = 0"
proof -
  obtain r w' where s: "Serve 3 env0 2 (\<lambda>k. turn0 (Reply reply0) :: unit turn) [0, 1] world0 = Some (r, w')" using serve0 [of "\<lambda>_. Reply reply0"] by blast
  have "lstep\<^sup>*\<^sup>* (linit fleet0) (sys world0)" by (simp add: world0_def)
  from Serve_returns_load [OF fleet0_idle this s, of 0] s show ?thesis
    using fleet0_idle [of 0] by (auto simp: turn0_def dispatch0_def traffic_id bystander_id world0_def linit_def idle_def)
qed

section \<open>A stream cut short\<close>

lemma after_attempt_world:
  "snd (after_attempt m f b out c st w) = w \<or> (\<exists>l. snd (after_attempt m f b out c st w) = note_event (Retried l) w)"
proof -
  obtain n w' where a: "after_attempt m f b out c st w = (n, w')" by fastforce
  then show ?thesis using after_attempt_cases [OF a] by auto
qed

text \<open>C25. A stream the upstream cuts short before its terminal marker is meant to count as its failure. It does
  outside a server; inside one the reverse proxy aborts the handler before the attempt can report it, so the breaker
  hears \<open>Ignored\<close> and the backend's failure counter stays.\<close>

theorem truncated_stream_blames_nobody:
  assumes "deliver e m f t b token st w = (n, w')" and "url_ok (t_dispatch t)" and "trip (t_dispatch t) = Reply a"
    and "r_status a = 200" and "truncated e a" and "\<not> gone (t_dispatch t)"
  shows "if in_server e
    then n = Stop (Aborts AbortHandler) \<and> Recorded b Ignored token \<in> set (trace w') \<and> Failed w' = Failed w \<and> Served w' = Served w
    else Recorded b Failure token \<in> set (trace w') \<and> Failed w' b = Failed w b + 1"
proof -
  have nr: "\<not> refusal_of a" "\<not> isRetryable (r_status a) None" using assms(4) by (simp_all add: refusal_of_def isRetryable_def)
  have ne: "r_end a \<noteq> EOF" using assms(5) by (auto simp: truncated_def)
  define cr where "cr = ((tries st + 1 < m \<or> failovers st < f) \<and> length (remaining st) > 1)"
  obtain r c w1 where at: "attempt e cr (l_committed st) (t_dispatch t) b (prefillCharge (t_prefill t) b (bodylen e)) (note_event (Dispatched b) w) = (r, c, w1)"
    by (metis prod_cases3)
  obtain p i w0 w2 where p: "reverse_proxy e cr (l_committed st) (t_dispatch t) b i w0 = (p, w2)"
    "r = (if p_panics p then Panicked AbortHandler else Returned (conclude (gone (t_dispatch t)) p))" by (rule attempt_result [OF at assms(2)])
  note R = reverse_proxy_reply [OF p(1) assms(3)]
  have h: "p_hook p = Pass False" using R(3) [OF nr(1)] nr(2) by (simp add: retried_elsewhere_def)
  have pe: "p_err p \<noteq> None" "p_panics p = in_server e" using R(4,5) h assms(5) ne by simp_all
  have fr: "Served w1 = Served w" "Failed w1 = Failed w" using attempt_adds [OF at] unfolding adds_def by (auto simp: note_event_def)
  note D = assms(1) [unfolded deliver_def Let_def cr_def [symmetric] at runAttempt_def prod.case]
  show ?thesis
  proof (cases "in_server e")
    case True
    then have r: "r = Panicked AbortHandler" using p(2) pe(2) by simp
    have "n = Stop (Aborts AbortHandler)" "w' = record_verdict b Ignored token (finished (t_dispatch t)) w1"
      using D by (simp_all add: r verdict_of_def)
    then show ?thesis using True fr by (simp add: record_verdict_def note_event_def on_sys_def)
  next
    case False
    define out where "out = conclude (gone (t_dispatch t)) p"
    have r: "r = Returned out" using False p(2) pe(2) by (simp add: out_def)
    have o: "err out \<noteq> None" "\<not> clientGone out" "\<not> rejected out" "\<not> ignored out" using pe(1) h assms(6) by (simp_all add: out_def)
    define w2 where "w2 = record_verdict b Failure token (finished (t_dispatch t)) w1"
    have v: "verdict_of r = Failure" using o by (simp add: r verdict_of_def Classify_def)
    define w3 where "w3 = countOutcome b out w2"
    have w3: "Recorded b Failure token \<in> set (trace w3)" "Failed w3 b = Failed w b + 1"
      using o fr by (simp_all add: w3_def w2_def record_verdict_def countOutcome_def note_event_def on_sys_def)
    note D' = D [unfolded v, unfolded r attempt_result.case w2_def [symmetric], folded w3_def]
    obtain S where S: "after_attempt m f b out c S w3 = (n, w')" using D' by blast
    have "w' = w3 \<or> (\<exists>l. w' = note_event (Retried l) w3)" using after_attempt_world [of m f b out c S w3] by (simp add: S)
    then show ?thesis using False w3 by (auto simp: note_event_def)
  qed
qed

theorem truncated_stream_blames_nobody_witness:
  "\<exists>n w'. deliver env0 2 1 (turn0 (Reply (reply0\<lparr>r_body := [], r_end := ReadFails Transport\<rparr>)) :: unit turn) 0 False
      \<lparr>remaining = [0, 1], tries = 0, failovers = 0, l_committed = False, res = no_result\<rparr> world0 = (n, w') \<and>
    n = Stop (Aborts AbortHandler) \<and> Recorded 0 Ignored False \<in> set (trace w')"
proof -
  let ?a = "reply0\<lparr>r_body := [], r_end := ReadFails Transport\<rparr>"
  obtain n w' where d: "deliver env0 2 1 (turn0 (Reply ?a) :: unit turn) 0 False
      \<lparr>remaining = [0, 1], tries = 0, failovers = 0, l_committed = False, res = no_result\<rparr> world0 = (n, w')" by fastforce
  then show ?thesis using truncated_stream_blames_nobody [OF d]
    by (simp add: turn0_def dispatch0_def reply0_def truncated_def env0_def LineScanner_def)
qed

end
