(* ===== verification/CapacityRetry.thy ===== *)
theory CapacityRetry
  imports ProxyLoad
begin

text \<open>
  \<^verbatim>\<open>router/internal/gateway/capacity_retry.go\<close> and the end of \<^verbatim>\<open>inferenceHandler\<close> in \<^verbatim>\<open>gateway.go\<close>: a request the
  fleet has no room for waits, on the queue of the one backend worth waiting for or on a ladder of delays, and is
  decided again until its budget is spent. Every attempt is a \<open>Serve\<close> of \<open>Proxy\<close>, every queue the \<^verbatim>\<open>waiters\<close> of a
  backend. What other goroutines and clocks do in one turn of the loop is an \<open>iteration\<close>.
\<close>

section \<open>Definitions\<close>

text \<open>The errors of a selection; \<open>SaturatedOn\<close> is \<^verbatim>\<open>SaturatedError\<close> with its preferred backend and limit.\<close>

datatype sel_error = NoCandidates | AllSaturated | SaturatedOn "nat option" int | GuardBlocked

definition backoffSteps :: "ns list" where
  "backoffSteps = map (\<lambda>x. x * millisecond) [10, 20, 50, 100, 200, 500, 1000, 2000, 3000]"

text \<open>\<open>draw n\<close> is what \<^verbatim>\<open>rand.Int64N(n)\<close> returns.\<close>

definition backoffAt :: "(int \<Rightarrow> int) \<Rightarrow> nat \<Rightarrow> ns \<Rightarrow> ns" where
  "backoffAt draw n remain =
     (let step = (if n < length backoffSteps then backoffSteps ! n else last backoffSteps);
          d = step div 2 + draw (step div 2 + 1)
      in if d > remain then remain else d)"

datatype queue_outcome = queueWoken | queueExpired | queueAbandoned | queueFull

text \<open>How the select of \<^verbatim>\<open>awaitSlot\<close> ends.\<close>

datatype slot_event = SlotSent | BudgetOut | ClientLeft

record slot_wait =
  sw_joined :: "lsys \<Rightarrow> lsys"
  sw_waiting :: "lsys \<Rightarrow> lsys"
  sw_event :: slot_event

definition queue_depth :: "int \<Rightarrow> int \<Rightarrow> int" where
  "queue_depth nodeQueueDepth limit = (if nodeQueueDepth \<le> 0 then (if limit < 1 then 1 else limit) else nodeQueueDepth)"

definition on_waiters :: "nat \<Rightarrow> (queue \<Rightarrow> queue) \<Rightarrow> lsys \<Rightarrow> lsys" where
  "on_waiters b f s = upd_backend b (\<lambda>x. x\<lparr>waiters := f (waiters x)\<rparr>) s"

definition awaitSlot :: "int \<Rightarrow> nat \<Rightarrow> int \<Rightarrow> slot_wait \<Rightarrow> lsys \<Rightarrow> queue_outcome \<times> lsys" where
  "awaitSlot nodeQueueDepth b limit0 sw s =
     (let depth = queue_depth nodeQueueDepth limit0; limit = (if limit0 < 1 then 1 else limit0) in
      case Join depth False (waiters (backends s b)) of
        (None, _) \<Rightarrow> (queueFull, s)
      | (Some t, q) \<Rightarrow>
          (let s1 = sw_joined sw (on_waiters b (\<lambda>_. q) s) in
           if inflight (backends s1 b) < limit then (queueWoken, on_waiters b (Leave t) s1)
           else
             (let s2 = sw_waiting sw s1 in
              case sw_event sw of
                SlotSent \<Rightarrow> (queueWoken, s2)
              | BudgetOut \<Rightarrow> (queueExpired, on_waiters b (Leave t) s2)
              | ClientLeft \<Rightarrow> (queueAbandoned, on_waiters b (Leave t) s2))))"

definition capacityReason :: "sel_error serve_error option \<Rightarrow> string" where
  "capacityReason e = (case e of
     Some (Selection AllSaturated) \<Rightarrow> ''capacity_saturated''
   | Some (Selection (SaturatedOn p l)) \<Rightarrow> ''capacity_saturated''
   | Some (Selection GuardBlocked) \<Rightarrow> ''capacity_guard_blocked''
   | _ \<Rightarrow> [])"

definition isCapacityRefusal :: "sel_error serve_error option \<Rightarrow> bool" where
  "isCapacityRefusal e = (capacityReason e \<noteq> [])"

text \<open>What an iteration meets: the time at its top, the candidates, the turns of \<^verbatim>\<open>Serve\<close>, the time after a refusal and
  at the check of the budget, the wait on a queue, and the delay: its draws, whether the client left during it, and the
  time then.\<close>

record iteration =
  i_top :: ns
  i_cands :: "nat list"
  i_turns :: "nat \<Rightarrow> sel_error turn"
  i_refused :: ns
  i_check :: ns
  i_wait :: slot_wait
  i_draw :: "int \<Rightarrow> int"
  i_gone :: bool
  i_left :: ns

datatype retry_event = Settled string string ns | RetryCounted string string | QueueFull nat | Delay ns

text \<open>The result carries \<^verbatim>\<open>errNodeQueueFull\<close> beside the errors of \<^verbatim>\<open>Serve\<close>.\<close>

datatype retry_end = Settles "sel_error result" | NodeQueueFull "sel_error result" | Panics panic

record retry_state =
  rs_attempt :: nat
  rs_res :: "sel_error result"
  queuedOn :: "nat option"
  lastReason :: string
  firstRefusal :: ns
  waited :: ns
  revents :: "retry_event list"

record retry_config =
  NodeQueueDepth :: int
  RetryTimeLimit :: ns
  MaxAttempts :: nat

definition settle :: "string \<Rightarrow> retry_state \<Rightarrow> retry_state" where
  "settle how r = (if lastReason r = [] then r else r\<lparr>revents := revents r @ [Settled (lastReason r) how (waited r)]\<rparr>)"

datatype retry_next = Return retry_end | Loop

definition start_wait :: "iteration \<Rightarrow> retry_state \<Rightarrow> retry_state" where
  "start_wait it r = (if lastReason r \<noteq> [] then r\<lparr>waited := i_top it - firstRefusal r\<rparr> else r)"

text \<open>After \<^verbatim>\<open>Serve\<close>: a slot the re-decision did not spend is passed on.\<close>

definition pass_slot :: "sel_error result \<Rightarrow> retry_state \<Rightarrow> pworld \<Rightarrow> pworld" where
  "pass_slot a r w = (case queuedOn r of None \<Rightarrow> w | Some b \<Rightarrow> (if Backend a \<noteq> Some b then on_sys (on_waiters b Wake) w else w))"

text \<open>The delay of the ladder.\<close>

definition back_off :: "iteration \<Rightarrow> ns \<Rightarrow> sel_error result \<Rightarrow> retry_state \<Rightarrow> retry_next \<times> retry_state" where
  "back_off it remain a r =
     (let r1 = r\<lparr>revents := revents r @ [RetryCounted (lastReason r) ''retried'', Delay (backoffAt (i_draw it) (rs_attempt r) remain)]\<rparr> in
      if i_gone it then (Return (Settles a), settle ''abandoned'' (r1\<lparr>waited := i_left it - firstRefusal r1\<rparr>))
      else (Loop, r1\<lparr>rs_attempt := rs_attempt r1 + 1\<rparr>))"

text \<open>The preferred backend of a refusal that reached no upstream.\<close>

definition worth_waiting :: "sel_error result \<Rightarrow> (nat \<times> int) option" where
  "worth_waiting a = (case Err a of Some (Selection (SaturatedOn (Some b) l)) \<Rightarrow> (if Attempts a = 0 then Some (b, l) else None) | _ \<Rightarrow> None)"

definition refuse :: "retry_config \<Rightarrow> iteration \<Rightarrow> sel_error result \<Rightarrow> retry_state \<Rightarrow> ns \<Rightarrow> pworld \<Rightarrow> retry_next \<times> retry_state \<times> pworld" where
  "refuse rc it a r0 deadline w =
     (let r1 = (if lastReason r0 = [] then r0\<lparr>firstRefusal := i_refused it\<rparr> else r0);
          r = r1\<lparr>lastReason := capacityReason (Err a)\<rparr>;
          spent = r\<lparr>revents := revents r @ [RetryCounted (lastReason r) ''exhausted'']\<rparr>
      in if deadline - i_check it \<le> 0 then (Return (Settles a), settle ''expired'' spent, w)
         else
           (case worth_waiting a of
              None \<Rightarrow> (case back_off it (deadline - i_check it) a r of (n, r2) \<Rightarrow> (n, r2, w))
            | Some (b, limit) \<Rightarrow>
                (case awaitSlot (NodeQueueDepth rc) b limit (i_wait it) (sys w) of (o', s) \<Rightarrow>
                   (let w1 = w\<lparr>sys := s\<rparr> in
                    case o' of
                      queueWoken \<Rightarrow> (Loop, r\<lparr>queuedOn := Some b, rs_attempt := rs_attempt r + 1\<rparr>, w1)
                    | queueExpired \<Rightarrow> (Return (Settles a), settle ''expired'' spent, w1)
                    | queueAbandoned \<Rightarrow> (Return (Settles a), settle ''abandoned'' r, w1)
                    | queueFull \<Rightarrow> (Return (NodeQueueFull a), r\<lparr>revents := revents r @ [QueueFull b]\<rparr>, w1)))))"

definition iterate :: "retry_config \<Rightarrow> serve_env \<Rightarrow> iteration \<Rightarrow> retry_state \<Rightarrow> ns \<Rightarrow> pworld \<Rightarrow> (retry_next \<times> retry_state \<times> pworld) option" where
  "iterate rc e it r0 deadline w =
     (let r = start_wait it r0 in
      if i_cands it = [] then Some (Return (Settles (rs_res r)), settle ''abandoned'' r, w)
      else
        (case Serve (length (i_cands it) + 1) e (MaxAttempts rc) (i_turns it) (i_cands it) w of
           None \<Rightarrow> None
         | Some (Aborts p, w1) \<Rightarrow> Some (Return (Panics p), r, w1)
         | Some (Answer a, w1) \<Rightarrow>
             (let w2 = pass_slot a r w1; r2 = r\<lparr>rs_res := a, queuedOn := None\<rparr> in
              if RetryTimeLimit rc \<le> 0 \<or> \<not> isCapacityRefusal (Err a) \<or> Committed a
              then Some (Return (Settles a), settle (if Err a = None then ''satisfied'' else ''abandoned'') r2, w2)
              else Some (refuse rc it a r2 deadline w2))))"

fun retry_loop :: "nat \<Rightarrow> retry_config \<Rightarrow> serve_env \<Rightarrow> (nat \<Rightarrow> iteration) \<Rightarrow> nat \<Rightarrow> retry_state \<Rightarrow> ns \<Rightarrow> pworld \<Rightarrow>
    (retry_end \<times> retry_state \<times> pworld) option" where
  "retry_loop 0 rc e its k r deadline w = None"
| "retry_loop (Suc fuel) rc e its k r deadline w =
     (case iterate rc e (its k) r deadline w of
        None \<Rightarrow> None
      | Some (Return x, r1, w1) \<Rightarrow> Some (x, r1, w1)
      | Some (Loop, r1, w1) \<Rightarrow> retry_loop fuel rc e its (Suc k) r1 deadline w1)"

definition retry_init :: retry_state where
  "retry_init = \<lparr>rs_attempt = 0, rs_res = no_result, queuedOn = None, lastReason = [], firstRefusal = 0, waited = 0, revents = []\<rparr>"

definition serveWithCapacityRetry :: "nat \<Rightarrow> retry_config \<Rightarrow> serve_env \<Rightarrow> (nat \<Rightarrow> iteration) \<Rightarrow> ns \<Rightarrow> pworld \<Rightarrow>
    (retry_end \<times> retry_state \<times> pworld) option" where
  "serveWithCapacityRetry fuel rc e its now w = retry_loop fuel rc e its 0 retry_init (now + RetryTimeLimit rc) w"

text \<open>What the handler writes once the request has been served: nothing, or a status of its own.\<close>

definition answer_for :: "bool \<Rightarrow> retry_end \<Rightarrow> int option" where
  "answer_for ctxErr x =
     (case x of
        Panics p \<Rightarrow> None
      | NodeQueueFull a \<Rightarrow> (if Committed a then None else Some 503)
      | Settles a \<Rightarrow>
          (if Committed a \<or> Err a = None then None
           else (case Err a of
                   Some (Selection GuardBlocked) \<Rightarrow> Some 429
                 | Some (Selection AllSaturated) \<Rightarrow> Some 429
                 | Some (Selection (SaturatedOn p l)) \<Rightarrow> Some 429
                 | _ \<Rightarrow> (if ctxErr then Some 499 else Some 502))))"

end
