(* ===== verification/CapacityProps.thy ===== *)
theory CapacityProps
  imports CapacityRetry
begin

text \<open>
  What waiting for capacity promises: it ends with the budget, a waiter never leaves its ticket behind, and the slot
  that woke a request is handed on, but for one way out. The last property is about the answer the client gets.
\<close>

text \<open>A concrete request of two candidates; the clock reads \<open>t\<close> at every check of the budget.\<close>

definition config0 :: retry_config where
  "config0 = \<lparr>NodeQueueDepth = 0, RetryTimeLimit = second, MaxAttempts = 2\<rparr>"

definition wait0 :: slot_wait where
  "wait0 = \<lparr>sw_joined = (\<lambda>s. s), sw_waiting = (\<lambda>s. s), sw_event = BudgetOut\<rparr>"

definition iteration0 :: "ns \<Rightarrow> (nat \<Rightarrow> sel_error turn) \<Rightarrow> iteration" where
  "iteration0 t turns = \<lparr>i_top = 0, i_cands = [0, 1], i_turns = turns, i_refused = 1, i_check = t, i_wait = wait0, i_draw = (\<lambda>_. 0),
     i_gone = False, i_left = 0\<rparr>"

text \<open>A selection that finds every candidate saturated and prefers the first.\<close>

definition full_turn :: "sel_error turn" where
  "full_turn = (turn0 (NoReply Transport))\<lparr>t_pick := (\<lambda>xs. Inl (SaturatedOn (Some (hd xs)) 0))\<rparr>"

section \<open>The budget\<close>

lemma iterate_defined:
  assumes "picks_members (i_turns it)"
  shows "iterate rc e it r deadline w \<noteq> None"
proof (cases "i_cands it = []")
  case False
  obtain y w1 where "Serve (length (i_cands it) + 1) e (MaxAttempts rc) (i_turns it) (i_cands it) w = Some (y, w1)"
    using Serve_some [OF assms, of "i_cands it" "length (i_cands it) + 1" e "MaxAttempts rc" w] by auto
  then show ?thesis using False by (cases y) (simp_all add: iterate_def Let_def del: not_None_eq)
qed (simp add: iterate_def Let_def)

lemma refuse_spent: "deadline - i_check it \<le> 0 \<Longrightarrow> \<exists>x. fst (refuse rc it a r deadline w) = Return x"
  by (simp add: refuse_def Let_def)

lemma iterate_spent:
  assumes "iterate rc e it r deadline w = Some (Loop, r1, w1)"
  shows "i_check it < deadline"
proof (rule ccontr)
  assume "\<not> i_check it < deadline"
  then have sp: "deadline - i_check it \<le> 0" by simp
  show False
  proof (cases "i_cands it = []")
    case False
    show False
    proof (cases "Serve (length (i_cands it) + 1) e (MaxAttempts rc) (i_turns it) (i_cands it) w")
      case (Some p)
      obtain y w2 where p: "p = (y, w2)" by fastforce
      show False
      proof (cases y)
        case (Answer a)
        then show False using assms False Some p refuse_spent [OF sp, of rc a]
          by (auto simp: iterate_def Let_def split: if_splits) (metis fst_conv retry_next.distinct(1))
      qed (use assms False Some p in \<open>simp add: iterate_def Let_def\<close>)
    qed (use assms False in \<open>simp add: iterate_def Let_def\<close>)
  qed (use assms in \<open>simp add: iterate_def Let_def\<close>)
qed

lemma capacity_ends:
  assumes "\<And>k. picks_members (i_turns (its k))" and "now + RetryTimeLimit rc \<le> i_check (its n)" and "n < fuel"
  shows "\<exists>x r w'. serveWithCapacityRetry fuel rc e its now w = Some (x, r, w')"
proof -
  have "\<exists>y. retry_loop fuel rc e its k r (now + RetryTimeLimit rc) w = Some y" if "k \<le> n" "n - k < fuel" for fuel k r w
    using that
  proof (induction fuel arbitrary: k r w)
    case (Suc fuel)
    obtain nx r1 w1 where it: "iterate rc e (its k) r (now + RetryTimeLimit rc) w = Some (nx, r1, w1)"
      using iterate_defined [OF assms(1)] by (metis not_None_eq prod_cases3)
    show ?case
    proof (cases nx)
      case Loop
      have "k \<noteq> n" using iterate_spent [OF it [unfolded Loop]] assms(2) by auto
      then show ?thesis using Suc.IH [of "Suc k" r1 w1] Suc.prems it Loop by simp
    qed (simp add: it)
  qed simp
  from this [of 0 fuel retry_init w] show ?thesis using assms(3) by (auto simp: serveWithCapacityRetry_def)
qed

text \<open>C26. Waiting for capacity ends: as soon as one check of the clock finds the budget spent the request has its
  answer, whatever selections, replies and queues did before.\<close>

theorem retry_ends_with_budget:
  assumes "\<And>k. picks_members (i_turns (its k))" and "now + RetryTimeLimit rc \<le> i_check (its n)" and "n < fuel"
  shows "\<exists>x r w'. serveWithCapacityRetry fuel rc e its now w = Some (x, r, w')"
  by (rule capacity_ends [where its = its and n = n, OF assms])

theorem retry_ends_with_budget_witness:
  "\<exists>x r w'. serveWithCapacityRetry 4 config0 env0 (\<lambda>k. iteration0 (if k = 3 then 2 * second else 0) (\<lambda>_. full_turn)) 0 world0 = Some (x, r, w')"
  using retry_ends_with_budget [of "\<lambda>k. iteration0 (if k = 3 then 2 * second else 0) (\<lambda>_. full_turn)" 0 config0 3 4 env0 world0]
  by (simp add: iteration0_def config0_def picks_members_def full_turn_def)

section \<open>Delays and queues\<close>

lemma backoffSteps_range: "s \<in> set backoffSteps \<Longrightarrow> 10 * millisecond \<le> s \<and> s \<le> 3 * second"
  by (auto simp: backoffSteps_def)

lemma backoff_bounds:
  assumes "\<And>k. 0 < k \<Longrightarrow> 0 \<le> draw k \<and> draw k < k" and "0 \<le> remain"
  shows "0 \<le> backoffAt draw n remain" and "backoffAt draw n remain \<le> remain" and "backoffAt draw n remain \<le> 3 * second"
    and "5 * millisecond \<le> remain \<Longrightarrow> 5 * millisecond \<le> backoffAt draw n remain"
proof -
  define step where "step = (if n < length backoffSteps then backoffSteps ! n else last backoffSteps)"
  have ne: "backoffSteps \<noteq> []" by (simp add: backoffSteps_def)
  have "step \<in> set backoffSteps" using ne by (auto simp: step_def)
  then have st: "10 * millisecond \<le> step" "step \<le> 3 * second" using backoffSteps_range by auto
  then have "10 \<le> step" by simp
  then have d: "0 \<le> draw (step div 2 + 1)" "draw (step div 2 + 1) \<le> step div 2" using assms(1) [of "step div 2 + 1"] by auto
  have b: "backoffAt draw n remain = min (step div 2 + draw (step div 2 + 1)) remain"
    by (simp add: backoffAt_def Let_def step_def min_def)
  have h: "5 * millisecond \<le> step div 2" "step div 2 + step div 2 \<le> step" using st(1) by auto
  show "0 \<le> backoffAt draw n remain" "backoffAt draw n remain \<le> remain" "backoffAt draw n remain \<le> 3 * second"
    "5 * millisecond \<le> remain \<Longrightarrow> 5 * millisecond \<le> backoffAt draw n remain"
    unfolding b using d h st(2) \<open>10 \<le> step\<close> assms(2) by auto
qed

lemma waiters_simps [simp]:
  "waiters (backends (on_waiters b f s) c) = (if c = b then f (waiters (backends s b)) else waiters (backends s c))"
  "inflight (backends (on_waiters b f s) c) = inflight (backends s c)"
  by (simp_all add: on_waiters_def upd_backend_def)

lemma Wake_waiters: "set (qwaiters (Wake q)) \<subseteq> set (qwaiters q)" "qnext (Wake q) = qnext q"
  by (auto simp: Wake_def wake_pop_def wake_send_def wake_store_def split: list.splits)

lemma Leave_out: "distinct (qwaiters q) \<Longrightarrow> t \<notin> set (qwaiters (Leave t q))"
  using Wake_waiters(1) [of "leave_store t q"]
  by (auto simp: Leave_def leave_locked_def Let_def leave_store_def split: if_splits)

text \<open>Other goroutines around a wait, as far as this waiter is concerned: they keep the queue free of duplicates, and a
  send on its channel means that its ticket was popped.\<close>

definition fair_wait :: "nat \<Rightarrow> slot_wait \<Rightarrow> lsys \<Rightarrow> bool" where
  "fair_wait b sw s \<longleftrightarrow>
     (let q = waiters (backends s b); t = qnext q;
          s1 = sw_joined sw (on_waiters b (\<lambda>q. q\<lparr>qwaiters := qwaiters q @ [t], qn := int (length (qwaiters q)) + 1, qnext := t + 1\<rparr>) s);
          s2 = sw_waiting sw s1
      in distinct (qwaiters (waiters (backends s1 b))) \<and> distinct (qwaiters (waiters (backends s2 b))) \<and>
         (sw_event sw = SlotSent \<longrightarrow> t \<notin> set (qwaiters (waiters (backends s2 b)))))"

text \<open>The wait for a slot: it is refused exactly when the queue is at its depth, one waiter per concurrency slot
  unless configured otherwise, and then changes nothing; otherwise it reports a slot when one was sent or was free
  already, and whichever way it ends its ticket is out of the queue.\<close>

theorem awaitSlot_leaves_no_ticket:
  assumes "awaitSlot d b limit sw s = (o', s')" and "fair_wait b sw s"
  shows "(o' = queueFull) = (int (length (qwaiters (waiters (backends s b)))) \<ge> queue_depth d limit) \<and>
    0 < queue_depth d limit \<and> (o' = queueFull \<longrightarrow> s' = s) \<and>
    (o' \<noteq> queueFull \<longrightarrow> qnext (waiters (backends s b)) \<notin> set (qwaiters (waiters (backends s' b))))"
proof -
  let ?q = "waiters (backends s b)"
  let ?t = "qnext ?q"
  let ?q1 = "?q\<lparr>qwaiters := qwaiters ?q @ [?t], qn := int (length (qwaiters ?q)) + 1, qnext := ?t + 1\<rparr>"
  have dep: "0 < queue_depth d limit" by (auto simp: queue_depth_def)
  show ?thesis
  proof (cases "int (length (qwaiters ?q)) \<ge> queue_depth d limit")
    case True
    then have "Join (queue_depth d limit) False ?q = (None, ?q)" using dep by (simp add: Join_def)
    then have "o' = queueFull" "s' = s" using assms(1) by (simp_all add: awaitSlot_def Let_def)
    then show ?thesis using True dep by simp
  next
    case False
    then have J: "Join (queue_depth d limit) False ?q = (Some ?t, ?q1)" by (simp add: Join_def Let_def)
    define s1 where "s1 = sw_joined sw (on_waiters b (\<lambda>_. ?q1) s)"
    define s2 where "s2 = sw_waiting sw s1"
    have same: "on_waiters b (\<lambda>_. ?q1) s = on_waiters b (\<lambda>q. q\<lparr>qwaiters := qwaiters q @ [?t], qn := int (length (qwaiters q)) + 1, qnext := ?t + 1\<rparr>) s"
      by (simp add: on_waiters_def upd_backend_def)
    have F: "distinct (qwaiters (waiters (backends s1 b)))" "distinct (qwaiters (waiters (backends s2 b)))"
      "sw_event sw = SlotSent \<longrightarrow> ?t \<notin> set (qwaiters (waiters (backends s2 b)))"
      using assms(2) unfolding fair_wait_def Let_def same [symmetric] s1_def [symmetric] s2_def [symmetric] by blast+
    have A: "(o', s') = (if inflight (backends s1 b) < (if limit < 1 then 1 else limit) then (queueWoken, on_waiters b (Leave ?t) s1)
        else (case sw_event sw of SlotSent \<Rightarrow> (queueWoken, s2) | BudgetOut \<Rightarrow> (queueExpired, on_waiters b (Leave ?t) s2)
          | ClientLeft \<Rightarrow> (queueAbandoned, on_waiters b (Leave ?t) s2)))"
      unfolding assms(1) [symmetric] awaitSlot_def Let_def J option.case prod.case s1_def s2_def by (rule refl)
    then have "o' \<noteq> queueFull" by (auto split: if_splits slot_event.splits)
    moreover have "?t \<notin> set (qwaiters (waiters (backends s' b)))"
      using A F Leave_out by (auto split: if_splits slot_event.splits)
    ultimately show ?thesis using False dep by simp
  qed
qed

theorem awaitSlot_leaves_no_ticket_witness:
  "\<exists>o' s'. awaitSlot 0 0 1 (wait0\<lparr>sw_joined := upd_backend 0 (AddInflight 1)\<rparr>) (linit fleet0) = (o', s') \<and> o' \<noteq> queueFull \<and>
    qnext (waiters (fleet0 0)) \<notin> set (qwaiters (waiters (backends s' 0)))"
proof -
  let ?sw = "wait0\<lparr>sw_joined := upd_backend 0 (AddInflight 1)\<rparr>"
  obtain o' s' where a: "awaitSlot 0 0 1 ?sw (linit fleet0) = (o', s')" by fastforce
  have f: "fair_wait 0 ?sw (linit fleet0)"
    by (simp add: fair_wait_def Let_def wait0_def upd_backend_def on_waiters_def AddInflight_def linit_def fleet0_def newBackend_def empty_queue_def)
  show ?thesis using awaitSlot_leaves_no_ticket [OF a f] a
    by (simp add: queue_depth_def linit_def fleet0_def newBackend_def empty_queue_def)
qed

section \<open>Handing the slot on\<close>

definition queue_of :: "lsys \<Rightarrow> nat \<Rightarrow> queue" where
  "queue_of s b = waiters (backends s b)"

text \<open>Operations on lease \<open>i\<close> that leave the queues alone.\<close>

definition calm :: "nat \<Rightarrow> lsys \<Rightarrow> lsys \<Rightarrow> bool" where
  "calm i s s' \<longleftrightarrow> (\<forall>x. queue_of s' x = queue_of s x) \<and> lb (leases s' ! i) = lb (leases s ! i) \<and> length (leases s') = length (leases s)"

lemma calm_refl: "calm i s s"
  by (simp add: calm_def)

lemma calm_trans: "calm i s s1 \<Longrightarrow> calm i s1 s2 \<Longrightarrow> calm i s s2"
  by (simp add: calm_def)

lemma calm_upd: "(\<And>x. waiters (f x) = waiters x) \<Longrightarrow> calm i s (upd_backend b f s)"
  by (simp add: calm_def queue_of_def upd_backend_def)

lemma lb_update: "(\<And>l. lb (g l) = lb l) \<Longrightarrow> lb (xs[j := g (xs ! j)] ! i) = lb (xs ! i)"
  by (cases "i = j"; cases "j < length xs") (simp_all add: list_update_beyond)

lemma calm_upd_lease: "(\<And>l. lb (g l) = lb l) \<Longrightarrow> calm i s (upd_lease j g s)"
  by (simp add: calm_def queue_of_def upd_lease_def lb_update)

lemma calm_both:
  "(\<And>x. waiters (f x) = waiters x) \<Longrightarrow> (\<And>l. lb (g l) = lb l) \<Longrightarrow> calm i s (upd_backend b f (upd_lease j g s))"
  "(\<And>x. waiters (f x) = waiters x) \<Longrightarrow> (\<And>l. lb (g l) = lb l) \<Longrightarrow> calm i s (upd_lease j g (upd_backend b f s))"
  by (blast intro: calm_trans calm_upd calm_upd_lease)+

lemmas token_ops = AddActiveTokens_def AddPrefillTokens_def AddDecodeTokens_def AddInflight_def StoreInflight_def CountRequest_def

lemma calm_start:
  "calm i s (StartActive n i s)" "calm i s (StartPrefill n i s)" "calm i s (StartDecode n i s)" "calm i s (EndPrefill i s)"
  by (auto simp: StartActive_def StartPrefill_def StartDecode_def EndPrefill_def Let_def token_ops calm_refl intro!: calm_both)

lemma first_token_calm: "calm i s (first_token d b i n s)"
proof -
  have "calm i s (upd_backend b (ObserveTTFT (first_byte d) (first_byte d - started d)) s)"
    by (rule calm_upd) (simp add: ObserveTTFT_def evictTTFT_def Let_def)
  then show ?thesis unfolding first_token_def by (meson calm_start calm_trans)
qed

lemma admit_check_waiters: "waiters (snd (admit_check now b)) = waiters b"
  by (auto simp: admit_check_def TTFTp90_def evictTTFT_def Let_def split: prod.splits)

lemma Acquire_calm:
  "queue_of (snd (Acquire now b s)) x = queue_of s x" "lb (leases (snd (Acquire now b s)) ! length (leases s)) = b"
proof -
  let ?i = "length (leases s)"
  define s1 where "s1 = acquire_inc b s"
  have 1: "queue_of s1 x = queue_of s x" "lb (leases s1 ! ?i) = b"
    by (simp_all add: s1_def acquire_inc_def queue_of_def upd_backend_def token_ops)
  have 2: "calm ?i s1 (acquire_count ?i s1)" unfolding acquire_count_def by (rule calm_both) (simp_all add: token_ops)
  have 3: "calm ?i t (acquire_check now ?i t)" for t
    by (cases "admit_check now (backends t (lb (leases t ! ?i)))")
      (use admit_check_waiters [of now "backends t (lb (leases t ! ?i))"] lb_update [of "\<lambda>l. l\<lparr>lphase := Checked c\<rparr>" "leases t" ?i ?i for c]
        in \<open>auto simp: acquire_check_def Let_def calm_def queue_of_def upd_backend_def upd_lease_def\<close>)
  have 4: "calm ?i t (acquire_admit ?i t)" for t unfolding acquire_admit_def Let_def by (rule calm_both) simp_all
  have "calm ?i s1 (snd (Acquire now b s))" using calm_trans [OF calm_trans [OF 2 3] 4] by (simp add: Acquire_def Let_def s1_def)
  then show "queue_of (snd (Acquire now b s)) x = queue_of s x" "lb (leases (snd (Acquire now b s)) ! ?i) = b"
    using 1 by (simp_all add: calm_def)
qed

lemma Release_queue:
  assumes "\<not> lonce (leases s ! i)"
  shows "queue_of (Release i s) x = (if x = lb (leases s ! i) then Wake (queue_of s x) else queue_of s x)"
proof -
  have a: "calm i t (release_locked i t)" for t unfolding release_locked_def Let_def by (rule calm_both) (simp_all add: token_ops)
  have b: "calm i t (release_dec i t)" for t
    using calm_both(1) [of "AddInflight (- 1)" "\<lambda>l. l\<lparr>lphase := Decremented (inflight (backends t (lb (leases t ! i))) - 1)\<rparr>" i t "lb (leases t ! i)" i]
    by (simp add: release_dec_def Let_def calm_def queue_of_def token_ops)
  have c: "calm i t (release_clamp i t)" for t unfolding release_clamp_def Let_def by (rule calm_both) (simp_all add: token_ops)
  have n: "calm i t (release_note i t)" for t unfolding release_note_def by (rule calm_both) (simp_all add: NoteRelease_def)
  let ?t = "release_clamp i (release_dec i (release_locked i s))"
  have t: "calm i s ?t" using a b c calm_trans by blast
  have "queue_of (release_wake i ?t) x = (if x = lb (leases ?t ! i) then Wake (queue_of ?t x) else queue_of ?t x)"
    by (simp add: release_wake_def queue_of_def upd_backend_def upd_lease_def)
  then show ?thesis using t n [of "release_wake i ?t"] assms by (simp add: Release_def calm_def)
qed

lemma attempt_queue:
  assumes "attempt e cr c d b ch w = (r, c', w')" and "linv (sys w)" and "quiet d"
  shows "queue_of (sys w') x = (if x = b then Wake (queue_of (sys w) x) else queue_of (sys w) x)"
proof -
  let ?i = "length (leases (sys w))"
  define s0 where "s0 = snd (Acquire (started d) b (sys w))"
  have q: "Acquire (started d) b (sys w) = (?i, s0)" using Acquire_leases(2) by (simp add: s0_def prod_eq_iff)
  have run0: "lstep\<^sup>*\<^sup>* (sys w) s0" and h0: "in_phase s0 ?i Held"
    using Acquire_run [where s = "sys w" and now = "started d" and b = b] by (simp_all add: q)
  define s1 where "s1 = StartPrefill ch ?i (StartActive (EstimateTokens (int (bodylen e))) ?i s0)"
  define w1 where "w1 = w\<lparr>sys := s1\<rparr>"
  have i0: "?i < length (leases s0)" using held_bound [OF h0] .
  have k1: "keeps ?i s0 s1" "only ?i s0 s1" unfolding s1_def
    using keeps_trans [OF keeps_start(1) [OF i0] keeps_start(2) [OF keeps_length [OF i0 only_start(1)]]] only_trans [OF only_start(1) only_start(2)] by blast+
  have c1: "calm ?i s0 s1" unfolding s1_def using calm_start calm_trans by blast
  have fin: "queue_of (Release ?i s2) x = (if x = b then Wake (queue_of (sys w) x) else queue_of (sys w) x)"
    if k: "keeps ?i s0 s2" and cm: "calm ?i s0 s2" for s2
  proof -
    have "in_phase s2 ?i Held" "linv s2"
      using k h0 linv_reachable [OF rtranclp_trans [OF run0] assms(2)] by (auto simp: keeps_def)
    then have "\<not> lonce (leases s2 ! ?i)" using linv_lease [of s2 ?i] by (auto simp: lease_ok_def fired_def in_phase_def)
    moreover have "lb (leases s2 ! ?i) = b" "queue_of s2 x = queue_of (sys w) x"
      using cm Acquire_calm [where now = "started d" and b = b and s = "sys w"] by (simp_all add: calm_def s0_def [symmetric])
    ultimately show ?thesis by (auto simp: Release_queue)
  qed
  note R = assms(1) [unfolded attempt_def q prod.case Let_def s1_def [symmetric] w1_def [symmetric]]
  show ?thesis
  proof (cases "url_ok d")
    case False
    then show ?thesis using R fin [OF k1(1) c1] by (auto simp: w1_def)
  next
    case True
    obtain p w2 where p: "reverse_proxy e cr c d b ?i (on_sys (mid d) w1) = (p, w2)" by fastforce
    have w': "sys w' = Release ?i (sys w2)" using R True p by auto
    have m: "sys (on_sys (mid d) w1) = s1" using assms(3) by (simp add: quiet_def w1_def)
    have "sys w2 = s1 \<or> sys w2 = first_token d b ?i (bodylen e) s1" using reverse_proxy_sys [OF p] m by simp
    then have c2: "calm ?i s0 (sys w2)" using c1 first_token_calm calm_trans by metis
    have "keeps ?i s0 (sys w2)" using keeps_trans [OF k1(1)] reverse_proxy_keeps(1) [OF p] keeps_length [OF i0 k1(2)] m by simp
    then show ?thesis unfolding w' using fin c2 by blast
  qed
qed

lemma after_attempt_backend:
  assumes "after_attempt m f b out c st w = (n, w')"
  shows "n = Stop (Answer r) \<Longrightarrow> Backend r = Backend (res st)" and "n = Again st1 \<Longrightarrow> Backend (res st1) = Backend (res st)"
  using assms by (auto simp: after_attempt_def Let_def split: if_splits)

definition woken_at :: "nat \<Rightarrow> lsys \<Rightarrow> lsys \<Rightarrow> bool" where
  "woken_at a s s' \<longleftrightarrow> (\<forall>x. queue_of s' x = (if x = a then Wake (queue_of s x) else queue_of s x))"

lemma deliver_queue:
  assumes "deliver e m f t b token st w = (n, w')" and "linv (sys w)" and "quiet (t_dispatch t)"
  shows "woken_at b (sys w) (sys w')" and "n = Stop (Answer r) \<Longrightarrow> Backend r = Some b" and "n = Again st1 \<Longrightarrow> Backend (res st1) = Some b"
proof -
  define cr where "cr = ((tries st + 1 < m \<or> failovers st < f) \<and> length (remaining st) > 1)"
  define st0 where "st0 = st\<lparr>res := (res st)\<lparr>Backend := Some b, Attempts := Attempts (res st) + 1\<rparr>\<rparr>"
  obtain r0 c w2 where at: "attempt e cr (l_committed st) (t_dispatch t) b (prefillCharge (t_prefill t) b (bodylen e)) (note_event (Dispatched b) w) = (r0, c, w2)"
    by (metis prod_cases3)
  define w3 where "w3 = record_verdict b (verdict_of r0) token (finished (t_dispatch t)) w2"
  have "queue_of (sys w3) x = queue_of (sys w2) x" for x by (simp add: w3_def record_verdict_def queue_of_def upd_backend_def)
  then have wk: "woken_at b (sys w) (sys w3)" using attempt_queue [OF at _ assms(3)] assms(2) by (simp add: woken_at_def)
  note D = assms(1) [unfolded deliver_def Let_def cr_def [symmetric] st0_def [symmetric] at runAttempt_def prod.case w3_def [symmetric]]
  have "woken_at b (sys w) (sys w') \<and> (n = Stop (Answer r) \<longrightarrow> Backend r = Some b) \<and> (n = Again st1 \<longrightarrow> Backend (res st1) = Some b)"
  proof (cases r0)
    case (Panicked p)
    then show ?thesis using D wk by auto
  next
    case (Returned out)
    note A = D [unfolded Returned attempt_result.case]
    have "sys w' = sys w3" using arg_cong [where f = "\<lambda>x. sys (snd x)", OF A] by (simp add: after_attempt_sys countOutcome_sys)
    then show ?thesis using wk after_attempt_backend [OF A] by (auto simp: st0_def)
  qed
  then show "woken_at b (sys w) (sys w')" and "n = Stop (Answer r) \<Longrightarrow> Backend r = Some b" and "n = Again st1 \<Longrightarrow> Backend (res st1) = Some b"
    by blast+
qed

definition backend_after :: "'e loop_next \<Rightarrow> nat option \<Rightarrow> bool" where
  "backend_after n b \<longleftrightarrow> (case n of Stop (Answer r) \<Rightarrow> Backend r = b | Stop (Aborts p) \<Rightarrow> True | Again st \<Rightarrow> Backend (res st) = b)"

text \<open>\<open>passes w w' tr\<close>: the queue of every backend was woken once for each of its dispatches in \<open>tr\<close>.\<close>

definition passes :: "pworld \<Rightarrow> pworld \<Rightarrow> pevent list \<Rightarrow> bool" where
  "passes w w' tr \<longleftrightarrow> trace w' = trace w @ tr \<and>
     (\<forall>x. queue_of (sys w') x = (Wake ^^ count_list (dispatched tr) x) (queue_of (sys w) x))"

lemma passes_trans: "passes w w1 tr \<Longrightarrow> passes w1 w2 us \<Longrightarrow> passes w w2 (tr @ us)"
  by (simp add: passes_def trace_simps add.commute [of "count_list (dispatched tr) x" for x] funpow_add)

definition last_asked :: "pevent list \<Rightarrow> nat option \<Rightarrow> nat option" where
  "last_asked tr b = (if dispatched tr = [] then b else Some (last (dispatched tr)))"

lemma last_asked_append: "last_asked (tr @ us) b = last_asked us (last_asked tr b)"
  by (simp add: last_asked_def trace_simps)

lemma turn_queue:
  assumes "serve_turn e m f t st w = (n, w')" and "linv (sys w)" and "t_env t = (\<lambda>s. s)" and "quiet (t_dispatch t)" and "\<not> l_committed st"
  shows "\<exists>tr. passes w w' tr \<and> backend_after n (last_asked tr (Backend (res st))) \<and> (\<forall>st1. n = Again st1 \<longrightarrow> \<not> l_committed st1)"
proof -
  define w0 where "w0 = on_sys (t_env t) w"
  have s0: "sys w0 = sys w" "trace w0 = trace w" by (simp_all add: w0_def assms(3) on_sys_def)
  have none: ?thesis if "trace w' = trace w @ tr" "dispatched tr = []" "queue_of (sys w') = queue_of (sys w)" "backend_after n (Backend (res st))"
    "\<forall>st1. n = Again st1 \<longrightarrow> \<not> l_committed st1" for tr
    using that by (intro exI [of _ tr]) (simp add: passes_def last_asked_def)
  show ?thesis
  proof (cases "tries st \<ge> m \<or> remaining st = [] \<or> (\<exists>x. t_pick t (remaining st) = Inl x) \<or> t_pick t (remaining st) = Inr None")
    case True
    then have "w' = w \<or> w' = w0" "\<exists>x. n = Stop x" "backend_after n (Backend (res st))"
      using assms(1) by (auto simp: serve_turn_def w0_def finish_def backend_after_def split: if_splits)
    then show ?thesis using s0 by (intro none [of "[]"]) (auto simp: trace_simps)
  next
    case False
    then obtain b where b: "t_pick t (remaining st) = Inr (Some b)" by (metis not_None_eq old.sum.exhaust)
    have pre: "\<not> (tries st \<ge> m \<or> remaining st = [])" using False by blast
    obtain permitted token w1 where a: "admit b (t_now t) w0 = ((permitted, token), w1)" by (metis prod.collapse)
    obtain g where g: "sys w1 = upd_backend b (\<lambda>x. x\<lparr>CB := g\<rparr>) (sys w0)" using a by (auto simp: admit_def split: prod.splits if_splits)
    have q1: "queue_of (sys w1) = queue_of (sys w)" by (rule ext) (simp add: g s0 queue_of_def upd_backend_def)
    obtain as where t1: "trace w1 = trace w @ as" "dispatched as = []"
      using a s0(2) by (auto simp: admit_def note_event_def on_sys_def trace_simps split: prod.splits if_splits)
    show ?thesis
    proof (cases permitted)
      case False
      then have "w' = w1" "n = Again (st\<lparr>remaining := without (remaining st) b\<rparr>)" using assms(1) pre b a by (auto simp: serve_turn_def w0_def)
      then show ?thesis using t1 q1 assms(5) by (intro none [of as]) (auto simp: backend_after_def)
    next
      case True
      then have D: "deliver e m f t b token st w1 = (n, w')" using assms(1) pre b a by (simp add: serve_turn_def w0_def)
      have "lstep (sys w) (sys w1)" unfolding g s0 by (rule upd_CB_step)
      then have I1: "linv (sys w1)" using linv_step assms(2) by blast
      obtain tr c where tr: "trace w' = trace w1 @ tr" "round_of (Admitted b token # tr) b c" "\<forall>st1. n = Again st1 \<longrightarrow> more_steps m f b st st1 tr \<and> \<not> c"
        using deliver_trace [OF D assms(5)] by blast
      then have d: "dispatched (as @ tr) = [b]" using round_of_gates [OF tr(2)] t1(2) by (simp add: trace_simps)
      have "passes w w' (as @ tr)"
        unfolding passes_def d using tr(1) t1(1) deliver_queue(1) [OF D I1 assms(4)] fun_cong [OF q1] by (simp add: woken_at_def)
      moreover have "backend_after n (Some b)" using deliver_queue(2,3) [OF D I1 assms(4)]
        by (auto simp: backend_after_def split: loop_next.split serve_end.split)
      ultimately show ?thesis using tr(3) by (intro exI [of _ "as @ tr"]) (simp add: last_asked_def d more_steps_def)
    qed
  qed
qed

lemma loop_queue:
  assumes "serve_loop fuel e m f turns k st w = Some (r, w')" and "linv (sys w)" and "\<And>k. t_env (turns k) = (\<lambda>s. s)" and "\<And>k. quiet (t_dispatch (turns k))"
    and "\<not> l_committed st"
  shows "\<exists>tr. passes w w' tr \<and> (\<forall>a. r = Answer a \<longrightarrow> Backend a = last_asked tr (Backend (res st)))"
  using assms(1,2,5)
proof (induction fuel arbitrary: k st w)
  case (Suc fuel)
  obtain nx w1 where t: "serve_turn e m f (turns k) st w = (nx, w1)" by fastforce
  have by_id: "traffic (t_env (turns k))" "bystander (mid (t_dispatch (turns k)))"
    using assms(3,4) by (simp_all add: quiet_def traffic_id bystander_id)
  have I1: "linv (sys w1)" using serve_turn_run [OF t Suc.prems(2) by_id] linv_reachable Suc.prems(2) by blast
  obtain tr where tr: "passes w w1 tr" "backend_after nx (last_asked tr (Backend (res st)))" "\<forall>st1. nx = Again st1 \<longrightarrow> \<not> l_committed st1"
    using turn_queue [OF t Suc.prems(2) assms(3) assms(4) Suc.prems(3)] by blast
  show ?case
  proof (cases nx)
    case (Stop x)
    then have "r = x" "w' = w1" using Suc.prems(1) t by simp_all
    then show ?thesis using tr(1,2) Stop by (intro exI [of _ tr]) (auto simp: backend_after_def)
  next
    case (Again st1)
    have "serve_loop fuel e m f turns (Suc k) st1 w1 = Some (r, w')" using Suc.prems(1) t Again by simp
    from Suc.IH [OF this I1] obtain us where us: "passes w1 w' us" "\<forall>a. r = Answer a \<longrightarrow> Backend a = last_asked us (Backend (res st1))"
      using tr(3) Again by blast
    have b1: "Backend (res st1) = last_asked tr (Backend (res st))" using tr(2) unfolding Again backend_after_def by simp
    have "\<forall>a. r = Answer a \<longrightarrow> Backend a = last_asked (tr @ us) (Backend (res st))"
      unfolding last_asked_append b1 [symmetric] by (rule us(2))
    then show ?thesis using passes_trans [OF tr(1) us(1)] by blast
  qed
qed simp

lemma settle_queuedOn [simp]: "queuedOn (settle how r) = queuedOn r"
  by (simp add: settle_def)

lemma refuse_world:
  assumes "refuse rc it a r deadline w = (n, r', w')" and "queuedOn r = None"
  shows "w' = w \<and> queuedOn r' = None \<or>
    (\<exists>b l. worth_waiting a = Some (b, l) \<and> w' = w\<lparr>sys := snd (awaitSlot (NodeQueueDepth rc) b l (i_wait it) (sys w))\<rparr> \<and>
       (queuedOn r' = None \<or> queuedOn r' = Some b \<and> n = Loop))"
  using assms by (auto simp: refuse_def back_off_def Let_def split: if_splits option.splits queue_outcome.splits prod.splits)

text \<open>C27. A request woken from the queue of a backend took a slot somebody else is waiting for. What becomes of it, in the
  world the loop returns, when no other request acts meanwhile: if the re-decision comes back with an answer, that
  backend's queue has been woken at least once, once by the release of every attempt the re-decision made there and once
  more by the loop when the answer is not that backend's; only then does a request refused again join a queue anew, and
  only then is it woken on another's account. Two ways out strand the slot: if the candidates have vanished nothing at
  all happens, and if the attempt aborts the handler (a stream cut short in a server) only the attempts made on that
  very backend wake its queue.\<close>

theorem woken_slot_handed_on:
  assumes "iterate rc e it r deadline w = Some (n, r', w')" and "queuedOn r = Some b" and "linv (sys w)"
    and "\<And>k. t_env (i_turns it k) = (\<lambda>s. s) \<and> mid (t_dispatch (i_turns it k)) = (\<lambda>s. s)"
  shows "if i_cands it = [] then (\<exists>x. n = Return x) \<and> w' = w
    else (\<exists>x w1 tr. Serve (length (i_cands it) + 1) e (MaxAttempts rc) (i_turns it) (i_cands it) w = Some (x, w1) \<and> trace w1 = trace w @ tr \<and>
      (case x of
         Aborts p \<Rightarrow> n = Return (Panics p) \<and>
           waiters (backends (sys w') b) = (Wake ^^ count_list (dispatched tr) b) (waiters (backends (sys w) b))
       | Answer a \<Rightarrow> (\<exists>w2 k. 0 < k \<and> k = count_list (dispatched tr) b + (if Backend a = Some b then 0 else 1) \<and>
           waiters (backends (sys w2) b) = (Wake ^^ k) (waiters (backends (sys w) b)) \<and>
           (w' = w2 \<and> queuedOn r' = None \<or>
            (\<exists>b' l. worth_waiting a = Some (b', l) \<and>
               w' = w2\<lparr>sys := snd (awaitSlot (NodeQueueDepth rc) b' l (i_wait it) (sys w2))\<rparr> \<and>
               (queuedOn r' = None \<or> queuedOn r' = Some b' \<and> n = Loop))))))"
proof (cases "i_cands it = []")
  case True
  then show ?thesis using assms(1) by (auto simp: iterate_def Let_def)
next
  case False
  define r1 where "r1 = start_wait it r"
  have q1: "queuedOn r1 = Some b" using assms(2) by (simp add: r1_def start_wait_def)
  note R = assms(1) [unfolded iterate_def Let_def r1_def [symmetric] if_not_P [OF False]]
  obtain x w1 where s: "Serve (length (i_cands it) + 1) e (MaxAttempts rc) (i_turns it) (i_cands it) w = Some (x, w1)"
    using R by (auto split: option.splits)
  obtain tr where tr: "passes w w1 tr" "\<forall>a. x = Answer a \<longrightarrow> Backend a = last_asked tr None"
    using loop_queue [OF s [unfolded Serve_def] assms(3)] assms(4) by (auto simp: quiet_def no_result_def)
  have c: "waiters (backends (sys w1) b) = (Wake ^^ count_list (dispatched tr) b) (waiters (backends (sys w) b))"
    using tr(1) by (simp add: passes_def queue_of_def)
  have "case x of
       Aborts p \<Rightarrow> n = Return (Panics p) \<and> waiters (backends (sys w') b) = (Wake ^^ count_list (dispatched tr) b) (waiters (backends (sys w) b))
     | Answer a \<Rightarrow> (\<exists>w2 k. 0 < k \<and> k = count_list (dispatched tr) b + (if Backend a = Some b then 0 else 1) \<and>
         waiters (backends (sys w2) b) = (Wake ^^ k) (waiters (backends (sys w) b)) \<and>
         (w' = w2 \<and> queuedOn r' = None \<or>
          (\<exists>b' l. worth_waiting a = Some (b', l) \<and> w' = w2\<lparr>sys := snd (awaitSlot (NodeQueueDepth rc) b' l (i_wait it) (sys w2))\<rparr> \<and>
             (queuedOn r' = None \<or> queuedOn r' = Some b' \<and> n = Loop))))"
  proof (cases x)
    case (Aborts p)
    then show ?thesis using R s c by simp
  next
    case (Answer a)
    let ?k = "count_list (dispatched tr) b + (if Backend a = Some b then 0 else 1)" let ?w2 = "pass_slot a r1 w1"
    have "Backend a = Some b \<Longrightarrow> b \<in> set (dispatched tr)" using tr(2) Answer by (auto simp: last_asked_def split: if_splits)
    then have k: "0 < ?k" using count_list_0_iff [of "dispatched tr" b] by auto
    have w2: "waiters (backends (sys ?w2) b) = (Wake ^^ ?k) (waiters (backends (sys w) b))"
      using c q1 by (simp add: pass_slot_def on_waiters_def upd_backend_def on_sys_def)
    have "w' = ?w2 \<and> queuedOn r' = None \<or> (\<exists>b' l. worth_waiting a = Some (b', l) \<and>
        w' = ?w2\<lparr>sys := snd (awaitSlot (NodeQueueDepth rc) b' l (i_wait it) (sys ?w2))\<rparr> \<and> (queuedOn r' = None \<or> queuedOn r' = Some b' \<and> n = Loop))"
    proof (cases "RetryTimeLimit rc \<le> 0 \<or> \<not> isCapacityRefusal (Err a) \<or> Committed a")
      case True
      then show ?thesis using R s Answer by auto
    next
      case False
      then have "refuse rc it a (r1\<lparr>rs_res := a, queuedOn := None\<rparr>) deadline ?w2 = (n, r', w')" using R s Answer by simp
      from refuse_world [OF this] show ?thesis by simp
    qed
    then show ?thesis unfolding Answer serve_end.case using k w2 by blast
  qed
  moreover have "trace w1 = trace w @ tr" using tr(1) by (simp add: passes_def)
  ultimately show ?thesis using False s by auto
qed

text \<open>A request that was woken on backend 1 and now finds no candidate it may use: the waiter behind it is woken.\<close>

theorem woken_slot_handed_on_witness:
  "\<exists>n r' w'. iterate config0 env0 (iteration0 0 (\<lambda>_. full_turn\<lparr>t_pick := (\<lambda>_. Inl NoCandidates)\<rparr>)) (retry_init\<lparr>queuedOn := Some 1\<rparr>) 9
      (on_sys (on_waiters 1 (\<lambda>q. snd (Join 5 False q))) world0) = Some (n, r', w') \<and>
    qwaiters (waiters (backends (sys w') 1)) = [] \<and> qsent (waiters (backends (sys w') 1)) 0 = 1"
proof -
  let ?w = "on_sys (on_waiters 1 (\<lambda>q. snd (Join 5 False q))) world0"
  let ?it = "iteration0 0 (\<lambda>_. full_turn\<lparr>t_pick := (\<lambda>_. Inl NoCandidates)\<rparr>)"
  let ?r = "retry_init\<lparr>queuedOn := Some 1\<rparr>"
  obtain n r' w' where i: "iterate config0 env0 ?it ?r 9 ?w = Some (n, r', w')"
    using iterate_defined [of ?it config0 env0 ?r 9 ?w] by (auto simp: iteration0_def picks_members_def full_turn_def)
  have "linv (sys world0)" using linv_init [of fleet0] fleet0_idle by (simp add: world0_def)
  moreover have "lstep (sys world0) (sys ?w)" by (simp add: on_waiters_def) (rule env_step, simp add: same_gauges_def)
  ultimately have I: "linv (sys ?w)" using linv_step by blast
  have q: "waiters (backends (sys ?w) 1) = snd (Join 5 False empty_queue)"
    by (simp add: on_waiters_def upd_backend_def on_sys_def world0_def linit_def fleet0_def newBackend_def)
  obtain a where s: "Serve (length (i_cands ?it) + 1) env0 (MaxAttempts config0) (i_turns ?it) (i_cands ?it) ?w = Some (Answer a, ?w)"
      "Backend a = None" "worth_waiting a = None"
    by (simp add: Serve_def serve_turn_def iteration0_def config0_def full_turn_def turn0_def finish_def no_result_def on_sys_def worth_waiting_def)
  have al: "t_env (i_turns ?it k) = (\<lambda>s. s) \<and> mid (t_dispatch (i_turns ?it k)) = (\<lambda>s. s)" for k
    by (simp add: iteration0_def full_turn_def turn0_def dispatch0_def)
  have c: "i_cands ?it \<noteq> []" "queuedOn ?r = Some 1" by (simp_all add: iteration0_def)
  have "waiters (backends (sys w') 1) = Wake (waiters (backends (sys ?w) 1))"
    using woken_slot_handed_on [OF i c(2) I al, unfolded if_not_P [OF c(1)] s(1)] s(2,3) by (auto simp: trace_simps)
  then have "qwaiters (waiters (backends (sys w') 1)) = [] \<and> qsent (waiters (backends (sys w') 1)) 0 = 1"
    unfolding q by (simp add: Join_def empty_queue_def Wake_def wake_pop_def wake_store_def wake_send_def)
  then show ?thesis using i by blast
qed

section \<open>A reply put aside\<close>

lemma attempt_aside:
  assumes "attempt e cr c d b ch w = (r, c', w')" and "url_ok d" and "trip d = Reply a" and "\<not> refusal_of a"
    and "cr" and "\<not> c" and "\<not> early d" and "isRetryable (r_status a) None"
  shows "\<exists>out. r = Returned out \<and> status out = r_status a \<and> err out = None \<and> retryable out \<and> \<not> rejected out \<and> \<not> c'"
proof -
  obtain i s where q: "Acquire (started d) b (sys w) = (i, s)" by fastforce
  define w1 where "w1 = w\<lparr>sys := StartPrefill ch i (StartActive (EstimateTokens (int (bodylen e))) i s)\<rparr>"
  obtain p w2 where p: "reverse_proxy e cr c d b i (on_sys (mid d) w1) = (p, w2)" by fastforce
  have rc: "(r, c') = (if p_panics p then Panicked AbortHandler else Returned (conclude (gone d) p), p_committed p)"
    using assms(1,2) p by (simp add: attempt_def q w1_def [symmetric])
  note R = reverse_proxy_reply [OF p assms(3)]
  have h: "p_hook p = RetryElsewhere" using R(3) [OF assms(4)] assms(5-8) by (simp add: retried_elsewhere_def)
  have f: "p_status p = r_status a" "p_err p = None" "\<not> p_panics p" using R(1,4,5) h by simp_all
  obtain hk w3 where m: "modifyResponse e cr (c \<or> early d) b a (on_sys (mid d) w1) = (hk, w3)" by fastforce
  have hk: "hk = RetryElsewhere" using arg_cong [where f = fst, OF m] unfolding modify_hook using assms(4-8) by (simp add: retried_elsewhere_def)
  have "p_committed p = (c \<or> early d)" using p unfolding reverse_proxy_def Let_def assms(3) round_trip.case if_not_P [OF assms(7)] m hk prod.case hook.case by auto
  then have "\<not> p_committed p" using assms(6,7) by simp
  then show ?thesis using rc f h assms(8) by (auto simp: conclude_def Let_def)
qed

text \<open>C28. A reply put aside for a retry can be lost. When the first backend answers 503 and the breaker of the only other
  candidate refuses admission, \<^verbatim>\<open>Serve\<close> runs out of candidates with the discarded status and no error, nothing has been
  written, and the handler takes the missing error for success: the client gets no answer but the empty default.\<close>

theorem discarded_reply_unanswered:
  assumes "a \<noteq> b" and "2 \<le> maxAttempts" and "3 \<le> fuel"
    and "t_pick (turns 0) [a, b] = Inr (Some a)" and "t_pick (turns 1) [b] = Inr (Some b)"
    and "fst (snd (Allow (t_now (turns 0)) (CB (backends (t_env (turns 0) (sys w)) a))))"
    and "\<And>s. \<not> fst (snd (Allow (t_now (turns 1)) (CB (backends (t_env (turns 1) s) b))))"
    and "url_ok (t_dispatch (turns 0))" and "\<not> early (t_dispatch (turns 0))" and "trip (t_dispatch (turns 0)) = Reply x"
    and "r_status x = 503" and "r_refusal x = None"
  shows "\<exists>r w'. Serve fuel e maxAttempts turns [a, b] w = Some (Answer r, w') \<and>
    Status r = 503 \<and> Err r = None \<and> \<not> Committed r \<and> \<not> PrefillRejected r \<and> Attempts r = 1 \<and> answer_for ctxErr (Settles r) = None"
proof -
  let ?st = "\<lparr>remaining = [a, b], tries = 0, failovers = 0, l_committed = False, res = no_result\<rparr> :: sel_error loop_state"
  obtain g where g: "fuel = Suc (Suc (Suc g))" using assms(3) by (metis Suc_le_D numeral_3_eq_3 Suc_le_mono)
  obtain cb p0 tok where al: "Allow (t_now (turns 0)) (CB (backends (t_env (turns 0) (sys w)) a)) = (cb, p0, tok)" by (metis prod_cases3)
  then have p0: "p0" using assms(6) by simp
  obtain w1 where a1: "admit a (t_now (turns 0)) (on_sys (t_env (turns 0)) w) = ((True, tok), w1)"
    using al p0 by (simp add: admit_def)
  define st0 where "st0 = ?st\<lparr>res := (res ?st)\<lparr>Backend := Some a, Attempts := Attempts (res ?st) + 1\<rparr>\<rparr>"
  obtain r0 c w2 where at: "attempt e True False (t_dispatch (turns 0)) a (prefillCharge (t_prefill (turns 0)) a (bodylen e)) (note_event (Dispatched a) w1) = (r0, c, w2)"
    by (metis prod_cases3)
  obtain out where out: "r0 = Returned out" "status out = 503" "err out = None" "retryable out" "\<not> rejected out" "\<not> c"
    using attempt_aside [OF at assms(8,10) _ TrueI _ assms(9)] assms(11,12) by (auto simp: refusal_of_def isRetryable_def)
  define w3 where "w3 = countOutcome a out (record_verdict a (verdict_of r0) tok (finished (t_dispatch (turns 0))) w2)"
  define st1 where "st1 = st0\<lparr>res := (res st0)\<lparr>Status := 503, Err := None, Committed := False\<rparr>, l_committed := False, tries := 1, remaining := [b]\<rparr>"
  have "\<exists>w4. serve_turn e maxAttempts 2 (turns 0) ?st w = (Again st1, w4)"
  proof -
    have "deliver e maxAttempts 2 (turns 0) a tok ?st w1 = after_attempt maxAttempts 2 a out c st0 w3"
      using assms(2) by (simp add: deliver_def Let_def at runAttempt_def out(1) w3_def [symmetric] st0_def [unfolded out(1)] w3_def)
    moreover have "fst (after_attempt maxAttempts 2 a out c st0 w3) = Again st1"
      using out assms(1,2) by (simp add: after_attempt_def Let_def st1_def st0_def without_def)
    ultimately show ?thesis using assms(2,4) a1 by (simp add: serve_turn_def) (metis prod.collapse)
  qed
  then obtain w4 where t0: "serve_turn e maxAttempts 2 (turns 0) ?st w = (Again st1, w4)" by blast
  have "\<exists>w5. serve_turn e maxAttempts 2 (turns 1) st1 w4 = (Again (st1\<lparr>remaining := []\<rparr>), w5)"
  proof -
    obtain p tk w5 where a2: "admit b (t_now (turns 1)) (on_sys (t_env (turns 1)) w4) = ((p, tk), w5)" by (metis prod.collapse)
    then have "\<not> p" using assms(7) [of "sys w4"] by (auto simp: admit_def split: prod.splits)
    then show ?thesis using assms(2,5) a2 by (simp add: serve_turn_def st1_def without_def)
  qed
  then obtain w5 where t1: "serve_turn e maxAttempts 2 (turns 1) st1 w4 = (Again (st1\<lparr>remaining := []\<rparr>), w5)" by blast
  have t2: "serve_turn e maxAttempts 2 (turns 2) (st1\<lparr>remaining := []\<rparr>) w5 = (Stop (Answer (res st1)), w5)"
    by (simp add: serve_turn_def finish_def st1_def st0_def)
  have "Serve fuel e maxAttempts turns [a, b] w = Some (Answer (res st1), w5)"
    using t0 t1 t2 by (simp add: Serve_def g numeral_2_eq_2)
  then show ?thesis by (simp add: st1_def st0_def no_result_def answer_for_def)
qed

text \<open>The second candidate's breaker was opened by other requests while the first attempt was running.\<close>

definition tripped :: "lsys \<Rightarrow> lsys" where
  "tripped = upd_backend 1 (\<lambda>x. x\<lparr>CB := (New DefaultConfig)\<lparr>bstate := Open, openedAt := 0\<rparr>\<rparr>)"

theorem discarded_reply_unanswered_witness:
  "\<exists>r w'. Serve 3 env0 2 (\<lambda>k. (turn0 (Reply (reply0\<lparr>r_status := 503\<rparr>)))\<lparr>t_env := (if k = 0 then (\<lambda>s. s) else tripped)\<rparr>) [0, 1] world0 =
      Some (Answer r, w') \<and> Status r = 503 \<and> Err r = None \<and> \<not> Committed r \<and> answer_for False (Settles r) = None"
proof -
  let ?turns = "\<lambda>k::nat. (turn0 (Reply (reply0\<lparr>r_status := 503\<rparr>)) :: sel_error turn)\<lparr>t_env := (if k = 0 then (\<lambda>s. s) else tripped)\<rparr>"
  have a: "fst (snd (Allow 0 (CB (fleet0 0))))"
    by (simp add: fleet0_def newBackend_def bare_spec_def Allow_def allowLocked_def New_def)
  have b: "\<not> fst (snd (Allow 0 (CB (backends (tripped s) 1))))" for s
    by (simp add: tripped_def upd_backend_def Allow_def allowLocked_def New_def DefaultConfig_def)
  show ?thesis using discarded_reply_unanswered [of 0 1 2 3 ?turns world0 "reply0\<lparr>r_status := 503\<rparr>" env0 False] a b
    by (auto simp: turn0_def dispatch0_def reply0_def world0_def linit_def)
qed

end
