(* ===== verification/SplitServe.thy ===== *)
theory SplitServe
  imports CapacityProps PrefillSystem GoStrings
begin

text \<open>
  \<^verbatim>\<open>router/internal/gateway/prefill_split.go\<close> and \<^verbatim>\<open>pd_serve.go\<close>, with the candidate sets of \<^verbatim>\<open>gateway.go\<close> and
  \<^verbatim>\<open>pd/pd.go\<close>: a request whose prompt is prefilled on a node of its own before it is decoded elsewhere. The parts are the ones
  of \<open>Proxy\<close>, \<open>CapacityRetry\<close> and \<open>Prefill\<close>. What other goroutines do to the manager and to the load between two
  steps is an argument. The edited bodies enter by their length; what \<^verbatim>\<open>encoding/json\<close> reads as transfer parameters is
  an argument.
\<close>

section \<open>The prefill job\<close>

definition maxJobRetryWait :: ns where
  "maxJobRetryWait = 5 * second"

text \<open>The wait after a 429: \<open>ra\<close> is the \<^verbatim>\<open>Retry-After\<close> header when \<^verbatim>\<open>strconv.Atoi\<close> reads it; the product wraps at 64 bits.\<close>

definition job_wait :: "(int \<Rightarrow> int) \<Rightarrow> nat \<Rightarrow> int option \<Rightarrow> ns" where
  "job_wait draw n ra =
     (case ra of None \<Rightarrow> backoffAt draw n (3600 * second)
      | Some x \<Rightarrow> (if x \<ge> 0 then min (sint (word_of_int (x * second) :: 64 word)) maxJobRetryWait
                   else backoffAt draw n (3600 * second)))"

text \<open>One try: the turns of \<^verbatim>\<open>Serve\<close>, the header and the draws of the wait, whether the caller left during it.\<close>

record job_try =
  jt_turns :: "nat \<Rightarrow> sel_error turn"
  jt_after :: "int option"
  jt_draw :: "int \<Rightarrow> int"
  jt_gone :: bool

text \<open>\<^verbatim>\<open>LeastOutstanding\<close> over one backend.\<close>

definition only_pick :: "nat list \<Rightarrow> sel_error + nat option" where
  "only_pick xs = (case xs of [] \<Rightarrow> Inl NoCandidates | b # _ \<Rightarrow> Inr (Some b))"

definition least_turn :: "sel_error turn \<Rightarrow> sel_error turn" where
  "least_turn t = t\<lparr>t_pick := only_pick\<rparr>"

datatype job_end = JobServed | JobFailed | JobPanics panic

fun job_loop :: "nat \<Rightarrow> serve_env \<Rightarrow> nat \<Rightarrow> (nat \<Rightarrow> job_try) \<Rightarrow> nat \<Rightarrow> nat \<Rightarrow> ns list \<Rightarrow> pworld \<Rightarrow> (job_end \<times> ns list \<times> pworld) option" where
  "job_loop 0 e maxAttempts js n b waits w = None"
| "job_loop (Suc fuel) e maxAttempts js n b waits w =
     (case Serve 2 e maxAttempts (\<lambda>k. least_turn (jt_turns (js n) k)) [b] w of
        None \<Rightarrow> None
      | Some (Aborts p, w1) \<Rightarrow> Some (JobPanics p, waits, w1)
      | Some (Answer r, w1) \<Rightarrow>
          (if Err r = None \<and> \<not> PrefillRejected r \<and> Status r \<ge> 200 \<and> Status r < 300 then Some (JobServed, waits, w1)
           else if Status r \<noteq> 429 \<or> Err r \<noteq> None then Some (JobFailed, waits, w1)
           else
             (let waits1 = waits @ [job_wait (jt_draw (js n)) n (jt_after (js n))]
              in if jt_gone (js n) then Some (JobFailed, waits1, w1) else job_loop fuel e maxAttempts js (Suc n) b waits1 w1)))"

definition runPrefillJob :: "nat \<Rightarrow> serve_env \<Rightarrow> nat \<Rightarrow> nat \<Rightarrow> (nat \<Rightarrow> job_try) \<Rightarrow> nat \<Rightarrow> pworld \<Rightarrow> (job_end \<times> ns list \<times> pworld) option" where
  "runPrefillJob fuel e maxAttempts len js b w =
     job_loop fuel (e\<lparr>has_accepted := False, has_outcome := False, bodylen := len\<rparr>) maxAttempts js 0 b [] w"

section \<open>Waiting for the node\<close>

text \<open>One turn of \<^verbatim>\<open>WaitReady\<close>: what other goroutines do before it and, when the context ends, before the job is taken
  out of the queue.\<close>

record wait_poll =
  wp_env :: "manager \<times> lsys \<Rightarrow> manager \<times> lsys"
  wp_done :: bool
  wp_late :: "manager \<times> lsys \<Rightarrow> manager \<times> lsys"

fun grant_wait :: "nat \<Rightarrow> (nat \<Rightarrow> wait_poll) \<Rightarrow> nat \<Rightarrow> nat \<Rightarrow> manager \<times> lsys \<Rightarrow> (bool \<times> manager \<times> lsys) option" where
  "grant_wait 0 ps k j x = None"
| "grant_wait (Suc fuel) ps k j x =
     (case x of (m, s) \<Rightarrow>
        (case poll_grant (backends s) j m of (ok, m1) \<Rightarrow>
           if ok then Some (True, m1, s)
           else if wp_done (ps k)
           then (case wp_late (ps k) (m1, s) of (m2, s2) \<Rightarrow> Some (False, abandon_wait (backends s2) j m2, s2))
           else grant_wait fuel ps (Suc k) j (wp_env (ps (Suc k)) (m1, s))))"

fun drain_wait :: "nat \<Rightarrow> (nat \<Rightarrow> wait_poll) \<Rightarrow> nat \<Rightarrow> nat \<Rightarrow> manager \<times> lsys \<Rightarrow> (bool \<times> manager \<times> lsys) option" where
  "drain_wait 0 ps k j x = None"
| "drain_wait (Suc fuel) ps k j x =
     (case x of (m, s) \<Rightarrow>
        (let m1 = poll_drained (backends s) j m in
         if mode (nheap m1 (jnode (jheap m1 j))) \<noteq> Draining then grant_wait fuel ps k j (m1, s)
         else if wp_done (ps k) then Some (False, m1, s)
         else drain_wait fuel ps (Suc k) j (wp_env (ps (Suc k)) (m1, s))))"

definition WaitReady :: "nat \<Rightarrow> (nat \<Rightarrow> wait_poll) \<Rightarrow> nat \<Rightarrow> manager \<times> lsys \<Rightarrow> (bool \<times> manager \<times> lsys) option" where
  "WaitReady fuel ps j x = drain_wait fuel ps 0 j (wp_env (ps 0) x)"

section \<open>A refused request\<close>

text \<open>What the request meets: the candidates, readings and draws of \<^verbatim>\<open>Reserve\<close>, the polls, the job, its release, and the
  final routing. \<open>sr_blen\<close> and \<open>sr_jlen\<close> are the lengths of the bypassed body and of the job's.\<close>

record split_run =
  sr_cands :: "nat list"
  sr_now :: ns
  sr_draw1 :: rng
  sr_draw2 :: rng
  sr_pick :: picker
  sr_polls :: "nat \<Rightarrow> wait_poll"
  sr_jobs :: "nat \<Rightarrow> job_try"
  sr_job_env :: "manager \<Rightarrow> manager"
  sr_done :: ns
  sr_late :: "manager \<Rightarrow> manager"
  sr_orig_turns :: "nat \<Rightarrow> sel_error turn"
  sr_its :: "nat \<Rightarrow> iteration"
  sr_retry :: ns
  sr_blen :: nat
  sr_jlen :: nat

datatype split_event = CountRejection | FallbackNoNode | CountJob bool | FallbackJobFailed | CountJobRetry ns

definition serve_end_of :: "sel_error serve_end \<Rightarrow> retry_end" where
  "serve_end_of x = (case x of Answer r \<Rightarrow> Settles r | Aborts p \<Rightarrow> Panics p)"

definition routed :: "nat \<Rightarrow> retry_config \<Rightarrow> serve_env \<Rightarrow> split_run \<Rightarrow> pworld \<Rightarrow> (retry_end \<times> pworld) option" where
  "routed fuel rc e sr w =
     (case serveWithCapacityRetry fuel rc e (sr_its sr) (sr_retry sr) w of None \<Rightarrow> None | Some (x, r, w1) \<Rightarrow> Some (x, w1))"

definition serveOnOriginal :: "nat \<Rightarrow> retry_config \<Rightarrow> serve_env \<Rightarrow> split_run \<Rightarrow> nat option \<Rightarrow> manager \<Rightarrow> pworld \<Rightarrow> (retry_end \<times> pworld) option" where
  "serveOnOriginal fuel rc e sr orig m w =
     (case orig of
        Some b \<Rightarrow>
          (if Available (sr_now sr) (backends (sys w) b) \<and> ModeOf (backends (sys w)) b m = Decode
           then (case Serve 2 e (MaxAttempts rc) (\<lambda>k. least_turn (sr_orig_turns sr k)) [b] w of
                   None \<Rightarrow> None | Some (x, w1) \<Rightarrow> Some (serve_end_of x, w1))
           else routed fuel rc e sr w)
      | None \<Rightarrow> routed fuel rc e sr w)"

definition context_ended :: "sel_error result" where
  "context_ended = no_result\<lparr>Err := Some (Upstream Canceled)\<rparr>"

text \<open>The job has a slot: it runs, is released, and the request is routed. The deferred \<^verbatim>\<open>Done\<close> runs last, panic or not.\<close>

definition job_and_decode :: "nat \<Rightarrow> retry_config \<Rightarrow> serve_env \<Rightarrow> split_run \<Rightarrow> nat \<Rightarrow> manager \<Rightarrow> pworld \<Rightarrow>
    (retry_end \<times> split_event list \<times> manager \<times> pworld) option" where
  "job_and_decode fuel rc e sr j m w =
     (case runPrefillJob fuel e (MaxAttempts rc) (sr_jlen sr) (sr_jobs sr) (jbackend (jheap m j)) w of
        None \<Rightarrow> None
      | Some (JobPanics p, waits, w1) \<Rightarrow>
          Some (Panics p, CountRejection # map CountJobRetry waits, Done (backends (sys w1)) (sr_done sr) j (sr_job_env sr m), w1)
      | Some (x, waits, w1) \<Rightarrow>
          (let m1 = sr_late sr (Done (backends (sys w1)) (sr_done sr) j (sr_job_env sr m)) in
           case routed fuel rc e sr w1 of
             None \<Rightarrow> None
           | Some (y, w2) \<Rightarrow>
               Some (y, CountRejection # map CountJobRetry waits @ [CountJob (x = JobServed)] @ (if x = JobServed then [] else [FallbackJobFailed]),
                 Done (backends (sys w2)) (sr_done sr) j m1, w2)))"

definition splitAndServe :: "nat \<Rightarrow> retry_config \<Rightarrow> serve_env \<Rightarrow> split_run \<Rightarrow> sel_error result \<Rightarrow> manager \<Rightarrow> pworld \<Rightarrow>
    (retry_end \<times> split_event list \<times> manager \<times> pworld) option" where
  "splitAndServe fuel rc e0 sr refused m w =
     (let e = e0\<lparr>capture := False, bodylen := sr_blen sr\<rparr> in
      case Reserve (sr_draw1 sr) (sr_draw2 sr) (sr_now sr) (backends (sys w)) (sr_cands sr) (PrefillTokens refused) (sr_pick sr) m of
        (None, m1) \<Rightarrow>
          (case serveOnOriginal fuel rc e sr (Backend refused) m1 w of
             None \<Rightarrow> None | Some (x, w1) \<Rightarrow> Some (x, [CountRejection, FallbackNoNode], m1, w1))
      | (Some j, m1) \<Rightarrow>
          (case WaitReady fuel (sr_polls sr) j (m1, sys w) of
             None \<Rightarrow> None
           | Some (False, m2, s) \<Rightarrow> Some (Settles context_ended, [CountRejection], Done (backends s) (sr_done sr) j m2, w\<lparr>sys := s\<rparr>)
           | Some (True, m2, s) \<Rightarrow> job_and_decode fuel rc e sr j m2 (w\<lparr>sys := s\<rparr>)))"

section \<open>Prefill and decode nodes\<close>

text \<open>The P nodes of a pool, by normalised URL. The URL of a backend never changes: \<open>urls\<close> gives it.\<close>

definition Normalize :: "url \<Rightarrow> byte list" where
  "Normalize u = rev (dropWhile (\<lambda>c. c = 47) (rev (TrimSpace (bytes u))))"

definition PD_New :: "url list \<Rightarrow> byte list set" where
  "PD_New us = set (map Normalize us)"

definition IsPrefill :: "byte list set \<Rightarrow> url \<Rightarrow> bool" where
  "IsPrefill ps u = (Normalize u \<in> ps)"

definition pd_filter :: "(nat \<Rightarrow> url) \<Rightarrow> byte list set \<Rightarrow> bool \<Rightarrow> nat list \<Rightarrow> nat list" where
  "pd_filter urls ps want cands = filter (\<lambda>b. IsPrefill ps (urls b) = want) cands"

definition healthy :: "ns \<Rightarrow> string \<Rightarrow> (nat \<Rightarrow> backend) \<Rightarrow> nat list \<Rightarrow> nat list" where
  "healthy now dialect bs snap = filter (\<lambda>b. Available now (bs b) \<and> DialectID (bs b) = dialect) snap"

text \<open>\<^verbatim>\<open>candidates\<close>; a pool without a split or without P nodes has \<open>None\<close>.\<close>

definition candidates :: "ns \<Rightarrow> string \<Rightarrow> (nat \<Rightarrow> backend) \<Rightarrow> manager option \<Rightarrow> byte list set option \<Rightarrow> nat list \<Rightarrow> nat list" where
  "candidates now dialect bs split pd snap =
     (let c0 = healthy now dialect bs snap;
          c1 = (case split of None \<Rightarrow> c0 | Some m \<Rightarrow> DecodeNodes bs c0 m)
      in case pd of None \<Rightarrow> c1 | Some ps \<Rightarrow> pd_filter (\<lambda>b. URL (bs b)) ps False c1)"

text \<open>One try of the prefill leg: the backends eligible for traffic, the turns of \<^verbatim>\<open>Serve\<close>, the checks after a refusal, the wait,
  and the parameters read from the answer.\<close>

record pd_try =
  pt_healthy :: "nat list"
  pt_turns :: "nat \<Rightarrow> sel_error turn"
  pt_left :: bool
  pt_now :: ns
  pt_after :: "int option"
  pt_draw :: "int \<Rightarrow> int"
  pt_gone :: bool
  pt_params :: "byte list option"

datatype pd_event = PDFallbackNoNode | PDRetry ns | PDLegFailed | PDLegNoParams | PDLegOK

datatype pd_end = PDParams "byte list option" | PDPanics panic

text \<open>What follows a leg that is not retried.\<close>

definition pd_conclude :: "sel_error result \<Rightarrow> byte list option \<Rightarrow> pd_end \<times> pd_event" where
  "pd_conclude r params =
     (if Err r \<noteq> None \<or> Status r < 200 \<or> Status r \<ge> 300 then (PDParams None, PDLegFailed)
      else (case params of None \<Rightarrow> (PDParams None, PDLegNoParams) | Some ps \<Rightarrow> (PDParams (Some ps), PDLegOK)))"

definition pd_refused :: "sel_error result \<Rightarrow> bool" where
  "pd_refused r \<longleftrightarrow> isCapacityRefusal (Err r) \<or> (Err r = None \<and> Status r = 429)"

fun pd_loop :: "nat \<Rightarrow> (nat \<Rightarrow> url) \<Rightarrow> byte list set \<Rightarrow> retry_config \<Rightarrow> serve_env \<Rightarrow> (nat \<Rightarrow> pd_try) \<Rightarrow> ns \<Rightarrow> nat \<Rightarrow> pd_event list \<Rightarrow> pworld \<Rightarrow>
    (pd_end \<times> pd_event list \<times> pworld) option" where
  "pd_loop 0 urls ps rc e tries0 deadline n evs w = None"
| "pd_loop (Suc fuel) urls ps rc e tries0 deadline n evs w =
     (let t = tries0 n; cands = pd_filter urls ps True (pt_healthy t) in
      if cands = [] then Some (PDParams None, evs @ [PDFallbackNoNode], w)
      else
        (case Serve (length cands + 1) e (MaxAttempts rc) (pt_turns t) cands w of
           None \<Rightarrow> None
         | Some (Aborts p, w1) \<Rightarrow> Some (PDPanics p, evs, w1)
         | Some (Answer r, w1) \<Rightarrow>
             (let evs1 = evs @ [PDRetry (job_wait (pt_draw t) n (pt_after t))] in
              if pd_refused r \<and> \<not> pt_left t \<and> (RetryTimeLimit rc \<le> 0 \<or> pt_now t < deadline)
              then (if pt_gone t then (case pd_conclude r (pt_params t) of (x, ev) \<Rightarrow> Some (x, evs1 @ [ev], w1))
                    else pd_loop fuel urls ps rc e tries0 deadline (Suc n) evs1 w1)
              else (case pd_conclude r (pt_params t) of (x, ev) \<Rightarrow> Some (x, evs @ [ev], w1)))))"

definition runPDPrefill :: "nat \<Rightarrow> (nat \<Rightarrow> url) \<Rightarrow> byte list set \<Rightarrow> retry_config \<Rightarrow> serve_env \<Rightarrow> (nat \<Rightarrow> pd_try) \<Rightarrow> ns \<Rightarrow> pworld \<Rightarrow>
    (pd_end \<times> pd_event list \<times> pworld) option" where
  "runPDPrefill fuel urls ps rc e tries0 began w = pd_loop fuel urls ps rc e tries0 (began + RetryTimeLimit rc) 0 [] w"

text \<open>\<open>leg\<close> is the environment of the prefill leg: the callbacks of its own selector, the length of its body; \<open>dlen params\<close> is
  the length of the body with the parameters.\<close>

definition pdServe :: "nat \<Rightarrow> (nat \<Rightarrow> url) \<Rightarrow> byte list set \<Rightarrow> retry_config \<Rightarrow> serve_env \<Rightarrow> serve_env \<Rightarrow> (byte list \<Rightarrow> nat) \<Rightarrow> (nat \<Rightarrow> pd_try) \<Rightarrow> ns \<Rightarrow>
    (nat \<Rightarrow> iteration) \<Rightarrow> ns \<Rightarrow> pworld \<Rightarrow> (retry_end \<times> pd_event list \<times> pworld) option" where
  "pdServe fuel urls ps rc leg e dlen tries0 began its now w =
     (case runPDPrefill fuel urls ps rc leg tries0 began w of
        None \<Rightarrow> None
      | Some (PDPanics p, evs, w1) \<Rightarrow> Some (Panics p, evs, w1)
      | Some (PDParams params, evs, w1) \<Rightarrow>
          (case serveWithCapacityRetry fuel rc (case params of None \<Rightarrow> e | Some x \<Rightarrow> e\<lparr>bodylen := dlen x\<rparr>) its now w1 of
             None \<Rightarrow> None | Some (x, r, w2) \<Rightarrow> Some (x, evs, w2)))"

end
