(* ===== verification/SplitProps.thy ===== *)
theory SplitProps
  imports SplitServe
begin

text \<open>
  What serving a request in two parts promises: no refusal starts another round, the job tells the flow nothing and
  stays on its node, its slot is given back on every way out, and a disaggregated request is prefilled on P nodes and
  decoded on D nodes only. A prefill that is cut short aborts the whole request.
\<close>

section \<open>Refusals\<close>

text \<open>Without capture no attempt reports a refusal.\<close>

lemma attempt_unrefused:
  assumes "attempt e cr c d b ch w = (Returned out, c', w')" and "\<not> capture e"
  shows "\<not> rejected out"
proof (cases "url_ok d")
  case True
  obtain p i w0 w1 where p: "reverse_proxy e cr c d b i w0 = (p, w1)"
    "Returned out = (if p_panics p then Panicked AbortHandler else Returned (conclude (gone d) p))" by (rule attempt_result [OF assms(1) True])
  have "\<forall>n. p_hook p \<noteq> hook.Refused n"
  proof (cases "trip d")
    case (NoReply x)
    then show ?thesis using p(1) by (auto simp: reverse_proxy_def Let_def)
  next
    case (Reply a)
    show ?thesis using reverse_proxy_reply(2,3) [OF p(1) Reply] assms(2) by (cases "refusal_of a") auto
  qed
  then show ?thesis using p(2) by (auto split: if_splits)
next
  case False
  then show ?thesis using assms(1) by (auto simp: attempt_def Let_def split: prod.splits)
qed

definition unrefused :: "'e loop_next \<Rightarrow> bool" where
  "unrefused n = (case n of Stop (Answer r) \<Rightarrow> \<not> PrefillRejected r | Stop (Aborts p) \<Rightarrow> True | Again st \<Rightarrow> \<not> PrefillRejected (res st))"

lemma after_attempt_unrefused:
  "\<not> rejected out \<Longrightarrow> \<not> PrefillRejected (res st) \<Longrightarrow> unrefused (fst (after_attempt m f b out c st w))"
  by (simp add: after_attempt_def Let_def unrefused_def)

lemma finish_refused [simp]: "PrefillRejected (finish r) = PrefillRejected r"
  by (simp add: finish_def)

lemma deliver_unrefused:
  assumes "\<not> capture e" and "\<not> PrefillRejected (res st)"
  shows "unrefused (fst (deliver e m f t b token st w))"
proof -
  define cr where "cr = ((tries st + 1 < m \<or> failovers st < f) \<and> length (remaining st) > 1)"
  obtain r c w1 where a: "attempt e cr (l_committed st) (t_dispatch t) b (prefillCharge (t_prefill t) b (bodylen e)) (note_event (Dispatched b) w) = (r, c, w1)"
    by (metis prod_cases3)
  note D = deliver_def [of e m f t b token st w, unfolded Let_def cr_def [symmetric] a runAttempt_def prod.case]
  show ?thesis
  proof (cases r)
    case (Panicked p)
    then show ?thesis by (simp add: D unrefused_def)
  next
    case (Returned out)
    have "\<not> rejected out" using attempt_unrefused [OF a [unfolded Returned] assms(1)] .
    then show ?thesis using assms(2) by (simp add: D Returned) (rule after_attempt_unrefused, simp_all)
  qed
qed

lemma turn_unrefused:
  assumes "\<not> capture e" and "\<not> PrefillRejected (res st)"
  shows "unrefused (fst (serve_turn e m f t st w))"
proof (cases "tries st \<ge> m \<or> remaining st = []")
  case True
  then show ?thesis using assms(2) by (auto simp: serve_turn_def unrefused_def)
next
  case False
  note S = serve_turn_def [of e m f t st w, unfolded if_not_P [OF False]]
  show ?thesis
  proof (cases "t_pick t (remaining st)")
    case (Inl x)
    then show ?thesis using assms(2) by (simp add: S unrefused_def)
  next
    case (Inr o')
    show ?thesis
    proof (cases o')
      case None
      then show ?thesis using assms(2) by (simp add: S Inr unrefused_def)
    next
      case (Some b)
      obtain permitted token w1 where "admit b (t_now t) (on_sys (t_env t) w) = ((permitted, token), w1)" by (metis prod.collapse)
      then show ?thesis using assms(2) deliver_unrefused [OF assms] by (simp add: S Inr Some unrefused_def)
    qed
  qed
qed

lemma loop_unrefused:
  "serve_loop fuel e m f turns k st w = Some (Answer r, w') \<Longrightarrow> \<not> capture e \<Longrightarrow> \<not> PrefillRejected (res st) \<Longrightarrow> \<not> PrefillRejected r"
proof (induction fuel arbitrary: k st w)
  case (Suc fuel)
  obtain n w1 where t: "serve_turn e m f (turns k) st w = (n, w1)" by fastforce
  have u: "unrefused n" using turn_unrefused [OF Suc.prems(2,3), of m f "turns k" w] by (simp add: t)
  show ?case
  proof (cases n)
    case (Stop x)
    then show ?thesis using Suc.prems(1) t u by (auto simp: unrefused_def)
  next
    case (Again st1)
    then show ?thesis using Suc.prems Suc.IH [of "Suc k" st1 w1] t u by (simp add: unrefused_def)
  qed
qed simp

lemma Serve_unrefused: "Serve fuel e m turns cands w = Some (Answer r, w') \<Longrightarrow> \<not> capture e \<Longrightarrow> \<not> PrefillRejected r"
  unfolding Serve_def by (erule loop_unrefused) (simp_all add: no_result_def)

definition end_unrefused :: "retry_end \<Rightarrow> bool" where
  "end_unrefused x = (case x of Settles a \<Rightarrow> \<not> PrefillRejected a | NodeQueueFull a \<Rightarrow> \<not> PrefillRejected a | Panics p \<Rightarrow> True)"

lemma settle_res [simp]: "rs_res (settle h r) = rs_res r"
  by (simp add: settle_def)

lemma refuse_unrefused:
  "refuse rc it a r d w = (n, r1, w1) \<Longrightarrow> \<not> PrefillRejected a \<Longrightarrow> \<not> PrefillRejected (rs_res r) \<Longrightarrow>
     \<not> PrefillRejected (rs_res r1) \<and> (case n of Return x \<Rightarrow> end_unrefused x | Loop \<Rightarrow> True)"
  by (auto simp: refuse_def back_off_def Let_def end_unrefused_def split: if_splits option.splits prod.splits queue_outcome.splits)

lemma iterate_unrefused:
  assumes "iterate rc e it r d w = Some (n, r1, w1)" and "\<not> capture e" and "\<not> PrefillRejected (rs_res r)"
  shows "\<not> PrefillRejected (rs_res r1) \<and> (case n of Return x \<Rightarrow> end_unrefused x | Loop \<Rightarrow> True)"
proof -
  have s: "rs_res (start_wait it r) = rs_res r" by (simp add: start_wait_def)
  show ?thesis
  proof (cases "i_cands it = []")
    case True
    then show ?thesis using assms s by (auto simp: iterate_def Let_def end_unrefused_def)
  next
    case False
    obtain y w2 where S: "Serve (length (i_cands it) + 1) e (MaxAttempts rc) (i_turns it) (i_cands it) w = Some (y, w2)"
      using assms(1) False by (auto simp: iterate_def Let_def split: option.splits)
    show ?thesis
    proof (cases y)
      case (Aborts p)
      then show ?thesis using assms False S s by (auto simp: iterate_def Let_def end_unrefused_def)
    next
      case (Answer a)
      have a: "\<not> PrefillRejected a" using Serve_unrefused [OF S [unfolded Answer] assms(2)] .
      show ?thesis using assms(1) False S Answer a refuse_unrefused [OF _ a, of rc it "(start_wait it r)\<lparr>rs_res := a, queuedOn := None\<rparr>" d]
        by (auto simp: iterate_def Let_def end_unrefused_def split: if_splits)
    qed
  qed
qed

lemma retry_unrefused:
  "retry_loop fuel rc e its k r d w = Some (x, r1, w1) \<Longrightarrow> \<not> capture e \<Longrightarrow> \<not> PrefillRejected (rs_res r) \<Longrightarrow> end_unrefused x"
proof (induction fuel arbitrary: k r w)
  case (Suc fuel)
  obtain n r2 w2 where i: "iterate rc e (its k) r d w = Some (n, r2, w2)"
    using Suc.prems(1) by (cases "iterate rc e (its k) r d w") auto
  note I = iterate_unrefused [OF i Suc.prems(2,3)]
  show ?case using Suc.prems Suc.IH [of "Suc k" r2 w2] i I by (cases n) auto
qed simp

lemma capacity_unrefused: "serveWithCapacityRetry fuel rc e its now w = Some (x, r, w') \<Longrightarrow> \<not> capture e \<Longrightarrow> end_unrefused x"
  unfolding serveWithCapacityRetry_def by (erule retry_unrefused) (simp_all add: retry_init_def no_result_def)

text \<open>The end of a split request.\<close>

lemma serve_end_unrefused: "(\<And>r. x = Answer r \<Longrightarrow> \<not> PrefillRejected r) \<Longrightarrow> end_unrefused (serve_end_of x)"
  by (cases x) (simp_all add: serve_end_of_def end_unrefused_def)

lemma routed_unrefused: "routed fuel rc e sr w = Some (x, w') \<Longrightarrow> \<not> capture e \<Longrightarrow> end_unrefused x"
  by (auto simp: routed_def split: option.splits dest: capacity_unrefused)

lemma original_unrefused: "serveOnOriginal fuel rc e sr orig m w = Some (x, w') \<Longrightarrow> \<not> capture e \<Longrightarrow> end_unrefused x"
  by (auto simp: serveOnOriginal_def split: option.splits if_splits intro!: serve_end_unrefused dest: routed_unrefused Serve_unrefused)

lemma decode_unrefused: "job_and_decode fuel rc e sr j m w = Some (x, evs, m', w') \<Longrightarrow> \<not> capture e \<Longrightarrow> end_unrefused x"
  by (auto simp: job_and_decode_def Let_def end_unrefused_def split: option.splits job_end.splits prod.splits dest: routed_unrefused)

text \<open>A refused request never starts another round: what splitting it returns is no refusal, so \<^verbatim>\<open>inferenceHandler\<close> splits it
  once, whatever the engines answer.\<close>

theorem split_once:
  assumes "splitAndServe fuel rc e sr refused m w = Some (x, evs, m', w')"
  shows "case x of Settles a \<Rightarrow> \<not> PrefillRejected a | NodeQueueFull a \<Rightarrow> \<not> PrefillRejected a | Panics p \<Rightarrow> True"
proof -
  obtain o1 m1 where r: "Reserve (sr_draw1 sr) (sr_draw2 sr) (sr_now sr) (backends (sys w)) (sr_cands sr) (PrefillTokens refused) (sr_pick sr) m = (o1, m1)"
    by fastforce
  note S = assms [unfolded splitAndServe_def Let_def r prod.case]
  have "end_unrefused x"
  proof (cases o1)
    case None
    then show ?thesis using S by (auto split: option.splits dest: original_unrefused)
  next
    case (Some j)
    then show ?thesis using S
      by (auto simp: end_unrefused_def context_ended_def no_result_def split: option.splits bool.splits dest: decode_unrefused) (auto simp: end_unrefused_def dest: decode_unrefused)
  qed
  then show ?thesis by (simp add: end_unrefused_def)
qed

section \<open>What the flow hears of the job\<close>

definition told_event :: "pevent \<Rightarrow> bool" where
  "told_event x = (case x of Accepted b \<Rightarrow> True | Answered b s \<Rightarrow> True | _ \<Rightarrow> False)"

definition told :: "pworld \<Rightarrow> pevent list" where
  "told w = filter told_event (trace w)"

lemma told_note [simp]: "told (note_event x w) = told w @ (if told_event x then [x] else [])" "told (on_sys f w) = told w"
  "told (w\<lparr>sys := s\<rparr>) = told w" "told (w\<lparr>Served := a\<rparr>) = told w" "told (w\<lparr>Failed := b\<rparr>) = told w"
  by (simp_all add: told_def)

lemma told_event_simps [simp]: "\<not> told_event (StreamAborted l)" "\<not> told_event (ObservedFraction q)" "\<not> told_event (UpstreamError b l)"
  "\<not> told_event (Wrote b)" "\<not> told_event (Retried l)" "\<not> told_event (Dispatched b)" "\<not> told_event (Admitted b t)" "\<not> told_event (Recorded b c t)"
  by (simp_all add: told_event_def)

lemma copy_body_told: "told (snd (copy_body d b i n ps s w)) = told w"
  by (induction ps arbitrary: s w) (auto simp: read_bytes_def Let_def split: prod.splits)

lemma end_copy_told: "told (snd (end_copy x s w)) = told w"
  by (cases x) (simp_all add: end_copy_def read_error_def)

lemma observeUsage_told: "told (observeUsage s w) = told w"
  by (auto simp: observeUsage_def split: option.splits prod.splits)

lemma relay_body_told: "told (snd (relay_body e d b i r w)) = told w"
  using copy_body_told [of d b i "bodylen e" "r_body r" "new_scan e (r_status r)" w] end_copy_told [of "r_end r"]
  by (auto simp: relay_body_def observeUsage_told split: prod.splits) (metis snd_conv)

lemma modifyResponse_told: "\<not> has_accepted e \<Longrightarrow> \<not> has_outcome e \<Longrightarrow> snd (modifyResponse e cr c b r w) = w"
  by (simp add: modifyResponse_def Let_def)

lemma reverse_proxy_told:
  assumes "\<not> has_accepted e" and "\<not> has_outcome e"
  shows "told (snd (reverse_proxy e cr c d b i w)) = told w"
proof (cases "trip d")
  case (NoReply x)
  then show ?thesis by (simp add: reverse_proxy_def Let_def)
next
  case (Reply r)
  define w1 where "w1 = (if early d then note_event (Wrote b) w else w)"
  have w1: "told w1 = told w" by (simp add: w1_def)
  obtain h where m: "modifyResponse e cr (c \<or> early d) b r w1 = (h, w1)" using modifyResponse_told [OF assms] by (metis prod.collapse)
  obtain s w2 where b: "relay_body e d b i r (note_event (Wrote b) w1) = (s, w2)" by fastforce
  have "told w2 = told w" using relay_body_told [of e d b i r "note_event (Wrote b) w1"] w1 by (simp add: b)
  then show ?thesis using w1 unfolding reverse_proxy_def Let_def w1_def [symmetric] Reply round_trip.case m prod.case
    by (cases h) (simp_all add: b)
qed

lemma attempt_told:
  assumes "\<not> has_accepted e" and "\<not> has_outcome e" and "attempt e cr c d b ch w = (r, c', w')"
  shows "told w' = told w"
proof -
  have R: "told z' = told z" if "reverse_proxy e cr c d b i z = (p, z')" for i z p z'
    using reverse_proxy_told [OF assms(1,2), of cr c d b i z] by (simp add: that)
  show ?thesis using assms(3) by (auto simp: attempt_def Let_def dest!: R split: prod.splits if_splits)
qed

lemma deliver_told:
  assumes "\<not> has_accepted e" and "\<not> has_outcome e"
  shows "told (snd (deliver e m f t b token st w)) = told w"
proof -
  define cr where "cr = ((tries st + 1 < m \<or> failovers st < f) \<and> length (remaining st) > 1)"
  obtain r c w1 where a: "attempt e cr (l_committed st) (t_dispatch t) b (prefillCharge (t_prefill t) b (bodylen e)) (note_event (Dispatched b) w) = (r, c, w1)"
    by (metis prod_cases3)
  have w1: "told w1 = told w" using attempt_told [OF assms a] by simp
  have co: "told (countOutcome b out z) = told z" for out z by (simp add: countOutcome_def)
  have af: "told (snd (after_attempt m f b out c x z)) = told z" for out c x z by (simp add: after_attempt_def Let_def)
  show ?thesis unfolding deliver_def Let_def cr_def [symmetric] a runAttempt_def prod.case
    by (cases r) (simp_all add: af co w1 record_verdict_def split: prod.splits)
qed

lemma turn_told:
  assumes "\<not> has_accepted e" and "\<not> has_outcome e" and "serve_turn e m f t st w = (n, w')"
  shows "told w' = told w"
proof -
  have ad: "told (snd (admit b now z)) = told z" for b now z by (simp add: admit_def split: prod.splits)
  show ?thesis using assms(3) deliver_told [OF assms(1,2), of m f t _ _ st] ad
    by (auto simp: serve_turn_def split: if_splits sum.splits option.splits prod.splits) (metis snd_conv told_note(2))+
qed

lemma loop_told:
  "serve_loop fuel e m f turns k st w = Some (r, w') \<Longrightarrow> \<not> has_accepted e \<Longrightarrow> \<not> has_outcome e \<Longrightarrow> told w' = told w"
proof (induction fuel arbitrary: k st w)
  case (Suc fuel)
  obtain n w1 where t: "serve_turn e m f (turns k) st w = (n, w1)" by fastforce
  have "told w1 = told w" using turn_told [OF Suc.prems(2,3) t] .
  then show ?case using Suc.prems Suc.IH [of "Suc k" _ w1] t by (cases n) auto
qed simp

lemma Serve_told: "Serve fuel e m turns cands w = Some (r, w') \<Longrightarrow> \<not> has_accepted e \<Longrightarrow> \<not> has_outcome e \<Longrightarrow> told w' = told w"
  unfolding Serve_def by (rule loop_told)

lemma only_pick_members: "picks_members (\<lambda>k. least_turn (f k))"
  by (auto simp: picks_members_def least_turn_def only_pick_def split: list.splits)

lemma Serve_dispatched:
  assumes "Serve fuel e m turns cands w = Some (r, w')" and "picks_members turns"
  shows "\<exists>tr. trace w' = trace w @ tr \<and> set (dispatched tr) \<subseteq> set cands"
  using Serve_trace [OF assms] by (auto simp: loop_good_def)

lemma job_wait_max:
  assumes "\<And>k. 0 < k \<Longrightarrow> 0 \<le> draw k \<and> draw k < k"
  shows "job_wait draw n ra \<le> 5 * second"
proof -
  have "backoffAt draw n (3600 * second) \<le> 3 * second" by (rule backoff_bounds(3) [OF assms]) simp_all
  then show ?thesis by (auto simp: job_wait_def maxJobRetryWait_def split: option.splits)
qed

text \<open>A \<^verbatim>\<open>Retry-After\<close> beyond the range of a \<^verbatim>\<open>time.Duration\<close> wraps: the wait is negative, so the job is sent again at once.\<close>

lemma job_wait_wraps: "job_wait draw n (Some 9223372037) < 0"
  by (simp add: job_wait_def maxJobRetryWait_def)

lemma job_loop_spec:
  assumes "\<And>n k. 0 < k \<Longrightarrow> 0 \<le> jt_draw (js n) k \<and> jt_draw (js n) k < k"
  shows "job_loop fuel e m js n b waits w = Some (x, waits', w') \<Longrightarrow> \<not> has_accepted e \<Longrightarrow> \<not> has_outcome e \<Longrightarrow>
    \<forall>t\<in>set waits. t \<le> 5 * second \<Longrightarrow>
    told w' = told w \<and> (\<forall>t\<in>set waits'. t \<le> 5 * second) \<and> (\<exists>tr. trace w' = trace w @ tr \<and> set (dispatched tr) \<subseteq> {b})"
proof (induction fuel arbitrary: n waits w)
  case (Suc fuel)
  obtain y w1 where S: "Serve 2 e m (\<lambda>k. least_turn (jt_turns (js n) k)) [b] w = Some (y, w1)"
    using Suc.prems(1) by (auto split: option.splits)
  have w1: "told w1 = told w" by (rule Serve_told [OF S Suc.prems(2,3)])
  obtain tr where tr: "trace w1 = trace w @ tr" "set (dispatched tr) \<subseteq> {b}" using Serve_dispatched [OF S only_pick_members] by auto
  define waits1 where "waits1 = waits @ [job_wait (jt_draw (js n)) n (jt_after (js n))]"
  have wt: "\<forall>t\<in>set waits1. t \<le> 5 * second" using Suc.prems(4) job_wait_max [OF assms [of _ n]] by (simp add: waits1_def)
  consider "(waits' = waits \<or> waits' = waits1) \<and> w' = w1" | "job_loop fuel e m js (Suc n) b waits1 w1 = Some (x, waits', w')"
    using Suc.prems(1) S by (cases y) (auto simp: waits1_def Let_def split: if_splits)
  then show ?case
  proof cases
    case 1
    then show ?thesis using w1 tr wt Suc.prems(4) by auto
  next
    case 2
    obtain tr2 where "told w' = told w1" "\<forall>t\<in>set waits'. t \<le> 5 * second" "trace w' = trace w1 @ tr2" "set (dispatched tr2) \<subseteq> {b}"
      using Suc.IH [OF 2 Suc.prems(2,3) wt] by blast
    then show ?thesis using w1 tr by (intro conjI exI [of _ "tr @ tr2"]) (simp_all add: trace_simps)
  qed
qed simp

text \<open>C12. The job goes to its node and nowhere else, tells the flow of no acceptance and of no answer, so it leaves no mark that
  would pull later requests there, and no header of the node makes it wait longer than five seconds at a time.\<close>

theorem job_stays_on_its_node:
  assumes "runPrefillJob fuel e maxAttempts len js b w = Some (x, waits, w')"
    and "\<And>n k. 0 < k \<Longrightarrow> 0 \<le> jt_draw (js n) k \<and> jt_draw (js n) k < k"
  shows "\<exists>tr. trace w' = trace w @ tr \<and> set (dispatched tr) \<subseteq> {b} \<and> (\<forall>c s. Accepted c \<notin> set tr \<and> Answered c s \<notin> set tr) \<and>
    (\<forall>t\<in>set waits. t \<le> 5 * second)"
proof -
  obtain tr where tr: "trace w' = trace w @ tr" "set (dispatched tr) \<subseteq> {b}" "told w' = told w" "\<forall>t\<in>set waits. t \<le> 5 * second"
    using job_loop_spec [OF assms(2) assms(1) [unfolded runPrefillJob_def]] by auto
  have "filter told_event tr = []" using tr(1,3) by (simp add: told_def)
  then have "Accepted c \<notin> set tr \<and> Answered c s \<notin> set tr" for c s by (auto simp: filter_empty_conv told_event_def)
  then show ?thesis using tr by blast
qed

section \<open>The slot is given back\<close>

text \<open>Only \<open>Done\<close> finishes a job, and only \<open>Reserve\<close> makes one.\<close>

lemma grant_keeps [simp]: "jdone (jheap (grantLocked bs a m) i) = jdone (jheap m i)" "jalloc (grantLocked bs a m) = jalloc m"
proof -
  have "jdone (jheap (grant_loop bs a q m) i) = jdone (jheap m i) \<and> jalloc (grant_loop bs a q m) = jalloc m" for q
    by (induction q arbitrary: m) (auto simp: Let_def upd_job_def upd_node_def)
  then show "jdone (jheap (grantLocked bs a m) i) = jdone (jheap m i)" "jalloc (grantLocked bs a m) = jalloc m"
    by (simp_all add: grantLocked_def)
qed

lemma slot_keeps [simp]:
  "jdone (jheap (dequeueLocked j m) i) = jdone (jheap m i)" "jalloc (dequeueLocked j m) = jalloc m"
  "jdone (jheap (drop_slot bs j m) i) = jdone (jheap m i)" "jalloc (drop_slot bs j m) = jalloc m"
  "jdone (jheap (abandon_wait bs j m) i) = jdone (jheap m i)" "jalloc (abandon_wait bs j m) = jalloc m"
  "jdone (jheap (poll_drained bs j m) i) = jdone (jheap m i)" "jalloc (poll_drained bs j m) = jalloc m"
  "jdone (jheap (snd (poll_grant bs j m)) i) = jdone (jheap m i)" "jalloc (snd (poll_grant bs j m)) = jalloc m"
  by (simp_all add: dequeueLocked_def drop_slot_def abandon_wait_def poll_drained_def poll_grant_def Let_def upd_job_def upd_node_def)

lemma release_keeps [simp]: "jheap (releaseLocked a m) = jheap m" "jalloc (releaseLocked a m) = jalloc m"
  by (simp_all add: releaseLocked_def upd_node_def)

lemma Done_keeps [simp]: "jdone (jheap (Done bs now j m) i) = (i = j \<or> jdone (jheap m i))" "jalloc (Done bs now j m) = jalloc m"
  by (simp_all add: Done_def Let_def releaseIfIdleLocked_def trackBudgetLocked_def upd_node_def upd_job_def)

lemma expire_keeps [simp]: "jheap (releaseExpired now m) = jheap m" "jalloc (releaseExpired now m) = jalloc m"
proof -
  have "jheap (fold (\<lambda>ua m. if expired now m (snd ua) then releaseLocked (snd ua) m else m) xs m) = jheap m \<and>
    jalloc (fold (\<lambda>ua m. if expired now m (snd ua) then releaseLocked (snd ua) m else m) xs m) = jalloc m" for xs :: "(url \<times> nat) list"
    by (induction xs arbitrary: m) simp_all
  then show "jheap (releaseExpired now m) = jheap m" "jalloc (releaseExpired now m) = jalloc m" by (simp_all add: releaseExpired_def)
qed

definition keeps_done :: "manager \<Rightarrow> manager \<Rightarrow> bool" where
  "keeps_done m m' \<longleftrightarrow> jalloc m \<le> jalloc m' \<and> (\<forall>i<jalloc m. jdone (jheap m i) \<longrightarrow> jdone (jheap m' i))"

lemma Reserve_gives: "Reserve draw1 draw2 now bs cands tokens pick m = (Some j, m') \<Longrightarrow> jalloc m' = Suc j \<and> \<not> jdone (jheap m' j)"
  by (auto simp: Reserve_def Let_def charge_def trackBudgetLocked_def upd_node_def split: option.splits prod.splits)

lemma pstep_keeps: "pstep m m' \<Longrightarrow> minv m \<Longrightarrow> keeps_done m m'"
proof (induction rule: pstep.induct)
  case (p_reserve pick m draw1 draw2 now bs cands tokens)
  obtain r m' where r: "Reserve draw1 draw2 now bs cands tokens pick m = (r, m')" by fastforce
  have "jalloc m' = Suc j" if "r = Some j" for j
    using Reserve_gives [OF r [unfolded that]] by blast
  then have "jalloc m \<le> jalloc m' \<and> (\<forall>i<jalloc m. jheap m' i = jheap m i)"
    using Reserve_spec [OF p_reserve(2,1) r] by (cases r) auto
  then show ?case by (simp add: keeps_done_def r)
qed (simp_all add: keeps_done_def Prune_def)

text \<open>Between two steps of this request other goroutines run the manager's operations, on any job but this one's end.\<close>

definition others :: "nat \<Rightarrow> manager \<Rightarrow> manager \<Rightarrow> bool" where
  "others j m m' \<longleftrightarrow> pstep\<^sup>*\<^sup>* m m' \<and> jdone (jheap m' j) = jdone (jheap m j)"

definition fair_others :: "split_run \<Rightarrow> nat \<Rightarrow> bool" where
  "fair_others sr j \<longleftrightarrow>
     (\<forall>k x. others j (fst x) (fst (wp_env (sr_polls sr k) x)) \<and> others j (fst x) (fst (wp_late (sr_polls sr k) x))) \<and>
     (\<forall>m. others j m (sr_job_env sr m) \<and> others j m (sr_late sr m))"

text \<open>The job is this request's: it exists and is finished or not.\<close>

definition has_job :: "prefill_config \<Rightarrow> bool \<Rightarrow> nat \<Rightarrow> manager \<Rightarrow> bool" where
  "has_job c d j m \<longleftrightarrow> preachable c m \<and> j < jalloc m \<and> jdone (jheap m j) = d"

lemma steps_reachable: "pstep\<^sup>*\<^sup>* m m' \<Longrightarrow> preachable c m \<Longrightarrow> preachable c m' \<and> jalloc m \<le> jalloc m'"
proof (induction rule: rtranclp_induct)
  case (step y z)
  then show ?case using pstep_keeps [OF step(2) preachable_minv [of c y]] by (auto simp: keeps_done_def intro: p_step)
qed simp

lemma others_job: "others j m m' \<Longrightarrow> has_job c d j m \<Longrightarrow> has_job c d j m'"
  using steps_reachable by (fastforce simp: others_def has_job_def)

lemma grant_wait_job:
  assumes "\<And>k x. others j (fst x) (fst (wp_env (ps k) x)) \<and> others j (fst x) (fst (wp_late (ps k) x))"
  shows "grant_wait fuel ps k j (m, s) = Some (ok, m', s') \<Longrightarrow> has_job c False j m \<Longrightarrow> has_job c False j m' \<and> (ok \<longrightarrow> held (jheap m' j))"
proof (induction fuel arbitrary: k m s)
  case (Suc fuel)
  obtain g m1 where g: "poll_grant (backends s) j m = (g, m1)" by fastforce
  have m1: "has_job c False j m1" using p_step [of c m m1] p_grant [of j m "backends s"] Suc.prems(2) slot_keeps(9,10) [of "backends s" j m]
    by (simp add: has_job_def g)
  have h: "g \<Longrightarrow> held (jheap m1 j)" using g by (auto simp: poll_grant_def Let_def)
  obtain m2 s2 where l: "wp_late (ps k) (m1, s) = (m2, s2)" by fastforce
  obtain m3 s3 where e: "wp_env (ps (Suc k)) (m1, s) = (m3, s3)" by fastforce
  have m2: "has_job c False j m2" using others_job [OF _ m1] assms [of "(m1, s)" k] by (simp add: l)
  have ab: "has_job c False j (abandon_wait (backends s2) j m2)" using m2 p_step [of c m2] p_abandon [of j m2] by (auto simp: has_job_def)
  have m3: "has_job c False j m3" using others_job [OF _ m1] assms [of "(m1, s)" "Suc k"] by (simp add: e)
  show ?case using Suc.prems(1) m1 h ab Suc.IH [OF _ m3] by (auto simp: g l e split: if_splits)
qed simp

lemma drain_wait_job:
  assumes "\<And>k x. others j (fst x) (fst (wp_env (ps k) x)) \<and> others j (fst x) (fst (wp_late (ps k) x))"
  shows "drain_wait fuel ps k j (m, s) = Some (ok, m', s') \<Longrightarrow> has_job c False j m \<Longrightarrow> has_job c False j m' \<and> (ok \<longrightarrow> held (jheap m' j))"
proof (induction fuel arbitrary: k m s)
  case (Suc fuel)
  define m1 where "m1 = poll_drained (backends s) j m"
  have m1: "has_job c False j m1" using Suc.prems(2) p_step [of c m] p_drained [of j m] by (auto simp: has_job_def m1_def)
  obtain m3 s3 where e: "wp_env (ps (Suc k)) (m1, s) = (m3, s3)" by fastforce
  have m3: "has_job c False j m3" using others_job [OF _ m1] assms [of "(m1, s)" "Suc k"] by (simp add: e)
  show ?case using Suc.prems(1) m1 Suc.IH [OF _ m3] grant_wait_job [OF assms _ m1] by (auto simp: m1_def [symmetric] e Let_def split: if_splits)
qed simp

lemma Done_job: "has_job c d j m \<Longrightarrow> has_job c True j (Done bs now j m)"
  using p_step [of c m] p_done [of j m] by (auto simp: has_job_def)

lemma decode_job:
  assumes "job_and_decode fuel rc e sr j m w = Some (x, evs, m', w')" and "fair_others sr j" and "has_job c False j m"
  shows "has_job c True j m'"
proof -
  have o1: "has_job c d j (sr_job_env sr z)" "has_job c d j (sr_late sr z)" if "has_job c d j z" for d z
    using others_job [OF _ that] assms(2) by (auto simp: fair_others_def)
  have d: "has_job c True j (Done bs now j (sr_job_env sr m))" for bs now using Done_job o1(1) assms(3) by blast
  have "has_job c True j (Done bs' now' j (sr_late sr (Done bs now j (sr_job_env sr m))))" for bs now bs' now'
    using Done_job o1(2) [OF d] by blast
  then show ?thesis using assms(1) d by (auto simp: job_and_decode_def Let_def split: option.splits job_end.splits prod.splits)
qed

text \<open>C10. However a split request ends, be it answered, fallen back, left by its caller or aborted by a panic, its job has been
  released: it holds no slot, waits in no queue and charges its node nothing, and the manager is in a state its operations
  reach, whatever other requests did in between.\<close>

theorem split_gives_back:
  assumes "splitAndServe fuel rc e sr refused m w = Some (x, evs, m', w')" and "preachable c m" and "picker_ok (sr_pick sr)"
    and "fair_others sr (jalloc m)"
  shows "preachable c m' \<and>
    (\<forall>j. fst (Reserve (sr_draw1 sr) (sr_draw2 sr) (sr_now sr) (backends (sys w)) (sr_cands sr) (PrefillTokens refused) (sr_pick sr) m) = Some j \<longrightarrow>
      jdone (jheap m' j) \<and> \<not> held (jheap m' j) \<and> \<not> queued (jheap m' j) \<and> (\<forall>a. j \<notin> open_jobs m' a))"
proof -
  obtain r m1 where r: "Reserve (sr_draw1 sr) (sr_draw2 sr) (sr_now sr) (backends (sys w)) (sr_cands sr) (PrefillTokens refused) (sr_pick sr) m = (r, m1)"
    by fastforce
  have m1: "preachable c m1" using p_step [OF assms(2) p_reserve [OF assms(3)]] r by (metis snd_conv)
  note S = assms(1) [unfolded splitAndServe_def Let_def r prod.case]
  show ?thesis
  proof (cases r)
    case None
    then have "m' = m1" using S by (auto split: option.splits)
    then show ?thesis using m1 by (simp add: r None)
  next
    case (Some j)
    have j: "j = jalloc m" using Reserve_spec [OF preachable_minv [OF assms(2)] assms(3) r] by (simp add: Some)
    have F: "fair_others sr j" using assms(4) by (simp add: j)
    have P: "others j (fst x) (fst (wp_env (sr_polls sr k) x)) \<and> others j (fst x) (fst (wp_late (sr_polls sr k) x))" for k x
      using F unfolding fair_others_def by blast
    have h1: "has_job c False j m1" using m1 Reserve_gives [OF r [unfolded Some]] by (simp add: has_job_def)
    obtain ok m2 s where W: "WaitReady fuel (sr_polls sr) j (m1, sys w) = Some (ok, m2, s)" using S by (auto simp: Some split: option.splits)
    obtain m0 s0 where e0: "wp_env (sr_polls sr 0) (m1, sys w) = (m0, s0)" by fastforce
    have "has_job c False j m0" using others_job [OF _ h1] P [of "(m1, sys w)" 0] by (simp add: e0)
    then have h2: "has_job c False j m2" using drain_wait_job [OF P W [unfolded WaitReady_def e0]] by blast
    have "has_job c True j m'"
    proof (cases ok)
      case True
      then show ?thesis using S decode_job [OF _ F h2] by (auto simp: Some W)
    next
      case False
      then show ?thesis using S Done_job [OF h2] by (auto simp: Some W)
    qed
    then show ?thesis using preachable_minv [of c m'] by (auto simp: has_job_def r Some minv_def load_inv_def open_jobs_def)
  qed
qed

section \<open>A split request ends\<close>

lemma grant_wait_ends: "wp_done (ps n) \<Longrightarrow> k \<le> n \<Longrightarrow> n - k < fuel \<Longrightarrow> \<exists>y. grant_wait fuel ps k j x = Some y"
proof (induction fuel arbitrary: k x)
  case (Suc fuel)
  show ?case
  proof (cases "wp_done (ps k)")
    case True
    then show ?thesis by (auto split: prod.splits)
  next
    case False
    then have "k \<noteq> n" using Suc.prems(1) by auto
    then have "\<exists>y. grant_wait fuel ps (Suc k) j z = Some y" for z using Suc.IH [of "Suc k" z] Suc.prems by simp
    then show ?thesis using False by (auto split: prod.splits)
  qed
qed simp

lemma drain_wait_ends: "wp_done (ps n) \<Longrightarrow> k \<le> n \<Longrightarrow> n - k + 1 < fuel \<Longrightarrow> \<exists>y. drain_wait fuel ps k j x = Some y"
proof (induction fuel arbitrary: k x)
  case (Suc fuel)
  have g: "\<exists>y. grant_wait fuel ps k j z = Some y" for z using grant_wait_ends [of ps n k fuel j z] Suc.prems by simp
  show ?case
  proof (cases "wp_done (ps k)")
    case True
    then show ?thesis using g by (auto simp: Let_def split: prod.splits)
  next
    case False
    then have "k \<noteq> n" using Suc.prems(1) by auto
    then have "\<exists>y. drain_wait fuel ps (Suc k) j z = Some y" for z using Suc.IH [of "Suc k" z] Suc.prems by simp
    then show ?thesis using False g by (auto simp: Let_def split: prod.splits)
  qed
qed simp

lemma job_loop_ends: "jt_gone (js n) \<Longrightarrow> k \<le> n \<Longrightarrow> n - k < fuel \<Longrightarrow> \<exists>y. job_loop fuel e m js k b waits w = Some y"
proof (induction fuel arbitrary: k waits w)
  case (Suc fuel)
  obtain y w1 where S: "Serve 2 e m (\<lambda>i. least_turn (jt_turns (js k) i)) [b] w = Some (y, w1)"
    using Serve_some [OF only_pick_members, of "[b]" 2 e m "jt_turns (js k)" w] by auto
  have "\<exists>y. job_loop fuel e m js (Suc k) b z w1 = Some y" if "\<not> jt_gone (js k)" for z
  proof -
    have "k \<noteq> n" using that Suc.prems(1) by auto
    then show ?thesis using Suc.IH [of "Suc k" z w1] Suc.prems by simp
  qed
  then show ?case using S by (cases y) (auto simp: Let_def)
qed simp

lemma routed_ends:
  assumes "\<And>k. picks_members (i_turns (sr_its sr k))" and "sr_retry sr + RetryTimeLimit rc \<le> i_check (sr_its sr n3)" and "n3 < fuel"
  shows "\<exists>y w'. routed fuel rc e sr w = Some (y, w')"
  using capacity_ends [where its = "sr_its sr" and n = n3, OF assms, of e w] by (auto simp: routed_def)

lemma split_defined:
  assumes "wp_done (sr_polls sr n1)" and "jt_gone (sr_jobs sr n2)" and "\<And>k. picks_members (i_turns (sr_its sr k))"
    and "sr_retry sr + RetryTimeLimit rc \<le> i_check (sr_its sr n3)" and "n1 + 1 < fuel" and "n2 < fuel" and "n3 < fuel"
  shows "\<exists>x evs m' w'. splitAndServe fuel rc e sr refused m w = Some (x, evs, m', w')"
proof -
  define e1 where "e1 = e\<lparr>capture := False, bodylen := sr_blen sr\<rparr>"
  obtain r m1 where r: "Reserve (sr_draw1 sr) (sr_draw2 sr) (sr_now sr) (backends (sys w)) (sr_cands sr) (PrefillTokens refused) (sr_pick sr) m = (r, m1)"
    by fastforce
  have R: "\<exists>y z. routed fuel rc d sr v = Some (y, z)" for d v by (rule routed_ends [OF assms(3,4,7)])
  show ?thesis
  proof (cases r)
    case None
    have O: "\<exists>y z. Serve 2 e1 (MaxAttempts rc) (\<lambda>k. least_turn (sr_orig_turns sr k)) [b] w = Some (y, z)" for b
      using Serve_some [OF only_pick_members, of "[b]" 2 e1 "MaxAttempts rc" "sr_orig_turns sr" w] by auto
    have "\<exists>y z. serveOnOriginal fuel rc e1 sr (Backend refused) m1 w = Some (y, z)"
    proof (cases "Backend refused")
      case (Some b)
      show ?thesis using O [of b] R [of e1 w] by (auto simp: serveOnOriginal_def Some)
    qed (use R [of e1 w] in \<open>simp add: serveOnOriginal_def\<close>)
    then show ?thesis by (auto simp: splitAndServe_def Let_def r None e1_def [symmetric])
  next
    case (Some j)
    obtain ok m2 s where W: "WaitReady fuel (sr_polls sr) j (m1, sys w) = Some (ok, m2, s)"
      using drain_wait_ends [of "sr_polls sr" n1 0 fuel j] assms(1,5) by (metis WaitReady_def diff_zero le0 prod_cases3)
    have "\<exists>y. job_and_decode fuel rc e1 sr j m2 (w\<lparr>sys := s\<rparr>) = Some y"
    proof -
      obtain y waits w1 where "runPrefillJob fuel e1 (MaxAttempts rc) (sr_jlen sr) (sr_jobs sr) (jbackend (jheap m2 j)) (w\<lparr>sys := s\<rparr>) = Some (y, waits, w1)"
        using job_loop_ends [of "sr_jobs sr" n2 0 fuel] assms(2,6) by (metis runPrefillJob_def diff_zero le0 prod_cases3)
      then show ?thesis using R [of e1 w1] by (cases y) (auto simp: job_and_decode_def Let_def)
    qed
    then show ?thesis by (cases ok) (auto simp: splitAndServe_def Let_def r Some W e1_def [symmetric])
  qed
qed

text \<open>The caller's patience bounds everything: if it leaves by poll \<open>n1\<close> of the wait for the node and by try \<open>n2\<close> of the job, and
  check \<open>n3\<close> of the final routing finds the budget spent, the request ends, with fuel beyond those numbers. A full node, a
  node that never drains or one that answers 429 for ever holds it no longer.\<close>

theorem split_ends:
  assumes "wp_done (sr_polls sr n1)" and "jt_gone (sr_jobs sr n2)" and "\<And>k. picks_members (i_turns (sr_its sr k))"
    and "sr_retry sr + RetryTimeLimit rc \<le> i_check (sr_its sr n3)" and "n1 + 1 < fuel" and "n2 < fuel" and "n3 < fuel"
  shows "\<exists>x evs m' w'. splitAndServe fuel rc e sr refused m w = Some (x, evs, m', w')"
  by (rule split_defined [OF assms])

section \<open>A prefill that is cut short\<close>

text \<open>The first turn asks \<open>b\<close>, which admits it, and its answer breaks off after a good status.\<close>

definition cut_short :: "sel_error turn \<Rightarrow> nat list \<Rightarrow> nat \<Rightarrow> pworld \<Rightarrow> bool" where
  "cut_short t cands b w \<longleftrightarrow> cands \<noteq> [] \<and> t_pick t cands = Inr (Some b) \<and> fst (fst (admit b (t_now t) (on_sys (t_env t) w))) \<and>
     url_ok (t_dispatch t) \<and>
     (case trip (t_dispatch t) of NoReply x \<Rightarrow> False | Reply a \<Rightarrow> 200 \<le> r_status a \<and> r_status a < 300 \<and> r_end a \<noteq> EOF)"

lemma attempt_cut_short:
  assumes "attempt e cr c d b ch w = (r, c', w')" and "url_ok d" and "trip d = Reply a" and "200 \<le> r_status a" and "r_status a < 300"
    and "r_end a \<noteq> EOF" and "in_server e"
  shows "r = Panicked AbortHandler"
proof -
  obtain p i w0 w1 where p: "reverse_proxy e cr c d b i w0 = (p, w1)"
    "r = (if p_panics p then Panicked AbortHandler else Returned (conclude (gone d) p))" by (rule attempt_result [OF assms(1,2)])
  have n: "\<not> refusal_of a" "\<not> retried_elsewhere x a" for x using assms(4,5) by (auto simp: refusal_of_def retried_elsewhere_def isRetryable_def)
  have "p_hook p = Pass False" using reverse_proxy_reply(3) [OF p(1) assms(3) n(1)] n(2) by simp
  then have "p_panics p" using reverse_proxy_reply(4) [OF p(1) assms(3)] assms(6,7) by simp
  then show ?thesis using p(2) by simp
qed

lemma deliver_cut_short:
  assumes "url_ok (t_dispatch t)" and "trip (t_dispatch t) = Reply a" and "200 \<le> r_status a" and "r_status a < 300"
    and "r_end a \<noteq> EOF" and "in_server e"
  shows "\<exists>w'. deliver e m f t b token st w = (Stop (Aborts AbortHandler), w')"
proof -
  define cr where "cr = ((tries st + 1 < m \<or> failovers st < f) \<and> length (remaining st) > 1)"
  obtain r c w1 where at: "attempt e cr (l_committed st) (t_dispatch t) b (prefillCharge (t_prefill t) b (bodylen e)) (note_event (Dispatched b) w) = (r, c, w1)"
    by (metis prod_cases3)
  have r: "r = Panicked AbortHandler" by (rule attempt_cut_short [OF at assms])
  show ?thesis unfolding deliver_def Let_def cr_def [symmetric] at r runAttempt_def prod.case attempt_result.case by simp
qed

lemma Serve_cut_short:
  assumes "cut_short (turns 0) cands b w" and "in_server e" and "0 < m" and "0 < fuel"
  shows "\<exists>w'. Serve fuel e m turns cands w = Some (Aborts AbortHandler, w')"
proof -
  let ?t = "turns 0" and ?f = "length cands"
  let ?st = "\<lparr>remaining = cands, tries = 0, failovers = 0, l_committed = False, res = no_result\<rparr>"
  obtain n where n: "fuel = Suc n" using assms(4) by (cases fuel) auto
  note C = assms(1) [unfolded cut_short_def]
  obtain a where a: "trip (t_dispatch ?t) = Reply a" "200 \<le> r_status a" "r_status a < 300" "r_end a \<noteq> EOF"
    using C by (auto split: round_trip.splits)
  obtain token w1 where ad: "admit b (t_now ?t) (on_sys (t_env ?t) w) = ((True, token), w1)" using C by (metis (full_types) prod.collapse)
  have "\<exists>w'. deliver e m ?f ?t b token ?st w1 = (Stop (Aborts AbortHandler), w')"
    by (rule deliver_cut_short [OF _ a assms(2)]) (use C in simp)
  then show ?thesis using C ad assms(3) by (auto simp: Serve_def n serve_turn_def)
qed

text \<open>C11. A job whose node answers well and then breaks off aborts the request itself: the copy of the discarded body panics as it
  does for a body the client reads, so nothing is retried, the decode never happens and the handler writes nothing. Only a
  failure before the body is a failed job.\<close>

theorem truncated_job_aborts:
  assumes "Reserve (sr_draw1 sr) (sr_draw2 sr) (sr_now sr) (backends (sys w)) (sr_cands sr) (PrefillTokens refused) (sr_pick sr) m = (Some j, m1)"
    and "WaitReady fuel (sr_polls sr) j (m1, sys w) = Some (True, m2, s)"
    and "cut_short (least_turn (jt_turns (sr_jobs sr 0) 0)) [jbackend (jheap m2 j)] b (w\<lparr>sys := s\<rparr>)"
    and "in_server e" and "0 < MaxAttempts rc" and "0 < fuel"
  shows "\<exists>evs m' w'. splitAndServe fuel rc e sr refused m w = Some (Panics AbortHandler, evs, m', w') \<and> answer_for ctxErr (Panics AbortHandler) = None"
proof -
  let ?e = "e\<lparr>capture := False, bodylen := sr_jlen sr, has_accepted := False, has_outcome := False\<rparr>"
  obtain n where n: "fuel = Suc n" using assms(6) by (cases fuel) auto
  let ?e1 = "e\<lparr>capture := False, bodylen := sr_blen sr\<rparr>\<lparr>has_accepted := False, has_outcome := False, bodylen := sr_jlen sr\<rparr>"
  have "in_server ?e1" using assms(4) by simp
  then obtain w' where S: "Serve 2 ?e1 (MaxAttempts rc) (\<lambda>k. least_turn (jt_turns (sr_jobs sr 0) k)) [jbackend (jheap m2 j)] (w\<lparr>sys := s\<rparr>) =
      Some (Aborts AbortHandler, w')"
    using Serve_cut_short [of "\<lambda>k. least_turn (jt_turns (sr_jobs sr 0) k)" "[jbackend (jheap m2 j)]" b "w\<lparr>sys := s\<rparr>" ?e1 "MaxAttempts rc" 2] assms(3,5)
    by auto
  have J: "runPrefillJob fuel (e\<lparr>capture := False, bodylen := sr_blen sr\<rparr>) (MaxAttempts rc) (sr_jlen sr) (sr_jobs sr) (jbackend (jheap m2 j)) (w\<lparr>sys := s\<rparr>) =
      Some (JobPanics AbortHandler, [], w')"
    using S by (simp add: runPrefillJob_def n)
  show ?thesis unfolding splitAndServe_def Let_def assms(1) prod.case option.case assms(2) bool.case job_and_decode_def J
    by (simp add: answer_for_def)
qed

section \<open>Prefill nodes and decode nodes\<close>

text \<open>What a run adds to the trace asks only nodes of a set.\<close>

definition asks_only :: "nat set \<Rightarrow> pworld \<Rightarrow> pworld \<Rightarrow> bool" where
  "asks_only D w w' \<longleftrightarrow> (\<exists>tr. trace w' = trace w @ tr \<and> set (dispatched tr) \<subseteq> D)"

lemma asks_same: "trace w' = trace w \<Longrightarrow> asks_only D w w'"
  by (simp add: asks_only_def trace_simps)

lemma asks_trans: "asks_only D w w1 \<Longrightarrow> asks_only D w1 w2 \<Longrightarrow> asks_only D w w2"
  by (fastforce simp: asks_only_def trace_simps)

lemma Serve_asks: "Serve fuel e m turns cands w = Some (r, w') \<Longrightarrow> picks_members turns \<Longrightarrow> set cands \<subseteq> D \<Longrightarrow> asks_only D w w'"
  using Serve_dispatched [of fuel e m turns cands w r w'] by (auto simp: asks_only_def)

lemma refuse_trace: "refuse rc it a r d w = (n, r1, w1) \<Longrightarrow> trace w1 = trace w"
  by (auto simp: refuse_def Let_def split: if_splits option.splits prod.splits queue_outcome.splits)

lemma pass_slot_trace [simp]: "trace (pass_slot a r w) = trace w"
  by (simp add: pass_slot_def split: option.split)

lemma iterate_asks:
  assumes "iterate rc e it r d w = Some (n, r1, w1)" and "picks_members (i_turns it)" and "set (i_cands it) \<subseteq> D"
  shows "asks_only D w w1"
proof (cases "i_cands it = []")
  case True
  then show ?thesis using assms(1) by (simp add: iterate_def Let_def asks_same)
next
  case False
  obtain y w2 where S: "Serve (length (i_cands it) + 1) e (MaxAttempts rc) (i_turns it) (i_cands it) w = Some (y, w2)"
    using assms(1) False by (auto simp: iterate_def Let_def split: option.splits)
  have "trace w1 = trace w2"
    using assms(1) False S by (cases y) (auto simp: iterate_def Let_def dest: refuse_trace split: if_splits)
  then show ?thesis using asks_trans [OF Serve_asks [OF S assms(2,3)] asks_same] by blast
qed

lemma retry_asks:
  assumes "\<And>k. picks_members (i_turns (its k)) \<and> set (i_cands (its k)) \<subseteq> D"
  shows "retry_loop fuel rc e its k r d w = Some (x, r1, w1) \<Longrightarrow> asks_only D w w1"
proof (induction fuel arbitrary: k r w)
  case (Suc fuel)
  obtain n r2 w2 where i: "iterate rc e (its k) r d w = Some (n, r2, w2)" using Suc.prems by (cases "iterate rc e (its k) r d w") auto
  have "asks_only D w w2" using iterate_asks [OF i] assms by blast
  then show ?case using Suc.prems Suc.IH [of "Suc k" r2 w2] i by (cases n) (auto intro: asks_trans)
qed simp

lemma pd_loop_asks:
  assumes "\<And>n. picks_members (pt_turns (tries0 n))"
  shows "pd_loop fuel urls ps rc e tries0 d n evs w = Some (x, evs', w') \<Longrightarrow> asks_only {b. IsPrefill ps (urls b)} w w'"
proof (induction fuel arbitrary: n evs w)
  case (Suc fuel)
  let ?D = "{b. IsPrefill ps (urls b)}"
  define cands where "cands = pd_filter urls ps True (pt_healthy (tries0 n))"
  have c: "set cands \<subseteq> ?D" by (auto simp: cands_def pd_filter_def)
  show ?case
  proof (cases "cands = []")
    case True
    then show ?thesis using Suc.prems by (simp add: Let_def cands_def asks_same)
  next
    case False
    obtain y w1 where S: "Serve (length cands + 1) e (MaxAttempts rc) (pt_turns (tries0 n)) cands w = Some (y, w1)"
      using Suc.prems False by (auto simp: Let_def cands_def split: option.splits)
    have w1: "asks_only ?D w w1" by (rule Serve_asks [OF S assms c])
    have "w' = w1 \<or> (\<exists>evs1. pd_loop fuel urls ps rc e tries0 d (Suc n) evs1 w1 = Some (x, evs', w'))"
      using Suc.prems False S by (cases y) (auto simp: Let_def cands_def split: if_splits prod.splits)
    then show ?thesis using w1 Suc.IH asks_trans by blast
  qed
qed simp

text \<open>C13. A disaggregated request is prefilled on P nodes and decoded on D nodes, and nowhere else: the trace of \<^verbatim>\<open>pdServe\<close> is a part
  that asks P nodes followed by a part that asks D nodes, when the candidates of the second are those of \<^verbatim>\<open>candidates\<close>.\<close>

theorem pd_legs_separate:
  assumes "pdServe fuel urls ps rc leg e dlen tries0 began its now w = Some (x, evs, w')"
    and "\<And>n. picks_members (pt_turns (tries0 n))" and "\<And>k. picks_members (i_turns (its k))"
    and "\<And>k. \<exists>t dialect bs split snap. (\<forall>b. URL (bs b) = urls b) \<and> i_cands (its k) = candidates t dialect bs split (Some ps) snap"
  shows "\<exists>pre dec. trace w' = trace w @ pre @ dec \<and> (\<forall>b\<in>set (dispatched pre). IsPrefill ps (urls b)) \<and>
    (\<forall>b\<in>set (dispatched dec). \<not> IsPrefill ps (urls b))"
proof -
  let ?D = "{b. \<not> IsPrefill ps (urls b)}"
  have its: "picks_members (i_turns (its k)) \<and> set (i_cands (its k)) \<subseteq> ?D" for k
  proof -
    obtain t dialect bs split snap where "\<forall>b. URL (bs b) = urls b" "i_cands (its k) = candidates t dialect bs split (Some ps) snap"
      using assms(4) [of k] by blast
    then show ?thesis using assms(3) by (auto simp: candidates_def Let_def pd_filter_def)
  qed
  obtain y evs1 w1 where p: "runPDPrefill fuel urls ps rc leg tries0 began w = Some (y, evs1, w1)"
    using assms(1) by (auto simp: pdServe_def split: option.splits)
  have "asks_only {b. IsPrefill ps (urls b)} w w1" by (rule pd_loop_asks [OF assms(2) p [unfolded runPDPrefill_def]])
  moreover have "asks_only ?D w1 w'"
  proof (cases y)
    case (PDPanics q)
    then show ?thesis using assms(1) p by (simp add: pdServe_def asks_same)
  next
    case (PDParams params)
    then obtain r x1 where "serveWithCapacityRetry fuel rc (case params of None \<Rightarrow> e | Some z \<Rightarrow> e\<lparr>bodylen := dlen z\<rparr>) its now w1 = Some (x1, r, w')"
      using assms(1) p by (auto simp: pdServe_def split: option.splits)
    then show ?thesis unfolding serveWithCapacityRetry_def by (rule retry_asks [OF its])
  qed
  ultimately show ?thesis by (fastforce simp: asks_only_def)
qed

text \<open>A leg cut short aborts the request as well; the D node that would recompute the prompt is not asked.\<close>

theorem truncated_leg_aborts:
  assumes "cut_short (pt_turns (tries0 0) 0) (pd_filter urls ps True (pt_healthy (tries0 0))) b w" and "in_server leg" and "0 < MaxAttempts rc"
    and "0 < fuel"
  shows "\<exists>w'. pdServe fuel urls ps rc leg e dlen tries0 began its now w = Some (Panics AbortHandler, [], w')"
proof -
  obtain n where n: "fuel = Suc n" using assms(4) by (cases fuel) auto
  let ?c = "pd_filter urls ps True (pt_healthy (tries0 0))"
  obtain w' where S: "Serve (length ?c + 1) leg (MaxAttempts rc) (pt_turns (tries0 0)) ?c w = Some (Aborts AbortHandler, w')"
    using Serve_cut_short [where turns = "pt_turns (tries0 0)", OF assms(1-3), of "length ?c + 1"] by auto
  moreover have "?c \<noteq> []" using assms(1) by (simp add: cut_short_def)
  ultimately have "runPDPrefill fuel urls ps rc leg tries0 began w = Some (PDPanics AbortHandler, [], w')"
    by (simp add: runPDPrefill_def n Let_def)
  then show ?thesis by (simp add: pdServe_def)
qed

lemma pd_loop_ends:
  assumes "\<And>k. picks_members (pt_turns (tries0 k))"
  shows "pt_gone (tries0 n) \<Longrightarrow> k \<le> n \<Longrightarrow> n - k < fuel \<Longrightarrow> \<exists>y. pd_loop fuel urls ps rc e tries0 d k evs w = Some y"
proof (induction fuel arbitrary: k evs w)
  case (Suc fuel)
  define cands where "cands = pd_filter urls ps True (pt_healthy (tries0 k))"
  obtain y w1 where S: "Serve (length cands + 1) e (MaxAttempts rc) (pt_turns (tries0 k)) cands w = Some (y, w1)"
    using Serve_some [OF assms, of cands "length cands + 1" e "MaxAttempts rc" k w] by auto
  have "\<exists>y. pd_loop fuel urls ps rc e tries0 d (Suc k) z w1 = Some y" if "\<not> pt_gone (tries0 k)" for z
  proof -
    have "k \<noteq> n" using that Suc.prems(1) by auto
    then show ?thesis using Suc.IH [of "Suc k" z w1] Suc.prems by simp
  qed
  then show ?case using S by (cases y) (auto simp: Let_def cands_def split: prod.splits)
qed simp

section \<open>A refused request of two backends\<close>

text \<open>Every answer is \<open>a\<close>; the caller leaves at the fourth poll or try, the budget is spent at the fourth check.\<close>

definition poll0 :: "nat \<Rightarrow> wait_poll" where
  "poll0 k = \<lparr>wp_env = (\<lambda>x. x), wp_done = (k = 3), wp_late = (\<lambda>x. x)\<rparr>"

definition job0 :: "round_trip \<Rightarrow> nat \<Rightarrow> job_try" where
  "job0 a k = \<lparr>jt_turns = (\<lambda>_. turn0 a), jt_after = None, jt_draw = (\<lambda>_. 0), jt_gone = (k = 3)\<rparr>"

definition its0 :: "nat \<Rightarrow> iteration" where
  "its0 k = iteration0 (if k = 3 then 2 * second else 0) (\<lambda>_. turn0 (Reply reply0))"

definition run0 :: "round_trip \<Rightarrow> split_run" where
  "run0 a = \<lparr>sr_cands = [0, 1], sr_now = 0, sr_draw1 = (\<lambda>_ _. 0), sr_draw2 = (\<lambda>_ _. 0), sr_pick = None, sr_polls = poll0,
     sr_jobs = job0 a, sr_job_env = (\<lambda>m. m), sr_done = 5, sr_late = (\<lambda>m. m), sr_orig_turns = (\<lambda>_. turn0 a),
     sr_its = its0, sr_retry = 0, sr_blen = 60, sr_jlen = 50\<rparr>"

definition refused0 :: "sel_error result" where
  "refused0 = no_result\<lparr>Backend := Some 0, PrefillRejected := True, PrefillTokens := 50\<rparr>"

definition world1 :: pworld where
  "world1 = world0\<lparr>sys := linit ex_fleet\<rparr>"

definition start0 :: manager where
  "start0 = Prefill_New ex_pcfg"

lemma run0_fields [simp]: "sr_polls (run0 a) = poll0" "sr_jobs (run0 a) = job0 a" "sr_its (run0 a) = its0" "sr_retry (run0 a) = 0"
  "sr_pick (run0 a) = None" "wp_done (poll0 k) = (k = 3)" "jt_gone (job0 a k) = (k = 3)" "RetryTimeLimit config0 = second"
  "i_check (its0 k) = (if k = 3 then 2 * second else 0)" "i_turns (its0 k) = (\<lambda>_. turn0 (Reply reply0))"
  by (simp_all add: run0_def poll0_def job0_def config0_def its0_def iteration0_def)

theorem split_ends_witness:
  "\<exists>x evs m' w'. splitAndServe 9 config0 env0 (run0 (Reply (reply0\<lparr>r_status := 429\<rparr>))) refused0 start0 world1 = Some (x, evs, m', w')"
  using split_ends [of "run0 (Reply (reply0\<lparr>r_status := 429\<rparr>))" 3 3 config0 3 9 env0 refused0 start0 world1] turn0_members [of "\<lambda>_. Reply reply0"] by simp

lemma split0:
  obtains x evs m' w' where "splitAndServe 9 config0 env0 (run0 (Reply reply0)) refused0 start0 world1 = Some (x, evs, m', w')"
  using split_defined [of "run0 (Reply reply0)" 3 3 config0 3 9 env0 refused0 start0 world1] turn0_members [of "\<lambda>_. Reply reply0"] by auto

theorem split_once_witness:
  "\<exists>x evs m' w'. splitAndServe 9 config0 env0 (run0 (Reply reply0)) refused0 start0 world1 = Some (x, evs, m', w') \<and>
    (case x of Settles a \<Rightarrow> \<not> PrefillRejected a | NodeQueueFull a \<Rightarrow> \<not> PrefillRejected a | Panics p \<Rightarrow> True)"
  using split0 split_once by metis

lemma fair0: "fair_others (run0 a) j"
  by (simp add: fair_others_def run0_def poll0_def others_def)

theorem split_gives_back_witness:
  "\<exists>x evs m' w'. splitAndServe 9 config0 env0 (run0 (Reply reply0)) refused0 start0 world1 = Some (x, evs, m', w') \<and>
    preachable ex_pcfg m' \<and> jdone (jheap m' 0)"
proof -
  obtain x evs m' w' where s: "splitAndServe 9 config0 env0 (run0 (Reply reply0)) refused0 start0 world1 = Some (x, evs, m', w')"
    by (rule split0)
  have "preachable ex_pcfg start0" "picker_ok (sr_pick (run0 (Reply reply0)))"
    by (simp_all add: start0_def p_init picker_ok_def)
  moreover have "fst (Reserve (\<lambda>_ _. 0) (\<lambda>_ _. 0) 0 (backends (sys world1)) [0, 1] 50 None start0) = Some 0" by code_simp
  ultimately have "preachable ex_pcfg m' \<and> jdone (jheap m' 0)"
    using split_gives_back [OF s _ _ fair0] by (simp add: run0_def refused0_def)
  then show ?thesis using s by blast
qed

lemma world1_trace: "trace world1 = []"
  by (simp add: world1_def world0_def)

theorem job_stays_on_its_node_witness:
  "\<exists>x waits w'. runPrefillJob 9 env0 2 50 (job0 (Reply reply0)) 1 world1 = Some (x, waits, w') \<and>
    set (dispatched (trace w')) \<subseteq> {1} \<and> Accepted 1 \<notin> set (trace w')"
proof -
  obtain x waits w' where r: "runPrefillJob 9 env0 2 50 (job0 (Reply reply0)) 1 world1 = Some (x, waits, w')"
    using job_loop_ends [of "job0 (Reply reply0)" 3 0 9 "env0\<lparr>has_accepted := False, has_outcome := False, bodylen := 50\<rparr>" 2 1 "[]" world1]
    by (auto simp: runPrefillJob_def)
  have "0 < k \<Longrightarrow> 0 \<le> jt_draw (job0 (Reply reply0) n) k \<and> jt_draw (job0 (Reply reply0) n) k < k" for n k by (simp add: job0_def)
  from job_stays_on_its_node [OF r this] show ?thesis using r by (auto simp: world1_trace)
qed

text \<open>The node breaks off in the middle of its answer.\<close>

definition broken :: round_trip where
  "broken = Reply (reply0\<lparr>r_end := ReadFails Transport\<rparr>)"

theorem truncated_job_aborts_witness:
  "\<exists>evs m' w'. splitAndServe 9 config0 env0 (run0 broken) refused0 start0 world1 = Some (Panics AbortHandler, evs, m', w')"
proof -
  let ?R = "Reserve (\<lambda>_ _. 0) (\<lambda>_ _. 0) 0 (backends (sys world1)) [0, 1] 50 None start0"
  have "fst ?R = Some 0" by code_simp
  then obtain m1 where r: "?R = (Some 0, m1)" by (metis prod.collapse)
  have "case WaitReady 9 poll0 0 (snd ?R, sys world1) of None \<Rightarrow> False
    | Some y \<Rightarrow> fst y \<and> cut_short (least_turn (turn0 broken)) [jbackend (jheap (fst (snd y)) 0)] 1 (world1\<lparr>sys := snd (snd y)\<rparr>)" by code_simp
  then have c: "case WaitReady 9 poll0 0 (m1, sys world1) of None \<Rightarrow> False
    | Some y \<Rightarrow> fst y \<and> cut_short (least_turn (turn0 broken)) [jbackend (jheap (fst (snd y)) 0)] 1 (world1\<lparr>sys := snd (snd y)\<rparr>)" unfolding r snd_conv .
  obtain ok m2 s where w: "WaitReady 9 poll0 0 (m1, sys world1) = Some (ok, m2, s)"
    using c by (cases "WaitReady 9 poll0 0 (m1, sys world1)") auto
  have c2: "ok" "cut_short (least_turn (turn0 broken)) [jbackend (jheap m2 0)] 1 (world1\<lparr>sys := s\<rparr>)" using c by (simp_all add: w)
  show ?thesis
    using truncated_job_aborts [of "run0 broken" world1 refused0 start0 0 m1 9 m2 s 1 env0 config0] r w c2
    by (simp add: run0_def refused0_def job0_def env0_def config0_def no_result_def)
qed

text \<open>One P node and one D node.\<close>

definition pd0 :: "round_trip \<Rightarrow> nat \<Rightarrow> pd_try" where
  "pd0 a k = \<lparr>pt_healthy = [0, 1], pt_turns = (\<lambda>_. turn0 a), pt_left = False, pt_now = 0, pt_after = None, pt_draw = (\<lambda>_. 0),
     pt_gone = (k = 3), pt_params = Some [123, 125]\<rparr>"

definition up :: "backend \<Rightarrow> backend" where
  "up b = b\<lparr>bhealth := Healthy\<rparr>"

definition its1 :: "nat \<Rightarrow> iteration" where
  "its1 k = (its0 k)\<lparr>i_cands := candidates 0 ''openai'' (\<lambda>b. up (ex_fleet b)) None (Some (PD_New [''a/''])) [0, 1]\<rparr>"

theorem pd_legs_separate_witness:
  "\<exists>x evs w' pre dec. pdServe 9 (\<lambda>b. URL (ex_fleet b)) (PD_New [''a/'']) config0 env0 env0 length (pd0 (Reply reply0)) 0 its1 0 world1 = Some (x, evs, w') \<and>
    trace w' = pre @ dec \<and> set (dispatched pre) \<subseteq> {b. IsPrefill (PD_New [''a/'']) (URL (ex_fleet b))} \<and>
    set (dispatched dec) \<inter> {b. IsPrefill (PD_New [''a/'']) (URL (ex_fleet b))} = {}"
proof -
  let ?u = "\<lambda>b. URL (ex_fleet b)" and ?ps = "PD_New [''a/'']"
  have t: "picks_members (pt_turns (pd0 a k))" "picks_members (i_turns (its1 k))" for a k
    using turn0_members [of "\<lambda>_. a"] turn0_members [of "\<lambda>_. Reply reply0"] by (simp_all add: pd0_def its1_def)
  obtain y evs w1 where p: "runPDPrefill 9 ?u ?ps config0 env0 (pd0 (Reply reply0)) 0 world1 = Some (y, evs, w1)"
    using pd_loop_ends [where ?tries0.0 = "pd0 (Reply reply0)", OF t(1), of 3 0 9 ?u ?ps config0 env0 "0 + RetryTimeLimit config0" "[]" world1]
    by (auto simp: runPDPrefill_def pd0_def)
  have "\<exists>x evs w'. pdServe 9 ?u ?ps config0 env0 env0 length (pd0 (Reply reply0)) 0 its1 0 world1 = Some (x, evs, w')"
  proof (cases y)
    case (PDParams params)
    obtain x r w2 where "serveWithCapacityRetry 9 config0 (case params of None \<Rightarrow> env0 | Some z \<Rightarrow> env0\<lparr>bodylen := length z\<rparr>) its1 0 w1 = Some (x, r, w2)"
      using capacity_ends [where its = its1 and n = 3 and fuel = 9 and now = 0 and rc = config0, OF t(2)] by (fastforce simp: its1_def)
    then show ?thesis by (simp add: pdServe_def p PDParams)
  qed (simp add: pdServe_def p)
  then obtain x evs w' where r: "pdServe 9 ?u ?ps config0 env0 env0 length (pd0 (Reply reply0)) 0 its1 0 world1 = Some (x, evs, w')" by blast
  have "\<exists>t dialect bs split snap. (\<forall>b. URL (bs b) = ?u b) \<and> i_cands (its1 k) = candidates t dialect bs split (Some ?ps) snap" for k
    by (rule exI [of _ 0], rule exI [of _ "''openai''"], rule exI [of _ "\<lambda>b. up (ex_fleet b)"], rule exI [of _ None], rule exI [of _ "[0, 1]"])
      (simp add: its1_def up_def)
  note I = this
  obtain pre dec where pd: "trace w' = trace world1 @ pre @ dec" "\<forall>b\<in>set (dispatched pre). IsPrefill ?ps (?u b)"
    "\<forall>b\<in>set (dispatched dec). \<not> IsPrefill ?ps (?u b)" using pd_legs_separate [OF r t(1) t(2) I] by blast
  have "trace w' = pre @ dec \<and> set (dispatched pre) \<subseteq> {b. IsPrefill ?ps (?u b)} \<and> set (dispatched dec) \<inter> {b. IsPrefill ?ps (?u b)} = {}"
    using pd by (simp add: world1_trace) blast
  then show ?thesis using r by blast
qed

theorem truncated_leg_aborts_witness:
  "\<exists>w'. pdServe 9 (\<lambda>b. URL (ex_fleet b)) (PD_New [''a/'']) config0 env0 env0 length (pd0 broken) 0 its0 0 world1 = Some (Panics AbortHandler, [], w')"
proof -
  have "cut_short (turn0 broken) (pd_filter (\<lambda>b. URL (ex_fleet b)) (PD_New [''a/'']) True [0, 1]) 1 world1" by code_simp
  then show ?thesis using truncated_leg_aborts [of "pd0 broken" "\<lambda>b. URL (ex_fleet b)" "PD_New [''a/'']" 1 world1 env0 config0 9]
    by (simp add: pd0_def env0_def config0_def)
qed

end
