(* ===== verification/PrefixStore.thy ===== *)
theory PrefixStore
  imports KvLabels
begin

text \<open>
  \<^verbatim>\<open>benchmark/replay_prefix_store.go\<close>: the store the offline cache simulations read. A request of a conversation
  carries the whole history, so a request is stored as the leading units it shares with its predecessor and its
  own tail; every 32nd of a chain is stored whole. What a request's prefix is comes from
  \<^verbatim>\<open>BuildReplayRequestPrefix\<close> of \<^verbatim>\<open>benchmark/replay_router.go\<close>. Parsing a time stamp (\<open>rfc\<close>) and SHA-256
  (\<open>sha\<close>) are parameters; model names are interned to save memory only, which is left out.
\<close>

section \<open>Definitions\<close>

text \<open>The fields of a replay request that are read; a system block, the tools and a message have a label and a token
  count, a system block also its size.\<close>

record label_block =
  bHash :: "byte list"
  bTokens :: int
  bBytes :: int

record replay_request =
  q_ts :: string
  q_model :: string
  q_input :: int
  q_cached :: int
  q_output :: int
  SystemBlocks :: "label_block list"
  Tools :: "label_block option"
  Messages :: "label_block list"

definition prefix_blocks :: "replay_request \<Rightarrow> label_block list" where
  "prefix_blocks q =
     (case SystemBlocks q of [] \<Rightarrow> [] | b # bs \<Rightarrow> (if bBytes b < 200 then bs else b # bs)) @
     (case Tools q of Some t \<Rightarrow> (if bHash t \<noteq> [] then [t] else []) | None \<Rightarrow> []) @ Messages q"

definition BuildReplayRequestPrefix :: "replay_request \<Rightarrow> byte list list \<times> int list" where
  "BuildReplayRequestPrefix q = (map bHash (prefix_blocks q), map bTokens (prefix_blocks q))"

definition parseReplayTs :: "(string \<Rightarrow> ns option) \<Rightarrow> string \<Rightarrow> ns" where
  "parseReplayTs rfc ts = (case rfc ts of None \<Rightarrow> 0 | Some t \<Rightarrow> t)"

text \<open>A parent of -1 is \<open>None\<close>.\<close>

record prefix_request =
  Ts :: ns
  pModel :: string
  Session :: nat
  InputTokens :: int
  CacheReadTokens :: int
  OutputTokens :: int
  AnyTokens :: bool
  pparent :: "nat option"
  pshared :: nat
  plength :: nat
  pdepth :: nat
  ptail :: "kvunit list"

record prefix_store =
  Reqs :: "prefix_request list"
  Sessions :: nat

definition prefixCheckpointEvery :: nat where
  "prefixCheckpointEvery = 32"

definition units_of :: "(byte list \<Rightarrow> u64) \<Rightarrow> replay_request \<Rightarrow> kvunit list" where
  "units_of sha q = (case BuildReplayRequestPrefix q of (hs, ts) \<Rightarrow> UnitsFromLabels sha hs ts)"

text \<open>One request of \<^verbatim>\<open>AddChain\<close>: the batch so far, the units, index and depth of the previous request.\<close>

definition chain_step :: "(byte list \<Rightarrow> u64) \<Rightarrow> (string \<Rightarrow> ns option) \<Rightarrow> replay_request \<Rightarrow>
    prefix_request list \<times> kvunit list \<times> nat option \<times> nat \<Rightarrow> prefix_request list \<times> kvunit list \<times> nat option \<times> nat" where
  "chain_step sha rfc q s =
     (case s of (reqs, prev, prevIdx, prevDepth) \<Rightarrow>
       (let us = units_of sha q;
            p = (if prevIdx \<noteq> None \<and> prevDepth + 1 < prefixCheckpointEvery then match_len prev us else 0);
            d = (if p > 0 then prevDepth + 1 else 0);
            r = \<lparr>Ts = parseReplayTs rfc (q_ts q), pModel = q_model q, Session = 0, InputTokens = q_input q, CacheReadTokens = q_cached q,
                 OutputTokens = q_output q, AnyTokens = list_ex (\<lambda>u. uTokens u > 0) us, pparent = (if p > 0 then prevIdx else None),
                 pshared = p, plength = length us, pdepth = d, ptail = drop p us\<rparr>
        in (reqs @ [r], us, Some (length reqs), d)))"

definition AddChain :: "(byte list \<Rightarrow> u64) \<Rightarrow> (string \<Rightarrow> ns option) \<Rightarrow> replay_request list \<Rightarrow> prefix_request list \<Rightarrow> prefix_request list" where
  "AddChain sha rfc qs b = fst (fold (chain_step sha rfc) qs (b, [], None, 0))"

definition Store_Append :: "prefix_request list \<Rightarrow> prefix_store \<Rightarrow> prefix_store" where
  "Store_Append b s =
     s\<lparr>Reqs := Reqs s @ map (\<lambda>r. r\<lparr>Session := Sessions s, pparent := map_option (\<lambda>i. i + length (Reqs s)) (pparent r)\<rparr>) b,
       Sessions := Sessions s + 1\<rparr>"

text \<open>\<^verbatim>\<open>copy(buf[i:], xs)\<close>.\<close>

definition copy_at :: "nat \<Rightarrow> 'a list \<Rightarrow> 'a list \<Rightarrow> 'a list" where
  "copy_at i xs buf = take i buf @ take (length buf - i) xs @ drop (i + length xs) buf"

text \<open>The walk over the predecessors; \<open>None\<close> is an index or slice out of range.\<close>

fun units_loop :: "nat \<Rightarrow> prefix_request list \<Rightarrow> prefix_request \<Rightarrow> nat \<Rightarrow> kvunit list \<Rightarrow> kvunit list option" where
  "units_loop 0 rs cur limit buf = (if limit = 0 then Some buf else None)"
| "units_loop (Suc fuel) rs cur limit buf =
     (if limit = 0 then Some buf
      else if limit - pshared cur > length (ptail cur) then None
      else
        (let buf1 = (if limit > pshared cur then copy_at (pshared cur) (take (limit - pshared cur) (ptail cur)) buf else buf);
             limit1 = (if limit > pshared cur then pshared cur else limit)
         in if limit1 = 0 then Some buf1
            else (case pparent cur of None \<Rightarrow> None
                  | Some j \<Rightarrow> (if j < length rs then units_loop fuel rs (rs ! j) limit1 buf1 else None))))"

text \<open>\<^verbatim>\<open>Units\<close>; \<open>buf\<close> is the array behind the caller's buffer, whatever it holds.\<close>

definition Units :: "nat \<Rightarrow> prefix_store \<Rightarrow> nat \<Rightarrow> kvunit list \<Rightarrow> kvunit list option" where
  "Units fuel s i buf =
     (if i < length (Reqs s)
      then (let r = Reqs s ! i;
                buf0 = (if length buf < plength r then replicate (plength r) \<lparr>uHash = 0, uTokens = 0\<rparr> else take (plength r) buf)
            in units_loop fuel (Reqs s) r (plength r) buf0)
      else None)"

definition ChronologicalOrder :: "prefix_store \<Rightarrow> nat list" where
  "ChronologicalOrder s = sort_key (\<lambda>i. Ts (Reqs s ! i)) [0..<length (Reqs s)]"

section \<open>What is stored\<close>

text \<open>\<open>holds r rs uss i\<close>: request \<open>i\<close> of \<open>rs\<close> stands for the units \<open>uss ! i\<close>.\<close>

definition holds :: "prefix_request list \<Rightarrow> kvunit list list \<Rightarrow> nat \<Rightarrow> bool" where
  "holds rs uss i \<longleftrightarrow>
     (let r = rs ! i in
      plength r = length (uss ! i) \<and> pshared r \<le> length (uss ! i) \<and> ptail r = drop (pshared r) (uss ! i) \<and>
      pdepth r < prefixCheckpointEvery \<and>
      (case pparent r of None \<Rightarrow> pshared r = 0
       | Some j \<Rightarrow> j < i \<and> pdepth r = pdepth (rs ! j) + 1 \<and> pshared r \<le> length (uss ! j) \<and>
           take (pshared r) (uss ! i) = take (pshared r) (uss ! j)))"

definition stored :: "prefix_request list \<Rightarrow> kvunit list list \<Rightarrow> bool" where
  "stored rs uss \<longleftrightarrow> length rs = length uss \<and> (\<forall>i<length rs. holds rs uss i)"

lemma copy_at_fits: "i + length xs \<le> length buf \<Longrightarrow> copy_at i xs buf = take i buf @ xs @ drop (i + length xs) buf"
  by (simp add: copy_at_def)

lemma units_loop_stored:
  assumes "stored rs uss"
  shows "i < length rs \<Longrightarrow> limit \<le> length (uss ! i) \<Longrightarrow> limit \<le> length buf \<Longrightarrow> pdepth (rs ! i) < fuel \<Longrightarrow>
    units_loop fuel rs (rs ! i) limit buf = Some (take limit (uss ! i) @ drop limit buf)"
proof (induction fuel arbitrary: i limit buf)
  case (Suc fuel)
  let ?r = "rs ! i" and ?us = "uss ! i"
  have h: "plength ?r = length ?us" "pshared ?r \<le> length ?us" "ptail ?r = drop (pshared ?r) ?us"
    "case pparent ?r of None \<Rightarrow> pshared ?r = 0 | Some j \<Rightarrow> j < i \<and> pdepth ?r = pdepth (rs ! j) + 1 \<and> pshared ?r \<le> length (uss ! j) \<and>
       take (pshared ?r) ?us = take (pshared ?r) (uss ! j)"
    using assms Suc.prems(1) by (auto simp: stored_def holds_def Let_def)
  define limit1 where "limit1 = (if limit > pshared ?r then pshared ?r else limit)"
  define buf1 where "buf1 = (if limit > pshared ?r then copy_at (pshared ?r) (take (limit - pshared ?r) (ptail ?r)) buf else buf)"
  have fits: "\<not> limit - pshared ?r > length (ptail ?r)" using h(3) Suc.prems(2) by auto
  have l1: "limit1 \<le> pshared ?r" "limit1 \<le> limit" by (auto simp: limit1_def)
  have b1: "take limit1 ?us @ drop limit1 buf1 = take limit ?us @ drop limit buf" and len: "limit1 \<le> length buf1"
  proof -
    show "take limit1 ?us @ drop limit1 buf1 = take limit ?us @ drop limit buf"
    proof (cases "limit > pshared ?r")
      case True
      let ?s = "pshared ?r"
      have t: "take (limit - ?s) (ptail ?r) = drop ?s (take limit ?us)" by (simp add: h(3) drop_take)
      have n: "length (drop ?s (take limit ?us)) = limit - ?s" using Suc.prems(2) by simp
      have "buf1 = take ?s buf @ drop ?s (take limit ?us) @ drop limit buf"
        using True n Suc.prems(3) by (simp add: buf1_def t copy_at_fits)
      moreover have "length (take ?s buf) = ?s" using True Suc.prems(3) by simp
      ultimately have d: "drop ?s buf1 = drop ?s (take limit ?us) @ drop limit buf" by simp
      have "take ?s ?us @ drop ?s (take limit ?us) = take limit ?us"
        using append_take_drop_id [of ?s "take limit ?us"] True by (simp add: min_def del: append_take_drop_id)
      then have "take ?s ?us @ drop ?s buf1 = take limit ?us @ drop limit buf" unfolding d by (simp only: append_assoc [symmetric])
      then show ?thesis using True by (simp add: limit1_def)
    qed (simp add: limit1_def buf1_def)
    show "limit1 \<le> length buf1" using Suc.prems(2,3) by (auto simp: limit1_def buf1_def copy_at_def h(3))
  qed
  have step: "units_loop (Suc fuel) rs ?r limit buf =
      (if limit = 0 then Some buf else if limit1 = 0 then Some buf1
       else case pparent ?r of None \<Rightarrow> None | Some j \<Rightarrow> if j < length rs then units_loop fuel rs (rs ! j) limit1 buf1 else None)"
    using fits unfolding limit1_def buf1_def by (simp add: Let_def)
  show ?case
  proof (cases "limit = 0 \<or> limit1 = 0")
    case True
    then show ?thesis using b1 unfolding step by (cases "limit = 0") simp_all
  next
    case False
    then obtain j where j: "pparent ?r = Some j" "j < i" "pdepth ?r = pdepth (rs ! j) + 1" "pshared ?r \<le> length (uss ! j)"
      "take (pshared ?r) ?us = take (pshared ?r) (uss ! j)" using h(4) l1 by (cases "pparent ?r") auto
    have eq: "take limit1 (uss ! j) = take limit1 ?us" using j(5) l1(1) by (metis min.absorb1 take_take)
    have "units_loop fuel rs (rs ! j) limit1 buf1 = Some (take limit1 (uss ! j) @ drop limit1 buf1)"
      using Suc.IH [of j limit1 buf1] j Suc.prems(1,4) l1(1) len by simp
    then show ?thesis using False j(1,2) Suc.prems(1) b1 unfolding step eq by simp
  qed
qed simp

lemma Units_stored:
  assumes "stored (Reqs s) uss" and "i < length uss" and "prefixCheckpointEvery \<le> fuel"
  shows "Units fuel s i buf = Some (uss ! i)"
proof -
  have h: "i < length (Reqs s)" "plength (Reqs s ! i) = length (uss ! i)" "pdepth (Reqs s ! i) < fuel"
    using assms by (auto simp: stored_def holds_def Let_def)
  show ?thesis using units_loop_stored [OF assms(1) h(1) _ _ h(3), of "length (uss ! i)"] h(1,2)
    by (simp add: Units_def Let_def)
qed

section \<open>Building the store\<close>

lemma holds_append: "i < length rs \<Longrightarrow> length rs = length uss \<Longrightarrow> stored rs uss \<Longrightarrow> holds (rs @ xs) (uss @ yss) i"
  by (auto simp: stored_def holds_def Let_def nth_append split: option.splits)

text \<open>Between two requests of a chain: the previous one is in the batch, at the index and depth remembered.\<close>

definition chain_ok :: "prefix_request list \<times> kvunit list \<times> nat option \<times> nat \<Rightarrow> kvunit list list \<Rightarrow> bool" where
  "chain_ok s uss \<longleftrightarrow>
     (case s of (rs, prev, prevIdx, prevDepth) \<Rightarrow> stored rs uss \<and>
       (case prevIdx of None \<Rightarrow> True | Some j \<Rightarrow> j < length rs \<and> uss ! j = prev \<and> pdepth (rs ! j) = prevDepth))"

lemma chain_step_ok:
  assumes "chain_ok s uss"
  shows "chain_ok (chain_step sha rfc q s) (uss @ [units_of sha q]) \<and>
    map Ts (fst (chain_step sha rfc q s)) = map Ts (fst s) @ [parseReplayTs rfc (q_ts q)]"
proof -
  obtain rs prev idx dep where s: "s = (rs, prev, idx, dep)" by (metis prod_cases4)
  let ?us = "units_of sha q"
  define p where "p = (if idx \<noteq> None \<and> dep + 1 < prefixCheckpointEvery then match_len prev ?us else 0)"
  define d where "d = (if p > 0 then dep + 1 else 0)"
  obtain r where r: "chain_step sha rfc q s = (rs @ [r], ?us, Some (length rs), d)" "Ts r = parseReplayTs rfc (q_ts q)"
    "pparent r = (if p > 0 then idx else None)" "pshared r = p" "plength r = length ?us" "pdepth r = d" "ptail r = drop p ?us"
    unfolding chain_step_def s prod.case Let_def p_def [symmetric] d_def [symmetric] by fastforce
  have st: "stored rs uss" "length rs = length uss" using assms by (auto simp: chain_ok_def s stored_def)
  have "holds (rs @ [r]) (uss @ [?us]) (length rs)"
  proof (cases "p > 0")
    case True
    then obtain j where j: "idx = Some j" "dep + 1 < prefixCheckpointEvery" "p = match_len prev ?us"
      by (auto simp: p_def split: if_splits)
    then have m: "j < length rs" "uss ! j = prev" "pdepth (rs ! j) = dep" using assms by (auto simp: chain_ok_def s)
    show ?thesis using True j m st(2) match_len_le1 [of prev ?us] match_len_le2 [of prev ?us] match_len_take [of prev ?us]
      by (simp add: holds_def Let_def nth_append r(3-7) d_def)
  next
    case False
    then show ?thesis using st(2) by (simp add: holds_def Let_def nth_append r(3-7) d_def prefixCheckpointEvery_def)
  qed
  then have "stored (rs @ [r]) (uss @ [?us])"
    using holds_append [OF _ st(2) st(1)] st(2) by (auto simp: stored_def less_Suc_eq)
  then show ?thesis using st(2) by (simp add: chain_ok_def r(1) [unfolded s] r(2) r(6) s nth_append)
qed

lemma chain_fold_ok:
  "chain_ok s uss \<Longrightarrow> chain_ok (fold (chain_step sha rfc) qs s) (uss @ map (units_of sha) qs) \<and>
     map Ts (fst (fold (chain_step sha rfc) qs s)) = map Ts (fst s) @ map (\<lambda>q. parseReplayTs rfc (q_ts q)) qs"
proof (induction qs arbitrary: s uss)
  case (Cons q qs)
  then show ?case using chain_step_ok [OF Cons.prems, of sha rfc q] Cons.IH [of "chain_step sha rfc q s" "uss @ [units_of sha q]"] by simp
qed simp

lemma AddChain_ok:
  assumes "stored b uss"
  shows "stored (AddChain sha rfc qs b) (uss @ map (units_of sha) qs) \<and>
    map Ts (AddChain sha rfc qs b) = map Ts b @ map (\<lambda>q. parseReplayTs rfc (q_ts q)) qs"
proof -
  have "chain_ok (b, [], None, 0) uss" using assms by (simp add: chain_ok_def)
  from chain_fold_ok [OF this, of sha rfc qs] show ?thesis
    unfolding AddChain_def chain_ok_def by (auto split: prod.splits)
qed

lemma chains_ok:
  "stored b uss \<Longrightarrow> stored (fold (AddChain sha rfc) threads b) (uss @ map (units_of sha) (concat threads)) \<and>
     map Ts (fold (AddChain sha rfc) threads b) = map Ts b @ map (\<lambda>q. parseReplayTs rfc (q_ts q)) (concat threads)"
proof (induction threads arbitrary: b uss)
  case (Cons qs threads)
  then show ?case using AddChain_ok [OF Cons.prems, of sha rfc qs] Cons.IH [of "AddChain sha rfc qs b" "uss @ map (units_of sha) qs"] by simp
qed simp

lemma Append_ok:
  assumes "stored (Reqs s) uss" and "stored b vss"
  shows "stored (Reqs (Store_Append b s)) (uss @ vss) \<and> map Ts (Reqs (Store_Append b s)) = map Ts (Reqs s) @ map Ts b"
proof -
  let ?n = "length (Reqs s)"
  let ?f = "\<lambda>r. r\<lparr>Session := Sessions s, pparent := map_option (\<lambda>i. i + ?n) (pparent r)\<rparr>"
  have n: "length uss = ?n" "length vss = length b" using assms by (simp_all add: stored_def)
  have "holds (Reqs s @ map ?f b) (uss @ vss) i" if "i < ?n + length b" for i
  proof (cases "i < ?n")
    case True
    then show ?thesis using holds_append [OF True _ assms(1)] n by simp
  next
    case False
    then have "i - ?n < length b" using that by simp
    then have "holds b vss (i - ?n)" using assms(2) by (simp add: stored_def)
    then show ?thesis using False that n by (auto simp: holds_def Let_def nth_append split: option.splits)
  qed
  then show ?thesis using n by (simp add: stored_def Store_Append_def comp_def)
qed

definition build_store :: "(byte list \<Rightarrow> u64) \<Rightarrow> (string \<Rightarrow> ns option) \<Rightarrow> replay_request list list list \<Rightarrow> prefix_store" where
  "build_store sha rfc batches = fold (\<lambda>threads. Store_Append (fold (AddChain sha rfc) threads [])) batches \<lparr>Reqs = [], Sessions = 0\<rparr>"

lemma appends_ok:
  "stored (Reqs s) uss \<Longrightarrow>
   stored (Reqs (fold (\<lambda>threads. Store_Append (fold (AddChain sha rfc) threads [])) batches s)) (uss @ map (units_of sha) (concat (concat batches))) \<and>
   map Ts (Reqs (fold (\<lambda>threads. Store_Append (fold (AddChain sha rfc) threads [])) batches s)) =
     map Ts (Reqs s) @ map (\<lambda>q. parseReplayTs rfc (q_ts q)) (concat (concat batches))"
proof (induction batches arbitrary: s uss)
  case (Cons threads batches)
  have b: "stored (fold (AddChain sha rfc) threads []) (map (units_of sha) (concat threads))"
    "map Ts (fold (AddChain sha rfc) threads []) = map (\<lambda>q. parseReplayTs rfc (q_ts q)) (concat threads)"
    using chains_ok [of "[]" "[]" sha rfc threads] by (simp_all add: stored_def)
  show ?case using Cons.IH [of "Store_Append (fold (AddChain sha rfc) threads []) s" "uss @ map (units_of sha) (concat threads)"]
      Append_ok [OF Cons.prems b(1)] b(2) by simp
qed simp

lemma build_store_ok:
  "stored (Reqs (build_store sha rfc batches)) (map (units_of sha) (concat (concat batches)))"
  "map Ts (Reqs (build_store sha rfc batches)) = map (\<lambda>q. parseReplayTs rfc (q_ts q)) (concat (concat batches))"
  using appends_ok [of "\<lparr>Reqs = [], Sessions = 0\<rparr>" "[]" sha rfc batches] by (simp_all add: build_store_def stored_def)

lemma built_units:
  assumes "i < length (concat (concat batches))"
  shows "Units prefixCheckpointEvery (build_store sha rfc batches) i buf = Some (units_of sha (concat (concat batches) ! i)) \<and>
    Ts (Reqs (build_store sha rfc batches) ! i) = parseReplayTs rfc (q_ts (concat (concat batches) ! i))"
proof -
  note B = build_store_ok [of sha rfc batches]
  have "length (Reqs (build_store sha rfc batches)) = length (concat (concat batches))" using B(1) by (simp add: stored_def)
  moreover have "map Ts (Reqs (build_store sha rfc batches)) ! i = map (\<lambda>q. parseReplayTs rfc (q_ts q)) (concat (concat batches)) ! i"
    by (simp only: B(2))
  ultimately show ?thesis using Units_stored [OF B(1), of i prefixCheckpointEvery buf] assms by simp
qed

text \<open>C17. The store gives back what was put in: however the requests are cut into batches and chains, the units of every
  request are rebuilt whole and in place, into any buffer, in at most 32 hops, and its time is kept.\<close>

theorem prefix_store_roundtrip:
  assumes "i < length (concat (concat batches))"
  shows "Units prefixCheckpointEvery (build_store sha rfc batches) i buf = Some (units_of sha (concat (concat batches) ! i)) \<and>
    Ts (Reqs (build_store sha rfc batches) ! i) = parseReplayTs rfc (q_ts (concat (concat batches) ! i))"
  using built_units [OF assms] .

text \<open>A conversation of two turns and another session's request.\<close>

definition turn_request :: "byte list list \<Rightarrow> replay_request" where
  "turn_request ls = \<lparr>q_ts = ''t'', q_model = ''m'', q_input = 9, q_cached = 4, q_output = 1, SystemBlocks = [], Tools = None,
     Messages = map (\<lambda>l. \<lparr>bHash = l, bTokens = 8, bBytes = 32\<rparr>) ls\<rparr>"

theorem prefix_store_roundtrip_witness:
  "Units 32 (build_store (\<lambda>bs. of_nat (length bs)) (\<lambda>_. Some 7) [[[turn_request [[1]], turn_request [[1], [2, 3]]]], [[turn_request [[4]]]]]) 1 [] =
    Some (units_of (\<lambda>bs. of_nat (length bs)) (turn_request [[1], [2, 3]]))"
  using prefix_store_roundtrip [of 1 "[[[turn_request [[1]], turn_request [[1], [2, 3]]]], [[turn_request [[4]]]]]" "\<lambda>bs. of_nat (length bs)" "\<lambda>_. Some 7" "[]"]
  by (simp add: prefixCheckpointEvery_def)

end
