(* ===== verification/Retention.thy ===== *)
theory Retention
  imports PrefixStore KvProps
begin

text \<open>
  The offline cache simulations: \<^verbatim>\<open>benchmark/retention_sim.go\<close>, which scores several times to live in one pass, and
  \<^verbatim>\<open>SimulateReplayCacheStore\<close> of \<^verbatim>\<open>benchmark/replay_prefix_store.go\<close>, which replays into the trie of \<open>KvTrie\<close>. The
  reference is one cache per time to live that drops what has been idle too long before each request. Reading and
  printing of windows is left out.
\<close>

section \<open>Definitions\<close>

record retention_report =
  Windows :: "ns list"
  Cached :: "int list"
  CachedInfinite :: int
  Total :: int

definition Ratio_of :: "nat \<Rightarrow> retention_report \<Rightarrow> rat" where
  "Ratio_of i r = (if Total r = 0 then 0 else fdiv (f64 (Cached r ! i)) (f64 (Total r)))"

definition InfiniteRatio :: "retention_report \<Rightarrow> rat" where
  "InfiniteRatio r = (if Total r = 0 then 0 else fdiv (f64 (CachedInfinite r)) (f64 (Total r)))"

text \<open>\<^verbatim>\<open>Add\<close>; no windows yet is \<open>[]\<close>.\<close>

definition Report_Add :: "retention_report \<Rightarrow> retention_report \<Rightarrow> retention_report" where
  "Report_Add o' r =
     (let r1 = (if Windows r = [] then r\<lparr>Windows := Windows o', Cached := replicate (length (Windows o')) 0\<rparr> else r) in
      r1\<lparr>Cached := map2 (+) (Cached r1) (Cached o'), CachedInfinite := CachedInfinite r1 + CachedInfinite o', Total := Total r1 + Total o'\<rparr>)"

record retention_sim =
  windows :: "ns list"
  byBucket :: "int list"
  rtotal :: int
  edges :: "nat \<times> u64 \<Rightarrow> nat option"
  last_use :: "ns list"
  prevTs :: ns

definition newRetentionSim :: "ns list \<Rightarrow> retention_sim" where
  "newRetentionSim ws = \<lparr>windows = ws, byBucket = replicate (length ws + 1) 0, rtotal = 0, edges = Map.empty, last_use = [0], prevTs = 0\<rparr>"

text \<open>The inner loop: the first window from \<open>k\<close> on that is as long as the gap.\<close>

function advance :: "ns list \<Rightarrow> ns \<Rightarrow> nat \<Rightarrow> nat" where
  "advance ws gap k = (if k < length ws \<and> ws ! k < gap then advance ws gap (Suc k) else k)"
  by auto
termination by (relation "measure (\<lambda>(ws, gap, k). length ws - k)") auto

declare advance.simps [simp del]

fun observe_loop :: "ns \<Rightarrow> kvunit list \<Rightarrow> nat \<Rightarrow> ns \<Rightarrow> nat \<Rightarrow> bool \<Rightarrow> retention_sim \<Rightarrow> retention_sim" where
  "observe_loop ts [] parent maxGap bucket matching r = r"
| "observe_loop ts (u # us) parent maxGap bucket matching r =
     (let r1 = r\<lparr>rtotal := rtotal r + uTokens u\<rparr> in
      case (if matching then edges r (parent, uHash u) else None) of
        Some i \<Rightarrow>
          (let gap = ts - last_use r ! i;
               maxGap1 = (if gap > maxGap then gap else maxGap);
               bucket1 = (if gap > maxGap then advance (windows r) gap bucket else bucket)
           in observe_loop ts us i maxGap1 bucket1 True
                (r1\<lparr>byBucket := (byBucket r)[bucket1 := byBucket r ! bucket1 + uTokens u], last_use := (last_use r)[i := ts]\<rparr>))
      | None \<Rightarrow>
          (let i = length (last_use r)
           in observe_loop ts us i maxGap bucket False (r1\<lparr>last_use := last_use r @ [ts], edges := (edges r)((parent, uHash u) \<mapsto> i)\<rparr>)))"

definition observe :: "ns \<times> kvunit list \<Rightarrow> retention_sim \<Rightarrow> retention_sim" where
  "observe q r =
     (case q of (ts0, us) \<Rightarrow> (let ts = (if ts0 < prevTs r then prevTs r else ts0) in observe_loop ts us 0 0 0 True (r\<lparr>prevTs := ts\<rparr>)))"

fun report_loop :: "int list \<Rightarrow> int \<Rightarrow> int list \<times> int" where
  "report_loop [] run0 = ([], run0)"
| "report_loop (b # bs) run0 = (case report_loop bs (run0 + b) of (cs, z) \<Rightarrow> ((run0 + b) # cs, z))"

definition report :: "retention_sim \<Rightarrow> retention_report" where
  "report r =
     (case report_loop (take (length (windows r)) (byBucket r)) 0 of
        (cs, z) \<Rightarrow> \<lparr>Windows = windows r, Cached = cs, CachedInfinite = z + byBucket r ! length (windows r), Total = rtotal r\<rparr>)"

text \<open>The requests of a store in a given order; the buffer is handed from one to the next.\<close>

fun store_units :: "prefix_store \<Rightarrow> nat list \<Rightarrow> kvunit list \<Rightarrow> (ns \<times> kvunit list) list option" where
  "store_units s [] buf = Some []"
| "store_units s (i # is) buf =
     (case Units prefixCheckpointEvery s i buf of None \<Rightarrow> None
      | Some us \<Rightarrow> map_option (\<lambda>rest. (Ts (Reqs s ! i), us) # rest) (store_units s is us))"

definition SimulateRetentionStore :: "prefix_store \<Rightarrow> nat list \<Rightarrow> ns list \<Rightarrow> retention_report option" where
  "SimulateRetentionStore s is ws = map_option (\<lambda>reqs. report (fold observe reqs (newRetentionSim ws))) (store_units s is [])"

text \<open>One request of \<^verbatim>\<open>SimulateReplayCacheStore\<close>: the trie and the sums of cached and of all tokens.\<close>

definition replay_step :: "kvunit list \<Rightarrow> trie \<times> int \<times> int \<Rightarrow> trie \<times> int \<times> int" where
  "replay_step us x =
     (case x of (t, c, n) \<Rightarrow>
        if us = [] then x
        else (case RecordAndCount us t of ((cached, tot0), t1) \<Rightarrow> (Trie_Observe cached tot0 t1, c + cached, n + tot0)))"

record replay_report =
  Requests :: nat
  SimCachedTokens :: int
  SimTotalTokens :: int
  SimRatio :: rat
  GTCachedTokens :: int
  GTTotalTokens :: int
  GTRatio :: rat
  BlockTokensAllZero :: bool

definition ratio_of :: "int \<Rightarrow> int \<Rightarrow> rat" where
  "ratio_of c n = (if n > 0 then fdiv (f64 c) (f64 n) else 0)"

definition SimulateReplayCacheStore :: "prefix_store \<Rightarrow> nat list \<Rightarrow> replay_report option" where
  "SimulateReplayCacheStore s is =
     map_option (\<lambda>reqs.
       case fold (\<lambda>q. replay_step (snd q)) reqs (Trie_New \<lparr>MaxNodes = 0, MaxTokens = 0, EvictBudget = 0\<rparr>, 0, 0) of (t, c, n) \<Rightarrow>
         (let gtc = (\<Sum>i\<leftarrow>is. CacheReadTokens (Reqs s ! i)); gtt = (\<Sum>i\<leftarrow>is. InputTokens (Reqs s ! i));
              held = filter (\<lambda>i. plength (Reqs s ! i) > 0) is
          in \<lparr>Requests = length is, SimCachedTokens = c, SimTotalTokens = n, SimRatio = ratio_of c n, GTCachedTokens = gtc, GTTotalTokens = gtt,
              GTRatio = ratio_of gtc gtt, BlockTokensAllZero = (held \<noteq> [] \<and> \<not> list_ex (\<lambda>i. AnyTokens (Reqs s ! i)) held)\<rparr>))
       (store_units s is [])"

section \<open>The reference\<close>

text \<open>A cache of paths with the time of their last use. \<open>fits\<close> says which idle times it keeps.\<close>

type_synonym ttl_cache = "u64 list \<Rightarrow> ns option"

definition expire :: "(ns \<Rightarrow> bool) \<Rightarrow> ns \<Rightarrow> ttl_cache \<Rightarrow> ttl_cache" where
  "expire fits now C = (\<lambda>p. case C p of None \<Rightarrow> None | Some t \<Rightarrow> (if fits (now - t) then Some t else None))"

fun hit :: "ttl_cache \<Rightarrow> u64 list \<Rightarrow> kvunit list \<Rightarrow> int" where
  "hit C p [] = 0"
| "hit C p (u # us) = (if C (p @ [uHash u]) = None then 0 else uTokens u + hit C (p @ [uHash u]) us)"

fun touch :: "ns \<Rightarrow> u64 list \<Rightarrow> kvunit list \<Rightarrow> ttl_cache \<Rightarrow> ttl_cache" where
  "touch now p [] C = C"
| "touch now p (u # us) C = touch now (p @ [uHash u]) us (C(p @ [uHash u] \<mapsto> now))"

definition ttl_step :: "(ns \<Rightarrow> bool) \<Rightarrow> ns \<times> kvunit list \<Rightarrow> ns \<times> ttl_cache \<times> int \<Rightarrow> ns \<times> ttl_cache \<times> int" where
  "ttl_step fits q x =
     (case q of (ts, us) \<Rightarrow> case x of (clock, C, n) \<Rightarrow>
        (let now = max ts clock; C1 = expire fits now C in (now, touch now [] us C1, n + hit C1 [] us)))"

definition ttl_hits :: "(ns \<Rightarrow> bool) \<Rightarrow> (ns \<times> kvunit list) list \<Rightarrow> int" where
  "ttl_hits fits reqs = snd (snd (fold (ttl_step fits) reqs (0, Map.empty, 0)))"

section \<open>Buckets\<close>

text \<open>What the windows up to \<open>k\<close> keep; one past the last is the cache that never forgets.\<close>

definition fits_window :: "ns list \<Rightarrow> nat \<Rightarrow> ns \<Rightarrow> bool" where
  "fits_window ws k gap \<longleftrightarrow> (k < length ws \<longrightarrow> gap \<le> ws ! k)"

lemma fits_antimono: "fits_window ws k g \<Longrightarrow> g' \<le> g \<Longrightarrow> fits_window ws k g'"
  by (auto simp: fits_window_def)

definition bucket_ok :: "ns list \<Rightarrow> ns \<Rightarrow> nat \<Rightarrow> bool" where
  "bucket_ok ws gap b \<longleftrightarrow> b \<le> length ws \<and> (\<forall>k\<le>length ws. (b \<le> k) = fits_window ws k gap)"

lemma advance_spec:
  "k \<le> length ws \<Longrightarrow> k \<le> advance ws gap k \<and> advance ws gap k \<le> length ws \<and>
     (\<forall>j. k \<le> j \<and> j < advance ws gap k \<longrightarrow> ws ! j < gap) \<and> (advance ws gap k < length ws \<longrightarrow> gap \<le> ws ! advance ws gap k)"
proof (induction ws gap k rule: advance.induct)
  case (1 ws gap k)
  show ?case
  proof (cases "k < length ws \<and> ws ! k < gap")
    case True
    then have "ws ! j < gap" if "k \<le> j" "j < advance ws gap (Suc k)" for j using 1(1) that by (cases "j = k") auto
    then show ?thesis using True 1(1) by (subst (1 2 3 4 5) advance.simps) auto
  next
    case False
    then show ?thesis using 1(2) by (subst (1 2 3 4 5) advance.simps) auto
  qed
qed

lemma advance_ok:
  assumes "sorted ws" and "bucket_ok ws gap0 b" and "gap0 \<le> gap"
  shows "bucket_ok ws gap (advance ws gap b)"
proof -
  let ?a = "advance ws gap b"
  have A: "b \<le> ?a" "?a \<le> length ws" "\<And>j. b \<le> j \<Longrightarrow> j < ?a \<Longrightarrow> ws ! j < gap" "?a < length ws \<Longrightarrow> gap \<le> ws ! ?a"
    using advance_spec [of b ws gap] assms(2) by (auto simp: bucket_ok_def)
  have "(?a \<le> k) = fits_window ws k gap" if k: "k \<le> length ws" for k
  proof (cases "?a \<le> k")
    case True
    then have "k < length ws \<Longrightarrow> ws ! ?a \<le> ws ! k" using sorted_nth_mono [OF assms(1), of ?a k] by simp
    then show ?thesis using True A(4) by (fastforce simp: fits_window_def)
  next
    case False
    have "\<not> fits_window ws k gap"
    proof (cases "b \<le> k")
      case True
      then show ?thesis using A(2) A(3) [of k] False by (simp add: fits_window_def)
    next
      case False
      then have "\<not> fits_window ws k gap0" using assms(2) k unfolding bucket_ok_def by blast
      then show ?thesis using fits_antimono assms(3) by blast
    qed
    then show ?thesis using False by simp
  qed
  then show ?thesis using A(2) by (simp add: bucket_ok_def)
qed

lemma bucket_start: "\<forall>w\<in>set ws. 0 \<le> w \<Longrightarrow> bucket_ok ws 0 0"
  by (simp add: bucket_ok_def fits_window_def)

lemma sum_bump:
  fixes bb :: "int list"
  assumes "b < length bb"
  shows "sum_list (take (Suc k) (bb[b := bb ! b + n])) = sum_list (take (Suc k) bb) + (if b \<le> k then n else 0)"
proof (cases "b \<le> k")
  case True
  have "take (Suc k) (bb[b := bb ! b + n]) = (take (Suc k) bb)[b := bb ! b + n]" by (rule take_update_swap)
  then show ?thesis using True assms sum_list_update [of b "take (Suc k) bb" id "bb ! b + n"] by simp
next
  case False
  then show ?thesis by simp
qed

lemma report_loop_eq:
  "report_loop bs n = (map (\<lambda>k. n + sum_list (take (Suc k) bs)) [0..<length bs], n + sum_list bs)"
proof (induction bs arbitrary: n)
  case (Cons b bs)
  have "[0..<length (b # bs)] = 0 # map Suc [0..<length bs]" by (simp add: map_Suc_upt upt_conv_Cons del: upt_Suc)
  then show ?case by (simp add: Cons comp_def add.assoc del: upt_Suc)
qed simp

section \<open>The tree\<close>

fun walk_edges :: "(nat \<times> u64 \<Rightarrow> nat option) \<Rightarrow> nat \<Rightarrow> u64 list \<Rightarrow> nat option" where
  "walk_edges E j [] = Some j"
| "walk_edges E j (h # hs) = (case E (j, h) of None \<Rightarrow> None | Some i \<Rightarrow> walk_edges E i hs)"

lemma walk_snoc: "walk_edges E j (hs @ [h]) = (case walk_edges E j hs of None \<Rightarrow> None | Some i \<Rightarrow> E (i, h))"
  by (induction hs arbitrary: j) (auto split: option.splits)

definition lookup :: "retention_sim \<Rightarrow> ttl_cache" where
  "lookup r p = (if p = [] then None else map_option (\<lambda>i. last_use r ! i) (walk_edges (edges r) 0 p))"

text \<open>Node 0 is the root, every other node has one edge into it, and only allocated nodes have edges.\<close>

definition tree_ok :: "retention_sim \<Rightarrow> bool" where
  "tree_ok r \<longleftrightarrow> last_use r \<noteq> [] \<and>
     (\<forall>e i. edges r e = Some i \<longrightarrow> 0 < i \<and> i < length (last_use r) \<and> fst e < length (last_use r)) \<and>
     (\<forall>e e' i. edges r e = Some i \<and> edges r e' = Some i \<longrightarrow> e = e')"

lemma walk_bound: "tree_ok r \<Longrightarrow> walk_edges (edges r) 0 p = Some i \<Longrightarrow> i < length (last_use r) \<and> (0 < i \<or> p = [])"
  by (cases p rule: rev_cases) (auto simp: tree_ok_def walk_snoc split: option.splits)

lemma walk_inj:
  assumes "tree_ok r"
  shows "walk_edges (edges r) 0 p = Some i \<Longrightarrow> walk_edges (edges r) 0 q = Some i \<Longrightarrow> p = q"
proof (induction p arbitrary: i q rule: rev_induct)
  case Nil
  then show ?case using walk_bound [OF assms Nil(2)] by simp
next
  case (snoc h p)
  then have "q \<noteq> []" using walk_bound [OF assms snoc(2)] by auto
  then obtain q' g where q: "q = q' @ [g]" by (metis rev_exhaust)
  obtain j j' where "walk_edges (edges r) 0 p = Some j" "edges r (j, h) = Some i" "walk_edges (edges r) 0 q' = Some j'" "edges r (j', g) = Some i"
    using snoc(2,3) by (auto simp: q walk_snoc split: option.splits)
  moreover from this have "(j, h) = (j', g)" using assms unfolding tree_ok_def by blast
  ultimately show ?case using snoc(1) by (simp add: q)
qed

lemma walk_link:
  assumes "tree_ok r" and "walk_edges (edges r) 0 p = Some j" and "edges r (j, h) = None" and "i = length (last_use r)"
  shows "walk_edges ((edges r)((j, h) \<mapsto> i)) 0 q = (if q = p @ [h] then Some i else walk_edges (edges r) 0 q)"
proof (induction q rule: rev_induct)
  case Nil
  then show ?case by simp
next
  case (snoc g q)
  have out: "edges r (i, g) = None" using assms(1,4) by (fastforce simp: tree_ok_def)
  have ne: "i \<noteq> j" using walk_bound [OF assms(1,2)] assms(4) by simp
  show ?case
  proof (cases "q = p @ [h]")
    case True
    have "walk_edges (edges r) 0 (p @ [h] @ [g]) = None" using assms(2,3) walk_snoc [of "edges r" 0 "p @ [h]" g] by (simp add: walk_snoc [of _ _ p])
    moreover have "walk_edges ((edges r)((j, h) \<mapsto> i)) 0 (q @ [g]) = ((edges r)((j, h) \<mapsto> i)) (i, g)"
      using walk_snoc [of "(edges r)((j, h) \<mapsto> i)" 0 q g] snoc True by (metis option.case(2))
    ultimately show ?thesis using True out ne by (simp add: fun_upd_other del: fun_upd_apply)
  next
    case False
    have "walk_edges (edges r) 0 q = Some j \<longleftrightarrow> q = p" using walk_inj [OF assms(1)] assms(2) by blast
    then show ?thesis using False snoc assms(2,3) by (auto simp: walk_snoc split: option.splits)
  qed
qed

text \<open>What the simulation does to a node: a new one, or a new time for an old one.\<close>

lemma link_node:
  fixes now :: ns
  assumes "tree_ok r" and "walk_edges (edges r) 0 p = Some j" and "edges r (j, h) = None"
  defines "r' \<equiv> r\<lparr>last_use := last_use r @ [now], edges := (edges r)((j, h) \<mapsto> length (last_use r))\<rparr>"
  shows "tree_ok r'" and "lookup r' = (lookup r)(p @ [h] \<mapsto> now)" and "walk_edges (edges r') 0 (p @ [h]) = Some (length (last_use r))"
    and "edges r' (length (last_use r), g) = None"
proof -
  let ?i = "length (last_use r)"
  have j: "j < ?i" using walk_bound [OF assms(1,2)] by simp
  have fresh: "edges r e \<noteq> Some ?i" for e using assms(1) unfolding tree_ok_def by (metis less_irrefl)
  show "tree_ok r'" using assms(1) j fresh by (auto simp: tree_ok_def r'_def less_SucI)
  note W = walk_link [OF assms(1-3) refl]
  show "walk_edges (edges r') 0 (p @ [h]) = Some ?i" by (simp add: r'_def W)
  show "lookup r' = (lookup r)(p @ [h] \<mapsto> now)"
  proof
    fix q
    show "lookup r' q = ((lookup r)(p @ [h] \<mapsto> now)) q"
      using walk_bound [OF assms(1), of q] by (cases "walk_edges (edges r) 0 q") (auto simp: lookup_def r'_def W nth_append)
  qed
  show "edges r' (?i, g) = None" using assms(1) j by (fastforce simp: tree_ok_def r'_def)
qed

lemma refresh_node:
  fixes now :: ns
  assumes "tree_ok r" and "walk_edges (edges r) 0 (p @ [h]) = Some i"
  defines "r' \<equiv> r\<lparr>last_use := (last_use r)[i := now]\<rparr>"
  shows "tree_ok r'" and "lookup r' = (lookup r)(p @ [h] \<mapsto> now)"
proof -
  show "tree_ok r'" using assms(1) by (simp add: tree_ok_def r'_def)
  show "lookup r' = (lookup r)(p @ [h] \<mapsto> now)"
  proof
    fix q
    show "lookup r' q = ((lookup r)(p @ [h] \<mapsto> now)) q"
      using walk_bound [OF assms(1), of q] walk_bound [OF assms(1,2)] walk_inj [OF assms(1,2), of q] assms(2)
      by (cases "walk_edges (edges r) 0 q") (auto simp: lookup_def r'_def nth_list_update)
  qed
qed

section \<open>One pass\<close>

lemma touch_append: "touch now p us C q = (if \<exists>n. 0 < n \<and> n \<le> length us \<and> q = p @ map uHash (take n us) then Some now else C q)"
proof (induction us arbitrary: p C)
  case (Cons u us)
  have "(\<exists>n. 0 < n \<and> n \<le> length (u # us) \<and> q = p @ map uHash (take n (u # us))) \<longleftrightarrow>
      q = p @ [uHash u] \<or> (\<exists>n. 0 < n \<and> n \<le> length us \<and> q = (p @ [uHash u]) @ map uHash (take n us))" (is "?l = ?r")
  proof
    assume ?l
    then obtain n where n: "0 < n" "n \<le> length (u # us)" "q = p @ map uHash (take n (u # us))" by blast
    then obtain m where m: "n = Suc m" by (cases n) simp_all
    show ?r
    proof (cases "m = 0")
      case True
      then show ?thesis using n m by simp
    next
      case False
      then show ?thesis using n m by (intro disjI2 exI [of _ m]) simp
    qed
  next
    assume ?r
    then show ?l
    proof
      assume "q = p @ [uHash u]"
      then show ?l by (intro exI [of _ 1]) simp
    next
      assume "\<exists>n. 0 < n \<and> n \<le> length us \<and> q = (p @ [uHash u]) @ map uHash (take n us)"
      then obtain n where "0 < n" "n \<le> length us" "q = (p @ [uHash u]) @ map uHash (take n us)" by blast
      then show ?l by (intro exI [of _ "Suc n"]) simp
    qed
  qed
  note eq = this
  have "(if A then x else if B then x else y) = (if B \<or> A then x else y)" for A B and x y :: "ns option" by simp
  then show ?case unfolding touch.simps Cons.IH fun_upd_apply eq by this
qed simp

text \<open>A path is touched after it has been looked at, and deeper paths are not affected.\<close>

lemma hit_touched: "hit (expire fits now (C(q \<mapsto> t))) (q @ r) us = hit (expire fits now C) (q @ r) us"
proof (induction us arbitrary: r)
  case (Cons u us)
  have "expire fits now (C(q \<mapsto> t)) (q @ r @ [uHash u]) = expire fits now C (q @ r @ [uHash u])" by (simp add: expire_def)
  then show ?case using Cons [of "r @ [uHash u]"] by (simp del: fun_upd_apply)
qed simp

definition frame_of :: "retention_sim \<Rightarrow> ns list \<times> ns \<times> nat" where
  "frame_of r = (windows r, prevTs r, length (byBucket r))"

lemma loop_new:
  "tree_ok r \<Longrightarrow> walk_edges (edges r) 0 p = Some parent \<Longrightarrow> (\<And>h. edges r (parent, h) = None) \<Longrightarrow>
   r' = observe_loop now us parent g b False r \<Longrightarrow>
   tree_ok r' \<and> frame_of r' = frame_of r \<and> lookup r' = touch now p us (lookup r) \<and> byBucket r' = byBucket r \<and> rtotal r' = rtotal r + unit_tokens us"
proof (induction us arbitrary: r p parent)
  case Nil
  then show ?case by (simp add: unit_tokens_def)
next
  case (Cons u us)
  let ?r1 = "r\<lparr>last_use := last_use r @ [now], edges := (edges r)((parent, uHash u) \<mapsto> length (last_use r))\<rparr>"
  let ?r2 = "r\<lparr>rtotal := rtotal r + uTokens u, last_use := last_use r @ [now], edges := (edges r)((parent, uHash u) \<mapsto> length (last_use r))\<rparr>"
  note L = link_node [OF Cons.prems(1,2) Cons.prems(3), of "uHash u" now]
  have same: "tree_ok ?r2 = tree_ok ?r1" "lookup ?r2 = lookup ?r1" by (simp_all add: tree_ok_def lookup_def fun_eq_iff)
  have "r' = observe_loop now us (length (last_use r)) g b False ?r2" using Cons.prems(4) by (simp add: Let_def)
  from Cons.IH [OF _ _ _ this, of "p @ [uHash u]"] L same show ?case by (simp add: frame_of_def unit_tokens_def del: fun_upd_apply)
qed

lemma loop_matching:
  assumes "sorted ws"
  shows "tree_ok r \<Longrightarrow> walk_edges (edges r) 0 p = Some parent \<Longrightarrow> windows r = ws \<Longrightarrow> length (byBucket r) = Suc (length ws) \<Longrightarrow>
   bucket_ok ws g b \<Longrightarrow> r' = observe_loop now us parent g b True r \<Longrightarrow>
   tree_ok r' \<and> frame_of r' = frame_of r \<and> lookup r' = touch now p us (lookup r) \<and> rtotal r' = rtotal r + unit_tokens us \<and>
   (\<forall>k\<le>length ws. sum_list (take (Suc k) (byBucket r')) = sum_list (take (Suc k) (byBucket r)) +
      (if fits_window ws k g then hit (expire (fits_window ws k) now (lookup r)) p us else 0))"
proof (induction us arbitrary: r p parent g b)
  case Nil
  then show ?case by (simp add: unit_tokens_def)
next
  case (Cons u us)
  let ?q = "p @ [uHash u]"
  show ?case
  proof (cases "edges r (parent, uHash u)")
    case None
    let ?r1 = "r\<lparr>last_use := last_use r @ [now], edges := (edges r)((parent, uHash u) \<mapsto> length (last_use r))\<rparr>"
    let ?r2 = "r\<lparr>rtotal := rtotal r + uTokens u, last_use := last_use r @ [now], edges := (edges r)((parent, uHash u) \<mapsto> length (last_use r))\<rparr>"
    note L = link_node [OF Cons.prems(1,2) None, of now]
    have same: "tree_ok ?r2 = tree_ok ?r1" "lookup ?r2 = lookup ?r1" by (simp_all add: tree_ok_def lookup_def fun_eq_iff)
    have "r' = observe_loop now us (length (last_use r)) g b False ?r2" using Cons.prems(6) None by (simp add: Let_def)
    note N = loop_new [OF _ _ _ this, of ?q]
    have "lookup r ?q = None" using Cons.prems(2) None by (simp add: lookup_def walk_snoc)
    then show ?thesis using N L same by (simp add: frame_of_def unit_tokens_def expire_def)
  next
    case (Some i)
    have i: "walk_edges (edges r) 0 ?q = Some i" using Cons.prems(2) Some by (simp add: walk_snoc)
    then have lk: "lookup r ?q = Some (last_use r ! i)" by (simp add: lookup_def)
    define gap where "gap = now - last_use r ! i"
    define g1 where "g1 = (if gap > g then gap else g)"
    define b1 where "b1 = (if gap > g then advance ws gap b else b)"
    define r1 where "r1 = r\<lparr>last_use := (last_use r)[i := now]\<rparr>"
    define r2 where "r2 = r1\<lparr>rtotal := rtotal r + uTokens u, byBucket := (byBucket r)[b1 := byBucket r ! b1 + uTokens u]\<rparr>"
    note R = refresh_node [OF Cons.prems(1) i, of now, folded r1_def]
    have same: "tree_ok r2 = tree_ok r1" "lookup r2 = lookup r1" "edges r2 = edges r" "windows r2 = ws"
      "length (byBucket r2) = Suc (length ws)" "frame_of r2 = frame_of r"
      using Cons.prems(3,4) by (simp_all add: tree_ok_def lookup_def fun_eq_iff r1_def r2_def frame_of_def)
    have ok: "bucket_ok ws g1 b1" using advance_ok [OF assms Cons.prems(5), of gap] Cons.prems(5) by (auto simp: g1_def b1_def)
    have eq: "r2 = r\<lparr>rtotal := rtotal r + uTokens u, byBucket := (byBucket r)[b1 := byBucket r ! b1 + uTokens u], last_use := (last_use r)[i := now]\<rparr>"
      by (simp add: r1_def r2_def)
    have run: "r' = observe_loop now us i g1 b1 True r2"
      using Cons.prems(6) Some Cons.prems(3) unfolding eq by (simp add: Let_def g1_def b1_def gap_def)
    have t2: "tree_ok r2" "walk_edges (edges r2) 0 ?q = Some i" "rtotal r2 = rtotal r + uTokens u" using R(1) i same by (simp_all add: r2_def)
    note IH = Cons.IH [OF t2(1,2) same(4,5) ok run, unfolded same(2,6) t2(3)]
    have IH': "tree_ok r' \<and> frame_of r' = frame_of r \<and> lookup r' = touch now ?q us (lookup r1) \<and> rtotal r' = rtotal r + uTokens u + unit_tokens us \<and>
        (\<forall>k\<le>length ws. sum_list (take (Suc k) (byBucket r')) = sum_list (take (Suc k) (byBucket r2)) +
          (if fits_window ws k g1 then hit (expire (fits_window ws k) now (lookup r1)) ?q us else 0))"
      by (rule IH)
    have sums: "sum_list (take (Suc k) (byBucket r')) = sum_list (take (Suc k) (byBucket r)) +
        (if fits_window ws k g then hit (expire (fits_window ws k) now (lookup r)) p (u # us) else 0)" if k: "k \<le> length ws" for k
    proof -
      let ?f = "fits_window ws k"
      have b1: "b1 < length (byBucket r)" "(b1 \<le> k) = ?f g1" using ok Cons.prems(4) k by (auto simp: bucket_ok_def)
      have fg: "?f g1 = (?f g \<and> ?f gap)" using fits_antimono [of ws k gap g] fits_antimono [of ws k g gap] by (auto simp: g1_def)
      have "hit (expire ?f now (lookup r1)) ?q us = hit (expire ?f now (lookup r)) ?q us"
        using hit_touched [of ?f now "lookup r" ?q now "[]" us] by (simp add: R(2))
      moreover have "expire ?f now (lookup r) ?q = (if ?f gap then Some (last_use r ! i) else None)" by (simp add: expire_def lk gap_def)
      ultimately show ?thesis using IH' k sum_bump [OF b1(1), of k "uTokens u"] b1(2) fg by (auto simp: r2_def)
    qed
    show ?thesis using IH' sums R(2) by (simp add: unit_tokens_def)
  qed
qed

text \<open>The simulation and the cache of one window after the same requests.\<close>

definition agrees :: "nat \<Rightarrow> retention_sim \<Rightarrow> ns \<times> ttl_cache \<times> int \<Rightarrow> bool" where
  "agrees k r x \<longleftrightarrow>
     (case x of (clock, C, n) \<Rightarrow> clock = prevTs r \<and> n = sum_list (take (Suc k) (byBucket r)) \<and>
        (\<forall>p t. C p = Some t \<longrightarrow> lookup r p = Some t) \<and>
        (\<forall>p t. lookup r p = Some t \<longrightarrow> C p = Some t \<or> \<not> fits_window (windows r) k (clock - t)))"

definition sim_ok :: "ns list \<Rightarrow> retention_sim \<Rightarrow> bool" where
  "sim_ok ws r \<longleftrightarrow> tree_ok r \<and> windows r = ws \<and> length (byBucket r) = Suc (length ws)"

lemma observe_step:
  assumes "sorted ws" and "\<forall>w\<in>set ws. 0 \<le> w" and "sim_ok ws r"
  shows "sim_ok ws (observe q r) \<and> rtotal (observe q r) = rtotal r + unit_tokens (snd q) \<and>
    lookup (observe q r) = touch (max (fst q) (prevTs r)) [] (snd q) (lookup r) \<and>
    (\<forall>k\<le>length ws. \<forall>x. agrees k r x \<longrightarrow> agrees k (observe q r) (ttl_step (fits_window ws k) q x))"
proof -
  obtain ts us where q: "q = (ts, us)" by fastforce
  let ?now = "max ts (prevTs r)"
  let ?r0 = "r\<lparr>prevTs := ?now\<rparr>"
  have o: "observe q r = observe_loop ?now us 0 0 0 True ?r0" by (simp add: observe_def q Let_def max_def)
  have same: "lookup ?r0 = lookup r" "tree_ok ?r0 = tree_ok r" by (simp_all add: lookup_def tree_ok_def fun_eq_iff)
  have pre: "tree_ok ?r0" "walk_edges (edges ?r0) 0 [] = Some 0" "windows ?r0 = ws" "length (byBucket ?r0) = Suc (length ws)"
    using assms(3) same by (simp_all add: sim_ok_def)
  note M = loop_matching [OF assms(1) pre bucket_start [OF assms(2)] o, unfolded same frame_of_def]
  have "agrees k (observe q r) (ttl_step (fits_window ws k) q x)" if k: "k \<le> length ws" and a: "agrees k r x" for k x
  proof -
    obtain clock C n where x: "x = (clock, C, n)" by (metis prod_cases3)
    let ?f = "fits_window ws k"
    have A: "clock = prevTs r" "n = sum_list (take (Suc k) (byBucket r))" "\<And>p t. C p = Some t \<Longrightarrow> lookup r p = Some t"
      "\<And>p t. lookup r p = Some t \<Longrightarrow> C p = Some t \<or> \<not> ?f (clock - t)" using a pre(3) by (auto simp: agrees_def x)
    have e: "expire ?f ?now C = expire ?f ?now (lookup r)"
    proof
      fix p
      show "expire ?f ?now C p = expire ?f ?now (lookup r) p"
      proof (cases "C p")
        case None
        then have "\<not> ?f (?now - t)" if "lookup r p = Some t" for t
          using A(4) [OF that] fits_antimono [of ws k "?now - t" "clock - t"] A(1) by auto
        then show ?thesis using None by (auto simp: expire_def split: option.splits)
      qed (use A(3) in \<open>simp add: expire_def\<close>)
    qed
    have f0: "?f 0" using assms(2) by (auto simp: fits_window_def)
    have "touch ?now [] us (expire ?f ?now (lookup r)) p = Some t \<Longrightarrow> touch ?now [] us (lookup r) p = Some t" for p t
      by (auto simp: touch_append expire_def split: if_splits option.splits)
    moreover have "touch ?now [] us (expire ?f ?now (lookup r)) p = Some t \<or> \<not> ?f (?now - t)" if "touch ?now [] us (lookup r) p = Some t" for p t
      using that f0 by (auto simp: touch_append expire_def split: if_splits option.splits)
    ultimately show ?thesis
      using M k f0 pre(3) by (auto simp: agrees_def ttl_step_def q x Let_def A(1,2) e)
  qed
  then show ?thesis using M pre by (simp add: sim_ok_def q)
qed

lemma observe_fold:
  assumes "sorted ws" and "\<forall>w\<in>set ws. 0 \<le> w"
  shows "sim_ok ws r \<Longrightarrow> sim_ok ws (fold observe reqs r) \<and> rtotal (fold observe reqs r) = rtotal r + (\<Sum>q\<leftarrow>reqs. unit_tokens (snd q)) \<and>
    (\<forall>k\<le>length ws. \<forall>x. agrees k r x \<longrightarrow> agrees k (fold observe reqs r) (fold (ttl_step (fits_window ws k)) reqs x))"
proof (induction reqs arbitrary: r)
  case (Cons q reqs)
  note O = observe_step [OF assms Cons.prems, of q]
  then have IH: "sim_ok ws (fold observe reqs (observe q r))" "rtotal (fold observe reqs (observe q r)) = rtotal (observe q r) + (\<Sum>q\<leftarrow>reqs. unit_tokens (snd q))"
    "\<And>k x. k \<le> length ws \<Longrightarrow> agrees k (observe q r) x \<Longrightarrow> agrees k (fold observe reqs (observe q r)) (fold (ttl_step (fits_window ws k)) reqs x)"
    using Cons.IH [of "observe q r"] by blast+
  show ?case using O IH by simp
qed simp

lemma sim_ok_New: "sim_ok ws (newRetentionSim ws)"
  by (simp add: sim_ok_def newRetentionSim_def tree_ok_def)

lemma lookup_New: "lookup (newRetentionSim ws) p = None"
  by (cases p) (simp_all add: lookup_def newRetentionSim_def)

lemma agrees_New: "k \<le> length ws \<Longrightarrow> agrees k (newRetentionSim ws) (0, Map.empty, 0)"
  using lookup_New [of ws] by (simp add: agrees_def) (simp add: newRetentionSim_def sum_list_replicate)

lemma report_fields:
  assumes "length (byBucket r) = Suc (length (windows r))"
  shows "Cached (report r) = map (\<lambda>k. sum_list (take (Suc k) (byBucket r))) [0..<length (windows r)]"
    and "CachedInfinite (report r) = sum_list (byBucket r)" and "Total (report r) = rtotal r"
proof -
  let ?n = "length (windows r)"
  have l: "length (take ?n (byBucket r)) = ?n" using assms by simp
  have t: "take (Suc k) (take ?n (byBucket r)) = take (Suc k) (byBucket r)" if "k < ?n" for k using that by (simp add: min_def)
  have "byBucket r = take ?n (byBucket r) @ [byBucket r ! ?n]" using assms by (metis lessI take_Suc_conv_app_nth take_all_iff order_refl)
  then have s: "sum_list (byBucket r) = sum_list (take ?n (byBucket r)) + byBucket r ! ?n" by (metis add.right_neutral sum_list.Cons sum_list.Nil sum_list_append)
  show "Cached (report r) = map (\<lambda>k. sum_list (take (Suc k) (byBucket r))) [0..<?n]"
    using l t by (simp add: report_def report_loop_eq del: take_take length_take)
  show "CachedInfinite (report r) = sum_list (byBucket r)" "Total (report r) = rtotal r" by (simp_all add: report_def report_loop_eq s)
qed

lemma one_pass:
  assumes "sorted ws" and "\<forall>w\<in>set ws. 0 \<le> w"
  shows "Cached (report (fold observe reqs (newRetentionSim ws))) = map (\<lambda>w. ttl_hits (\<lambda>gap. gap \<le> w) reqs) ws \<and>
    CachedInfinite (report (fold observe reqs (newRetentionSim ws))) = ttl_hits (\<lambda>gap. True) reqs \<and>
    Total (report (fold observe reqs (newRetentionSim ws))) = (\<Sum>q\<leftarrow>reqs. unit_tokens (snd q))"
proof -
  let ?r = "fold observe reqs (newRetentionSim ws)"
  note F = observe_fold [OF assms sim_ok_New, of reqs]
  have len: "length (byBucket ?r) = Suc (length (windows ?r))" "windows ?r = ws" using F by (simp_all add: sim_ok_def)
  have h: "sum_list (take (Suc k) (byBucket ?r)) = ttl_hits (fits_window ws k) reqs" if "k \<le> length ws" for k
  proof -
    have "agrees k ?r (fold (ttl_step (fits_window ws k)) reqs (0, Map.empty, 0))" using F agrees_New [OF that] that by blast
    then show ?thesis by (auto simp: agrees_def ttl_hits_def split: prod.splits)
  qed
  have "fits_window ws k = (\<lambda>gap. gap \<le> ws ! k)" if "k < length ws" for k using that by (simp add: fits_window_def fun_eq_iff)
  then have "Cached (report ?r) = map (\<lambda>w. ttl_hits (\<lambda>gap. gap \<le> w) reqs) ws"
    using h by (intro nth_equalityI) (simp_all add: report_fields [OF len(1)] len(2))
  moreover have "CachedInfinite (report ?r) = ttl_hits (\<lambda>gap. True) reqs"
  proof -
    have "fits_window ws (length ws) = (\<lambda>gap. True)" by (simp add: fits_window_def fun_eq_iff)
    then show ?thesis using h [of "length ws"] len by (simp add: report_fields [OF len(1)])
  qed
  moreover have "rtotal (newRetentionSim ws) = 0" by (simp add: newRetentionSim_def)
  ultimately show ?thesis using F by (simp add: report_fields [OF len(1)])
qed

text \<open>C18. One walk scores every window: for any ascending windows the report of the one-pass simulation equals, window by
  window, what a cache with that time to live serves from the same requests; its infinite figure is that of a cache
  that never forgets, and the total counts every unit.\<close>

theorem retention_one_pass:
  assumes "sorted ws" and "\<forall>w\<in>set ws. 0 \<le> w"
  shows "Cached (report (fold observe reqs (newRetentionSim ws))) = map (\<lambda>w. ttl_hits (\<lambda>gap. gap \<le> w) reqs) ws \<and>
    CachedInfinite (report (fold observe reqs (newRetentionSim ws))) = ttl_hits (\<lambda>gap. True) reqs \<and>
    Total (report (fold observe reqs (newRetentionSim ws))) = (\<Sum>q\<leftarrow>reqs. unit_tokens (snd q))"
  using one_pass [OF assms] .

text \<open>A use ten minutes after the last is served by the long window and by the cache that never forgets.\<close>

definition two_uses :: "(ns \<times> kvunit list) list" where
  "two_uses = [(0, [\<lparr>uHash = 1, uTokens = 8\<rparr>]), (600 * second, [\<lparr>uHash = 1, uTokens = 8\<rparr>, \<lparr>uHash = 2, uTokens = 8\<rparr>])]"

theorem retention_one_pass_witness:
  "Cached (report (fold observe two_uses (newRetentionSim [300 * second, 900 * second]))) =
     [ttl_hits (\<lambda>gap. gap \<le> 300 * second) two_uses, ttl_hits (\<lambda>gap. gap \<le> 900 * second) two_uses] \<and>
   ttl_hits (\<lambda>gap. gap \<le> 300 * second) two_uses = 0 \<and> ttl_hits (\<lambda>gap. gap \<le> 900 * second) two_uses = 8"
proof -
  have "ttl_hits (\<lambda>gap. gap \<le> 300 * second) two_uses = 0 \<and> ttl_hits (\<lambda>gap. gap \<le> 900 * second) two_uses = 8"
    by (simp add: ttl_hits_def two_uses_def ttl_step_def expire_def Let_def)
  then show ?thesis using retention_one_pass [of "[300 * second, 900 * second]" two_uses] by simp
qed

section \<open>Against the trie\<close>

text \<open>A call of the trie without caps.\<close>

lemma record_unbounded:
  assumes "kinv t ps" and "\<not> Bounded (tcfg t)" and "us \<noteq> []" and "RecordAndCount us t = ((cached, tot0), t')"
  shows "cached = unit_tokens (take (lead (resident t) (map uHash us)) us) \<and> tot0 = unit_tokens us \<and>
    resident t' = resident t \<union> {xs. prefix xs (map uHash us)} \<and> tcfg t' = tcfg t \<and> kinv t' ps"
proof -
  obtain A L where t: "tinv t A L" using assms(1) by (rule kinv_obtains)
  obtain A' L' leaf where r: "records t A (map uHash us) leaf t' A'" using record_records [OF t assms(3)] assms(4) by auto
  have "(cached, tot0) = Query t us" using RecordAndCount_value [of us t] assms(4) by simp
  then show ?thesis using records_resident(2) [OF r assms(2)] records_cfg [OF r] kinv_record [OF assms(1), of us] assms(4) by (simp add: Query_lead)
qed

lemma hit_lead:
  assumes "\<And>q. C q \<noteq> None \<longleftrightarrow> q \<noteq> [] \<and> q \<in> R"
  shows "hit C [] us = unit_tokens (take (lead R (map uHash us)) us)"
proof -
  have h: "hit C (map uHash ps) us = unit_tokens (take n us)"
    if "n \<le> length us" "\<And>j. j < n \<Longrightarrow> map uHash ps @ take (Suc j) (map uHash us) \<in> R"
      "n < length us \<Longrightarrow> map uHash ps @ take (Suc n) (map uHash us) \<notin> R" for ps :: "kvunit list" and n
    using that
  proof (induction us arbitrary: ps n)
    case Nil
    then show ?case by (simp add: unit_tokens_def)
  next
    case (Cons u us)
    let ?q = "map uHash ps @ [uHash u]"
    show ?case
    proof (cases n)
      case 0
      then have "C ?q = None" using Cons.prems(3) assms [of ?q] by auto
      then show ?thesis using 0 by (simp add: unit_tokens_def)
    next
      case (Suc m)
      then obtain y where "C ?q = Some y" using Cons.prems(2) [of 0] assms [of ?q] by auto
      moreover have "hit C (map uHash (ps @ [u])) us = unit_tokens (take m us)"
        using Cons.IH [of m "ps @ [u]"] Cons.prems(1) Cons.prems(2) [of "Suc j" for j] Cons.prems(3) Suc by simp
      ultimately show ?thesis using Suc by (simp add: unit_tokens_def)
    qed
  qed
  let ?P = "\<lambda>j. take (Suc j) (map uHash us) \<in> R"
  let ?n = "lead R (map uHash us)"
  have n: "?n \<le> length us" using length_takeWhile_le [of ?P "[0..<length us]"] by (simp add: lead_def)
  have "?P j" if "j < ?n" for j
    using nth_mem [of j "takeWhile ?P [0..<length us]"] that set_takeWhileD [of _ ?P "[0..<length us]"] takeWhile_nth [of j ?P "[0..<length us]"] n
    by (fastforce simp: lead_def)
  moreover have "\<not> ?P ?n" if "?n < length us"
    using nth_length_takeWhile [of ?P "[0..<length us]"] that by (simp add: lead_def)
  ultimately show ?thesis using h [of ?n "[]"] n by simp
qed

text \<open>The cache that never forgets and the trie hold the same paths.\<close>

definition same_paths :: "trie \<Rightarrow> ttl_cache \<Rightarrow> bool" where
  "same_paths t C \<longleftrightarrow> kinv t [] \<and> \<not> Bounded (tcfg t) \<and> (\<forall>q. C q \<noteq> None \<longleftrightarrow> q \<noteq> [] \<and> q \<in> resident t)"

lemma expire_all: "expire (\<lambda>gap. True) now C = C"
  by (auto simp: expire_def split: option.splits)

lemma touch_dom: "touch now [] us C q \<noteq> None \<longleftrightarrow> (q \<noteq> [] \<and> prefix q (map uHash us)) \<or> C q \<noteq> None"
proof -
  have "(\<exists>n. 0 < n \<and> n \<le> length us \<and> q = [] @ map uHash (take n us)) \<longleftrightarrow> q \<noteq> [] \<and> prefix q (map uHash us)" (is "?l \<longleftrightarrow> ?r")
  proof
    assume ?l
    then show ?r by (auto simp: take_is_prefix take_map [symmetric])
  next
    assume ?r
    then obtain z where z: "map uHash us = q @ z" "0 < length q" by (auto elim: prefixE)
    have "length q \<le> length us" using arg_cong [OF z(1), of length] by simp
    moreover have "q = map uHash (take (length q) us)" using arg_cong [OF z(1), of "take (length q)"] by (simp add: take_map)
    ultimately show ?l using z(2) by (intro exI [of _ "length q"]) simp
  qed
  then show ?thesis unfolding touch_append by (simp del: not_None_eq)
qed

lemma replay_step_ttl:
  assumes "same_paths t C"
  shows "\<exists>t'. replay_step us (t, c, n) = (t', c + hit C [] us, n + unit_tokens us) \<and> same_paths t' (touch now [] us C)"
proof (cases "us = []")
  case True
  then show ?thesis using assms by (simp add: replay_step_def unit_tokens_def)
next
  case False
  obtain cached tot0 t1 where r: "RecordAndCount us t = ((cached, tot0), t1)" by (metis prod.collapse)
  have C: "kinv t []" "\<not> Bounded (tcfg t)" "\<And>q. C q \<noteq> None \<longleftrightarrow> q \<noteq> [] \<and> q \<in> resident t"
    using assms unfolding same_paths_def by blast+
  note R = record_unbounded [OF C(1,2) False r] and H = hit_lead [OF C(3), of us]
  have A: "cached = hit C [] us" "tot0 = unit_tokens us" "resident t1 = resident t \<union> {xs. prefix xs (map uHash us)}" "tcfg t1 = tcfg t" "kinv t1 []"
    using R H by simp_all
  have o: "resident (Trie_Observe cached tot0 t1) = resident t1" "tcfg (Trie_Observe cached tot0 t1) = tcfg t1"
    using follow_cong [of "Trie_Observe cached tot0 t1" t1] by (simp_all add: Trie_Observe_def resident_def)
  have "touch now [] us C q \<noteq> None \<longleftrightarrow> q \<noteq> [] \<and> q \<in> resident t1" for q
    using assms unfolding touch_dom A(3) same_paths_def by blast
  then have "same_paths (Trie_Observe cached tot0 t1) (touch now [] us C)"
    using assms A(4) kinv_observe [OF A(5)] unfolding same_paths_def o by simp
  then show ?thesis using False r A(1,2) by (simp add: replay_step_def)
qed

lemma replay_fold_ttl:
  "same_paths t C \<Longrightarrow>
   \<exists>t' clock' C'. fold (\<lambda>q. replay_step (snd q)) reqs (t, c, n) = (t', snd (snd (fold (ttl_step (\<lambda>gap. True)) reqs (clock, C, c))), n + (\<Sum>q\<leftarrow>reqs. unit_tokens (snd q)))"
proof (induction reqs arbitrary: t clock C c n)
  case (Cons q reqs)
  obtain ts us where q: "q = (ts, us)" by fastforce
  obtain t' where t': "replay_step us (t, c, n) = (t', c + hit C [] us, n + unit_tokens us)" "same_paths t' (touch (max ts clock) [] us C)"
    using replay_step_ttl [OF Cons.prems] by blast
  have "ttl_step (\<lambda>gap. True) q (clock, C, c) = (max ts clock, touch (max ts clock) [] us C, c + hit C [] us)"
    by (simp add: ttl_step_def q expire_all Let_def)
  then show ?case using Cons.IH [OF t'(2), of "c + hit C [] us" "n + unit_tokens us" "max ts clock"] t'(1) by (simp add: q add.assoc)
qed simp

lemma New_resident: "resident (Trie_New c) = {[]}"
proof -
  have "kidsOf (Trie_New c) = (\<lambda>_. [])" by (simp add: Trie_New_def)
  then have "node_find (Trie_New c) 0 h = None" for h by (simp add: node_find_def lookup_kid_def find_kid_def)
  then have "follow (Trie_New c) 0 hs = None" if "hs \<noteq> []" for hs using that by (cases hs) simp_all
  then show ?thesis unfolding resident_def by force
qed

lemma store_units_built:
  "set is \<subseteq> {..<length (concat (concat batches))} \<Longrightarrow>
   store_units (build_store sha rfc batches) is buf =
     Some (map (\<lambda>i. (parseReplayTs rfc (q_ts (concat (concat batches) ! i)), units_of sha (concat (concat batches) ! i))) is)"
proof (induction "is" arbitrary: buf)
  case (Cons i "is")
  then show ?case using built_units [of i batches sha rfc buf] by simp
qed simp

text \<open>C19. The two offline simulations agree: over any store of requests, in any order, the retention report's infinite
  figure is the cached figure of the replay into the trie, and both count the same tokens.\<close>

theorem infinite_retention_is_replay:
  assumes "sorted ws" and "\<forall>w\<in>set ws. 0 \<le> w" and "set is \<subseteq> {..<length (concat (concat batches))}"
  shows "\<exists>r q. SimulateRetentionStore (build_store sha rfc batches) is ws = Some r \<and>
    SimulateReplayCacheStore (build_store sha rfc batches) is = Some q \<and>
    CachedInfinite r = SimCachedTokens q \<and> Total r = SimTotalTokens q"
proof -
  define reqs where "reqs = map (\<lambda>i. (parseReplayTs rfc (q_ts (concat (concat batches) ! i)), units_of sha (concat (concat batches) ! i))) is"
  note U = store_units_built [OF assms(3), of sha rfc, folded reqs_def]
  have s: "same_paths (Trie_New \<lparr>MaxNodes = 0, MaxTokens = 0, EvictBudget = 0\<rparr>) Map.empty"
  proof -
    have "\<not> Bounded (tcfg (Trie_New \<lparr>MaxNodes = 0, MaxTokens = 0, EvictBudget = 0\<rparr>))" by (simp add: Trie_New_def Bounded_def)
    then show ?thesis by (simp add: same_paths_def kinv_New New_resident)
  qed
  obtain t' where "fold (\<lambda>q. replay_step (snd q)) reqs (Trie_New \<lparr>MaxNodes = 0, MaxTokens = 0, EvictBudget = 0\<rparr>, 0, 0) =
      (t', ttl_hits (\<lambda>gap. True) reqs, \<Sum>q\<leftarrow>reqs. unit_tokens (snd q))"
    using replay_fold_ttl [OF s, of reqs 0 0 0] by (auto simp: ttl_hits_def)
  moreover have "CachedInfinite (report (fold observe reqs (newRetentionSim ws))) = ttl_hits (\<lambda>gap. True) reqs"
    "Total (report (fold observe reqs (newRetentionSim ws))) = (\<Sum>q\<leftarrow>reqs. unit_tokens (snd q))"
    using one_pass [OF assms(1,2)] by blast+
  ultimately show ?thesis by (simp add: SimulateRetentionStore_def SimulateReplayCacheStore_def U Let_def)
qed

theorem infinite_retention_is_replay_witness:
  "\<exists>r q. SimulateRetentionStore (build_store (\<lambda>bs. of_nat (length bs)) (\<lambda>_. Some 7) [[[turn_request [[1]], turn_request [[1], [2, 3]]]]]) [0, 1] [second] = Some r \<and>
    SimulateReplayCacheStore (build_store (\<lambda>bs. of_nat (length bs)) (\<lambda>_. Some 7) [[[turn_request [[1]], turn_request [[1], [2, 3]]]]]) [0, 1] = Some q \<and>
    CachedInfinite r = SimCachedTokens q"
  using infinite_retention_is_replay [of "[second]" "[0, 1]" "[[[turn_request [[1]], turn_request [[1], [2, 3]]]]]" "\<lambda>bs. of_nat (length bs)" "\<lambda>_. Some 7"] by auto

end
