(* ===== verification/Health.thy ===== *)
theory Health
  imports Registry
begin

text \<open>
  \<^verbatim>\<open>router/internal/health/health.go\<close>: which backends a round of the health checker probes, and the hysteresis between
  the answers and the health the selection reads. The registry is the one of \<open>Registry\<close>; the answer of a probe
  (\<^verbatim>\<open>net/http\<close>) and the order in which concurrent answers arrive are arguments.
\<close>

section \<open>Definitions\<close>

record health_config =
  Interval :: ns
  UnhealthyInterval :: ns
  FailureThreshold :: int
  SuccessThreshold :: int
  Concurrency :: int

definition Health_DefaultConfig :: health_config where
  "Health_DefaultConfig = \<lparr>Interval = 15 * second, UnhealthyInterval = second, FailureThreshold = 3, SuccessThreshold = 2, Concurrency = 0\<rparr>"

text \<open>A URL without a streak reads 0.\<close>

record checker =
  ccfg :: health_config
  streaks :: "url \<Rightarrow> int"
  last_probe :: "url \<Rightarrow> ns option"

definition Health_New :: "health_config \<Rightarrow> checker" where
  "Health_New c0 =
     (let c1 = (if FailureThreshold c0 < 1 then c0\<lparr>FailureThreshold := 1\<rparr> else c0);
          c2 = (if SuccessThreshold c1 < 1 then c1\<lparr>SuccessThreshold := 1\<rparr> else c1);
          c3 = (if UnhealthyInterval c2 \<le> 0 \<or> UnhealthyInterval c2 > Interval c2 then c2\<lparr>UnhealthyInterval := min second (Interval c2)\<rparr> else c2)
      in \<lparr>ccfg = c3, streaks = (\<lambda>_. 0), last_probe = Map.empty\<rparr>)"

definition due :: "backend \<Rightarrow> ns \<Rightarrow> checker \<Rightarrow> bool \<times> checker" where
  "due b now c =
     (case last_probe c (URL b) of
        None \<Rightarrow> (True, c\<lparr>last_probe := (last_probe c)(URL b \<mapsto> now)\<rparr>)
      | Some t \<Rightarrow>
          (if now - t < (if bhealth b = Healthy then Interval (ccfg c) else UnhealthyInterval (ccfg c)) then (False, c)
           else (True, c\<lparr>last_probe := (last_probe c)(URL b \<mapsto> now)\<rparr>)))"

text \<open>The loop of \<^verbatim>\<open>Round\<close> over the snapshot.\<close>

fun round_targets :: "backend list \<Rightarrow> ns \<Rightarrow> nat list \<Rightarrow> checker \<Rightarrow> nat list \<times> checker" where
  "round_targets hp now [] c = ([], c)"
| "round_targets hp now (i # is) c =
     (if HealthMod (hp ! i) \<noteq> HealthActive then round_targets hp now is c
      else (case due (hp ! i) now c of (d, c1) \<Rightarrow>
             (case round_targets hp now is c1 of (ts, c2) \<Rightarrow> (if d then i # ts else ts, c2))))"

definition round_limit :: "health_config \<Rightarrow> nat \<Rightarrow> int" where
  "round_limit c n = (if Concurrency c \<le> 0 then min 256 (max 32 (int n)) else Concurrency c)"

definition SetHealth :: "health \<Rightarrow> backend \<Rightarrow> backend" where
  "SetHealth h b = b\<lparr>bhealth := h\<rparr>"

definition next_streak :: "bool \<Rightarrow> int \<Rightarrow> int" where
  "next_streak ok s = (if ok then (if s < 0 then 0 else s) + 1 else (if s > 0 then 0 else s) - 1)"

definition observe_health :: "nat \<times> bool \<Rightarrow> registry \<times> checker \<Rightarrow> registry \<times> checker" where
  "observe_health a x =
     (case a of (i, ok) \<Rightarrow> case x of (r, c) \<Rightarrow>
       (let b = heap r ! i;
            s = next_streak ok (streaks c (URL b));
            c1 = c\<lparr>streaks := (streaks c)(URL b := s)\<rparr>
        in if ok \<and> s \<ge> SuccessThreshold (ccfg c) \<and> bhealth b \<noteq> Healthy then (upd_heap i (SetHealth Healthy) r, c1)
           else if \<not> ok \<and> - s \<ge> FailureThreshold (ccfg c) \<and> bhealth b \<noteq> Unhealthy then (upd_heap i (SetHealth Unhealthy) r, c1)
           else (r, c1)))"

record health_gauges =
  g_healthy :: nat
  g_unhealthy :: nat
  g_unknown :: nat
  g_draining :: nat

definition publishGauges :: "backend list \<Rightarrow> nat list \<Rightarrow> health_gauges" where
  "publishGauges hp is =
     \<lparr>g_healthy = length (filter (\<lambda>i. bhealth (hp ! i) = Healthy) is), g_unhealthy = length (filter (\<lambda>i. bhealth (hp ! i) = Unhealthy) is),
      g_unknown = length (filter (\<lambda>i. bhealth (hp ! i) = Unknown) is), g_draining = length (filter (\<lambda>i. draining (hp ! i)) is)\<rparr>"

text \<open>One round: \<open>probe i\<close> is the answer of backend \<open>i\<close>, \<open>arrive\<close> the order in which the answers come.\<close>

definition Health_Round :: "ns \<Rightarrow> (nat \<Rightarrow> bool) \<Rightarrow> (nat list \<Rightarrow> nat list) \<Rightarrow> registry \<times> checker \<Rightarrow> health_gauges \<times> registry \<times> checker" where
  "Health_Round now probe arrive x =
     (case x of (r, c) \<Rightarrow>
       (case round_targets (heap r) now (Backends (cur r)) c of (ts, c1) \<Rightarrow>
         (case fold observe_health (map (\<lambda>i. (i, probe i)) (arrive ts)) (r, c1) of (r1, c2) \<Rightarrow>
            (publishGauges (heap r1) (Backends (cur r)), r1, c2))))"

section \<open>Hysteresis\<close>

text \<open>The reference reads the whole history of a backend's answers: the health is what the latest long enough run of
  equal answers says.\<close>

definition final_run :: "bool list \<Rightarrow> nat" where
  "final_run oks = length (takeWhile (\<lambda>x. x = last oks) (rev oks))"

definition decisive :: "health_config \<Rightarrow> bool list \<Rightarrow> health option" where
  "decisive c oks =
     (if oks = [] then None
      else if last oks then (if int (final_run oks) \<ge> SuccessThreshold c then Some Healthy else None)
      else (if int (final_run oks) \<ge> FailureThreshold c then Some Unhealthy else None))"

text \<open>The newest answer comes first.\<close>

fun latest :: "health_config \<Rightarrow> health \<Rightarrow> bool list \<Rightarrow> health" where
  "latest c h0 [] = h0"
| "latest c h0 (ok # older) = (case decisive c (rev older @ [ok]) of Some h \<Rightarrow> h | None \<Rightarrow> latest c h0 older)"

definition settled :: "health_config \<Rightarrow> health \<Rightarrow> bool list \<Rightarrow> health" where
  "settled c h0 oks = latest c h0 (rev oks)"

lemma settled_snoc: "settled c h0 (oks @ [ok]) = (case decisive c (oks @ [ok]) of None \<Rightarrow> settled c h0 oks | Some h \<Rightarrow> h)"
  by (simp add: settled_def split: option.split)

definition streak_of :: "bool list \<Rightarrow> int" where
  "streak_of oks = (if oks = [] then 0 else if last oks then int (final_run oks) else - int (final_run oks))"

lemma final_run_snoc: "final_run (oks @ [ok]) = (if oks \<noteq> [] \<and> last oks = ok then Suc (final_run oks) else 1)"
proof (cases oks rule: rev_cases)
  case (snoc ys y)
  then show ?thesis by (cases "y = ok") (simp_all add: final_run_def)
qed (simp add: final_run_def)

lemma final_run_pos: "oks \<noteq> [] \<Longrightarrow> 0 < final_run oks"
  by (cases oks rule: rev_cases) (simp_all add: final_run_snoc)

lemma streak_snoc: "streak_of (oks @ [ok]) = next_streak ok (streak_of oks)"
  using final_run_pos [of oks] by (auto simp: streak_of_def next_streak_def final_run_snoc)

lemma decisive_streak:
  assumes "oks \<noteq> []"
  shows "decisive c oks = (if last oks \<and> streak_of oks \<ge> SuccessThreshold c then Some Healthy
    else if \<not> last oks \<and> - streak_of oks \<ge> FailureThreshold c then Some Unhealthy else None)"
  using assms by (simp add: decisive_def streak_of_def)

lemma observe_other:
  assumes "observe_health (j, ok) (r, c) = (r', c')" and "URL (heap r ! j) \<noteq> URL (heap r ! i)"
  shows "heap r' ! i = heap r ! i" and "streaks c' (URL (heap r ! i)) = streaks c (URL (heap r ! i))"
proof -
  have "i \<noteq> j" using assms(2) by blast
  then show "heap r' ! i = heap r ! i" and "streaks c' (URL (heap r ! i)) = streaks c (URL (heap r ! i))"
    using assms by (auto simp: observe_health_def Let_def upd_heap_def split: if_splits)
qed

lemma same_health: "\<exists>h. b = b\<lparr>bhealth := h\<rparr>" for b :: backend
  by (rule exI [of _ "bhealth b"]) simp

lemma observe_health_frame:
  assumes "observe_health a (r, c) = (r', c')"
  shows "ccfg c' = ccfg c \<and> last_probe c' = last_probe c \<and> cur r' = cur r \<and> length (heap r') = length (heap r) \<and>
    (\<forall>j. (\<exists>h. heap r' ! j = (heap r ! j)\<lparr>bhealth := h\<rparr>) \<and> (j \<noteq> fst a \<longrightarrow> heap r' ! j = heap r ! j))"
proof -
  obtain i ok where a: "a = (i, ok)" by fastforce
  have c: "ccfg c' = ccfg c" "last_probe c' = last_probe c" and r: "r' = r \<or> (\<exists>h. r' = upd_heap i (SetHealth h) r)"
    using assms by (auto simp: a observe_health_def Let_def split: if_splits)
  have "(\<exists>h. heap r' ! j = (heap r ! j)\<lparr>bhealth := h\<rparr>) \<and> (j \<noteq> i \<longrightarrow> heap r' ! j = heap r ! j)" for j
  proof (cases "r' = r \<or> j \<noteq> i \<or> \<not> j < length (heap r)")
    case True
    then have "heap r' ! j = heap r ! j" using r by (auto simp: upd_heap_def list_update_beyond)
    then show ?thesis using same_health by simp
  next
    case False
    then show ?thesis using r by (auto simp: upd_heap_def SetHealth_def)
  qed
  moreover have "cur r' = cur r" "length (heap r') = length (heap r)" using r by (auto simp: upd_heap_def)
  ultimately show ?thesis using c by (simp add: a)
qed

lemma observe_self:
  assumes "observe_health (i, ok) (r, c) = (r', c')" and "i < length (heap r)"
    and "streaks c (URL (heap r ! i)) = streak_of oks" and "bhealth (heap r ! i) = settled (ccfg c) h0 oks"
  shows "streaks c' (URL (heap r ! i)) = streak_of (oks @ [ok])" and "bhealth (heap r' ! i) = settled (ccfg c) h0 (oks @ [ok])"
proof -
  have s: "next_streak ok (streaks c (URL (heap r ! i))) = streak_of (oks @ [ok])" by (simp add: assms(3) streak_snoc)
  show "streaks c' (URL (heap r ! i)) = streak_of (oks @ [ok])"
    using assms(1) unfolding observe_health_def prod.case s Let_def by (auto split: if_splits)
  have d: "decisive (ccfg c) (oks @ [ok]) = (if ok \<and> streak_of (oks @ [ok]) \<ge> SuccessThreshold (ccfg c) then Some Healthy
      else if \<not> ok \<and> - streak_of (oks @ [ok]) \<ge> FailureThreshold (ccfg c) then Some Unhealthy else None)"
    by (cases ok) (simp_all add: decisive_streak)
  show "bhealth (heap r' ! i) = settled (ccfg c) h0 (oks @ [ok])"
    using assms(1,2,4) unfolding observe_health_def prod.case s Let_def settled_snoc d
    by (auto simp: upd_heap_def SetHealth_def split: if_splits)
qed

definition answers_of :: "nat \<Rightarrow> (nat \<times> bool) list \<Rightarrow> bool list" where
  "answers_of i es = map snd (filter (\<lambda>e. fst e = i) es)"

lemma observe_history:
  assumes "\<forall>e\<in>set es. URL (heap r ! fst e) = URL (heap r ! i) \<longrightarrow> fst e = i" and "i < length (heap r)"
    and "streaks c (URL (heap r ! i)) = 0" and "fold observe_health es (r, c) = (r', c')"
  shows "streaks c' (URL (heap r ! i)) = streak_of (answers_of i es) \<and>
    bhealth (heap r' ! i) = settled (ccfg c) (bhealth (heap r ! i)) (answers_of i es) \<and>
    ccfg c' = ccfg c \<and> length (heap r') = length (heap r) \<and> (\<forall>j. URL (heap r' ! j) = URL (heap r ! j))"
  using assms(1,4)
proof (induction es arbitrary: r' c' rule: rev_induct)
  case Nil
  then show ?case using assms(3) by (simp add: answers_of_def streak_of_def settled_def decisive_def)
next
  case (snoc e es)
  obtain r1 c1 where f: "fold observe_health es (r, c) = (r1, c1)" by fastforce
  have o: "observe_health e (r1, c1) = (r', c')" using snoc.prems(2) f by simp
  have IH: "streaks c1 (URL (heap r ! i)) = streak_of (answers_of i es)"
    "bhealth (heap r1 ! i) = settled (ccfg c) (bhealth (heap r ! i)) (answers_of i es)" "ccfg c1 = ccfg c"
    "length (heap r1) = length (heap r)" "\<And>j. URL (heap r1 ! j) = URL (heap r ! j)"
    using snoc.IH [OF _ f] snoc.prems(1) by simp_all
  note F = observe_health_frame [OF o]
  have u: "URL (heap r' ! j) = URL (heap r ! j)" for j
  proof -
    obtain h where "heap r' ! j = (heap r1 ! j)\<lparr>bhealth := h\<rparr>" using F by blast
    then show ?thesis by (simp add: IH(5))
  qed
  have "streaks c' (URL (heap r ! i)) = streak_of (answers_of i (es @ [e])) \<and>
      bhealth (heap r' ! i) = settled (ccfg c) (bhealth (heap r ! i)) (answers_of i (es @ [e]))"
  proof (cases "fst e = i")
    case True
    then obtain ok where e: "e = (i, ok)" by (cases e) simp
    have a: "answers_of i (es @ [e]) = answers_of i es @ [ok]" by (simp add: answers_of_def e)
    show ?thesis using observe_self [OF o [unfolded e], of "answers_of i es" "bhealth (heap r ! i)"] IH assms(2) by (simp add: a)
  next
    case False
    obtain j ok where e: "e = (j, ok)" by fastforce
    have a: "answers_of i (es @ [e]) = answers_of i es" using False by (simp add: answers_of_def)
    have "URL (heap r1 ! j) \<noteq> URL (heap r1 ! i)" using snoc.prems(1) False by (auto simp: IH(5) e)
    then show ?thesis using observe_other [OF o [unfolded e]] IH by (simp add: a)
  qed
  then show ?case using F IH u by simp
qed

text \<open>C16. Health has hysteresis: whatever order the answers of all backends arrive in, the health of one is decided by its
  own answers alone, and is what its latest run of equal answers as long as the threshold says; shorter runs leave it
  alone.\<close>

theorem health_is_last_decisive_run:
  assumes "\<forall>e\<in>set es. URL (heap r ! fst e) = URL (heap r ! i) \<longrightarrow> fst e = i" and "i < length (heap r)"
    and "streaks c (URL (heap r ! i)) = 0"
  shows "bhealth (heap (fst (fold observe_health es (r, c))) ! i) = settled (ccfg c) (bhealth (heap r ! i)) (map snd (filter (\<lambda>e. fst e = i) es))"
proof -
  obtain r' c' where f: "fold observe_health es (r, c) = (r', c')" by fastforce
  then show ?thesis using observe_history [OF assms f] by (simp add: answers_of_def)
qed

definition two_reg :: registry where
  "two_reg = (Reg_New DefaultConfig 0)\<lparr>heap := [newBackend DefaultConfig (bare_spec ''a''), newBackend DefaultConfig (bare_spec ''b'')],
     cur := \<lparr>Version = 2, Backends = [0, 1], byURL = [''a'' \<mapsto> 0, ''b'' \<mapsto> 1]\<rparr>, version := 2\<rparr>"

theorem health_is_last_decisive_run_witness:
  "bhealth (heap (fst (fold observe_health [(0, True), (1, False), (0, True), (0, False)] (two_reg, Health_New Health_DefaultConfig))) ! 0) = Healthy"
proof -
  have s: "settled Health_DefaultConfig Unknown [True, True, False] = Healthy" by code_simp
  have c: "ccfg (Health_New Health_DefaultConfig) = Health_DefaultConfig" "streaks (Health_New Health_DefaultConfig) u = 0" for u
    by (simp_all add: Health_New_def Health_DefaultConfig_def)
  have h: "heap two_reg ! 0 = newBackend DefaultConfig (bare_spec ''a'')" "heap two_reg ! 1 = newBackend DefaultConfig (bare_spec ''b'')"
    "length (heap two_reg) = 2" by (simp_all add: two_reg_def)
  show ?thesis
    using health_is_last_decisive_run [of "[(0, True), (1, False), (0, True), (0, False)]" two_reg 0 "Health_New Health_DefaultConfig"]
    unfolding c by (simp add: h [unfolded One_nat_def] s newBackend_def bare_spec_def)
qed

section \<open>A round\<close>

definition is_due :: "ns \<Rightarrow> checker \<Rightarrow> backend \<Rightarrow> bool" where
  "is_due now c b \<longleftrightarrow>
     (case last_probe c (URL b) of None \<Rightarrow> True
      | Some t \<Rightarrow> (if bhealth b = Healthy then Interval (ccfg c) else UnhealthyInterval (ccfg c)) \<le> now - t)"

lemma due_spec:
  "due b now c = (is_due now c b, if is_due now c b then c\<lparr>last_probe := (last_probe c)(URL b \<mapsto> now)\<rparr> else c)"
  by (auto simp: due_def is_due_def split: option.split)

lemma round_targets_spec:
  assumes "round_targets hp now is c = (ts, c')" and "distinct (map (\<lambda>i. URL (hp ! i)) is)"
  shows "ts = filter (\<lambda>i. HealthMod (hp ! i) = HealthActive \<and> is_due now c (hp ! i)) is \<and>
    last_probe c' = (\<lambda>u. if u \<in> (\<lambda>i. URL (hp ! i)) ` set ts then Some now else last_probe c u) \<and> ccfg c' = ccfg c \<and> streaks c' = streaks c"
  using assms
proof (induction "is" arbitrary: c ts)
  case Nil
  then show ?case by auto
next
  case (Cons i "is")
  show ?case
  proof (cases "HealthMod (hp ! i) = HealthActive \<and> is_due now c (hp ! i)")
    case False
    then have "round_targets hp now is c = (ts, c')" using Cons.prems(1) by (auto simp: due_spec split: prod.splits if_splits)
    then show ?thesis using Cons.IH False Cons.prems(2) by simp
  next
    case True
    define c1 where "c1 = c\<lparr>last_probe := (last_probe c)(URL (hp ! i) \<mapsto> now)\<rparr>"
    obtain ts1 where t: "round_targets hp now is c1 = (ts1, c')" "ts = i # ts1"
      using Cons.prems(1) True by (auto simp: due_spec c1_def split: prod.splits)
    have d: "is_due now c1 (hp ! j) = is_due now c (hp ! j)" if "j \<in> set is" for j
      using that Cons.prems(2) by (auto simp: is_due_def c1_def image_iff split: option.split)
    have dist: "distinct (map (\<lambda>i. URL (hp ! i)) is)" using Cons.prems(2) by simp
    note IH = Cons.IH [OF t(1) dist]
    have e1: "ts1 = filter (\<lambda>i. HealthMod (hp ! i) = HealthActive \<and> is_due now c (hp ! i)) is"
      using IH d by (simp cong: filter_cong)
    have e2: "last_probe c' = (\<lambda>u. if u \<in> (\<lambda>i. URL (hp ! i)) ` set ts1 then Some now else last_probe c1 u)" "ccfg c' = ccfg c1" "streaks c' = streaks c1"
      using IH by blast+
    have "last_probe c' = (\<lambda>u. if u \<in> (\<lambda>i. URL (hp ! i)) ` set ts then Some now else last_probe c u)"
      by (rule ext) (simp add: e2(1) t(2) c1_def)
    then show ?thesis using e1 e2(2,3) t(2) True by (simp add: c1_def)
  qed
qed

lemma observe_fold_frame:
  assumes "fold observe_health es (r, c) = (r', c')"
  shows "last_probe c' = last_probe c \<and> cur r' = cur r \<and>
    (\<forall>j. (\<exists>h. heap r' ! j = (heap r ! j)\<lparr>bhealth := h\<rparr>) \<and> (j \<notin> fst ` set es \<longrightarrow> heap r' ! j = heap r ! j))"
  using assms
proof (induction es arbitrary: r c)
  case Nil
  then show ?case using same_health by simp
next
  case (Cons e es)
  obtain r1 c1 where o: "observe_health e (r, c) = (r1, c1)" by fastforce
  then have f: "fold observe_health es (r1, c1) = (r', c')" using Cons.prems by simp
  note F = observe_health_frame [OF o] and G = Cons.IH [OF f]
  have "\<exists>h. heap r' ! j = (heap r ! j)\<lparr>bhealth := h\<rparr>" for j
  proof -
    obtain h where "heap r1 ! j = (heap r ! j)\<lparr>bhealth := h\<rparr>" using F by blast
    moreover obtain h' where "heap r' ! j = (heap r1 ! j)\<lparr>bhealth := h'\<rparr>" using G by blast
    ultimately show ?thesis by (intro exI [of _ h']) simp
  qed
  then show ?case using F G by auto
qed

text \<open>A round probes exactly the published backends with active checks whose interval has run out, a healthy one after the
  long interval and any other after the short one, and stamps them; it writes nothing of any backend but the health of those
  it probed: no load gauge, no breaker, no passive backend.\<close>

theorem round_probes_due_only:
  assumes "rinv r" and "Health_Round now probe arrive (r, c) = (g, r', c')" and "\<And>ts. set (arrive ts) = set ts"
  shows "\<exists>ts. set ts = {i \<in> set (Backends (cur r)). HealthMod (heap r ! i) = HealthActive \<and>
        (case last_probe c (URL (heap r ! i)) of None \<Rightarrow> True
         | Some t \<Rightarrow> (if bhealth (heap r ! i) = Healthy then Interval (ccfg c) else UnhealthyInterval (ccfg c)) \<le> now - t)} \<and>
      (\<forall>i\<in>set (Backends (cur r)). last_probe c' (URL (heap r ! i)) = (if i \<in> set ts then Some now else last_probe c (URL (heap r ! i)))) \<and>
      cur r' = cur r \<and> (\<forall>i. (\<exists>h. heap r' ! i = (heap r ! i)\<lparr>bhealth := h\<rparr>) \<and> (i \<notin> set ts \<longrightarrow> heap r' ! i = heap r ! i))"
proof -
  obtain ts c1 where t: "round_targets (heap r) now (Backends (cur r)) c = (ts, c1)" by fastforce
  have f: "fold observe_health (map (\<lambda>i. (i, probe i)) (arrive ts)) (r, c1) = (r', c')"
    using assms(2) t by (auto simp: Health_Round_def split: prod.splits)
  have d: "distinct (map (\<lambda>i. URL (heap r ! i)) (Backends (cur r)))" by (rule rinvD(6) [OF assms(1)])
  note T = round_targets_spec [OF t d] and F = observe_fold_frame [OF f]
  have ts: "set ts = {i \<in> set (Backends (cur r)). HealthMod (heap r ! i) = HealthActive \<and> is_due now c (heap r ! i)}" using T by auto
  have "last_probe c' (URL (heap r ! i)) = (if i \<in> set ts then Some now else last_probe c (URL (heap r ! i)))"
    if i: "i \<in> set (Backends (cur r))" for i
  proof -
    have "URL (heap r ! i) \<in> (\<lambda>i. URL (heap r ! i)) ` set ts \<longleftrightarrow> i \<in> set ts"
      using inj_onD [OF d [unfolded distinct_map, THEN conjunct2]] i ts by blast
    then show ?thesis using T F by simp
  qed
  moreover have "fst ` set (map (\<lambda>i. (i, probe i)) (arrive ts)) = set ts" using assms(3) by force
  ultimately show ?thesis using F ts by (intro exI [of _ ts]) (simp add: is_due_def)
qed

theorem round_probes_due_only_witness:
  "\<exists>g r' c'. Health_Round 5 (\<lambda>_. True) rev (two_reg, Health_New Health_DefaultConfig) = (g, r', c') \<and>
    last_probe c' ''a'' = Some 5 \<and> (\<exists>h. heap r' ! 1 = (newBackend DefaultConfig (bare_spec ''b''))\<lparr>bhealth := h\<rparr>)"
proof -
  obtain g r' c' where R: "Health_Round 5 (\<lambda>_. True) rev (two_reg, Health_New Health_DefaultConfig) = (g, r', c')" by (metis prod_cases3)
  have i: "rinv two_reg" by (auto simp: rinv_def two_reg_def Reg_New_def newBackend_def bare_spec_def)
  have "last_probe (Health_New Health_DefaultConfig) = Map.empty" by (simp add: Health_New_def Let_def)
  then obtain ts where ts: "set ts = {i \<in> set (Backends (cur two_reg)). HealthMod (heap two_reg ! i) = HealthActive}"
    "\<forall>i\<in>set (Backends (cur two_reg)). last_probe c' (URL (heap two_reg ! i)) = (if i \<in> set ts then Some 5 else None)"
    "\<And>i. \<exists>h. heap r' ! i = (heap two_reg ! i)\<lparr>bhealth := h\<rparr>"
    using round_probes_due_only [OF i R] by auto
  have h: "heap two_reg ! 0 = newBackend DefaultConfig (bare_spec ''a'')" "heap two_reg ! 1 = newBackend DefaultConfig (bare_spec ''b'')"
    "Backends (cur two_reg) = [0, 1]" by (simp_all add: two_reg_def)
  have "last_probe c' ''a'' = Some 5" using ts(1) bspec [OF ts(2), of 0] by (simp add: h newBackend_def bare_spec_def)
  then show ?thesis using R ts(3) [of 1] h(2) by auto
qed

end
