(* ===== verification/TreeSnapshot.thy ===== *)
theory TreeSnapshot
  imports AffinityTree KvLabels "HOL-Library.List_Lexorder" "HOL-Library.Char_ord"
begin

text \<open>
  \<^verbatim>\<open>router/internal/policy/affinity/snapshot.go\<close>: the forest as the live page shows it. Adjacent runs with the same
  holders become one display row, the rows are sized, and a flat array of at most so many rows, children and levels
  is emitted. \<^verbatim>\<open>sort.Slice\<close> leaves the order of equal subtrees open: the order by size is the argument \<open>by_size\<close>.
\<close>

section \<open>Display rows\<close>

datatype vizRun = VizRun
  (vhashes: "u64 list")
  (vtokens: "int list")
  (vmarks: markSet)
  (vkids: "vizRun list")
  (blockDepth: nat)
  (subtreeSize: nat)
  (subtreeBlocks: nat)

definition sameHolders :: "markSet \<Rightarrow> markSet \<Rightarrow> bool" where
  "sameHolders a b \<longleftrightarrow> Subset a b \<and> Subset b a"

text \<open>The loop of \<^verbatim>\<open>copyRun\<close>: the hashes and tokens of the row and the children of its last run.\<close>

function merge_chain :: "run \<Rightarrow> u64 list \<times> int list \<times> run list" where
  "merge_chain r =
     (case kids r of
        [k] \<Rightarrow>
          (if sameHolders (marks k) (marks r)
           then (case merge_chain k of (hs, ts, ks) \<Rightarrow> (hashes r @ hs, tokens r @ ts, ks))
           else (hashes r, tokens r, kids r))
      | _ \<Rightarrow> (hashes r, tokens r, kids r))"
  by pat_completeness auto
termination
proof (relation "measure size")
  fix r x21 x22
  assume "kids r = x21 # x22" "x22 = []"
  then show "(x21, r) \<in> measure size" by (cases r) simp
qed simp

declare merge_chain.simps [simp del]

lemma merge_chain_size: "merge_chain r = (hs, ts, ks) \<Longrightarrow> k \<in> set ks \<Longrightarrow> size k < size r"
proof (induction r arbitrary: hs ts ks rule: merge_chain.induct)
  case (1 r)
  have own: "size x < size r" if "x \<in> set (kids r)" for x
    using that size_list_estimation' [OF that order_refl, of size] by (cases r) simp
  show ?case
  proof (cases "\<exists>x. kids r = [x] \<and> sameHolders (marks x) (marks r)")
    case True
    then obtain x where x: "kids r = [x]" "sameHolders (marks x) (marks r)" by blast
    obtain hs1 ts1 where m: "merge_chain x = (hs1, ts1, ks)"
      using 1(2) x by (subst (asm) merge_chain.simps) (auto split: prod.splits)
    have "size k < size x" using 1(1) [OF x(1) refl x(2) m 1(3)] .
    then show ?thesis using own [of x] x(1) by simp
  next
    case False
    then have "ks = kids r" using 1(2) by (subst (asm) merge_chain.simps) (auto split: list.splits if_splits)
    then show ?thesis using own 1(3) by simp
  qed
qed

function copyRun :: "run \<Rightarrow> nat \<Rightarrow> vizRun" where
  "copyRun r parentBlockDepth =
     (case merge_chain r of (hs, ts, ks) \<Rightarrow>
        (let bd = parentBlockDepth + length hs
         in VizRun hs ts (Clone (marks r)) (sort_key (\<lambda>v. hd (vhashes v)) (map (\<lambda>k. copyRun k bd) ks)) bd 0 0))"
  by pat_completeness auto
termination
  by (relation "measure (\<lambda>(r, d). size r)") (auto dest: merge_chain_size [OF sym])

declare copyRun.simps [simp del]

definition copyOut :: "tree \<Rightarrow> vizRun list" where
  "copyOut t = concat (map (\<lambda>sh. concat (map (\<lambda>x. map (\<lambda>k. copyRun k 0) (kids (snd x))) (roots sh))) (shards t))"

text \<open>Rows and blocks of a subtree, stored in it.\<close>

fun computeSubtree :: "vizRun \<Rightarrow> vizRun" where
  "computeSubtree (VizRun hs ts ms ks bd rows blks) =
     (let ks1 = map computeSubtree ks
      in VizRun hs ts ms ks1 bd (1 + sum_list (map subtreeSize ks1)) (length hs + sum_list (map subtreeBlocks ks1)))"

record viz_options =
  MaxRows :: int
  MaxChildren :: int
  MaxDepth :: int

record tree_node =
  nHash :: "byte list"
  RunLen :: nat
  nTokens :: int
  nSubtreeBlocks :: nat
  nBlockDepth :: nat
  nDepth :: nat
  Parent :: "nat option"
  Children :: "nat list"
  Present :: "bool list"

definition fitsRows :: "viz_options \<Rightarrow> tree_node list \<Rightarrow> bool" where
  "fitsRows opts nodes \<longleftrightarrow> MaxRows opts \<le> 0 \<or> int (length nodes) < MaxRows opts"

text \<open>Every list of children is put in order before it is walked.\<close>

fun order_kids :: "(vizRun list \<Rightarrow> vizRun list) \<Rightarrow> vizRun \<Rightarrow> vizRun" where
  "order_kids by_size (VizRun hs ts ms ks bd rows blks) = VizRun hs ts ms (by_size (map (order_kids by_size) ks)) bd rows blks"

definition row_of :: "int list \<Rightarrow> vizRun \<Rightarrow> nat \<Rightarrow> nat option \<Rightarrow> tree_node" where
  "row_of sl v depth parent =
     \<lparr>nHash = HexHash (hd (vhashes v)), RunLen = length (vhashes v), nTokens = sint (word_of_int (sum_list (vtokens v)) :: 32 word), nSubtreeBlocks = subtreeBlocks v,
      nBlockDepth = blockDepth v, nDepth = depth, Parent = parent, Children = [], Present = map (Has (vmarks v)) sl\<rparr>"

definition add_child :: "nat \<Rightarrow> tree_node list \<Rightarrow> tree_node list" where
  "add_child idx nodes = nodes[idx := (nodes ! idx)\<lparr>Children := Children (nodes ! idx) @ [length nodes]\<rparr>]"

function emit :: "viz_options \<Rightarrow> int list \<Rightarrow> vizRun \<Rightarrow> nat \<Rightarrow> nat option \<Rightarrow> tree_node list \<Rightarrow> tree_node list"
  and emit_kids :: "viz_options \<Rightarrow> int list \<Rightarrow> vizRun list \<Rightarrow> nat \<Rightarrow> nat \<Rightarrow> nat \<Rightarrow> tree_node list \<Rightarrow> tree_node list" where
  "emit opts sl v depth parent nodes =
     (let nodes1 = nodes @ [row_of sl v depth parent] in
      if MaxDepth opts > 0 \<and> int depth + 1 \<ge> MaxDepth opts then nodes1
      else emit_kids opts sl (vkids v) depth (length nodes) 0 nodes1)"
| "emit_kids opts sl [] depth idx shown nodes = nodes"
| "emit_kids opts sl (k # ks) depth idx shown nodes =
     (if MaxChildren opts > 0 \<and> int shown \<ge> MaxChildren opts then nodes
      else if \<not> fitsRows opts nodes then nodes
      else emit_kids opts sl ks depth idx (shown + 1) (emit opts sl k (depth + 1) (Some idx) (add_child idx nodes)))"
  by pat_completeness auto
termination
proof (relation "measure (\<lambda>x. case x of Inl (opts, sl, v, d, p, ns) \<Rightarrow> 2 * size v + 1 | Inr (opts, sl, ks, d, i, s, ns) \<Rightarrow> 2 * size_list size ks)")
  fix opts sl v depth parent nodes x
  show "(Inr (opts, sl, vkids v, depth, length nodes, 0, x), Inl (opts, sl, v, depth, parent, nodes))
    \<in> measure (\<lambda>x. case x of Inl (opts, sl, v, d, p, ns) \<Rightarrow> 2 * size v + 1 | Inr (opts, sl, ks, d, i, s, ns) \<Rightarrow> 2 * size_list size ks)"
    by (cases v) simp
qed auto

declare emit.simps [simp del]

fun emit_roots :: "viz_options \<Rightarrow> int list \<Rightarrow> vizRun list \<Rightarrow> tree_node list \<Rightarrow> tree_node list" where
  "emit_roots opts sl [] nodes = nodes"
| "emit_roots opts sl (r # rs) nodes = (if \<not> fitsRows opts nodes then nodes else emit_roots opts sl rs (emit opts sl r 0 None nodes))"

definition flattenTree :: "(vizRun list \<Rightarrow> vizRun list) \<Rightarrow> vizRun list \<Rightarrow> viz_options \<Rightarrow> int list \<Rightarrow> tree_node list" where
  "flattenTree by_size rs opts sl = emit_roots opts sl (by_size (map (order_kids by_size) rs)) []"

record backend_meta =
  mURL :: url
  mHealthy :: bool
  mInflight :: int
  mNodes :: int
  mTokens :: int

record snapshot_view =
  vBackends :: "backend_meta list"
  vTree :: "tree_node list"
  NodesShown :: nat
  NodesTotal :: nat
  Truncated :: bool
  AvgCopies :: rat

text \<open>A slot per backend, in the order of the page.\<close>

fun page_slots :: "url list \<Rightarrow> tree \<Rightarrow> int list \<times> tree" where
  "page_slots [] t = ([], t)"
| "page_slots (u # us) t = (case slotOrCreate t u of (s, t1) \<Rightarrow> (case page_slots us t1 of (ss, t2) \<Rightarrow> (s # ss, t2)))"

text \<open>\<open>bs\<close> are the backends of the policy: URL, availability, in-flight requests.\<close>

definition Tree_Snapshot :: "(vizRun list \<Rightarrow> vizRun list) \<Rightarrow> viz_options \<Rightarrow> (url \<times> bool \<times> int) list \<Rightarrow> tree \<Rightarrow> snapshot_view \<times> tree" where
  "Tree_Snapshot by_size opts bs0 t0 =
     (let bs = sort_key fst bs0 in
      case page_slots (map fst bs) t0 of (sl, t) \<Rightarrow>
        (let rs = map computeSubtree (copyOut t); per = map_of (perBackend t); rows = flattenTree by_size rs opts sl;
             total = sum_list (map subtreeSize rs); st = stats t
         in (\<lparr>vBackends = map (\<lambda>(u, ok, n). let b = (case per u of None \<Rightarrow> no_stats | Some x \<Rightarrow> x) in
                 \<lparr>mURL = u, mHealthy = ok, mInflight = n, mNodes = bs_Runs b, mTokens = bs_Tokens b\<rparr>) bs,
               vTree = rows, NodesShown = length rows, NodesTotal = total, Truncated = (length rows < total),
               AvgCopies = (if st_Blocks st > 0 then fdiv (f64 (st_Copies st)) (f64 (st_Blocks st)) else 0)\<rparr>, t)))"

section \<open>Nothing is lost in the merge\<close>

text \<open>A display row as a run, so that \<open>holds\<close> reads it.\<close>

fun as_run :: "vizRun \<Rightarrow> run" where
  "as_run (VizRun hs ts ms ks bd rows blks) = Run hs ts (map as_run ks) ms 0 0 False"

lemma as_run_sel [simp]: "hashes (as_run v) = vhashes v" "marks (as_run v) = vmarks v" "kids (as_run v) = map as_run (vkids v)"
  by (cases v; simp)+

lemma sameHolders_iff: "sameHolders a b \<longleftrightarrow> holders a = holders b"
  by (auto simp: sameHolders_def Subset_iff holders_def)

lemma match_len_shift: "match_len (a @ b) (a @ z) = length a + match_len b z"
  by (induction a) simp_all

text \<open>The start of a run can be cut off.\<close>

lemma holds_shift:
  assumes "hashes r = a @ hashes s" and "kids r = kids s" and "holders (marks r) = holders (marks s)"
  shows "holds r (a @ z) = holds s z"
proof -
  have f: "run_find r h = run_find s h" for h using assms(2) by (simp add: run_find_def)
  have d: "drop (length a + match_len (hashes s) z) (a @ z) = drop (match_len (hashes s) z) z" by simp
  show ?thesis
    unfolding holds.simps [of r] holds.simps [of s] Let_def assms(1,3) match_len_shift f d blocks_def
    by (simp add: nth_append)
qed

definition merged :: "run \<Rightarrow> run" where
  "merged r = (case merge_chain r of (hs, ts, ks) \<Rightarrow> Run hs ts ks (marks r) 0 0 False)"

lemma merge_chain_cases:
  obtains (one) k hs ts ks where "kids r = [k]" "holders (marks k) = holders (marks r)" "merge_chain k = (hs, ts, ks)"
    "merge_chain r = (hashes r @ hs, tokens r @ ts, ks)"
  | (stop) "merge_chain r = (hashes r, tokens r, kids r)" "\<And>k. kids r = [k] \<Longrightarrow> holders (marks k) \<noteq> holders (marks r)"
proof (cases "\<exists>k. kids r = [k] \<and> holders (marks k) = holders (marks r)")
  case True
  then obtain k where k: "kids r = [k]" "holders (marks k) = holders (marks r)" by blast
  obtain hs ts ks where m: "merge_chain k = (hs, ts, ks)" by (metis prod_cases3)
  show thesis by (rule one [OF k m]) (subst merge_chain.simps, simp add: k m sameHolders_iff)
next
  case False
  show thesis
  proof (rule stop)
    show "merge_chain r = (hashes r, tokens r, kids r)"
      using False by (subst merge_chain.simps) (auto simp: sameHolders_iff split: list.split)
  qed (use False in blast)
qed

lemma merged_kids:
  assumes "wf_run r" and "merge_chain r = (hs, ts, ks)"
  shows "kids_sorted first_hash ks \<and> (\<forall>k\<in>set ks. wf_run k) \<and> (\<exists>zs. hs = hashes r @ zs) \<and>
    (\<forall>k. ks = [k] \<longrightarrow> holders (marks k) \<noteq> holders (marks r))"
  using assms
proof (induction r arbitrary: hs ts ks rule: merge_chain.induct)
  case (1 r)
  show ?case
  proof (cases rule: merge_chain_cases [of r])
    case (one k hs1 ts1 ks1)
    have "wf_run k" using 1(2) one(1) by (simp add: wf_run_sel [of r])
    with 1(1) [OF one(1) refl _ this one(3)] one 1(3) show ?thesis by (auto simp: sameHolders_iff)
  next
    case stop
    then show ?thesis using 1(2,3) by (auto simp: wf_run_sel [of r])
  qed
qed

lemma holds_merged:
  assumes "wf_run r"
  shows "holds (merged r) q = holds r q"
  using assms
proof (induction r arbitrary: q rule: merge_chain.induct)
  case (1 r)
  show ?case
  proof (cases rule: merge_chain_cases [of r])
    case (one k hs ts ks)
    have k: "wf_run k" using 1(2) one(1) by (simp add: wf_run_sel [of r])
    have m: "merged r = Run (hashes r @ hs) (tokens r @ ts) ks (marks r) 0 0 False" "merged k = Run hs ts ks (marks k) 0 0 False"
      by (simp_all add: merged_def one(3,4))
    have IH: "holds (merged k) z = holds k z" for z using 1(1) [OF one(1) refl _ k] one(2) by (simp add: sameHolders_iff)
    show ?thesis
    proof (cases q "hashes r" rule: query_cases)
      case inside
      then show ?thesis by (simp add: holds_prefix m(1))
    next
      case (beyond h q')
      have l: "holds (merged r) q = holds k (h # q')"
        using holds_shift [of "merged r" "hashes r" "merged k" "h # q'"] one(2) IH by (simp add: m beyond)
      obtain g gs where g: "hashes k = g # gs" using k by (cases "hashes k") (auto simp: wf_run_sel [of k])
      show ?thesis
      proof (cases "g = h")
        case True
        have "run_find r h = Some k" using 1(2) one(1) g True by (simp add: run_find_iff wf_run_sel [of r] first_hash_def)
        then show ?thesis using l by (simp add: beyond holds_beyond)
      next
        case False
        then have "run_find r h = None" using run_find_mem [of r h] one(1) g by (cases "run_find r h") (auto simp: first_hash_def)
        moreover have "holds k (h # q') = {}" using False g by (intro holds_diverge) simp_all
        ultimately show ?thesis using l by (simp add: beyond holds_beyond)
      qed
    next
      case off
      have "\<not> prefix q (hashes r @ hs)" "\<not> prefix (hashes r @ hs) q"
        using off prefix_same_cases [of q "hashes r @ hs" "hashes r"] append_prefixD by auto
      then show ?thesis using off by (simp add: holds_diverge m(1))
    qed
  next
    case stop
    then show ?thesis by (intro holds_cong) (simp_all add: merged_def)
  qed
qed

lemma kids_sorted_map: "(\<And>k. k \<in> set ks \<Longrightarrow> f (g k) = h k) \<Longrightarrow> kids_sorted f (map g ks) = kids_sorted h ks"
  by (simp add: kids_sorted_def comp_def cong: map_cong)

lemma sorted_firsts:
  assumes "kids_sorted first_hash ks"
  shows "sorted (map (\<lambda>k. hd (hashes k)) ks)"
proof -
  have "map (the \<circ> first_hash) ks = map (\<lambda>k. hd (hashes k)) ks"
    using assms by (auto simp: kids_sorted_def first_hash_def split: list.splits)
  moreover have "sorted (map (the \<circ> first_hash) ks)" using assms by (simp add: kids_sorted_def strict_sorted_iff)
  ultimately show ?thesis by metis
qed

lemma copyRun_wf:
  assumes "wf_run r"
  shows "\<exists>hs ts ks. merge_chain r = (hs, ts, ks) \<and> hd (vhashes (copyRun r d)) = hd (hashes r) \<and> vhashes (copyRun r d) = hs \<and> hs \<noteq> [] \<and>
    vmarks (copyRun r d) = marks r \<and> vkids (copyRun r d) = map (\<lambda>k. copyRun k (d + length hs)) ks \<and> blockDepth (copyRun r d) = d + length hs"
  using assms
proof (induction r d rule: copyRun.induct)
  case (1 r d)
  obtain hs ts ks where m: "merge_chain r = (hs, ts, ks)" by (metis prod_cases3)
  note K = merged_kids [OF 1(2) m]
  have r: "hashes r \<noteq> []" using 1(2) by (simp add: wf_run_sel [of r])
  have c: "copyRun r d = VizRun hs ts (marks r) (sort_key (\<lambda>v. hd (vhashes v)) (map (\<lambda>k. copyRun k (d + length hs)) ks)) (d + length hs) 0 0"
    by (subst copyRun.simps) (simp add: m Let_def Clone_eq)
  have "hd (vhashes (copyRun k (d + length hs))) = hd (hashes k)" if "k \<in> set ks" for k
    using 1(1) [OF m [symmetric] refl refl that] K that by auto
  then have "map (\<lambda>v. hd (vhashes v)) (map (\<lambda>k. copyRun k (d + length hs)) ks) = map (\<lambda>k. hd (hashes k)) ks" by simp
  then have so: "sorted (map (\<lambda>v. hd (vhashes v)) (map (\<lambda>k. copyRun k (d + length hs)) ks))" using sorted_firsts K by metis
  have "vkids (copyRun r d) = map (\<lambda>k. copyRun k (d + length hs)) ks" unfolding c vizRun.sel by (rule sort_key_id_if_sorted [OF so])
  then show ?case using m K r c by auto
qed

lemma holds_copy: "wf_run r \<Longrightarrow> holds (as_run (copyRun r d)) q = holds r q"
proof (induction r d arbitrary: q rule: copyRun.induct)
  case (1 r d)
  obtain hs ts ks where m: "merge_chain r = (hs, ts, ks)" by (metis prod_cases3)
  let ?g = "\<lambda>k. as_run (copyRun k (d + length hs))"
  have C: "vhashes (copyRun r d) = hs" "vmarks (copyRun r d) = marks r" "vkids (copyRun r d) = map (\<lambda>k. copyRun k (d + length hs)) ks"
    using copyRun_wf [OF 1(2), of d] m by auto
  note K = merged_kids [OF 1(2) m]
  have M: "hashes (merged r) = hs" "marks (merged r) = marks r" "kids (merged r) = ks" by (simp_all add: merged_def m)
  have fh: "first_hash (?g k) = first_hash k" if "k \<in> set ks" for k
  proof -
    have k: "wf_run k" using K that by blast
    then have "hashes k \<noteq> []" by (simp add: wf_run_sel [of k])
    then show ?thesis using copyRun_wf [OF k, of "d + length hs"] by (auto simp: first_hash_def split: list.split)
  qed
  have so: "kids_sorted first_hash (map ?g ks)" using kids_sorted_map [of ks first_hash ?g first_hash] fh K by blast
  have IH: "holds (?g k) z = holds k z" if "k \<in> set ks" for k z using 1(1) [OF m [symmetric] refl refl that] K that by blast
  have "holds (as_run (copyRun r d)) q = holds (merged r) q"
  proof (cases q hs rule: query_cases)
    case inside
    then show ?thesis by (simp add: holds_prefix C M)
  next
    case (beyond h q')
    have kk: "kids (as_run (copyRun r d)) = map ?g ks" by (simp add: C)
    have L: "run_find (as_run (copyRun r d)) h = Some c \<longleftrightarrow> (\<exists>k\<in>set ks. c = ?g k \<and> first_hash k = Some h)" for c
      unfolding run_find_iff [of "as_run (copyRun r d)", unfolded kk, OF so] using fh by auto
    have R: "run_find (merged r) h = Some k \<longleftrightarrow> k \<in> set ks \<and> first_hash k = Some h" for k using K by (simp add: run_find_iff M)
    have q: "holds (as_run (copyRun r d)) q = (case run_find (as_run (copyRun r d)) h of None \<Rightarrow> {} | Some c \<Rightarrow> holds c (h # q'))"
      using holds_beyond [of "as_run (copyRun r d)" h q'] by (simp add: beyond C)
    have q2: "holds (merged r) q = (case run_find (merged r) h of None \<Rightarrow> {} | Some c \<Rightarrow> holds c (h # q'))"
      using holds_beyond [of "merged r" h q'] by (simp add: beyond M)
    show ?thesis
    proof (cases "run_find (merged r) h")
      case None
      then have "run_find (as_run (copyRun r d)) h = None" using L R by (metis not_None_eq)
      then show ?thesis using None q q2 by simp
    next
      case (Some k)
      then have "run_find (as_run (copyRun r d)) h = Some (?g k)" using L R by blast
      then show ?thesis using IH R [of k] Some q by (simp add: q2 Some)
    qed
  next
    case off
    then show ?thesis by (simp add: holds_diverge C M)
  qed
  then show ?case using holds_merged [OF 1(2)] by simp
qed

text \<open>No row could be merged with its only child, anywhere in the tree.\<close>

fun compact :: "vizRun \<Rightarrow> bool" where
  "compact (VizRun hs ts ms ks bd rows blks) \<longleftrightarrow> (case ks of [k] \<Rightarrow> \<not> sameHolders (vmarks k) ms | _ \<Rightarrow> True) \<and> (\<forall>k\<in>set ks. compact k)"

lemma compact_sel: "compact v \<longleftrightarrow> (\<forall>k. vkids v = [k] \<longrightarrow> holders (vmarks k) \<noteq> holders (vmarks v)) \<and> (\<forall>k\<in>set (vkids v). compact k)"
  by (cases v) (auto simp: sameHolders_iff split: list.splits)

lemma copyRun_compact: "wf_run r \<Longrightarrow> compact (copyRun r d)"
proof (induction r d rule: copyRun.induct)
  case (1 r d)
  obtain hs ts ks where m: "merge_chain r = (hs, ts, ks)" by (metis prod_cases3)
  note K = merged_kids [OF 1(2) m]
  have C: "vmarks (copyRun r d) = marks r" "vkids (copyRun r d) = map (\<lambda>k. copyRun k (d + length hs)) ks"
    using copyRun_wf [OF 1(2), of d] m by auto
  have vm: "vmarks (copyRun k (d + length hs)) = marks k" if "k \<in> set ks" for k using copyRun_wf K that by blast
  have "holders (vmarks w) \<noteq> holders (vmarks (copyRun r d))" if "vkids (copyRun r d) = [w]" for w
  proof -
    have "map (\<lambda>k. copyRun k (d + length hs)) ks = [w]" using C(2) that by simp
    then obtain k where "ks = [k]" "w = copyRun k (d + length hs)" by auto
    then show ?thesis using vm [of k] K C(1) by simp
  qed
  then show ?case using 1(1) [OF m [symmetric] refl refl] K C(2) by (auto simp: compact_sel [of "copyRun r d"])
qed

text \<open>C14. The page shows the forest: every displayed root row has exactly the holders of its run on every block sequence, whatever
  was merged, ends at the block depth it says, and no row is left that could be merged into its only child.\<close>

theorem snapshot_shows_forest:
  assumes "wf_tree t" and "sh \<in> set (shards t)" and "(mk, rt) \<in> set (roots sh)" and "k \<in> set (kids rt)"
  shows "copyRun k 0 \<in> set (copyOut t) \<and> holds (as_run (copyRun k 0)) q = holds k q \<and> compact (copyRun k 0) \<and>
    blockDepth (copyRun k 0) = length (vhashes (copyRun k 0))"
proof -
  have "wf_shard sh" using assms(1,2) by (simp add: wf_tree_def)
  then have "distinct (map fst (roots sh))" "wf_root rt"
    using assms(3) by (auto simp: wf_shard_def shape_shard_def shard_marked_def wf_root_shape)
  then have k: "wf_run k" using assms(4) by (simp add: wf_root_def)
  have "copyRun k 0 \<in> set (copyOut t)" using assms(2-4) by (force simp: copyOut_def)
  then show ?thesis using holds_copy [OF k] copyRun_compact [OF k] copyRun_wf [OF k, of 0] by auto
qed

abbreviation shown_run :: run where
  "shown_run \<equiv> Run [11, 12] [128, 64] [] \<lparr>words = [1]\<rparr> 5 1 True"

theorem snapshot_shows_forest_witness:
  "copyRun shown_run 0 \<in> set (copyOut (snd (commit 5 one_backend two_blocks 0))) \<and>
   holds (as_run (copyRun shown_run 0)) [11] = holds shown_run [11]"
proof -
  let ?t = "snd (commit 5 one_backend two_blocks 0)"
  have wf: "wf_tree ?t" using pf.inv_put [OF one_backend_wf one_backend_slot, of two_blocks 5] by simp
  have "8 < length (shards ?t)" using wf by (simp add: wf_tree_def numShards_def)
  then have sh: "shards ?t ! 8 \<in> set (shards ?t)" by (rule nth_mem)
  have rt: "(3, Run [] [] [shown_run] \<lparr>words = []\<rparr> 0 0 False) \<in> set (roots (shards ?t ! 8))" by code_simp
  show ?thesis using snapshot_shows_forest [OF wf sh rt, of shown_run "[11]"] by simp
qed

section \<open>The flat rows\<close>

text \<open>The children of a row are the rows that name it as parent, each once and below it, one level deeper, and the caps
  hold.\<close>

definition row_linked :: "viz_options \<Rightarrow> tree_node list \<Rightarrow> nat \<Rightarrow> bool" where
  "row_linked opts ns i \<longleftrightarrow>
     (\<forall>j. j \<in> set (Children (ns ! i)) \<longleftrightarrow> j < length ns \<and> Parent (ns ! j) = Some i) \<and> distinct (Children (ns ! i)) \<and>
     (case Parent (ns ! i) of None \<Rightarrow> nDepth (ns ! i) = 0 | Some p \<Rightarrow> p < i \<and> nDepth (ns ! i) = nDepth (ns ! p) + 1) \<and>
     (MaxChildren opts > 0 \<longrightarrow> int (length (Children (ns ! i))) \<le> MaxChildren opts) \<and>
     (MaxDepth opts > 0 \<longrightarrow> int (nDepth (ns ! i)) < MaxDepth opts)"

definition rows_linked :: "viz_options \<Rightarrow> tree_node list \<Rightarrow> bool" where
  "rows_linked opts ns \<longleftrightarrow> (\<forall>i<length ns. row_linked opts ns i) \<and> (MaxRows opts > 0 \<longrightarrow> int (length ns) \<le> MaxRows opts)"

lemma row_of_sel [simp]: "Children (row_of sl v d p) = []" "Parent (row_of sl v d p) = p" "nDepth (row_of sl v d p) = d"
  by (simp_all add: row_of_def)

lemma length_add_child [simp]: "length (add_child idx ns) = length ns"
  by (simp add: add_child_def)

lemma add_child_nth:
  "i < length ns \<Longrightarrow> add_child idx ns ! i = (if i = idx then (ns ! i)\<lparr>Children := Children (ns ! i) @ [length ns]\<rparr> else ns ! i)"
  by (simp add: add_child_def nth_list_update)

lemma rows_linked_parent:
  assumes "rows_linked opts ns" and "i < length ns" and "Parent (ns ! i) = Some p"
  shows "p < i"
  using assms by (auto simp: rows_linked_def row_linked_def split: option.splits)

lemma rows_linked_root:
  assumes "rows_linked opts ns" and "fitsRows opts ns"
  shows "rows_linked opts (ns @ [row_of sl v 0 None])"
proof -
  let ?ms = "ns @ [row_of sl v 0 None]"
  have "row_linked opts ?ms i" if "i < length ?ms" for i
  proof (cases "i = length ns")
    case True
    then show ?thesis using rows_linked_parent [OF assms(1)] by (auto simp: row_linked_def nth_append) fastforce
  next
    case False
    then have "i < length ns" using that by simp
    then have "row_linked opts ns i" using assms(1) by (simp add: rows_linked_def)
    then show ?thesis using \<open>i < length ns\<close>
      by (auto simp: row_linked_def nth_append less_Suc_eq split: option.splits if_splits)
  qed
  then show ?thesis using assms(2) by (auto simp: rows_linked_def fitsRows_def)
qed

lemma rows_linked_child:
  assumes L: "rows_linked opts ns" and "fitsRows opts ns" and p: "p < length ns" "nDepth (ns ! p) = depth"
    and "MaxDepth opts > 0 \<Longrightarrow> int depth + 1 < MaxDepth opts"
    and "MaxChildren opts > 0 \<Longrightarrow> int (length (Children (ns ! p))) < MaxChildren opts"
  shows "rows_linked opts (add_child p ns @ [row_of sl v (depth + 1) (Some p)])"
proof -
  let ?ms = "add_child p ns @ [row_of sl v (depth + 1) (Some p)]"
  have n: "?ms ! j = (if j < length ns then if j = p then (ns ! j)\<lparr>Children := Children (ns ! j) @ [length ns]\<rparr> else ns ! j
      else row_of sl v (depth + 1) (Some p))" if "j < length ?ms" for j
    using that by (auto simp: nth_append add_child_nth)
  have P: "Parent (?ms ! j) = (if j < length ns then Parent (ns ! j) else Some p)" if "j < length ?ms" for j using n [OF that] by simp
  have D: "nDepth (?ms ! j) = (if j < length ns then nDepth (ns ! j) else depth + 1)" if "j < length ?ms" for j using n [OF that] by simp
  have C: "Children (?ms ! j) = (if j < length ns then if j = p then Children (ns ! j) @ [length ns] else Children (ns ! j) else [])"
    if "j < length ?ms" for j using n [OF that] by simp
  have old: "row_linked opts ns i" if "i < length ns" for i using L that by (simp add: rows_linked_def)
  have "row_linked opts ?ms i" if i: "i < length ?ms" for i
  proof (cases "i < length ns")
    case True
    have kids: "j \<in> set (Children (?ms ! i)) \<longleftrightarrow> j < length ?ms \<and> Parent (?ms ! j) = Some i" for j
    proof -
      have o: "j \<in> set (Children (ns ! i)) \<longleftrightarrow> j < length ns \<and> Parent (ns ! j) = Some i" using old [OF True] by (simp add: row_linked_def)
      have c: "j \<in> set (Children (?ms ! i)) \<longleftrightarrow> j \<in> set (Children (ns ! i)) \<or> i = p \<and> j = length ns" using C [OF i] True by auto
      show ?thesis
      proof (cases "j < length ?ms")
        case True
        then show ?thesis unfolding c o P [OF True] by (cases "j < length ns") auto
      next
        case False
        then show ?thesis unfolding c o by auto
      qed
    qed
    have fresh: "length ns \<notin> set (Children (ns ! i))" using old [OF True] by (auto simp: row_linked_def)
    then have di: "distinct (Children (?ms ! i))" using old [OF True] C [OF i] True by (auto simp: row_linked_def)
    have up: "case Parent (?ms ! i) of None \<Rightarrow> nDepth (?ms ! i) = 0 | Some q \<Rightarrow> q < i \<and> nDepth (?ms ! i) = nDepth (?ms ! q) + 1"
    proof (cases "Parent (ns ! i)")
      case None
      then show ?thesis using old [OF True] P [OF i] D [OF i] True by (simp add: row_linked_def)
    next
      case (Some q)
      then have q: "q < i" "nDepth (ns ! i) = nDepth (ns ! q) + 1" using old [OF True] by (simp_all add: row_linked_def)
      have "q < length ?ms" "q < length ns" using q(1) True by simp_all
      then have "nDepth (?ms ! i) = nDepth (?ms ! q) + 1" using D [OF i] D [OF \<open>q < length ?ms\<close>] q True by simp
      then show ?thesis using P [OF i] Some q(1) True by simp
    qed
    have mc: "MaxChildren opts > 0 \<longrightarrow> int (length (Children (?ms ! i))) \<le> MaxChildren opts"
    proof -
      have "MaxChildren opts > 0 \<longrightarrow> int (length (Children (ns ! i))) \<le> MaxChildren opts" using old [OF True] by (simp add: row_linked_def)
      then show ?thesis unfolding C [OF i] using True assms(6) by (cases "i = p") auto
    qed
    have md: "MaxDepth opts > 0 \<longrightarrow> int (nDepth (?ms ! i)) < MaxDepth opts"
      unfolding D [OF i] using old [OF True] True by (simp add: row_linked_def)
    show ?thesis unfolding row_linked_def by (intro conjI allI kids di up mc md)
  next
    case False
    then have i: "i = length ns" using i by simp
    have kids: "j \<in> set (Children (?ms ! i)) \<longleftrightarrow> j < length ?ms \<and> Parent (?ms ! j) = Some i" for j
    proof -
      have "Parent (?ms ! j) \<noteq> Some i" if j: "j < length ?ms"
        unfolding P [OF j] using rows_linked_parent [OF L, of j i] p i by auto
      then show ?thesis using C [of i] i by auto
    qed
    have up: "Parent (?ms ! i) = Some p" "nDepth (?ms ! i) = nDepth (?ms ! p) + 1" "nDepth (?ms ! i) = depth + 1" "Children (?ms ! i) = []"
      using P [of i] D [of i] D [of p] C [of i] p i by simp_all
    then show ?thesis unfolding row_linked_def using kids p i impI [OF assms(5)] by (simp add: add.commute)
  qed
  then show ?thesis using assms(2) by (auto simp: rows_linked_def fitsRows_def)
qed

lemma emit_linked:
  "rows_linked opts (nodes @ [row_of sl v depth parent]) \<Longrightarrow>
     rows_linked opts (emit opts sl v depth parent nodes) \<and> length nodes < length (emit opts sl v depth parent nodes) \<and>
     (\<forall>i<length nodes. emit opts sl v depth parent nodes ! i = nodes ! i)"
  "rows_linked opts ns \<Longrightarrow> idx < length ns \<Longrightarrow> nDepth (ns ! idx) = d \<Longrightarrow> length (Children (ns ! idx)) = shown \<Longrightarrow>
     (MaxDepth opts > 0 \<longrightarrow> int d + 1 < MaxDepth opts) \<Longrightarrow>
     rows_linked opts (emit_kids opts sl ks d idx shown ns) \<and> length ns \<le> length (emit_kids opts sl ks d idx shown ns) \<and>
     (\<forall>i<length ns. i \<noteq> idx \<longrightarrow> emit_kids opts sl ks d idx shown ns ! i = ns ! i)"
proof (induction opts sl v depth parent nodes and opts sl ks d idx shown ns rule: emit_emit_kids.induct)
  case (1 opts sl v depth parent nodes)
  let ?m = "nodes @ [row_of sl v depth parent]"
  show ?case
  proof (cases "MaxDepth opts > 0 \<and> int depth + 1 \<ge> MaxDepth opts")
    case True
    then show ?thesis using 1(2) by (simp add: emit.simps nth_append)
  next
    case False
    have e: "emit opts sl v depth parent nodes = emit_kids opts sl (vkids v) depth (length nodes) 0 ?m"
      by (subst emit.simps) (simp only: Let_def if_not_P [OF False])
    show ?thesis unfolding e using 1(1) [OF refl False 1(2)] False by (auto simp: nth_append)
  qed
next
  case (3 opts sl k ks depth idx shown nodes)
  show ?case
  proof (cases "MaxChildren opts > 0 \<and> int shown \<ge> MaxChildren opts \<or> \<not> fitsRows opts nodes")
    case True
    then show ?thesis using 3(3) by auto
  next
    case False
    let ?e = "emit opts sl k (depth + 1) (Some idx) (add_child idx nodes)"
    have e: "emit_kids opts sl (k # ks) depth idx shown nodes = emit_kids opts sl ks depth idx (shown + 1) ?e" using False by auto
    have "rows_linked opts (add_child idx nodes @ [row_of sl k (depth + 1) (Some idx)])"
      using rows_linked_child [OF 3(3) _ 3(4,5)] False 3(6,7) by auto
    then have E: "rows_linked opts ?e" "length nodes < length ?e" "\<And>i. i < length nodes \<Longrightarrow> ?e ! i = add_child idx nodes ! i"
      using 3(1) False by auto
    have "idx < length ?e" "nDepth (?e ! idx) = depth" "length (Children (?e ! idx)) = shown + 1"
      using E(2,3) 3(4,5,6) by (simp_all add: add_child_nth)
    then show ?thesis unfolding e using 3(2) [OF _ _ E(1)] E(2,3) False 3(7) by (auto simp: add_child_nth)
  qed
qed simp

lemma emit_roots_linked: "rows_linked opts ns \<Longrightarrow> rows_linked opts (emit_roots opts sl rs ns)"
  by (induction rs arbitrary: ns) (simp_all add: rows_linked_root emit_linked)

text \<open>Without caps every row is shown.\<close>

fun row_count :: "vizRun \<Rightarrow> nat" where
  "row_count (VizRun hs ts ms ks bd rows blks) = 1 + sum_list (map row_count ks)"

lemma row_count_computeSubtree: "row_count (computeSubtree v) = row_count v \<and> subtreeSize (computeSubtree v) = row_count v"
  by (induction v) (simp add: Let_def comp_def cong: map_cong)

lemma sum_list_by_size: "mset (g xs) = mset xs \<Longrightarrow> sum_list (map f (g xs)) = sum_list (map (f :: 'a \<Rightarrow> nat) xs)"
  by (metis mset_map sum_mset_sum_list)

lemma row_count_order_kids:
  assumes "\<And>xs. mset (by_size xs) = mset xs"
  shows "row_count (order_kids by_size v) = row_count v"
  by (induction v) (simp add: sum_list_by_size [of by_size, OF assms] comp_def cong: map_cong)

definition uncapped :: "viz_options \<Rightarrow> bool" where
  "uncapped opts \<longleftrightarrow> MaxRows opts \<le> 0 \<and> MaxChildren opts \<le> 0 \<and> MaxDepth opts \<le> 0"

lemma length_emit:
  "uncapped opts \<Longrightarrow> length (emit opts sl v depth parent nodes) = length nodes + row_count v"
  "uncapped opts \<Longrightarrow> length (emit_kids opts sl ks depth idx shown nodes) = length nodes + sum_list (map row_count ks)"
proof (induction opts sl v depth parent nodes and opts sl ks depth idx shown nodes rule: emit_emit_kids.induct)
  case (1 opts sl v depth parent nodes)
  then show ?case by (subst emit.simps) (cases v, auto simp: Let_def uncapped_def)
qed (auto simp: uncapped_def fitsRows_def)

lemma length_emit_roots:
  "uncapped opts \<Longrightarrow> length (emit_roots opts sl rs nodes) = length nodes + sum_list (map row_count rs)"
  by (induction rs arbitrary: nodes) (simp_all add: length_emit uncapped_def fitsRows_def)

lemma length_flattenTree:
  assumes "\<And>xs. mset (by_size xs) = mset xs" and "uncapped opts"
  shows "length (flattenTree by_size (map computeSubtree vs) opts sl) = sum_list (map subtreeSize (map computeSubtree vs))"
  using assms(2) by (simp add: flattenTree_def length_emit_roots sum_list_by_size [of by_size, OF assms(1)]
      row_count_order_kids [OF assms(1)] row_count_computeSubtree comp_def)

text \<open>C15. The page gets a forest: the children of every row are exactly the rows that name it, deeper and later than it, so no
  entry dangles whatever cap bites; no cap is passed; and a view with no cap is not truncated, however \<^verbatim>\<open>sort.Slice\<close> orders equal
  subtrees.\<close>

theorem snapshot_rows_linked:
  assumes "\<And>xs. mset (by_size xs) = mset xs"
  shows "rows_linked opts (vTree (fst (Tree_Snapshot by_size opts bs t))) \<and>
    (uncapped opts \<longrightarrow> NodesShown (fst (Tree_Snapshot by_size opts bs t)) = NodesTotal (fst (Tree_Snapshot by_size opts bs t)) \<and>
      \<not> Truncated (fst (Tree_Snapshot by_size opts bs t)))"
proof -
  obtain sl t1 where p: "page_slots (map fst (sort_key fst bs)) t = (sl, t1)" by (metis prod.collapse)
  have "rows_linked opts []" by (simp add: rows_linked_def)
  then have "rows_linked opts (flattenTree by_size rs opts sl)" for rs unfolding flattenTree_def by (rule emit_roots_linked)
  then show ?thesis using length_flattenTree [OF assms] by (simp add: Tree_Snapshot_def Let_def p)
qed

theorem snapshot_rows_linked_witness:
  "rows_linked \<lparr>MaxRows = 3, MaxChildren = 2, MaxDepth = 0\<rparr> (vTree (fst (Tree_Snapshot (sort_key (\<lambda>v. - int (subtreeSize v)))
     \<lparr>MaxRows = 3, MaxChildren = 2, MaxDepth = 0\<rparr> [(''http://a'', True, 0)] (snd (commit 5 one_backend two_blocks 0)))))"
  using snapshot_rows_linked [of "sort_key (\<lambda>v. - int (subtreeSize v))"] by simp

end
