(* ===== verification/Spec2Isabelle.thy ===== *)
theory Spec2Isabelle
  imports Lease Registry Circuit FlowProps JsonProps KvProps KvLabels DialectProps PrefillSystem PrefillView Routing SplitProps Retention Health TreeSnapshot
begin

text \<open>
  A verification library for the router of wekai: a proxy in front of a fleet of LLM servers that sends a
  request to the server that already holds its prompt's key-value cache, as long as that server is not too
  loaded. The decision, the state it rests on and the accounting that feeds it are modelled; HTTP is not.

  \<^bold>\<open>How the parts interact.\<close> A request body is scanned (\<^verbatim>\<open>jsonscan\<close>) for its model and its prompt, which is
  cut into hashed units (\<^verbatim>\<open>kvcache\<close>). The gateway asks the policy (\<^verbatim>\<open>policy/affinity\<close>) for a backend among
  those the registry's snapshot offers and whose circuit admits them; the policy reads the backends' gauges
  and percentiles and the shared prefix tree. The proxy takes a lease on the chosen backend, forwards, and
  on success commits the path to the tree; releasing the lease wakes the next request waiting for that
  backend. The registry tells the policy which backends join and leave.

  \<^bold>\<open>Theories and the code they model.\<close>

  \<^item> \<open>Prelude\<close>: Go types, lemma collections, the sorted child index with its binary search (locale
    \<open>child_index\<close>, interpreted on the code's search).
  \<^item> \<open>MarkSet\<close>: \<^verbatim>\<open>affinity/markset.go\<close>, bit sets on 64-bit words; they refine finite sets (\<open>holder_set\<close>).
  \<^item> \<open>KvUnits\<close>: \<^verbatim>\<open>kvcache/kvcache.go\<close>, units, hashing, chunking, coverage.
  \<^item> \<open>PrefixTree\<close> holds the definitions of \<^verbatim>\<open>affinity/tree.go\<close>; \<open>TreeShape\<close>, \<open>TreeCommit\<close>, \<open>TreeWalk\<close>,
    \<open>TreeEvict\<close>, \<open>TreeForest\<close> carry the lemmas on one run, one shard and the forest; \<open>AffinityTree\<close> and
    \<open>AffinityEvict\<close> state what each operation does to the abstract state, the map from paths to holders.
  \<^item> \<open>Float64\<close>: binary64 arithmetic on rationals, for the thresholds the code computes in \<^verbatim>\<open>float64\<close>.
  \<^item> \<open>Circuit\<close>: \<^verbatim>\<open>circuit/circuit.go\<close>, with the half-open semaphore as a step relation.
  \<^item> \<open>Waitq\<close>: \<^verbatim>\<open>waitq/waitq.go\<close>, the per-backend wait queue, with what runs outside its lock as steps.
  \<^item> \<open>Backend\<close>: \<^verbatim>\<open>registry/backend.go\<close>, gauges, the rolling percentile, base paths.
  \<^item> \<open>Lease\<close>: \<^verbatim>\<open>lease/lease.go\<close>, load accounting as a step relation over atomic operations.
  \<^item> \<open>Registry\<close>: \<^verbatim>\<open>registry/registry.go\<close>, snapshots, upserts, drains and reconciliation.
  \<^item> \<open>Selector\<close>: \<^verbatim>\<open>policy/policy.go\<close> and \<^verbatim>\<open>affinity/signal.go\<close>; \<open>Flow\<close> and \<open>FlowProps\<close>: \<^verbatim>\<open>affinity/policy.go\<close> and
    \<^verbatim>\<open>affinity/relative.go\<close>, the routing ladder and what it promises.
  \<^item> \<open>KvTrie\<close> holds the definitions of the bounded prefix-cache trie of \<^verbatim>\<open>kvcache/kvcache.go\<close>, nodes as addresses
    of a heap with parent and recency links; \<open>KvLru\<close> (recency list), \<open>KvShape\<close> (trie), \<open>KvEvict\<close>, \<open>KvOps\<close> and
    \<open>KvPin\<close> carry the invariants through the operations, \<open>KvFlight\<close> adds what holds while the requests in flight fit the
    caps, \<open>KvProps\<close> states what they promise, \<open>KvLabels\<close> the label forms. The code neither checks that a request it pins
    survived its own insertion nor that no pin is held at a reset; \<open>KvProps\<close> makes that a condition on runs (\<open>survives\<close>)
    and shows which caches meet it.
  \<^item> \<open>Dialect\<close> and \<open>DialectProps\<close>: \<^verbatim>\<open>dialect/dialect.go\<close> and \<^verbatim>\<open>dialect/openai/openai.go\<close>, from a body to its units,
    usage accounting, the end of a stream (a marker line of up to 8 KiB is never missed).
  \<^item> \<open>Prefill\<close>, \<open>PrefillProps\<close>, \<open>PrefillSystem\<close>, \<open>PrefillView\<close>: \<^verbatim>\<open>prefill/manager.go\<close>, which nodes prefill, and the
    jobs queued on them.
  \<^item> \<open>GoStrings\<close> and \<open>Routing\<close>: \<^verbatim>\<open>routing/routing.go\<close>, from a model name to a pool.
  \<^item> \<open>Proxy\<close> holds the definitions of \<^verbatim>\<open>proxy/proxy.go\<close>, one request, its attempts and the verdicts they leave;
    \<open>ProxyProps\<close> reads its traces, \<open>ProxyLoad\<close> relates it to the lease system of \<open>Lease\<close>.
  \<^item> \<open>CapacityRetry\<close> and \<open>CapacityProps\<close>: \<^verbatim>\<open>gateway/capacity_retry.go\<close>, the loop around \<^verbatim>\<open>Serve\<close> that waits for
    capacity on the queues of \<open>Waitq\<close>, and the answer of the handler in \<^verbatim>\<open>gateway/gateway.go\<close>.
  \<^item> \<open>SplitServe\<close> and \<open>SplitProps\<close>: \<^verbatim>\<open>gateway/prefill_split.go\<close>, \<^verbatim>\<open>gateway/pd_serve.go\<close>, \<^verbatim>\<open>pd/pd.go\<close>, a request prefilled on
    one node and decoded on another: \<open>Prefill\<close>'s manager, \<open>Proxy\<close>'s attempts and \<open>CapacityRetry\<close>'s loop composed as the
    gateway composes them.
  \<^item> \<open>Health\<close>: \<^verbatim>\<open>health/health.go\<close>, who is probed in a round and the hysteresis, read back as the latest decisive run of
    answers.
  \<^item> \<open>TreeSnapshot\<close>: \<^verbatim>\<open>affinity/snapshot.go\<close>, the forest as the live page shows it: merged rows hold what their runs hold,
    and the flat rows form a forest under every cap.
  \<^item> \<open>PrefixStore\<close> and \<open>Retention\<close>: \<^verbatim>\<open>benchmark/replay_prefix_store.go\<close> and \<^verbatim>\<open>benchmark/retention_sim.go\<close>, the compressed
    store of replayed requests, and the one-pass retention simulation against one cache per time to live.
  \<^item> \<open>JsonScan\<close> and \<open>JsonProps\<close>: \<^verbatim>\<open>jsonscan/jsonscan.go\<close>, the scanner against a JSON grammar.

  \<^bold>\<open>Conventions.\<close> Time is an argument (\<open>ns\<close>, nanoseconds). A \<^verbatim>\<open>float64\<close> is the rational it denotes, rounded
  after every operation. Go \<^verbatim>\<open>int64\<close> counters are \<open>int\<close> where they cannot reach the bound, words where wrap-around
  matters. SHA-256, URL canonicalisation, random draws and map iteration order are arguments. What runs under
  a lock is one function; what several goroutines interleave is an inductive step relation. What the network and
  the other requests do to one request is an argument of its functions: a \<open>dispatch\<close> per attempt, a \<open>turn\<close> per turn of
  the proxy's loop, an \<open>iteration\<close> per turn of the capacity loop; the functions over shared state that stand for the
  other requests are free, and hypotheses restrict them to what those requests may do.

  \<^bold>\<open>Fuel.\<close> \<open>dropBackend\<close> has the number of runs; \<open>Serve\<close> needs more than the number of candidates, since every turn
  that goes on drops one (\<open>Serve_some\<close>); the capacity loop ends with its budget (\<open>retry_ends_with_budget\<close>); the waits
  and retries of a split request end with the caller's patience and the budget (\<open>split_ends\<close>); the walk of
  \<open>Units\<close> over predecessors needs 32 hops, the distance between two requests stored whole (\<open>prefix_store_roundtrip\<close>).

  \<^bold>\<open>Not modelled.\<close> The Kubernetes client (it feeds \<open>ReconcileDiscovered\<close>), metrics and logging, the clock, HTTP routing,
  middleware and the rewriting of headers and URLs (\<^verbatim>\<open>net/http\<close>, \<^verbatim>\<open>net/url\<close>), the editing of bodies for prefill jobs, server
  assembly and the command line, the mock engine and the load generator, the clients of hosted model APIs, and the
  reports drawn from benchmark replays: wiring, input and output around the parts above.
\<close>

end
